(* ===== verification/Prelude.thy ===== *)
theory Prelude
  imports Main "HOL-Library.List_Lexorder" "HOL-Library.Char_ord" "HOL-Library.Multiset"
begin

text \<open>
  Shared vocabulary of the development: failures as values, checked 64-bit
  arithmetic, the string operations of Rust's \<open>str\<close> and the ordered containers
  \<open>BTreeMap\<close> and \<open>BTreeSet\<close>.

  A Rust \<open>String\<close> is the list of its UTF-8 bytes, so \<open>char list\<close> with the
  lexicographic order is Rust's order on \<open>str\<close>.  A \<open>BTreeMap\<close> is the list of its
  entries in key order; equality of maps is then equality of lists, and iteration is
  the list itself.
\<close>

named_theorems res_simps \<open>rewrite rules of the result monad\<close>
named_theorems bm_simps \<open>lookups in ordered maps after updates\<close>
named_theorems bm_wf_intros \<open>preservation of key order\<close>

section \<open>Failures\<close>

text \<open>
  \<open>Err\<close> is an error the source constructs with its text, \<open>Foreign\<close> an error
  whose text comes from a library, \<open>Panic\<close> an \<open>expect\<close>, \<open>unreachable!\<close> or
  index panic.
\<close>

datatype fault = Err string | Foreign | Panic string

type_synonym 'a res = "fault + 'a"

definition rbind :: "'a res \<Rightarrow> ('a \<Rightarrow> 'b res) \<Rightarrow> 'b res" where
  "rbind r f = (case r of Inl e \<Rightarrow> Inl e | Inr x \<Rightarrow> f x)"

lemma rbind_Inl [simp, res_simps]: "rbind (Inl e) f = Inl e"
  by (simp add: rbind_def)

lemma rbind_Inr [simp, res_simps]: "rbind (Inr x) f = f x"
  by (simp add: rbind_def)

lemma rbind_eq_Inr [simp]: "rbind r f = Inr y \<longleftrightarrow> (\<exists>x. r = Inr x \<and> f x = Inr y)"
  by (cases r) auto

lemma rbind_eq_Inl:
  "rbind r f = Inl e \<longleftrightarrow> r = Inl e \<or> (\<exists>x. r = Inr x \<and> f x = Inl e)"
  by (cases r) auto

lemma rbind_assoc: "rbind (rbind r f) g = rbind r (\<lambda>x. rbind (f x) g)"
  by (cases r) auto

lemma rbind_cong [fundef_cong]:
  "r = r' \<Longrightarrow> (\<And>x. r' = Inr x \<Longrightarrow> f x = f' x) \<Longrightarrow> rbind r f = rbind r' f'"
  by (cases r') auto

lemma not_isl_Inr: "\<not> isl r \<Longrightarrow> \<exists>x. r = Inr x"
  by (cases r) auto

lemma option_eqI: "(\<And>v. a = Some v \<longleftrightarrow> b = Some v) \<Longrightarrow> a = b"
  by (cases a; cases b) auto

text \<open>Inspecting a result: an error is a value to the caller, a panic is not.\<close>

definition attempt :: "'a res \<Rightarrow> (fault + 'a) res" where
  "attempt r = (case r of Inl (Panic m) \<Rightarrow> Inl (Panic m) | Inl e \<Rightarrow> Inr (Inl e) | Inr x \<Rightarrow> Inr (Inr x))"

lemma attempt_Inr [simp]: "attempt (Inr x) = Inr (Inr x)"
  by (simp add: attempt_def)

lemma attempt_eq_Inr_Inr [simp]: "attempt r = Inr (Inr x) \<longleftrightarrow> r = Inr x"
  by (auto simp: attempt_def split: sum.splits fault.splits)

lemma attempt_eq_Inr_Inl: "attempt r = Inr (Inl e) \<Longrightarrow> r = Inl e"
  by (auto simp: attempt_def split: sum.splits fault.splits)

text \<open>\<open>ok_or\<close>: an absent option becomes the given error.\<close>

definition ok_or :: "fault \<Rightarrow> 'a option \<Rightarrow> 'a res" where
  "ok_or e x = (case x of None \<Rightarrow> Inl e | Some y \<Rightarrow> Inr y)"

lemma ok_or_simps [simp, res_simps]: "ok_or e None = Inl e" "ok_or e (Some y) = Inr y"
  by (simp_all add: ok_or_def)

lemma ok_or_eq_Inr [simp]: "ok_or e x = Inr y \<longleftrightarrow> x = Some y"
  by (cases x) auto

lemma ok_or_eq_Inl [simp]: "ok_or e x = Inl f \<longleftrightarrow> x = None \<and> f = e"
  by (cases x) auto

text \<open>A loop whose body may return early with an error.\<close>

fun rfold :: "('a \<Rightarrow> 's \<Rightarrow> 's res) \<Rightarrow> 'a list \<Rightarrow> 's \<Rightarrow> 's res" where
  "rfold f [] s = Inr s"
| "rfold f (x # xs) s = rbind (f x s) (rfold f xs)"

lemma rfold_append: "rfold f (xs @ ys) s = rbind (rfold f xs s) (rfold f ys)"
  by (induction xs arbitrary: s) (auto simp: rbind_def split: sum.splits)

lemma rfold_cong [fundef_cong]:
  "xs = ys \<Longrightarrow> s = t \<Longrightarrow> (\<And>x s. x \<in> set ys \<Longrightarrow> f x s = g x s) \<Longrightarrow> rfold f xs s = rfold g ys t"
proof -
  assume "xs = ys" "s = t" and eq: "\<And>x s. x \<in> set ys \<Longrightarrow> f x s = g x s"
  from eq have "rfold f ys t = rfold g ys t"
  proof (induction ys arbitrary: t)
    case Nil
    show ?case by simp
  next
    case (Cons y ys)
    then have "rfold f ys u = rfold g ys u" for u by simp
    with Cons.prems show ?case by (auto intro: rbind_cong)
  qed
  with \<open>xs = ys\<close> \<open>s = t\<close> show ?thesis by simp
qed

lemma rfold_map: "rfold f (map g xs) s = rfold (\<lambda>x. f (g x)) xs s"
  by (induction xs arbitrary: s) (auto intro: rbind_cong)

lemma rfold_invariant:
  assumes "rfold f xs s = Inr t" and "P s"
    and "\<And>x s t. x \<in> set xs \<Longrightarrow> P s \<Longrightarrow> f x s = Inr t \<Longrightarrow> P t"
  shows "P t"
  using assms
proof (induction xs arbitrary: s)
  case Nil
  then show ?case by simp
next
  case (Cons x xs)
  from Cons.prems(1) obtain u where u: "f x s = Inr u" and r: "rfold f xs u = Inr t" by auto
  from Cons.prems(2,3) u have "P u" by (meson list.set_intros(1))
  from Cons.IH [OF r this] Cons.prems(3) show ?case by (meson list.set_intros(2))
qed

text \<open>\<open>collect::<Result<Vec<_>, _>>\<close>: the first error wins.\<close>

fun rmap :: "('a \<Rightarrow> 'b res) \<Rightarrow> 'a list \<Rightarrow> 'b list res" where
  "rmap f [] = Inr []"
| "rmap f (x # xs) = rbind (f x) (\<lambda>y. rbind (rmap f xs) (\<lambda>ys. Inr (y # ys)))"

lemma rmap_cong [fundef_cong]:
  "xs = ys \<Longrightarrow> (\<And>x. x \<in> set ys \<Longrightarrow> f x = g x) \<Longrightarrow> rmap f xs = rmap g ys"
  by (induction ys arbitrary: xs) auto

lemma rmap_Inr_length: "rmap f xs = Inr ys \<Longrightarrow> length ys = length xs"
  by (induction xs arbitrary: ys) auto

lemma rmap_Inr_iff: "rmap f xs = Inr ys \<longleftrightarrow> list_all2 (\<lambda>x y. f x = Inr y) xs ys"
proof (induction xs arbitrary: ys)
  case Nil
  show ?case by auto
next
  case (Cons x xs)
  then show ?case by (auto simp: list_all2_Cons1)
qed

text \<open>\<open>retain\<close> with a predicate that may fail.\<close>

fun rfilter :: "('a \<Rightarrow> bool res) \<Rightarrow> 'a list \<Rightarrow> 'a list res" where
  "rfilter P [] = Inr []"
| "rfilter P (x # xs) =
     rbind (P x) (\<lambda>keep. rbind (rfilter P xs) (\<lambda>ys. Inr (if keep then x # ys else ys)))"

lemma rfilter_total: "(\<And>x. x \<in> set xs \<Longrightarrow> P x = Inr (Q x)) \<Longrightarrow> rfilter P xs = Inr (filter Q xs)"
  by (induction xs) auto

lemma rfilter_Inr: "rfilter P xs = Inr ys \<Longrightarrow> ys = filter (\<lambda>x. P x = Inr True) xs"
  by (induction xs arbitrary: ys) (auto split: if_splits)

section \<open>Machine integers\<close>

text \<open>\<open>i64\<close>, \<open>u32\<close>, \<open>u64\<close> and \<open>usize\<close> values are kept as integers or
  naturals; the checked and saturating operations of the source write their range out.\<close>

definition i64_max :: int where "i64_max = 9223372036854775807"
definition i64_min :: int where "i64_min = -9223372036854775808"

definition is_i64 :: "int \<Rightarrow> bool" where
  "is_i64 n \<longleftrightarrow> i64_min \<le> n \<and> n \<le> i64_max"

definition i64_checked_add :: "int \<Rightarrow> int \<Rightarrow> int option" where
  "i64_checked_add a b = (if is_i64 (a + b) then Some (a + b) else None)"

definition i64_checked_sub :: "int \<Rightarrow> int \<Rightarrow> int option" where
  "i64_checked_sub a b = (if is_i64 (a - b) then Some (a - b) else None)"

definition i64_saturating_add :: "int \<Rightarrow> int \<Rightarrow> int" where
  "i64_saturating_add a b = max i64_min (min i64_max (a + b))"

definition usize_max :: nat where "usize_max = 18446744073709551615"

definition usize_checked_add :: "nat \<Rightarrow> nat \<Rightarrow> nat option" where
  "usize_checked_add a b = (if a + b \<le> usize_max then Some (a + b) else None)"

definition usize_checked_mul :: "nat \<Rightarrow> nat \<Rightarrow> nat option" where
  "usize_checked_mul a b = (if a * b \<le> usize_max then Some (a * b) else None)"

section \<open>Strings\<close>

text \<open>\<open>starts_with\<close> is shared by strings and slices.\<close>

definition starts_with :: "'a list \<Rightarrow> 'a list \<Rightarrow> bool" where
  "starts_with s p \<longleftrightarrow> take (length p) s = p"

definition strip_prefix :: "string \<Rightarrow> string \<Rightarrow> string option" where
  "strip_prefix s p = (if starts_with s p then Some (drop (length p) s) else None)"

definition ends_with :: "string \<Rightarrow> string \<Rightarrow> bool" where
  "ends_with s p \<longleftrightarrow> length p \<le> length s \<and> drop (length s - length p) s = p"

definition strip_suffix :: "string \<Rightarrow> string \<Rightarrow> string option" where
  "strip_suffix s p = (if ends_with s p then Some (take (length s - length p) s) else None)"

lemma starts_with_append [simp]: "starts_with (p @ s) p"
  by (simp add: starts_with_def)

lemma starts_with_iff: "starts_with s p \<longleftrightarrow> (\<exists>r. s = p @ r)"
  by (metis append_take_drop_id starts_with_append starts_with_def)

lemma starts_with_refl [simp]: "starts_with s s"
  by (simp add: starts_with_def)

lemma starts_with_trans: "starts_with a b \<Longrightarrow> starts_with b c \<Longrightarrow> starts_with a c"
  by (auto simp: starts_with_iff)

lemma starts_with_empty [simp]: "starts_with [] p \<longleftrightarrow> p = []"
  by (auto simp: starts_with_iff)

lemma starts_with_Nil [simp]: "starts_with s []"
  by (simp add: starts_with_def)

lemma strip_prefix_append [simp]: "strip_prefix (p @ s) p = Some s"
  by (simp add: strip_prefix_def)

lemma strip_prefix_Some: "strip_prefix s p = Some r \<longleftrightarrow> s = p @ r"
  by (auto simp: strip_prefix_def starts_with_iff split: if_splits)

lemma strip_suffix_Some: "strip_suffix s p = Some r \<longleftrightarrow> s = r @ p"
  by (auto simp: strip_suffix_def ends_with_def)
    (metis append_take_drop_id)+

text \<open>\<open>str::parse::<usize>\<close>: an optional plus sign, then at least one ASCII digit,
  within the 64-bit range.\<close>

definition ascii_digit :: "char \<Rightarrow> nat option" where
  "ascii_digit c =
     (let n = of_char c :: nat in if 48 \<le> n \<and> n \<le> 57 then Some (n - 48) else None)"

fun parse_digits :: "nat \<Rightarrow> string \<Rightarrow> nat option" where
  "parse_digits acc [] = Some acc"
| "parse_digits acc (c # cs) =
     (case ascii_digit c of
        None \<Rightarrow> None
      | Some d \<Rightarrow> if 10 * acc + d \<le> usize_max then parse_digits (10 * acc + d) cs else None)"

definition parse_usize :: "string \<Rightarrow> nat option" where
  "parse_usize s =
     (let digits = (case s of CHR ''+'' # r \<Rightarrow> r | _ \<Rightarrow> s)
      in if digits = [] then None else parse_digits 0 digits)"

text \<open>Decimal digits, as in formatted messages.\<close>

fun decimal :: "nat \<Rightarrow> string" where
  "decimal n = (if n < 10 then [char_of (48 + n)] else decimal (n div 10) @ [char_of (48 + n mod 10)])"

end
