(* ===== verification/Ordered_Map.thy ===== *)
theory Ordered_Map
  imports Prelude
begin

text \<open>
  \<open>BTreeMap<K, V>\<close> as the list of its entries in strictly increasing key order and
  \<open>BTreeSet<K>\<close> as the strictly increasing list of its elements.  \<open>kv_map\<close> is the
  contract the other components rely on; it is interpreted on the list operations at the
  end of the theory.
\<close>

type_synonym ('k, 'v) bmap = "('k \<times> 'v) list"

definition bm_wf :: "('k::linorder, 'v) bmap \<Rightarrow> bool" where
  "bm_wf m \<longleftrightarrow> sorted_wrt (<) (map fst m)"

primrec bm_insert :: "'k::linorder \<Rightarrow> 'v \<Rightarrow> ('k, 'v) bmap \<Rightarrow> ('k, 'v) bmap" where
  "bm_insert k v [] = [(k, v)]"
| "bm_insert k v (e # m) =
     (if fst e < k then e # bm_insert k v m
      else if fst e = k then (k, v) # m else (k, v) # e # m)"

definition bm_remove :: "'k \<Rightarrow> ('k, 'v) bmap \<Rightarrow> ('k, 'v) bmap" where
  "bm_remove k m = filter (\<lambda>e. fst e \<noteq> k) m"

definition bm_retain :: "('k \<Rightarrow> 'v \<Rightarrow> bool) \<Rightarrow> ('k, 'v) bmap \<Rightarrow> ('k, 'v) bmap" where
  "bm_retain P m = filter (\<lambda>(k, v). P k v) m"

definition bm_extend :: "('k::linorder, 'v) bmap \<Rightarrow> ('k \<times> 'v) list \<Rightarrow> ('k, 'v) bmap" where
  "bm_extend m es = foldl (\<lambda>m e. bm_insert (fst e) (snd e) m) m es"

text \<open>Assignment through \<open>get_mut\<close>: the entry keeps its place.\<close>

primrec bm_set :: "'k \<Rightarrow> 'v \<Rightarrow> ('k, 'v) bmap \<Rightarrow> ('k, 'v) bmap" where
  "bm_set k v [] = []"
| "bm_set k v (e # m) = (if fst e = k then (k, v) # m else e # bm_set k v m)"

definition bm_mem :: "('k, 'v) bmap \<Rightarrow> 'k \<Rightarrow> bool" where
  "bm_mem m k \<longleftrightarrow> map_of m k \<noteq> None"

lemma bm_mem_iff: "bm_mem m k \<longleftrightarrow> k \<in> fst ` set m"
  by (simp add: bm_mem_def map_of_eq_None_iff)

lemma not_bm_mem: "\<not> bm_mem m k \<longleftrightarrow> map_of m k = None"
  by (simp only: bm_mem_def) blast

subsection \<open>Key order\<close>

lemma bm_wf_Nil [simp, bm_wf_intros]: "bm_wf []"
  by (simp add: bm_wf_def)

lemma bm_wf_Cons: "bm_wf (e # m) \<longleftrightarrow> (\<forall>k \<in> fst ` set m. fst e < k) \<and> bm_wf m"
  by (auto simp: bm_wf_def)

lemma bm_wf_distinct: "bm_wf m \<Longrightarrow> distinct (map fst m)"
  by (simp add: bm_wf_def strict_sorted_iff)

lemma bm_length_card: "bm_wf m \<Longrightarrow> length m = card (fst ` set m)"
  by (metis bm_wf_distinct distinct_card length_map list.set_map)

lemma fst_bm_insert [simp]: "fst ` set (bm_insert k v m) = insert k (fst ` set m)"
  by (induction m) auto

lemma set_bm_insert_subset: "set (bm_insert k v m) \<subseteq> insert (k, v) (set m)"
  by (induction m) auto

lemma bm_wf_insert [simp, bm_wf_intros]: "bm_wf m \<Longrightarrow> bm_wf (bm_insert k v m)"
proof (induction m)
  case Nil
  show ?case by (simp add: bm_wf_def)
next
  case (Cons e m)
  then show ?case by (auto simp: bm_wf_Cons)
qed

lemma length_bm_insert: "bm_wf m \<Longrightarrow> length (bm_insert k v m) = (if bm_mem m k then length m else Suc (length m))"
  by (simp add: bm_length_card bm_mem_iff insert_absorb)

lemma map_fst_bm_remove: "map fst (bm_remove k m) = filter (\<lambda>i. i \<noteq> k) (map fst m)"
  by (simp add: bm_remove_def filter_map comp_def)

lemma length_bm_remove: "length (bm_remove k m) \<le> length m"
  by (simp add: bm_remove_def)

lemma bm_wf_filter: "bm_wf m \<Longrightarrow> bm_wf (filter P m)"
  by (induction m) (auto simp: bm_wf_Cons)

lemma bm_wf_remove [simp, bm_wf_intros]: "bm_wf m \<Longrightarrow> bm_wf (bm_remove k m)"
  by (simp add: bm_remove_def bm_wf_filter)

lemma bm_wf_retain [simp, bm_wf_intros]: "bm_wf m \<Longrightarrow> bm_wf (bm_retain P m)"
  by (simp add: bm_retain_def bm_wf_filter)

lemma bm_wf_extend [simp, bm_wf_intros]: "bm_wf m \<Longrightarrow> bm_wf (bm_extend m es)"
  by (induction es arbitrary: m) (auto simp: bm_extend_def)

subsection \<open>Lookup\<close>

lemma map_of_filter_key: "map_of (filter (\<lambda>e. P (fst e)) m) k = (if P k then map_of m k else None)"
  by (induction m) auto

lemma map_of_bm_insert [simp, bm_simps]:
  "map_of (bm_insert k v m) = (map_of m)(k \<mapsto> v)" if "bm_wf m"
  using that
proof (induction m)
  case Nil
  show ?case by simp
next
  case (Cons e m)
  from Cons.prems have "bm_wf m" and lt: "\<forall>k' \<in> fst ` set m. fst e < k'"
    by (auto simp: bm_wf_Cons)
  from Cons.IH [OF \<open>bm_wf m\<close>] have IH: "map_of (bm_insert k v m) l = (if l = k then Some v else map_of m l)"
    for l by simp
  obtain a b where e: "e = (a, b)" by force
  show ?case
  proof
    fix l
    show "map_of (bm_insert k v (e # m)) l = ((map_of (e # m))(k \<mapsto> v)) l"
      using IH [of l] e by auto
  qed
qed

lemma map_of_bm_remove [simp, bm_simps]: "map_of (bm_remove k m) = (map_of m)(k := None)"
  by (auto simp: bm_remove_def map_of_filter_key [where P = "\<lambda>x. x \<noteq> k"] fun_eq_iff)

lemma map_of_bm_retain [bm_simps]:
  assumes "bm_wf m"
  shows "map_of (bm_retain P m) k =
    (case map_of m k of None \<Rightarrow> None | Some v \<Rightarrow> if P k v then Some v else None)"
  using bm_wf_distinct [OF assms]
proof (induction m)
  case Nil
  show ?case by (simp add: bm_retain_def)
next
  case (Cons e m)
  obtain a b where e: "e = (a, b)" by force
  from Cons.prems e have nin: "map_of m a = None" by (simp add: map_of_eq_None_iff)
  from Cons e have IH: "map_of (bm_retain P m) k =
    (case map_of m k of None \<Rightarrow> None | Some v \<Rightarrow> if P k v then Some v else None)" by simp
  have head: "bm_retain P (e # m) = (if P a b then e # bm_retain P m else bm_retain P m)"
    by (simp add: bm_retain_def e)
  show ?case
  proof (cases "k = a")
    case True
    with head IH nin e show ?thesis by simp
  next
    case False
    with head IH e show ?thesis by simp
  qed
qed

lemma bm_retain_keys: "fst ` set (bm_retain P m) \<subseteq> fst ` set m"
  by (auto simp: bm_retain_def)

text \<open>A well-formed map is determined by its lookups.\<close>

lemma bm_wf_map_of_hd:
  assumes "bm_wf (e # m)" and "map_of (e # m) k = Some v"
  shows "fst e \<le> k"
proof -
  from assms(2) have "k \<in> fst ` set (e # m)"
    by (metis map_of_SomeD image_eqI fst_conv)
  with assms(1) show ?thesis by (auto simp: bm_wf_Cons)
qed

lemma bm_ext: "bm_wf m \<Longrightarrow> bm_wf n \<Longrightarrow> map_of m = map_of n \<Longrightarrow> m = n"
proof (induction m arbitrary: n)
  case Nil
  then show ?case by (cases n) (auto dest: fun_cong split: if_splits)
next
  case (Cons e m)
  show ?case
  proof (cases n)
    case Nil
    from Cons.prems(3) have "map_of (e # m) (fst e) = map_of n (fst e)" by (rule fun_cong)
    with Nil show ?thesis by (cases e) simp
  next
    case (Cons f n')
    obtain a b where e: "e = (a, b)" by force
    obtain c d where f: "f = (c, d)" by force
    from Cons.prems(3) have same: "map_of (e # m) x = map_of (f # n') x" for x
      using local.Cons by (metis)
    from same [of a] e have "map_of (f # n') a = Some b" by simp
    with bm_wf_map_of_hd Cons.prems(2) local.Cons f have "c \<le> a" by fastforce
    moreover from same [of c] f have "map_of (e # m) c = Some d" by simp
    with bm_wf_map_of_hd Cons.prems(1) e have "a \<le> c" by fastforce
    ultimately have ac: "a = c" by simp
    with same [of a] e f have bd: "b = d" by simp
    from Cons.prems(1) e have m: "map_of m a = None" "bm_wf m"
      by (auto simp: bm_wf_Cons map_of_eq_None_iff)
    from Cons.prems(2) local.Cons f ac have n: "map_of n' a = None" "bm_wf n'"
      by (auto simp: bm_wf_Cons map_of_eq_None_iff)
    have "map_of m x = map_of n' x" for x
      using same [of x] e f ac m(1) n(1) by (cases "x = a") auto
    then have "map_of m = map_of n'" by auto
    with Cons.IH [OF m(2) n(2)] have "m = n'" by simp
    with e f ac bd local.Cons show ?thesis by simp
  qed
qed

lemma bm_set_ext:
  assumes "bm_wf m" and "bm_wf n" and "set m = set n"
  shows "m = n"
proof (rule bm_ext [OF assms(1,2)])
  show "map_of m = map_of n"
    by (rule map_of_eqI) (use assms in \<open>auto simp: bm_wf_distinct\<close>)
qed

lemma bm_insert_commute:
  "bm_wf m \<Longrightarrow> k \<noteq> l \<Longrightarrow> bm_insert k v (bm_insert l w m) = bm_insert l w (bm_insert k v m)"
  by (rule bm_ext) (auto simp: fun_upd_twist)

lemma bm_insert_idem [simp]: "bm_wf m \<Longrightarrow> map_of m k = Some v \<Longrightarrow> bm_insert k v m = m"
  by (rule bm_ext) auto

lemma bm_insert_overwrite [simp]: "bm_wf m \<Longrightarrow> bm_insert k v (bm_insert k w m) = bm_insert k v m"
  by (rule bm_ext) auto

lemma bm_remove_absent [simp]: "map_of m k = None \<Longrightarrow> bm_remove k m = m"
  by (auto simp: bm_remove_def map_of_eq_None_iff filter_id_conv)

lemma bm_mem_insert [simp]: "bm_mem (bm_insert k v m) l \<longleftrightarrow> l = k \<or> bm_mem m l"
  by (auto simp: bm_mem_iff)

lemma bm_mem_remove [simp]: "bm_mem (bm_remove k m) l \<longleftrightarrow> l \<noteq> k \<and> bm_mem m l"
  by (simp add: bm_mem_def)

lemma bm_insert_nonempty [simp]: "bm_insert k v m \<noteq> []"
  by (cases m) auto

lemma bm_insert_fresh_mset:
  "map_of m k = None \<Longrightarrow> mset (bm_insert k v m) = add_mset (k, v) (mset m)"
  by (induction m) (auto split: if_splits)

lemma fst_bm_set [simp]: "map fst (bm_set k v m) = map fst m"
  by (induction m) auto

lemma bm_wf_set [simp, bm_wf_intros]: "bm_wf m \<Longrightarrow> bm_wf (bm_set k v m)"
  by (simp add: bm_wf_def)

lemma map_of_bm_set [bm_simps]:
  "map_of (bm_set k v m) l = (if l = k \<and> bm_mem m k then Some v else map_of m l)"
  by (induction m) (auto simp: bm_mem_def)

lemma bm_set_insert: "bm_wf m \<Longrightarrow> bm_mem m k \<Longrightarrow> bm_set k v m = bm_insert k v m"
  by (rule bm_ext) (auto simp: map_of_bm_set)

lemma set_bm_set: "set (bm_set k v m) \<subseteq> insert (k, v) (set m)"
  by (induction m) auto

lemma bm_split:
  assumes "map_of m k = Some v" and "bm_wf m"
  obtains a b where "m = a @ (k, v) # b" "k \<notin> fst ` set a" "k \<notin> fst ` set b"
proof -
  from assms(1) have "(k, v) \<in> set m" by (rule map_of_SomeD)
  then obtain a b where m: "m = a @ (k, v) # b" by (meson split_list)
  from bm_wf_distinct [OF assms(2)] m have "k \<notin> fst ` set a" "k \<notin> fst ` set b" by auto
  with m that show ?thesis by blast
qed

lemma bm_set_split: "k \<notin> fst ` set a \<Longrightarrow> bm_set k w (a @ (k, v) # b) = a @ (k, w) # b"
  by (induction a) auto

lemma bm_remove_split:
  "k \<notin> fst ` set a \<Longrightarrow> k \<notin> fst ` set b \<Longrightarrow> bm_remove k (a @ (k, v) # b) = a @ b"
proof -
  assume a: "k \<notin> fst ` set a" and b: "k \<notin> fst ` set b"
  from a have "filter (\<lambda>e. fst e \<noteq> k) a = a" by (auto simp: filter_id_conv)
  moreover from b have "filter (\<lambda>e. fst e \<noteq> k) b = b" by (auto simp: filter_id_conv)
  ultimately show ?thesis by (simp add: bm_remove_def)
qed

subsection \<open>Sets\<close>

type_synonym 'a bset = "'a list"

definition bs_wf :: "'a::linorder bset \<Rightarrow> bool" where
  "bs_wf s \<longleftrightarrow> sorted_wrt (<) s"

primrec bs_insert :: "'a::linorder \<Rightarrow> 'a bset \<Rightarrow> 'a bset" where
  "bs_insert x [] = [x]"
| "bs_insert x (y # s) =
     (if y < x then y # bs_insert x s else if y = x then y # s else x # y # s)"

definition bs_remove :: "'a \<Rightarrow> 'a bset \<Rightarrow> 'a bset" where
  "bs_remove x s = filter (\<lambda>y. y \<noteq> x) s"

definition bs_extend :: "'a::linorder bset \<Rightarrow> 'a list \<Rightarrow> 'a bset" where
  "bs_extend s xs = foldl (\<lambda>s x. bs_insert x s) s xs"

definition bs_of_list :: "'a::linorder list \<Rightarrow> 'a bset" where
  "bs_of_list xs = bs_extend [] xs"

lemma set_bs_insert [simp]: "set (bs_insert x s) = insert x (set s)"
  by (induction s) auto

lemma set_bs_remove [simp]: "set (bs_remove x s) = set s - {x}"
  by (auto simp: bs_remove_def)

lemma bs_wf_Nil [simp, bm_wf_intros]: "bs_wf []"
  by (simp add: bs_wf_def)

lemma bs_wf_insert [simp, bm_wf_intros]: "bs_wf s \<Longrightarrow> bs_wf (bs_insert x s)"
  unfolding bs_wf_def by (induction s) auto

lemma bs_wf_filter [bm_wf_intros]: "bs_wf s \<Longrightarrow> bs_wf (filter P s)"
  by (simp add: bs_wf_def sorted_wrt_filter)

lemma bs_wf_remove [simp, bm_wf_intros]: "bs_wf s \<Longrightarrow> bs_wf (bs_remove x s)"
  by (simp add: bs_remove_def bs_wf_filter)

lemma set_bs_extend [simp]: "set (bs_extend s xs) = set s \<union> set xs"
  by (induction xs arbitrary: s) (auto simp: bs_extend_def)

lemma bs_wf_extend [simp, bm_wf_intros]: "bs_wf s \<Longrightarrow> bs_wf (bs_extend s xs)"
  by (induction xs arbitrary: s) (auto simp: bs_extend_def)

lemma set_bs_of_list [simp]: "set (bs_of_list xs) = set xs"
  by (simp add: bs_of_list_def)

lemma bs_wf_of_list [simp]: "bs_wf (bs_of_list xs)"
  by (simp add: bs_of_list_def)

lemma bs_ext: "bs_wf s \<Longrightarrow> bs_wf t \<Longrightarrow> set s = set t \<Longrightarrow> s = t"
  by (simp add: bs_wf_def strict_sorted_equal)

lemma bs_of_list_cong: "set xs = set ys \<Longrightarrow> bs_of_list xs = bs_of_list ys"
  by (rule bs_ext) auto

subsection \<open>The contract of an ordered map\<close>

locale kv_map =
  fixes empty :: 'm
    and lookup :: "'m \<Rightarrow> 'k \<Rightarrow> 'v option"
    and insert :: "'k \<Rightarrow> 'v \<Rightarrow> 'm \<Rightarrow> 'm"
    and remove :: "'k \<Rightarrow> 'm \<Rightarrow> 'm"
    and wf :: "'m \<Rightarrow> bool"
  assumes lookup_empty: "lookup empty k = None"
    and lookup_insert: "wf m \<Longrightarrow> lookup (insert k v m) l = (if l = k then Some v else lookup m l)"
    and lookup_remove: "wf m \<Longrightarrow> lookup (remove k m) l = (if l = k then None else lookup m l)"
    and wf_empty: "wf empty"
    and wf_insert: "wf m \<Longrightarrow> wf (insert k v m)"
    and wf_remove: "wf m \<Longrightarrow> wf (remove k m)"
begin

text \<open>Filling a map from a list of entries with distinct keys keeps every entry and every
  older entry with another key.\<close>

definition fill :: "('k \<times> 'v) list \<Rightarrow> 'm \<Rightarrow> 'm" where
  "fill es m = foldl (\<lambda>m e. insert (fst e) (snd e) m) m es"

lemma wf_fill: "wf m \<Longrightarrow> wf (fill es m)"
  by (induction es arbitrary: m) (auto simp: fill_def wf_insert)

lemma lookup_fill_other:
  "wf m \<Longrightarrow> l \<notin> fst ` set es \<Longrightarrow> lookup (fill es m) l = lookup m l"
  by (induction es arbitrary: m) (auto simp: fill_def wf_insert lookup_insert)

lemma lookup_fill:
  assumes "wf m" and "distinct (map fst es)"
  shows "lookup (fill es m) l =
    (case map_of es l of None \<Rightarrow> lookup m l | Some v \<Rightarrow> Some v)"
  using assms
proof (induction es arbitrary: m)
  case Nil
  then show ?case by (simp add: fill_def)
next
  case (Cons e es)
  obtain a b where e: "e = (a, b)" by force
  have step: "fill (e # es) m = fill es (insert a b m)" by (simp add: fill_def e)
  from Cons.prems e have nin: "map_of es a = None" by (simp add: map_of_eq_None_iff)
  from Cons.prems e have "lookup (fill es (insert a b m)) l =
      (case map_of es l of None \<Rightarrow> lookup (insert a b m) l | Some v \<Rightarrow> Some v)"
    by (intro Cons.IH) (auto simp: wf_insert)
  with Cons.prems(1) nin show ?case
    unfolding step by (auto simp: e lookup_insert split: option.splits)
qed

end

interpretation bm: kv_map "[] :: ('k::linorder, 'v) bmap" map_of bm_insert bm_remove bm_wf
  by unfold_locales auto

lemma bm_extend_fill: "bm_extend m es = bm.fill es m"
  by (simp add: bm_extend_def bm.fill_def)

lemma map_of_bm_extend:
  assumes "bm_wf m" and "distinct (map fst es)"
  shows "map_of (bm_extend m es) k =
    (case map_of es k of None \<Rightarrow> map_of m k | Some v \<Rightarrow> Some v)"
  using bm.lookup_fill [OF assms] by (simp add: bm_extend_fill)

lemma map_of_bm_extend_other:
  "bm_wf m \<Longrightarrow> k \<notin> fst ` set es \<Longrightarrow> map_of (bm_extend m es) k = map_of m k"
  by (simp add: bm_extend_fill bm.lookup_fill_other)

end
