(* ===== verification/Json_Value.thy ===== *)
theory Json_Value
  imports Complex_Main Ordered_Map
begin

text \<open>
  The value type of \<open>serde_json\<close> as the source uses it.  A number is an integer in the
  union of the \<open>i64\<close> and \<open>u64\<close> ranges or a finite float, kept as its rational value;
  an object is an ordered map from field names (the crate is built without
  \<open>preserve_order\<close>).
\<close>

datatype json =
    JNull
  | JBool bool
  | JInt int
  | JFloat rat
  | JStr string
  | JArr "json list"
  | JObj "(string \<times> json) list"

fun as_i64 :: "json \<Rightarrow> int option" where
  "as_i64 (JInt n) = (if is_i64 n then Some n else None)"
| "as_i64 _ = None"

fun as_u64 :: "json \<Rightarrow> nat option" where
  "as_u64 (JInt n) = (if 0 \<le> n then Some (nat n) else None)"
| "as_u64 _ = None"

fun as_str :: "json \<Rightarrow> string option" where
  "as_str (JStr s) = Some s"
| "as_str _ = None"

fun as_object :: "json \<Rightarrow> (string, json) bmap option" where
  "as_object (JObj m) = Some m"
| "as_object _ = None"

fun as_array :: "json \<Rightarrow> json list option" where
  "as_array (JArr xs) = Some xs"
| "as_array _ = None"

text \<open>\<open>Value::get\<close> with a string index.\<close>

fun json_get :: "json \<Rightarrow> string \<Rightarrow> json option" where
  "json_get (JObj m) f = map_of m f"
| "json_get _ f = None"

definition is_object :: "json \<Rightarrow> bool" where
  "is_object v \<longleftrightarrow> as_object v \<noteq> None"

text \<open>\<open>item.get("id").and_then(Value::as_str) == Some(id)\<close>\<close>

definition has_id :: "string \<Rightarrow> json \<Rightarrow> bool" where
  "has_id i v \<longleftrightarrow> Option.bind (json_get v ''id'') as_str = Some i"

lemma as_i64_is_i64: "as_i64 v = Some n \<Longrightarrow> is_i64 n \<and> v = JInt n"
  by (cases v) (auto split: if_splits)

lemma as_object_Some: "as_object v = Some m \<longleftrightarrow> v = JObj m"
  by (cases v) auto

lemma as_array_Some: "as_array v = Some xs \<longleftrightarrow> v = JArr xs"
  by (cases v) auto

text \<open>Every object inside a value has its fields in order.\<close>

fun json_wf :: "json \<Rightarrow> bool" where
  "json_wf (JArr xs) \<longleftrightarrow> (\<forall>x \<in> set xs. json_wf x)"
| "json_wf (JObj m) \<longleftrightarrow> bm_wf m \<and> (\<forall>e \<in> set m. json_wf (snd e))"
| "json_wf _ \<longleftrightarrow> True"

lemma json_wf_lookup: "json_wf (JObj m) \<Longrightarrow> map_of m k = Some v \<Longrightarrow> json_wf v"
  by (auto dest!: map_of_SomeD)

lemma json_wf_insert: "json_wf (JObj m) \<Longrightarrow> json_wf v \<Longrightarrow> json_wf (JObj (bm_insert k v m))"
  using set_bm_insert_subset [of k v m] by fastforce

lemma json_wf_remove: "json_wf (JObj m) \<Longrightarrow> json_wf (JObj (bm_remove k m))"
  by (simp add: bm_remove_def bm_wf_filter)

end
