(* ===== verification/Sync_Operation.thy ===== *)
theory Sync_Operation
  imports Json_Value
begin

text \<open>
  The immutable operation envelope and the conflict order it carries
  (\<open>SyncOperationStore.rs\<close>), and \<open>newer\<close>, the comparison that decides which of two
  revisions wins (\<open>Transaction.rs\<close>).
\<close>

section \<open>Operations and their order\<close>

datatype SyncOperationSemantics = EntityState | Transaction_semantics

definition storageValue :: "SyncOperationSemantics \<Rightarrow> string" where
  "storageValue s =
     (case s of EntityState \<Rightarrow> ''entity_state'' | Transaction_semantics \<Rightarrow> ''transaction'')"

definition fromStorageValue :: "string \<Rightarrow> SyncOperationSemantics res" where
  "fromStorageValue v =
     (if v = ''entity_state'' then Inr EntityState
      else if v = ''transaction'' then Inr Transaction_semantics
      else Inl (Err (''unsupported sync operation semantics: '' @ v)))"

record SyncOperation =
  opId :: string
  op_originDeviceId :: string
  op_sequence :: int
  op_domain :: string
  entityType :: string
  entityId :: string
  op_operation :: string
  semantics :: SyncOperationSemantics
  payload :: json
  op_createdAt :: int
  schemaVersion :: int

text \<open>\<open>SyncOperationOrder\<close>, called \<open>Revision\<close> by the transaction algebra: compared by
  time, then author, then author sequence.\<close>

datatype revision = Revision (createdAt: int) (originDeviceId: string) (sequence: int)

definition revision_le :: "revision \<Rightarrow> revision \<Rightarrow> bool" where
  "revision_le a b \<longleftrightarrow>
     createdAt a < createdAt b \<or>
     createdAt a = createdAt b \<and>
       (originDeviceId a < originDeviceId b \<or>
        originDeviceId a = originDeviceId b \<and> sequence a \<le> sequence b)"

instantiation revision :: linorder
begin

definition less_eq_revision :: "revision \<Rightarrow> revision \<Rightarrow> bool" where
  "less_eq_revision a b \<longleftrightarrow> revision_le a b"

definition less_revision :: "revision \<Rightarrow> revision \<Rightarrow> bool" where
  "less_revision a b \<longleftrightarrow>
     createdAt a < createdAt b \<or>
     createdAt a = createdAt b \<and>
       (originDeviceId a < originDeviceId b \<or>
        originDeviceId a = originDeviceId b \<and> sequence a < sequence b)"

instance
proof
  fix x y z :: revision
  show "x < y \<longleftrightarrow> x \<le> y \<and> \<not> y \<le> x"
    by (auto simp: less_revision_def less_eq_revision_def revision_le_def)
  show "x \<le> x"
    by (simp add: less_eq_revision_def revision_le_def)
  show "x \<le> y \<Longrightarrow> y \<le> z \<Longrightarrow> x \<le> z"
    by (auto simp: less_eq_revision_def revision_le_def)
  show "x \<le> y \<Longrightarrow> y \<le> x \<Longrightarrow> x = y"
    by (auto simp: less_eq_revision_def revision_le_def intro: revision.expand)
  show "x \<le> y \<or> y \<le> x"
    by (auto simp: less_eq_revision_def revision_le_def)
qed

end

text \<open>\<open>Value\<close> indexing with a string: a missing field reads as null.\<close>

definition json_index :: "json \<Rightarrow> string \<Rightarrow> json" where
  "json_index v f = (case json_get v f of None \<Rightarrow> JNull | Some w \<Rightarrow> w)"

definition fromOperation :: "SyncOperation \<Rightarrow> revision" where
  "fromOperation op =
     Revision
       (if op_domain op = ''preferences''
           \<and> Option.bind (json_get (payload op) ''contractVersion'') as_u64 = Some 1
        then (case as_i64 (json_index (payload op) ''logicalTime'') of
                Some t \<Rightarrow> t | None \<Rightarrow> op_createdAt op)
        else if op_domain op = ''runtime_file'' \<and> json_index (payload op) ''initial'' = JBool True
        then 1
        else op_createdAt op)
       (op_originDeviceId op)
       (op_sequence op)"

definition newer :: "revision \<Rightarrow> revision \<Rightarrow> bool" where
  "newer left right =
     (if originDeviceId left = originDeviceId right then sequence left > sequence right
      else left > right)"

definition verify_original :: "string \<Rightarrow> 'a \<Rightarrow> 'a \<Rightarrow> unit res" where
  "verify_original i existing incoming =
     (if existing \<noteq> incoming then Inl (Err (''Conflicting immutable transaction '' @ i))
      else Inr ())"

definition verifySyncOperation :: "SyncOperation \<Rightarrow> SyncOperation \<Rightarrow> unit res" where
  "verifySyncOperation existing incoming = verify_original (opId incoming) existing incoming"

section \<open>The order behind \<open>newer\<close>\<close>

lemma semantics_roundtrip: "fromStorageValue (storageValue s) = Inr s"
  by (cases s) (simp_all add: storageValue_def fromStorageValue_def)

lemma newer_irrefl [simp]: "\<not> newer r r"
  by (simp add: newer_def)

lemma newer_asym: "newer a b \<Longrightarrow> \<not> newer b a"
  by (auto simp: newer_def split: if_splits)

lemma newer_total:
  "a \<noteq> b \<Longrightarrow> \<not> (originDeviceId a = originDeviceId b \<and> sequence a = sequence b) \<Longrightarrow>
   newer a b \<or> newer b a"
  by (auto simp: newer_def)

text \<open>
  A set of revisions is \<open>clock_monotone\<close> when no author's later revision carries an
  earlier time and no author uses a sequence number twice.  On such a set \<open>newer\<close> is the
  order of revisions.
\<close>

definition clock_monotone :: "revision set \<Rightarrow> bool" where
  "clock_monotone R \<longleftrightarrow>
     (\<forall>a \<in> R. \<forall>b \<in> R. originDeviceId a = originDeviceId b \<longrightarrow>
        (sequence a < sequence b \<longrightarrow> createdAt a \<le> createdAt b) \<and>
        (sequence a = sequence b \<longrightarrow> a = b))"

lemma clock_monotone_subset: "clock_monotone R \<Longrightarrow> S \<subseteq> R \<Longrightarrow> clock_monotone S"
  by (auto simp: clock_monotone_def)

lemma newer_iff_less:
  assumes "clock_monotone R" and "a \<in> R" and "b \<in> R"
  shows "newer a b \<longleftrightarrow> b < a"
proof (cases "originDeviceId a = originDeviceId b")
  case False
  then show ?thesis by (simp add: newer_def)
next
  case True
  from assms True have ab: "sequence a < sequence b \<longrightarrow> createdAt a \<le> createdAt b"
    and ba: "sequence b < sequence a \<longrightarrow> createdAt b \<le> createdAt a"
    and eq: "sequence a = sequence b \<longrightarrow> a = b"
    unfolding clock_monotone_def by metis+
  show ?thesis
  proof (cases "sequence a = sequence b")
    case True
    with eq show ?thesis by (simp add: newer_def)
  next
    case False
    with True ab ba show ?thesis by (auto simp: newer_def less_revision_def)
  qed
qed

text \<open>The contract of a comparison that totally orders the revisions of one history.\<close>

locale revision_order =
  fixes R :: "'r set"
    and wins :: "'r \<Rightarrow> 'r \<Rightarrow> bool"
  assumes wins_irrefl: "a \<in> R \<Longrightarrow> \<not> wins a a"
    and wins_trans: "a \<in> R \<Longrightarrow> b \<in> R \<Longrightarrow> c \<in> R \<Longrightarrow> wins a b \<Longrightarrow> wins b c \<Longrightarrow> wins a c"
    and wins_total: "a \<in> R \<Longrightarrow> b \<in> R \<Longrightarrow> a \<noteq> b \<Longrightarrow> wins a b \<or> wins b a"
begin

lemma wins_asym: "a \<in> R \<Longrightarrow> b \<in> R \<Longrightarrow> wins a b \<Longrightarrow> \<not> wins b a"
  using wins_irrefl wins_trans by blast

text \<open>The register that keeps the winner of what it has seen.\<close>

definition keep :: "'r option \<Rightarrow> 'r \<Rightarrow> 'r option" where
  "keep cur r = (case cur of None \<Rightarrow> Some r | Some p \<Rightarrow> if wins r p then Some r else cur)"

lemma keep_simps [simp]:
  "keep None r = Some r"
  "keep (Some p) r = (if wins r p then Some r else Some p)"
  by (simp_all add: keep_def)

definition latest :: "'r list \<Rightarrow> 'r option" where
  "latest rs = foldl keep None rs"

lemma foldl_keep_best:
  assumes "set rs \<subseteq> R" and "p \<in> R"
  shows "\<exists>q. foldl keep (Some p) rs = Some q \<and> q \<in> insert p (set rs) \<and>
           (\<forall>x \<in> insert p (set rs). \<not> wins x q)"
  using assms
proof (induction rs arbitrary: p)
  case Nil
  then show ?case by (auto simp: wins_irrefl)
next
  case (Cons r rs)
  show ?case
  proof (cases "wins r p")
    case True
    with Cons.IH [of r] Cons.prems obtain q
      where q: "foldl keep (Some r) rs = Some q" "q \<in> insert r (set rs)"
        and best: "\<forall>x \<in> insert r (set rs). \<not> wins x q" by auto
    have "\<not> wins p q"
    proof
      assume pq: "wins p q"
      with True wins_trans [of r p q] Cons.prems q(2) have "wins r q" by auto
      with best show False by simp
    qed
    with True q best show ?thesis by auto
  next
    case False
    with Cons.IH [of p] Cons.prems obtain q
      where q: "foldl keep (Some p) rs = Some q" "q \<in> insert p (set rs)"
        and best: "\<forall>x \<in> insert p (set rs). \<not> wins x q" by auto
    have "\<not> wins r q"
    proof
      assume rq: "wins r q"
      from False wins_total [of r p] Cons.prems have "r = p \<or> wins p r" by auto
      with rq wins_trans [of p r q] Cons.prems q(2) have "wins p q" by auto
      with best show False by simp
    qed
    with False q best show ?thesis by auto
  qed
qed

lemma latest_order_independent:
  assumes "set xs = set ys" and "set xs \<subseteq> R"
  shows "latest xs = latest ys"
proof (cases xs)
  case Nil
  with assms show ?thesis by simp
next
  case (Cons x xs')
  with assms obtain y ys' where ys: "ys = y # ys'" by (cases ys) auto
  from foldl_keep_best [of xs' x] assms Cons obtain p
    where p: "latest xs = Some p" "p \<in> set xs" "\<forall>z \<in> set xs. \<not> wins z p"
    by (auto simp: latest_def)
  from foldl_keep_best [of ys' y] assms ys obtain q
    where q: "latest ys = Some q" "q \<in> set ys" "\<forall>z \<in> set ys. \<not> wins z q"
    by (auto simp: latest_def)
  from p q assms wins_total [of p q] have "p = q" by blast
  with p q show ?thesis by simp
qed

end

text \<open>Clock-monotone histories satisfy the contract.\<close>

lemma newer_revision_order:
  assumes "clock_monotone R"
  shows "revision_order R newer"
  by unfold_locales (auto simp: newer_iff_less [OF assms])

text \<open>The revisions of a clock-monotone history, none of any other.\<close>

definition causal_set :: "revision set \<Rightarrow> revision set" where
  "causal_set R = (if clock_monotone R then R else {})"

interpretation nw: revision_order "causal_set R" newer for R
proof -
  have "clock_monotone (causal_set R)" by (simp add: causal_set_def clock_monotone_def)
  then show "revision_order (causal_set R) newer" by (rule newer_revision_order)
qed

text \<open>When an author's clock runs backwards \<open>newer\<close> has cycles: each of these three revisions is newer
  than the one before.\<close>

theorem newer_cycle:
  "newer (Revision 5 ''a'' 2) (Revision 10 ''a'' 1) \<and> newer (Revision 10 ''a'' 1) (Revision 7 ''b'' 1)
   \<and> newer (Revision 7 ''b'' 1) (Revision 5 ''a'' 2)"
  by (simp add: newer_def less_revision_def less_eq_revision_def revision_le_def)

end
