(* ===== verification/Sync_Receipt.thy ===== *)
theory Sync_Receipt
  imports Sync_Operation
begin

text \<open>
  What a device knows about the operations of each author (\<open>SyncOperationStore.rs\<close>): the
  vector clock \<open>SyncClock\<close>, the exact receipts \<open>SyncReceipt\<close> with their gaps, the trait
  \<open>SyncOperationKnowledge\<close> both implement (the locale \<open>knowledge\<close>), and the
  entity-version register that decides whether a replaceable entity state is applied.
\<close>

section \<open>Vector clock\<close>

record SyncClock =
  sequences :: "(string, int) bmap"

definition SyncClock_empty :: SyncClock where
  "SyncClock_empty = \<lparr>sequences = []\<rparr>"

definition sequenceFor :: "SyncClock \<Rightarrow> string \<Rightarrow> int" where
  "sequenceFor c d = (case map_of (sequences c) d of Some s \<Rightarrow> s | None \<Rightarrow> 0)"

definition setSequence :: "string \<Rightarrow> int \<Rightarrow> SyncClock \<Rightarrow> SyncClock" where
  "setSequence d s c = c\<lparr>sequences := bm_insert d s (sequences c)\<rparr>"

definition clock_includes :: "SyncClock \<Rightarrow> SyncClock \<Rightarrow> bool" where
  "clock_includes c required \<longleftrightarrow>
     list_all (\<lambda>(d, s). sequenceFor c d \<ge> s) (sequences required)"

definition retainAuthoredBy :: "string \<Rightarrow> SyncClock \<Rightarrow> SyncClock" where
  "retainAuthoredBy d c =
     c\<lparr>sequences := bm_retain (\<lambda>origin _. starts_with origin d) (sequences c)\<rparr>"

definition clock_containsSequence :: "SyncClock \<Rightarrow> string \<Rightarrow> int \<Rightarrow> bool" where
  "clock_containsSequence c origin s \<longleftrightarrow> s \<le> sequenceFor c origin"

definition clock_nextMissingSequence :: "SyncClock \<Rightarrow> string \<Rightarrow> int \<Rightarrow> int option" where
  "clock_nextMissingSequence c origin after = i64_checked_add (max after (sequenceFor c origin)) 1"

text \<open>\<open>observeOperationWithClock\<close>: the flag reports whether the clock file was rewritten; the
  write itself, which may fail, is the host's.\<close>

definition observeOperationWithClock ::
    "SyncOperation \<Rightarrow> SyncClock \<Rightarrow> (SyncClock \<Rightarrow> unit res) \<Rightarrow> (bool \<times> SyncClock) res" where
  "observeOperationWithClock op c write =
     (if op_sequence op > sequenceFor c (op_originDeviceId op)
      then let c' = setSequence (op_originDeviceId op) (op_sequence op) c
           in rbind (write c') (\<lambda>_. Inr (True, c'))
      else Inr (False, c))"

definition networkControlClockKey :: "string \<Rightarrow> string" where
  "networkControlClockKey origin = origin @ '':control''"

definition observeNetworkControlOperation ::
    "string \<Rightarrow> SyncOperation \<Rightarrow> SyncClock \<Rightarrow> (SyncClock \<Rightarrow> unit res) \<Rightarrow> SyncClock res" where
  "observeNetworkControlOperation control_domain op c write =
     (if op_domain op \<noteq> control_domain
      then Inl (Err (''network-control acknowledgement requires a '' @ control_domain @ '' operation''))
      else let key = networkControlClockKey (op_originDeviceId op)
           in if op_sequence op \<le> sequenceFor c key then Inr c
              else let c' = setSequence key (op_sequence op) c
                   in rbind (write c') (\<lambda>_. Inr c'))"

section \<open>Receipts\<close>

type_synonym ranges = "(int \<times> int) list"

record SyncReceipt =
  receipt_ranges :: "(string, ranges) bmap"

fun validate_ranges :: "string \<Rightarrow> int \<Rightarrow> ranges \<Rightarrow> unit res" where
  "validate_ranges origin previous [] = Inr ()"
| "validate_ranges origin previous ((start, end') # rs) =
     (if start \<le> 0 \<or> end' < start \<or> start \<le> previous
      then Inl (Err (''Invalid synchronization receipt ranges for '' @ origin))
      else validate_ranges origin end' rs)"

definition receipt_validate :: "SyncReceipt \<Rightarrow> unit res" where
  "receipt_validate r =
     rfold (\<lambda>(origin, rs) _.
       if origin = [] \<or> length origin > 256 then Inl (Err ''Invalid synchronization receipt origin'')
       else validate_ranges origin 0 rs) (receipt_ranges r) ()"

text \<open>\<open>slice::partition_point\<close> on a slice that is partitioned.\<close>

definition partition_point :: "('a \<Rightarrow> bool) \<Rightarrow> 'a list \<Rightarrow> nat" where
  "partition_point P xs = length (takeWhile P xs)"

text \<open>The \<open>while\<close> loop of \<open>observeRange\<close>: the merged interval and the ranges after
  \<open>last\<close>.\<close>

fun absorb :: "int \<times> int \<Rightarrow> ranges \<Rightarrow> (int \<times> int) \<times> ranges" where
  "absorb merged [] = (merged, [])"
| "absorb merged (r # rs) =
     (if fst r \<le> i64_saturating_add (snd merged) 1
      then absorb (min (fst merged) (fst r), max (snd merged) (snd r)) rs
      else (merged, r # rs))"

definition observe_ranges :: "int \<Rightarrow> int \<Rightarrow> ranges \<Rightarrow> ranges" where
  "observe_ranges start end' rs =
     (let first = partition_point (\<lambda>r. i64_saturating_add (snd r) 1 < start) rs;
          (merged, rest) = absorb (start, end') (drop first rs)
      in take first rs @ merged # rest)"

definition observeRange :: "string \<Rightarrow> int \<Rightarrow> int \<Rightarrow> SyncReceipt \<Rightarrow> SyncReceipt" where
  "observeRange origin start end' r =
     (let rs = (case map_of (receipt_ranges r) origin of None \<Rightarrow> [] | Some rs \<Rightarrow> rs)
      in r\<lparr>receipt_ranges := bm_insert origin (observe_ranges start end' rs) (receipt_ranges r)\<rparr>)"

definition observe :: "string \<Rightarrow> int \<Rightarrow> SyncReceipt \<Rightarrow> SyncReceipt" where
  "observe origin s r = observeRange origin s s r"

definition receipt_merge :: "SyncReceipt \<Rightarrow> SyncReceipt \<Rightarrow> SyncReceipt" where
  "receipt_merge r other =
     foldl (\<lambda>r (origin, rs). foldl (\<lambda>r (s, e). observeRange origin s e r) r rs) r
       (receipt_ranges other)"

definition receipt_sequenceFor :: "SyncReceipt \<Rightarrow> string \<Rightarrow> int" where
  "receipt_sequenceFor r origin =
     (case map_of (receipt_ranges r) origin of
        Some ((s, e) # _) \<Rightarrow> if s = 1 then e else 0
      | _ \<Rightarrow> 0)"

definition receipt_containsSequence :: "SyncReceipt \<Rightarrow> string \<Rightarrow> int \<Rightarrow> bool" where
  "receipt_containsSequence r origin s =
     (case map_of (receipt_ranges r) origin of
        None \<Rightarrow> False
      | Some rs \<Rightarrow>
          let index = partition_point (\<lambda>range. fst range \<le> s) rs
          in index > 0 \<and> s \<le> snd (rs ! (index - 1)))"

definition receipt_nextMissingSequence :: "SyncReceipt \<Rightarrow> string \<Rightarrow> int \<Rightarrow> int option" where
  "receipt_nextMissingSequence r origin after =
     Option.bind (i64_checked_add after 1) (\<lambda>next.
       case map_of (receipt_ranges r) origin of
         None \<Rightarrow> Some next
       | Some rs \<Rightarrow>
           let index = partition_point (\<lambda>range. fst range \<le> next) rs
           in if index > 0 \<and> next \<le> snd (rs ! (index - 1))
              then i64_checked_add (snd (rs ! (index - 1))) 1
              else Some next)"

section \<open>Entity versions\<close>

text \<open>\<open>shouldApplyOperations\<close> over the loaded version map; \<open>key\<close> is the JSON encoding of
  domain, entity type and identity by \<open>syncEntityVersionKey\<close>.\<close>

fun shouldApplyOperations ::
    "(SyncOperation \<Rightarrow> string res) \<Rightarrow> (string, revision) bmap \<Rightarrow> SyncOperation list \<Rightarrow>
     (string, revision) bmap \<Rightarrow> bool list res" where
  "shouldApplyOperations key versions [] pending = Inr []"
| "shouldApplyOperations key versions (op # ops) pending =
     rbind (key op) (\<lambda>k.
       let incoming = fromOperation op;
           current = (case map_of pending k of Some r \<Rightarrow> Some r | None \<Rightarrow> map_of versions k);
           apply = (case current of Some c \<Rightarrow> incoming > c | None \<Rightarrow> True)
       in rbind (shouldApplyOperations key versions ops
                   (if apply then bm_insert k incoming pending else pending))
            (\<lambda>ds. Inr (apply # ds)))"

text \<open>The loop of \<open>recordAppliedOperations\<close>: the versions that are appended to the journal.\<close>

fun pending_versions ::
    "(SyncOperation \<Rightarrow> string res) \<Rightarrow> (string, revision) bmap \<Rightarrow> SyncOperation list \<Rightarrow>
     (string, revision) bmap \<Rightarrow> (string, revision) bmap res" where
  "pending_versions key versions [] pending = Inr pending"
| "pending_versions key versions (op # ops) pending =
     rbind (key op) (\<lambda>k.
       let incoming = fromOperation op;
           current = (case map_of pending k of Some r \<Rightarrow> Some r | None \<Rightarrow> map_of versions k)
       in if (case current of Some c \<Rightarrow> incoming \<le> c | None \<Rightarrow> False)
          then pending_versions key versions ops pending
          else pending_versions key versions ops (bm_insert k incoming pending))"

text \<open>One line of the journal is read (\<open>loadCachedEntityVersions\<close>).\<close>

definition load_version :: "string \<times> revision \<Rightarrow> (string, revision) bmap \<Rightarrow> (string, revision) bmap" where
  "load_version line versions =
     (case map_of versions (fst line) of
        Some current \<Rightarrow> if snd line \<le> current then versions else bm_insert (fst line) (snd line) versions
      | None \<Rightarrow> bm_insert (fst line) (snd line) versions)"

section \<open>The knowledge contract\<close>

text \<open>The trait \<open>SyncOperationKnowledge\<close>: a prefix that is known completely, exact membership,
  and the first unknown sequence after a cursor.\<close>

locale knowledge =
  fixes ok :: "'k \<Rightarrow> bool"
    and prefix_of :: "'k \<Rightarrow> string \<Rightarrow> int"
    and contains :: "'k \<Rightarrow> string \<Rightarrow> int \<Rightarrow> bool"
    and next_missing :: "'k \<Rightarrow> string \<Rightarrow> int \<Rightarrow> int option"
  assumes prefix_known: "ok k \<Longrightarrow> 1 \<le> s \<Longrightarrow> s \<le> prefix_of k origin \<Longrightarrow> contains k origin s"
    and next_unknown: "ok k \<Longrightarrow> next_missing k origin after = Some n \<Longrightarrow>
      after < n \<and> \<not> contains k origin n"
    and next_least: "ok k \<Longrightarrow> next_missing k origin after = Some n \<Longrightarrow> after < m \<Longrightarrow> m < n \<Longrightarrow>
      contains k origin m"
    and next_range: "ok k \<Longrightarrow> next_missing k origin after = Some n \<Longrightarrow> is_i64 n"
    and next_none: "ok k \<Longrightarrow> is_i64 after \<Longrightarrow> next_missing k origin after = None \<Longrightarrow>
      after < m \<Longrightarrow> m \<le> i64_max \<Longrightarrow> contains k origin m"
begin

text \<open>Following \<open>next_missing\<close> from a cursor enumerates the unknown sequences.\<close>

fun missing_from :: "nat \<Rightarrow> 'k \<Rightarrow> string \<Rightarrow> int \<Rightarrow> int \<Rightarrow> int list" where
  "missing_from 0 k origin after hi = []"
| "missing_from (Suc n) k origin after hi =
     (case next_missing k origin after of
        None \<Rightarrow> []
      | Some s \<Rightarrow> if s \<le> hi then s # missing_from n k origin s hi else [])"

lemma missing_from_exact:
  assumes "ok k" and "hi \<le> i64_max" and "is_i64 after" and "nat (hi - after) \<le> n"
  shows "set (missing_from n k origin after hi) = {s. after < s \<and> s \<le> hi \<and> \<not> contains k origin s}"
  using assms(3,4)
proof (induction n arbitrary: after)
  case 0
  then show ?case by auto
next
  case (Suc n)
  show ?case
  proof (cases "next_missing k origin after")
    case None
    with next_none [OF assms(1) Suc.prems(1) None] assms(2) show ?thesis by fastforce
  next
    case (Some s)
    from next_unknown [OF assms(1) Some] have s: "after < s" "\<not> contains k origin s" by auto
    have between: "contains k origin m" if "after < m" "m < s" for m
      using next_least [OF assms(1) Some that] .
    show ?thesis
    proof (cases "s \<le> hi")
      case True
      with Suc.prems s have "nat (hi - s) \<le> n" by simp
      note IH = Suc.IH [OF next_range [OF assms(1) Some] this]
      have "m \<in> insert s {m. s < m \<and> m \<le> hi \<and> \<not> contains k origin m} \<longleftrightarrow>
          after < m \<and> m \<le> hi \<and> \<not> contains k origin m" for m
        using between [of m] s True by (cases m s rule: linorder_cases) auto
      with Some True IH show ?thesis by auto
    next
      case False
      have "\<not> (after < m \<and> m \<le> hi \<and> \<not> contains k origin m)" for m
        using between [of m] False by auto
      with Some False show ?thesis by auto
    qed
  qed
qed

end

lemma i64_checked_add_Some: "i64_checked_add a b = Some c \<longleftrightarrow> c = a + b \<and> is_i64 (a + b)"
  by (auto simp: i64_checked_add_def)

definition clock_ok :: "SyncClock \<Rightarrow> bool" where
  "clock_ok c \<longleftrightarrow> bm_wf (sequences c) \<and> (\<forall>(d, s) \<in> set (sequences c). is_i64 s)"


lemma sequenceFor_i64: "clock_ok c \<Longrightarrow> is_i64 (sequenceFor c d)"
  by (auto simp: clock_ok_def sequenceFor_def is_i64_def i64_min_def i64_max_def
    split: option.splits dest!: map_of_SomeD)

interpretation clk: knowledge clock_ok sequenceFor clock_containsSequence clock_nextMissingSequence
proof
  fix c origin and after n m s :: int
  assume ok: "clock_ok c"
  show "s \<le> sequenceFor c origin \<Longrightarrow> clock_containsSequence c origin s"
    by (simp add: clock_containsSequence_def)
  assume next': "clock_nextMissingSequence c origin after = Some n"
  then have n: "n = max after (sequenceFor c origin) + 1" "is_i64 n"
    by (auto simp: clock_nextMissingSequence_def i64_checked_add_Some)
  then show "after < n \<and> \<not> clock_containsSequence c origin n"
    by (auto simp: clock_containsSequence_def)
  from n show "is_i64 n" by simp
  assume "after < m" "m < n"
  with n show "clock_containsSequence c origin m" by (auto simp: clock_containsSequence_def)
next
  fix c origin and after m :: int
  assume ok: "clock_ok c" "is_i64 after" and none: "clock_nextMissingSequence c origin after = None"
    and m: "after < m" "m \<le> i64_max"
  from none have "\<not> is_i64 (max after (sequenceFor c origin) + 1)"
    by (auto simp: clock_nextMissingSequence_def i64_checked_add_def split: if_splits)
  with sequenceFor_i64 [OF ok(1), of origin] ok(2) m show "clock_containsSequence c origin m"
    by (auto simp: clock_containsSequence_def is_i64_def max_def split: if_splits)
qed

subsection \<open>Canonical ranges\<close>

text \<open>Ascending intervals with at least one missing sequence between neighbours.\<close>

definition canonical :: "ranges \<Rightarrow> bool" where
  "canonical rs \<longleftrightarrow>
     sorted_wrt (\<lambda>a b. snd a + 1 < fst b) rs \<and>
     (\<forall>r \<in> set rs. fst r \<le> snd r \<and> is_i64 (fst r) \<and> is_i64 (snd r))"

definition covered :: "ranges \<Rightarrow> int set" where
  "covered rs = (\<Union>r \<in> set rs. {fst r .. snd r})"

lemma covered_simps [simp]:
  "covered [] = {}"
  "covered (r # rs) = {fst r .. snd r} \<union> covered rs"
  "covered (rs @ qs) = covered rs \<union> covered qs"
  by (auto simp: covered_def)

lemma canonical_Cons:
  "canonical (r # rs) \<longleftrightarrow> (\<forall>q \<in> set rs. snd r + 1 < fst q) \<and> fst r \<le> snd r \<and>
     is_i64 (fst r) \<and> is_i64 (snd r) \<and> canonical rs"
  by (auto simp: canonical_def)

lemma canonical_append:
  "canonical (a @ b) \<longleftrightarrow> canonical a \<and> canonical b \<and> (\<forall>x \<in> set a. \<forall>y \<in> set b. snd x + 1 < fst y)"
  by (auto simp: canonical_def sorted_wrt_append)

lemma saturating_succ_less: "is_i64 e \<Longrightarrow> is_i64 s \<Longrightarrow> i64_saturating_add e 1 < s \<longleftrightarrow> e + 1 < s"
  by (auto simp: i64_saturating_add_def is_i64_def i64_min_def i64_max_def)

lemma saturating_succ_ge: "is_i64 e \<Longrightarrow> is_i64 s \<Longrightarrow> s \<le> i64_saturating_add e 1 \<longleftrightarrow> s \<le> e + 1"
  by (auto simp: i64_saturating_add_def is_i64_def i64_min_def i64_max_def)

lemma absorb_spec:
  assumes "canonical rs" and "a \<le> b" and "is_i64 a" and "is_i64 b"
    and "\<forall>r \<in> set rs. a \<le> snd r + 1"
    and "absorb (a, b) rs = ((c, d), rest)"
  shows "canonical ((c, d) # rest) \<and> c \<le> a \<and> (c = a \<or> c \<in> fst ` set rs) \<and>
    {c .. d} \<union> covered rest = {a .. b} \<union> covered rs \<and> set rest \<subseteq> set rs"
  using assms
proof (induction rs arbitrary: a b)
  case Nil
  then show ?case by (auto simp: canonical_def)
next
  case (Cons r rs)
  from Cons.prems(1) have r: "fst r \<le> snd r" "is_i64 (fst r)" "is_i64 (snd r)" "canonical rs"
    and gap: "\<forall>q \<in> set rs. snd r + 1 < fst q" by (auto simp: canonical_Cons)
  show ?case
  proof (cases "fst r \<le> b + 1")
    case True
    with Cons.prems(4,6) r have step: "absorb (min a (fst r), max b (snd r)) rs = ((c, d), rest)"
      by (simp add: saturating_succ_ge)
    have "\<forall>q \<in> set rs. min a (fst r) \<le> snd q + 1" using Cons.prems(5) by auto
    from Cons.IH [OF r(4) _ _ _ this step] Cons.prems(2-4) r
    have IH: "canonical ((c, d) # rest)" "c \<le> min a (fst r)"
      "c = min a (fst r) \<or> c \<in> fst ` set rs"
      "{c .. d} \<union> covered rest = {min a (fst r) .. max b (snd r)} \<union> covered rs"
      "set rest \<subseteq> set rs"
      by (auto simp: is_i64_def min_def max_def)
    have "{min a (fst r) .. max b (snd r)} = {a .. b} \<union> {fst r .. snd r}"
      using True Cons.prems(2,5) r(1) by auto
    with IH show ?thesis by (auto simp: min_def split: if_splits)
  next
    case False
    with Cons.prems(4,6) r have "(c, d) = (a, b)" "rest = r # rs"
      by (auto simp: saturating_succ_ge)
    with Cons.prems(1-4) False gap show ?thesis by (auto simp: canonical_Cons)
  qed
qed

lemma partition_point_le: "partition_point P xs \<le> length xs"
  by (simp add: partition_point_def length_takeWhile_le)

lemma take_partition_point: "take (partition_point P xs) xs = takeWhile P xs"
  unfolding partition_point_def by (rule takeWhile_eq_take [symmetric])

lemma drop_partition_point: "drop (partition_point P xs) xs = dropWhile P xs"
  unfolding partition_point_def by (rule dropWhile_eq_drop [symmetric])

lemma observe_ranges_spec:
  assumes "canonical rs" and "s \<le> e" and "is_i64 s" and "is_i64 e"
  shows "canonical (observe_ranges s e rs)" and "covered (observe_ranges s e rs) = covered rs \<union> {s .. e}"
proof -
  let ?P = "\<lambda>r. i64_saturating_add (snd r) 1 < s"
  let ?a = "takeWhile ?P rs" and ?b = "dropWhile ?P rs"
  have split: "rs = ?a @ ?b" by simp
  from assms(1) have can: "canonical ?a" "canonical ?b"
    and gap: "\<forall>x \<in> set ?a. \<forall>y \<in> set ?b. snd x + 1 < fst y"
    by (metis split canonical_append)+
  have low: "\<forall>x \<in> set ?a. snd x + 1 < s"
    using assms(1,3) can(1) by (auto dest!: set_takeWhileD simp: canonical_def saturating_succ_less)
  have high: "\<forall>r \<in> set ?b. s \<le> snd r + 1"
  proof (cases ?b)
    case Nil
    then show ?thesis by (metis empty_iff empty_set)
  next
    case (Cons r0 b')
    have "\<not> ?P r0" using hd_dropWhile [of ?P rs] Cons by simp
    with can(2) Cons assms(3) have "s \<le> snd r0 + 1"
      by (auto simp: canonical_Cons saturating_succ_less not_less)
    with can(2) Cons show ?thesis by (fastforce simp: canonical_def)
  qed
  obtain c d rest where ab: "absorb (s, e) ?b = ((c, d), rest)" by (metis surj_pair)
  have obs: "observe_ranges s e rs = ?a @ (c, d) # rest"
    by (simp add: observe_ranges_def take_partition_point drop_partition_point ab)
  from absorb_spec [OF can(2) assms(2-4) high ab]
  have spec: "canonical ((c, d) # rest)" "c = s \<or> c \<in> fst ` set ?b"
    "{c .. d} \<union> covered rest = {s .. e} \<union> covered ?b" "set rest \<subseteq> set ?b" by auto
  have "\<forall>x \<in> set ?a. \<forall>y \<in> set ((c, d) # rest). snd x + 1 < fst y"
    using low gap spec(2,4) by auto
  with can(1) spec(1) show "canonical (observe_ranges s e rs)"
    unfolding obs canonical_append by blast
  have "covered rs = covered ?a \<union> covered ?b" by (metis split covered_simps(3))
  with spec(3) show "covered (observe_ranges s e rs) = covered rs \<union> {s .. e}"
    unfolding obs by auto
qed

lemma canonical_index:
  assumes "canonical rs"
  shows "(partition_point (\<lambda>r. fst r \<le> s) rs > 0 \<and> s \<le> snd (rs ! (partition_point (\<lambda>r. fst r \<le> s) rs - 1)))
    \<longleftrightarrow> s \<in> covered rs"
  using assms
proof (induction rs)
  case Nil
  show ?case by (simp add: partition_point_def)
next
  case (Cons r rs)
  from Cons.prems have can: "canonical rs" "fst r \<le> snd r" and gap: "\<forall>q \<in> set rs. snd r + 1 < fst q"
    by (auto simp: canonical_Cons)
  let ?n = "partition_point (\<lambda>r. fst r \<le> s) rs"
  show ?case
  proof (cases "fst r \<le> s")
    case False
    with gap can(2) have "s \<notin> covered (r # rs)" by (fastforce simp: covered_def)
    with False show ?thesis by (simp add: partition_point_def)
  next
    case True
    show ?thesis
    proof (cases "?n = 0")
      case True
      with Cons.IH [OF can(1)] have "s \<notin> covered rs" by simp
      with True \<open>fst r \<le> s\<close> show ?thesis by (simp add: partition_point_def)
    next
      case False
      then obtain q rs' where q: "rs = q # rs'" "fst q \<le> s"
        by (cases rs) (auto simp: partition_point_def split: if_splits)
      with gap have "s \<notin> {fst r .. snd r}" by auto
      with False \<open>fst r \<le> s\<close> Cons.IH [OF can(1)] show ?thesis
        by (auto simp: partition_point_def nth_Cons' )
    qed
  qed
qed

lemma canonical_range_end:
  assumes "canonical rs" and "s \<in> covered rs"
  defines "i \<equiv> partition_point (\<lambda>r. fst r \<le> s) rs"
  shows "snd (rs ! (i - 1)) + 1 \<notin> covered rs" and "{s .. snd (rs ! (i - 1))} \<subseteq> covered rs"
    and "s \<le> snd (rs ! (i - 1))"
proof -
  from canonical_index [OF assms(1), of s] assms(2) have i: "i > 0" "s \<le> snd (rs ! (i - 1))"
    by (auto simp: i_def)
  then show "s \<le> snd (rs ! (i - 1))" by simp
  have len: "i - 1 < length rs"
    using i(1) partition_point_le [of "\<lambda>r. fst r \<le> s" rs] by (simp add: i_def)
  have start: "fst (rs ! (i - 1)) \<le> s"
  proof -
    have "rs ! (i - 1) \<in> set (takeWhile (\<lambda>r. fst r \<le> s) rs)"
      using i(1) by (metis (no_types, lifting) diff_less i_def nth_mem partition_point_def
        takeWhile_nth zero_less_one)
    then show ?thesis by (auto dest: set_takeWhileD)
  qed
  with len show "{s .. snd (rs ! (i - 1))} \<subseteq> covered rs"
    by (force simp: covered_def)
  show "snd (rs ! (i - 1)) + 1 \<notin> covered rs"
  proof
    assume "snd (rs ! (i - 1)) + 1 \<in> covered rs"
    then obtain j where j: "j < length rs" "fst (rs ! j) \<le> snd (rs ! (i - 1)) + 1"
      "snd (rs ! (i - 1)) + 1 \<le> snd (rs ! j)"
      by (auto simp: covered_def in_set_conv_nth)
    have "j \<noteq> i - 1" using j(3) by auto
    moreover have False if "i - 1 < j"
    proof -
      from that assms(1) j(1) have "snd (rs ! (i - 1)) + 1 < fst (rs ! j)"
        unfolding canonical_def sorted_wrt_iff_nth_less by blast
      with j(2) show False by simp
    qed
    moreover have False if "j < i - 1"
    proof -
      from that assms(1) len have "snd (rs ! j) + 1 < fst (rs ! (i - 1))"
        and "fst (rs ! (i - 1)) \<le> snd (rs ! (i - 1))"
        by (auto simp: canonical_def sorted_wrt_iff_nth_less)
      with j(3) show False by simp
    qed
    ultimately show False by linarith
  qed
qed

subsection \<open>Receipts as sets of sequences\<close>

definition receipt_ok :: "SyncReceipt \<Rightarrow> bool" where
  "receipt_ok r \<longleftrightarrow> bm_wf (receipt_ranges r) \<and> (\<forall>(origin, rs) \<in> set (receipt_ranges r). canonical rs)"

definition received :: "SyncReceipt \<Rightarrow> string \<Rightarrow> int set" where
  "received r origin =
     (case map_of (receipt_ranges r) origin of None \<Rightarrow> {} | Some rs \<Rightarrow> covered rs)"

lemma receipt_ok_lookup: "receipt_ok r \<Longrightarrow> map_of (receipt_ranges r) origin = Some rs \<Longrightarrow> canonical rs"
  by (auto simp: receipt_ok_def dest!: map_of_SomeD)

lemma observeRange_ok:
  assumes "receipt_ok r" and "s \<le> e" and "is_i64 s" and "is_i64 e"
  shows "receipt_ok (observeRange origin s e r)"
    and "received (observeRange origin s e r) o' = received r o' \<union> (if o' = origin then {s .. e} else {})"
proof -
  let ?rs = "case map_of (receipt_ranges r) origin of None \<Rightarrow> [] | Some rs \<Rightarrow> rs"
  have can: "canonical ?rs"
    using receipt_ok_lookup [OF assms(1), of origin]
    by (cases "map_of (receipt_ranges r) origin") (simp_all add: canonical_def [of "[]"])
  have cov: "received r origin = covered ?rs" by (simp add: received_def split: option.splits)
  note spec = observe_ranges_spec [OF can assms(2-4)]
  show "receipt_ok (observeRange origin s e r)"
    using assms(1) spec(1) set_bm_insert_subset [of origin "observe_ranges s e ?rs" "receipt_ranges r"]
    by (auto simp: receipt_ok_def observeRange_def Let_def)
  show "received (observeRange origin s e r) o' = received r o' \<union> (if o' = origin then {s .. e} else {})"
    using assms(1) spec(2) cov by (auto simp: receipt_ok_def observeRange_def received_def Let_def)
qed


lemma receipt_contains_iff:
  "receipt_ok r \<Longrightarrow> receipt_containsSequence r origin s \<longleftrightarrow> s \<in> received r origin"
  using canonical_index [OF receipt_ok_lookup]
  by (auto simp: receipt_containsSequence_def received_def Let_def split: option.splits)

lemma received_i64: "receipt_ok r \<Longrightarrow> s \<in> received r origin \<Longrightarrow> is_i64 s"
  by (fastforce simp: received_def covered_def canonical_def is_i64_def split: option.splits
    dest: receipt_ok_lookup)

lemma receipt_next_Some:
  assumes "receipt_ok r" and "receipt_nextMissingSequence r origin after = Some n"
  shows "after < n" and "n \<notin> received r origin" and "is_i64 n"
    and "{after + 1 ..< n} \<subseteq> received r origin"
proof -
  have "after < n \<and> n \<notin> received r origin \<and> is_i64 n \<and> {after + 1 ..< n} \<subseteq> received r origin"
  proof (cases "map_of (receipt_ranges r) origin")
    case None
    with assms(2) show ?thesis
      by (auto simp: receipt_nextMissingSequence_def received_def i64_checked_add_Some bind_eq_Some_conv)
  next
    case (Some rs)
    have can: "canonical rs" using receipt_ok_lookup [OF assms(1) Some] .
    let ?i = "partition_point (\<lambda>range. fst range \<le> after + 1) rs"
    have rec: "received r origin = covered rs" by (simp add: received_def Some)
    show ?thesis
    proof (cases "after + 1 \<in> covered rs")
      case True
      from canonical_index [OF can, of "after + 1"] True assms(2) Some
      have n: "n = snd (rs ! (?i - 1)) + 1" "is_i64 n"
        by (auto simp: receipt_nextMissingSequence_def i64_checked_add_Some bind_eq_Some_conv
          Let_def split: if_splits)
      from canonical_range_end [OF can True] n rec show ?thesis by auto
    next
      case False
      from canonical_index [OF can, of "after + 1"] False assms(2) Some
      have "n = after + 1" "is_i64 n"
        by (auto simp: receipt_nextMissingSequence_def i64_checked_add_Some bind_eq_Some_conv
          Let_def split: if_splits)
      with False rec show ?thesis by auto
    qed
  qed
  then show "after < n" "n \<notin> received r origin" "is_i64 n" "{after + 1 ..< n} \<subseteq> received r origin"
    by auto
qed

lemma receipt_next_None:
  assumes "receipt_ok r" and "is_i64 after" and "receipt_nextMissingSequence r origin after = None"
    and "after < m" and "m \<le> i64_max"
  shows "m \<in> received r origin"
proof (cases "is_i64 (after + 1)")
  case False
  with assms(2,4,5) show ?thesis by (auto simp: is_i64_def)
next
  case True
  with assms(3) obtain rs where rs: "map_of (receipt_ranges r) origin = Some rs"
    by (auto simp: receipt_nextMissingSequence_def i64_checked_add_def split: option.splits)
  have can: "canonical rs" using receipt_ok_lookup [OF assms(1) rs] .
  let ?i = "partition_point (\<lambda>range. fst range \<le> after + 1) rs"
  from True assms(3) rs have cond: "?i > 0 \<and> after + 1 \<le> snd (rs ! (?i - 1))"
    and over: "\<not> is_i64 (snd (rs ! (?i - 1)) + 1)"
    by (auto simp: receipt_nextMissingSequence_def i64_checked_add_def Let_def split: if_splits)
  from cond canonical_index [OF can, of "after + 1"] have mem: "after + 1 \<in> covered rs" by simp
  note e = canonical_range_end [OF can mem]
  have "snd (rs ! (?i - 1)) \<ge> i64_max"
    using over e(3) True by (auto simp: is_i64_def)
  with e(2) assms(4,5) have "m \<in> covered rs" by auto
  with rs show ?thesis by (simp add: received_def)
qed

lemma receipt_prefix:
  assumes "receipt_ok r" and "1 \<le> s" and "s \<le> receipt_sequenceFor r origin"
  shows "s \<in> received r origin"
proof (cases "map_of (receipt_ranges r) origin")
  case None
  with assms(2,3) show ?thesis by (simp add: receipt_sequenceFor_def)
next
  case (Some rs)
  with assms(2,3) show ?thesis
    by (cases rs) (auto simp: receipt_sequenceFor_def received_def split: if_splits)
qed

interpretation rcp: knowledge receipt_ok receipt_sequenceFor receipt_containsSequence
  receipt_nextMissingSequence
proof
  fix r origin and after n m s :: int
  assume ok: "receipt_ok r"
  show "1 \<le> s \<Longrightarrow> s \<le> receipt_sequenceFor r origin \<Longrightarrow> receipt_containsSequence r origin s"
    using receipt_prefix [OF ok] receipt_contains_iff [OF ok] by blast
  assume n: "receipt_nextMissingSequence r origin after = Some n"
  from receipt_next_Some [OF ok n] show "after < n \<and> \<not> receipt_containsSequence r origin n"
    by (simp add: receipt_contains_iff [OF ok])
  show "is_i64 n" by (rule receipt_next_Some(3) [OF ok n])
  assume "after < m" "m < n"
  with receipt_next_Some(4) [OF ok n] show "receipt_containsSequence r origin m"
    by (auto simp: receipt_contains_iff [OF ok])
next
  fix r origin and after m :: int
  assume "receipt_ok r" "is_i64 after" "receipt_nextMissingSequence r origin after = None"
    "after < m" "m \<le> i64_max"
  then show "receipt_containsSequence r origin m"
    using receipt_next_None receipt_contains_iff by blast
qed

section \<open>Properties\<close>

text \<open>C11: observing an interval adds exactly that interval to the receipts of its author, leaves
  every other author alone and keeps the ranges sorted, disjoint and coalesced.\<close>

theorem observeRange_exact:
  assumes "receipt_ok r" and "s \<le> e" and "is_i64 s" and "is_i64 e"
  shows "receipt_ok (observeRange origin s e r) \<and>
    (\<forall>o' n. receipt_containsSequence (observeRange origin s e r) o' n \<longleftrightarrow>
       receipt_containsSequence r o' n \<or> (o' = origin \<and> s \<le> n \<and> n \<le> e))"
proof -
  note ok = observeRange_ok [OF assms]
  show ?thesis
    using ok(1) ok(2) by (auto simp: receipt_contains_iff [OF ok(1)] receipt_contains_iff [OF assms(1)])
qed

theorem observeRange_exact_witness:
  "receipt_containsSequence (observeRange ''a'' 4 6 \<lparr>receipt_ranges = [(''a'', [(1, 2), (8, 9)])]\<rparr>) ''a'' 5 \<and>
   observeRange ''a'' 3 7 \<lparr>receipt_ranges = [(''a'', [(1, 2), (8, 9)])]\<rparr> =
     \<lparr>receipt_ranges = [(''a'', [(1, 9)])]\<rparr>"
proof -
  have "receipt_ok \<lparr>receipt_ranges = [(''a'', [(1, 2), (8, 9)])]\<rparr>"
    by (simp add: receipt_ok_def bm_wf_def canonical_def is_i64_def i64_min_def i64_max_def)
  from observeRange_exact [OF this, of 4 6 "''a''"]
  have "receipt_containsSequence (observeRange ''a'' 4 6 \<lparr>receipt_ranges = [(''a'', [(1, 2), (8, 9)])]\<rparr>) ''a'' 5"
    by (simp add: is_i64_def i64_min_def i64_max_def)
  then show ?thesis
    by (simp add: observeRange_def observe_ranges_def partition_point_def i64_saturating_add_def
      i64_min_def i64_max_def)
qed

lemma fold_observe:
  assumes "receipt_ok r" and "\<forall>(s, e) \<in> set rs. s \<le> e \<and> is_i64 s \<and> is_i64 e"
  shows "receipt_ok (foldl (\<lambda>r (s, e). observeRange origin s e r) r rs) \<and>
    received (foldl (\<lambda>r (s, e). observeRange origin s e r) r rs) o' =
      received r o' \<union> (if o' = origin then covered rs else {})"
  using assms
proof (induction rs arbitrary: r)
  case Nil
  then show ?case by simp
next
  case (Cons x rs)
  obtain s e where x: "x = (s, e)" by force
  with Cons.prems have b: "s \<le> e" "is_i64 s" "is_i64 e" by auto
  note ok = observeRange_ok(1) [OF Cons.prems(1) b, of origin]
  note rec = observeRange_ok(2) [OF Cons.prems(1) b, of origin o']
  from Cons.IH [OF ok] Cons.prems(2) rec x show ?case by auto
qed

lemma canonical_bounds: "canonical rs \<Longrightarrow> \<forall>(s, e) \<in> set rs. s \<le> e \<and> is_i64 s \<and> is_i64 e"
  by (auto simp: canonical_def)

lemma fold_merge:
  assumes "receipt_ok r" and "bm_wf m" and "\<forall>(origin, rs) \<in> set m. canonical rs"
  defines "f \<equiv> \<lambda>r (origin, rs). foldl (\<lambda>r (s, e). observeRange origin s e r) r rs"
  shows "receipt_ok (foldl f r m) \<and>
    received (foldl f r m) o' =
      received r o' \<union> (case map_of m o' of None \<Rightarrow> {} | Some rs \<Rightarrow> covered rs)"
  using assms(1-3)
proof (induction m arbitrary: r)
  case Nil
  then show ?case by simp
next
  case (Cons x m)
  obtain origin rs where x: "x = (origin, rs)" by force
  from Cons.prems x have can: "canonical rs" by simp
  note step = fold_observe [OF Cons.prems(1) canonical_bounds [OF can], of origin o']
  have fx: "f r x = foldl (\<lambda>r (s, e). observeRange origin s e r) r rs" by (simp add: f_def x)
  from step Cons.prems have IH: "receipt_ok (foldl f (f r x) m) \<and>
    received (foldl f (f r x) m) o' =
      received (f r x) o' \<union> (case map_of m o' of None \<Rightarrow> {} | Some rs \<Rightarrow> covered rs)"
    by (intro Cons.IH) (auto simp: fx bm_wf_Cons)
  from Cons.prems(2) x have "map_of m origin = None" by (auto simp: bm_wf_Cons map_of_eq_None_iff)
  with IH step fx x show ?case by auto
qed

text \<open>Merging two receipts yields a well-formed receipt that knows a sequence exactly when
  one of the two knew it, so merging is commutative, associative and idempotent on what is
  known.\<close>

theorem receipt_merge_union:
  assumes "receipt_ok r" and "receipt_ok other"
  shows "receipt_ok (receipt_merge r other) \<and>
    (\<forall>origin n. receipt_containsSequence (receipt_merge r other) origin n \<longleftrightarrow>
       receipt_containsSequence r origin n \<or> receipt_containsSequence other origin n)"
proof -
  have "receipt_ok (receipt_merge r other) \<and>
    received (receipt_merge r other) origin = received r origin \<union> received other origin" for origin
    using fold_merge [OF assms(1), of "receipt_ranges other" origin] assms(2)
    unfolding receipt_merge_def receipt_ok_def [of other] received_def [of other] by blast
  then show ?thesis
    using assms by (auto simp: receipt_contains_iff)
qed

theorem receipt_merge_union_witness:
  "receipt_containsSequence (receipt_merge \<lparr>receipt_ranges = [(''a'', [(1, 2)])]\<rparr>
     \<lparr>receipt_ranges = [(''a'', [(4, 9)]), (''b'', [(1, 1)])]\<rparr>) ''a'' 7"
proof -
  have "receipt_ok \<lparr>receipt_ranges = [(''a'', [(1, 2)])]\<rparr>"
    "receipt_ok \<lparr>receipt_ranges = [(''a'', [(4, 9)]), (''b'', [(1, 1)])]\<rparr>"
    by (simp_all add: receipt_ok_def bm_wf_def canonical_def is_i64_def i64_min_def i64_max_def)
  from receipt_merge_union [OF this] show ?thesis
    by (simp add: receipt_containsSequence_def partition_point_def)
qed

text \<open>\<open>nextMissingSequence\<close> on exact receipts returns the least sequence after the cursor
  that was not received, so following it from a cursor up to a bound lists exactly the
  missing sequences.\<close>

theorem receipt_next_missing_least:
  assumes "receipt_ok r" and "receipt_nextMissingSequence r origin after = Some n"
  shows "after < n \<and> \<not> receipt_containsSequence r origin n \<and>
    (\<forall>m. after < m \<and> m < n \<longrightarrow> receipt_containsSequence r origin m)"
  using rcp.next_unknown [OF assms] rcp.next_least [OF assms] by blast

theorem receipt_next_missing_least_witness:
  "receipt_nextMissingSequence \<lparr>receipt_ranges = [(''a'', [(1, 5), (9, 12)])]\<rparr> ''a'' 2 = Some 6 \<and>
   \<not> receipt_containsSequence \<lparr>receipt_ranges = [(''a'', [(1, 5), (9, 12)])]\<rparr> ''a'' 6"
proof -
  have ok: "receipt_ok \<lparr>receipt_ranges = [(''a'', [(1, 5), (9, 12)])]\<rparr>"
    by (simp add: receipt_ok_def bm_wf_def canonical_def is_i64_def i64_min_def i64_max_def)
  have n: "receipt_nextMissingSequence \<lparr>receipt_ranges = [(''a'', [(1, 5), (9, 12)])]\<rparr> ''a'' 2 = Some 6"
    by (simp add: receipt_nextMissingSequence_def partition_point_def i64_checked_add_def is_i64_def
      i64_min_def i64_max_def)
  from receipt_next_missing_least [OF ok n] n show ?thesis by simp
qed

subsection \<open>The entity-version file\<close>

lemma pending_versions_newer:
  assumes "pending_versions key versions ops pending = Inr pending'" and "bm_wf pending"
    and "\<forall>k r. map_of pending k = Some r \<longrightarrow> (\<forall>c. map_of versions k = Some c \<longrightarrow> c < r)"
  shows "bm_wf pending' \<and>
    (\<forall>k r. map_of pending' k = Some r \<longrightarrow> (\<forall>c. map_of versions k = Some c \<longrightarrow> c < r))"
  using assms
proof (induction ops arbitrary: pending)
  case Nil
  then show ?case by simp
next
  case (Cons op ops)
  from Cons.prems(1) obtain k where k: "key op = Inr k" by auto
  let ?in = "fromOperation op"
  let ?cur = "case map_of pending k of Some r \<Rightarrow> Some r | None \<Rightarrow> map_of versions k"
  show ?case
  proof (cases "case ?cur of Some c \<Rightarrow> ?in \<le> c | None \<Rightarrow> False")
    case True
    with Cons.prems(1) k have "pending_versions key versions ops pending = Inr pending'" by simp
    from Cons.IH [OF this Cons.prems(2,3)] show ?thesis .
  next
    case False
    with Cons.prems(1) k have step: "pending_versions key versions ops (bm_insert k ?in pending) = Inr pending'"
      by simp
    have "c < ?in" if "map_of versions k = Some c" for c
    proof (cases "map_of pending k")
      case None
      with False that show ?thesis by (simp add: not_le)
    next
      case (Some r)
      with Cons.prems(3) that have "c < r" by blast
      moreover from False Some have "r < ?in" by (simp add: not_le)
      ultimately show ?thesis by simp
    qed
    with Cons.prems(2,3) show ?thesis
      by (intro Cons.IH [OF step]) auto
  qed
qed

lemma load_pending:
  assumes "bm_wf versions" and "distinct (map fst ps)"
    and "\<forall>(k, r) \<in> set ps. \<forall>c. map_of versions k = Some c \<longrightarrow> c < r"
  shows "foldl (\<lambda>m line. load_version line m) versions ps = bm_extend versions ps"
  using assms
proof (induction ps arbitrary: versions)
  case Nil
  then show ?case by (simp add: bm_extend_def)
next
  case (Cons p ps)
  obtain k r where p: "p = (k, r)" by force
  have head: "load_version p versions = bm_insert k r versions"
    using Cons.prems(3) p by (auto simp: load_version_def not_le split: option.splits)
  have "foldl (\<lambda>m line. load_version line m) (bm_insert k r versions) ps = bm_extend (bm_insert k r versions) ps"
    using Cons.prems p by (intro Cons.IH) (auto split: if_splits dest!: bspec, force)
  with head p show ?case by (simp add: bm_extend_def)
qed

text \<open>Validation accepts intervals that touch, and then the next missing sequence is one that was received.\<close>

theorem touching_ranges_validate:
  "receipt_validate \<lparr>receipt_ranges = [(''a'', [(1, 1), (2, 2)])]\<rparr> = Inr ()
   \<and> receipt_nextMissingSequence \<lparr>receipt_ranges = [(''a'', [(1, 1), (2, 2)])]\<rparr> ''a'' 0 = Some 2
   \<and> receipt_containsSequence \<lparr>receipt_ranges = [(''a'', [(1, 1), (2, 2)])]\<rparr> ''a'' 2"
  by (simp add: receipt_validate_def receipt_nextMissingSequence_def receipt_containsSequence_def partition_point_def
      i64_checked_add_def is_i64_def i64_min_def i64_max_def)

end
