(* ===== verification/Stream_Plugin.thy ===== *)
theory Stream_Plugin
  imports Prelude
begin

text \<open>
  Character plugins of the text splitter (\<open>stream/plugins\<close>): the plugin states, the contract the
  splitter relies on (\<open>stream_plugin\<close>, the trait \<open>StreamPlugin\<close>) and the JSON plugins.

  A Rust \<open>char\<close> is its code point.  Counters that count characters of the input are natural
  numbers; the machine types hold every count an input that fits in memory can reach.
\<close>

section \<open>Characters\<close>

type_synonym rchar = nat

definition ch :: "char \<Rightarrow> rchar" where
  "ch c = of_char c"

definition newline :: rchar where "newline = 10"
definition tab :: rchar where "tab = 9"

definition chars :: "string \<Rightarrow> rchar list" where
  "chars s = map ch s"

text \<open>\<open>char::is_whitespace\<close>: the Unicode property \<open>White_Space\<close>.\<close>

definition is_whitespace :: "rchar \<Rightarrow> bool" where
  "is_whitespace c \<longleftrightarrow> (9 \<le> c \<and> c \<le> 13) \<or> c = 32 \<or> c = 133 \<or> c = 160 \<or> c = 5760
     \<or> (8192 \<le> c \<and> c \<le> 8202) \<or> c = 8232 \<or> c = 8233 \<or> c = 8239 \<or> c = 8287 \<or> c = 12288"

text \<open>\<open>str::trim\<close>.\<close>

definition trim :: "rchar list \<Rightarrow> rchar list" where
  "trim cs = rev (dropWhile is_whitespace (rev (dropWhile is_whitespace cs)))"

definition is_digit :: "rchar \<Rightarrow> bool" where
  "is_digit c \<longleftrightarrow> 48 \<le> c \<and> c \<le> 57"

definition is_ascii_alphabetic :: "rchar \<Rightarrow> bool" where
  "is_ascii_alphabetic c \<longleftrightarrow> (65 \<le> c \<and> c \<le> 90) \<or> (97 \<le> c \<and> c \<le> 122)"

definition to_ascii_lowercase :: "rchar \<Rightarrow> rchar" where
  "to_ascii_lowercase c = (if 65 \<le> c \<and> c \<le> 90 then c + 32 else c)"

lemma ch_inj [simp]: "ch a = ch b \<longleftrightarrow> a = b"
  by (simp add: ch_def)

lemma ch_newline [simp]: "ch c = newline \<longleftrightarrow> c = CHR 0x0A"
proof -
  have nl: "newline = ch (CHR 0x0A)" by (simp add: newline_def ch_def)
  show ?thesis unfolding nl by (rule ch_inj)
qed

section \<open>The contract\<close>

datatype PluginState = Idle | Trying | Processing | WaitFor

text \<open>Feeding a text to a plugin; each character is told whether it starts a line.\<close>

type_synonym 'p processor = "'p \<Rightarrow> rchar \<Rightarrow> bool \<Rightarrow> bool \<times> 'p"

fun run_chars :: "'p processor \<Rightarrow> 'p \<Rightarrow> bool \<Rightarrow> rchar list \<Rightarrow> 'p" where
  "run_chars f p b [] = p"
| "run_chars f p b (c # cs) = run_chars f (snd (f p c b)) (c = newline) cs"

definition line_start :: "bool \<Rightarrow> rchar list \<Rightarrow> bool" where
  "line_start b xs = (if xs = [] then b else last xs = newline)"

lemma line_start_simps [simp]:
  "line_start b [] = b" "line_start b (xs @ [c]) \<longleftrightarrow> c = newline"
  "line_start (c = newline) xs = line_start b (c # xs)"
  by (simp_all add: line_start_def)

lemma run_chars_append:
  "run_chars f p b (xs @ ys) = run_chars f (run_chars f p b xs) (line_start b xs) ys"
  by (induction xs arbitrary: p b) (simp_all add: line_start_def)

lemma run_chars_invariant:
  assumes "P p" and "\<And>q c b. P q \<Longrightarrow> c \<in> set cs \<Longrightarrow> P (snd (f q c b))"
  shows "P (run_chars f p b cs)"
  using assms by (induction cs arbitrary: p b) auto

text \<open>
  What a client of a plugin relies on: a reset plugin is idle and resetting is idempotent; a
  \<open>transparent\<close> plugin emits every character; a \<open>calm\<close> one never asks to wait for the next
  line.  Both are kept by every operation.
\<close>

locale stream_plugin =
  fixes plugin_state :: "'p \<Rightarrow> PluginState"
    and process_char :: "'p processor"
    and reset :: "'p \<Rightarrow> 'p"
    and transparent :: "'p \<Rightarrow> bool"
    and calm :: "'p \<Rightarrow> bool"
  assumes reset_idle: "plugin_state (reset p) = Idle"
    and reset_reset: "reset (reset p) = reset p"
    and transparent_reset: "transparent (reset p) = transparent p"
    and calm_reset: "calm p \<Longrightarrow> calm (reset p)"
    and transparent_process: "transparent p \<Longrightarrow> transparent (snd (process_char p c b)) \<and> fst (process_char p c b)"
    and calm_process: "calm p \<Longrightarrow> calm (snd (process_char p c b)) \<and> plugin_state (snd (process_char p c b)) \<noteq> WaitFor"
begin

lemma run_transparent: "transparent p \<Longrightarrow> transparent (run_chars process_char p b cs)"
  by (rule run_chars_invariant) (auto simp: transparent_process)

lemma run_calm: "calm p \<Longrightarrow> cs \<noteq> [] \<Longrightarrow> plugin_state (run_chars process_char p b cs) \<noteq> WaitFor"
proof -
  assume p: "calm p" and "cs \<noteq> []"
  then obtain xs c where cs: "cs = xs @ [c]" by (metis append_butlast_last_id)
  have "calm (run_chars process_char p b xs)"
    by (rule run_chars_invariant) (use p in \<open>auto simp: calm_process\<close>)
  then show ?thesis by (simp add: cs run_chars_append calm_process)
qed

end

section \<open>JSON plugins\<close>

datatype JsonType = NoType | Object | Array

text \<open>The two emit modes of the source.\<close>

datatype JsonEmitMode = JsonEmitAll | PureJsonEmitMode

definition should_emit :: "JsonEmitMode \<Rightarrow> rchar \<Rightarrow> bool \<Rightarrow> bool" where
  "should_emit mode c in_string = (case mode of
     JsonEmitAll \<Rightarrow> True
   | PureJsonEmitMode \<Rightarrow>
       if in_string then c \<noteq> ch CHR 0x5C \<and> c \<noteq> ch CHR 0x22
       else c \<notin> {ch CHR ''{'', ch CHR ''}'', ch CHR ''['', ch CHR '']'', ch CHR '':'', ch CHR '',''}
         \<and> \<not> is_whitespace c)"

record BaseJsonPlugin =
  js_state :: PluginState
  open_brace_count :: int
  open_bracket_count :: int
  in_string :: bool
  is_escaped :: bool
  json_type :: JsonType
  js_mode :: JsonEmitMode

definition json_reset :: "BaseJsonPlugin \<Rightarrow> BaseJsonPlugin" where
  "json_reset p = p\<lparr>js_state := Idle, open_brace_count := 0, open_bracket_count := 0,
     in_string := False, is_escaped := False, json_type := NoType\<rparr>"

definition json_new :: "JsonEmitMode \<Rightarrow> BaseJsonPlugin" where
  "json_new mode = json_reset \<lparr>js_state = Idle, open_brace_count = 0, open_bracket_count = 0,
     in_string = False, is_escaped = False, json_type = NoType, js_mode = mode\<rparr>"

definition finish_processing :: "BaseJsonPlugin \<Rightarrow> BaseJsonPlugin" where
  "finish_processing p = json_reset p"

definition json_step_string :: "BaseJsonPlugin \<Rightarrow> rchar \<Rightarrow> BaseJsonPlugin" where
  "json_step_string p c =
     (if is_escaped p then p\<lparr>is_escaped := False\<rparr>
      else if c = ch CHR 0x5C then p\<lparr>is_escaped := True\<rparr>
      else if c = ch CHR 0x22 then p\<lparr>in_string := False\<rparr>
      else p)"

definition json_step_outside :: "BaseJsonPlugin \<Rightarrow> rchar \<Rightarrow> BaseJsonPlugin" where
  "json_step_outside p c =
     (if c = ch CHR 0x22 then p\<lparr>in_string := True\<rparr>
      else if c = ch CHR ''{'' \<and> json_type p = Object then p\<lparr>open_brace_count := open_brace_count p + 1\<rparr>
      else if c = ch CHR ''['' \<and> json_type p = Array then p\<lparr>open_bracket_count := open_bracket_count p + 1\<rparr>
      else if c = ch CHR ''}'' \<and> json_type p = Object then
        (let p' = p\<lparr>open_brace_count := open_brace_count p - 1\<rparr>
         in if open_brace_count p' = 0 \<and> open_bracket_count p' = 0 then finish_processing p' else p')
      else if c = ch CHR '']'' \<and> json_type p = Array then
        (let p' = p\<lparr>open_bracket_count := open_bracket_count p - 1\<rparr>
         in if open_bracket_count p' = 0 \<and> open_brace_count p' = 0 then finish_processing p' else p')
      else p)"

definition handle_char_in_processing :: "BaseJsonPlugin \<Rightarrow> rchar \<Rightarrow> bool \<times> BaseJsonPlugin" where
  "handle_char_in_processing p c =
     (let p' = (if in_string p then json_step_string p c else json_step_outside p c)
      in (should_emit (js_mode p') c (in_string p'), p'))"

definition json_process_char :: "BaseJsonPlugin \<Rightarrow> rchar \<Rightarrow> bool \<Rightarrow> bool \<times> BaseJsonPlugin" where
  "json_process_char p c at_start_of_line =
     (if js_state p = Idle then
        (if c = ch CHR ''{'' then
           (should_emit (js_mode p) c (in_string p),
            p\<lparr>js_state := Processing, json_type := Object, open_brace_count := 1\<rparr>)
         else if c = ch CHR ''['' then
           (should_emit (js_mode p) c (in_string p),
            p\<lparr>js_state := Processing, json_type := Array, open_bracket_count := 1\<rparr>)
         else (False, p))
      else if js_state p = Processing then handle_char_in_processing p c
      else (False, p))"

definition json_init_plugin :: "BaseJsonPlugin \<Rightarrow> bool \<times> BaseJsonPlugin" where
  "json_init_plugin p = (True, json_reset p)"

definition StreamJsonPlugin_new :: BaseJsonPlugin where
  "StreamJsonPlugin_new = json_new JsonEmitAll"

definition StreamPureJsonPlugin_new :: BaseJsonPlugin where
  "StreamPureJsonPlugin_new = json_new PureJsonEmitMode"

text \<open>The JSON plugins drop what precedes a structure, so they are never transparent.\<close>

definition json_calm :: "BaseJsonPlugin \<Rightarrow> bool" where
  "json_calm p \<longleftrightarrow> js_state p \<in> {Idle, Processing}"

section \<open>A JSON structure is recognised exactly\<close>

text \<open>
  \<open>nested o c b\<close>: in the text \<open>b\<close> the brackets \<open>o\<close> and \<open>c\<close> are balanced outside of string
  literals, and every string literal is closed.
\<close>

inductive string_body :: "rchar list \<Rightarrow> bool" where
  string_end: "string_body [ch CHR 0x22]"
| string_escape: "string_body s \<Longrightarrow> string_body (ch CHR 0x5C # x # s)"
| string_plain: "string_body s \<Longrightarrow> x \<noteq> ch CHR 0x22 \<Longrightarrow> x \<noteq> ch CHR 0x5C \<Longrightarrow> string_body (x # s)"

inductive nested :: "rchar \<Rightarrow> rchar \<Rightarrow> rchar list \<Rightarrow> bool" for op cl where
  nested_empty: "nested op cl []"
| nested_plain: "nested op cl b \<Longrightarrow> x \<noteq> ch CHR 0x22 \<Longrightarrow> x \<noteq> op \<Longrightarrow> x \<noteq> cl \<Longrightarrow> nested op cl (x # b)"
| nested_string: "string_body s \<Longrightarrow> nested op cl b \<Longrightarrow> nested op cl (ch CHR 0x22 # s @ b)"
| nested_group: "nested op cl a \<Longrightarrow> nested op cl b \<Longrightarrow> nested op cl (op # a @ cl # b)"

text \<open>A plugin inside an object, at nesting depth \<open>n\<close>.\<close>

definition in_object :: "JsonEmitMode \<Rightarrow> int \<Rightarrow> BaseJsonPlugin" where
  "in_object mode n = \<lparr>js_state = Processing, open_brace_count = n, open_bracket_count = 0,
     in_string = False, is_escaped = False, json_type = Object, js_mode = mode\<rparr>"

definition in_array :: "JsonEmitMode \<Rightarrow> int \<Rightarrow> BaseJsonPlugin" where
  "in_array mode n = \<lparr>js_state = Processing, open_brace_count = 0, open_bracket_count = n,
     in_string = False, is_escaped = False, json_type = Array, js_mode = mode\<rparr>"

lemmas json_step_defs = json_process_char_def handle_char_in_processing_def json_step_string_def
  json_step_outside_def Let_def

text \<open>Every prefix of a text leaves the plugin processing, and the whole text leads to \<open>q\<close>.\<close>

definition passes :: "BaseJsonPlugin \<Rightarrow> rchar list \<Rightarrow> BaseJsonPlugin \<Rightarrow> bool" where
  "passes p cs q \<longleftrightarrow> (\<forall>b. run_chars json_process_char p b cs = q) \<and>
     (\<forall>b k. k \<le> length cs \<longrightarrow> js_state (run_chars json_process_char p b (take k cs)) = Processing)"

lemma passes_Nil: "js_state p = Processing \<Longrightarrow> passes p [] p"
  by (simp add: passes_def)

lemma passes_Cons:
  assumes "js_state p = Processing" and "\<And>b. snd (json_process_char p c b) = p'" and "passes p' cs q"
  shows "passes p (c # cs) q"
  using assms by (auto simp: passes_def take_Cons split: nat.splits)

lemma passes_append:
  assumes "passes p xs q" and "passes q ys r"
  shows "passes p (xs @ ys) r"
  unfolding passes_def
proof (intro conjI allI impI)
  fix b
  show "run_chars json_process_char p b (xs @ ys) = r" using assms by (simp add: passes_def run_chars_append)
next
  fix b k assume k: "k \<le> length (xs @ ys)"
  show "js_state (run_chars json_process_char p b (take k (xs @ ys))) = Processing"
  proof (cases "k \<le> length xs")
    case True
    with assms(1) show ?thesis by (simp add: passes_def)
  next
    case False
    with assms k show ?thesis by (simp add: passes_def run_chars_append)
  qed
qed

lemma string_body_passes:
  assumes "string_body s" and "js_state p = Processing" and "\<not> in_string p" and "\<not> is_escaped p"
  shows "passes (p\<lparr>in_string := True\<rparr>) s p"
  using assms(1)
proof (induction)
  case string_end
  have "p\<lparr>in_string := False\<rparr> = p" using assms(3) by (cases p) simp
  then show ?case using assms(2-)
    by (intro passes_Cons [where p' = p] passes_Nil) (simp_all add: json_step_defs)
next
  case (string_escape s x)
  let ?q = "p\<lparr>in_string := True, is_escaped := True\<rparr>"
  have eq: "p\<lparr>in_string := True, is_escaped := False\<rparr> = p\<lparr>in_string := True\<rparr>"
    using assms(4) by (cases p) simp
  have "passes ?q (x # s) p"
    using assms(2-) string_escape.IH by (rule_tac passes_Cons [where p' = "p\<lparr>in_string := True\<rparr>"])
      (simp_all add: json_step_defs eq)
  then show ?case using assms(2-) by (rule_tac passes_Cons [where p' = ?q]) (simp_all add: json_step_defs)
next
  case (string_plain s x)
  then show ?case using assms(2-) by (intro passes_Cons) (simp_all add: json_step_defs)
qed

lemma nested_passes_object:
  assumes "nested (ch CHR ''{'') (ch CHR ''}'') b" and "0 < n"
  shows "passes (in_object mode n) b (in_object mode n)"
  using assms
proof (induction arbitrary: n)
  case nested_empty
  then show ?case by (simp add: passes_Nil in_object_def)
next
  case (nested_plain b x)
  then show ?case by (intro passes_Cons) (auto simp: json_step_defs in_object_def)
next
  case (nested_string s b)
  have "passes ((in_object mode n)\<lparr>in_string := True\<rparr>) s (in_object mode n)"
    by (rule string_body_passes) (simp_all add: nested_string.hyps in_object_def)
  with nested_string have "passes ((in_object mode n)\<lparr>in_string := True\<rparr>) (s @ b) (in_object mode n)"
    by (blast intro: passes_append)
  then show ?case by (rule passes_Cons [rotated 2]) (simp_all add: json_step_defs in_object_def)
next
  case (nested_group a b)
  then have "passes (in_object mode (n + 1)) (a @ ch CHR ''}'' # b) (in_object mode n)"
    by (intro passes_append [of _ a "in_object mode (n + 1)"] passes_Cons [where p' = "in_object mode n"])
      (simp_all add: json_step_defs in_object_def)
  then show ?case by (rule passes_Cons [rotated 2]) (simp_all add: json_step_defs in_object_def)
qed

interpretation json: stream_plugin js_state json_process_char json_reset "\<lambda>_. False" json_calm
  by unfold_locales
    (auto simp: json_reset_def json_calm_def json_step_defs finish_processing_def)

text \<open>An object is recognised exactly.  From an idle plugin, an opening brace, a body whose
  braces are balanced outside of string literals and its closing brace keep the plugin
  processing at every proper prefix and leave it idle, and reset, at the closing brace.\<close>

theorem json_object_extent:
  assumes "nested (ch CHR ''{'') (ch CHR ''}'') b"
  shows "run_chars json_process_char (json_new mode) s (ch CHR ''{'' # b @ [ch CHR ''}'']) = json_new mode
    \<and> (\<forall>k. 0 < k \<and> k \<le> length b + 1 \<longrightarrow>
         js_state (run_chars json_process_char (json_new mode) s (take k (ch CHR ''{'' # b @ [ch CHR ''}'']))) = Processing)"
proof -
  have start: "snd (json_process_char (json_new mode) (ch CHR ''{'') s) = in_object mode 1"
    by (simp add: json_process_char_def json_new_def json_reset_def in_object_def)
  have body: "passes (in_object mode 1) b (in_object mode 1)"
    by (rule nested_passes_object [OF assms]) simp
  have stop: "snd (json_process_char (in_object mode 1) (ch CHR ''}'') s') = json_new mode" for s'
    by (simp add: json_step_defs in_object_def finish_processing_def json_new_def json_reset_def)
  have "run_chars json_process_char (json_new mode) s (ch CHR ''{'' # b @ [ch CHR ''}'']) = json_new mode"
    using body by (simp add: start run_chars_append passes_def stop)
  moreover have "js_state (run_chars json_process_char (json_new mode) s (take k (ch CHR ''{'' # b @ [ch CHR ''}'']))) = Processing"
    if k: "0 < k" "k \<le> length b + 1" for k
  proof -
    obtain j where j: "k = Suc j" "j \<le> length b" using k by (cases k) auto
    with body show ?thesis by (simp add: start passes_def)
  qed
  ultimately show ?thesis by blast
qed

theorem json_object_extent_witness:
  "run_chars json_process_char StreamJsonPlugin_new True (chars ''{x{}y}'') = StreamJsonPlugin_new"
proof -
  let ?o = "ch CHR ''{''" and ?c = "ch CHR ''}''"
  have "nested ?o ?c (ch CHR ''x'' # ?o # [] @ ?c # [ch CHR ''y''])"
    by (intro nested_plain nested_group nested_empty) (simp_all add: ch_def)
  from json_object_extent [OF this, of JsonEmitAll True] show ?thesis
    by (simp add: StreamJsonPlugin_new_def chars_def)
qed

end
