(* ===== verification/Version_Journal.thy ===== *)
theory Version_Journal
  imports Sync_Receipt Stream_Plugin
begin

text \<open>
  The journal of entity versions (\<open>SyncOperationStore.rs\<close>): which version of each entity was applied
  last, kept in memory and appended to a file of lines, each the JSON text of one version.  Decoding of
  UTF-8, the division into lines and their trimming are those of Rust's \<open>str\<close>; the JSON writer and
  reader of serde (\<open>to_vec\<close>, \<open>from_str\<close>) and the host's \<open>appendBytes\<close> are arguments.
\<close>

section \<open>UTF-8 and lines\<close>

definition is_continuation :: "nat \<Rightarrow> bool" where
  "is_continuation b \<longleftrightarrow> 128 \<le> b \<and> b < 192"

text \<open>\<open>String::from_utf8\<close>, with its checks: no overlong forms, no surrogates, nothing past the last plane.\<close>

fun utf8_decode :: "nat list \<Rightarrow> rchar list option" where
  "utf8_decode [] = Some []"
| "utf8_decode (b # bs) =
     (if b < 128 then map_option (Cons b) (utf8_decode bs)
      else if 192 \<le> b \<and> b < 224 then
        (case bs of
           x # rest \<Rightarrow>
             (let n = 64 * (b - 192) + (x - 128)
              in if is_continuation x \<and> 0x80 \<le> n then map_option (Cons n) (utf8_decode rest) else None)
         | _ \<Rightarrow> None)
      else if 224 \<le> b \<and> b < 240 then
        (case bs of
           x # y # rest \<Rightarrow>
             (let n = 4096 * (b - 224) + 64 * (x - 128) + (y - 128)
              in if is_continuation x \<and> is_continuation y \<and> 0x800 \<le> n \<and> \<not> (0xD800 \<le> n \<and> n \<le> 0xDFFF)
                 then map_option (Cons n) (utf8_decode rest) else None)
         | _ \<Rightarrow> None)
      else if 240 \<le> b \<and> b < 248 then
        (case bs of
           x # y # z # rest \<Rightarrow>
             (let n = 262144 * (b - 240) + 4096 * (x - 128) + 64 * (y - 128) + (z - 128)
              in if is_continuation x \<and> is_continuation y \<and> is_continuation z \<and> 0x10000 \<le> n \<and> n \<le> 0x10FFFF
                 then map_option (Cons n) (utf8_decode rest) else None)
         | _ \<Rightarrow> None)
      else None)"

lemma utf8_decode_append:
  "utf8_decode a = Some s \<Longrightarrow> utf8_decode b = Some t \<Longrightarrow> utf8_decode (a @ b) = Some (s @ t)"
proof (induction a arbitrary: s rule: utf8_decode.induct)
  case (2 c bs)
  then show ?case by (auto simp: Let_def split: if_splits list.splits)
qed simp

lemma utf8_decode_ends_line: "utf8_decode (a @ [10]) = Some s \<Longrightarrow> \<exists>t. s = t @ [10]"
proof (induction a arbitrary: s rule: utf8_decode.induct)
  case (2 c bs)
  then show ?case
    by (auto simp: Let_def is_continuation_def Cons_eq_append_conv append_eq_Cons_conv split: if_splits list.splits)
qed simp

text \<open>\<open>str::lines\<close>: a line ends before its line break or at the end; a final line break begins no line.\<close>

definition strip_return :: "rchar list \<Rightarrow> rchar list" where
  "strip_return l = (if l \<noteq> [] \<and> last l = 13 then butlast l else l)"

function str_lines :: "rchar list \<Rightarrow> rchar list list" where
  "str_lines cs =
     (if cs = [] then []
      else case dropWhile (\<lambda>c. c \<noteq> newline) cs of
          [] \<Rightarrow> [cs]
        | _ # rest \<Rightarrow> strip_return (takeWhile (\<lambda>c. c \<noteq> newline) cs) # str_lines rest)"
  by pat_completeness auto
termination
proof (relation "measure length"; clarsimp)
  fix cs c rest assume "dropWhile (\<lambda>c. c \<noteq> newline) cs = c # rest"
  moreover have "length (dropWhile (\<lambda>c. c \<noteq> newline) cs) \<le> length cs" by (rule length_dropWhile_le)
  ultimately show "length rest < length cs" by simp
qed

declare str_lines.simps [simp del]

lemma str_lines_Nil [simp]: "str_lines [] = []"
  by (simp add: str_lines.simps)

lemma str_lines_line: "newline \<notin> set l \<Longrightarrow> str_lines (l @ newline # rest) = strip_return l # str_lines rest"
  by (subst str_lines.simps) (auto simp: takeWhile_append dropWhile_append)

lemma str_lines_append: "str_lines (a @ [newline] @ b) = str_lines (a @ [newline]) @ str_lines b"
proof (induction "length a" arbitrary: a rule: less_induct)
  case less
  show ?case
  proof (cases "newline \<in> set a")
    case True
    then obtain l r where a: "a = l @ newline # r" "newline \<notin> set l" by (meson split_list_first)
    with less [of r] show ?thesis by (simp add: str_lines_line)
  qed (simp add: str_lines_line)
qed

section \<open>The journal\<close>

text \<open>\<open>SyncOperationCachedValue\<close> of the versions, beside the bytes of their file when it exists.\<close>

record version_store =
  vs_file :: "nat list option"
  vs_loaded :: bool
  vs_value :: "(string, revision) bmap"

type_synonym entity_version = "string \<times> revision"

text \<open>What is read before an error stays in the cached value.\<close>

fun load_lines :: "(rchar list \<Rightarrow> entity_version res) \<Rightarrow> rchar list list \<Rightarrow> (string, revision) bmap
    \<Rightarrow> unit res \<times> (string, revision) bmap" where
  "load_lines from_str [] versions = (Inr (), versions)"
| "load_lines from_str (line # lines) versions =
     (let trimmed = trim line in
      if trimmed = [] then load_lines from_str lines versions
      else case from_str trimmed of
          Inl e \<Rightarrow> (Inl e, versions)
        | Inr stored \<Rightarrow> load_lines from_str lines (load_version stored versions))"

definition loadCachedEntityVersions :: "(rchar list \<Rightarrow> entity_version res) \<Rightarrow> version_store \<Rightarrow> unit res \<times> version_store" where
  "loadCachedEntityVersions from_str st =
     (if vs_loaded st then (Inr (), st)
      else case vs_file st of
          None \<Rightarrow> (Inr (), st\<lparr>vs_loaded := True\<rparr>)
        | Some bytes \<Rightarrow> (case utf8_decode bytes of
            None \<Rightarrow> (Inl Foreign, st)
          | Some content \<Rightarrow> (case load_lines from_str (str_lines content) (vs_value st) of
              (Inl e, versions) \<Rightarrow> (Inl e, st\<lparr>vs_value := versions\<rparr>)
            | (Inr _, versions) \<Rightarrow> (Inr (), st\<lparr>vs_value := versions, vs_loaded := True\<rparr>))))"

text \<open>The lines that are appended.\<close>

fun journal_content :: "(entity_version \<Rightarrow> nat list res) \<Rightarrow> entity_version list \<Rightarrow> nat list res" where
  "journal_content to_vec [] = Inr []"
| "journal_content to_vec (e # es) =
     rbind (to_vec e) (\<lambda>line. rbind (journal_content to_vec es) (\<lambda>content. Inr (line @ [newline] @ content)))"

definition append_versions :: "(entity_version \<Rightarrow> nat list res) \<Rightarrow> (nat list option \<Rightarrow> nat list \<Rightarrow> unit res \<times> nat list option)
    \<Rightarrow> (string, revision) bmap \<Rightarrow> version_store \<Rightarrow> unit res \<times> version_store" where
  "append_versions to_vec appendBytes pending st =
     (case journal_content to_vec pending of
        Inl e \<Rightarrow> (Inl e, st)
      | Inr content \<Rightarrow> (case appendBytes (vs_file st) content of
          (Inl e, bytes) \<Rightarrow> (Inl e, st\<lparr>vs_file := bytes\<rparr>)
        | (Inr _, bytes) \<Rightarrow> (Inr (), st\<lparr>vs_file := bytes, vs_value := bm_extend (vs_value st) pending\<rparr>)))"

definition recordAppliedOperations ::
    "(SyncOperation \<Rightarrow> string res) \<Rightarrow> (entity_version \<Rightarrow> nat list res) \<Rightarrow> (rchar list \<Rightarrow> entity_version res)
     \<Rightarrow> (nat list option \<Rightarrow> nat list \<Rightarrow> unit res \<times> nat list option) \<Rightarrow> SyncOperation list \<Rightarrow> version_store
     \<Rightarrow> unit res \<times> version_store" where
  "recordAppliedOperations key to_vec from_str appendBytes ops st =
     (if ops = [] then (Inr (), st)
      else case loadCachedEntityVersions from_str st of
          (Inl e, st) \<Rightarrow> (Inl e, st)
        | (Inr _, st) \<Rightarrow> (case pending_versions key (vs_value st) ops [] of
            Inl e \<Rightarrow> (Inl e, st)
          | Inr pending \<Rightarrow> if pending = [] then (Inr (), st) else append_versions to_vec appendBytes pending st))"

text \<open>\<open>recordBootstrapAppliedOperations\<close> compares the operations of the batch only with one another.\<close>

definition recordBootstrapAppliedOperations ::
    "(SyncOperation \<Rightarrow> string res) \<Rightarrow> (entity_version \<Rightarrow> nat list res) \<Rightarrow> (rchar list \<Rightarrow> entity_version res)
     \<Rightarrow> (nat list option \<Rightarrow> nat list \<Rightarrow> unit res \<times> nat list option) \<Rightarrow> SyncOperation list \<Rightarrow> version_store
     \<Rightarrow> unit res \<times> version_store" where
  "recordBootstrapAppliedOperations key to_vec from_str appendBytes ops st =
     (if ops = [] then (Inr (), st)
      else case loadCachedEntityVersions from_str st of
          (Inl e, st) \<Rightarrow> (Inl e, st)
        | (Inr _, st) \<Rightarrow> (case pending_versions key [] ops [] of
            Inl e \<Rightarrow> (Inl e, st)
          | Inr pending \<Rightarrow> append_versions to_vec appendBytes pending st))"

section \<open>Reloading the journal\<close>

text \<open>What is relied on: the JSON text of a version is one line that the reader reads back, and a
  successful append adds the bytes at the end of the file.\<close>

definition serde_line :: "(rchar list \<Rightarrow> entity_version res) \<Rightarrow> entity_version \<Rightarrow> nat list \<Rightarrow> bool" where
  "serde_line from_str e line \<longleftrightarrow> (\<exists>json. utf8_decode line = Some json \<and> newline \<notin> set json \<and> json \<noteq> []
     \<and> \<not> is_whitespace (hd json) \<and> \<not> is_whitespace (last json) \<and> from_str json = Inr e)"

definition serde_ok :: "(entity_version \<Rightarrow> nat list res) \<Rightarrow> (rchar list \<Rightarrow> entity_version res) \<Rightarrow> bool" where
  "serde_ok to_vec from_str \<longleftrightarrow> (\<forall>e line. to_vec e = Inr line \<longrightarrow> serde_line from_str e line)"

definition file_appends :: "(nat list option \<Rightarrow> nat list \<Rightarrow> unit res \<times> nat list option) \<Rightarrow> bool" where
  "file_appends appendBytes \<longleftrightarrow> (\<forall>bytes content bytes'.
     appendBytes bytes content = (Inr (), bytes') \<longrightarrow> bytes' = Some ((case bytes of None \<Rightarrow> [] | Some old \<Rightarrow> old) @ content))"

text \<open>A new process has read nothing.\<close>

definition restarted :: "version_store \<Rightarrow> version_store" where
  "restarted st = st\<lparr>vs_loaded := False, vs_value := []\<rparr>"

text \<open>No line of the file is cut off, and what is cached is what the file says.\<close>

definition journal_ok :: "(rchar list \<Rightarrow> entity_version res) \<Rightarrow> version_store \<Rightarrow> bool" where
  "journal_ok from_str st \<longleftrightarrow>
     (case vs_file st of None \<Rightarrow> True | Some bytes \<Rightarrow> bytes = [] \<or> last bytes = newline)
     \<and> (st = restarted st \<or> loadCachedEntityVersions from_str (restarted st) = (Inr (), st))"

lemma trim_json:
  assumes "json \<noteq> []" "\<not> is_whitespace (hd json)" "\<not> is_whitespace (last json)"
  shows "trim json = json" "trim (strip_return json) = json"
proof -
  from assms(1,2) have "dropWhile is_whitespace json = json" by (cases json) auto
  moreover from assms(1,3) have "dropWhile is_whitespace (rev json) = rev json" by (cases json rule: rev_cases) auto
  ultimately show trim: "trim json = json" by (simp add: trim_def)
  have "last json \<noteq> 13" using assms(3) by (auto simp: is_whitespace_def)
  with trim show "trim (strip_return json) = json" by (simp add: strip_return_def)
qed

lemma load_lines_append:
  "load_lines from_str (a @ b) v =
     (case load_lines from_str a v of (Inl e, w) \<Rightarrow> (Inl e, w) | (Inr _, w) \<Rightarrow> load_lines from_str b w)"
  by (induction a arbitrary: v) (auto simp: Let_def split: sum.split)

lemma journal_content_lines:
  assumes "serde_ok to_vec from_str" and "journal_content to_vec es = Inr content"
  shows "\<exists>body. utf8_decode content = Some body
    \<and> (\<forall>v. load_lines from_str (str_lines body) v = (Inr (), foldl (\<lambda>m e. load_version e m) v es))
    \<and> (es \<noteq> [] \<longrightarrow> content \<noteq> [] \<and> last content = newline)"
  using assms(2)
proof (induction es arbitrary: content)
  case (Cons e es)
  from Cons.prems obtain line more where content: "content = line @ [newline] @ more"
    and line: "to_vec e = Inr line" and more: "journal_content to_vec es = Inr more" by auto
  from Cons.IH [OF more] obtain body where body: "utf8_decode more = Some body"
    "\<And>v. load_lines from_str (str_lines body) v = (Inr (), foldl (\<lambda>m e. load_version e m) v es)"
    "es \<noteq> [] \<longrightarrow> more \<noteq> [] \<and> last more = newline" by blast
  from assms(1) line obtain json where json: "utf8_decode line = Some json" "newline \<notin> set json" "json \<noteq> []"
    "\<not> is_whitespace (hd json)" "\<not> is_whitespace (last json)" "from_str json = Inr e"
    unfolding serde_ok_def serde_line_def by blast
  have "utf8_decode [newline] = Some [newline]" by (simp add: newline_def)
  from utf8_decode_append [OF json(1) utf8_decode_append [OF this body(1)]]
  have "utf8_decode content = Some (json @ newline # body)" by (simp add: content)
  moreover have "load_lines from_str (str_lines (json @ newline # body)) v = (Inr (), foldl (\<lambda>m e. load_version e m) v (e # es))" for v
    using json by (simp add: str_lines_line trim_json Let_def body(2))
  moreover have "content \<noteq> [] \<and> last content = newline"
    using more body(3) by (cases es) (auto simp: content)
  ultimately show ?case by blast
qed simp

lemma loaded_wf:
  "load_lines from_str ls v = (r, w) \<Longrightarrow> bm_wf v \<Longrightarrow> bm_wf w"
  by (induction ls arbitrary: v) (auto simp: Let_def load_version_def split: if_splits sum.splits option.splits)

text \<open>Lines appended to a file of whole lines are read after its own.\<close>

lemma load_appended:
  assumes serde: "serde_ok to_vec from_str" and whole: "bytes = [] \<or> last bytes = newline"
    and content: "journal_content to_vec es = Inr content"
    and old: "utf8_decode bytes = Some old" "load_lines from_str (str_lines old) [] = (Inr (), v)"
  shows "\<exists>new. utf8_decode (bytes @ content) = Some new
    \<and> load_lines from_str (str_lines new) [] = (Inr (), foldl (\<lambda>m e. load_version e m) v es)"
proof -
  from journal_content_lines [OF serde content] obtain body where body: "utf8_decode content = Some body"
    "\<And>v. load_lines from_str (str_lines body) v = (Inr (), foldl (\<lambda>m e. load_version e m) v es)" by blast
  have lines: "str_lines (old @ body) = str_lines old @ str_lines body"
  proof (cases "bytes = []")
    case True
    with old(1) show ?thesis by simp
  next
    case False
    with whole obtain bytes' where "bytes = bytes' @ [10]" by (metis append_butlast_last_id newline_def)
    with old(1) utf8_decode_ends_line obtain old' where "old = old' @ [newline]" unfolding newline_def by blast
    with str_lines_append [of old' body] show ?thesis by simp
  qed
  have "load_lines from_str (str_lines (old @ body)) [] = (Inr (), foldl (\<lambda>m e. load_version e m) v es)"
    unfolding lines load_lines_append by (simp add: old(2) body(2))
  with utf8_decode_append [OF old(1) body(1)] show ?thesis by blast
qed

lemma pending_loaded:
  assumes "bm_wf v" and "pending_versions key v ops [] = Inr pending"
  shows "foldl (\<lambda>m e. load_version e m) v pending = bm_extend v pending"
proof -
  from pending_versions_newer [OF assms(2)] have wf: "bm_wf pending"
    and newer: "\<forall>k r. map_of pending k = Some r \<longrightarrow> (\<forall>c. map_of v k = Some c \<longrightarrow> c < r)" by auto
  show ?thesis using assms(1) newer wf by (intro load_pending) (auto simp: bm_wf_distinct)
qed

text \<open>A load that succeeds leaves a store that a new process reads back.\<close>

lemma loaded_ok:
  assumes "journal_ok from_str st" and "loadCachedEntityVersions from_str st = (Inr (), st1)"
  shows "vs_loaded st1 \<and> vs_file st1 = vs_file st \<and> loadCachedEntityVersions from_str (restarted st1) = (Inr (), st1)"
proof (cases "vs_loaded st")
  case True
  then have "st \<noteq> restarted st" by (cases st) (simp add: restarted_def)
  with assms True show ?thesis by (auto simp: journal_ok_def loadCachedEntityVersions_def)
next
  case False
  have eq: "restarted st1 = restarted st" if "vs_file st1 = vs_file st"
    using that by (cases st; cases st1) (simp add: restarted_def)
  from assms(2) False have bytes: "vs_file st1 = vs_file st" "vs_loaded st1"
    by (auto simp: loadCachedEntityVersions_def split: option.splits prod.splits sum.splits)
  have "vs_loaded (snd (loadCachedEntityVersions from_str (restarted st)))"
    if "loadCachedEntityVersions from_str (restarted st) = (Inr (), st)"
    using that False by (cases st) (auto simp: loadCachedEntityVersions_def restarted_def split: option.splits prod.splits sum.splits)
  with assms(1) False have "st = restarted st" by (auto simp: journal_ok_def)
  with assms(2) eq [OF bytes(1)] bytes show ?thesis by simp
qed

lemma loaded_file:
  assumes "loadCachedEntityVersions from_str (restarted st) = (Inr (), st)"
  shows "case vs_file st of None \<Rightarrow> vs_value st = []
    | Some bytes \<Rightarrow> \<exists>body. utf8_decode bytes = Some body \<and> load_lines from_str (str_lines body) [] = (Inr (), vs_value st)"
  using assms by (cases st) (auto simp: loadCachedEntityVersions_def restarted_def split: option.splits prod.splits sum.splits)

lemma restarted_loadI:
  assumes "vs_loaded st" "vs_file st = Some bytes" "utf8_decode bytes = Some body"
    "load_lines from_str (str_lines body) [] = (Inr (), vs_value st)"
  shows "loadCachedEntityVersions from_str (restarted st) = (Inr (), st)"
  using assms by (cases st) (simp add: loadCachedEntityVersions_def restarted_def)

text \<open>C12: The journal of entity versions is a faithful log of the cached map.  After a batch was
  recorded, the file consists of whole lines, and a process that starts anew and reads its bytes,
  decoding, dividing into lines, trimming and parsing them, ends with exactly the map kept in
  memory.  Assumed are a JSON writer whose one-line texts its reader reads back, an append that adds
  its bytes at the end, and a journal that was in this state before.\<close>

theorem version_file_roundtrip:
  assumes "serde_ok to_vec from_str" and "file_appends appendBytes" and "journal_ok from_str st" and "ops \<noteq> []"
    and "recordAppliedOperations key to_vec from_str appendBytes ops st = (Inr (), st')"
  shows "journal_ok from_str st' \<and> loadCachedEntityVersions from_str (restarted st') = (Inr (), st')"
proof -
  from assms(4,5) obtain st1 where load: "loadCachedEntityVersions from_str st = (Inr (), st1)"
    by (auto simp: recordAppliedOperations_def split: prod.splits sum.splits)
  note ok = loaded_ok [OF assms(3) load]
  from assms(4,5) load obtain pending where pending: "pending_versions key (vs_value st1) ops [] = Inr pending"
    and st': "(if pending = [] then (Inr (), st1) else append_versions to_vec appendBytes pending st1) = (Inr (), st')"
    by (auto simp: recordAppliedOperations_def split: sum.splits)
  have whole: "case vs_file st1 of None \<Rightarrow> True | Some bytes \<Rightarrow> bytes = [] \<or> last bytes = newline"
    using assms(3) ok by (simp add: journal_ok_def)
  show ?thesis
  proof (cases "pending = []")
    case True
    with st' have "st' = st1" by simp
    with ok whole show ?thesis by (simp add: journal_ok_def)
  next
    case False
    with st' obtain content where content: "journal_content to_vec pending = Inr content"
      and append: "fst (appendBytes (vs_file st1) content) = Inr ()"
      and st'': "st' = st1\<lparr>vs_file := snd (appendBytes (vs_file st1) content), vs_value := bm_extend (vs_value st1) pending\<rparr>"
      by (auto simp: append_versions_def split: sum.splits prod.splits)
    define old where "old = (case vs_file st1 of None \<Rightarrow> [] | Some bytes \<Rightarrow> bytes)"
    from assms(2) append have bytes: "vs_file st' = Some (old @ content)"
      unfolding st'' old_def file_appends_def by (metis prod.collapse version_store.select_convs(1) version_store.surjective version_store.update_convs(1,3))
    have cached: "vs_value st' = bm_extend (vs_value st1) pending" and loaded: "vs_loaded st'" using ok by (simp_all add: st'')
    have "\<exists>body. utf8_decode old = Some body \<and> load_lines from_str (str_lines body) [] = (Inr (), vs_value st1)"
      using loaded_file [of from_str st1] ok unfolding old_def by (cases "vs_file st") auto
    then obtain body where body: "utf8_decode old = Some body" "load_lines from_str (str_lines body) [] = (Inr (), vs_value st1)" by blast
    have lines: "old = [] \<or> last old = newline" using whole by (auto simp: old_def split: option.splits)
    from loaded_wf [OF body(2)] have wf: "bm_wf (vs_value st1)" by simp
    from load_appended [OF assms(1) lines content body] pending_loaded [OF wf pending]
    obtain new where "utf8_decode (old @ content) = Some new" "load_lines from_str (str_lines new) [] = (Inr (), vs_value st')"
      unfolding cached by auto
    with restarted_loadI [OF loaded bytes] have reload: "loadCachedEntityVersions from_str (restarted st') = (Inr (), st')" by blast
    moreover have "content \<noteq> [] \<and> last content = newline"
      using journal_content_lines [OF assms(1) content] False by blast
    ultimately show ?thesis by (simp add: journal_ok_def bytes)
  qed
qed

definition sample_op :: "string \<Rightarrow> int \<Rightarrow> SyncOperation" where
  "sample_op i s = \<lparr>opId = i, op_originDeviceId = ''dev'', op_sequence = s, op_domain = ''chat'',
     entityType = ''message'', entityId = i, op_operation = ''put'', semantics = EntityState,
     payload = JNull, op_createdAt = s, schemaVersion = 1\<rparr>"

text \<open>The texts of two versions of the entity \<open>m\<close>, and a host whose appends succeed.\<close>

definition sample_json :: "entity_version \<Rightarrow> rchar list option" where
  "sample_json e =
     (if e = (''m'', Revision 1 ''dev'' 1)
      then Some (chars ''{\"entityKey\":\"m\",\"order\":{\"createdAt\":1,\"originDeviceId\":\"dev\",\"sequence\":1}}'')
      else if e = (''m'', Revision 4 ''dev'' 4)
      then Some (chars ''{\"entityKey\":\"m\",\"order\":{\"createdAt\":4,\"originDeviceId\":\"dev\",\"sequence\":4}}'')
      else None)"

definition sample_to_vec :: "entity_version \<Rightarrow> nat list res" where
  "sample_to_vec e = (case sample_json e of None \<Rightarrow> Inl Foreign | Some json \<Rightarrow> Inr json)"

definition sample_from_str :: "rchar list \<Rightarrow> entity_version res" where
  "sample_from_str json =
     (if sample_json (''m'', Revision 1 ''dev'' 1) = Some json then Inr (''m'', Revision 1 ''dev'' 1)
      else if sample_json (''m'', Revision 4 ''dev'' 4) = Some json then Inr (''m'', Revision 4 ''dev'' 4)
      else Inl Foreign)"

definition sample_append :: "nat list option \<Rightarrow> nat list \<Rightarrow> unit res \<times> nat list option" where
  "sample_append bytes content = (Inr (), Some ((case bytes of None \<Rightarrow> [] | Some old \<Rightarrow> old) @ content))"

lemma sample_serde_ok: "serde_ok sample_to_vec sample_from_str"
proof -
  have "serde_line sample_from_str e line" if "sample_to_vec e = Inr line" for e line
  proof -
    from that have "e = (''m'', Revision 1 ''dev'' 1) \<or> e = (''m'', Revision 4 ''dev'' 4)"
      by (auto simp: sample_to_vec_def sample_json_def split: if_splits)
    with that show ?thesis
      by (elim disjE) (simp_all add: sample_to_vec_def sample_json_def sample_from_str_def serde_line_def
          chars_def ch_def newline_def is_whitespace_def, auto)
  qed
  then show ?thesis by (simp add: serde_ok_def)
qed

lemma sample_append_ok: "file_appends sample_append"
  by (simp add: file_appends_def sample_append_def)

theorem version_file_roundtrip_witness:
  "\<exists>st'. recordAppliedOperations (\<lambda>op. Inr (opId op)) sample_to_vec sample_from_str sample_append
      [sample_op ''m'' 1, sample_op ''m'' 4] \<lparr>vs_file = None, vs_loaded = False, vs_value = []\<rparr> = (Inr (), st')
    \<and> vs_value st' = [(''m'', Revision 4 ''dev'' 4)]
    \<and> loadCachedEntityVersions sample_from_str (restarted st') = (Inr (), st')"
proof -
  let ?st = "\<lparr>vs_file = None, vs_loaded = False, vs_value = []\<rparr>" and ?ops = "[sample_op ''m'' 1, sample_op ''m'' 4]"
  have load: "loadCachedEntityVersions sample_from_str ?st = (Inr (), ?st\<lparr>vs_loaded := True\<rparr>)"
    by (simp add: loadCachedEntityVersions_def)
  have pending: "pending_versions (\<lambda>op. Inr (opId op)) [] ?ops [] = Inr [(''m'', Revision 4 ''dev'' 4)]"
    by (simp add: sample_op_def fromOperation_def less_eq_revision_def revision_le_def)
  have content: "\<exists>content. journal_content sample_to_vec [(''m'', Revision 4 ''dev'' 4)] = Inr content"
    by (simp add: sample_to_vec_def sample_json_def)
  then obtain content where content: "journal_content sample_to_vec [(''m'', Revision 4 ''dev'' 4)] = Inr content" by blast
  let ?st' = "\<lparr>vs_file = Some content, vs_loaded = True, vs_value = [(''m'', Revision 4 ''dev'' 4)]\<rparr>"
  have recorded: "recordAppliedOperations (\<lambda>op. Inr (opId op)) sample_to_vec sample_from_str sample_append ?ops ?st = (Inr (), ?st')"
    unfolding recordAppliedOperations_def load using pending content
    by (simp add: append_versions_def sample_append_def bm_extend_def del: pending_versions.simps journal_content.simps)
  have "journal_ok sample_from_str ?st" by (simp add: journal_ok_def restarted_def)
  from version_file_roundtrip [OF sample_serde_ok sample_append_ok this _ recorded] recorded show ?thesis by auto
qed

text \<open>
  The operations of a bootstrap replace what is cached even when they are older, but the reader
  keeps the newer line: the next process sees the version from before the bootstrap again.
\<close>

theorem bootstrap_forgotten_on_reload:
  assumes "serde_ok to_vec from_str" and "file_appends appendBytes"
    and st: "journal_ok from_str st" "vs_loaded st" and old: "map_of (vs_value st) k = Some current"
    and op: "key op = Inr k" "fromOperation op < current"
    and "recordBootstrapAppliedOperations key to_vec from_str appendBytes [op] st = (Inr (), st')"
  shows "map_of (vs_value st') k = Some (fromOperation op)
    \<and> (\<exists>st''. loadCachedEntityVersions from_str (restarted st') = (Inr (), st'') \<and> map_of (vs_value st'') k = Some current)"
proof -
  let ?new = "(k, fromOperation op)"
  have cached: "loadCachedEntityVersions from_str st = (Inr (), st)" using st(2) by (simp add: loadCachedEntityVersions_def)
  note reload = loaded_ok [OF st(1) this]
  from assms(8) cached op(1) obtain content where content: "journal_content to_vec [?new] = Inr content"
    and append: "fst (appendBytes (vs_file st) content) = Inr ()"
    and st': "st' = st\<lparr>vs_file := snd (appendBytes (vs_file st) content), vs_value := bm_extend (vs_value st) [?new]\<rparr>"
    by (auto simp: recordBootstrapAppliedOperations_def append_versions_def simp del: journal_content.simps split: sum.splits prod.splits)
  define bytes where "bytes = (case vs_file st of None \<Rightarrow> [] | Some bytes \<Rightarrow> bytes)"
  from assms(2) append have bytes': "vs_file st' = Some (bytes @ content)"
    unfolding st' bytes_def file_appends_def by (metis prod.collapse version_store.select_convs(1) version_store.surjective version_store.update_convs(1,3))
  have "\<exists>body. utf8_decode bytes = Some body \<and> load_lines from_str (str_lines body) [] = (Inr (), vs_value st)"
    using loaded_file [of from_str st] reload unfolding bytes_def by (cases "vs_file st") auto
  then obtain body where body: "utf8_decode bytes = Some body" "load_lines from_str (str_lines body) [] = (Inr (), vs_value st)" by blast
  have "bytes = [] \<or> last bytes = newline" using st(1) by (auto simp: bytes_def journal_ok_def split: option.splits)
  from load_appended [OF assms(1) this content body] obtain new where "utf8_decode (bytes @ content) = Some new"
    "load_lines from_str (str_lines new) [] = (Inr (), load_version ?new (vs_value st))" by auto
  moreover have "load_version ?new (vs_value st) = vs_value st" using old op(2) by (simp add: load_version_def)
  ultimately have "loadCachedEntityVersions from_str (restarted st') = (Inr (), st'\<lparr>vs_value := vs_value st\<rparr>)"
    using st(2) bytes' by (simp add: loadCachedEntityVersions_def restarted_def st')
  moreover have "map_of (vs_value st') k = Some (fromOperation op)"
    using loaded_wf [OF body(2)] by (simp add: st' bm_extend_def)
  ultimately show ?thesis using old by auto
qed

end
