(* ===== verification/Edit_Algebra.thy ===== *)
theory Edit_Algebra
  imports Json_Value
begin

text \<open>
  The edits of \<open>Transaction.rs\<close>: paths into a JSON value, the five kinds of edit and their
  effect on the values of a dataset.  The source mutates in place and every caller discards
  the mutated copy when an edit fails, so an edit is a function to a new map or an error.
\<close>

section \<open>Definitions\<close>

datatype path = Field string | Item string | Records

datatype edit =
    Set (set_key: string) (set_path: "path list") (set_value: json)
  | Delete string "path list"
  | Increment string "path list" int
  | Patch string "(string, json) bmap" "string bset"
  | ReplaceRecords string "(string, json) bmap"

type_synonym vals = "(string, json) bmap"

fun edit_key :: "edit \<Rightarrow> string" where
  "edit_key (Set k p v) = k"
| "edit_key (Delete k p) = k"
| "edit_key (Increment k p d) = k"
| "edit_key (Patch k s d) = k"
| "edit_key (ReplaceRecords prefix rs) = prefix"

definition is_delete :: "edit \<Rightarrow> bool" where
  "is_delete e = (case e of Delete _ _ \<Rightarrow> True | _ \<Rightarrow> False)"

definition increment :: "json \<Rightarrow> int \<Rightarrow> json res" where
  "increment v d =
     ok_or (Err ''Integer edit requires an integer without overflow'')
       (map_option JInt (Option.bind (as_i64 v) (\<lambda>n. i64_checked_add n d)))"

definition container :: "path \<Rightarrow> json res" where
  "container segment =
     (case segment of
        Field _ \<Rightarrow> Inr (JObj [])
      | Item _ \<Rightarrow> Inr (JArr [])
      | Records \<Rightarrow> Inl (Err ''Namespace scope is not a value path''))"

fun edit_next :: "edit \<Rightarrow> json option \<Rightarrow> json res" where
  "edit_next (Set k p v) previous = Inr v"
| "edit_next (Increment k p d) previous =
     increment (case previous of None \<Rightarrow> JInt 0 | Some v \<Rightarrow> v) d"
| "edit_next _ previous = Inl (Err ''Assignment expected'')"

text \<open>\<open>position\<close> of the first item with the given identity.\<close>

primrec item_position :: "string \<Rightarrow> json list \<Rightarrow> nat option" where
  "item_position i [] = None"
| "item_position i (x # xs) =
     (if has_id i x then Some 0 else map_option Suc (item_position i xs))"

fun compatible :: "json \<Rightarrow> path \<Rightarrow> bool" where
  "compatible (JObj _) (Field _) = True"
| "compatible (JArr _) (Item _) = True"
| "compatible (JArr _) (Field i) = (parse_usize i \<noteq> None)"
| "compatible _ _ = False"

text \<open>The index an array segment selects: a position for \<open>Field\<close>, a search for \<open>Item\<close>.\<close>

fun array_index :: "json list \<Rightarrow> path \<Rightarrow> nat option res" where
  "array_index xs (Field i) =
     (case parse_usize i of
        None \<Rightarrow> Inl (Err ''Array edit requires an index'')
      | Some n \<Rightarrow> Inr (Some n))"
| "array_index xs (Item i) = Inr (item_position i xs)"
| "array_index xs Records = Inl (Err ''Namespace scope is not a value path'')"

text \<open>A fresh item for a missing identity: the container of the next segment with its
  \<open>id\<close> field.\<close>

definition fresh_item :: "string \<Rightarrow> path \<Rightarrow> json res" where
  "fresh_item i next =
     rbind (container next) (\<lambda>item.
     rbind (ok_or (Err ''Identity item requires an object'') (as_object item)) (\<lambda>m.
     Inr (JObj (bm_insert ''id'' (JStr i) m))))"

text \<open>An assignment through an incompatible value first replaces it by an empty container.\<close>

definition enter :: "json \<Rightarrow> path \<Rightarrow> json res" where
  "enter value segment = (if compatible value segment then Inr value else container segment)"

fun apply_nested :: "json \<Rightarrow> path list \<Rightarrow> edit \<Rightarrow> json res" where
  "apply_nested value [] e = Inl (Err ''Empty edit path'')"
| "apply_nested value (segment # rest) e =
     (if \<not> compatible value segment \<and> is_delete e then Inr value
      else rbind (enter value segment) (\<lambda>value.
      case value of
        JObj m \<Rightarrow>
          (case segment of
             Field f \<Rightarrow>
               (if rest \<noteq> [] then
                  (if map_of m f = None \<and> is_delete e then Inr value
                   else rbind (case map_of m f of None \<Rightarrow> container (hd rest) | Some v \<Rightarrow> Inr v) (\<lambda>child.
                        rbind (apply_nested child rest e) (\<lambda>child'.
                        Inr (JObj (bm_insert f child' m)))))
                else if is_delete e then Inr (JObj (bm_remove f m))
                else rbind (edit_next e (map_of m f)) (\<lambda>v. Inr (JObj (bm_insert f v m))))
           | _ \<Rightarrow> Inl (Err ''Edit path requires an object or array''))
      | JArr xs \<Rightarrow>
          rbind (array_index xs segment) (\<lambda>index.
          if rest \<noteq> [] then
            (case index of
               None \<Rightarrow>
                 (if is_delete e then Inr value
                  else (case segment of
                          Item i \<Rightarrow>
                            rbind (fresh_item i (hd rest)) (\<lambda>item.
                            rbind (apply_nested item rest e) (\<lambda>item'. Inr (JArr (xs @ [item']))))
                        | _ \<Rightarrow> Inl (Err ''Missing edit item'')))
             | Some n \<Rightarrow>
                 (if n < length xs
                  then rbind (apply_nested (xs ! n) rest e) (\<lambda>v. Inr (JArr (xs[n := v])))
                  else Inl (Err ''Missing edit item'')))
          else
            (case index of
               Some n \<Rightarrow>
                 (if n \<ge> length xs then Inl (Err ''Array edit index is out of range'')
                  else if is_delete e then Inr (JArr (take n xs @ drop (Suc n) xs))
                  else rbind (edit_next e (Some (xs ! n))) (\<lambda>v. Inr (JArr (xs[n := v]))))
             | None \<Rightarrow>
                 (if is_delete e then Inr value
                  else rbind (edit_next e None) (\<lambda>v. Inr (JArr (xs @ [v]))))))
      | _ \<Rightarrow> Inl (Err ''Edit path requires an object or array'')))"

definition replace_records :: "string \<Rightarrow> (string, json) bmap \<Rightarrow> vals \<Rightarrow> vals" where
  "replace_records prefix rs values =
     bm_extend (bm_retain (\<lambda>k _. \<not> starts_with k prefix) values)
       (map (\<lambda>(i, v). (prefix @ i, v)) rs)"

definition patch_object :: "(string, json) bmap \<Rightarrow> string bset \<Rightarrow> json \<Rightarrow> json res" where
  "patch_object sets deletes value =
     rbind (ok_or (Err ''Object patch requires an object entry'') (as_object value)) (\<lambda>m.
     Inr (JObj (bm_extend (foldl (\<lambda>m f. bm_remove f m) m deletes) sets)))"

text \<open>The common body of \<open>Set\<close>, \<open>Delete\<close> and \<open>Increment\<close>.\<close>

definition apply_at :: "edit \<Rightarrow> string \<Rightarrow> path list \<Rightarrow> vals \<Rightarrow> vals res" where
  "apply_at e key path values =
     (if Records \<in> set path then Inl (Err ''Namespace scope is not a value path'')
      else if path = [] then
        (if is_delete e then Inr (bm_remove key values)
         else rbind (edit_next e (map_of values key)) (\<lambda>v. Inr (bm_insert key v values)))
      else if map_of values key = None \<and> is_delete e then Inr values
      else rbind (case map_of values key of None \<Rightarrow> container (hd path) | Some v \<Rightarrow> Inr v) (\<lambda>root.
           rbind (apply_nested root path e) (\<lambda>root'.
           Inr (bm_insert key root' values))))"

fun apply_values :: "edit \<Rightarrow> vals \<Rightarrow> vals res" where
  "apply_values (ReplaceRecords prefix rs) values = Inr (replace_records prefix rs values)"
| "apply_values (Patch key sets deletes) values =
     rbind (patch_object sets deletes
              (case map_of values key of None \<Rightarrow> JObj [] | Some v \<Rightarrow> v))
       (\<lambda>v. Inr (bm_insert key v values))"
| "apply_values (Set key path v) values = apply_at (Set key path v) key path values"
| "apply_values (Delete key path) values = apply_at (Delete key path) key path values"
| "apply_values (Increment key path d) values = apply_at (Increment key path d) key path values"

text \<open>Reading the value at a path.\<close>

fun nested_value :: "json option \<Rightarrow> path list \<Rightarrow> json option" where
  "nested_value value [] = value"
| "nested_value None (segment # rest) = None"
| "nested_value (Some (JObj m)) (Field f # rest) = nested_value (map_of m f) rest"
| "nested_value (Some (JArr xs)) (Field i # rest) =
     nested_value
       (case parse_usize i of Some n \<Rightarrow> (if n < length xs then Some (xs ! n) else None) | None \<Rightarrow> None)
       rest"
| "nested_value (Some (JArr xs)) (Item i # rest) = nested_value (find (has_id i) xs) rest"
| "nested_value (Some v) (segment # rest) = None"

declare apply_nested.simps(2) [simp del]


section \<open>Type invariant: edits keep values well formed\<close>

definition vals_wf :: "vals \<Rightarrow> bool" where
  "vals_wf m \<longleftrightarrow> json_wf (JObj m)"

fun edit_wf :: "edit \<Rightarrow> bool" where
  "edit_wf (Set k p v) = json_wf v"
| "edit_wf (Patch k sets ds) = json_wf (JObj sets)"
| "edit_wf (ReplaceRecords p rs) = json_wf (JObj rs)"
| "edit_wf _ = True"

lemma vals_wf_lookup: "vals_wf m \<Longrightarrow> map_of m k = Some v \<Longrightarrow> json_wf v"
  unfolding vals_wf_def by (rule json_wf_lookup)

lemma vals_wf_bm: "vals_wf m \<Longrightarrow> bm_wf m"
  by (simp add: vals_wf_def)

lemma vals_wf_insert: "vals_wf m \<Longrightarrow> json_wf v \<Longrightarrow> vals_wf (bm_insert k v m)"
  unfolding vals_wf_def by (rule json_wf_insert)

lemma vals_wf_remove: "vals_wf m \<Longrightarrow> vals_wf (bm_remove k m)"
  unfolding vals_wf_def by (rule json_wf_remove)

lemma vals_wf_extend:
  "vals_wf m \<Longrightarrow> \<forall>e \<in> set es. json_wf (snd e) \<Longrightarrow> vals_wf (bm_extend m es)"
  by (induction es arbitrary: m) (auto simp: bm_extend_def vals_wf_insert)

lemma vals_wf_retain: "vals_wf m \<Longrightarrow> vals_wf (bm_retain P m)"
  by (auto simp: vals_wf_def bm_retain_def bm_wf_filter)

lemma container_wf: "container s = Inr v \<Longrightarrow> json_wf v"
  by (auto simp: container_def split: path.splits)

lemma fresh_item_Inr:
  assumes "fresh_item i s = Inr v"
  shows "v = JObj [(''id'', JStr i)]"
  using assms by (auto simp: fresh_item_def container_def split: path.splits)

lemma edit_next_wf: "edit_next e p = Inr v \<Longrightarrow> edit_wf e \<Longrightarrow> json_wf v"
  by (cases e) (auto simp: increment_def)

lemma nth_wf: "json_wf (JArr xs) \<Longrightarrow> n < length xs \<Longrightarrow> json_wf (xs ! n)"
  by simp

lemma list_update_wf: "json_wf (JArr xs) \<Longrightarrow> json_wf v \<Longrightarrow> json_wf (JArr (xs[n := v]))"
  by (auto dest!: set_update_subset_insert [THEN subsetD])

text \<open>
  One step of \<open>apply_nested\<close> into an object and into an array, as a case analysis.  The array
  step either changes one existing item or appends one.
\<close>

lemma apply_nested_step:
  assumes "apply_nested value (segment # rest) e = Inr value'"
  obtains (skip) "value' = value" "is_delete e"
  | (obj) m f v where "segment = Field f" "value' = JObj (bm_insert f v m)"
      "value = JObj m \<or> (\<not> compatible value segment \<and> m = [])"
      "(rest = [] \<and> \<not> is_delete e \<and> edit_next e (map_of m f) = Inr v) \<or>
       (rest \<noteq> [] \<and> (\<exists>c. (map_of m f = Some c \<or> map_of m f = None \<and> container (hd rest) = Inr c) \<and>
          apply_nested c rest e = Inr v))"
  | (obj_del) m f where "segment = Field f" "rest = []" "is_delete e" "value = JObj m"
      "value' = JObj (bm_remove f m)"
  | (arr) xs n v where "value = JArr xs" "array_index xs segment = Inr (Some n)" "n < length xs"
      "value' = JArr (xs[n := v])"
      "(rest = [] \<and> \<not> is_delete e \<and> edit_next e (Some (xs ! n)) = Inr v) \<or>
       (rest \<noteq> [] \<and> apply_nested (xs ! n) rest e = Inr v)"
  | (arr_del) xs n where "value = JArr xs" "array_index xs segment = Inr (Some n)" "n < length xs"
      "rest = []" "is_delete e" "value' = JArr (take n xs @ drop (Suc n) xs)"
  | (arr_new) xs i v where "segment = Item i" "item_position i xs = None"
      "value' = JArr (xs @ [v])" "\<not> is_delete e"
      "value = JArr xs \<or> (\<not> compatible value segment \<and> xs = [])"
      "(rest = [] \<and> edit_next e None = Inr v) \<or>
       (rest \<noteq> [] \<and> (\<exists>item. fresh_item i (hd rest) = Inr item \<and> apply_nested item rest e = Inr v))"
proof (cases "\<not> compatible value segment \<and> is_delete e")
  case True
  with assms skip show ?thesis by (simp add: apply_nested.simps(2))
next
  case False
  from assms False obtain w where w: "enter value segment = Inr w"
    by (auto simp: apply_nested.simps(2))
  have origin: "value = w \<or> \<not> compatible value segment \<and> (w = JObj [] \<or> w = JArr [])"
    using w by (auto simp: enter_def container_def split: if_splits path.splits)
  show ?thesis
  proof (cases w)
    case (JObj m)
    from w JObj False assms obtain f where f: "segment = Field f"
      by (cases segment) (auto simp: apply_nested.simps(2))
    have src: "value = JObj m \<or> (\<not> compatible value segment \<and> m = [])" using origin JObj by auto
    show ?thesis
    proof (cases "rest = []")
      case True
      show ?thesis
      proof (cases "is_delete e")
        case del: True
        with False src have "value = JObj m" by auto
        with True del f assms w JObj False obj_del show ?thesis
          by (auto simp: apply_nested.simps(2))
      next
        case ndel: False
        with True f assms w JObj obtain v where "edit_next e (map_of m f) = Inr v"
          "value' = JObj (bm_insert f v m)"
          by (auto simp: apply_nested.simps(2))
        with obj f src True ndel show ?thesis by blast
      qed
    next
      case rest: False
      show ?thesis
      proof (cases "map_of m f = None \<and> is_delete e")
        case True
        with False src have "value = JObj m" by auto
        with True rest f assms w JObj False skip show ?thesis
          by (auto simp: apply_nested.simps(2))
      next
        case go: False
        from assms w JObj f rest go False obtain c v
          where c: "(case map_of m f of None \<Rightarrow> container (hd rest) | Some v \<Rightarrow> Inr v) = Inr c"
            and v: "apply_nested c rest e = Inr v" "value' = JObj (bm_insert f v m)"
          by (auto simp: apply_nested.simps(2))
        have "map_of m f = Some c \<or> map_of m f = None \<and> container (hd rest) = Inr c"
          using c by (auto split: option.splits)
        with v rest obj f src show ?thesis by blast
      qed
    qed
  next
    case (JArr xs)
    have src: "value = JArr xs \<or> (\<not> compatible value segment \<and> xs = [])" using origin JArr by auto
    from assms w JArr False obtain idx where idx: "array_index xs segment = Inr idx"
      by (auto simp: apply_nested.simps(2))
    show ?thesis
    proof (cases idx)
      case (Some n)
      have comp: "value = JArr xs" if "n < length xs" using src that by auto
      show ?thesis
      proof (cases "rest = []")
        case True
        show ?thesis
        proof (cases "is_delete e")
          case del: True
          with True Some idx assms w JArr False have "n < length xs"
            "value' = JArr (take n xs @ drop (Suc n) xs)"
            by (auto simp: apply_nested.simps(2) split: if_splits)
          with arr_del comp idx Some True del show ?thesis by blast
        next
          case ndel: False
          with True Some idx assms w JArr obtain v where "n < length xs"
            "edit_next e (Some (xs ! n)) = Inr v" "value' = JArr (xs[n := v])"
            by (auto simp: apply_nested.simps(2) split: if_splits)
          with arr comp idx Some True ndel show ?thesis by blast
        qed
      next
        case rest: False
        with Some idx assms w JArr False obtain v where "n < length xs"
          "apply_nested (xs ! n) rest e = Inr v" "value' = JArr (xs[n := v])"
          by (auto simp: apply_nested.simps(2) split: if_splits)
        with arr comp idx Some rest show ?thesis by blast
      qed
    next
      case None
      from idx None obtain i where i: "segment = Item i" and pos: "item_position i xs = None"
        by (cases segment) (auto split: option.splits)
      show ?thesis
      proof (cases "is_delete e")
        case True
        with False src have "value = JArr xs" by auto
        with True idx None i assms w JArr False skip show ?thesis
          by (auto simp: apply_nested.simps(2) split: if_splits)
      next
        case ndel: False
        show ?thesis
        proof (cases "rest = []")
          case True
          with ndel idx None assms w JArr obtain v where "edit_next e None = Inr v"
            "value' = JArr (xs @ [v])"
            by (auto simp: apply_nested.simps(2))
          with arr_new i pos ndel src True show ?thesis by blast
        next
          case rest: False
          with ndel idx None i assms w JArr obtain item v where "fresh_item i (hd rest) = Inr item"
            "apply_nested item rest e = Inr v" "value' = JArr (xs @ [v])"
            by (auto simp: apply_nested.simps(2))
          with arr_new i pos ndel src rest show ?thesis by blast
        qed
      qed
    qed
  qed (use assms w False in \<open>auto simp: apply_nested.simps(2)\<close>)
qed


lemma set_take_drop_subset: "set (take n xs @ drop (Suc n) xs) \<subseteq> set xs"
  by (auto dest: in_set_takeD in_set_dropD)

lemma apply_nested_wf:
  "apply_nested w path e = Inr w' \<Longrightarrow> json_wf w \<Longrightarrow> edit_wf e \<Longrightarrow> json_wf w'"
proof (induction path arbitrary: w w')
  case Nil
  then show ?case by simp
next
  case (Cons segment rest)
  from Cons.prems(1) show ?case
  proof (cases rule: apply_nested_step)
    case skip
    with Cons.prems show ?thesis by simp
  next
    case (obj m f v)
    have m: "json_wf (JObj m)" using obj(3) Cons.prems(2) by (elim disjE conjE) simp_all
    have "json_wf c" if "map_of m f = Some c \<or> map_of m f = None \<and> container (hd rest) = Inr c" for c
      using that json_wf_lookup [OF m] container_wf by blast
    then have "json_wf v"
      using obj(4) Cons.IH Cons.prems(3) edit_next_wf by blast
    with m obj(2) show ?thesis using json_wf_insert by blast
  next
    case (obj_del m f)
    with Cons.prems(2) show ?thesis using json_wf_remove by blast
  next
    case (arr xs n v)
    have "json_wf v"
      using arr Cons.IH Cons.prems by (auto dest: edit_next_wf)
    with arr Cons.prems(2) show ?thesis using list_update_wf by blast
  next
    case (arr_del xs n)
    with Cons.prems(2) set_take_drop_subset [of n xs] show ?thesis by auto
  next
    case (arr_new xs i v)
    have "json_wf v"
      using arr_new(6) Cons.IH Cons.prems(3)
      by (auto dest!: fresh_item_Inr edit_next_wf simp: bm_wf_def)
    with arr_new Cons.prems(2) show ?thesis by auto
  qed
qed

lemma apply_values_keeps_wf:
  assumes "apply_values e values = Inr values'" and "vals_wf values" and "edit_wf e"
  shows "vals_wf values'"
proof -
  have at: "vals_wf values'" if "apply_at e key path values = Inr values'" for key path
    using that assms(2,3)
    by (auto simp: apply_at_def split: if_splits option.splits
      intro!: vals_wf_insert vals_wf_remove intro: apply_nested_wf dest: edit_next_wf vals_wf_lookup container_wf)
  show ?thesis
  proof (cases e)
    case (Patch key sets deletes)
    have del: "vals_wf m \<Longrightarrow> vals_wf (foldl (\<lambda>m f. bm_remove f m) m deletes)" for m
      by (induction deletes arbitrary: m) (auto simp: vals_wf_remove)
    have root: "json_wf (case map_of values key of None \<Rightarrow> JObj [] | Some v \<Rightarrow> v)"
      using vals_wf_lookup [OF assms(2)] by (auto split: option.splits)
    from assms(1) Patch obtain m where
      m: "(case map_of values key of None \<Rightarrow> JObj [] | Some v \<Rightarrow> v) = JObj m"
      and v': "values' = bm_insert key (JObj (bm_extend (foldl (\<lambda>m f. bm_remove f m) m deletes) sets)) values"
      by (auto simp: patch_object_def as_object_Some)
    from root m have "vals_wf m" by (simp add: vals_wf_def)
    with del assms(3) Patch have "vals_wf (bm_extend (foldl (\<lambda>m f. bm_remove f m) m deletes) sets)"
      by (intro vals_wf_extend) auto
    then show ?thesis unfolding v' vals_wf_def [of "bm_extend _ _"]
      by (rule vals_wf_insert [OF assms(2)])
  next
    case (ReplaceRecords p rs)
    with assms show ?thesis
      by (force simp: replace_records_def intro!: vals_wf_extend vals_wf_retain)
  qed (use assms(1) at in auto)
qed

text \<open>Every edit that succeeds keeps the values of a dataset well formed: object fields and
  keys stay distinct and in order at every depth.\<close>

theorem apply_values_wf:
  assumes "apply_values e values = Inr values'" and "vals_wf values" and "edit_wf e"
  shows "vals_wf values'"
  by (rule apply_values_keeps_wf [OF assms])

section \<open>Reading back an assignment\<close>

text \<open>
  A path is \<open>readable\<close> for a value when the assignment does not take away the identity by which
  the path finds an item again.
\<close>

fun readable :: "path list \<Rightarrow> json \<Rightarrow> bool" where
  "readable [] v = True"
| "readable (Field f # rest) v = readable rest v"
| "readable [Item i] v = has_id i v"
| "readable (Item i # Field f # rest) v =
     ((f = ''id'' \<longrightarrow> rest = [] \<and> v = JStr i) \<and> readable rest v)"
| "readable (Item i # _ # rest) v = False"
| "readable (Records # rest) v = False"

lemma has_id_obj: "has_id i v \<Longrightarrow> \<exists>m. v = JObj m \<and> map_of m ''id'' = Some (JStr i)"
proof -
  assume "has_id i v"
  then obtain w where "json_get v ''id'' = Some w" "as_str w = Some i"
    by (auto simp: has_id_def bind_eq_Some_conv)
  then show ?thesis by (cases v; cases w) auto
qed

lemma has_id_JObj: "has_id i (JObj m) \<longleftrightarrow> map_of m ''id'' = Some (JStr i)"
  using has_id_obj [of i "JObj m"] by (auto simp: has_id_def)

lemma item_position_Some:
  "item_position i xs = Some n \<Longrightarrow> n < length xs \<and> has_id i (xs ! n)"
  by (induction xs arbitrary: n) (auto split: if_splits)

lemma find_item: "find (has_id i) xs = map_option ((!) xs) (item_position i xs)"
  by (induction xs) (auto simp: option.map_comp comp_def)

lemma find_update:
  "item_position i xs = Some n \<Longrightarrow> has_id i v \<Longrightarrow> find (has_id i) (xs[n := v]) = Some v"
  by (induction xs arbitrary: n) (auto split: if_splits)

lemma find_append_new:
  "item_position i xs = None \<Longrightarrow> has_id i v \<Longrightarrow> find (has_id i) (xs @ [v]) = Some v"
  by (induction xs) (auto split: if_splits)

text \<open>An assignment below a field leaves the other fields of the object alone.\<close>

lemma apply_nested_object:
  assumes "apply_nested (JObj m) (Field f # rest) e = Inr w'" and "\<not> is_delete e"
  obtains v where "w' = JObj (bm_insert f v m)"
  using assms(1) by (cases rule: apply_nested_step) (use assms(2) in auto)

lemma apply_nested_keeps_id:
  assumes "apply_nested w (Field f # rest) e = Inr w'" and "\<not> is_delete e" and "has_id i w"
    and "json_wf w" and "f \<noteq> ''id''"
  shows "has_id i w'"
proof -
  from has_id_obj [OF assms(3)] obtain m where m: "w = JObj m" "map_of m ''id'' = Some (JStr i)" by blast
  from apply_nested_object assms(1,2) m(1) obtain v where "w' = JObj (bm_insert f v m)" by metis
  with m assms(4,5) show ?thesis by (simp add: has_id_JObj)
qed

lemma readable_Item:
  assumes "readable (Item i # rest) v" and "rest \<noteq> []"
  obtains f rest' where "rest = Field f # rest'" "f = ''id'' \<longrightarrow> rest' = [] \<and> v = JStr i"
    "readable rest v"
  using assms by (cases "(Item i # rest, v)" rule: readable.cases) auto

lemma apply_nested_read:
  "apply_nested w path (Set k p v) = Inr w' \<Longrightarrow> json_wf w \<Longrightarrow> json_wf v \<Longrightarrow> path \<noteq> [] \<Longrightarrow>
   readable path v \<Longrightarrow> nested_value (Some w') path = Some v"
proof (induction path arbitrary: w w')
  case Nil
  then show ?case by simp
next
  case (Cons segment rest)
  let ?e = "Set k p v"
  have set: "\<not> is_delete ?e" by (simp add: is_delete_def)
  have inner: "nested_value (Some c') rest = Some v"
    if "apply_nested c rest ?e = Inr c'" "json_wf c" "readable rest v" "rest \<noteq> []" for c c'
    using Cons.IH that Cons.prems(3) by blast
  have id: "has_id i c'"
    if c: "apply_nested c rest ?e = Inr c'" "json_wf c" "has_id i c" "rest \<noteq> []"
      and seg: "segment = Item i" for c c' i
  proof -
    from Cons.prems(5) seg obtain f rest' where f: "rest = Field f # rest'"
      "f = ''id'' \<longrightarrow> rest' = [] \<and> v = JStr i" using readable_Item c(4) by metis
    show ?thesis
    proof (cases "f = ''id''")
      case True
      from has_id_obj [OF c(3)] obtain m where m: "c = JObj m" by blast
      with c(1) f True have "c' = JObj (bm_insert ''id'' (JStr i) m)"
        by (auto simp: apply_nested.simps(2) enter_def is_delete_def)
      with c(2) m show ?thesis by (simp add: has_id_JObj)
    next
      case False
      with apply_nested_keeps_id [OF _ set c(3,2)] c(1) f show ?thesis by blast
    qed
  qed
  from Cons.prems(1) show ?case
  proof (cases rule: apply_nested_step)
    case skip
    with set show ?thesis by simp
  next
    case (obj m f u)
    have "json_wf (JObj m)" using obj(3) Cons.prems(2) by (elim disjE conjE) simp_all
    then have m: "bm_wf m" "json_wf (JObj m)" by simp_all
    show ?thesis
    proof (cases "rest = []")
      case True
      with obj m show ?thesis by simp
    next
      case False
      with obj(4) obtain c where c: "apply_nested c rest ?e = Inr u"
        "map_of m f = Some c \<or> map_of m f = None \<and> container (hd rest) = Inr c" by auto
      have "json_wf c" using c(2) m(2) by (auto intro: container_wf json_wf_lookup)
      from inner [OF c(1) this] Cons.prems(5) obj(1) False have "nested_value (Some u) rest = Some v"
        by simp
      with obj m show ?thesis by simp
    qed
  next
    case (obj_del m f)
    with set show ?thesis by simp
  next
    case (arr xs n u)
    have wf: "json_wf (xs ! n)" using Cons.prems(2) arr by (simp add: nth_wf)
    show ?thesis
    proof (cases segment)
      case (Field i)
      with arr have pi: "parse_usize i = Some n" by (auto split: option.splits)
      have "nested_value (Some u) rest = Some v"
      proof (cases "rest = []")
        case True
        with arr(5) show ?thesis by simp
      next
        case False
        with arr(5) inner [OF _ wf] Cons.prems(5) Field show ?thesis by auto
      qed
      with arr(3,4) pi Field show ?thesis by simp
    next
      case (Item i)
      with arr have pos: "item_position i xs = Some n" by simp
      with item_position_Some have hid: "has_id i (xs ! n)" by blast
      show ?thesis
      proof (cases "rest = []")
        case True
        with arr Item Cons.prems(5) find_update [OF pos] show ?thesis by auto
      next
        case False
        with arr(5) have step: "apply_nested (xs ! n) rest ?e = Inr u" by auto
        from id [OF step wf hid False Item] have hu: "has_id i u" .
        have "readable rest v" using readable_Item Cons.prems(5) Item False by metis
        from inner [OF step wf this False] hu arr Item find_update [OF pos hu] show ?thesis by simp
      qed
    next
      case Records
      with arr show ?thesis by simp
    qed
  next
    case (arr_del xs n)
    with set show ?thesis by simp
  next
    case (arr_new xs i u)
    show ?thesis
    proof (cases "rest = []")
      case True
      with arr_new Cons.prems(5) find_append_new [OF arr_new(2)] show ?thesis by auto
    next
      case False
      with arr_new(6) obtain item where item: "fresh_item i (hd rest) = Inr item"
        and step: "apply_nested item rest ?e = Inr u" by auto
      from fresh_item_Inr [OF item] have it: "item = JObj [(''id'', JStr i)]" .
      then have wf: "json_wf item" and hid: "has_id i item"
        by (simp_all add: bm_wf_def has_id_JObj)
      from id [OF step wf hid False arr_new(1)] have hu: "has_id i u" .
      have "readable rest v" using readable_Item Cons.prems(5) arr_new(1) False by metis
      from inner [OF step wf this False] arr_new find_append_new [OF arr_new(2) hu] show ?thesis
        by simp
    qed
  qed
qed


lemma apply_at_Inr:
  assumes "apply_at e key path values = Inr values'"
  shows "values' = values \<or> values' = bm_remove key values \<or>
    (\<exists>v. values' = bm_insert key v values)"
  using assms by (auto simp: apply_at_def split: if_splits)

text \<open>After an assignment succeeds, reading the same key and path returns the assigned
  value, at any depth through objects, array positions and identified items, and no other key
  of the dataset changes.\<close>

theorem set_then_read:
  assumes "apply_values (Set key path v) values = Inr values'" and "vals_wf values" and "json_wf v"
    and "readable path v"
  shows "nested_value (map_of values' key) path = Some v \<and>
    (\<forall>k. k \<noteq> key \<longrightarrow> map_of values' k = map_of values k)"
proof
  have wf: "bm_wf values" using assms(2) by (rule vals_wf_bm)
  from assms(1) have at: "apply_at (Set key path v) key path values = Inr values'" by simp
  show "\<forall>k. k \<noteq> key \<longrightarrow> map_of values' k = map_of values k"
    using apply_at_Inr [OF at] wf by auto
  show "nested_value (map_of values' key) path = Some v"
  proof (cases "path = []")
    case True
    with at wf show ?thesis by (auto simp: apply_at_def is_delete_def)
  next
    case False
    with at obtain root root' where
      root: "(case map_of values key of None \<Rightarrow> container (hd path) | Some v \<Rightarrow> Inr v) = Inr root"
      and step: "apply_nested root path (Set key path v) = Inr root'"
      and v': "values' = bm_insert key root' values"
      by (auto simp: apply_at_def is_delete_def split: if_splits)
    have "json_wf root"
      using root vals_wf_lookup [OF assms(2)] container_wf by (auto split: option.splits)
    from apply_nested_read [OF step this assms(3) False assms(4)] v' wf show ?thesis by simp
  qed
qed

definition sample_vals :: vals where
  "sample_vals = [(''cards'', JArr [JObj [(''id'', JStr ''a''), (''name'', JStr ''old'')]])]"

lemma sample_vals_wf: "vals_wf sample_vals"
  by (simp add: sample_vals_def vals_wf_def bm_wf_def)

theorem set_then_read_witness:
  "\<exists>values'. apply_values (Set ''cards'' [Item ''a'', Field ''name''] (JStr ''new'')) sample_vals = Inr values' \<and>
     nested_value (map_of values' ''cards'') [Item ''a'', Field ''name''] = Some (JStr ''new'')"
proof -
  let ?e = "Set ''cards'' [Item ''a'', Field ''name''] (JStr ''new'')"
  have run: "apply_values ?e sample_vals =
      Inr [(''cards'', JArr [JObj [(''id'', JStr ''a''), (''name'', JStr ''new'')]])]"
    by (simp add: sample_vals_def apply_at_def is_delete_def apply_nested.simps(2) enter_def has_id_def)
  from set_then_read [OF run sample_vals_wf] run show ?thesis by simp
qed

theorem apply_values_wf_witness:
  "vals_wf [(''cards'', JArr [JObj [(''id'', JStr ''a'')]])]"
proof -
  have "apply_values (Delete ''cards'' [Item ''a'', Field ''name'']) sample_vals =
      Inr [(''cards'', JArr [JObj [(''id'', JStr ''a'')]])]"
    by (simp add: sample_vals_def apply_at_def is_delete_def apply_nested.simps(2) enter_def has_id_def
      bm_remove_def)
  from apply_values_wf [OF this sample_vals_wf] show ?thesis by simp
qed

section \<open>Overwriting an existing location\<close>

lemma nested_value_None [simp]: "nested_value None p = None"
  by (cases p) auto

lemma apply_nested_existing:
  "nested_value (Some w) path = Some old \<Longrightarrow> path \<noteq> [] \<Longrightarrow> \<exists>w'. apply_nested w path (Set k p v) = Inr w'"
proof (induction path arbitrary: w)
  case Nil
  then show ?case by simp
next
  case (Cons segment rest)
  have nd: "\<not> is_delete (Set k p v)" by (simp add: is_delete_def)
  have inner: "\<exists>c'. apply_nested c rest (Set k p v) = Inr c'"
    if "nested_value (Some c) rest = Some old" "rest \<noteq> []" for c
    using Cons.IH that by blast
  show ?case
  proof (cases "(Some w, segment # rest)" rule: nested_value.cases)
    case (3 m f rest')
    with Cons.prems obtain c where c: "map_of m f = Some c" "nested_value (Some c) rest = Some old"
      by (cases "map_of m f") auto
    with 3 nd inner [OF c(2)] show ?thesis
      by (cases "rest = []") (auto simp: apply_nested.simps(2) enter_def)
  next
    case (4 xs i rest')
    with Cons.prems obtain n where n: "parse_usize i = Some n" "n < length xs"
      "nested_value (Some (xs ! n)) rest = Some old"
      by (auto split: option.splits if_splits)
    with 4 nd inner [OF n(3)] show ?thesis
      by (cases "rest = []") (auto simp: apply_nested.simps(2) enter_def)
  next
    case (5 xs i rest')
    with Cons.prems obtain n where n: "item_position i xs = Some n"
      "nested_value (Some (xs ! n)) rest = Some old"
      by (auto simp: find_item) (metis nested_value_None not_None_eq option.simps(8) option.simps(9))
    with item_position_Some have "n < length xs" by blast
    with 5 nd n inner [OF n(2)] show ?thesis
      by (cases "rest = []") (auto simp: apply_nested.simps(2) enter_def)
  qed (use Cons.prems in auto)
qed

text \<open>Assigning to a location that already has a value never fails.\<close>

theorem set_existing_succeeds:
  assumes "nested_value (map_of values key) path = Some old" and "Records \<notin> set path"
  shows "\<exists>values'. apply_values (Set key path v) values = Inr values'"
proof (cases "path = []")
  case True
  then show ?thesis by (simp add: apply_at_def is_delete_def)
next
  case False
  with assms(1) obtain root where root: "map_of values key = Some root"
    "nested_value (Some root) path = Some old" by (cases "map_of values key") auto
  from apply_nested_existing [OF root(2) False] obtain root'
    where "apply_nested root path (Set key path v) = Inr root'" by blast
  with False assms(2) root show ?thesis by (simp add: apply_at_def is_delete_def)
qed

theorem set_existing_succeeds_witness:
  "\<exists>values'. apply_values (Set ''cards'' [Item ''a'', Field ''name''] (JInt 3)) sample_vals = Inr values'"
  by (rule set_existing_succeeds [where old = "JStr ''old''"]) (simp_all add: sample_vals_def has_id_def)

section \<open>Increments\<close>

lemma increment_Inr: "increment v d = Inr w \<longleftrightarrow> (\<exists>n. v = JInt n \<and> is_i64 n \<and> is_i64 (n + d) \<and> w = JInt (n + d))"
  by (cases v) (auto simp: increment_def i64_checked_add_def split: if_splits)

definition counter :: "vals \<Rightarrow> string \<Rightarrow> int option" where
  "counter m k = (case map_of m k of None \<Rightarrow> Some 0 | Some v \<Rightarrow> as_i64 v)"

lemma apply_increment:
  "apply_values (Increment key [] d) m = Inr a \<longleftrightarrow>
     (\<exists>n. counter m key = Some n \<and> is_i64 (n + d) \<and> a = bm_insert key (JInt (n + d)) m)"
  by (cases "map_of m key")
    (auto simp: apply_at_def is_delete_def increment_Inr counter_def dest!: as_i64_is_i64,
     simp_all add: is_i64_def i64_min_def i64_max_def)

lemma counter_insert: "bm_wf m \<Longrightarrow> is_i64 n \<Longrightarrow> counter (bm_insert k (JInt n) m) k = Some n"
  by (simp add: counter_def)

text \<open>two increments of one counter give the same total in either order whenever both
  orders stay within the 64-bit range, and an increment that would overflow is refused
  instead of wrapping.\<close>

theorem increments_commute:
  assumes "rbind (apply_values (Increment key [] d1) values) (apply_values (Increment key [] d2)) = Inr a"
    and "rbind (apply_values (Increment key [] d2) values) (apply_values (Increment key [] d1)) = Inr b"
    and "bm_wf values"
  shows "a = b \<and> (\<exists>n. counter values key = Some n \<and> is_i64 (n + d1 + d2) \<and>
    map_of a key = Some (JInt (n + d1 + d2)))"
proof -
  from assms(1) obtain m n where m: "counter values key = Some n" "is_i64 (n + d1)"
    "m = bm_insert key (JInt (n + d1)) values" "apply_values (Increment key [] d2) m = Inr a"
    by (auto simp only: rbind_eq_Inr apply_increment)
  with assms(3) have a: "is_i64 (n + d1 + d2)" "a = bm_insert key (JInt (n + d1 + d2)) values"
    by (auto simp only: apply_increment counter_insert option.inject bm_insert_overwrite)
  from assms(2) m(1) obtain m' where m': "is_i64 (n + d2)" "m' = bm_insert key (JInt (n + d2)) values"
    "apply_values (Increment key [] d1) m' = Inr b"
    by (auto simp only: rbind_eq_Inr apply_increment option.inject)
  with assms(3) have "b = bm_insert key (JInt (n + d2 + d1)) values"
    by (auto simp only: apply_increment counter_insert option.inject bm_insert_overwrite)
  with a m(1) assms(3) show ?thesis by (simp add: ac_simps)
qed

theorem increments_commute_witness:
  "rbind (apply_values (Increment ''n'' [] 2) [(''n'', JInt 5)]) (apply_values (Increment ''n'' [] 40)) =
     Inr [(''n'', JInt 47)] \<and>
   (\<exists>n. counter [(''n'', JInt 5)] ''n'' = Some n \<and> is_i64 (n + 2 + 40) \<and>
     map_of [(''n'', JInt 47)] ''n'' = Some (JInt (n + 2 + 40)))"
proof -
  have a: "rbind (apply_values (Increment ''n'' [] 2) [(''n'', JInt 5)]) (apply_values (Increment ''n'' [] 40)) =
      Inr [(''n'', JInt 47)]"
    by (simp add: apply_at_def is_delete_def increment_def i64_checked_add_def is_i64_def i64_min_def i64_max_def)
  have b: "rbind (apply_values (Increment ''n'' [] 40) [(''n'', JInt 5)]) (apply_values (Increment ''n'' [] 2)) =
      Inr [(''n'', JInt 47)]"
    by (simp add: apply_at_def is_delete_def increment_def i64_checked_add_def is_i64_def i64_min_def i64_max_def)
  have w: "bm_wf [(''n'', JInt 5)]" by (simp add: bm_wf_def)
  from increments_commute [OF a b w] a show ?thesis by blast
qed

end
