(* ===== verification/Transaction_Order.thy ===== *)
theory Transaction_Order
  imports Sync_Operation
begin

text \<open>
  \<open>ordered\<close> of \<open>Transaction.rs\<close>: the union of received items by identity, then a
  merge of the authors' queues that never reorders one author's items.  The parameters
  \<open>ident\<close> and \<open>revision_of\<close> are the closures \<open>id\<close> and \<open>revision\<close> of the source.
\<close>

section \<open>Definitions\<close>

fun unique_items :: "('a \<Rightarrow> string) \<Rightarrow> 'a list \<Rightarrow> (string, 'a) bmap \<Rightarrow> (string, 'a) bmap res" where
  "unique_items ident [] u = Inr u"
| "unique_items ident (x # xs) u =
     (case map_of u (ident x) of
        Some previous \<Rightarrow>
          rbind (verify_original (ident x) previous x) (\<lambda>_. unique_items ident xs u)
      | None \<Rightarrow> unique_items ident xs (bm_insert (ident x) x u))"

type_synonym 'a queue = "(int, revision \<times> 'a) bmap"
type_synonym 'a queues = "(string, 'a queue) bmap"

fun group_origins :: "('a \<Rightarrow> revision) \<Rightarrow> 'a list \<Rightarrow> 'a queues \<Rightarrow> 'a queues res" where
  "group_origins revision_of [] os = Inr os"
| "group_origins revision_of (x # xs) os =
     (let r = revision_of x;
          q = (case map_of os (originDeviceId r) of None \<Rightarrow> [] | Some q \<Rightarrow> q)
      in if bm_mem q (sequence r)
         then Inl (Err ''Conflicting transactions at the same origin sequence'')
         else group_origins revision_of xs
                (bm_insert (originDeviceId r) (bm_insert (sequence r) (r, x) q) os))"

text \<open>\<open>min_by_key\<close> over the first entry of every queue; the first minimum wins.\<close>

fun min_origin :: "'a queues \<Rightarrow> (string \<times> revision) option res" where
  "min_origin [] = Inr None"
| "min_origin ((origin, q) # os) =
     (case q of
        [] \<Rightarrow> Inl (Panic ''nonempty queue'')
      | (_, r, _) # _ \<Rightarrow>
          rbind (min_origin os) (\<lambda>best. Inr
            (case best of
               None \<Rightarrow> Some (origin, r)
             | Some (origin', r') \<Rightarrow> if r \<le> r' then Some (origin, r) else Some (origin', r'))))"

definition queued :: "'a queues \<Rightarrow> nat" where
  "queued os = sum_list (map (length \<circ> snd) os)"

lemma queued_remove: "map_of os k = Some q \<Longrightarrow> queued (bm_remove k os) + length q \<le> queued os"
proof (induction os)
  case Nil
  then show ?case by simp
next
  case (Cons e os)
  have mono: "queued (bm_remove k os) \<le> queued os"
    by (induction os) (auto simp: queued_def bm_remove_def)
  from Cons mono show ?case
    by (cases e) (auto simp: queued_def bm_remove_def split: if_splits)
qed

lemma queued_set:
  "map_of os k = Some q \<Longrightarrow> queued (bm_set k q' os) + length q = queued os + length q'"
  by (induction os) (auto simp: queued_def split: if_splits)

function drain :: "'a queues \<Rightarrow> 'a list \<Rightarrow> 'a list res" where
  "drain os acc =
     rbind (min_origin os) (\<lambda>best.
       case best of
         None \<Rightarrow> Inr acc
       | Some (origin, _) \<Rightarrow>
           (case map_of os origin of
              None \<Rightarrow> Inl (Panic ''selected origin'')
            | Some [] \<Rightarrow> Inl (Panic ''nonempty queue'')
            | Some ((_, _, x) # q) \<Rightarrow>
                drain (if q = [] then bm_remove origin os else bm_set origin q os)
                      (acc @ [x])))"
  by pat_completeness auto
termination
proof (relation "measure (\<lambda>(os, acc). queued os)", goal_cases)
  case 1
  show ?case by simp
next
  case (2 os acc best p origin r q e q' a b x y)
  then have q: "map_of os origin = Some (e # q')" by simp
  show ?case
    using queued_remove [OF q] queued_set [OF q, of q'] by auto
qed

definition ordered :: "('a \<Rightarrow> string) \<Rightarrow> ('a \<Rightarrow> revision) \<Rightarrow> 'a list \<Rightarrow> 'a list res" where
  "ordered ident revision_of items =
     rbind (unique_items ident items []) (\<lambda>unique.
     rbind (group_origins revision_of (map snd unique) []) (\<lambda>origins.
     drain origins []))"


section \<open>Identity union\<close>

text \<open>After the union every identity names exactly the item received under it.\<close>

lemma verify_original_Inr [simp]: "verify_original i a b = Inr u \<longleftrightarrow> a = b"
  by (auto simp: verify_original_def)

definition by_ident :: "('a \<Rightarrow> string) \<Rightarrow> (string, 'a) bmap \<Rightarrow> bool" where
  "by_ident ident u \<longleftrightarrow> bm_wf u \<and> (\<forall>(k, x) \<in> set u. ident x = k)"

lemma by_ident_insert: "by_ident ident u \<Longrightarrow> by_ident ident (bm_insert (ident x) x u)"
  using set_bm_insert_subset [of "ident x" x u] by (auto simp: by_ident_def)

lemma by_ident_lookup:
  "by_ident ident u \<Longrightarrow> map_of u k = Some x \<longleftrightarrow> x \<in> snd ` set u \<and> ident x = k"
  by (force simp: by_ident_def dest: map_of_SomeD bm_wf_distinct intro: map_of_is_SomeI)

lemma snd_bm_insert_fresh:
  "map_of u k = None \<Longrightarrow> snd ` set (bm_insert k x u) = insert x (snd ` set u)"
  using bm_insert_fresh_mset [of u k x] by (metis image_insert set_mset_add_mset_insert set_mset_mset snd_conv)

lemma unique_items_Inr:
  assumes "unique_items ident xs u = Inr u'" and "by_ident ident u"
  shows "by_ident ident u' \<and> snd ` set u' = snd ` set u \<union> set xs"
  using assms
proof (induction xs arbitrary: u)
  case Nil
  then show ?case by simp
next
  case (Cons x xs)
  show ?case
  proof (cases "map_of u (ident x)")
    case None
    with Cons.prems have "unique_items ident xs (bm_insert (ident x) x u) = Inr u'" by simp
    from Cons.IH [OF this by_ident_insert [OF Cons.prems(2)]] snd_bm_insert_fresh [OF None]
    show ?thesis by auto
  next
    case (Some p)
    with Cons.prems have "p = x" and r: "unique_items ident xs u = Inr u'" by auto
    with Some by_ident_lookup [OF Cons.prems(2)] have "x \<in> snd ` set u" by blast
    with Cons.IH [OF r Cons.prems(2)] show ?thesis by auto
  qed
qed

lemma unique_items_succeeds:
  assumes "by_ident ident u" and "inj_on ident (snd ` set u \<union> set xs)"
  shows "\<exists>u'. unique_items ident xs u = Inr u'"
  using assms
proof (induction xs arbitrary: u)
  case Nil
  show ?case by simp
next
  case (Cons x xs)
  show ?case
  proof (cases "map_of u (ident x)")
    case None
    have "inj_on ident (snd ` set (bm_insert (ident x) x u) \<union> set xs)"
      by (rule inj_on_subset [OF Cons.prems(2)]) (auto simp: snd_bm_insert_fresh [OF None])
    from Cons.IH [OF by_ident_insert [OF Cons.prems(1)] this] None show ?thesis by simp
  next
    case (Some p)
    with by_ident_lookup [OF Cons.prems(1)] have "p \<in> snd ` set u" "ident p = ident x" by auto
    then have "p = x" by (intro inj_onD [OF Cons.prems(2)]) auto
    moreover have "inj_on ident (snd ` set u \<union> set xs)"
      by (rule inj_on_subset [OF Cons.prems(2)]) auto
    ultimately show ?thesis
      using Some Cons.IH [OF Cons.prems(1)] by (simp add: verify_original_def)
  qed
qed

lemma by_ident_inj: "by_ident ident u \<Longrightarrow> inj_on ident (snd ` set u)"
  by (rule inj_onI) (metis by_ident_lookup option.inject)

lemma unique_items_iff:
  "(\<exists>u. unique_items ident xs [] = Inr u) \<longleftrightarrow> inj_on ident (set xs)"
proof
  assume "\<exists>u. unique_items ident xs [] = Inr u"
  then obtain u where "unique_items ident xs [] = Inr u" by blast
  from unique_items_Inr [OF this] have "by_ident ident u" and "snd ` set u = set xs"
    by (auto simp: by_ident_def)
  then show "inj_on ident (set xs)" by (metis by_ident_inj)
next
  assume "inj_on ident (set xs)"
  then show "\<exists>u. unique_items ident xs [] = Inr u"
    by (intro unique_items_succeeds) (auto simp: by_ident_def)
qed

lemma unique_items_set_cong:
  assumes "unique_items ident xs [] = Inr u" and "set xs = set ys"
  shows "unique_items ident ys [] = Inr u"
proof -
  from assms(1) have "inj_on ident (set xs)" using unique_items_iff by blast
  with assms(2) obtain v where v: "unique_items ident ys [] = Inr v"
    using unique_items_iff by metis
  have base: "by_ident ident []" by (simp add: by_ident_def)
  from unique_items_Inr [OF assms(1) base] unique_items_Inr [OF v base] assms(2)
  have u: "by_ident ident u" and vb: "by_ident ident v" and eq: "snd ` set u = snd ` set v" by auto
  have "map_of u k = Some x \<longleftrightarrow> map_of v k = Some x" for k x
    by (simp add: by_ident_lookup [OF u] by_ident_lookup [OF vb] eq)
  then have "map_of u = map_of v" by (intro ext) (metis not_None_eq)
  with u vb have "u = v" by (auto simp: by_ident_def intro: bm_ext)
  with v show ?thesis by simp
qed

section \<open>Author queues\<close>

definition items_of :: "'a queues \<Rightarrow> 'a list" where
  "items_of os = concat (map (\<lambda>(origin, q). map (snd \<circ> snd) q) os)"

definition queue_ok :: "('a \<Rightarrow> revision) \<Rightarrow> string \<Rightarrow> 'a queue \<Rightarrow> bool" where
  "queue_ok revision_of origin q \<longleftrightarrow>
     bm_wf q \<and> q \<noteq> [] \<and>
     (\<forall>(s, r, x) \<in> set q. r = revision_of x \<and> originDeviceId r = origin \<and> sequence r = s)"

definition queues_ok :: "('a \<Rightarrow> revision) \<Rightarrow> 'a queues \<Rightarrow> bool" where
  "queues_ok revision_of os \<longleftrightarrow>
     bm_wf os \<and> (\<forall>(origin, q) \<in> set os. queue_ok revision_of origin q)"

lemma queues_ok_lookup:
  "queues_ok revision_of os \<Longrightarrow> map_of os origin = Some q \<Longrightarrow> queue_ok revision_of origin q"
  by (auto simp: queues_ok_def dest: map_of_SomeD)

lemma queue_ok_insert:
  assumes "q = [] \<or> queue_ok revision_of (originDeviceId (revision_of x)) q"
  shows "queue_ok revision_of (originDeviceId (revision_of x))
    (bm_insert (sequence (revision_of x)) (revision_of x, x) q)"
proof -
  have sub: "set (bm_insert (sequence (revision_of x)) (revision_of x, x) q)
    \<subseteq> insert (sequence (revision_of x), revision_of x, x) (set q)"
    by (rule set_bm_insert_subset)
  from assms show ?thesis
  proof
    assume "q = []"
    then show ?thesis by (simp add: queue_ok_def bm_wf_def)
  next
    assume q: "queue_ok revision_of (originDeviceId (revision_of x)) q"
    with sub show ?thesis unfolding queue_ok_def by auto
  qed
qed

lemma queues_ok_insert:
  "queues_ok revision_of os \<Longrightarrow> queue_ok revision_of origin q \<Longrightarrow>
   queues_ok revision_of (bm_insert origin q os)"
  using set_bm_insert_subset [of origin q os] by (auto simp: queues_ok_def)

lemma items_of_append: "items_of (a @ b) = items_of a @ items_of b"
  by (simp add: items_of_def)

lemma items_of_Cons: "items_of ((origin, q) # os) = map (snd \<circ> snd) q @ items_of os"
  by (simp add: items_of_def)

lemma mset_items_of:
  "mset (items_of os) = \<Sum>\<^sub># (image_mset (\<lambda>(origin, q). mset (map (snd \<circ> snd) q)) (mset os))"
  by (induction os) (auto simp: items_of_def comp_def)

lemma mset_items_of_insert:
  assumes "bm_wf os"
    and "mset (map (snd \<circ> snd) q') =
      add_mset x (mset (map (snd \<circ> snd) (case map_of os origin of None \<Rightarrow> [] | Some q \<Rightarrow> q)))"
  shows "mset (items_of (bm_insert origin q' os)) = add_mset x (mset (items_of os))"
proof (cases "map_of os origin")
  case None
  have "mset (items_of (bm_insert origin q' os)) = mset (items_of ((origin, q') # os))"
    unfolding mset_items_of bm_insert_fresh_mset [OF None] by simp
  with assms(2) None show ?thesis by (simp add: items_of_Cons)
next
  case (Some q)
  from bm_split [OF Some assms(1)] obtain a b
    where os: "os = a @ (origin, q) # b" and a: "origin \<notin> fst ` set a" by metis
  from Some have "bm_insert origin q' os = bm_set origin q' os"
    by (simp add: bm_set_insert assms(1) bm_mem_def)
  with os a have "bm_insert origin q' os = a @ (origin, q') # b" by (simp add: bm_set_split)
  with os assms(2) Some show ?thesis by (simp add: items_of_append items_of_Cons)
qed

lemma group_origins_Inr:
  assumes "group_origins revision_of xs os = Inr os'" and "queues_ok revision_of os"
  shows "queues_ok revision_of os' \<and> mset (items_of os') = mset (items_of os) + mset xs"
  using assms
proof (induction xs arbitrary: os)
  case Nil
  then show ?case by simp
next
  case (Cons x xs)
  define r where "r = revision_of x"
  define q where "q = (case map_of os (originDeviceId r) of None \<Rightarrow> [] | Some q \<Rightarrow> q)"
  define q' where "q' = bm_insert (sequence r) (r, x) q"
  from Cons.prems(1) have "\<not> bm_mem q (sequence r)"
    and step: "group_origins revision_of xs (bm_insert (originDeviceId r) q' os) = Inr os'"
    by (auto simp: Let_def r_def q_def q'_def split: if_splits)
  then have fresh: "map_of q (sequence r) = None" by (simp only: not_bm_mem)
  have "q = [] \<or> queue_ok revision_of (originDeviceId r) q"
    using queues_ok_lookup [OF Cons.prems(2)] by (auto simp: q_def split: option.splits)
  then have "queue_ok revision_of (originDeviceId r) q'"
    unfolding q'_def r_def by (rule queue_ok_insert)
  with Cons.prems(2) have ok: "queues_ok revision_of (bm_insert (originDeviceId r) q' os)"
    by (rule queues_ok_insert)
  have "mset (map (snd \<circ> snd) q') = add_mset x (mset (map (snd \<circ> snd) q))"
    using bm_insert_fresh_mset [OF fresh, of "(r, x)"] unfolding q'_def mset_map by simp
  then have "mset (items_of (bm_insert (originDeviceId r) q' os)) = add_mset x (mset (items_of os))"
    using Cons.prems(2) by (intro mset_items_of_insert) (auto simp: q_def queues_ok_def)
  with Cons.IH [OF step ok] show ?case by simp
qed

lemma mem_items_of: "map_of os origin = Some q \<Longrightarrow> (s, r, x) \<in> set q \<Longrightarrow> x \<in> set (items_of os)"
  by (force simp: items_of_def dest: map_of_SomeD)

lemma queue_mem_iff:
  assumes "queues_ok revision_of os" and "map_of os origin = Some q"
  shows "s \<in> fst ` set q \<longleftrightarrow>
    (\<exists>x \<in> set (items_of os). originDeviceId (revision_of x) = origin \<and> sequence (revision_of x) = s)"
proof
  assume "s \<in> fst ` set q"
  then obtain r x where m: "(s, r, x) \<in> set q" by force
  with queues_ok_lookup [OF assms] have "revision_of x = r" "originDeviceId r = origin" "sequence r = s"
    by (auto simp: queue_ok_def)
  with mem_items_of [OF assms(2) m] show "\<exists>x \<in> set (items_of os).
    originDeviceId (revision_of x) = origin \<and> sequence (revision_of x) = s" by auto
next
  assume "\<exists>x \<in> set (items_of os).
    originDeviceId (revision_of x) = origin \<and> sequence (revision_of x) = s"
  then obtain x o' q' s' r where o': "(o', q') \<in> set os" "(s', r, x) \<in> set q'"
    and x: "originDeviceId (revision_of x) = origin" "sequence (revision_of x) = s"
    by (auto simp: items_of_def)
  from assms(1) have "bm_wf os" by (simp add: queues_ok_def)
  then have "map_of os o' = Some q'" using o'(1) by (simp add: bm_wf_distinct)
  with queues_ok_lookup [OF assms(1) this] o'(2) x have "o' = origin" "s' = s"
    by (auto simp: queue_ok_def)
  with o' assms(2) \<open>map_of os o' = Some q'\<close> show "s \<in> fst ` set q" by force
qed

text \<open>Grouping fails exactly when two items share an author and a sequence number.\<close>

definition origin_key :: "('a \<Rightarrow> revision) \<Rightarrow> 'a \<Rightarrow> string \<times> int" where
  "origin_key revision_of x = (originDeviceId (revision_of x), sequence (revision_of x))"

lemma group_origins_fails:
  assumes "queues_ok revision_of os" and "x \<in> set xs"
    and "y \<in> set (items_of os)" and "origin_key revision_of x = origin_key revision_of y"
  shows "\<exists>e. group_origins revision_of xs os = Inl e"
proof (rule ccontr)
  assume "\<not> ?thesis"
  then obtain os' where "group_origins revision_of xs os = Inr os'"
    by (cases "group_origins revision_of xs os") auto
  with assms show False
  proof (induction xs arbitrary: os)
    case Nil
    then show ?case by simp
  next
    case (Cons z xs)
    define r where "r = revision_of z"
    define q where "q = (case map_of os (originDeviceId r) of None \<Rightarrow> [] | Some q \<Rightarrow> q)"
    define q' where "q' = bm_insert (sequence r) (r, z) q"
    from Cons.prems(5) have fresh: "\<not> bm_mem q (sequence r)"
      and step: "group_origins revision_of xs (bm_insert (originDeviceId r) q' os) = Inr os'"
      by (auto simp: Let_def r_def q_def q'_def split: if_splits)
    have one: "group_origins revision_of [z] os = Inr (bm_insert (originDeviceId r) q' os)"
      using fresh by (simp add: Let_def r_def q_def q'_def)
    from group_origins_Inr [OF one Cons.prems(1)]
    have ok: "queues_ok revision_of (bm_insert (originDeviceId r) q' os)"
      and ms: "mset (items_of (bm_insert (originDeviceId r) q' os)) = add_mset z (mset (items_of os))"
      by auto
    show ?case
    proof (cases "x = z")
      case True
      with Cons.prems(4) have key: "originDeviceId (revision_of y) = originDeviceId r"
        "sequence (revision_of y) = sequence r" by (auto simp: origin_key_def r_def)
      from Cons.prems(3) obtain o' p s r' where o': "(o', p) \<in> set os" "(s, r', y) \<in> set p"
        by (auto simp: items_of_def)
      from Cons.prems(1) o'(1) have look: "map_of os o' = Some p"
        by (simp add: queues_ok_def bm_wf_distinct)
      with queues_ok_lookup [OF Cons.prems(1) look] o'(2) key have "o' = originDeviceId r"
        by (auto simp: queue_ok_def)
      with look have "q = p" by (simp add: q_def)
      with queue_mem_iff [OF Cons.prems(1) look, of "sequence r"] key \<open>o' = originDeviceId r\<close> Cons.prems(3)
        fresh show False by (auto simp: bm_mem_iff)
    next
      case False
      with Cons.prems(2) have "x \<in> set xs" by simp
      moreover from ms have "y \<in> set (items_of (bm_insert (originDeviceId r) q' os))"
        using Cons.prems(3) by (metis set_mset_add_mset_insert set_mset_mset insertCI)
      ultimately show False using Cons.IH [OF ok _ _ Cons.prems(4) step] by simp
    qed
  qed
qed


lemma group_origins_succeeds:
  assumes "queues_ok revision_of os"
    and "distinct (map (origin_key revision_of) (items_of os @ xs))"
  shows "\<exists>os'. group_origins revision_of xs os = Inr os'"
  using assms
proof (induction xs arbitrary: os)
  case Nil
  show ?case by simp
next
  case (Cons x xs)
  define r where "r = revision_of x"
  define q where "q = (case map_of os (originDeviceId r) of None \<Rightarrow> [] | Some q \<Rightarrow> q)"
  have fresh: "\<not> bm_mem q (sequence r)"
  proof (cases "map_of os (originDeviceId r)")
    case None
    then show ?thesis by (simp add: q_def bm_mem_def)
  next
    case (Some p)
    have "\<forall>y \<in> set (items_of os). origin_key revision_of y \<noteq> origin_key revision_of x"
      using Cons.prems(2) by (auto simp: image_iff)
    with queue_mem_iff [OF Cons.prems(1) Some, of "sequence r"] Some show ?thesis
      by (auto simp: q_def bm_mem_iff origin_key_def r_def)
  qed
  then have one: "group_origins revision_of [x] os =
      Inr (bm_insert (originDeviceId r) (bm_insert (sequence r) (r, x) q) os)"
    by (simp add: Let_def r_def q_def)
  from group_origins_Inr [OF one Cons.prems(1)]
  have ok: "queues_ok revision_of (bm_insert (originDeviceId r) (bm_insert (sequence r) (r, x) q) os)"
    and ms: "mset (items_of (bm_insert (originDeviceId r) (bm_insert (sequence r) (r, x) q) os)) =
      mset (items_of os @ [x])" by auto
  have "mset (map (origin_key revision_of)
      (items_of (bm_insert (originDeviceId r) (bm_insert (sequence r) (r, x) q) os) @ xs)) =
    mset (map (origin_key revision_of) (items_of os @ x # xs))"
    using ms by simp
  then have "distinct (map (origin_key revision_of)
      (items_of (bm_insert (originDeviceId r) (bm_insert (sequence r) (r, x) q) os) @ xs))"
    using Cons.prems(2) mset_eq_imp_distinct_iff by blast
  from Cons.IH [OF ok this] fresh show ?case by (simp add: Let_def r_def q_def)
qed

section \<open>Draining the queues\<close>

lemma min_origin_Some:
  assumes "queues_ok revision_of os" and "os \<noteq> []"
  shows "\<exists>origin s r x q. min_origin os = Inr (Some (origin, r)) \<and>
    map_of os origin = Some ((s, r, x) # q) \<and>
    (\<forall>(o', q') \<in> set os. r \<le> fst (snd (hd q')))"
  using assms
proof (induction os)
  case Nil
  then show ?case by simp
next
  case (Cons e os)
  obtain o1 q1 where e: "e = (o1, q1)" by force
  from Cons.prems(1) e obtain s1 r1 x1 q1' where q1: "q1 = (s1, r1, x1) # q1'"
    by (cases q1) (auto simp: queues_ok_def queue_ok_def)
  from Cons.prems(1) have ok: "queues_ok revision_of os" by (auto simp: queues_ok_def bm_wf_Cons)
  show ?case
  proof (cases "os = []")
    case True
    with e q1 show ?thesis by auto
  next
    case False
    from Cons.IH [OF ok this] obtain origin s r x q
      where m: "min_origin os = Inr (Some (origin, r))" "map_of os origin = Some ((s, r, x) # q)"
        and le: "\<forall>(o', q') \<in> set os. r \<le> fst (snd (hd q'))" by blast
    from m(2) Cons.prems(1) e have "o1 \<noteq> origin"
      by (auto simp: queues_ok_def bm_wf_Cons dest!: map_of_SomeD)
    show ?thesis
    proof (cases "r1 \<le> r")
      case True
      with m e q1 have "min_origin (e # os) = Inr (Some (o1, r1))" by simp
      moreover have "\<forall>(o', q') \<in> set (e # os). r1 \<le> fst (snd (hd q'))"
        using le e q1 True by auto
      moreover have "map_of (e # os) o1 = Some ((s1, r1, x1) # q1')" using e q1 by simp
      ultimately show ?thesis by blast
    next
      case False
      with m e q1 have "min_origin (e # os) = Inr (Some (origin, r))" by simp
      moreover have "\<forall>(o', q') \<in> set (e # os). r \<le> fst (snd (hd q'))"
        using le e q1 False by auto
      moreover have "map_of (e # os) origin = Some ((s, r, x) # q)"
        using e m(2) \<open>o1 \<noteq> origin\<close> by simp
      ultimately show ?thesis by blast
    qed
  qed
qed

lemma queues_ok_pop:
  assumes "queues_ok revision_of os" and "map_of os origin = Some ((s, r, x) # q)"
  defines "os' \<equiv> (if q = [] then bm_remove origin os else bm_set origin q os)"
  shows "queues_ok revision_of os'" and "mset (items_of os) = add_mset x (mset (items_of os'))"
proof -
  from assms(1) have wf: "bm_wf os" by (simp add: queues_ok_def)
  from bm_split [OF assms(2) wf] obtain a b where os: "os = a @ (origin, (s, r, x) # q) # b"
    and a: "origin \<notin> fst ` set a" and b: "origin \<notin> fst ` set b" .
  have os': "os' = (if q = [] then a @ b else a @ (origin, q) # b)"
    using a b by (simp add: os'_def os bm_set_split bm_remove_split)
  from os' os show "mset (items_of os) = add_mset x (mset (items_of os'))"
    by (simp add: items_of_append items_of_Cons)
  have wf': "bm_wf os'" using wf by (simp add: os'_def)
  have "queue_ok revision_of origin q" if "q \<noteq> []"
    using queues_ok_lookup [OF assms(1,2)] that by (auto simp: queue_ok_def bm_wf_Cons)
  with assms(1) wf' os os' show "queues_ok revision_of os'"
    by (auto simp: queues_ok_def)
qed

text \<open>One author's items keep their sequence order.\<close>

definition author_order :: "('a \<Rightarrow> revision) \<Rightarrow> 'a list \<Rightarrow> bool" where
  "author_order revision_of xs \<longleftrightarrow>
     sorted_wrt (\<lambda>x y. originDeviceId (revision_of x) = originDeviceId (revision_of y) \<longrightarrow>
       sequence (revision_of x) < sequence (revision_of y)) xs"

lemma queue_head_first:
  assumes "queues_ok revision_of os" and "map_of os origin = Some ((s, r, x) # q)"
    and "y \<in># mset (items_of (if q = [] then bm_remove origin os else bm_set origin q os))"
    and "originDeviceId (revision_of x) = originDeviceId (revision_of y)"
  shows "sequence (revision_of x) < sequence (revision_of y)"
proof -
  let ?os' = "if q = [] then bm_remove origin os else bm_set origin q os"
  from queues_ok_lookup [OF assms(1,2)]
  have x: "originDeviceId (revision_of x) = origin" "sequence (revision_of x) = s"
    and sorted: "\<forall>s' \<in> fst ` set q. s < s'" by (auto simp: queue_ok_def bm_wf_Cons)
  have ok': "queues_ok revision_of ?os'" by (rule queues_ok_pop(1) [OF assms(1,2)])
  have look: "map_of ?os' origin = (if q = [] then None else Some q)"
    using assms(2) by (auto simp: map_of_bm_set bm_mem_def)
  from assms(3) obtain o' q' s' r' where y: "(o', q') \<in> set ?os'" "(s', r', y) \<in> set q'"
    by (auto simp: items_of_def)
  from ok' y(1) have look': "map_of ?os' o' = Some q'" by (simp add: queues_ok_def bm_wf_distinct)
  from queues_ok_lookup [OF ok' look'] y(2) have "o' = originDeviceId (revision_of y)"
    "s' = sequence (revision_of y)" by (auto simp: queue_ok_def)
  with x assms(4) look look' y(2) have "s' \<in> fst ` set q" by (force split: if_splits)
  with sorted x \<open>s' = sequence (revision_of y)\<close> show ?thesis by auto
qed

declare drain.simps [simp del]

lemma drain_step:
  assumes "queues_ok revision_of os" and "min_origin os = Inr (Some (origin, r))"
    and "map_of os origin = Some ((s, r, x) # q)"
  shows "drain os acc = drain (if q = [] then bm_remove origin os else bm_set origin q os) (acc @ [x])"
  using assms by (subst drain.simps) simp

lemma drain_correct:
  assumes "queues_ok revision_of os"
  shows "\<exists>zs. drain os acc = Inr (acc @ zs) \<and> mset zs = mset (items_of os) \<and>
    author_order revision_of zs"
  using assms
proof (induction "queued os" arbitrary: os acc rule: less_induct)
  case less
  show ?case
  proof (cases "os = []")
    case True
    then show ?thesis by (subst drain.simps) (simp add: items_of_def author_order_def)
  next
    case False
    from min_origin_Some [OF less.prems False] obtain origin s r x q
      where m: "min_origin os = Inr (Some (origin, r))"
        and look: "map_of os origin = Some ((s, r, x) # q)" by blast
    let ?os' = "if q = [] then bm_remove origin os else bm_set origin q os"
    have "queued ?os' < queued os"
      using queued_remove [OF look] queued_set [OF look, of q] by auto
    from less.hyps [OF this queues_ok_pop(1) [OF less.prems look], of "acc @ [x]"]
    obtain zs where zs: "drain ?os' (acc @ [x]) = Inr ((acc @ [x]) @ zs)"
      "mset zs = mset (items_of ?os')" "author_order revision_of zs" by blast
    have "author_order revision_of (x # zs)"
      using zs(2,3) queue_head_first [OF less.prems look]
      by (auto simp: author_order_def simp flip: set_mset_mset)
    moreover have "mset (x # zs) = mset (items_of os)"
      using zs(2) queues_ok_pop(2) [OF less.prems look] by simp
    moreover have "drain os acc = Inr (acc @ x # zs)"
      using drain_step [OF less.prems m look] zs(1) by simp
    ultimately show ?thesis by blast
  qed
qed

text \<open>With author clocks that never run backwards the result is sorted by revision.\<close>

lemma queue_head_least:
  assumes "queues_ok revision_of os" and "clock_monotone (revision_of ` set (items_of os))"
    and "map_of os origin = Some ((s, r, x) # q)" and "y \<in> set (map (snd \<circ> snd) q)"
  shows "r < revision_of y"
proof -
  from assms(4) obtain s' r' where y: "(s', r', y) \<in> set q" by auto
  from queues_ok_lookup [OF assms(1,3)] y have r: "r = revision_of x" "r' = revision_of y"
    "originDeviceId r = origin" "originDeviceId r' = origin" "sequence r = s" "sequence r' = s'"
    and "s < s'" by (auto simp: queue_ok_def bm_wf_Cons)
  from assms(3) y have "x \<in> set (items_of os)" "y \<in> set (items_of os)"
    by (auto intro: mem_items_of)
  with assms(2) have "newer r' r \<longleftrightarrow> r < r'"
    by (intro newer_iff_less) (auto simp: r(1,2))
  with r \<open>s < s'\<close> show ?thesis by (simp add: newer_def)
qed

lemma drain_sorted:
  assumes "queues_ok revision_of os" and "clock_monotone (revision_of ` set (items_of os))"
    and "drain os acc = Inr (acc @ zs)"
  shows "sorted_wrt (\<lambda>x y. revision_of x < revision_of y) zs"
  using assms
proof (induction "queued os" arbitrary: os acc zs rule: less_induct)
  case less
  show ?case
  proof (cases "os = []")
    case True
    with less.prems(3) show ?thesis by (simp add: drain.simps [of "[]"])
  next
    case False
    from min_origin_Some [OF less.prems(1) False] obtain origin s r x q
      where m: "min_origin os = Inr (Some (origin, r))"
        and look: "map_of os origin = Some ((s, r, x) # q)"
        and le: "\<forall>(o', q') \<in> set os. r \<le> fst (snd (hd q'))" by blast
    let ?os' = "if q = [] then bm_remove origin os else bm_set origin q os"
    have ok': "queues_ok revision_of ?os'"
      and ms: "mset (items_of os) = add_mset x (mset (items_of ?os'))"
      by (rule queues_ok_pop [OF less.prems(1) look])+
    from drain_correct [OF ok', of "acc @ [x]"] obtain zs'
      where zs': "drain ?os' (acc @ [x]) = Inr ((acc @ [x]) @ zs')"
        and mz: "mset zs' = mset (items_of ?os')" by blast
    with drain_step [OF less.prems(1) m look] less.prems(3) have zs: "zs = x # zs'" by simp
    have sub: "set (items_of ?os') \<subseteq> set (items_of os)"
      using ms by (metis set_mset_mset set_mset_add_mset_insert subset_insertI)
    then have mono': "clock_monotone (revision_of ` set (items_of ?os'))"
      using less.prems(2) by (meson clock_monotone_subset image_mono)
    have "queued ?os' < queued os"
      using queued_remove [OF look] queued_set [OF look, of q] by auto
    from less.hyps [OF this ok' mono' zs']
    have tail: "sorted_wrt (\<lambda>x y. revision_of x < revision_of y) zs'" .
    have rx: "r = revision_of x"
      using queues_ok_lookup [OF less.prems(1) look] by (auto simp: queue_ok_def)
    have "revision_of x < revision_of y" if y: "y \<in> set zs'" for y
    proof -
      have "y \<in> set (items_of ?os')" using y mz by (metis set_mset_mset)
      then obtain o' q' where oq: "(o', q') \<in> set ?os'" "y \<in> set (map (snd \<circ> snd) q')"
        by (auto simp: items_of_def)
      show ?thesis
      proof (cases "o' = origin")
        case True
        from ok' oq(1) have "map_of ?os' o' = Some q'" by (simp add: queues_ok_def bm_wf_distinct)
        with True look have "q' = q" by (auto simp: map_of_bm_set bm_mem_def split: if_splits)
        with queue_head_least [OF less.prems(1,2) look] oq(2) rx show ?thesis by simp
      next
        case False
        with oq(1) have mem: "(o', q') \<in> set os"
          using set_bm_set [of origin q os] by (auto simp: bm_remove_def split: if_splits)
        with less.prems(1) have look': "map_of os o' = Some q'"
          by (simp add: queues_ok_def bm_wf_distinct)
        from queues_ok_lookup [OF less.prems(1) look'] obtain s1 r1 x1 q1
          where q1: "q' = (s1, r1, x1) # q1" by (cases q') (auto simp: queue_ok_def)
        from le mem q1 have "r \<le> r1" by auto
        from queues_ok_lookup [OF less.prems(1) look] queues_ok_lookup [OF less.prems(1) look'] q1 False
        have "r \<noteq> r1" and r1: "r1 = revision_of x1" by (auto simp: queue_ok_def)
        with \<open>r \<le> r1\<close> have "r < r1" by simp
        moreover from oq(2) q1 have "y = x1 \<or> y \<in> set (map (snd \<circ> snd) q1)" by auto
        then have "r1 \<le> revision_of y"
          using queue_head_least [OF less.prems(1,2), of o' s1 r1 x1 q1 y] look' q1
          by (auto simp only: r1 intro: less_imp_le)
        ultimately show ?thesis using rx by simp
      qed
    qed
    with tail zs show ?thesis by simp
  qed
qed


section \<open>Properties of \<open>ordered\<close>\<close>

lemma ordered_result:
  assumes "ordered ident revision_of items = Inr out"
  obtains u os where "unique_items ident items [] = Inr u" "by_ident ident u"
    "snd ` set u = set items" "group_origins revision_of (map snd u) [] = Inr os"
    "queues_ok revision_of os" "mset (items_of os) = mset (map snd u)" "drain os [] = Inr out"
    "mset out = mset (map snd u)" "author_order revision_of out"
proof -
  from assms obtain u os where u: "unique_items ident items [] = Inr u"
    and os: "group_origins revision_of (map snd u) [] = Inr os" and out: "drain os [] = Inr out"
    by (auto simp: ordered_def)
  from unique_items_Inr [OF u] have ub: "by_ident ident u" "snd ` set u = set items"
    by (auto simp: by_ident_def)
  from group_origins_Inr [OF os] have ob: "queues_ok revision_of os"
    "mset (items_of os) = mset (map snd u)"
    by (auto simp: queues_ok_def items_of_def)
  from drain_correct [OF ob(1), of "[]"] out ob(2)
  have "mset out = mset (map snd u)" "author_order revision_of out" by auto
  with that u ub os ob out show ?thesis by blast
qed

text \<open>C1: \<open>ordered\<close> does not depend on the order or multiplicity in which items arrive: two
  receptions of the same set of items, duplicated and permuted in any way, give the same
  sequence.\<close>

theorem ordered_arrival_independent:
  assumes "ordered ident revision_of xs = Inr out" and "set ys = set xs"
  shows "ordered ident revision_of ys = Inr out"
proof -
  from assms(1) obtain u where u: "unique_items ident xs [] = Inr u"
    and rest: "rbind (group_origins revision_of (map snd u) []) (\<lambda>origins. drain origins []) = Inr out"
    by (auto simp: ordered_def)
  from unique_items_set_cong [OF u assms(2) [symmetric]] rest show ?thesis
    by (simp add: ordered_def)
qed

lemma ordered_facts:
  assumes "ordered ident revision_of items = Inr out"
  shows "set out = set items" and "distinct (map ident out)" and "author_order revision_of out"
proof -
  obtain u where ub: "by_ident ident u" "snd ` set u = set items"
    "mset out = mset (map snd u)" and ao: "author_order revision_of out"
    by (rule ordered_result [OF assms]) blast
  show "author_order revision_of out" by (rule ao)
  have set: "set out = snd ` set u" using ub(3) by (metis list.set_map mset_eq_setD)
  with ub(2) show "set out = set items" by simp
  have keys: "map ident (map snd u) = map fst u"
    using ub(1) by (auto simp: by_ident_def)
  have "mset (map ident out) = mset (map ident (map snd u))"
    using ub(3) by (metis mset_map)
  also have "\<dots> = mset (map fst u)" using keys by (rule arg_cong)
  finally show "distinct (map ident out)"
    using ub(1) bm_wf_distinct mset_eq_imp_distinct_iff by (metis by_ident_def)
qed

text \<open>C2: a successful \<open>ordered\<close> returns every received item exactly once, under distinct
  identities, and never moves one author's item before an item of the same author with a
  smaller sequence number.\<close>

theorem ordered_complete_causal:
  assumes "ordered ident revision_of items = Inr out"
  shows "set out = set items \<and> distinct (map ident out) \<and> author_order revision_of out"
  using ordered_facts [OF assms] by blast

text \<open>C3: when no author's clock runs backwards, the sequence is strictly increasing in the
  business order of revisions.\<close>

theorem ordered_sorted_by_revision:
  assumes "ordered ident revision_of items = Inr out"
    and "clock_monotone (revision_of ` set items)"
  shows "sorted_wrt (\<lambda>x y. revision_of x < revision_of y) out"
proof -
  obtain u os where "by_ident ident u" and ub: "snd ` set u = set items"
    "queues_ok revision_of os" "mset (items_of os) = mset (map snd u)" "drain os [] = Inr out"
    by (rule ordered_result [OF assms(1)])
  have "set (items_of os) = set items"
    using ub(1,3) by (metis list.set_map mset_eq_setD)
  with assms(2) have mono: "clock_monotone (revision_of ` set (items_of os))" by simp
  from drain_sorted [OF ub(2) mono, of "[]" out] ub(4) show ?thesis by simp
qed

text \<open>C4: \<open>ordered\<close> succeeds exactly when identities are unambiguous and no author issued
  two items under one sequence number; it never panics on an empty queue.\<close>

theorem ordered_succeeds_iff:
  "(\<exists>out. ordered ident revision_of items = Inr out) \<longleftrightarrow>
     inj_on ident (set items) \<and> inj_on (origin_key revision_of) (set items)"
proof
  assume "\<exists>out. ordered ident revision_of items = Inr out"
  then obtain out where o: "ordered ident revision_of items = Inr out" by blast
  obtain u where u: "unique_items ident items [] = Inr u"
    and out: "mset out = mset (map snd u)" "snd ` set u = set items" "author_order revision_of out"
    by (rule ordered_result [OF o]) blast
  have "inj_on (origin_key revision_of) (set out)"
  proof (rule inj_onI, rule ccontr)
    fix x y assume xy: "x \<in> set out" "y \<in> set out" "origin_key revision_of x = origin_key revision_of y" "x \<noteq> y"
    then obtain i j where ij: "i < length out" "j < length out" "out ! i = x" "out ! j = y" "i \<noteq> j"
      by (metis in_set_conv_nth)
    with out(3) xy(3) show False
      by (auto simp: author_order_def sorted_wrt_iff_nth_less origin_key_def neq_iff)
        (metis less_irrefl)+
  qed
  moreover have "set out = set items" using out by (metis list.set_map mset_eq_setD)
  ultimately show "inj_on ident (set items) \<and> inj_on (origin_key revision_of) (set items)"
    using u unique_items_iff by metis
next
  assume inj: "inj_on ident (set items) \<and> inj_on (origin_key revision_of) (set items)"
  then obtain u where u: "unique_items ident items [] = Inr u" using unique_items_iff by blast
  from unique_items_Inr [OF u] have ub: "by_ident ident u" "snd ` set u = set items"
    by (auto simp: by_ident_def)
  have "distinct (map ident (map snd u))"
  proof -
    have "map ident (map snd u) = map fst u" using ub(1) by (auto simp: by_ident_def)
    with ub(1) show ?thesis by (metis bm_wf_distinct by_ident_def)
  qed
  then have "distinct (map snd u)" using distinct_map by blast
  with inj ub(2) have "distinct (map (origin_key revision_of) (items_of [] @ map snd u))"
    by (simp add: items_of_def distinct_map comp_inj_on)
  from group_origins_succeeds [OF _ this] obtain os
    where os: "group_origins revision_of (map snd u) [] = Inr os" by (auto simp: queues_ok_def)
  from group_origins_Inr [OF os] have "queues_ok revision_of os" by (auto simp: queues_ok_def)
  from drain_correct [OF this, of "[]"] u os show "\<exists>out. ordered ident revision_of items = Inr out"
    by (auto simp: ordered_def)
qed

section \<open>Witnesses\<close>

text \<open>Three items of two authors, one of them received twice and out of order.\<close>

definition sample_items :: "(string \<times> revision) list" where
  "sample_items = [(''c'', Revision 7 ''A'' 2), (''b'', Revision 5 ''B'' 1), (''a'', Revision 3 ''A'' 1),
     (''b'', Revision 5 ''B'' 1)]"

definition sample_order :: "(string \<times> revision) list" where
  "sample_order = [(''a'', Revision 3 ''A'' 1), (''b'', Revision 5 ''B'' 1), (''c'', Revision 7 ''A'' 2)]"

lemma ordered_sample: "ordered fst snd sample_items = Inr sample_order"
  by code_simp

theorem ordered_arrival_independent_witness:
  "ordered fst snd (rev sample_items) = Inr sample_order"
  by (rule ordered_arrival_independent [OF ordered_sample]) (simp add: set_rev)

theorem ordered_complete_causal_witness:
  "set sample_order = set sample_items \<and> distinct (map fst sample_order)
     \<and> author_order snd sample_order"
  by (rule ordered_complete_causal [OF ordered_sample])

theorem ordered_sorted_by_revision_witness:
  "sorted_wrt (\<lambda>x y. snd x < snd y) sample_order"
  by (rule ordered_sorted_by_revision [OF ordered_sample])
    (auto simp: clock_monotone_def sample_items_def)

end
