(* ===== verification/Data_Apply.thy ===== *)
theory Data_Apply
  imports Edit_Algebra Transaction_Order
begin

text \<open>
  Datasets and the application of transactions to them (\<open>Data\<close> in \<open>Transaction.rs\<close>).

  \<open>versions\<close> and \<open>additions\<close> are keyed by the JSON text of a scope (a key and a path).  That
  text is produced and parsed by \<open>serde_json\<close>, so its encoder and decoder are the parameter
  \<open>codec\<close>; what the code relies on is that decoding inverts encoding (\<open>codec_ok\<close>).
\<close>

section \<open>Definitions\<close>

type_synonym scope = "string \<times> path list"

record codec =
  scope_str :: "scope \<Rightarrow> string"
  scope_of :: "string \<Rightarrow> scope option"

definition codec_ok :: "('z) codec_scheme \<Rightarrow> bool" where
  "codec_ok c \<longleftrightarrow> (\<forall>s. scope_of c (scope_str c s) = Some s)"

datatype Backend = DataStore | Sql

record Owner =
  owner_backend :: Backend
  owner_path :: string
  owner_format :: nat
  owner_layout :: nat

datatype Target = TData Owner | TTransaction string

record Transaction =
  tx_id :: string
  tx_revision :: revision
  tx_target :: Target
  tx_edits :: "edit list"

record Addition =
  add_revision :: revision
  add_delta :: int

record Data =
  data_owner :: Owner
  data_values :: vals
  data_revision :: "revision option"
  data_deleted :: "string bset"
  data_aliases :: "(string, string) bmap"
  data_versions :: "(string, revision) bmap"
  data_additions :: "(string, Addition list) bmap"

definition transaction_backend :: "Transaction \<Rightarrow> Backend" where
  "transaction_backend t = Sql"

definition Data_empty :: "Owner \<Rightarrow> Data" where
  "Data_empty own = \<lparr>data_owner = own, data_values = [], data_revision = None, data_deleted = [],
     data_aliases = [], data_versions = [], data_additions = []\<rparr>"

definition unit_separator :: string where
  "unit_separator = [CHR 0x1F]"

fun relocate_aliases :: "string \<Rightarrow> string \<Rightarrow> (string \<times> string) list \<Rightarrow> (string, string) bmap \<Rightarrow> (string, string) bmap res" where
  "relocate_aliases old path [] acc = Inr acc"
| "relocate_aliases old path ((key, v) # rest) acc =
     (let key' = (case strip_prefix key old of Some i \<Rightarrow> path @ unit_separator @ i | None \<Rightarrow> key)
      in if (case map_of acc key' of Some previous \<Rightarrow> previous \<noteq> v | None \<Rightarrow> False)
         then Inl (Err ''Conflicting relocated identity aliases'')
         else relocate_aliases old path rest (bm_insert key' v acc))"

definition relocate :: "string \<Rightarrow> Data \<Rightarrow> Data res" where
  "relocate path d =
     rbind (relocate_aliases (owner_path (data_owner d) @ unit_separator) path (data_aliases d) [])
       (\<lambda>aliases. Inr (d\<lparr>data_aliases := aliases,
          data_owner := (data_owner d)\<lparr>owner_path := path\<rparr>\<rparr>))"

text \<open>
  The loop over \<open>versions\<close> at the start of \<open>apply_edit\<close>: \<open>None\<close> is the early return of a
  superseded edit, otherwise the scopes below the edited one that carry a newer revision,
  with their current values.
\<close>

fun scan_versions :: "('z) codec_scheme \<Rightarrow> vals \<Rightarrow> string \<Rightarrow> path list \<Rightarrow> revision \<Rightarrow> (string \<times> revision) list \<Rightarrow>
    (path list \<times> json option) list option res" where
  "scan_versions c vs key path r [] = Inr (Some [])"
| "scan_versions c vs key path r ((encoded, previous) # rest) =
     (case scope_of c encoded of
        None \<Rightarrow> Inl Foreign
      | Some (k, ancestor) \<Rightarrow>
          if ancestor = [Records] \<and> starts_with key k then
            (if newer previous r then Inr None else scan_versions c vs key path r rest)
          else if k \<noteq> key then scan_versions c vs key path r rest
          else if starts_with path ancestor \<and> newer previous r then Inr None
          else rbind (scan_versions c vs key path r rest) (\<lambda>found. Inr
            (if starts_with ancestor path \<and> newer previous r
             then map_option (\<lambda>ds. (ancestor, nested_value (map_of vs k) ancestor) # ds) found
             else found)))"

text \<open>Retained increments below an assignment are applied to its new value.\<close>

fun reapply_additions :: "('z) codec_scheme \<Rightarrow> string \<Rightarrow> path list \<Rightarrow> revision \<Rightarrow> path list list \<Rightarrow>
    (string \<times> Addition list) list \<Rightarrow> vals \<Rightarrow> ((string, Addition list) bmap \<times> vals) res" where
  "reapply_additions c key path r ds [] vs = Inr ([], vs)"
| "reapply_additions c key path r ds ((encoded, adds) # rest) vs =
     (case scope_of c encoded of
        None \<Rightarrow> Inl Foreign
      | Some (k, nested) \<Rightarrow>
          if k \<noteq> key \<or> \<not> starts_with nested path
          then rbind (reapply_additions c key path r ds rest vs) (\<lambda>(as, vs'). Inr ((encoded, adds) # as, vs'))
          else let kept = filter (\<lambda>a. newer (add_revision a) r) adds in
            rbind (if list_ex (\<lambda>ancestor. starts_with nested ancestor) ds then Inr vs
                   else rfold (\<lambda>a. apply_values (Increment k nested (add_delta a))) kept vs)
              (\<lambda>vs1. rbind (reapply_additions c key path r ds rest vs1)
                 (\<lambda>(as, vs'). Inr ((encoded, kept) # as, vs'))))"

definition restore_edit :: "string \<Rightarrow> path list \<times> json option \<Rightarrow> edit" where
  "restore_edit key d = (case snd d of Some v \<Rightarrow> Set key (fst d) v | None \<Rightarrow> Delete key (fst d))"

text \<open>The scopes of \<open>versions\<close> that survive an assignment; \<open>expect\<close> on the decoder.\<close>

definition surviving_versions :: "('z) codec_scheme \<Rightarrow> string \<Rightarrow> path list \<Rightarrow> revision \<Rightarrow>
    (string, revision) bmap \<Rightarrow> (string, revision) bmap res" where
  "surviving_versions c key path r versions =
     rfilter (\<lambda>(encoded, previous).
       case scope_of c encoded of
         None \<Rightarrow> Inl (Panic ''validated scope'')
       | Some (k, nested) \<Rightarrow> Inr (k \<noteq> key \<or> \<not> starts_with nested path \<or> newer previous r)) versions"

definition mark_deleted :: "string \<Rightarrow> path list \<Rightarrow> Data \<Rightarrow> Data" where
  "mark_deleted key path d =
     (if bm_mem (data_values d) key then d\<lparr>data_deleted := bs_remove key (data_deleted d)\<rparr>
      else if path = [] then d\<lparr>data_deleted := bs_insert key (data_deleted d)\<rparr>
      else d)"

definition push_addition :: "Addition \<Rightarrow> Addition list \<Rightarrow> Addition list" where
  "push_addition a adds = sort_key add_revision (adds @ [a])"

text \<open>\<open>apply_edit\<close> for an edit with a key and a path.\<close>

definition apply_scope :: "('z) codec_scheme \<Rightarrow> edit \<Rightarrow> string \<Rightarrow> path list \<Rightarrow> revision \<Rightarrow> Data \<Rightarrow> Data res" where
  "apply_scope c e key path r d =
     rbind (scan_versions c (data_values d) key path r (data_versions d)) (\<lambda>found.
       case found of
         None \<Rightarrow> Inr d
       | Some found_ds \<Rightarrow>
           let ds = sort_key (length \<circ> fst) found_ds; encoded = scope_str c (key, path) in
           rbind (apply_values e (data_values d)) (\<lambda>vs.
           rbind
             (case e of
                Increment _ _ delta \<Rightarrow>
                  let adds = (case map_of (data_additions d) encoded of None \<Rightarrow> [] | Some as \<Rightarrow> as)
                  in Inr (d\<lparr>data_values := vs,
                       data_additions := bm_insert encoded
                         (push_addition \<lparr>add_revision = r, add_delta = delta\<rparr> adds) (data_additions d)\<rparr>)
              | _ \<Rightarrow>
                  rbind (reapply_additions c key path r (map fst ds) (data_additions d) vs) (\<lambda>(as, vs1).
                  rbind (rfold (\<lambda>x. apply_values (restore_edit key x)) ds vs1) (\<lambda>vs2.
                  rbind (surviving_versions c key path r (data_versions d)) (\<lambda>versions.
                  Inr (d\<lparr>data_values := vs2,
                         data_additions := bm_retain (\<lambda>_ as. as \<noteq> []) as,
                         data_versions := bm_insert encoded r versions\<rparr>)))))
             (\<lambda>d'. Inr (mark_deleted key path d'))))"

text \<open>\<open>ReplaceRecords\<close> becomes one assignment or deletion per key of the namespace.\<close>

definition record_effect :: "string \<Rightarrow> (string, json) bmap \<Rightarrow> string \<Rightarrow> edit" where
  "record_effect pre rs key =
     (case map_of rs (drop (length pre) key) of Some v \<Rightarrow> Set key [] v | None \<Rightarrow> Delete key [])"

definition namespace_keys :: "string \<Rightarrow> (string, json) bmap \<Rightarrow> vals \<Rightarrow> string bset" where
  "namespace_keys pre rs vs =
     bs_of_list (filter (\<lambda>k. starts_with k pre) (map fst vs) @ map (\<lambda>(i, _). pre @ i) rs)"

definition apply_records :: "('z) codec_scheme \<Rightarrow> string \<Rightarrow> (string, json) bmap \<Rightarrow> revision \<Rightarrow> Data \<Rightarrow> Data res" where
  "apply_records c pre rs r d =
     (if pre = [] then Inl (Err ''Empty record namespace'')
      else let namespace = scope_str c (pre, [Records]) in
        if (case map_of (data_versions d) namespace of Some previous \<Rightarrow> newer previous r | None \<Rightarrow> False)
        then Inr d
        else
          rbind (rfold (\<lambda>key. apply_scope c (record_effect pre rs key) key [] r)
                   (namespace_keys pre rs (data_values d)) d) (\<lambda>d1.
          rbind (rfilter (\<lambda>(encoded, previous).
                   case scope_of c encoded of
                     None \<Rightarrow> Inl (Panic ''validated scope'')
                   | Some (k, path) \<Rightarrow>
                       Inr (\<not> (starts_with k pre \<and> path \<noteq> [Records]) \<or> newer previous r))
                 (data_versions d1)) (\<lambda>versions.
          Inr (d1\<lparr>data_versions := bm_insert namespace r versions,
            data_deleted := filter (\<lambda>key. \<not> starts_with key pre
              \<or> bm_mem versions (scope_str c (key, []))) (data_deleted d1)\<rparr>))))"

fun apply_edit :: "('z) codec_scheme \<Rightarrow> edit \<Rightarrow> revision \<Rightarrow> Data \<Rightarrow> Data res" where
  "apply_edit c (ReplaceRecords pre rs) r d = apply_records c pre rs r d"
| "apply_edit c (Set key path v) r d = apply_scope c (Set key path v) key path r d"
| "apply_edit c (Delete key path) r d = apply_scope c (Delete key path) key path r d"
| "apply_edit c (Increment key path delta) r d = apply_scope c (Increment key path delta) key path r d"
| "apply_edit c (Patch key sets deletes) r d = Inl (Panic ''unreachable'')"

text \<open>A patch is applied field by field, assignments before deletions.\<close>

fun expand_patch :: "edit \<Rightarrow> edit list" where
  "expand_patch (Patch key sets deletes) =
     map (\<lambda>(f, v). Set key [Field f] v) sets @ map (\<lambda>f. Delete key [Field f]) deletes"
| "expand_patch e = [e]"

definition advance_revision :: "revision \<Rightarrow> Data \<Rightarrow> Data" where
  "advance_revision r d =
     (if (case data_revision d of None \<Rightarrow> True | Some previous \<Rightarrow> newer r previous)
      then d\<lparr>data_revision := Some r\<rparr> else d)"

definition Data_apply :: "('z) codec_scheme \<Rightarrow> Transaction \<Rightarrow> Data \<Rightarrow> Data res" where
  "Data_apply c t d =
     (if tx_target t \<noteq> TData (data_owner d) then Inl (Err ''Transaction owner/version is not ready'')
      else rbind (rfold (\<lambda>e. rfold (\<lambda>e'. apply_edit c e' (tx_revision t)) (expand_patch e)) (tx_edits t) d)
        (\<lambda>staged. Inr (advance_revision (tx_revision t) staged)))"

section \<open>Type invariant\<close>

definition scope_key :: "('z) codec_scheme \<Rightarrow> string \<Rightarrow> bool" where
  "scope_key c s \<longleftrightarrow> (\<exists>x. s = scope_str c x)"

definition versions_ok :: "('z) codec_scheme \<Rightarrow> (string, revision) bmap \<Rightarrow> bool" where
  "versions_ok c versions \<longleftrightarrow> bm_wf versions \<and> (\<forall>k \<in> fst ` set versions. scope_key c k)"

definition additions_ok :: "('z) codec_scheme \<Rightarrow> (string, Addition list) bmap \<Rightarrow> bool" where
  "additions_ok c additions \<longleftrightarrow> bm_wf additions \<and> (\<forall>k \<in> fst ` set additions. scope_key c k)
     \<and> (\<forall>as \<in> snd ` set additions. as \<noteq> [] \<and> sorted (map add_revision as))"

text \<open>Keys of \<open>versions\<close> and \<open>additions\<close> are encoded scopes, recorded increments are in
  revision order, and a key marked deleted has no value.\<close>

definition data_ok :: "('z) codec_scheme \<Rightarrow> Data \<Rightarrow> bool" where
  "data_ok c d \<longleftrightarrow> vals_wf (data_values d) \<and> versions_ok c (data_versions d)
     \<and> additions_ok c (data_additions d) \<and> bs_wf (data_deleted d)
     \<and> (\<forall>k \<in> set (data_deleted d). map_of (data_values d) k = None)"

lemma codec_okD [simp]: "codec_ok c \<Longrightarrow> scope_of c (scope_str c s) = Some s"
  unfolding codec_ok_def by (rule spec)

lemma scope_str_inj: "codec_ok c \<Longrightarrow> scope_str c s = scope_str c t \<longleftrightarrow> s = t"
  by (metis codec_okD option.inject)

lemma nested_value_wf:
  assumes "\<And>v. x = Some v \<Longrightarrow> json_wf v" and "nested_value x p = Some w"
  shows "json_wf w"
  using assms
proof (induction x p rule: nested_value.induct)
  case (3 m f rest)
  then show ?case by (metis json_wf_lookup nested_value.simps(3))
next
  case (4 xs i rest)
  then show ?case by (auto split: option.splits if_splits)
next
  case (5 xs i rest)
  have "json_wf v" if "find (has_id i) xs = Some v" for v
    using that 5(2) [OF refl] by (auto simp: find_Some_iff)
  with 5(1,3) show ?case by simp
qed auto

text \<open>An edit of one key leaves the other keys alone.\<close>

definition only_key :: "string \<Rightarrow> vals \<Rightarrow> vals \<Rightarrow> bool" where
  "only_key key vs vs' \<longleftrightarrow> vals_wf vs' \<and> (\<forall>k. k \<noteq> key \<longrightarrow> map_of vs' k = map_of vs k)"

fun scoped :: "string \<Rightarrow> edit \<Rightarrow> bool" where
  "scoped key (ReplaceRecords _ _) = False"
| "scoped key (Patch _ _ _) = False"
| "scoped key e = (edit_key e = key)"

lemma apply_values_only_key:
  assumes "apply_values e vs' = Inr vs''" and "only_key key vs vs'" and "scoped key e" and "edit_wf e"
  shows "only_key key vs vs''"
proof -
  from assms(2) have wf: "vals_wf vs'" by (simp add: only_key_def)
  have "vals_wf vs''" by (rule apply_values_keeps_wf [OF assms(1) wf assms(4)])
  moreover have "map_of vs'' k = map_of vs' k" if "k \<noteq> key" for k
  proof -
    from assms(1,3) obtain p where "apply_at e key p vs' = Inr vs''" by (cases e) auto
    from apply_at_Inr [OF this] vals_wf_bm [OF wf] that show ?thesis by auto
  qed
  ultimately show ?thesis using assms(2) by (simp add: only_key_def)
qed

lemma rfold_only_key:
  assumes "rfold (\<lambda>x. apply_values (f x)) xs vs' = Inr vs''" and "only_key key vs vs'"
    and "\<And>x. x \<in> set xs \<Longrightarrow> scoped key (f x) \<and> edit_wf (f x)"
  shows "only_key key vs vs''"
  by (rule rfold_invariant [OF assms(1), where P = "only_key key vs"])
    (use assms(2,3) apply_values_only_key in blast)+

lemma scan_versions_found:
  assumes "scan_versions c vs key path r versions = Inr (Some found)"
  shows "\<forall>(p, v) \<in> set found. v = nested_value (map_of vs key) p \<and> starts_with p path"
  using assms
proof (induction versions arbitrary: found)
  case (Cons e versions)
  obtain enc prev where e: "e = (enc, prev)" by force
  with Cons.prems obtain k a where ka: "scope_of c enc = Some (k, a)" by (auto split: option.splits)
  with Cons.prems e obtain found' where rest: "scan_versions c vs key path r versions = Inr (Some found')"
    and "found = found' \<or> k = key \<and> starts_with a path \<and> found = (a, nested_value (map_of vs k) a) # found'"
    by (auto split: if_splits)
  with Cons.IH [OF rest] show ?case by auto
qed simp

lemma reapply_additions_step:
  assumes "reapply_additions c key path r ds ((enc, adds) # rest) vs = Inr (as, vs')"
  obtains as' adds' vs1 where "as = (enc, adds') # as'"
    and "adds' = adds \<or> adds' = filter (\<lambda>a. newer (add_revision a) r) adds"
    and "reapply_additions c key path r ds rest vs1 = Inr (as', vs')"
    and "\<forall>us. only_key key us vs \<longrightarrow> only_key key us vs1"
proof -
  from assms obtain k n where kn: "scope_of c enc = Some (k, n)" by (auto split: option.splits)
  show ?thesis
  proof (cases "k \<noteq> key \<or> \<not> starts_with n path")
    case True
    with assms kn obtain as' where "as = (enc, adds) # as'"
      "reapply_additions c key path r ds rest vs = Inr (as', vs')" by auto
    then show ?thesis by (intro that [of adds as' vs]) simp_all
  next
    case False
    let ?kept = "filter (\<lambda>a. newer (add_revision a) r) adds"
    from assms kn False obtain as' vs1 where r: "as = (enc, ?kept) # as'"
      "reapply_additions c key path r ds rest vs1 = Inr (as', vs')"
      and v: "(if list_ex (\<lambda>ancestor. starts_with n ancestor) ds then Inr vs
         else rfold (\<lambda>a. apply_values (Increment k n (add_delta a))) ?kept vs) = Inr vs1"
      by (auto simp: Let_def)
    have "only_key key us vs1" if "only_key key us vs" for us
    proof (cases "list_ex (\<lambda>ancestor. starts_with n ancestor) ds")
      case True
      with v that show ?thesis by simp
    next
      case False
      with v have "rfold (\<lambda>a. apply_values (Increment k n (add_delta a))) ?kept vs = Inr vs1" by simp
      from rfold_only_key [OF this that] \<open>\<not> (k \<noteq> key \<or> _)\<close> show ?thesis by simp
    qed
    then show ?thesis by (intro that [OF r(1) _ r(2)]) simp_all
  qed
qed

lemma reapply_additions_result:
  assumes "reapply_additions c key path r ds additions vs = Inr (as, vs')"
  shows "map fst as = map fst additions
    \<and> list_all2 (\<lambda>x y. snd y = snd x \<or> snd y = filter (\<lambda>a. newer (add_revision a) r) (snd x)) additions as
    \<and> (only_key key us vs \<longrightarrow> only_key key us vs')"
  using assms
proof (induction additions arbitrary: as vs)
  case (Cons e rest)
  obtain enc adds where e: "e = (enc, adds)" by force
  obtain as' adds' vs1 where s: "as = (enc, adds') # as'"
      "adds' = adds \<or> adds' = filter (\<lambda>a. newer (add_revision a) r) adds"
      "reapply_additions c key path r ds rest vs1 = Inr (as', vs')"
      "\<forall>us. only_key key us vs \<longrightarrow> only_key key us vs1"
    by (rule reapply_additions_step [OF Cons.prems [unfolded e]])
  from Cons.IH [OF s(3)] s(1,2,4) e show ?case by auto
qed simp

lemma scope_key_str [simp]: "scope_key c (scope_str c s)"
  unfolding scope_key_def by blast

lemma versions_ok_insert: "versions_ok c m \<Longrightarrow> versions_ok c (bm_insert (scope_str c s) r m)"
  by (auto simp: versions_ok_def)

lemma versions_ok_filter: "versions_ok c m \<Longrightarrow> versions_ok c (filter P m)"
  by (auto simp: versions_ok_def bm_wf_filter)

lemma push_addition_sorted: "sorted (map add_revision (push_addition a as))"
  by (simp add: push_addition_def)

lemma push_addition_nonempty: "push_addition a as \<noteq> []"
  by (metis append_is_Nil_conv length_0_conv length_sort not_Cons_self2 push_addition_def)

lemma additions_ok_push:
  assumes "additions_ok c m"
  shows "additions_ok c (bm_insert (scope_str c s) (push_addition a as) m)"
proof -
  let ?m = "bm_insert (scope_str c s) (push_addition a as) m"
  have "bs \<noteq> [] \<and> sorted (map add_revision bs)" if "bs \<in> snd ` set ?m" for bs
  proof -
    from that set_bm_insert_subset [of "scope_str c s" "push_addition a as" m]
    have "bs = push_addition a as \<or> bs \<in> snd ` set m" by force
    with assms show ?thesis
      by (auto simp: additions_ok_def push_addition_sorted push_addition_nonempty)
  qed
  moreover have "bm_wf ?m" "\<forall>k \<in> fst ` set ?m. scope_key c k"
    using assms by (auto simp: additions_ok_def)
  ultimately show ?thesis by (simp add: additions_ok_def)
qed

lemma additions_ok_reapplied:
  assumes "additions_ok c additions" and "map fst as = map fst additions"
    and "list_all2 (\<lambda>x y. snd y = snd x \<or> snd y = filter (\<lambda>a. newer (add_revision a) r) (snd x)) additions as"
  shows "additions_ok c (bm_retain (\<lambda>_ as. as \<noteq> []) as)"
proof -
  have keys: "fst ` set as = fst ` set additions" using assms(2) by (metis list.set_map)
  have "sorted (map add_revision (snd e))" if e: "e \<in> set as" for e
  proof -
    from e obtain i where i: "i < length as" "e = as ! i" by (auto simp: in_set_conv_nth)
    from assms(2) have "length as = length additions" by (rule map_eq_imp_length_eq)
    with i list_all2_nthD2 [OF assms(3) i(1)]
    have "additions ! i \<in> set additions"
      and "snd e = snd (additions ! i) \<or> snd e = filter (\<lambda>a. newer (add_revision a) r) (snd (additions ! i))"
      by auto
    with assms(1) show ?thesis by (auto simp: additions_ok_def sorted_filter)
  qed
  moreover from assms(1,2) have "bm_wf as" by (simp add: additions_ok_def bm_wf_def)
  then have "bm_wf (bm_retain (\<lambda>_ as. as \<noteq> []) as)" by simp
  moreover have "\<forall>k \<in> fst ` set as. scope_key c k" using assms(1) keys by (simp add: additions_ok_def)
  ultimately show ?thesis unfolding additions_ok_def bm_retain_def by auto
qed

lemma restore_edit_ok:
  assumes "scan_versions c vs key path r versions = Inr (Some found)" and "vals_wf vs" and "x \<in> set found"
  shows "scoped key (restore_edit key x) \<and> edit_wf (restore_edit key x)"
proof -
  obtain p v where x: "x = (p, v)" by force
  from scan_versions_found [OF assms(1)] assms(3) x have "v = nested_value (map_of vs key) p" by auto
  with nested_value_wf [of "map_of vs key" p] vals_wf_lookup [OF assms(2)]
  have "json_wf w" if "v = Some w" for w using that by metis
  with x show ?thesis by (auto simp: restore_edit_def split: option.splits)
qed

text \<open>What one scoped edit can do to a dataset.\<close>

lemma apply_scope_effect:
  assumes ok: "data_ok c d" and e: "scoped key e" "edit_wf e"
    and run: "apply_scope c e key path r d = Inr d'" and "d' \<noteq> d"
  obtains vs as versions where
    "d' = mark_deleted key path (d\<lparr>data_values := vs, data_additions := as, data_versions := versions\<rparr>)"
    and "only_key key (data_values d) vs" and "additions_ok c as" and "versions_ok c versions"
proof -
  let ?enc = "scope_str c (key, path)"
  from ok have wf: "vals_wf (data_values d)" and vok: "versions_ok c (data_versions d)"
    and aok: "additions_ok c (data_additions d)" by (simp_all add: data_ok_def)
  have refl: "only_key key (data_values d) (data_values d)" using wf by (simp add: only_key_def)
  from run \<open>d' \<noteq> d\<close> obtain found vs where
    found: "scan_versions c (data_values d) key path r (data_versions d) = Inr (Some found)"
    and vs: "apply_values e (data_values d) = Inr vs"
    by (auto simp: apply_scope_def Let_def split: option.splits)
  have k1: "only_key key (data_values d) vs" by (rule apply_values_only_key [OF vs refl e])
  show ?thesis
  proof (cases "\<exists>k p delta. e = Increment k p delta")
    case True
    with run found vs obtain a as where "d' = mark_deleted key path (d\<lparr>data_values := vs,
        data_additions := bm_insert ?enc (push_addition a as) (data_additions d), data_versions := data_versions d\<rparr>)"
      by (auto simp: apply_scope_def Let_def)
    with that k1 vok additions_ok_push [OF aok] show ?thesis by blast
  next
    case False
    let ?ds = "sort_key (length \<circ> fst) found"
    from run found vs False obtain as vs1 vs2 versions where
      re: "reapply_additions c key path r (map fst ?ds) (data_additions d) vs = Inr (as, vs1)"
      and restore: "rfold (\<lambda>x. apply_values (restore_edit key x)) ?ds vs1 = Inr vs2"
      and sv: "surviving_versions c key path r (data_versions d) = Inr versions"
      and d': "d' = mark_deleted key path (d\<lparr>data_values := vs2,
        data_additions := bm_retain (\<lambda>_ as. as \<noteq> []) as, data_versions := bm_insert ?enc r versions\<rparr>)"
      by (cases e) (auto simp: apply_scope_def Let_def)
    from reapply_additions_result [OF re, of "data_values d"] k1 have "only_key key (data_values d) vs1"
      and as: "additions_ok c (bm_retain (\<lambda>_ as. as \<noteq> []) as)"
      using additions_ok_reapplied [OF aok] by blast+
    from this(1) have "only_key key (data_values d) vs2"
      by (rule rfold_only_key [OF restore]) (use restore_edit_ok [OF found wf] in auto)
    moreover have "versions_ok c (bm_insert ?enc r versions)"
      using rfilter_Inr [OF sv [unfolded surviving_versions_def]] vok
      by (auto intro: versions_ok_insert versions_ok_filter)
    ultimately show ?thesis using as d' that by blast
  qed
qed

lemma apply_scope_ok:
  assumes "data_ok c d" and "scoped key e" and "edit_wf e" and "apply_scope c e key path r d = Inr d'"
  shows "data_ok c d'"
proof (cases "d' = d")
  case False
  obtain vs as versions where
    d': "d' = mark_deleted key path (d\<lparr>data_values := vs, data_additions := as, data_versions := versions\<rparr>)"
    and vs: "only_key key (data_values d) vs" and ok: "additions_ok c as" "versions_ok c versions"
    by (rule apply_scope_effect [OF assms False])
  from vs have same: "k \<noteq> key \<Longrightarrow> map_of vs k = map_of (data_values d) k" for k
    by (simp add: only_key_def)
  from assms(1) have "bs_wf (data_deleted d)"
    and del: "\<And>k. k \<in> set (data_deleted d) \<Longrightarrow> map_of (data_values d) k = None"
    by (auto simp: data_ok_def)
  then have "bs_wf (data_deleted d')" by (simp add: d' mark_deleted_def)
  moreover have "map_of (data_values d') k = None" if "k \<in> set (data_deleted d')" for k
    using that del [of k] same [of k]
    by (cases "k = key") (auto simp: d' mark_deleted_def bm_mem_def split: if_splits)
  ultimately show ?thesis using vs ok by (simp add: data_ok_def d' mark_deleted_def only_key_def)
qed (use assms(1) in simp)

lemma record_effect_ok:
  "edit_wf (ReplaceRecords pre rs) \<Longrightarrow> scoped key (record_effect pre rs key) \<and> edit_wf (record_effect pre rs key)"
  by (auto simp: record_effect_def dest!: map_of_SomeD split: option.splits)

lemma apply_records_ok:
  assumes "data_ok c d" and "edit_wf (ReplaceRecords pre rs)" and "apply_records c pre rs r d = Inr d'"
  shows "data_ok c d'"
proof (cases "d' = d")
  case False
  with assms(3) obtain d1 versions where
    run: "rfold (\<lambda>key. apply_scope c (record_effect pre rs key) key [] r)
      (namespace_keys pre rs (data_values d)) d = Inr d1"
    and versions: "rfilter (\<lambda>(encoded, previous).
                   case scope_of c encoded of
                     None \<Rightarrow> Inl (Panic ''validated scope'')
                   | Some (k, path) \<Rightarrow>
                       Inr (\<not> (starts_with k pre \<and> path \<noteq> [Records]) \<or> newer previous r))
                 (data_versions d1) = Inr versions"
    and d': "d' = d1\<lparr>data_versions := bm_insert (scope_str c (pre, [Records])) r versions,
            data_deleted := filter (\<lambda>key. \<not> starts_with key pre
              \<or> bm_mem versions (scope_str c (key, []))) (data_deleted d1)\<rparr>"
    by (auto simp: apply_records_def Let_def split: if_splits option.splits)
  have ok: "data_ok c d1"
    by (rule rfold_invariant [OF run, where P = "data_ok c"])
      (use assms(1) record_effect_ok [OF assms(2)] apply_scope_ok in blast)+
  then have "versions_ok c (bm_insert (scope_str c (pre, [Records])) r versions)"
    using rfilter_Inr [OF versions] by (auto simp: data_ok_def intro: versions_ok_insert versions_ok_filter)
  with ok show ?thesis by (auto simp: d' data_ok_def bs_wf_filter)
qed (use assms(1) in simp)

lemma apply_edit_ok:
  assumes "data_ok c d" and "edit_wf e" and "apply_edit c e r d = Inr d'"
  shows "data_ok c d'"
proof (cases e)
  case (ReplaceRecords pre rs)
  with assms show ?thesis using apply_records_ok [OF assms(1)] by simp
qed (use assms in \<open>auto elim!: apply_scope_ok [rotated 3]\<close>)

lemma expand_patch_wf:
  assumes "edit_wf e" and "e' \<in> set (expand_patch e)"
  shows "edit_wf e'"
  using assms by (cases e) auto

text \<open>C15: applying a transaction keeps a dataset well formed: its values stay ordered at every
  depth, its version and increment tables keep only encoded scopes, recorded increments stay in
  revision order, and no key is both present and marked deleted.\<close>

theorem Data_apply_invariant:
  assumes "data_ok c d" and "\<forall>e \<in> set (tx_edits t). edit_wf e" and "Data_apply c t d = Inr d'"
  shows "data_ok c d'"
proof -
  from assms(3) obtain d1 where run: "rfold (\<lambda>e. rfold (\<lambda>e'. apply_edit c e' (tx_revision t)) (expand_patch e))
      (tx_edits t) d = Inr d1" and d': "d' = advance_revision (tx_revision t) d1"
    by (auto simp: Data_apply_def split: if_splits)
  have "data_ok c d1"
  proof (rule rfold_invariant [OF run, where P = "data_ok c"])
    fix e d d' assume e: "e \<in> set (tx_edits t)" and ok: "data_ok c d"
      and step: "rfold (\<lambda>e'. apply_edit c e' (tx_revision t)) (expand_patch e) d = Inr d'"
    show "data_ok c d'"
      by (rule rfold_invariant [OF step, where P = "data_ok c"])
        (use ok e assms(2) apply_edit_ok expand_patch_wf in blast)+
  qed (rule assms(1))
  then show ?thesis by (simp add: d' advance_revision_def data_ok_def)
qed

section \<open>Superseded edits\<close>

text \<open>\<open>covers v key path\<close>: a version recorded at scope \<open>v\<close> speaks for the location \<open>path\<close>
  of \<open>key\<close>, as an assignment of the location or of something that contains it.\<close>

fun covers :: "scope \<Rightarrow> string \<Rightarrow> path list \<Rightarrow> bool" where
  "covers (k, ancestor) key path \<longleftrightarrow>
     (ancestor = [Records] \<and> starts_with key k) \<or> (k = key \<and> starts_with path ancestor)"

lemma versions_ok_scope:
  assumes "versions_ok c versions" and "codec_ok c" and "(enc, prev) \<in> set versions"
  obtains s where "scope_of c enc = Some s" and "enc = scope_str c s"
  using assms by (force simp: versions_ok_def scope_key_def)

lemma versions_ok_Cons: "versions_ok c (x # m) \<Longrightarrow> versions_ok c m"
  by (auto simp: versions_ok_def bm_wf_Cons)

lemma scan_versions_total:
  assumes "versions_ok c versions" and "codec_ok c"
  shows "\<exists>found. scan_versions c vs key path r versions = Inr found"
  using assms(1)
proof (induction versions)
  case (Cons x versions)
  obtain enc prev where x: "x = (enc, prev)" by force
  from Cons.prems x obtain k a where ka: "scope_of c enc = Some (k, a)"
    by (metis assms(2) list.set_intros(1) old.prod.exhaust versions_ok_scope)
  from Cons.IH [OF versions_ok_Cons [OF Cons.prems]] ka x show ?case by auto
qed simp

lemma scan_versions_superseded:
  assumes "versions_ok c versions" and "codec_ok c"
    and "(scope_str c s, prev) \<in> set versions" and "covers s key path" and "newer prev r"
  shows "scan_versions c vs key path r versions = Inr None"
  using assms(1,3)
proof (induction versions)
  case (Cons x versions)
  obtain enc p where x: "x = (enc, p)" by force
  from Cons.prems(1) x obtain k a where ka: "scope_of c enc = Some (k, a)"
    by (metis assms(2) list.set_intros(1) old.prod.exhaust versions_ok_scope)
  show ?case
  proof (cases "(scope_str c s, prev) = x")
    case True
    with x ka assms(2) have "s = (k, a)" by auto
    with True x ka assms(4,5) show ?thesis by auto
  next
    case False
    with Cons.prems(2) have "(scope_str c s, prev) \<in> set versions" by auto
    from Cons.IH [OF versions_ok_Cons [OF Cons.prems(1)] this] x ka show ?thesis by auto
  qed
qed simp

text \<open>The keys an edit may change, and the location it names.\<close>

fun edit_path :: "edit \<Rightarrow> path list" where
  "edit_path (Set _ p _) = p"
| "edit_path (Delete _ p) = p"
| "edit_path (Increment _ p _) = p"
| "edit_path _ = []"

definition superseded :: "('z) codec_scheme \<Rightarrow> Data \<Rightarrow> string \<Rightarrow> path list \<Rightarrow> revision \<Rightarrow> bool" where
  "superseded c d key path r \<longleftrightarrow>
     (\<exists>s prev. map_of (data_versions d) (scope_str c s) = Some prev \<and> covers s key path \<and> newer prev r)"

lemma apply_edit_scoped:
  "scoped key e \<Longrightarrow> apply_edit c e r d = apply_scope c e key (edit_path e) r d"
  by (cases e) auto

lemma apply_scope_superseded:
  assumes "data_ok c d" and "codec_ok c" and "superseded c d key path r"
  shows "apply_scope c e key path r d = Inr d"
proof -
  from assms(3) obtain s prev where "(scope_str c s, prev) \<in> set (data_versions d)"
    and "covers s key path" and "newer prev r"
    by (auto simp: superseded_def dest: map_of_SomeD)
  with scan_versions_superseded [of c "data_versions d" s prev key path r] assms(1,2) show ?thesis
    by (simp add: apply_scope_def data_ok_def)
qed

lemma scan_versions_clear:
  assumes "versions_ok c versions" and "codec_ok c"
    and "\<not> (\<exists>s prev. (scope_str c s, prev) \<in> set versions \<and> covers s key path \<and> newer prev r)"
  shows "\<exists>found. scan_versions c vs key path r versions = Inr (Some found)"
  using assms(1,3)
proof (induction versions)
  case (Cons x versions)
  obtain enc p where x: "x = (enc, p)" by force
  from Cons.prems(1) x obtain k a where ka: "scope_of c enc = Some (k, a)" "enc = scope_str c (k, a)"
    by (metis assms(2) list.set_intros(1) old.prod.exhaust versions_ok_scope)
  have here: "\<not> (covers (k, a) key path \<and> newer p r)"
    using Cons.prems(2) x ka(2) by (metis list.set_intros(1))
  obtain found where "scan_versions c vs key path r versions = Inr (Some found)"
    using Cons.IH [OF versions_ok_Cons [OF Cons.prems(1)]] Cons.prems(2) by (metis list.set_intros(2))
  with x ka here show ?case by auto
qed simp

lemma scan_versions_None_iff:
  assumes "data_ok c d" and "codec_ok c"
  shows "scan_versions c vs key path r (data_versions d) = Inr None \<longleftrightarrow> superseded c d key path r"
proof -
  from assms(1) have ok: "versions_ok c (data_versions d)" by (simp add: data_ok_def)
  then have lookup: "map_of (data_versions d) k = Some v \<longleftrightarrow> (k, v) \<in> set (data_versions d)" for k v
    by (simp add: versions_ok_def bm_wf_distinct map_of_eq_Some_iff)
  show ?thesis
  proof (cases "superseded c d key path r")
    case True
    then show ?thesis
      using scan_versions_superseded [OF ok assms(2)] unfolding superseded_def lookup by blast
  next
    case False
    then obtain found where "scan_versions c vs key path r (data_versions d) = Inr (Some found)"
      using scan_versions_clear [OF ok assms(2)] unfolding superseded_def lookup by blast
    with False show ?thesis by simp
  qed
qed

definition assignment :: "edit \<Rightarrow> bool" where
  "assignment e \<longleftrightarrow> (case e of Set _ _ _ \<Rightarrow> True | Delete _ _ \<Rightarrow> True | _ \<Rightarrow> False)"

text \<open>A current assignment is recorded as the version of its scope.\<close>

lemma assignment_recorded:
  assumes "data_ok c d" and "codec_ok c" and "scoped key e" and "assignment e"
    and "apply_scope c e key path r d = Inr d'" and "\<not> superseded c d key path r"
  shows "map_of (data_versions d') (scope_str c (key, path)) = Some r"
proof -
  obtain found where
    "scan_versions c (data_values d) key path r (data_versions d) = Inr (Some found)"
    using scan_versions_total [of c "data_versions d" "data_values d" key path r] assms(1,2,6)
      scan_versions_None_iff [OF assms(1,2), of "data_values d" key path r]
    by (auto simp: data_ok_def)
  with assms(4,5) obtain vs as versions where
    sv: "surviving_versions c key path r (data_versions d) = Inr versions"
    and d': "d' = mark_deleted key path (d\<lparr>data_values := vs,
        data_additions := as, data_versions := bm_insert (scope_str c (key, path)) r versions\<rparr>)"
    by (auto simp: apply_scope_def Let_def assignment_def split: edit.splits)
  have "bm_wf versions"
    using rfilter_Inr [OF sv [unfolded surviving_versions_def]] assms(1)
    by (auto simp: data_ok_def versions_ok_def intro: bm_wf_filter)
  with d' show ?thesis by (simp add: mark_deleted_def)
qed

lemma covers_append: "covers s key path \<Longrightarrow> covers s key (path @ q)"
  by (cases s) (auto simp: starts_with_iff)

definition revisions_of :: "Data \<Rightarrow> revision set" where
  "revisions_of d = snd ` set (data_versions d)"

text \<open>Once an assignment has been applied, or found superseded, every older edit of the
  same location or of anything inside it is accepted and changes nothing: late arrivals cannot
  overwrite newer state.\<close>

theorem older_edit_absorbed:
  assumes "data_ok c d" and "codec_ok c" and "clock_monotone (insert r (insert r' (revisions_of d)))"
    and "scoped key e" and "assignment e" and "edit_wf e" and "apply_edit c e r d = Inr d'"
    and "newer r r'" and "scoped key e'" and "starts_with (edit_path e') (edit_path e)"
  shows "apply_edit c e' r' d' = Inr d'"
proof -
  let ?p = "edit_path e"
  from assms(10) obtain q where q: "edit_path e' = ?p @ q" by (auto simp: starts_with_iff)
  have run: "apply_scope c e key ?p r d = Inr d'"
    using assms(4,7) by (simp add: apply_edit_scoped)
  have ok: "data_ok c d'" by (rule apply_scope_ok [OF assms(1,4,6) run])
  have "superseded c d' key (?p @ q) r'"
  proof (cases "superseded c d key ?p r")
    case True
    then obtain s prev where s: "map_of (data_versions d) (scope_str c s) = Some prev"
      "covers s key ?p" "newer prev r" by (auto simp: superseded_def)
    from s(1) have "prev \<in> revisions_of d"
      unfolding revisions_of_def by (metis image_eqI map_of_SomeD snd_conv)
    then have "newer prev r'"
      using s(3) assms(8) newer_iff_less [OF assms(3)] by (meson insertCI less_trans)
    moreover have "d' = d" using apply_scope_superseded [OF assms(1,2) True, of e] run by simp
    ultimately show ?thesis
      using s(1) covers_append [OF s(2)] unfolding superseded_def by blast
  next
    case False
    from assignment_recorded [OF assms(1,2,4,5) run False] assms(8) show ?thesis
      unfolding superseded_def by (intro exI [of _ "(key, ?p)"]) (auto simp: starts_with_iff)
  qed
  from apply_scope_superseded [OF ok assms(2) this] q assms(9) show ?thesis
    by (simp add: apply_edit_scoped)
qed

section \<open>Convergence of whole-value assignments\<close>

text \<open>
  The abstract specification: every key is a last-writer-wins register, the revision that last
  assigned it and its value, and a dataset has a revision that only advances.
\<close>

type_synonym register = "revision option \<times> json option"

definition put :: "revision \<Rightarrow> json option \<Rightarrow> register \<Rightarrow> register" where
  "put r v reg = (case fst reg of Some p \<Rightarrow> if r < p then reg else (Some r, v) | None \<Rightarrow> (Some r, v))"

fun lww_edit :: "revision \<Rightarrow> edit \<Rightarrow> (string \<Rightarrow> register) \<Rightarrow> string \<Rightarrow> register" where
  "lww_edit r (Set key p v) regs = regs(key := put r (Some v) (regs key))"
| "lww_edit r (Delete key p) regs = regs(key := put r None (regs key))"
| "lww_edit r _ regs = regs"

definition later :: "revision \<Rightarrow> revision option \<Rightarrow> revision option" where
  "later r p = (case p of None \<Rightarrow> Some r | Some q \<Rightarrow> Some (max q r))"

definition lww_apply :: "Transaction \<Rightarrow> revision option \<times> (string \<Rightarrow> register) \<Rightarrow>
    revision option \<times> (string \<Rightarrow> register)" where
  "lww_apply t st = (later (tx_revision t) (fst st), fold (lww_edit (tx_revision t)) (tx_edits t) (snd st))"

text \<open>The last assignment of a key inside one transaction decides its effect.\<close>

fun last_write :: "string \<Rightarrow> edit list \<Rightarrow> json option option" where
  "last_write k [] = None"
| "last_write k (e # es) = (case last_write k es of
     Some v \<Rightarrow> Some v
   | None \<Rightarrow> (case e of Set key _ v \<Rightarrow> if key = k then Some (Some v) else None
                     | Delete key _ \<Rightarrow> if key = k then Some None else None
                     | _ \<Rightarrow> None))"

lemma put_put [simp]: "put r v (put r w reg) = put r v reg"
  by (auto simp: put_def split: option.splits)

lemma fold_lww_edit:
  "fold (lww_edit r) es regs k =
     (case last_write k es of None \<Rightarrow> regs k | Some v \<Rightarrow> put r v (regs k))"
proof (induction es arbitrary: regs)
  case (Cons e es)
  show ?case unfolding fold_Cons comp_apply Cons.IH
    by (cases e) (auto split: option.splits)
qed simp

lemma put_commute: "r \<noteq> s \<Longrightarrow> put r v (put s w reg) = put s w (put r v reg)"
  by (cases "r < s") (auto simp: put_def split: option.splits)

lemma later_commute: "later r (later s p) = later s (later r p)"
  by (auto simp: later_def max.left_commute max.commute split: option.splits)

lemma lww_apply_commute:
  "tx_revision t \<noteq> tx_revision u \<Longrightarrow> lww_apply t (lww_apply u st) = lww_apply u (lww_apply t st)"
  by (simp add: lww_apply_def later_commute fold_lww_edit fun_eq_iff put_commute split: option.split)

lemma lww_apply_idem: "lww_apply t (lww_apply t st) = lww_apply t st"
  by (auto simp: lww_apply_def fold_lww_edit fun_eq_iff later_def split: option.splits)

lemma fold_lww_set:
  assumes "inj_on tx_revision (set ts)" and "set us = set ts"
  shows "fold lww_apply us st = fold lww_apply ts st"
proof -
  have "comp_fun_idem_on (set ts) lww_apply"
  proof
    fix t u assume "t \<in> set ts" "u \<in> set ts"
    then show "lww_apply u \<circ> lww_apply t = lww_apply t \<circ> lww_apply u"
      using assms(1) lww_apply_commute [of u t] by (cases "t = u") (auto simp: inj_on_def fun_eq_iff)
  qed (auto simp: fun_eq_iff lww_apply_idem)
  from comp_fun_idem_on.fold_set_fold [OF this] assms(2) show ?thesis by (metis order_refl)
qed

text \<open>
  The concrete side: a dataset that has only seen whole-value assignments.
\<close>

definition root_state :: "('z) codec_scheme \<Rightarrow> Data \<Rightarrow> bool" where
  "root_state c d \<longleftrightarrow> data_ok c d \<and> data_additions d = []
     \<and> (\<forall>enc \<in> fst ` set (data_versions d). \<exists>k. enc = scope_str c (k, []))
     \<and> (\<forall>k. k \<in> set (data_deleted d) \<longleftrightarrow>
           bm_mem (data_versions d) (scope_str c (k, [])) \<and> map_of (data_values d) k = None)"

definition registers :: "('z) codec_scheme \<Rightarrow> Data \<Rightarrow> revision option \<times> (string \<Rightarrow> register)" where
  "registers c d = (data_revision d,
     \<lambda>k. (map_of (data_versions d) (scope_str c (k, [])), map_of (data_values d) k))"

fun root_assignment :: "edit \<Rightarrow> bool" where
  "root_assignment (Set _ p v) \<longleftrightarrow> p = [] \<and> json_wf v"
| "root_assignment (Delete _ p) \<longleftrightarrow> p = []"
| "root_assignment _ \<longleftrightarrow> False"

lemma root_state_unique:
  assumes "codec_ok c" and "root_state c d" and "root_state c d'"
    and "registers c d = registers c d'" and "data_owner d = data_owner d'" and "data_aliases d = data_aliases d'"
  shows "d = d'"
proof -
  have v: "map_of (data_versions d) (scope_str c (k, [])) = map_of (data_versions d') (scope_str c (k, []))"
    and x: "map_of (data_values d) k = map_of (data_values d') k" for k
    using assms(4) by (auto simp: registers_def dest: fun_cong [of _ _ k])
  have "map_of (data_versions d) enc = map_of (data_versions d') enc" for enc
  proof (cases "\<exists>k. enc = scope_str c (k, [])")
    case False
    then have "enc \<notin> fst ` set (data_versions d)" "enc \<notin> fst ` set (data_versions d')"
      using assms(2,3) by (auto simp: root_state_def)
    then show ?thesis by (metis map_of_eq_None_iff)
  qed (use v in auto)
  then have "map_of (data_versions d) = map_of (data_versions d')" by (rule ext)
  then have vs: "data_versions d = data_versions d'"
    using assms(2,3) by (intro bm_ext) (simp_all add: root_state_def data_ok_def versions_ok_def)
  from x have "map_of (data_values d) = map_of (data_values d')" by (rule ext)
  then have xs: "data_values d = data_values d'"
    using assms(2,3) by (intro bm_ext) (simp_all add: root_state_def data_ok_def vals_wf_bm)
  have "set (data_deleted d) = set (data_deleted d')"
    using assms(2,3) vs xs by (auto simp: root_state_def)
  then have ds: "data_deleted d = data_deleted d'"
    using assms(2,3) by (intro bs_ext) (auto simp: root_state_def data_ok_def)
  have "data_revision d = data_revision d'" using assms(4) by (simp add: registers_def)
  with vs xs ds assms show ?thesis by (simp add: root_state_def)
qed

lemma scan_versions_root:
  assumes "codec_ok c" and "\<forall>enc \<in> fst ` set versions. \<exists>k. enc = scope_str c (k, [])"
  shows "scan_versions c vs key [] r versions =
    Inr (if \<exists>prev. (scope_str c (key, []), prev) \<in> set versions \<and> newer prev r then None else Some [])"
  using assms(2)
proof (induction versions)
  case (Cons x versions)
  then obtain k where k: "fst x = scope_str c (k, [])" by auto
  then have x: "x = (scope_str c (k, []), snd x)" by (metis prod.collapse)
  have IH: "scan_versions c vs key [] r versions =
    Inr (if \<exists>prev. (scope_str c (key, []), prev) \<in> set versions \<and> newer prev r then None else Some [])"
    using Cons by simp
  show ?case
    by (subst x, subst (2) x) (use assms(1) IH in \<open>auto simp: scope_str_inj\<close>)
qed simp

lemma surviving_versions_root:
  assumes "codec_ok c" and "\<forall>enc \<in> fst ` set versions. \<exists>k. enc = scope_str c (k, [])"
    and "\<not> (\<exists>prev. (scope_str c (key, []), prev) \<in> set versions \<and> newer prev r)"
  shows "surviving_versions c key [] r versions = Inr (bm_remove (scope_str c (key, [])) versions)"
  unfolding surviving_versions_def bm_remove_def
proof (rule rfilter_total)
  fix x assume x: "x \<in> set versions"
  then obtain k where k: "fst x = scope_str c (k, [])" using assms(2) by auto
  then have eq: "x = (scope_str c (k, []), snd x)" by (metis prod.collapse)
  from assms(3) x eq have "k = key \<Longrightarrow> \<not> newer (snd x) r" by metis
  with assms(1) show "(case x of (encoded, previous) \<Rightarrow>
      (case scope_of c encoded of None \<Rightarrow> Inl (Panic ''validated scope'')
      | Some (k, nested) \<Rightarrow> Inr (k \<noteq> key \<or> \<not> starts_with nested [] \<or> newer previous r))) =
    Inr (fst x \<noteq> scope_str c (key, []))"
    by (subst eq, subst (2) eq) (auto simp: scope_str_inj)
qed

definition root_write :: "('z) codec_scheme \<Rightarrow> string \<Rightarrow> json option \<Rightarrow> revision \<Rightarrow> Data \<Rightarrow> Data" where
  "root_write c key v r d = mark_deleted key []
     (d\<lparr>data_values := (case v of Some x \<Rightarrow> bm_insert key x (data_values d) | None \<Rightarrow> bm_remove key (data_values d)),
        data_additions := [],
        data_versions := bm_insert (scope_str c (key, [])) r (bm_remove (scope_str c (key, [])) (data_versions d))\<rparr>)"

text \<open>The only two outcomes of a whole-value assignment.\<close>

lemma root_edit_outcome:
  assumes "codec_ok c" and "root_state c d" and "root_assignment e"
  obtains key v where "\<forall>regs. lww_edit r e regs = regs(key := put r v (regs key))"
    and "\<forall>w. v = Some w \<longrightarrow> json_wf w"
    and "apply_edit c e r d =
      Inr (if \<exists>prev. map_of (data_versions d) (scope_str c (key, [])) = Some prev \<and> newer prev r
           then d else root_write c key v r d)"
proof -
  from assms(2) have add: "data_additions d = []" and wf: "bm_wf (data_versions d)"
    and roots: "\<forall>enc \<in> fst ` set (data_versions d). \<exists>k. enc = scope_str c (k, [])"
    by (auto simp: root_state_def data_ok_def versions_ok_def)
  have look: "map_of (data_versions d) k = Some v \<longleftrightarrow> (k, v) \<in> set (data_versions d)" for k v
    using bm_wf_distinct [OF wf] by (rule map_of_eq_Some_iff)
  let ?stale = "\<lambda>key. \<exists>prev. map_of (data_versions d) (scope_str c (key, [])) = Some prev \<and> newer prev r"
  have scan: "scan_versions c vs key [] r (data_versions d) = Inr (if ?stale key then None else Some [])" for vs key
    unfolding look by (rule scan_versions_root [OF assms(1) roots])
  have surv: "\<not> ?stale key \<Longrightarrow> surviving_versions c key [] r (data_versions d) =
      Inr (bm_remove (scope_str c (key, [])) (data_versions d))" for key
    unfolding look by (rule surviving_versions_root [OF assms(1) roots])
  have set: "apply_scope c (Set key [] v) key [] r d = Inr (if ?stale key then d else root_write c key (Some v) r d)" for key v
    by (cases "?stale key")
      (auto simp: apply_scope_def scan surv add Let_def apply_at_def is_delete_def root_write_def bm_retain_def)
  have del: "apply_scope c (Delete key []) key [] r d = Inr (if ?stale key then d else root_write c key None r d)" for key
    by (cases "?stale key")
      (auto simp: apply_scope_def scan surv add Let_def apply_at_def is_delete_def root_write_def bm_retain_def)
  show ?thesis
  proof (cases e)
    case (Set key p v)
    then show ?thesis by (intro that [of key "Some v"]) (use assms(3) set Set in auto)
  next
    case (Delete key p)
    then show ?thesis by (intro that [of key None]) (use assms(3) del Delete in auto)
  qed (use assms(3) in auto)
qed

lemma root_write_ok:
  assumes "codec_ok c" and "root_state c d" and "\<forall>w. v = Some w \<longrightarrow> json_wf w"
  shows "root_state c (root_write c key v r d)"
    and "registers c (root_write c key v r d) =
      (data_revision d, (snd (registers c d))(key := (Some r, v)))"
    and "revisions_of (root_write c key v r d) \<subseteq> insert r (revisions_of d)"
proof -
  let ?enc = "scope_str c (key, [])" and ?d' = "root_write c key v r d"
  from assms(2) have wf: "vals_wf (data_values d)" "bm_wf (data_versions d)" "bs_wf (data_deleted d)"
    and roots: "\<forall>enc \<in> fst ` set (data_versions d). \<exists>k. enc = scope_str c (k, [])"
    and del: "\<And>k. k \<in> set (data_deleted d) \<longleftrightarrow>
           bm_mem (data_versions d) (scope_str c (k, [])) \<and> map_of (data_values d) k = None"
    by (auto simp: root_state_def data_ok_def versions_ok_def)
  note bmv = vals_wf_bm [OF wf(1)]
  have vals: "map_of (data_values ?d') = (map_of (data_values d))(key := v)" "vals_wf (data_values ?d')"
    using bmv assms(3) wf(1)
    by (auto simp: root_write_def mark_deleted_def vals_wf_insert vals_wf_remove split: option.splits)
  have vers: "data_versions ?d' = bm_insert ?enc r (bm_remove ?enc (data_versions d))"
    and add: "data_additions ?d' = []" by (simp_all add: root_write_def mark_deleted_def)
  have vmap: "map_of (data_versions ?d') = (map_of (data_versions d))(?enc \<mapsto> r)" "bm_wf (data_versions ?d')"
    using wf(2) by (simp_all add: vers)
  show regs: "registers c ?d' = (data_revision d, (snd (registers c d))(key := (Some r, v)))"
    using vals vmap scope_str_inj [OF assms(1)]
    by (auto simp: registers_def fun_eq_iff root_write_def mark_deleted_def)
  have sub: "set (data_versions ?d') \<subseteq> insert (?enc, r) (set (data_versions d))"
    unfolding vers bm_remove_def by (rule order_trans [OF set_bm_insert_subset]) auto
  then show "revisions_of ?d' \<subseteq> insert r (revisions_of d)" by (force simp: revisions_of_def)
  have keys: "\<forall>enc \<in> fst ` set (data_versions ?d'). \<exists>k. enc = scope_str c (k, [])"
    using sub roots by fastforce
  then have "versions_ok c (data_versions ?d')" using vmap(2) by (auto simp: versions_ok_def)
  moreover have dl: "bs_wf (data_deleted ?d')" "k \<in> set (data_deleted ?d') \<longleftrightarrow>
      (if k = key then v = None else k \<in> set (data_deleted d))" for k
    using wf(3) bmv by (auto simp: root_write_def mark_deleted_def bm_mem_def split: option.splits)
  moreover have "k \<in> set (data_deleted ?d') \<longleftrightarrow>
      bm_mem (data_versions ?d') (scope_str c (k, [])) \<and> map_of (data_values ?d') k = None" for k
    unfolding dl del bm_mem_def vmap vals using scope_str_inj [OF assms(1)] by auto
  ultimately show "root_state c ?d'"
    using vals(2) keys add by (auto simp: root_state_def data_ok_def additions_ok_def)
qed

text \<open>The invariant of a replay of whole-value assignments, with the abstract state it has reached.\<close>

definition replayed :: "('z) codec_scheme \<Rightarrow> revision set \<Rightarrow> Data \<Rightarrow> revision option \<times> (string \<Rightarrow> register) \<Rightarrow> Data \<Rightarrow> bool" where
  "replayed c R d st d' \<longleftrightarrow> root_state c d' \<and> registers c d' = st \<and> data_owner d' = data_owner d
     \<and> data_aliases d' = data_aliases d \<and> revisions_of d' \<union> set_option (data_revision d') \<subseteq> R"

lemma root_edit_refines:
  assumes c: "codec_ok c" and R: "clock_monotone R" and "r \<in> R" and d': "replayed c R d st d'"
    and "root_assignment e"
  obtains d'' where "apply_edit c e r d' = Inr d''"
    and "replayed c R d (fst st, lww_edit r e (snd st)) d''"
proof -
  from d' have root: "root_state c d'" and st: "st = registers c d'"
    and sub: "revisions_of d' \<union> set_option (data_revision d') \<subseteq> R" by (auto simp: replayed_def)
  obtain key v where upd: "\<forall>regs. lww_edit r e regs = regs(key := put r v (regs key))"
    and wf: "\<forall>w. v = Some w \<longrightarrow> json_wf w"
    and run: "apply_edit c e r d' =
      Inr (if \<exists>prev. map_of (data_versions d') (scope_str c (key, [])) = Some prev \<and> newer prev r
           then d' else root_write c key v r d')"
    by (rule root_edit_outcome [OF c root assms(5), of r])
  have lt: "newer prev r \<longleftrightarrow> r < prev" if "map_of (data_versions d') k = Some prev" for k prev
  proof -
    from that have "prev \<in> R" using sub unfolding revisions_of_def by (force dest: map_of_SomeD)
    from newer_iff_less [OF R this \<open>r \<in> R\<close>] show ?thesis .
  qed
  show ?thesis
  proof (cases "\<exists>prev. map_of (data_versions d') (scope_str c (key, [])) = Some prev \<and> newer prev r")
    case True
    then have "put r v (snd st key) = snd st key" using lt by (auto simp: st registers_def put_def)
    then have "(fst st, lww_edit r e (snd st)) = st" by (simp add: upd)
    with True run d' show ?thesis by (intro that [of d']) simp_all
  next
    case False
    then have "put r v (snd st key) = (Some r, v)"
      using lt by (auto simp: st registers_def put_def split: option.splits)
    then have "registers c (root_write c key v r d') = (fst st, lww_edit r e (snd st))"
      using root_write_ok(2) [OF c root, of v key r] wf by (simp add: upd st) (simp add: registers_def)
    moreover have "data_owner (root_write c key v r d') = data_owner d'"
      "data_aliases (root_write c key v r d') = data_aliases d'"
      "data_revision (root_write c key v r d') = data_revision d'"
      by (simp_all add: root_write_def mark_deleted_def)
    moreover have "root_state c (root_write c key v r d')"
      by (rule root_write_ok(1) [OF c root]) (use wf in simp)
    moreover have "revisions_of (root_write c key v r d') \<subseteq> insert r (revisions_of d')"
      by (rule root_write_ok(3) [OF c root]) (use wf in simp)
    then have "revisions_of (root_write c key v r d') \<subseteq> R" using sub \<open>r \<in> R\<close> by blast
    ultimately have "replayed c R d (fst st, lww_edit r e (snd st)) (root_write c key v r d')"
      using sub d' unfolding replayed_def by simp
    with False run show ?thesis by (intro that [of "root_write c key v r d'"]) auto
  qed
qed

lemma root_edits_refine:
  assumes "codec_ok c" and "clock_monotone R" and "r \<in> R" and "replayed c R d st d'"
    and "\<forall>e \<in> set es. root_assignment e"
  shows "\<exists>d''. rfold (\<lambda>e. rfold (\<lambda>e'. apply_edit c e' r) (expand_patch e)) es d' = Inr d''
    \<and> replayed c R d (fst st, fold (lww_edit r) es (snd st)) d''"
  using assms(4,5)
proof (induction es arbitrary: st d')
  case (Cons e es)
  from Cons.prems(2) have "expand_patch e = [e]" "root_assignment e" by (cases e; simp)+
  moreover obtain d1 where "apply_edit c e r d' = Inr d1" "replayed c R d (fst st, lww_edit r e (snd st)) d1"
    by (rule root_edit_refines [OF assms(1-3) Cons.prems(1) calculation(2)])
  ultimately show ?case using Cons.IH [of "(fst st, lww_edit r e (snd st))" d1] Cons.prems(2) by simp
qed simp

lemma Data_apply_refines:
  assumes "codec_ok c" and "clock_monotone R" and "tx_revision t \<in> R" and "replayed c R d st d'"
    and "tx_target t = TData (data_owner d)" and "\<forall>e \<in> set (tx_edits t). root_assignment e"
  shows "\<exists>d''. Data_apply c t d' = Inr d'' \<and> replayed c R d (lww_apply t st) d''"
proof -
  let ?r = "tx_revision t"
  obtain d1 where run: "rfold (\<lambda>e. rfold (\<lambda>e'. apply_edit c e' ?r) (expand_patch e)) (tx_edits t) d' = Inr d1"
    and d1: "replayed c R d (fst st, fold (lww_edit ?r) (tx_edits t) (snd st)) d1"
    using root_edits_refine [OF assms(1-4,6)] by blast
  have lt: "newer ?r q \<longleftrightarrow> q < ?r" if "data_revision d1 = Some q" for q
    using d1 that assms(3) by (intro newer_iff_less [OF assms(2)]) (auto simp: replayed_def)
  have "data_revision d1 = fst st" using d1 by (auto simp: replayed_def registers_def)
  then have rev: "data_revision (advance_revision ?r d1) = later ?r (fst st)"
    using lt by (auto simp: advance_revision_def later_def max_def split: option.splits)
  have same: "root_state c (advance_revision ?r d1) = root_state c d1"
    "registers c (advance_revision ?r d1) = (data_revision (advance_revision ?r d1), snd (registers c d1))"
    "data_owner (advance_revision ?r d1) = data_owner d1" "data_aliases (advance_revision ?r d1) = data_aliases d1"
    "revisions_of (advance_revision ?r d1) = revisions_of d1"
    by (simp_all add: advance_revision_def root_state_def data_ok_def registers_def revisions_of_def)
  have "set_option (later ?r (fst st)) \<subseteq> R"
    using d1 assms(3) \<open>data_revision d1 = fst st\<close>
    by (auto simp: replayed_def later_def max_def split: option.splits)
  then have "replayed c R d (lww_apply t st) (advance_revision ?r d1)"
    using d1 unfolding replayed_def same rev by (simp add: lww_apply_def)
  moreover have "data_owner d' = data_owner d" using assms(4) by (simp add: replayed_def)
  ultimately show ?thesis using run assms(5) by (simp add: Data_apply_def)
qed

lemma replay_refines:
  assumes "codec_ok c" and "clock_monotone R" and "replayed c R d st d'"
    and "\<forall>t \<in> set ts. tx_revision t \<in> R \<and> tx_target t = TData (data_owner d)
      \<and> (\<forall>e \<in> set (tx_edits t). root_assignment e)"
  shows "\<exists>d''. rfold (Data_apply c) ts d' = Inr d'' \<and> replayed c R d (fold lww_apply ts st) d''"
  using assms(3,4)
proof (induction ts arbitrary: st d')
  case (Cons t ts)
  from Cons.prems(2) obtain d1 where "Data_apply c t d' = Inr d1" "replayed c R d (lww_apply t st) d1"
    using Data_apply_refines [OF assms(1,2) _ Cons.prems(1), of t] by auto
  with Cons.IH [of "lww_apply t st" d1] Cons.prems(2) show ?case by simp
qed simp

definition root_history :: "('z) codec_scheme \<Rightarrow> Data \<Rightarrow> Transaction list \<Rightarrow> bool" where
  "root_history c d ts \<longleftrightarrow> root_state c d \<and> inj_on tx_revision (set ts)
     \<and> clock_monotone (tx_revision ` set ts \<union> revisions_of d \<union> set_option (data_revision d))
     \<and> (\<forall>t \<in> set ts. tx_target t = TData (data_owner d) \<and> (\<forall>e \<in> set (tx_edits t). root_assignment e))"

lemma root_history_replayed:
  assumes "codec_ok c" and "root_history c d ts" and "set us \<subseteq> set ts"
  shows "\<exists>d' R. rfold (Data_apply c) us d = Inr d' \<and> replayed c R d (fold lww_apply us (registers c d)) d'"
proof -
  let ?R = "tx_revision ` set ts \<union> revisions_of d \<union> set_option (data_revision d)"
  from assms(2) have mono: "clock_monotone ?R" and start: "replayed c ?R d (registers c d) d"
    by (auto simp: root_history_def replayed_def)
  from assms(2,3) replay_refines [OF assms(1) mono start, of us] show ?thesis
    unfolding root_history_def by blast
qed

text \<open>C14: replaying transactions of whole-value assignments never fails, and implements one
  last-writer-wins register per key: the dataset reached is abstracted by the register
  operations of the same transactions.  As in \<open>root_history\<close>, the transactions are for this dataset
  and have different revisions, it holds whole values only, and no author's clock runs backwards.\<close>

theorem replay_implements_registers:
  assumes "codec_ok c" and "root_history c d ts"
  shows "\<exists>d'. rfold (Data_apply c) ts d = Inr d' \<and> registers c d' = fold lww_apply ts (registers c d)"
  using root_history_replayed [OF assms order_refl] by (auto simp: replayed_def)

text \<open>C13: two replicas that received the same transactions of whole-value assignments, in any
  order and any number of times, hold the same dataset: values, versions, deletion marks and
  revision.  The histories are those of \<open>root_history\<close>: the transactions are for this dataset and have
  different revisions, the dataset they start from holds whole values only, and no author's clock runs
  backwards.  With a clock that does, the winner among three edits depends on their order
  (\<open>newer_cycle\<close>).\<close>

theorem replay_converges:
  assumes "codec_ok c" and "root_history c d ts" and "set us = set ts"
  shows "\<exists>d'. rfold (Data_apply c) ts d = Inr d' \<and> rfold (Data_apply c) us d = Inr d'"
proof -
  obtain d1 R1 where r1: "rfold (Data_apply c) ts d = Inr d1"
    and d1: "replayed c R1 d (fold lww_apply ts (registers c d)) d1"
    using root_history_replayed [OF assms(1,2), of ts] by auto
  obtain d2 R2 where r2: "rfold (Data_apply c) us d = Inr d2"
    and d2: "replayed c R2 d (fold lww_apply us (registers c d)) d2"
    using root_history_replayed [OF assms(1,2), of us] assms(3) by auto
  have "fold lww_apply us (registers c d) = fold lww_apply ts (registers c d)"
    using fold_lww_set assms(2,3) by (metis root_history_def)
  with d1 d2 have "d1 = d2"
    by (intro root_state_unique [OF assms(1)]) (simp_all add: replayed_def)
  with r1 r2 show ?thesis by simp
qed

section \<open>Witnesses\<close>

text \<open>A concrete codec: characters are escaped, path segments are tagged.\<close>

fun text_str :: "string \<Rightarrow> string" where
  "text_str [] = ''.''"
| "text_str (x # xs) = CHR ''_'' # x # text_str xs"

fun text_of :: "string \<Rightarrow> (string \<times> string) option" where
  "text_of (m # x # xs) =
     (if m = CHR ''.'' then Some ([], x # xs)
      else if m = CHR ''_'' then map_option (\<lambda>(s, rest). (x # s, rest)) (text_of xs) else None)"
| "text_of [m] = (if m = CHR ''.'' then Some ([], []) else None)"
| "text_of [] = None"

lemma text_of_str [simp]: "text_of (text_str s @ rest) = Some (s, rest)"
  by (induction s) (cases rest; simp)+

lemma text_of_shorter: "text_of s = Some (t, rest) \<Longrightarrow> length rest < length s"
  by (induction s arbitrary: t rest rule: text_of.induct) (auto split: if_splits)

fun path_str :: "path \<Rightarrow> string" where
  "path_str (Field f) = CHR ''F'' # text_str f"
| "path_str (Item i) = CHR ''I'' # text_str i"
| "path_str Records = ''R''"

function paths_of :: "string \<Rightarrow> path list option" where
  "paths_of [] = Some []"
| "paths_of (x # xs) =
     (if x = CHR ''R'' then map_option ((#) Records) (paths_of xs)
      else (case text_of xs of
         None \<Rightarrow> None
       | Some (s, rest) \<Rightarrow>
           if x = CHR ''F'' then map_option ((#) (Field s)) (paths_of rest)
           else if x = CHR ''I'' then map_option ((#) (Item s)) (paths_of rest)
           else None))"
  by pat_completeness auto
termination
  by (relation "measure length") (auto dest: text_of_shorter)

definition tagged_codec :: codec where
  "tagged_codec = \<lparr>scope_str = (\<lambda>(k, p). text_str k @ concat (map path_str p)),
     scope_of = (\<lambda>s. case text_of s of None \<Rightarrow> None
       | Some (k, rest) \<Rightarrow> map_option (Pair k) (paths_of rest))\<rparr>"

lemma paths_of_str: "paths_of (concat (map path_str p)) = Some p"
proof (induction p)
  case (Cons x p)
  then show ?case by (cases x) simp_all
qed simp

lemma tagged_codec_ok: "codec_ok tagged_codec"
  by (simp add: codec_ok_def tagged_codec_def paths_of_str)

definition sample_owner :: Owner where
  "sample_owner = \<lparr>owner_backend = DataStore, owner_path = ''prefs'', owner_format = 1, owner_layout = 1\<rparr>"

definition sample_tx :: "string \<Rightarrow> revision \<Rightarrow> edit list \<Rightarrow> Transaction" where
  "sample_tx i r es = \<lparr>tx_id = i, tx_revision = r, tx_target = TData sample_owner, tx_edits = es\<rparr>"

definition tx_a :: Transaction where
  "tx_a = sample_tx ''a'' (Revision 1 ''A'' 1) [Set ''x'' [] (JInt 1), Set ''y'' [] (JInt 2)]"

definition tx_b :: Transaction where
  "tx_b = sample_tx ''b'' (Revision 2 ''B'' 1) [Delete ''x'' []]"

lemma Data_empty_root: "root_state c (Data_empty own)"
  by (simp add: root_state_def data_ok_def versions_ok_def additions_ok_def vals_wf_def Data_empty_def bm_mem_def)

lemma sample_history: "root_history tagged_codec (Data_empty sample_owner) [tx_a, tx_b]"
  by (auto simp: root_history_def Data_empty_root)
    (auto simp: tx_a_def tx_b_def sample_tx_def Data_empty_def revisions_of_def clock_monotone_def)

theorem replay_implements_registers_witness:
  "\<exists>d'. rfold (Data_apply tagged_codec) [tx_a, tx_b] (Data_empty sample_owner) = Inr d' \<and>
     snd (registers tagged_codec d') ''x'' = (Some (Revision 2 ''B'' 1), None)"
proof -
  have "snd (fold lww_apply [tx_a, tx_b] (registers tagged_codec (Data_empty sample_owner))) ''x''
      = (Some (Revision 2 ''B'' 1), None)"
    by (simp add: lww_apply_def tx_a_def tx_b_def sample_tx_def put_def registers_def Data_empty_def less_revision_def)
  with replay_implements_registers [OF tagged_codec_ok sample_history] show ?thesis by metis
qed

theorem replay_converges_witness:
  "\<exists>d'. rfold (Data_apply tagged_codec) [tx_a, tx_b] (Data_empty sample_owner) = Inr d' \<and>
     rfold (Data_apply tagged_codec) [tx_b, tx_a, tx_b] (Data_empty sample_owner) = Inr d'"
  by (rule replay_converges [OF tagged_codec_ok sample_history]) auto

definition tx_nested :: Transaction where
  "tx_nested = sample_tx ''n'' (Revision 3 ''A'' 2) [Set ''x'' [Field ''a''] (JInt 1), Increment ''y'' [] 5,
     Patch ''x'' [(''b'', JNull)] [''a'']]"

lemma tx_nested_runs: "\<not> isl (Data_apply tagged_codec tx_nested (Data_empty sample_owner))"
  by code_simp

theorem Data_apply_invariant_witness:
  "\<exists>d'. Data_apply tagged_codec tx_nested (Data_empty sample_owner) = Inr d' \<and> data_ok tagged_codec d'"
proof -
  obtain d' where "Data_apply tagged_codec tx_nested (Data_empty sample_owner) = Inr d'"
    using not_isl_Inr [OF tx_nested_runs] by blast
  moreover from Data_apply_invariant [OF _ _ this] have "data_ok tagged_codec d'"
    using Data_empty_root [of tagged_codec sample_owner]
    by (simp add: root_state_def tx_nested_def sample_tx_def bm_wf_def)
  ultimately show ?thesis by blast
qed

theorem older_edit_absorbed_witness:
  "\<exists>d'. apply_edit tagged_codec (Set ''x'' [] (JInt 1)) (Revision 5 ''A'' 2) (Data_empty sample_owner) = Inr d' \<and>
     apply_edit tagged_codec (Delete ''x'' [Field ''f'']) (Revision 4 ''B'' 1) d' = Inr d'"
proof -
  have "\<not> isl (apply_edit tagged_codec (Set ''x'' [] (JInt 1)) (Revision 5 ''A'' 2) (Data_empty sample_owner))"
    by code_simp
  from not_isl_Inr [OF this] obtain d' where run: "apply_edit tagged_codec (Set ''x'' [] (JInt 1)) (Revision 5 ''A'' 2) (Data_empty sample_owner) = Inr d'"
    by blast
  have "apply_edit tagged_codec (Delete ''x'' [Field ''f'']) (Revision 4 ''B'' 1) d' = Inr d'"
    by (rule older_edit_absorbed [OF _ tagged_codec_ok _ _ _ _ run])
      (use Data_empty_root [of tagged_codec sample_owner] in
        \<open>auto simp: root_state_def clock_monotone_def revisions_of_def Data_empty_def assignment_def newer_def less_revision_def\<close>)
  with run show ?thesis by blast
qed

end
