(* ===== verification/Migration_Rules.thy ===== *)
theory Migration_Rules
  imports Data_Apply
begin

text \<open>
  Declarative migrations (\<open>Rule\<close> and \<open>Migrations\<close> in \<open>Transaction.rs\<close>): what a rule does to a
  dataset, to the scopes of its version and increment tables and to the edits of a
  transaction, and how the rules of several format versions are put together.
\<close>

section \<open>Definitions\<close>

datatype Rule =
    RenameKey string string
  | RenameField string string string
  | SplitObject string "(string, string) bmap"
  | DropKey string
  | SplitRecords string string string

definition rename_field :: "string \<Rightarrow> string \<Rightarrow> json \<Rightarrow> json res" where
  "rename_field from to v =
     rbind (ok_or (Err ''Field migration requires an object'') (as_object v)) (\<lambda>m.
       if bm_mem m from \<and> bm_mem m to then Inl (Err ''Field destination exists'')
       else Inr (JObj (case map_of m from of
         Some x \<Rightarrow> bm_insert to x (bm_remove from m) | None \<Rightarrow> m)))"

definition record_values :: "string \<Rightarrow> json \<Rightarrow> (string, json) bmap res" where
  "record_values identity v =
     rbind (ok_or (Err ''Record split requires an array'') (as_array v)) (\<lambda>xs.
       rfold (\<lambda>x records.
         case Option.bind (json_get x identity) as_str of
           None \<Rightarrow> Inl (Err ''Record identity is missing'')
         | Some i \<Rightarrow>
             if i = [] then Inl (Err ''Record identity is missing'')
             else if bm_mem records i then Inl (Err ''Duplicate record identity'')
             else Inr (bm_insert i x records)) xs [])"

definition validate_split :: "string \<Rightarrow> (string, string) bmap \<Rightarrow> unit res" where
  "validate_split key fs =
     (if fs = [] \<or> key \<in> snd ` set fs \<or> length (bs_of_list (map snd fs)) \<noteq> length fs
      then Inl (Err ''Split destinations must be distinct and differ from the source'')
      else Inr ())"

fun rule_scope :: "Rule \<Rightarrow> string \<Rightarrow> path list \<Rightarrow> scope list res" where
  "rule_scope (RenameKey from to) key path = Inr [(if key = from then to else key, path)]"
| "rule_scope (RenameField base from to) key path =
     (case path of
        segment # rest \<Rightarrow> Inr [(key, (if key = base \<and> segment = Field from then Field to else segment) # rest)]
      | [] \<Rightarrow> Inr [(key, path)])"
| "rule_scope (DropKey base) key path = Inr (if key = base then [] else [(key, path)])"
| "rule_scope (SplitRecords base pre identity) key path =
     (if key \<noteq> base then Inr [(key, path)]
      else case path of
         [] \<Rightarrow> Inr [(pre, [Records])]
       | Item i # rest \<Rightarrow> Inr [(pre @ i, rest)]
       | _ \<Rightarrow> Inl (Err ''Record split requires an identity scope''))"
| "rule_scope (SplitObject base fs) key path =
     (if key \<noteq> base then Inr [(key, path)]
      else rbind (validate_split base fs) (\<lambda>_.
        case path of
          [] \<Rightarrow> Inr (map (\<lambda>(_, k). (k, [])) fs)
        | Field f # rest \<Rightarrow> Inr (case map_of fs f of Some k \<Rightarrow> [(k, rest)] | None \<Rightarrow> [])
        | _ \<Rightarrow> Inl (Err ''Split source scope requires a field'')))"

definition put_scope :: "('z) codec_scheme \<Rightarrow> ('t \<Rightarrow> 't \<Rightarrow> 't) \<Rightarrow> 't \<Rightarrow> (string, 't) bmap \<Rightarrow> scope \<Rightarrow> (string, 't) bmap" where
  "put_scope c combine v acc s =
     bm_insert (scope_str c s)
       (case map_of acc (scope_str c s) of Some old \<Rightarrow> combine old v | None \<Rightarrow> v) acc"

definition rule_scopes :: "('z) codec_scheme \<Rightarrow> Rule \<Rightarrow> ('t \<Rightarrow> 't \<Rightarrow> 't) \<Rightarrow> (string, 't) bmap \<Rightarrow> (string, 't) bmap res" where
  "rule_scopes c rule combine scopes =
     rfold (\<lambda>(encoded, v) result.
       case scope_of c encoded of
         None \<Rightarrow> Inl Foreign
       | Some (key, path) \<Rightarrow>
           rbind (rule_scope rule key path) (\<lambda>ss. Inr (foldl (put_scope c combine v) result ss))) scopes []"

definition keep_newer :: "revision \<Rightarrow> revision \<Rightarrow> revision" where
  "keep_newer a b = (if newer b a then b else a)"

text \<open>Loop of \<open>SplitRecords\<close> over the records of the split array.\<close>

definition insert_records :: "string \<Rightarrow> (string, json) bmap \<Rightarrow> vals \<Rightarrow> vals res" where
  "insert_records pre records vs =
     rfold (\<lambda>(i, v) vs.
       if bm_mem vs (pre @ i) then Inl (Err ''Record split destination exists'')
       else Inr (bm_insert (pre @ i) v vs)) records vs"

text \<open>Loop of \<open>SplitObject\<close> over the declared fields.\<close>

definition split_field :: "json option \<Rightarrow> bool \<Rightarrow> string \<times> string \<Rightarrow> Data \<Rightarrow> Data res" where
  "split_field v deleted fd d =
     (let field = fst fd; destination = snd fd in
      if bm_mem (data_values d) destination then Inl (Err ''Split destination exists'')
      else case Option.bind v (\<lambda>v. json_get v field) of
        Some x \<Rightarrow> Inr (d\<lparr>data_values := bm_insert destination x (data_values d)\<rparr>)
      | None \<Rightarrow>
          if v \<noteq> None \<or> deleted then Inr (d\<lparr>data_deleted := bs_insert destination (data_deleted d)\<rparr>)
          else Inr d)"

definition split_active :: "('z) codec_scheme \<Rightarrow> string \<Rightarrow> Data \<Rightarrow> bool" where
  "split_active c key d \<longleftrightarrow> bm_mem (data_values d) key \<or> key \<in> set (data_deleted d)
     \<or> list_ex (\<lambda>(encoded, _). case scope_of c encoded of Some (base, _) \<Rightarrow> base = key | None \<Rightarrow> False)
          (data_versions d)"

text \<open>The first half of \<open>Rule::data\<close>; \<open>None\<close> is its early return.\<close>

fun rule_values :: "('z) codec_scheme \<Rightarrow> Rule \<Rightarrow> Data \<Rightarrow> Data option res" where
  "rule_values c (RenameKey from to) d =
     (if bm_mem (data_values d) from \<and> bm_mem (data_values d) to then Inl (Err ''Key destination exists'')
      else let
        d1 = (case map_of (data_values d) from of
                Some v \<Rightarrow> d\<lparr>data_values := bm_insert to v (bm_remove from (data_values d))\<rparr>
              | None \<Rightarrow> d)
      in Inr (Some (if from \<in> set (data_deleted d1)
           then d1\<lparr>data_deleted := bs_insert to (bs_remove from (data_deleted d1))\<rparr> else d1)))"
| "rule_values c (RenameField key from to) d =
     (case map_of (data_values d) key of
        None \<Rightarrow> Inr (Some d)
      | Some v \<Rightarrow> rbind (rename_field from to v) (\<lambda>v'.
          Inr (Some (d\<lparr>data_values := bm_insert key v' (data_values d)\<rparr>))))"
| "rule_values c (DropKey key) d =
     Inr (Some (d\<lparr>data_values := bm_remove key (data_values d), data_deleted := bs_remove key (data_deleted d)\<rparr>))"
| "rule_values c (SplitRecords key pre identity) d =
     (if pre = [] \<or> starts_with key pre then Inl (Err ''Invalid split namespace'')
      else rbind
        (case map_of (data_values d) key of
           None \<Rightarrow> Inr (data_values d)
         | Some v \<Rightarrow> rbind (record_values identity v) (\<lambda>records.
             insert_records pre records (bm_remove key (data_values d))))
        (\<lambda>vs. Inr (Some (d\<lparr>data_values := vs, data_deleted := bs_remove key (data_deleted d)\<rparr>))))"
| "rule_values c (SplitObject key fs) d =
     rbind (validate_split key fs) (\<lambda>_.
       if \<not> split_active c key d then Inr None
       else let v = map_of (data_values d) key in
         if (case v of Some x \<Rightarrow> \<not> is_object x | None \<Rightarrow> False)
         then Inl (Err ''Split migration requires an object'')
         else rbind (rfold (split_field v (key \<in> set (data_deleted d))) fs
             (d\<lparr>data_values := bm_remove key (data_values d), data_deleted := bs_remove key (data_deleted d)\<rparr>))
           (\<lambda>d'. Inr (Some d')))"

fun rule_deletions :: "('z) codec_scheme \<Rightarrow> Rule \<Rightarrow> Data \<Rightarrow> Data res" where
  "rule_deletions c (SplitRecords key pre identity) d =
     rfold (\<lambda>(encoded, _) d.
       case scope_of c encoded of
         None \<Rightarrow> Inl Foreign
       | Some (k, path) \<Rightarrow>
           Inr (if starts_with k pre \<and> path = [] \<and> \<not> bm_mem (data_values d) k
                then d\<lparr>data_deleted := bs_insert k (data_deleted d)\<rparr> else d)) (data_versions d) d"
| "rule_deletions c (SplitObject key fs) d =
     Inr (foldl (\<lambda>d (_, destination).
       if \<not> bm_mem (data_values d) destination \<and> bm_mem (data_versions d) (scope_str c (destination, []))
       then d\<lparr>data_deleted := bs_insert destination (data_deleted d)\<rparr> else d) d fs)"
| "rule_deletions c _ d = Inr d"

definition rule_data :: "('z) codec_scheme \<Rightarrow> Rule \<Rightarrow> Data \<Rightarrow> Data res" where
  "rule_data c rule d =
     rbind (rule_values c rule d) (\<lambda>changed.
       case changed of
         None \<Rightarrow> Inr d
       | Some d1 \<Rightarrow>
           rbind (rule_scopes c rule keep_newer (data_versions d1)) (\<lambda>versions.
           rbind (rule_scopes c rule (@) (data_additions d1)) (\<lambda>additions.
           rule_deletions c rule (d1\<lparr>data_versions := versions, data_additions := additions\<rparr>))))"

text \<open>One edit of \<open>Rule::transaction\<close>; patches have been expanded before.\<close>

fun rename_root :: "Rule \<Rightarrow> edit \<Rightarrow> edit res" where
  "rename_root (RenameField key from to) (Set base path v) =
     (if base = key \<and> path = [] then rbind (rename_field from to v) (\<lambda>v'. Inr (Set base path v'))
      else Inr (Set base path v))"
| "rename_root _ e = Inr e"

definition with_scope :: "edit \<Rightarrow> scope \<Rightarrow> edit" where
  "with_scope e s = (case e of
     Set _ _ v \<Rightarrow> Set (fst s) (snd s) v
   | Delete _ _ \<Rightarrow> Delete (fst s) (snd s)
   | Increment _ _ delta \<Rightarrow> Increment (fst s) (snd s) delta
   | _ \<Rightarrow> e)"

definition edit_value :: "edit \<Rightarrow> json option" where
  "edit_value e = (case e of Set _ _ v \<Rightarrow> Some v | _ \<Rightarrow> None)"

definition is_increment :: "edit \<Rightarrow> bool" where
  "is_increment e = (case e of Increment _ _ _ \<Rightarrow> True | _ \<Rightarrow> False)"

fun split_root :: "Rule \<Rightarrow> edit \<Rightarrow> edit list option res" where
  "split_root (SplitRecords key pre identity) e =
     (if edit_key e = key \<and> edit_path e = [] then
        (case e of
           Set _ _ v \<Rightarrow> rbind (record_values identity v) (\<lambda>records. Inr (Some [ReplaceRecords pre records]))
         | Delete _ _ \<Rightarrow> Inr (Some [ReplaceRecords pre []])
         | _ \<Rightarrow> Inl (Err ''Record split requires an array assignment or deletion''))
      else Inr None)"
| "split_root (SplitObject key fs) e =
     (if edit_key e = key \<and> edit_path e = [] then
        rbind (validate_split key fs) (\<lambda>_.
          if (case edit_value e of Some v \<Rightarrow> \<not> is_object v | None \<Rightarrow> False) \<or> is_increment e
          then Inl (Err ''Split root requires an object assignment or deletion'')
          else Inr (Some (map (\<lambda>(field, destination).
            case Option.bind (edit_value e) (\<lambda>v. json_get v field) of
              Some x \<Rightarrow> Set destination [] x | None \<Rightarrow> Delete destination []) fs)))
      else Inr None)"
| "split_root _ e = Inr None"

definition rule_edit :: "Rule \<Rightarrow> edit \<Rightarrow> edit list res" where
  "rule_edit rule source =
     rbind (rename_root rule source) (\<lambda>e.
       case e of
         ReplaceRecords _ _ \<Rightarrow> Inr [e]
       | Patch _ _ _ \<Rightarrow> Inl (Panic ''unreachable'')
       | _ \<Rightarrow>
           rbind (split_root rule e) (\<lambda>split.
             case split of
               Some es \<Rightarrow> Inr es
             | None \<Rightarrow> rbind (rule_scope rule (edit_key e) (edit_path e)) (\<lambda>ss. Inr (map (with_scope e) ss))))"

definition rule_edits :: "Rule \<Rightarrow> edit list \<Rightarrow> edit list res" where
  "rule_edits rule es = rbind (rmap (rule_edit rule) (concat (map expand_patch es))) (\<lambda>ess. Inr (concat ess))"

definition rule_transaction :: "Rule \<Rightarrow> Transaction \<Rightarrow> Transaction res" where
  "rule_transaction rule t = rbind (rule_edits rule (tx_edits t)) (\<lambda>es. Inr (t\<lparr>tx_edits := es\<rparr>))"

record Migrations =
  mig_owners :: "(string, Owner) bmap"
  mig_layouts :: "(string, string) bmap"
  mig_formats :: "(string \<times> nat, Rule list) bmap"

text \<open>The loop of \<open>resolve_path\<close>; every iteration visits a new key of the route table.\<close>

function resolve_from :: "(string, string) bmap \<Rightarrow> string list \<Rightarrow> string \<Rightarrow> string res" where
  "resolve_from routes visited target =
     (case map_of routes target of
        None \<Rightarrow> Inr target
      | Some next_path \<Rightarrow>
          if target \<in> set visited then Inl (Err ''Layout migration cycle'')
          else resolve_from routes (target # visited) next_path)"
  by pat_completeness auto
termination
proof (relation "measure (\<lambda>(routes, visited, target). card (fst ` set routes - set visited))", goal_cases)
  case (2 routes visited target next_path)
  then have "target \<in> fst ` set routes - set visited" by (force dest: map_of_SomeD)
  then have "fst ` set routes - set (target # visited) \<subset> fst ` set routes - set visited" by auto
  then have "card (fst ` set routes - set (target # visited)) < card (fst ` set routes - set visited)"
    by (intro psubset_card_mono) auto
  then show ?case by simp
qed simp

declare resolve_from.simps [simp del]

definition resolve_path :: "(string, string) bmap \<Rightarrow> string \<Rightarrow> string res" where
  "resolve_path routes path = resolve_from routes [] path"

fun format_steps :: "Migrations \<Rightarrow> string \<Rightarrow> nat list \<Rightarrow> Rule list res" where
  "format_steps m path [] = Inr []"
| "format_steps m path (v # vs) =
     rbind (ok_or (Err ''Missing format migration'') (map_of (mig_formats m) (path, v))) (\<lambda>rules.
     rbind (format_steps m path vs) (\<lambda>rest. Inr (rules @ rest)))"

definition migration_steps :: "Migrations \<Rightarrow> Owner \<Rightarrow> (Owner \<times> Rule list) res" where
  "migration_steps m source =
     rbind (resolve_path (mig_layouts m) (owner_path source)) (\<lambda>path.
     rbind (ok_or (Err (''Pending layout owner: '' @ path)) (map_of (mig_owners m) path)) (\<lambda>current.
       if owner_format current < owner_format source \<or> owner_layout current < owner_layout source
       then Inl (Err ''Pending future layout/format'')
       else rbind (format_steps m path [owner_format source ..< owner_format current])
         (\<lambda>rules. Inr (current, rules))))"

definition migrate_data :: "('z) codec_scheme \<Rightarrow> Migrations \<Rightarrow> Data \<Rightarrow> Data res" where
  "migrate_data c m d =
     rbind (migration_steps m (data_owner d)) (\<lambda>(own, rules).
     rbind (rfold (rule_data c) rules d) (\<lambda>staged.
     rbind (relocate (owner_path own) staged) (\<lambda>moved.
     Inr (moved\<lparr>data_owner := own\<rparr>))))"

definition migrate_transaction :: "Migrations \<Rightarrow> Transaction \<Rightarrow> Transaction res" where
  "migrate_transaction m t =
     (case tx_target t of
        TTransaction _ \<Rightarrow> Inr t
      | TData source \<Rightarrow>
          rbind (migration_steps m source) (\<lambda>(own, rules).
          rbind (rfold rule_transaction rules t) (\<lambda>staged.
          Inr (staged\<lparr>tx_target := TData own\<rparr>))))"

section \<open>Layout routes\<close>

definition route_step :: "(string, string) bmap \<Rightarrow> string \<Rightarrow> string \<Rightarrow> bool" where
  "route_step routes a b \<longleftrightarrow> map_of routes a = Some b"

lemma resolve_from_correct:
  assumes "\<forall>v \<in> set visited. (route_step routes)\<^sup>+\<^sup>+ v target"
  shows "case resolve_from routes visited target of
      Inr q \<Rightarrow> (route_step routes)\<^sup>*\<^sup>* target q \<and> map_of routes q = None
    | Inl e \<Rightarrow> \<exists>r. (route_step routes)\<^sup>*\<^sup>* target r \<and> (route_step routes)\<^sup>+\<^sup>+ r r"
  using assms
proof (induction routes visited target rule: resolve_from.induct)
  case (1 routes visited target)
  show ?case
  proof (cases "map_of routes target")
    case None
    then show ?thesis by (simp add: resolve_from.simps)
  next
    case (Some n)
    then have step: "route_step routes target n" by (simp add: route_step_def)
    show ?thesis
    proof (cases "target \<in> set visited")
      case True
      with 1(2) Some show ?thesis by (auto simp: resolve_from.simps)
    next
      case False
      have "\<forall>v \<in> set (target # visited). (route_step routes)\<^sup>+\<^sup>+ v n"
        using 1(2) step by (auto intro: tranclp.trancl_into_trancl)
      from 1(1) [OF Some False this] step False Some show ?thesis
        by (subst resolve_from.simps) (auto split: sum.splits intro: converse_rtranclp_into_rtranclp)
    qed
  qed
qed

text \<open>\<open>resolve_path\<close> always returns: with the end of the chain of layout routes that starts
  at the path, or with an error when the chain runs into a cycle.\<close>

theorem resolve_path_correct:
  "case resolve_path routes p of
     Inr q \<Rightarrow> (route_step routes)\<^sup>*\<^sup>* p q \<and> map_of routes q = None
   | Inl e \<Rightarrow> \<exists>r. (route_step routes)\<^sup>*\<^sup>* p r \<and> (route_step routes)\<^sup>+\<^sup>+ r r"
  unfolding resolve_path_def by (rule resolve_from_correct) simp

lemma resolve_path_end:
  assumes "resolve_path routes p = Inr q"
  shows "map_of routes q = None"
  using resolve_from_correct [of "[]" routes p] assms by (simp add: resolve_path_def)

lemma resolve_path_fixed: "map_of routes q = None \<Longrightarrow> resolve_path routes q = Inr q"
  by (simp add: resolve_path_def resolve_from.simps)

section \<open>Migrating twice\<close>

lemma bm_insert_last: "\<forall>k \<in> fst ` set m. k < key \<Longrightarrow> bm_insert key v m = m @ [(key, v)]"
  by (induction m) auto

lemma relocate_aliases_same:
  assumes "bm_wf (acc @ xs)"
  shows "relocate_aliases (path @ unit_separator) path xs acc = Inr (acc @ xs)"
  using assms
proof (induction xs arbitrary: acc)
  case (Cons x xs)
  obtain key v where x: "x = (key, v)" by force
  have key: "(case strip_prefix key (path @ unit_separator) of Some i \<Rightarrow> path @ unit_separator @ i | None \<Rightarrow> key) = key"
    by (auto simp: strip_prefix_Some split: option.splits)
  from Cons.prems x have less: "\<forall>k \<in> fst ` set acc. k < key"
    by (auto simp: bm_wf_def sorted_wrt_append)
  then have "map_of acc key = None" by (force simp: map_of_eq_None_iff)
  with Cons.IH [of "acc @ [x]"] Cons.prems bm_insert_last [OF less, of v] key show ?case
    by (simp add: x)
qed simp

lemma relocate_aliases_wf: "relocate_aliases old path xs acc = Inr as \<Longrightarrow> bm_wf acc \<Longrightarrow> bm_wf as"
  by (induction old path xs acc arbitrary: as rule: relocate_aliases.induct)
    (auto simp: Let_def split: if_splits option.splits)

lemma migrate_data_result:
  assumes "migrate_data c m d = Inr d'"
  obtains p rules where "resolve_path (mig_layouts m) (owner_path (data_owner d)) = Inr p"
    and "map_of (mig_owners m) p = Some (data_owner d')" and "bm_wf (data_aliases d')"
  using assms
  by (force simp: migrate_data_def migration_steps_def relocate_def dest: relocate_aliases_wf split: if_splits)

definition owners_ok :: "Migrations \<Rightarrow> bool" where
  "owners_ok m \<longleftrightarrow> (\<forall>(p, own) \<in> set (mig_owners m). owner_path own = p)"

text \<open>A migrated dataset is current: migrating it again changes nothing.\<close>

theorem migrate_data_idempotent:
  assumes "migrate_data c m d = Inr d'" and "owners_ok m"
  shows "migrate_data c m d' = Inr d'"
proof -
  obtain p where p: "resolve_path (mig_layouts m) (owner_path (data_owner d)) = Inr p"
    and own: "map_of (mig_owners m) p = Some (data_owner d')" and wf: "bm_wf (data_aliases d')"
    by (rule migrate_data_result [OF assms(1)])
  from own assms(2) have path: "owner_path (data_owner d') = p"
    by (auto simp: owners_ok_def dest: map_of_SomeD)
  from resolve_path_end [OF p] have "resolve_path (mig_layouts m) p = Inr p" by (rule resolve_path_fixed)
  with own path have "migration_steps m (data_owner d') = Inr (data_owner d', [])"
    by (simp add: migration_steps_def)
  moreover have "relocate (owner_path (data_owner d')) d' = Inr d'"
    using relocate_aliases_same [of "[]" "data_aliases d'"] wf by (simp add: relocate_def)
  ultimately show ?thesis by (simp add: migrate_data_def)
qed

lemma migrate_transaction_target:
  assumes "migrate_transaction m t = Inr t'" and "tx_target t = TData source"
  obtains p own where "resolve_path (mig_layouts m) (owner_path source) = Inr p"
    and "map_of (mig_owners m) p = Some own" and "tx_target t' = TData own"
  using assms by (force simp: migrate_transaction_def migration_steps_def split: if_splits)

text \<open>a transaction and a dataset whose paths lead to the same layout, migrated by the same
  migrations, are ready for each other: \<open>apply\<close> does not refuse the transaction's owner.\<close>

theorem migrated_transaction_ready:
  assumes "migrate_data c m d = Inr d'" and "migrate_transaction m t = Inr t'"
    and "tx_target t = TData source"
    and "resolve_path (mig_layouts m) (owner_path source) = resolve_path (mig_layouts m) (owner_path (data_owner d))"
  shows "tx_target t' = TData (data_owner d')"
proof -
  obtain p own where p: "resolve_path (mig_layouts m) (owner_path source) = Inr p"
    "map_of (mig_owners m) p = Some own" "tx_target t' = TData own"
    by (rule migrate_transaction_target [OF assms(2,3)])
  obtain q where q: "resolve_path (mig_layouts m) (owner_path (data_owner d)) = Inr q"
    and "map_of (mig_owners m) q = Some (data_owner d')"
    by (rule migrate_data_result [OF assms(1)])
  with p assms(4) show ?thesis by simp
qed

section \<open>Renaming a key commutes with replay\<close>



















section \<open>Witnesses\<close>

definition sample_current :: Owner where
  "sample_current = \<lparr>owner_backend = DataStore, owner_path = ''settings'', owner_format = 2, owner_layout = 1\<rparr>"

definition sample_migrations :: Migrations where
  "sample_migrations = \<lparr>mig_owners = [(''settings'', sample_current)],
     mig_layouts = [(''prefs'', ''settings'')],
     mig_formats = [((''settings'', 1), [RenameKey ''x'' ''z''])]\<rparr>"

definition sample_source :: Data where
  "sample_source = (Data_empty sample_owner)\<lparr>data_values := [(''x'', JInt 1)], data_deleted := [''y''],
     data_aliases := [(''prefs'' @ unit_separator @ ''a'', ''b'')],
     data_versions := [(scope_str tagged_codec (''x'', []), Revision 1 ''A'' 1)]\<rparr>"

definition sample_migrated :: Data where
  "sample_migrated = (Data_empty sample_current)\<lparr>data_values := [(''z'', JInt 1)], data_deleted := [''y''],
     data_aliases := [(''settings'' @ unit_separator @ ''a'', ''b'')],
     data_versions := [(scope_str tagged_codec (''z'', []), Revision 1 ''A'' 1)]\<rparr>"

lemma sample_migration: "migrate_data tagged_codec sample_migrations sample_source = Inr sample_migrated"
  by code_simp

theorem migrate_data_idempotent_witness:
  "migrate_data tagged_codec sample_migrations sample_migrated = Inr sample_migrated"
  by (rule migrate_data_idempotent [OF sample_migration])
    (simp add: owners_ok_def sample_migrations_def sample_current_def)

theorem migrated_transaction_ready_witness:
  "\<exists>t'. migrate_transaction sample_migrations tx_a = Inr t' \<and> tx_target t' = TData (data_owner sample_migrated)"
proof -
  have "\<not> isl (migrate_transaction sample_migrations tx_a)" by code_simp
  from not_isl_Inr [OF this] obtain t' where t': "migrate_transaction sample_migrations tx_a = Inr t'" by blast
  have "tx_target t' = TData (data_owner sample_migrated)"
    by (rule migrated_transaction_ready [OF sample_migration t', of sample_owner])
      (simp_all add: tx_a_def sample_tx_def sample_source_def Data_empty_def)
  with t' show ?thesis by blast
qed


text \<open>Renaming a deleted key onto a present one leaves the destination present and marked deleted.\<close>

theorem rename_onto_present_key:
  "\<exists>d. rule_data c (RenameKey ''a'' ''b'') ((Data_empty own)\<lparr>data_values := [(''b'', JNull)], data_deleted := [''a'']\<rparr>) = Inr d
     \<and> map_of (data_values d) ''b'' = Some JNull \<and> ''b'' \<in> set (data_deleted d)"
  by (simp add: rule_data_def rule_scopes_def Data_empty_def bm_mem_def Let_def)

end
