(* ===== verification/History_Replay.thy ===== *)
theory History_Replay
  imports Migration_Rules
begin

text \<open>
  Histories of immutable transactions, their higher-order effective form, the replay that
  materializes a dataset, snapshots and their comparison (\<open>History\<close>, \<open>Replay\<close>, \<open>Snapshot\<close>,
  \<open>Manifest\<close> and \<open>compare\<close> in \<open>Transaction.rs\<close>).

  \<open>serial\<close> adds to the scope codec what else \<open>serde_json\<close> and SHA-256 do here: the JSON form of a
  list of edits and the digests of a snapshot, of its values and of a baseline.
\<close>

section \<open>Definitions\<close>

record serial = codec +
  edits_to_value :: "edit list \<Rightarrow> json res"
  edits_from_value :: "json \<Rightarrow> edit list res"

type_synonym History = "(string, Transaction) bmap"

definition History_insert :: "Transaction \<Rightarrow> History \<Rightarrow> History res" where
  "History_insert t h =
     (if tx_id t = [] then Inl (Err ''Empty transaction identity'')
      else case map_of h (tx_id t) of
        Some previous \<Rightarrow> rbind (verify_original (tx_id t) previous t) (\<lambda>_. Inr h)
      | None \<Rightarrow> Inr (bm_insert (tx_id t) t h))"

definition originals :: "History \<Rightarrow> Transaction list" where
  "originals h = map snd h"

text \<open>One higher-order change of \<open>effective\<close>: the view is the JSON form of the edits.\<close>

definition apply_change :: "('z) serial_scheme \<Rightarrow> Transaction \<Rightarrow> vals \<times> Transaction \<Rightarrow> (vals \<times> Transaction) res" where
  "apply_change c change st =
     rbind (rfold (\<lambda>e staged.
              if edit_key e \<noteq> ''edits'' then Inl (Err ''Transaction metadata is immutable'')
              else apply_values e staged) (tx_edits change) (fst st)) (\<lambda>staged.
     rbind (ok_or (Err ''Transaction edits are missing'') (map_of staged ''edits'')) (\<lambda>v.
     rbind (edits_from_value c v) (\<lambda>es.
     Inr (staged, (snd st)\<lparr>tx_edits := es\<rparr>))))"

lemma unvisited_decreases:
  assumes "map_of h i = Some t" and "i \<notin> set visiting"
  shows "card (fst ` set h - set (i # visiting)) < card (fst ` set h - set visiting)"
proof -
  have "i \<in> fst ` set h" using assms(1) by (force dest: map_of_SomeD)
  with assms(2) have "fst ` set h - set (i # visiting) \<subset> fst ` set h - set visiting" by auto
  then show ?thesis by (intro psubset_card_mono) auto
qed

text \<open>
  The set \<open>visiting\<close> holds the identities on the current branch of the recursion (each call
  removes its own again), so the recursion is bounded by the identities of the history.
\<close>

function effective :: "('z) serial_scheme \<Rightarrow> History \<Rightarrow> string list \<Rightarrow> string \<Rightarrow> Transaction res" where
  "effective c h visiting i =
     (if i \<in> set visiting then Inl (Err ''Higher-order transaction dependency cycle'')
      else case map_of h i of
        None \<Rightarrow> Inl (Err ''Pending transaction target'')
      | Some original \<Rightarrow>
          rbind (rmap (\<lambda>t. effective c h (i # visiting) (tx_id t))
                   (filter (\<lambda>t. tx_target t = TTransaction i) (originals h))) (\<lambda>changes.
          rbind (ordered tx_id tx_revision changes) (\<lambda>sorted_changes.
          rbind (edits_to_value c (tx_edits original)) (\<lambda>v.
          rbind (rfold (apply_change c) sorted_changes ([(''edits'', v)], original)) (\<lambda>st.
          Inr (snd st))))))"
  by pat_completeness auto
termination
  by (relation "measure (\<lambda>(c, h, visiting, i). card (fst ` set h - set visiting))")
    (auto dest: unvisited_decreases)

declare effective.simps [simp del]

function root_from :: "History \<Rightarrow> string list \<Rightarrow> string \<Rightarrow> string res" where
  "root_from h visited i =
     (if i \<in> set visited then Inl (Err ''Higher-order transaction dependency cycle'')
      else case map_of h i of
        None \<Rightarrow> Inl (Err ''Pending transaction target'')
      | Some t \<Rightarrow> (case tx_target t of
          TData _ \<Rightarrow> Inr i
        | TTransaction target \<Rightarrow> root_from h (i # visited) target))"
  by pat_completeness auto
termination
  by (relation "measure (\<lambda>(h, visited, i). card (fst ` set h - set visited))")
    (auto dest: unvisited_decreases)

declare root_from.simps [simp del]

definition History_root :: "History \<Rightarrow> string \<Rightarrow> string res" where
  "History_root h i = root_from h [] i"

record Replay =
  replay_data :: Data
  replay_applied :: "string bset"
  replay_pending :: "(string, fault) bmap"

text \<open>The first loop of \<open>materialize\<close>: effective transactions of the dataset, and failures.\<close>

definition select :: "('z) serial_scheme \<Rightarrow> Migrations \<Rightarrow> History \<Rightarrow> Owner \<Rightarrow> Transaction \<Rightarrow>
    Transaction list \<times> (string, fault) bmap \<Rightarrow> (Transaction list \<times> (string, fault) bmap) res" where
  "select c m h own original st =
     (case tx_target original of
        TTransaction _ \<Rightarrow>
          (case History_root h (tx_id original) of
             Inl e \<Rightarrow> Inr (fst st, bm_insert (tx_id original) e (snd st))
           | Inr _ \<Rightarrow> Inr st)
      | TData _ \<Rightarrow>
          rbind (attempt (rbind (effective c h [] (tx_id original)) (migrate_transaction m))) (\<lambda>result.
          Inr (case result of
            Inr t \<Rightarrow> if tx_target t = TData own then (fst st @ [t], snd st) else st
          | Inl e \<Rightarrow> (fst st, bm_insert (tx_id original) e (snd st)))))"

text \<open>The second loop: apply in order; a failed transaction stays pending.\<close>

definition apply_effective :: "('z) serial_scheme \<Rightarrow> History \<Rightarrow> Transaction \<Rightarrow> Replay \<Rightarrow> Replay res" where
  "apply_effective c h t r =
     rbind (attempt (Data_apply c t (replay_data r))) (\<lambda>result.
     Inr (case result of
       Inr d \<Rightarrow> r\<lparr>replay_data := d, replay_applied :=
         bs_extend (replay_applied r)
           (map tx_id (filter (\<lambda>original. History_root h (tx_id original) = Inr (tx_id t)) (originals h)))\<rparr>
     | Inl e \<Rightarrow> r\<lparr>replay_pending := bm_insert (tx_id t) e (replay_pending r)\<rparr>))"

definition materialize :: "('z) serial_scheme \<Rightarrow> Migrations \<Rightarrow> History \<Rightarrow> Data \<Rightarrow> Replay res" where
  "materialize c m h baseline =
     rbind (migrate_data c m baseline) (\<lambda>d.
     rbind (rfold (select c m h (data_owner d)) (originals h) ([], [])) (\<lambda>(transactions, pending).
     rbind (ordered tx_id tx_revision transactions) (\<lambda>sorted_transactions.
     rfold (apply_effective c h) sorted_transactions
       \<lparr>replay_data = d, replay_applied = [], replay_pending = pending\<rparr>)))"

record Snapshot =
  snap_node :: string
  snap_data :: Data
  snap_covered :: "string bset"
  snap_generation :: nat

text \<open>SHA-256 of the serialized snapshot, of its values and of a baseline.\<close>

record digests =
  snapshot_digest :: "Snapshot \<Rightarrow> string res"
  values_digest :: "vals \<Rightarrow> string res"
  baseline_pair_digest :: "Data \<times> string bset \<Rightarrow> string res"

definition token :: "digests \<Rightarrow> Snapshot \<Rightarrow> string res" where
  "token h s = snapshot_digest h s"

definition content_digest :: "digests \<Rightarrow> Snapshot \<Rightarrow> string res" where
  "content_digest h s = values_digest h (data_values (snap_data s))"

definition projected_content_digest :: "digests \<Rightarrow> (string \<Rightarrow> json \<Rightarrow> json option res) \<Rightarrow> Snapshot \<Rightarrow> string res" where
  "projected_content_digest h project s =
     rbind (rmap (\<lambda>(name, v). rbind (project name v) (\<lambda>p.
              Inr (name, case p of Some projected \<Rightarrow> projected | None \<Rightarrow> v))) (data_values (snap_data s)))
       (values_digest h)"

definition baseline_digest :: "digests \<Rightarrow> Snapshot \<Rightarrow> string res" where
  "baseline_digest h s = baseline_pair_digest h (snap_data s, snap_covered s)"

definition u64_max :: nat where "u64_max = 18446744073709551615"

definition replace_snapshot :: "digests \<Rightarrow> string \<Rightarrow> Snapshot \<Rightarrow> Snapshot \<Rightarrow> (bool \<times> Snapshot) res" where
  "replace_snapshot h expected source s =
     rbind (token h s) (\<lambda>current.
       if current \<noteq> expected then Inr (False, s)
       else if data_owner (snap_data s) \<noteq> data_owner (snap_data source)
       then Inl (Err ''Snapshot owners or migrations differ'')
       else if snap_generation s + 1 > u64_max then Inl (Err ''Snapshot generation overflow'')
       else Inr (True, s\<lparr>snap_data := snap_data source,
              snap_covered := bs_extend (snap_covered s) (snap_covered source),
              snap_generation := snap_generation s + 1\<rparr>))"

definition snapshot_replay :: "('z) serial_scheme \<Rightarrow> Migrations \<Rightarrow> History \<Rightarrow> Snapshot \<Rightarrow> Replay res" where
  "snapshot_replay c m h s =
     rbind (rfold History_insert (filter (\<lambda>t. tx_id t \<notin> set (snap_covered s)) (originals h)) [])
       (\<lambda>uncovered. materialize c m uncovered (snap_data s))"

record Manifest =
  man_owner :: Owner
  man_node :: string
  man_revision :: "revision option"
  man_token :: string
  man_digest :: string

datatype Source = Equal | Local | Remote

text \<open>The derived order of a pair of an optional revision and a node name.\<close>

fun later_or_same :: "revision option \<times> string \<Rightarrow> revision option \<times> string \<Rightarrow> bool" where
  "later_or_same (None, n) (None, m) \<longleftrightarrow> m \<le> n"
| "later_or_same (None, n) (Some _, m) \<longleftrightarrow> False"
| "later_or_same (Some _, n) (None, m) \<longleftrightarrow> True"
| "later_or_same (Some r, n) (Some q, m) \<longleftrightarrow> q < r \<or> (q = r \<and> m \<le> n)"

definition compare_manifests :: "Manifest \<Rightarrow> Manifest \<Rightarrow> Source res" where
  "compare_manifests l r =
     (if man_owner l \<noteq> man_owner r then Inl (Err ''Snapshots are not at the same format/layout'')
      else if man_digest l = man_digest r then Inr Equal
      else Inr (if later_or_same (man_revision l, man_node l) (man_revision r, man_node r)
                then Local else Remote))"

definition manifest_with_digest :: "digests \<Rightarrow> string \<Rightarrow> Snapshot \<Rightarrow> Manifest res" where
  "manifest_with_digest h dg s =
     rbind (token h s) (\<lambda>tok. Inr \<lparr>man_owner = data_owner (snap_data s), man_node = snap_node s,
       man_revision = data_revision (snap_data s), man_token = tok, man_digest = dg\<rparr>)"

definition manifest :: "digests \<Rightarrow> Snapshot \<Rightarrow> Manifest res" where
  "manifest h s = rbind (content_digest h s) (\<lambda>dg. manifest_with_digest h dg s)"

record Correction =
  cor_source :: Snapshot
  cor_local_token :: string
  cor_remote_token :: string

definition compare_snapshots :: "digests \<Rightarrow> Snapshot \<Rightarrow> Snapshot \<Rightarrow> Correction option res" where
  "compare_snapshots h l r =
     rbind (manifest h l) (\<lambda>lm. rbind (manifest h r) (\<lambda>rm.
     rbind (compare_manifests lm rm) (\<lambda>which.
       if which = Equal then Inr None
       else let chosen = (if which = Local then l else r);
                source = chosen\<lparr>snap_covered :=
                  bs_extend (snap_covered chosen) (snap_covered l @ snap_covered r)\<rparr>
         in rbind (token h l) (\<lambda>lt. rbind (token h r) (\<lambda>rt.
            Inr (Some \<lparr>cor_source = source, cor_local_token = lt, cor_remote_token = rt\<rparr>))))))"

section \<open>Histories as sets of originals\<close>

lemma rfold_History_insert:
  assumes "\<forall>t \<in> set ts. tx_id t \<noteq> []"
  shows "rfold History_insert ts h = unique_items tx_id ts h"
  using assms
  by (induction ts arbitrary: h) (auto simp: History_insert_def rbind_assoc split: option.splits)

lemma History_insert_nonempty: "rfold History_insert ts h = Inr h' \<Longrightarrow> \<forall>t \<in> set ts. tx_id t \<noteq> []"
  by (induction ts arbitrary: h) (auto simp: History_insert_def split: if_splits)

text \<open>A history is the set of the originals it received.  Two replicas that inserted the
  same transactions in any order and any number of times hold the same history, so every view
  derived from it is the same on both.\<close>

theorem history_order_independent:
  assumes "rfold History_insert ts [] = Inr h" and "set us = set ts"
  shows "rfold History_insert us [] = Inr h"
proof -
  from History_insert_nonempty [OF assms(1)] assms(2) have ids: "\<forall>t \<in> set ts. tx_id t \<noteq> []" "\<forall>t \<in> set us. tx_id t \<noteq> []"
    by auto
  from assms(1) rfold_History_insert [OF ids(1)] have "unique_items tx_id ts [] = Inr h" by simp
  from unique_items_set_cong [OF this assms(2) [symmetric]] rfold_History_insert [OF ids(2)]
  show ?thesis by simp
qed

definition history_ok :: "History \<Rightarrow> bool" where
  "history_ok h \<longleftrightarrow> by_ident tx_id h \<and> (\<forall>t \<in> set (originals h). tx_id t \<noteq> [])"

lemma history_ok_insert:
  assumes "history_ok h" and "History_insert t h = Inr h'"
  shows "history_ok h'"
  using assms set_bm_insert_subset [of "tx_id t" t h] by_ident_insert [of tx_id h t]
  by (auto simp: history_ok_def History_insert_def originals_def split: if_splits option.splits)

lemma history_id: "history_ok h \<Longrightarrow> (i, t) \<in> set h \<Longrightarrow> tx_id t = i"
  by (auto simp: history_ok_def by_ident_def)

lemma reinsert_sorted:
  assumes "history_ok (acc @ xs)"
  shows "rfold History_insert (map snd xs) acc = Inr (acc @ xs)"
  using assms
proof (induction xs arbitrary: acc)
  case (Cons x xs)
  obtain i t where x: "x = (i, t)" by force
  from Cons.prems x have i: "tx_id t = i" "i \<noteq> []"
    by (auto simp: history_ok_def by_ident_def originals_def)
  from Cons.prems x have less: "\<forall>k \<in> fst ` set acc. k < i"
    by (auto simp: history_ok_def by_ident_def bm_wf_def sorted_wrt_append)
  then have "map_of acc i = None" by (force simp: map_of_eq_None_iff)
  with Cons.IH [of "acc @ [x]"] Cons.prems i bm_insert_last [OF less, of t] x show ?case
    by (simp add: History_insert_def)
qed simp

lemma history_ok_retain: "history_ok h \<Longrightarrow> history_ok (bm_retain P h)"
  by (auto simp: history_ok_def by_ident_def originals_def bm_retain_def bm_wf_filter)

lemma filter_originals:
  assumes "history_ok h"
  shows "filter (\<lambda>t. tx_id t \<notin> X) (originals h) = map snd (bm_retain (\<lambda>i _. i \<notin> X) h)"
  using assms unfolding originals_def bm_retain_def filter_map
  by (auto intro!: arg_cong [of _ _ "map snd"] filter_cong dest: history_id)

text \<open>Replaying a history over a snapshot is exactly the materialization of the transactions
  the snapshot does not cover: rebuilding that history never fails, and an original that a
  correction covers has no influence on the result.\<close>

theorem snapshot_replay_uncovered:
  assumes "history_ok h"
  shows "snapshot_replay c m h s =
    materialize c m (bm_retain (\<lambda>i _. i \<notin> set (snap_covered s)) h) (snap_data s)"
  using reinsert_sorted [of "[]" "bm_retain (\<lambda>i _. i \<notin> set (snap_covered s)) h"]
    history_ok_retain [OF assms]
  by (simp add: snapshot_replay_def filter_originals [OF assms])

section \<open>Roots of higher-order transactions\<close>

definition targets :: "History \<Rightarrow> string \<Rightarrow> string \<Rightarrow> bool" where
  "targets h i j \<longleftrightarrow> (\<exists>t. map_of h i = Some t \<and> tx_target t = TTransaction j)"

definition is_data :: "History \<Rightarrow> string \<Rightarrow> bool" where
  "is_data h i \<longleftrightarrow> (\<exists>t own. map_of h i = Some t \<and> tx_target t = TData own)"

lemma root_from_correct:
  assumes "\<forall>v \<in> set visited. (targets h)\<^sup>+\<^sup>+ v i"
  shows "case root_from h visited i of
      Inr q \<Rightarrow> (targets h)\<^sup>*\<^sup>* i q \<and> is_data h q
    | Inl e \<Rightarrow> \<exists>r. (targets h)\<^sup>*\<^sup>* i r \<and> (map_of h r = None \<or> (targets h)\<^sup>+\<^sup>+ r r)"
  using assms
proof (induction h visited i rule: root_from.induct)
  case (1 h visited i)
  show ?case
  proof (cases "i \<in> set visited")
    case True
    with 1(2) show ?thesis by (auto simp: root_from.simps)
  next
    case fresh: False
    show ?thesis
    proof (cases "map_of h i")
      case None
      with fresh show ?thesis by (auto simp: root_from.simps)
    next
      case (Some t)
      show ?thesis
      proof (cases "tx_target t")
        case (TData own)
        with Some fresh show ?thesis by (auto simp: root_from.simps is_data_def)
      next
        case (TTransaction j)
        with Some have step: "targets h i j" by (auto simp: targets_def)
        then have "\<forall>v \<in> set (i # visited). (targets h)\<^sup>+\<^sup>+ v j"
          using 1(2) by (auto intro: tranclp.trancl_into_trancl)
        from 1(1) [OF fresh Some TTransaction this] step fresh Some TTransaction show ?thesis
          by (subst root_from.simps) (auto split: sum.splits intro: converse_rtranclp_into_rtranclp)
      qed
    qed
  qed
qed

text \<open>The root of a transaction is found by following its targets to the transaction that
  edits data; the search always ends, and fails only at a missing target or a cycle.\<close>

theorem History_root_correct:
  "case History_root h i of
     Inr q \<Rightarrow> (targets h)\<^sup>*\<^sup>* i q \<and> is_data h q
   | Inl e \<Rightarrow> \<exists>r. (targets h)\<^sup>*\<^sup>* i r \<and> (map_of h r = None \<or> (targets h)\<^sup>+\<^sup>+ r r)"
  unfolding History_root_def by (rule root_from_correct) simp

section \<open>Accounting of a replay\<close>

lemma apply_change_id: "apply_change c t st = Inr st' \<Longrightarrow> tx_id (snd st') = tx_id (snd st)"
  by (auto simp: apply_change_def)

lemma effective_id:
  assumes "effective c h visiting i = Inr t" and "history_ok h"
  shows "tx_id t = i"
proof -
  from assms(1) obtain original v changes st where o: "map_of h i = Some original"
    and st: "rfold (apply_change c) changes ([(''edits'', v)], original) = Inr st" "t = snd st"
    by (auto simp: effective.simps [of c h visiting i] split: if_splits option.splits)
  have "tx_id (snd st) = tx_id original"
    by (rule rfold_invariant [OF st(1), where P = "\<lambda>st. tx_id (snd st) = tx_id original"])
      (auto dest: apply_change_id)
  with o st(2) history_id [OF assms(2)] show ?thesis by (auto dest: map_of_SomeD)
qed

lemma rule_transaction_id: "rule_transaction rule t = Inr t' \<Longrightarrow> tx_id t' = tx_id t"
  by (auto simp: rule_transaction_def)

lemma migrate_transaction_id:
  assumes "migrate_transaction m t = Inr t'"
  shows "tx_id t' = tx_id t"
proof (cases "tx_target t")
  case (TData own)
  with assms obtain rules staged where r: "rfold rule_transaction rules t = Inr staged" "tx_id t' = tx_id staged"
    by (auto simp: migrate_transaction_def)
  have "tx_id staged = tx_id t"
    by (rule rfold_invariant [OF r(1), where P = "\<lambda>s. tx_id s = tx_id t"]) (auto dest: rule_transaction_id)
  with r(2) show ?thesis by simp
qed (use assms in \<open>simp add: migrate_transaction_def\<close>)

definition ids :: "History \<Rightarrow> string set" where
  "ids h = tx_id ` set (originals h)"

lemma root_of_data: "is_data h i \<Longrightarrow> History_root h i = Inr i"
  by (auto simp: is_data_def History_root_def root_from.simps)

lemma is_data_original:
  assumes "history_ok h" and "t \<in> set (originals h)" and "tx_target t = TData own"
  shows "is_data h (tx_id t)"
proof -
  from assms(2) obtain i where i: "(i, t) \<in> set h" by (auto simp: originals_def)
  with assms(1) have "map_of h (tx_id t) = Some t"
    by (metis bm_wf_distinct by_ident_def history_id history_ok_def map_of_is_SomeI)
  with assms(3) show ?thesis by (auto simp: is_data_def)
qed

text \<open>A pending identity is unresolved or names a data transaction.\<close>

definition pending_ok :: "History \<Rightarrow> (string, fault) bmap \<Rightarrow> bool" where
  "pending_ok h pending \<longleftrightarrow>
     (\<forall>i \<in> fst ` set pending. i \<in> ids h \<and> (isl (History_root h i) \<or> is_data h i))"

lemma pending_ok_insert:
  "pending_ok h pending \<Longrightarrow> i \<in> ids h \<Longrightarrow> isl (History_root h i) \<or> is_data h i \<Longrightarrow>
   pending_ok h (bm_insert i e pending)"
  by (auto simp: pending_ok_def)

definition selected_ok :: "History \<Rightarrow> Transaction list \<times> (string, fault) bmap \<Rightarrow> bool" where
  "selected_ok h st \<longleftrightarrow> (\<forall>t \<in> set (fst st). is_data h (tx_id t) \<and> tx_id t \<in> ids h)
     \<and> pending_ok h (snd st) \<and> tx_id ` set (fst st) \<inter> fst ` set (snd st) = {}"

lemma select_step:
  assumes h: "history_ok h" and run: "select c m h own t st = Inr st'" and t: "t \<in> set (originals h)"
  shows "st' = st
    \<or> (\<exists>e. st' = (fst st, bm_insert (tx_id t) e (snd st)) \<and> (isl (History_root h (tx_id t)) \<or> is_data h (tx_id t)))
    \<or> (\<exists>t'. st' = (fst st @ [t'], snd st) \<and> tx_id t' = tx_id t \<and> is_data h (tx_id t))"
proof (cases "tx_target t")
  case (TTransaction j)
  with run show ?thesis by (auto simp: select_def split: sum.splits)
next
  case (TData own')
  then have data: "is_data h (tx_id t)" by (rule is_data_original [OF h t])
  from run TData obtain result where
    res: "attempt (rbind (effective c h [] (tx_id t)) (migrate_transaction m)) = Inr result"
    and st': "st' = (case result of Inr t' \<Rightarrow> if tx_target t' = TData own then (fst st @ [t'], snd st) else st
        | Inl e \<Rightarrow> (fst st, bm_insert (tx_id t) e (snd st)))"
    by (auto simp: select_def)
  show ?thesis
  proof (cases result)
    case (Inl e)
    with st' data show ?thesis by auto
  next
    case (Inr t')
    with res obtain e where "effective c h [] (tx_id t) = Inr e" "migrate_transaction m e = Inr t'" by auto
    then have "tx_id t' = tx_id t" using effective_id [OF _ h] migrate_transaction_id by metis
    with Inr st' data show ?thesis by auto
  qed
qed

lemma select_all:
  assumes h: "history_ok h" and "rfold (select c m h own) ts st = Inr st'" and "selected_ok h st"
    and "set ts \<subseteq> set (originals h)" and "distinct (map tx_id ts)"
    and "tx_id ` set ts \<inter> (tx_id ` set (fst st) \<union> fst ` set (snd st)) = {}"
  shows "selected_ok h st'"
  using assms(2-)
proof (induction ts arbitrary: st)
  case (Cons t ts)
  from Cons.prems(1) obtain st1 where one: "select c m h own t st = Inr st1"
    and rest: "rfold (select c m h own) ts st1 = Inr st'" by auto
  from Cons.prems(3) have t: "t \<in> set (originals h)" "tx_id t \<in> ids h" by (auto simp: ids_def)
  let ?A = "tx_id ` set (fst st)" and ?P = "fst ` set (snd st)" and ?T = "tx_id ` set ts"
  from Cons.prems(2,4,5) have dis: "?A \<inter> ?P = {}" "tx_id t \<notin> ?A" "tx_id t \<notin> ?P" "tx_id t \<notin> ?T" "?T \<inter> (?A \<union> ?P) = {}"
    by (simp_all add: selected_ok_def)
  from select_step [OF h one t(1)] have "selected_ok h st1
      \<and> ?T \<inter> (tx_id ` set (fst st1) \<union> fst ` set (snd st1)) = {}"
  proof (elim disjE exE conjE)
    assume "st1 = st"
    with Cons.prems(2) dis show ?thesis by simp
  next
    fix t' assume t': "st1 = (fst st @ [t'], snd st)" "tx_id t' = tx_id t" "is_data h (tx_id t)"
    have "tx_id ` set (fst st1) = insert (tx_id t) ?A" "fst ` set (snd st1) = ?P" using t' by simp_all
    with t' dis Cons.prems(2) t(2) show ?thesis unfolding selected_ok_def
      by simp
  next
    fix e assume e: "st1 = (fst st, bm_insert (tx_id t) e (snd st))" "is_data h (tx_id t)"
    with dis Cons.prems(2) t(2) show ?thesis unfolding selected_ok_def
      by (simp add: pending_ok_insert)
  next
    fix e assume e: "st1 = (fst st, bm_insert (tx_id t) e (snd st))" "isl (History_root h (tx_id t))"
    with dis Cons.prems(2) t(2) show ?thesis unfolding selected_ok_def
      by (simp add: pending_ok_insert)
  qed
  with Cons.IH [OF rest] Cons.prems(3,4) show ?case by auto
qed simp

text \<open>The state of the second loop, before the transactions \<open>rest\<close>.\<close>

definition replay_ok :: "History \<Rightarrow> Transaction list \<Rightarrow> Replay \<Rightarrow> bool" where
  "replay_ok h rest r \<longleftrightarrow> pending_ok h (replay_pending r)
     \<and> set (replay_applied r) \<inter> fst ` set (replay_pending r) = {}
     \<and> (\<forall>i \<in> set (replay_applied r). i \<in> ids h \<and> (\<exists>q. History_root h i = Inr q \<and> q \<notin> tx_id ` set rest))
     \<and> tx_id ` set rest \<inter> fst ` set (replay_pending r) = {}
     \<and> (\<forall>t \<in> set rest. is_data h (tx_id t) \<and> tx_id t \<in> ids h)"

lemma apply_effective_ok:
  assumes "apply_effective c h t r = Inr r'" and "replay_ok h (t # rest) r" and "distinct (map tx_id (t # rest))"
  shows "replay_ok h rest r'"
proof -
  from assms(1) obtain result where
    r': "r' = (case result of
       Inr d \<Rightarrow> r\<lparr>replay_data := d, replay_applied :=
         bs_extend (replay_applied r)
           (map tx_id (filter (\<lambda>original. History_root h (tx_id original) = Inr (tx_id t)) (originals h)))\<rparr>
     | Inl e \<Rightarrow> r\<lparr>replay_pending := bm_insert (tx_id t) e (replay_pending r)\<rparr>)"
    by (auto simp: apply_effective_def)
  from assms(2) have t: "is_data h (tx_id t)" "tx_id t \<in> ids h" by (auto simp: replay_ok_def)
  show ?thesis
  proof (cases result)
    case (Inl e)
    have "tx_id t \<notin> set (replay_applied r)"
      using assms(2) root_of_data [OF t(1)] by (force simp: replay_ok_def)
    with Inl r' assms(2,3) t show ?thesis
      by (auto simp: replay_ok_def intro!: pending_ok_insert)
  next
    case (Inr d)
    have "i \<notin> fst ` set (replay_pending r)" if i: "History_root h i = Inr (tx_id t)" for i
    proof
      assume p: "i \<in> fst ` set (replay_pending r)"
      with assms(2) have "isl (History_root h i) \<or> is_data h i" unfolding replay_ok_def pending_ok_def by blast
      with i have "is_data h i" by simp
      from root_of_data [OF this] i have "i = tx_id t" by simp
      moreover have "tx_id ` set (t # rest) \<inter> fst ` set (replay_pending r) = {}"
        using assms(2) unfolding replay_ok_def by blast
      ultimately show False using p by auto
    qed
    then have new: "X \<inter> fst ` set (replay_pending r) = {}" if "X \<subseteq> {i. History_root h i = Inr (tx_id t)}" for X
      using that by blast
    let ?new = "map tx_id (filter (\<lambda>original. History_root h (tx_id original) = Inr (tx_id t)) (originals h))"
    have q: "\<exists>q. History_root h i = Inr q \<and> q \<notin> tx_id ` set rest" if "i \<in> set ?new" for i
      using that assms(3) by auto
    have sub: "set ?new \<subseteq> {i. History_root h i = Inr (tx_id t)}" "set ?new \<subseteq> ids h" by (auto simp: ids_def)
    have r1: "replay_applied r' = bs_extend (replay_applied r) ?new" "replay_pending r' = replay_pending r"
      using Inr r' by simp_all
    show ?thesis
      unfolding replay_ok_def r1 set_bs_extend
    proof (intro conjI ballI)
      fix i assume "i \<in> set (replay_applied r) \<union> set ?new"
      then have "i \<in> ids h \<and> (\<exists>q. History_root h i = Inr q \<and> q \<notin> tx_id ` set rest)"
      proof
        assume "i \<in> set (replay_applied r)"
        with assms(2) show ?thesis unfolding replay_ok_def by fastforce
      qed (use q sub(2) in blast)
      then show "i \<in> ids h" and "\<exists>q. History_root h i = Inr q \<and> q \<notin> tx_id ` set rest" by blast+
    qed (use assms(2) new [OF sub(1)] in \<open>auto simp: replay_ok_def Int_Un_distrib2\<close>)
  qed
qed

lemma apply_effective_all:
  assumes "rfold (apply_effective c h) ts r = Inr r'" and "replay_ok h ts r" and "distinct (map tx_id ts)"
  shows "replay_ok h [] r'"
  using assms
proof (induction ts arbitrary: r)
  case (Cons t ts)
  then obtain r1 where "apply_effective c h t r = Inr r1" "rfold (apply_effective c h) ts r1 = Inr r'" by auto
  with Cons apply_effective_ok show ?case by (metis distinct.simps(2) list.simps(9))
qed simp

text \<open>C18: a replay reports every outcome once: no transaction is both applied and pending, and
  both reports name only transactions of the history.\<close>

theorem materialize_accounts:
  assumes "history_ok h" and "materialize c m h baseline = Inr r"
  shows "set (replay_applied r) \<inter> fst ` set (replay_pending r) = {}
    \<and> set (replay_applied r) \<union> fst ` set (replay_pending r) \<subseteq> ids h"
proof -
  from assms(2) obtain d ts pending out where
    sel: "rfold (select c m h (data_owner d)) (originals h) ([], []) = Inr (ts, pending)"
    and ord: "ordered tx_id tx_revision ts = Inr out"
    and run: "rfold (apply_effective c h) out
       \<lparr>replay_data = d, replay_applied = [], replay_pending = pending\<rparr> = Inr r"
    by (auto simp: materialize_def)
  have "map tx_id (originals h) = map fst h"
    using history_id [OF assms(1)] by (auto simp: originals_def)
  then have "distinct (map tx_id (originals h))"
    using assms(1) by (simp add: history_ok_def by_ident_def bm_wf_distinct)
  from select_all [OF assms(1) sel _ _ this] have "selected_ok h (ts, pending)"
    by (simp add: selected_ok_def pending_ok_def)
  with ordered_facts(1) [OF ord]
  have "replay_ok h out \<lparr>replay_data = d, replay_applied = [], replay_pending = pending\<rparr>"
    by (auto simp: replay_ok_def selected_ok_def)
  from apply_effective_all [OF run this ordered_facts(2) [OF ord]] show ?thesis
    by (auto simp: replay_ok_def pending_ok_def)
qed

section \<open>Snapshots\<close>

lemma later_or_same_total: "later_or_same a b \<or> later_or_same b a"
  by (cases "(a, b)" rule: later_or_same.cases) auto

lemma later_or_same_antisym: "later_or_same a b \<Longrightarrow> later_or_same b a \<Longrightarrow> a = b"
  by (cases "(a, b)" rule: later_or_same.cases) auto

fun mirrored :: "Source \<Rightarrow> Source" where
  "mirrored Equal = Equal"
| "mirrored Local = Remote"
| "mirrored Remote = Local"

text \<open>Two distinct nodes that compare their manifests, each seeing itself as the local side,
  always choose the same authoritative snapshot, and report an incompatibility together.\<close>

theorem compare_manifests_agree:
  assumes "man_node l \<noteq> man_node r"
  shows "compare_manifests r l = rbind (compare_manifests l r) (\<lambda>s. Inr (mirrored s))"
  using later_or_same_total [of "(man_revision l, man_node l)" "(man_revision r, man_node r)"]
    later_or_same_antisym [of "(man_revision l, man_node l)" "(man_revision r, man_node r)"] assms
  by (auto simp: compare_manifests_def)

lemma compare_manifests_owner: "compare_manifests l r = Inr s \<Longrightarrow> man_owner l = man_owner r"
  by (auto simp: compare_manifests_def split: if_splits)

lemma compare_snapshots_Some:
  assumes "compare_snapshots h l r = Inr (Some cor)"
  obtains chosen where "chosen = l \<or> chosen = r"
    and "cor_source cor = chosen\<lparr>snap_covered := bs_extend (snap_covered chosen) (snap_covered l @ snap_covered r)\<rparr>"
    and "token h l = Inr (cor_local_token cor)" and "token h r = Inr (cor_remote_token cor)"
    and "data_owner (snap_data l) = data_owner (snap_data r)"
    and "\<exists>dg. content_digest h chosen = Inr dg"
proof -
  from assms obtain lm rm which where ms: "manifest h l = Inr lm" "manifest h r = Inr rm"
    "compare_manifests lm rm = Inr which" and ne: "which \<noteq> Equal"
    by (auto simp: compare_snapshots_def split: if_splits)
  from assms ms ne have
    "cor_source cor = (if which = Local then l else r)\<lparr>snap_covered :=
      bs_extend (snap_covered (if which = Local then l else r)) (snap_covered l @ snap_covered r)\<rparr>"
    "token h l = Inr (cor_local_token cor)" "token h r = Inr (cor_remote_token cor)"
    by (auto simp: compare_snapshots_def Let_def)
  moreover from ms compare_manifests_owner [OF ms(3)]
  have "data_owner (snap_data l) = data_owner (snap_data r)"
    "\<exists>dg. content_digest h l = Inr dg" "\<exists>dg. content_digest h r = Inr dg"
    by (auto simp: manifest_def manifest_with_digest_def)
  ultimately show ?thesis by (intro that [of "if which = Local then l else r"]) auto
qed

lemma compare_same_data:
  assumes "snap_data l = snap_data r" and "content_digest h l = Inr dg"
    and "token h l = Inr lt" and "token h r = Inr rt"
  shows "compare_snapshots h l r = Inr None"
  using assms
  by (simp add: compare_snapshots_def manifest_def manifest_with_digest_def content_digest_def compare_manifests_def)

lemma replace_snapshot_current:
  assumes "token h s = Inr expected" and "data_owner (snap_data s) = data_owner (snap_data source)"
    and "snap_generation s < u64_max"
  shows "replace_snapshot h expected source s = Inr (True, s\<lparr>snap_data := snap_data source,
    snap_covered := bs_extend (snap_covered s) (snap_covered source),
    snap_generation := snap_generation s + 1\<rparr>)"
  using assms by (simp add: replace_snapshot_def)

text \<open>A correction converges.  When a comparison produces a correction and neither generation
  is exhausted, installing it on both sides succeeds, gives both the same dataset and the same
  coverage, keeps everything either side had covered, and a further comparison finds the two
  snapshots equal.\<close>

theorem correction_converges:
  assumes "compare_snapshots h l r = Inr (Some cor)"
    and "snap_generation l < u64_max" and "snap_generation r < u64_max"
    and "bs_wf (snap_covered l)" and "bs_wf (snap_covered r)"
    and "\<forall>s. \<exists>tok. snapshot_digest h s = Inr tok"
  shows "\<exists>l' r'. replace_snapshot h (cor_local_token cor) (cor_source cor) l = Inr (True, l')
    \<and> replace_snapshot h (cor_remote_token cor) (cor_source cor) r = Inr (True, r')
    \<and> snap_data l' = snap_data r' \<and> snap_covered l' = snap_covered r'
    \<and> set (snap_covered l') = set (snap_covered l) \<union> set (snap_covered r)
    \<and> compare_snapshots h l' r' = Inr None"
proof -
  obtain chosen where ch: "chosen = l \<or> chosen = r"
    and src: "cor_source cor = chosen\<lparr>snap_covered := bs_extend (snap_covered chosen) (snap_covered l @ snap_covered r)\<rparr>"
    and tok: "token h l = Inr (cor_local_token cor)" "token h r = Inr (cor_remote_token cor)"
    and own: "data_owner (snap_data l) = data_owner (snap_data r)"
    and dg: "\<exists>dg. content_digest h chosen = Inr dg"
    by (rule compare_snapshots_Some [OF assms(1)])
  let ?l = "l\<lparr>snap_data := snap_data chosen,
    snap_covered := bs_extend (snap_covered l) (snap_covered (cor_source cor)), snap_generation := snap_generation l + 1\<rparr>"
  let ?r = "r\<lparr>snap_data := snap_data chosen,
    snap_covered := bs_extend (snap_covered r) (snap_covered (cor_source cor)), snap_generation := snap_generation r + 1\<rparr>"
  have "replace_snapshot h (cor_local_token cor) (cor_source cor) l = Inr (True, ?l)"
    using replace_snapshot_current [OF tok(1) _ assms(2), of "cor_source cor"] ch own src by auto
  moreover have "replace_snapshot h (cor_remote_token cor) (cor_source cor) r = Inr (True, ?r)"
    using replace_snapshot_current [OF tok(2) _ assms(3), of "cor_source cor"] ch own src by auto
  moreover have cov: "set (snap_covered ?l) = set (snap_covered l) \<union> set (snap_covered r)"
      "set (snap_covered ?r) = set (snap_covered l) \<union> set (snap_covered r)"
    using ch by (auto simp: src)
  moreover have "snap_covered ?l = snap_covered ?r"
    using cov assms(4,5) by (intro bs_ext) simp_all
  moreover have "compare_snapshots h ?l ?r = Inr None"
  proof -
    obtain dg' lt rt where "content_digest h chosen = Inr dg'"
      "token h ?l = Inr lt" "token h ?r = Inr rt" using dg assms(6) unfolding token_def by metis
    then show ?thesis by (intro compare_same_data) (simp_all add: content_digest_def)
  qed
  moreover have "snap_data ?l = snap_data ?r" by simp
  ultimately show ?thesis by (intro exI conjI)
qed

section \<open>Witnesses\<close>

definition plain_serial :: serial where
  "plain_serial = codec.extend tagged_codec
     \<lparr>edits_to_value = (\<lambda>es. Inr (JArr [])), edits_from_value = (\<lambda>v. Inl Foreign)\<rparr>"

definition tx_meta :: Transaction where
  "tx_meta = \<lparr>tx_id = ''m'', tx_revision = Revision 4 ''B'' 2, tx_target = TTransaction ''lost'', tx_edits = []\<rparr>"

definition sample_log :: History where
  "sample_log = [(''a'', tx_a), (''b'', tx_b), (''m'', tx_meta)]"

lemma sample_log_ok: "history_ok sample_log"
  by (simp add: history_ok_def by_ident_def bm_wf_def originals_def sample_log_def tx_a_def tx_b_def tx_meta_def sample_tx_def)

lemma sample_log_inserts: "rfold History_insert [tx_m, tx_b, tx_a] [] = Inr sample_log" if "tx_m = tx_meta" for tx_m
  unfolding that by code_simp

theorem history_order_independent_witness:
  "rfold History_insert [tx_a, tx_b, tx_a, tx_meta] [] = Inr sample_log"
  by (rule history_order_independent [OF sample_log_inserts [OF refl]]) auto

definition sample_snapshot :: "string \<Rightarrow> Snapshot" where
  "sample_snapshot node = \<lparr>snap_node = node, snap_data = Data_empty sample_owner, snap_covered = [''a''], snap_generation = 0\<rparr>"

theorem snapshot_replay_uncovered_witness:
  "snapshot_replay plain_serial sample_migrations sample_log (sample_snapshot ''n'') =
     materialize plain_serial sample_migrations [(''b'', tx_b), (''m'', tx_meta)] (Data_empty sample_owner)"
proof -
  have "bm_retain (\<lambda>i _. i \<notin> set (snap_covered (sample_snapshot ''n''))) sample_log = [(''b'', tx_b), (''m'', tx_meta)]"
    by (simp add: bm_retain_def sample_snapshot_def sample_log_def)
  with snapshot_replay_uncovered [OF sample_log_ok, of plain_serial sample_migrations "sample_snapshot ''n''"]
  show ?thesis by (simp add: sample_snapshot_def)
qed

theorem materialize_accounts_witness:
  "\<exists>r. materialize plain_serial sample_migrations sample_log (Data_empty sample_owner) = Inr r
    \<and> ''a'' \<in> set (replay_applied r) \<and> ''m'' \<in> fst ` set (replay_pending r)
    \<and> set (replay_applied r) \<inter> fst ` set (replay_pending r) = {}"
proof -
  have run: "(case materialize plain_serial sample_migrations sample_log (Data_empty sample_owner) of
      Inr r \<Rightarrow> replay_applied r = [''a'', ''b''] \<and> map fst (replay_pending r) = [''m''] | Inl _ \<Rightarrow> False)"
    by code_simp
  then obtain r where r: "materialize plain_serial sample_migrations sample_log (Data_empty sample_owner) = Inr r"
    and rep: "replay_applied r = [''a'', ''b'']" "map fst (replay_pending r) = [''m'']"
    by (auto split: sum.splits)
  from rep(2) have "fst ` set (replay_pending r) = {''m''}" by (metis list.set(1) list.set(2) list.set_map)
  with materialize_accounts [OF sample_log_ok r] r rep(1) show ?thesis by auto
qed

definition sample_manifest :: "string \<Rightarrow> string \<Rightarrow> Manifest" where
  "sample_manifest node dg = \<lparr>man_owner = sample_owner, man_node = node, man_revision = None,
     man_token = [], man_digest = dg\<rparr>"

theorem compare_manifests_agree_witness:
  "compare_manifests (sample_manifest ''n1'' ''x'') (sample_manifest ''n2'' ''y'') = Inr Remote \<and>
   compare_manifests (sample_manifest ''n2'' ''y'') (sample_manifest ''n1'' ''x'') = Inr Local"
proof -
  have "compare_manifests (sample_manifest ''n1'' ''x'') (sample_manifest ''n2'' ''y'') = Inr Remote" by code_simp
  with compare_manifests_agree [of "sample_manifest ''n1'' ''x''" "sample_manifest ''n2'' ''y''"]
  show ?thesis by (simp add: sample_manifest_def)
qed

definition sample_digests :: digests where
  "sample_digests = \<lparr>snapshot_digest = (\<lambda>s. Inr (snap_node s)),
     values_digest = (\<lambda>vs. Inr (concat (map fst vs))), baseline_pair_digest = (\<lambda>x. Inr [])\<rparr>"

definition other_snapshot :: Snapshot where
  "other_snapshot = \<lparr>snap_node = ''p'', snap_data = (Data_empty sample_owner)\<lparr>data_values := [(''k'', JNull)]\<rparr>,
     snap_covered = [''b''], snap_generation = 7\<rparr>"

theorem correction_converges_witness:
  "\<exists>cor l' r'. compare_snapshots sample_digests (sample_snapshot ''n'') other_snapshot = Inr (Some cor)
    \<and> replace_snapshot sample_digests (cor_local_token cor) (cor_source cor) (sample_snapshot ''n'') = Inr (True, l')
    \<and> replace_snapshot sample_digests (cor_remote_token cor) (cor_source cor) other_snapshot = Inr (True, r')
    \<and> snap_data l' = snap_data r' \<and> set (snap_covered l') = {''a'', ''b''}"
proof -
  have "(case compare_snapshots sample_digests (sample_snapshot ''n'') other_snapshot of
      Inr (Some cor) \<Rightarrow> True | _ \<Rightarrow> False)" by code_simp
  then obtain cor where cor: "compare_snapshots sample_digests (sample_snapshot ''n'') other_snapshot = Inr (Some cor)"
    by (auto split: sum.splits option.splits)
  have "\<exists>l' r'. replace_snapshot sample_digests (cor_local_token cor) (cor_source cor) (sample_snapshot ''n'') = Inr (True, l')
    \<and> replace_snapshot sample_digests (cor_remote_token cor) (cor_source cor) other_snapshot = Inr (True, r')
    \<and> snap_data l' = snap_data r' \<and> snap_covered l' = snap_covered r'
    \<and> set (snap_covered l') = set (snap_covered (sample_snapshot ''n'')) \<union> set (snap_covered other_snapshot)
    \<and> compare_snapshots sample_digests l' r' = Inr None"
    by (rule correction_converges [OF cor])
      (simp_all add: sample_snapshot_def other_snapshot_def u64_max_def bs_wf_def sample_digests_def)
  then obtain l' r' where lr:
    "replace_snapshot sample_digests (cor_local_token cor) (cor_source cor) (sample_snapshot ''n'') = Inr (True, l')"
    "replace_snapshot sample_digests (cor_remote_token cor) (cor_source cor) other_snapshot = Inr (True, r')"
    "snap_data l' = snap_data r'"
    "set (snap_covered l') = set (snap_covered (sample_snapshot ''n'')) \<union> set (snap_covered other_snapshot)"
    by blast
  from lr(4) have "set (snap_covered l') = {''a'', ''b''}"
    by (auto simp: sample_snapshot_def other_snapshot_def)
  with cor lr(1-3) show ?thesis by blast
qed

end
