(* ===== verification/Checkpoint_Merge.thy ===== *)
theory Checkpoint_Merge
  imports History_Replay "HOL-Library.Product_Lexorder"
begin

text \<open>
  Joining two complete checkpoints of one dataset (\<open>Data::merge\<close> in
  \<open>transaction/Checkpoint.rs\<close>).  \<open>edit_text\<close> is the JSON text of an edit, used only as a sort key.
\<close>

section \<open>Definitions\<close>

record merge_codec = codec +
  edit_text :: "edit \<Rightarrow> string"

text \<open>\<open>insert(k, v).is_some_and(|previous| previous != v)\<close> with an error.\<close>

definition insert_agreeing :: "fault \<Rightarrow> 'k::linorder \<times> 'v \<Rightarrow> ('k, 'v) bmap \<Rightarrow> ('k, 'v) bmap res" where
  "insert_agreeing err kv m =
     (if (case map_of m (fst kv) of Some previous \<Rightarrow> previous \<noteq> snd kv | None \<Rightarrow> False)
      then Inl err else Inr (bm_insert (fst kv) (snd kv) m))"

text \<open>\<open>entry(k).or_default().push(v)\<close>\<close>

definition push_entry :: "'k::linorder \<times> 'v \<Rightarrow> ('k, 'v list) bmap \<Rightarrow> ('k, 'v list) bmap" where
  "push_entry kv m =
     bm_insert (fst kv) ((case map_of m (fst kv) of Some vs \<Rightarrow> vs | None \<Rightarrow> []) @ [snd kv]) m"

text \<open>The assignment payload below a retained increment.\<close>

definition subtract_addition :: "string \<Rightarrow> path list \<Rightarrow> Addition \<Rightarrow> vals \<Rightarrow> vals res" where
  "subtract_addition key path a base =
     rbind (ok_or (Err ''Invalid checkpoint increment'')
         (Option.bind (Option.bind (nested_value (map_of base key) path) as_i64)
           (\<lambda>n. i64_checked_sub n (add_delta a))))
       (\<lambda>n. apply_values (Set key path (JInt n)) base)"

definition group_additions :: "Addition list \<Rightarrow> (revision, int list) bmap" where
  "group_additions additions = foldl (\<lambda>m a. push_entry (add_revision a, add_delta a) m) [] additions"

type_synonym contributions = "(string \<times> revision, int list) bmap"

definition merge_additions :: "('z) codec_scheme \<Rightarrow> string \<times> Addition list \<Rightarrow> vals \<times> contributions \<Rightarrow> (vals \<times> contributions) res" where
  "merge_additions c ea st =
     (case scope_of c (fst ea) of
        None \<Rightarrow> Inl Foreign
      | Some (key, path) \<Rightarrow>
          rbind (rfold (subtract_addition key path) (rev (snd ea)) (fst st)) (\<lambda>base.
          rbind (rfold (\<lambda>(r, deltas). insert_agreeing (Err ''Conflicting checkpoint increment identity'')
                    ((fst ea, r), deltas)) (group_additions (snd ea)) (snd st)) (\<lambda>contributions.
          Inr (base, contributions))))"

type_synonym effects = "(revision, edit list) bmap"

text \<open>The effect a version of the checkpoint stands for.\<close>

definition version_edit :: "vals \<Rightarrow> string \<Rightarrow> path list \<Rightarrow> edit" where
  "version_edit base key path =
     (if path = [Records]
      then ReplaceRecords key (bm_extend [] (List.map_filter
        (\<lambda>(k, v). map_option (\<lambda>i. (i, v)) (strip_prefix k key)) base))
      else case nested_value (map_of base key) path of
        Some v \<Rightarrow> Set key path v | None \<Rightarrow> Delete key path)"

definition merge_version :: "('z) codec_scheme \<Rightarrow> vals \<Rightarrow> string \<times> revision \<Rightarrow>
    string bset \<times> string list \<times> effects \<Rightarrow> (string bset \<times> string list \<times> effects) res" where
  "merge_version c base er st =
     (case scope_of c (fst er) of
        None \<Rightarrow> Inl Foreign
      | Some (key, path) \<Rightarrow>
          let (roots, namespaces, effects) = st in
          Inr (if path = [] then bs_insert key roots else roots,
               if path = [Records] then namespaces @ [key] else namespaces,
               push_entry (snd er, version_edit base key path) effects))"

definition versioned :: "string bset \<Rightarrow> string list \<Rightarrow> string \<Rightarrow> bool" where
  "versioned roots namespaces key \<longleftrightarrow> key \<in> set roots \<or> list_ex (\<lambda>pre. starts_with key pre) namespaces"

text \<open>One iteration of the loop over the two sources.\<close>

definition merge_source :: "('z) codec_scheme \<Rightarrow> Data \<Rightarrow> Data \<times> effects \<times> contributions \<Rightarrow> (Data \<times> effects \<times> contributions) res" where
  "merge_source c source st =
     (let (merged, effects, contributions) = st in
      rbind (rfold (merge_additions c) (data_additions source) (data_values source, contributions)) (\<lambda>(base, contributions').
      rbind (rfold (merge_version c base) (data_versions source) ([], [], effects)) (\<lambda>(roots, namespaces, effects').
      rbind (rfold (insert_agreeing (Err ''Conflicting unversioned checkpoint values''))
               (filter (\<lambda>kv. \<not> versioned roots namespaces (fst kv)) base) (data_values merged)) (\<lambda>vs.
      rbind (rfold (insert_agreeing (Err ''Conflicting checkpoint identity aliases''))
               (data_aliases source) (data_aliases merged)) (\<lambda>aliases.
      Inr (merged\<lparr>data_values := vs, data_aliases := aliases\<rparr>, effects', contributions'))))))"

fun effect_depth :: "edit \<Rightarrow> nat option" where
  "effect_depth (ReplaceRecords _ _) = Some 0"
| "effect_depth (Set _ path _) = Some (length path + 1)"
| "effect_depth (Delete _ path) = Some (length path + 1)"
| "effect_depth _ = None"

definition sort_effects :: "('z) merge_codec_scheme \<Rightarrow> edit list \<Rightarrow> edit list res" where
  "sort_effects c es =
     (if list_ex (\<lambda>e. effect_depth e = None) es then Inl (Panic ''unreachable'')
      else Inr (sort_key (\<lambda>e. (the (effect_depth e), edit_text c e)) es))"

definition sort_all_effects :: "('z) merge_codec_scheme \<Rightarrow> effects \<Rightarrow> effects res" where
  "sort_all_effects c effects = rmap (\<lambda>(r, es). rbind (sort_effects c es) (\<lambda>es'. Inr (r, es'))) effects"

definition add_contribution :: "('z) codec_scheme \<Rightarrow> (string \<times> revision) \<times> int list \<Rightarrow> effects \<Rightarrow> effects res" where
  "add_contribution c x effects =
     (case scope_of c (fst (fst x)) of
        None \<Rightarrow> Inl Foreign
      | Some (key, path) \<Rightarrow>
          let r = snd (fst x) in
          Inr (bm_insert r ((case map_of effects r of Some es \<Rightarrow> es | None \<Rightarrow> [])
            @ map (Increment key path) (snd x)) effects))"

fun nat_digits :: "nat \<Rightarrow> string" where
  "nat_digits n = (if n < 10 then [char_of (48 + n)] else nat_digits (n div 10) @ [char_of (48 + n mod 10)])"

definition int_text :: "int \<Rightarrow> string" where
  "int_text n = (if n < 0 then CHR ''-'' # nat_digits (nat (- n)) else nat_digits (nat n))"

definition effect_transaction :: "Owner \<Rightarrow> revision \<times> edit list \<Rightarrow> Transaction" where
  "effect_transaction own re = \<lparr>tx_id = originDeviceId (fst re) @ '':'' @ int_text (sequence (fst re)),
     tx_revision = fst re, tx_target = TData own, tx_edits = snd re\<rparr>"

definition revision_list :: "Data \<Rightarrow> revision list" where
  "revision_list d = (case data_revision d of Some r \<Rightarrow> [r] | None \<Rightarrow> [])"

definition Data_merge :: "('z) merge_codec_scheme \<Rightarrow> Data \<Rightarrow> Data \<Rightarrow> Data res" where
  "Data_merge c self other =
     (if data_owner self \<noteq> data_owner other then Inl (Err ''Checkpoint owners or migrations differ'')
      else
        rbind (rfold (merge_source c) [self, other] (Data_empty (data_owner self), [], [])) (\<lambda>(merged, effects, contributions).
        rbind (sort_all_effects c effects) (\<lambda>sorted_effects.
        rbind (rfold (add_contribution c) contributions sorted_effects) (\<lambda>all_effects.
        rbind (ordered tx_id tx_revision (map (effect_transaction (data_owner merged)) all_effects)) (\<lambda>transactions.
        rbind (rfold (Data_apply c) transactions merged) (\<lambda>joined.
        Inr (fold advance_revision (revision_list self @ revision_list other) joined)))))))"

section \<open>Agreeing insertions\<close>

definition functional :: "('k \<times> 'v) set \<Rightarrow> bool" where
  "functional S \<longleftrightarrow> (\<forall>x \<in> S. \<forall>y \<in> S. fst x = fst y \<longrightarrow> x = y)"

lemma bm_wf_functional: "bm_wf m \<Longrightarrow> functional (set m)"
  unfolding functional_def using bm_wf_distinct by (metis distinct_map inj_on_def)

lemma functional_subset: "functional T \<Longrightarrow> S \<subseteq> T \<Longrightarrow> functional S"
  by (auto simp: functional_def)

lemma functional_insert_iff:
  assumes "bm_wf m"
  shows "functional (insert (k, v) (set m)) \<longleftrightarrow> (\<forall>w. map_of m k = Some w \<longrightarrow> w = v)"
proof -
  have "map_of m l = Some w \<longleftrightarrow> (l, w) \<in> set m" for l w
    using bm_wf_distinct [OF assms] by (simp add: map_of_eq_Some_iff)
  then show ?thesis using bm_wf_functional [OF assms] unfolding functional_def by auto
qed

lemma insert_agreeing_eq:
  assumes "bm_wf m"
  shows "insert_agreeing err kv m =
    (if functional (insert kv (set m)) then Inr (bm_insert (fst kv) (snd kv) m) else Inl err)"
  using functional_insert_iff [OF assms, of "fst kv" "snd kv"]
  by (auto simp: insert_agreeing_def split: option.splits)

lemma set_bm_insert_functional:
  assumes "bm_wf m" and "functional (insert kv (set m))"
  shows "set (bm_insert (fst kv) (snd kv) m) = insert kv (set m)"
proof (cases "map_of m (fst kv)")
  case None
  from bm_insert_fresh_mset [OF this, of "snd kv"] show ?thesis
    by (metis prod.collapse set_mset_add_mset_insert set_mset_mset)
next
  case (Some w)
  with functional_insert_iff [OF assms(1), of "fst kv" "snd kv"] assms(2) have "w = snd kv" by simp
  with Some assms(1) have "bm_insert (fst kv) (snd kv) m = m" by simp
  moreover from Some \<open>w = snd kv\<close> have "kv \<in> set m" by (metis map_of_SomeD prod.collapse)
  ultimately show ?thesis by auto
qed

lemma insert_all_eq:
  assumes "bm_wf m"
  shows "rfold (insert_agreeing err) xs m =
      (if functional (set xs \<union> set m) then Inr (bm_extend m xs) else Inl err)
    \<and> (functional (set xs \<union> set m) \<longrightarrow> set (bm_extend m xs) = set xs \<union> set m)"
  using assms
proof (induction xs arbitrary: m)
  case Nil
  then show ?case by (simp add: bm_extend_def bm_wf_functional)
next
  case (Cons x xs)
  let ?m = "bm_insert (fst x) (snd x) m"
  show ?case
  proof (cases "functional (insert x (set m))")
    case False
    moreover have "insert x (set m) \<subseteq> set (x # xs) \<union> set m" by auto
    ultimately have "\<not> functional (set (x # xs) \<union> set m)" using functional_subset by blast
    with False Cons.prems show ?thesis by (simp add: insert_agreeing_eq)
  next
    case True
    have "set xs \<union> set ?m = set (x # xs) \<union> set m"
      using set_bm_insert_functional [OF Cons.prems True] by auto
    with Cons.IH [of ?m] Cons.prems True show ?thesis
      by (simp add: insert_agreeing_eq bm_extend_def)
  qed
qed

lemma insert_all_Inr:
  assumes "bm_wf m"
  shows "rfold (insert_agreeing err) xs m = Inr m' \<longleftrightarrow>
    functional (set xs \<union> set m) \<and> bm_wf m' \<and> set m' = set xs \<union> set m"
  using insert_all_eq [OF assms, of err xs] assms bm_set_ext [of "bm_extend m xs" m'] by auto

text \<open>Two batches of agreeing insertions commute.\<close>

lemma insert_all_commute:
  assumes "bm_wf m" and "rfold (insert_agreeing err) (xs @ ys) m = Inr m'"
  shows "rfold (insert_agreeing err) (ys @ xs) m = Inr m'"
  using assms(2) unfolding insert_all_Inr [OF assms(1)] by (simp add: Un_ac)

section \<open>Collected effects\<close>

definition push_all :: "('k::linorder, 'v list) bmap \<Rightarrow> ('k \<times> 'v) list \<Rightarrow> ('k, 'v list) bmap" where
  "push_all m xs = foldl (\<lambda>m kv. push_entry kv m) m xs"

lemma push_all_wf: "bm_wf m \<Longrightarrow> bm_wf (push_all m xs)"
  unfolding push_all_def by (induction xs arbitrary: m) (auto simp: push_entry_def)

lemma push_all_lookup:
  assumes "bm_wf m"
  shows "map_of (push_all m xs) k =
    (let new = map snd (filter (\<lambda>x. fst x = k) xs) in
     case map_of m k of Some vs \<Rightarrow> Some (vs @ new) | None \<Rightarrow> if new = [] then None else Some new)"
  using assms unfolding push_all_def Let_def
proof (induction xs arbitrary: m)
  case (Cons x xs)
  show ?case
    unfolding foldl_Cons Cons.IH [of "push_entry x m", unfolded push_entry_def, OF bm_wf_insert [OF Cons.prems], folded push_entry_def]
    using Cons.prems by (auto simp: push_entry_def split: option.splits)
qed (simp split: option.splits)

lemma push_all_keys: "bm_wf m \<Longrightarrow> fst ` set (push_all m xs) = fst ` set m \<union> fst ` set xs"
  unfolding push_all_def by (induction xs arbitrary: m) (auto simp: push_entry_def)

definition same_effects :: "effects \<Rightarrow> effects \<Rightarrow> bool" where
  "same_effects es fs \<longleftrightarrow> list_all2 (\<lambda>x y. fst x = fst y \<and> mset (snd x) = mset (snd y)) es fs"

lemma push_all_permuted:
  assumes "mset xs = mset ys"
  shows "same_effects (push_all [] xs) (push_all [] ys)"
proof -
  let ?m = "push_all [] xs" and ?n = "push_all [] ys"
  have wf: "bm_wf ?m" "bm_wf ?n" by (simp_all add: push_all_wf)
  have "fst ` set ?m = fst ` set ?n"
    using push_all_keys [of "[]" xs] push_all_keys [of "[]" ys] mset_eq_setD [OF assms] by simp
  then have keys: "map fst ?m = map fst ?n"
    using wf unfolding bm_wf_def
    by (metis list.set_map strict_sorted_equal)
  have "mset (snd (?m ! i)) = mset (snd (?n ! i))" if i: "i < length ?m" for i
  proof -
    from keys have len: "length ?n = length ?m" by (metis length_map)
    let ?k = "fst (?m ! i)"
    have k: "fst (?n ! i) = ?k" using keys i len by (metis nth_map)
    have "map_of ?m ?k = Some (snd (?m ! i))"
      using bm_wf_distinct [OF wf(1)] i by (metis map_of_is_SomeI nth_mem prod.collapse)
    moreover have "map_of ?n ?k = Some (snd (?n ! i))"
      using bm_wf_distinct [OF wf(2)] i len k by (metis map_of_is_SomeI nth_mem prod.collapse)
    ultimately have "snd (?m ! i) = map snd (filter (\<lambda>x. fst x = ?k) xs)"
      "snd (?n ! i) = map snd (filter (\<lambda>x. fst x = ?k) ys)"
      by (simp_all add: push_all_lookup Let_def split: if_splits)
    with assms show ?thesis by (simp add: mset_filter)
  qed
  with keys show ?thesis unfolding same_effects_def list_all2_conv_all_nth
    by (metis length_map nth_map)
qed

lemma sort_effects_permuted:
  assumes "mset es = mset fs" and "inj (edit_text c)"
  shows "sort_effects c es = sort_effects c fs"
proof -
  let ?f = "\<lambda>e. (the (effect_depth e), edit_text c e)"
  have "inj_on ?f (set es)" using assms(2) by (auto simp: inj_on_def)
  from sort_key_inj_key_eq [of es "sort_key ?f fs" ?f] this assms(1)
  have "sort_key ?f es = sort_key ?f fs" by simp
  with mset_eq_setD [OF assms(1)] show ?thesis by (simp add: sort_effects_def list_ex_iff)
qed

lemma sort_all_effects_permuted:
  assumes "same_effects es fs" and "inj (edit_text c)"
  shows "sort_all_effects c es = sort_all_effects c fs"
  using assms(1) unfolding same_effects_def sort_all_effects_def
proof (induction rule: list_all2_induct)
  case (Cons x xs y ys)
  then have "sort_effects c (snd x) = sort_effects c (snd y)" using sort_effects_permuted assms(2) by blast
  with Cons show ?case by (simp add: split_beta)
qed simp

section \<open>What a source contributes\<close>

definition recover :: "('z) codec_scheme \<Rightarrow> string \<times> Addition list \<Rightarrow> vals \<Rightarrow> vals res" where
  "recover c ea base = (case scope_of c (fst ea) of None \<Rightarrow> Inl Foreign
     | Some (key, path) \<Rightarrow> rfold (subtract_addition key path) (rev (snd ea)) base)"

definition source_contributions :: "(string, Addition list) bmap \<Rightarrow> ((string \<times> revision) \<times> int list) list" where
  "source_contributions additions =
     concat (map (\<lambda>ea. map (\<lambda>(r, ds). ((fst ea, r), ds)) (group_additions (snd ea))) additions)"

lemma merge_additions_iff:
  "rfold (merge_additions c) additions (base, contributions) = Inr (base', contributions') \<longleftrightarrow>
     rfold (recover c) additions base = Inr base' \<and>
     rfold (insert_agreeing (Err ''Conflicting checkpoint increment identity''))
       (source_contributions additions) contributions = Inr contributions'"
proof (induction additions arbitrary: base contributions)
  case (Cons ea additions)
  have one: "merge_additions c ea (base, contributions) = Inr (b1, c1) \<longleftrightarrow>
      recover c ea base = Inr b1 \<and>
      rfold (insert_agreeing (Err ''Conflicting checkpoint increment identity''))
        (map (\<lambda>(r, ds). ((fst ea, r), ds)) (group_additions (snd ea))) contributions = Inr c1" for b1 c1
    by (auto simp: merge_additions_def recover_def rfold_map case_prod_unfold split: option.splits)
  have "rfold (merge_additions c) (ea # additions) (base, contributions) = Inr (base', contributions') \<longleftrightarrow>
      (\<exists>b1 c1. merge_additions c ea (base, contributions) = Inr (b1, c1) \<and>
        rfold (merge_additions c) additions (b1, c1) = Inr (base', contributions'))" by auto
  then show ?case unfolding one Cons.IH by (auto simp: source_contributions_def rfold_append)
qed (auto simp: source_contributions_def)

definition scope_at :: "('z) codec_scheme \<Rightarrow> string \<Rightarrow> scope" where
  "scope_at c enc = the (scope_of c enc)"

definition source_effects :: "('z) codec_scheme \<Rightarrow> vals \<Rightarrow> (string, revision) bmap \<Rightarrow> (revision \<times> edit) list" where
  "source_effects c base versions =
     map (\<lambda>er. (snd er, version_edit base (fst (scope_at c (fst er))) (snd (scope_at c (fst er))))) versions"

lemma merge_version_effects:
  "rfold (merge_version c base) versions (roots, namespaces, effects) = Inr (roots', namespaces', effects') \<Longrightarrow>
     effects' = push_all effects (source_effects c base versions)"
  by (induction versions arbitrary: roots namespaces effects)
    (auto simp: merge_version_def push_all_def source_effects_def scope_at_def split: option.splits)

text \<open>Roots and namespaces do not depend on the effects collected before.\<close>

lemma merge_version_frame:
  "rfold (merge_version c base) versions (roots, namespaces, effects) = Inr (roots', namespaces', effects') \<Longrightarrow>
   rfold (merge_version c base) versions (roots, namespaces, other) =
     Inr (roots', namespaces', push_all other (source_effects c base versions))"
  by (induction versions arbitrary: roots namespaces effects other)
    (fastforce simp: merge_version_def push_all_def source_effects_def scope_at_def split: option.splits)+

text \<open>The parts of a source that do not depend on the accumulated state.\<close>

definition source_parts :: "('z) codec_scheme \<Rightarrow> Data \<Rightarrow> vals \<Rightarrow> (string \<times> json) list \<Rightarrow> bool" where
  "source_parts c d base unversioned \<longleftrightarrow>
     rfold (recover c) (data_additions d) (data_values d) = Inr base \<and>
     (\<exists>roots namespaces effects.
        rfold (merge_version c base) (data_versions d) ([], [], []) = Inr (roots, namespaces, effects) \<and>
        unversioned = filter (\<lambda>kv. \<not> versioned roots namespaces (fst kv)) base)"

lemma merge_source_iff:
  "merge_source c d (merged, effects, contributions) = Inr (merged', effects', contributions') \<longleftrightarrow>
     (\<exists>base unversioned vs aliases. source_parts c d base unversioned \<and>
        rfold (insert_agreeing (Err ''Conflicting checkpoint increment identity''))
          (source_contributions (data_additions d)) contributions = Inr contributions' \<and>
        effects' = push_all effects (source_effects c base (data_versions d)) \<and>
        rfold (insert_agreeing (Err ''Conflicting unversioned checkpoint values'')) unversioned (data_values merged) = Inr vs \<and>
        rfold (insert_agreeing (Err ''Conflicting checkpoint identity aliases'')) (data_aliases d) (data_aliases merged) = Inr aliases \<and>
        merged' = merged\<lparr>data_values := vs, data_aliases := aliases\<rparr>)" (is "?L \<longleftrightarrow> ?R")
proof
  assume ?L
  then obtain base roots namespaces vs aliases where
    add: "rfold (merge_additions c) (data_additions d) (data_values d, contributions) = Inr (base, contributions')"
    and ver: "rfold (merge_version c base) (data_versions d) ([], [], effects) = Inr (roots, namespaces, effects')"
    and vs: "rfold (insert_agreeing (Err ''Conflicting unversioned checkpoint values''))
               (filter (\<lambda>kv. \<not> versioned roots namespaces (fst kv)) base) (data_values merged) = Inr vs"
    and al: "rfold (insert_agreeing (Err ''Conflicting checkpoint identity aliases''))
               (data_aliases d) (data_aliases merged) = Inr aliases"
    and m: "merged' = merged\<lparr>data_values := vs, data_aliases := aliases\<rparr>"
    by (auto simp: merge_source_def)
  with merge_version_frame [OF ver, of "[]"] merge_version_effects [OF ver] show ?R
    unfolding source_parts_def merge_additions_iff by blast
next
  assume ?R
  then obtain base unversioned vs aliases roots namespaces e0 where
    r: "rfold (recover c) (data_additions d) (data_values d) = Inr base"
      "rfold (merge_version c base) (data_versions d) ([], [], []) = Inr (roots, namespaces, e0)"
      "unversioned = filter (\<lambda>kv. \<not> versioned roots namespaces (fst kv)) base"
      "rfold (insert_agreeing (Err ''Conflicting checkpoint increment identity''))
          (source_contributions (data_additions d)) contributions = Inr contributions'"
      "effects' = push_all effects (source_effects c base (data_versions d))"
      "rfold (insert_agreeing (Err ''Conflicting unversioned checkpoint values'')) unversioned (data_values merged) = Inr vs"
      "rfold (insert_agreeing (Err ''Conflicting checkpoint identity aliases'')) (data_aliases d) (data_aliases merged) = Inr aliases"
      "merged' = merged\<lparr>data_values := vs, data_aliases := aliases\<rparr>"
    unfolding source_parts_def by blast
  from r(1,4) have "rfold (merge_additions c) (data_additions d) (data_values d, contributions) = Inr (base, contributions')"
    by (simp add: merge_additions_iff)
  moreover from merge_version_frame [OF r(2), of effects] r(5)
  have "rfold (merge_version c base) (data_versions d) ([], [], effects) = Inr (roots, namespaces, effects')" by simp
  ultimately show ?L using r(3,6,7,8) by (simp add: merge_source_def)
qed

lemma source_parts_unique: "source_parts c d b u \<Longrightarrow> source_parts c d b' u' \<Longrightarrow> b' = b \<and> u' = u"
  by (auto simp: source_parts_def)

section \<open>Merging is commutative\<close>

lemma merge_sources_swapped:
  assumes "rfold (merge_source c) [a, b] (Data_empty own, [], []) = Inr (merged, effects, contributions)"
  shows "\<exists>effects'. rfold (merge_source c) [b, a] (Data_empty own, [], []) = Inr (merged, effects', contributions)
    \<and> same_effects effects effects'"
proof -
  let ?ev = "Err ''Conflicting unversioned checkpoint values''" and ?ea = "Err ''Conflicting checkpoint identity aliases''"
    and ?ec = "Err ''Conflicting checkpoint increment identity''"
  let ?ka = "source_contributions (data_additions a)" and ?kb = "source_contributions (data_additions b)"
  from assms obtain m1 e1 c1 where "merge_source c a (Data_empty own, [], []) = Inr (m1, e1, c1)"
    and "merge_source c b (m1, e1, c1) = Inr (merged, effects, contributions)" by auto
  then obtain ba ua va aa bb ub vb ab where
    pa: "source_parts c a ba ua" and pb: "source_parts c b bb ub"
    and ka: "rfold (insert_agreeing ?ec) ?ka [] = Inr c1" and kb: "rfold (insert_agreeing ?ec) ?kb c1 = Inr contributions"
    and e: "effects = push_all (push_all [] (source_effects c ba (data_versions a))) (source_effects c bb (data_versions b))"
    and va: "rfold (insert_agreeing ?ev) ua [] = Inr va" and vb: "rfold (insert_agreeing ?ev) ub va = Inr vb"
    and aa: "rfold (insert_agreeing ?ea) (data_aliases a) [] = Inr aa" and ab: "rfold (insert_agreeing ?ea) (data_aliases b) aa = Inr ab"
    and m: "merged = (Data_empty own)\<lparr>data_values := vb, data_aliases := ab\<rparr>"
    unfolding merge_source_iff by (auto simp: Data_empty_def)
  let ?ea' = "source_effects c ba (data_versions a)" and ?eb' = "source_effects c bb (data_versions b)"
  have swap: "\<exists>m1'. rfold (insert_agreeing err) ys [] = Inr m1' \<and> rfold (insert_agreeing err) xs m1' = Inr m'"
    if "rfold (insert_agreeing err) xs [] = Inr m1" "rfold (insert_agreeing err) ys m1 = Inr m'"
    for err and xs ys :: "('x::linorder \<times> 'y) list" and m1 m'
    using insert_all_commute [OF bm_wf_Nil, of err xs ys m'] that by (auto simp: rfold_append)
  obtain k' where k': "rfold (insert_agreeing ?ec) ?kb [] = Inr k'" "rfold (insert_agreeing ?ec) ?ka k' = Inr contributions"
    using swap [OF ka kb] by blast
  obtain v' where v': "rfold (insert_agreeing ?ev) ub [] = Inr v'" "rfold (insert_agreeing ?ev) ua v' = Inr vb"
    using swap [OF va vb] by blast
  obtain a' where a': "rfold (insert_agreeing ?ea) (data_aliases b) [] = Inr a'" "rfold (insert_agreeing ?ea) (data_aliases a) a' = Inr ab"
    using swap [OF aa ab] by blast
  let ?m1 = "(Data_empty own)\<lparr>data_values := v', data_aliases := a'\<rparr>"
  have b1: "merge_source c b (Data_empty own, [], []) = Inr (?m1, push_all [] ?eb', k')"
    unfolding merge_source_iff using pb k'(1) v'(1) a'(1)
    by (intro exI [of _ bb] exI [of _ ub] exI [of _ v'] exI [of _ a']) (simp add: Data_empty_def)
  have b2: "merge_source c a (?m1, push_all [] ?eb', k') = Inr (merged, push_all (push_all [] ?eb') ?ea', contributions)"
    unfolding merge_source_iff using pa k'(2) v'(2) a'(2)
    by (intro exI [of _ ba] exI [of _ ua] exI [of _ vb] exI [of _ ab]) (simp add: m)
  have "push_all (push_all [] xs) ys = push_all [] (xs @ ys)" for xs ys :: "(revision \<times> edit) list"
    by (simp add: push_all_def)
  with push_all_permuted [of "?ea' @ ?eb'" "?eb' @ ?ea'"] e
  have "same_effects effects (push_all (push_all [] ?eb') ?ea')" by simp
  with b1 b2 show ?thesis by auto
qed

definition checkpoint_revisions :: "Data \<Rightarrow> revision set" where
  "checkpoint_revisions d = set_option (data_revision d) \<union> snd ` set (data_versions d)
     \<union> add_revision ` \<Union> (set ` snd ` set (data_additions d))"

lemma advance_revision_commute:
  assumes "clock_monotone R" and "a \<in> R" and "b \<in> R" and "set_option (data_revision d) \<subseteq> R"
  shows "advance_revision a (advance_revision b d) = advance_revision b (advance_revision a d)"
  using assms newer_iff_less [OF assms(1)]
  by (auto simp: advance_revision_def split: option.splits)

lemma Data_apply_revision:
  assumes "Data_apply c t d = Inr d'" and "set_option (data_revision d) \<subseteq> R" and "tx_revision t \<in> R"
  shows "set_option (data_revision d') \<subseteq> R"
proof -
  have scope: "data_revision d2 = data_revision d1" if "apply_scope c e key path r d1 = Inr d2" for e key path r d1 d2
  proof -
    have mark: "data_revision (mark_deleted k p x) = data_revision x" for k p x by (simp add: mark_deleted_def)
    from that show ?thesis
      by (cases e) (auto simp: apply_scope_def Let_def mark split: option.splits)
  qed
  have edit: "data_revision d2 = data_revision d1" if run: "apply_edit c e r d1 = Inr d2" for e r d1 d2
  proof (cases e)
    case (ReplaceRecords pre rs)
    from run ReplaceRecords have "d2 = d1 \<or> (\<exists>x. rfold (\<lambda>key. apply_scope c (record_effect pre rs key) key [] r)
        (namespace_keys pre rs (data_values d1)) d1 = Inr x \<and> data_revision d2 = data_revision x)"
      by (auto simp: apply_records_def Let_def split: if_splits option.splits)
    moreover have "data_revision x = data_revision d1"
      if step: "rfold (\<lambda>key. apply_scope c (record_effect pre rs key) key [] r)
        (namespace_keys pre rs (data_values d1)) d1 = Inr x" for x
      by (rule rfold_invariant [OF step, where P = "\<lambda>x. data_revision x = data_revision d1"]) (auto dest: scope)
    ultimately show ?thesis by auto
  qed (use run scope in auto)
  from assms(1) obtain d1 where run: "rfold (\<lambda>e. rfold (\<lambda>e'. apply_edit c e' (tx_revision t)) (expand_patch e))
      (tx_edits t) d = Inr d1" and d': "d' = advance_revision (tx_revision t) d1"
    by (auto simp: Data_apply_def split: if_splits)
  have "data_revision d1 = data_revision d"
  proof (rule rfold_invariant [OF run, where P = "\<lambda>x. data_revision x = data_revision d"])
    fix e x y assume "data_revision x = data_revision d"
      and step: "rfold (\<lambda>e'. apply_edit c e' (tx_revision t)) (expand_patch e) x = Inr y"
    then show "data_revision y = data_revision d"
      by (intro rfold_invariant [OF step, where P = "\<lambda>x. data_revision x = data_revision d"]) (auto dest: edit)
  qed simp
  with assms(2,3) d' show ?thesis by (auto simp: advance_revision_def split: if_splits)
qed

lemma group_additions_revisions: "fst ` set (group_additions adds) \<subseteq> add_revision ` set adds"
proof -
  have "fst ` set (foldl (\<lambda>m a. push_entry (add_revision a, add_delta a) m) m adds) \<subseteq>
      fst ` set m \<union> add_revision ` set adds" for m
  proof (induction adds arbitrary: m)
    case (Cons a adds)
    have "fst ` set (push_entry (add_revision a, add_delta a) m) = insert (add_revision a) (fst ` set m)"
      by (simp only: push_entry_def fst_bm_insert fst_conv)
    with Cons [of "push_entry (add_revision a, add_delta a) m"] show ?case by auto
  qed simp
  from this [of "[]"] show ?thesis by (simp add: group_additions_def)
qed

lemma source_contributions_revisions:
  "(snd \<circ> fst) ` set (source_contributions (data_additions d)) \<subseteq> checkpoint_revisions d"
proof -
  have "(snd \<circ> fst) ` set (source_contributions (data_additions d)) =
      (\<Union>ea \<in> set (data_additions d). fst ` set (group_additions (snd ea)))"
    by (force simp: source_contributions_def)
  also have "\<dots> \<subseteq> add_revision ` \<Union> (set ` snd ` set (data_additions d))"
    using group_additions_revisions by fastforce
  finally show ?thesis by (auto simp: checkpoint_revisions_def)
qed

lemma merge_sources_revisions:
  assumes "rfold (merge_source c) [a, b] (Data_empty own, [], []) = Inr (merged, effects, contributions)"
  shows "fst ` set effects \<union> (snd \<circ> fst) ` set contributions \<subseteq> checkpoint_revisions a \<union> checkpoint_revisions b"
    and "data_revision merged = None"
proof -
  from assms obtain m1 e1 c1 where "merge_source c a (Data_empty own, [], []) = Inr (m1, e1, c1)"
    and "merge_source c b (m1, e1, c1) = Inr (merged, effects, contributions)" by auto
  then obtain ba bb where
    e: "effects = push_all (push_all [] (source_effects c ba (data_versions a))) (source_effects c bb (data_versions b))"
    and k: "rfold (insert_agreeing (Err ''Conflicting checkpoint increment identity''))
      (source_contributions (data_additions a) @ source_contributions (data_additions b)) [] = Inr contributions"
    and m: "data_revision merged = None"
    unfolding merge_source_iff by (auto simp: Data_empty_def rfold_append)
  from m show "data_revision merged = None" .
  have "fst ` set effects = snd ` set (data_versions a) \<union> snd ` set (data_versions b)"
    by (simp add: e push_all_keys push_all_wf source_effects_def image_image)
  moreover have "set contributions = set (source_contributions (data_additions a)) \<union> set (source_contributions (data_additions b))"
    using k unfolding insert_all_Inr [OF bm_wf_Nil] by simp
  ultimately show "fst ` set effects \<union> (snd \<circ> fst) ` set contributions \<subseteq> checkpoint_revisions a \<union> checkpoint_revisions b"
    using source_contributions_revisions [of a] source_contributions_revisions [of b]
    by (auto simp: checkpoint_revisions_def image_Un)
qed

lemma sort_all_effects_keys: "sort_all_effects c es = Inr fs \<Longrightarrow> map fst fs = map fst es"
  unfolding sort_all_effects_def by (induction es arbitrary: fs) auto

lemma add_contributions_keys:
  assumes "rfold (add_contribution c) ks es = Inr fs"
  shows "fst ` set fs \<subseteq> fst ` set es \<union> (snd \<circ> fst) ` set ks"
  using assms
proof (induction ks arbitrary: es)
  case (Cons x ks)
  then obtain es1 where one: "add_contribution c x es = Inr es1" and rest: "rfold (add_contribution c) ks es1 = Inr fs" by auto
  from one have "fst ` set es1 = insert (snd (fst x)) (fst ` set es)"
    by (clarsimp simp add: add_contribution_def Let_def split: option.splits)
  with Cons.IH [OF rest] show ?case by auto
qed simp

text \<open>C17: joining two checkpoints does not depend on which side runs the merge: when the merge
  succeeds one way it succeeds the other way with the same dataset.  The JSON text of edits has
  to tell edits apart, and no author's clock may run backwards.\<close>

theorem Data_merge_commutes:
  assumes "Data_merge c a b = Inr joined" and "inj (edit_text c)"
    and "clock_monotone (checkpoint_revisions a \<union> checkpoint_revisions b)"
  shows "Data_merge c b a = Inr joined"
proof -
  let ?R = "checkpoint_revisions a \<union> checkpoint_revisions b"
  from assms(1) obtain merged effects contributions es fs ts d where own: "data_owner a = data_owner b"
    and src: "rfold (merge_source c) [a, b] (Data_empty (data_owner a), [], []) = Inr (merged, effects, contributions)"
    and es: "sort_all_effects c effects = Inr es" and fs: "rfold (add_contribution c) contributions es = Inr fs"
    and ts: "ordered tx_id tx_revision (map (effect_transaction (data_owner merged)) fs) = Inr ts"
    and d: "rfold (Data_apply c) ts merged = Inr d"
    and j: "joined = fold advance_revision (revision_list a @ revision_list b) d"
    by (auto simp: Data_merge_def split: if_splits)
  obtain effects' where src': "rfold (merge_source c) [b, a] (Data_empty (data_owner b), [], []) = Inr (merged, effects', contributions)"
    and same: "same_effects effects effects'"
    using merge_sources_swapped [OF src] own by auto
  have es': "sort_all_effects c effects' = Inr es"
    using sort_all_effects_permuted [OF same assms(2)] es by simp
  have "fst ` set fs \<subseteq> ?R"
    using add_contributions_keys [OF fs] sort_all_effects_keys [OF es] merge_sources_revisions(1) [OF src]
    by (metis (no_types, lifting) Un_subset_iff list.set_map order_trans Un_mono order_refl)
  then have "tx_revision ` set ts \<subseteq> ?R"
    using ordered_facts(1) [OF ts] by (auto simp: effect_transaction_def)
  then have "set_option (data_revision d) \<subseteq> ?R"
    using rfold_invariant [OF d, where P = "\<lambda>x. set_option (data_revision x) \<subseteq> ?R"]
      merge_sources_revisions(2) [OF src] Data_apply_revision [of c _ _ _ ?R] by (simp add: image_subset_iff)
  then have "fold advance_revision (revision_list b @ revision_list a) d = joined"
    using advance_revision_commute [OF assms(3), of _ _ d]
    by (auto simp: j revision_list_def checkpoint_revisions_def split: option.splits)
  with own src' es' fs ts d show ?thesis
    unfolding Data_merge_def by (simp del: rbind_eq_Inr rfold.simps)
qed

section \<open>Witnesses\<close>

text \<open>A concrete text of edits that tells edits apart.\<close>

definition int_str :: "int \<Rightarrow> string" where
  "int_str n = (if n < 0 then CHR ''-'' else CHR ''+'') # replicate (nat \<bar>n\<bar>) CHR ''1'' @ ''.''"

fun json_str :: "json \<Rightarrow> string" where
  "json_str JNull = ''n''"
| "json_str (JBool b) = (if b then ''t'' else ''f'')"
| "json_str (JInt n) = CHR ''i'' # int_str n"
| "json_str (JFloat q) = CHR ''q'' # int_str (fst (quotient_of q)) @ int_str (snd (quotient_of q))"
| "json_str (JStr s) = CHR ''s'' # text_str s"
| "json_str (JArr xs) = CHR ''a'' # concat (map (\<lambda>x. CHR ''x'' # json_str x) xs) @ ''.''"
| "json_str (JObj m) = CHR ''o'' # concat (map (\<lambda>e. CHR ''x'' # text_str (fst e) @ json_str (snd e)) m) @ ''.''"

fun edit_str :: "edit \<Rightarrow> string" where
  "edit_str (Set k p v) = CHR ''S'' # text_str k @ concat (map path_str p) @ CHR ''='' # json_str v"
| "edit_str (Delete k p) = CHR ''D'' # text_str k @ concat (map path_str p) @ ''=''"
| "edit_str (Increment k p n) = CHR ''I'' # text_str k @ concat (map path_str p) @ CHR ''='' # int_str n"
| "edit_str (Patch k sets ds) = CHR ''P'' # text_str k @ json_str (JObj sets) @ concat (map (\<lambda>d. CHR ''x'' # text_str d) ds)"
| "edit_str (ReplaceRecords p rs) = CHR ''R'' # text_str p @ json_str (JObj rs)"

definition merge_sample_codec :: merge_codec where
  "merge_sample_codec = codec.extend tagged_codec \<lparr>edit_text = edit_str\<rparr>"

text \<open>\<open>unfused f\<close>: codes can be told apart whatever follows them.\<close>

definition unfused :: "('a \<Rightarrow> string) \<Rightarrow> 'a \<Rightarrow> bool" where
  "unfused f x \<longleftrightarrow> (\<forall>y r s. f x @ r = f y @ s \<longrightarrow> x = y \<and> r = s)"

lemma unfusedD: "unfused f x \<Longrightarrow> f x @ r = f y @ s \<Longrightarrow> x = y \<and> r = s"
  by (simp add: unfused_def)

lemma text_str_unfused: "unfused text_str s"
  unfolding unfused_def by (metis Pair_inject option.inject text_of_str)

lemma replicate_unfused: "replicate n a @ b # r = replicate m a @ b # s \<Longrightarrow> a \<noteq> b \<Longrightarrow> n = m \<and> r = s"
proof (induction n arbitrary: m)
  case 0
  then show ?case by (cases m) auto
next
  case (Suc n)
  then show ?case by (cases m) auto
qed

lemma int_str_unfused: "unfused int_str n"
  unfolding unfused_def int_str_def by (auto dest!: replicate_unfused split: if_splits)

lemma list_unfused:
  assumes "\<forall>x \<in> set xs. unfused f x"
    and "concat (map (\<lambda>x. CHR ''x'' # f x) xs) @ CHR ''.'' # r = concat (map (\<lambda>x. CHR ''x'' # f x) ys) @ CHR ''.'' # s"
  shows "xs = ys \<and> r = s"
  using assms
proof (induction xs arbitrary: ys)
  case Nil
  then show ?case by (cases ys) auto
next
  case (Cons x xs)
  from Cons.prems(2) obtain y ys' where ys: "ys = y # ys'" by (cases ys) auto
  have "unfused f x" using Cons.prems(1) by simp
  from unfusedD [OF this, of "concat (map (\<lambda>x. CHR ''x'' # f x) xs) @ CHR ''.'' # r" y] Cons.prems(2)
  show ?case using Cons.IH [of ys'] Cons.prems(1) by (auto simp: ys)
qed

lemma quotient_of_inj: "quotient_of p = quotient_of q \<Longrightarrow> p = q"
  by (metis quotient_of_inject)

lemma pair_unfused:
  assumes "unfused json_str (snd e)"
  shows "unfused (\<lambda>e. text_str (fst e) @ json_str (snd e)) e"
  unfolding unfused_def
  using unfusedD [OF text_str_unfused [of "fst e"]] unfusedD [OF assms] by (metis append.assoc prod_eqI)

lemma json_str_unfused: "unfused json_str v"
proof (induction v)
  case JNull
  show ?case unfolding unfused_def
  proof (intro allI impI)
    fix y r s assume "json_str JNull @ r = json_str y @ s"
    then show "JNull = y \<and> r = s" by (cases y) (auto split: if_splits)
  qed
next
  case (JBool b)
  show ?case unfolding unfused_def
  proof (intro allI impI)
    fix y r s assume "json_str (JBool b) @ r = json_str y @ s"
    then show "JBool b = y \<and> r = s" by (cases y) (auto split: if_splits)
  qed
next
  case (JInt n)
  show ?case unfolding unfused_def
  proof (intro allI impI)
    fix y r s assume "json_str (JInt n) @ r = json_str y @ s"
    then show "JInt n = y \<and> r = s"
      by (cases y) (auto split: if_splits dest: unfusedD [OF int_str_unfused])
  qed
next
  case (JFloat q)
  show ?case unfolding unfused_def
  proof (intro allI impI)
    fix y r s assume "json_str (JFloat q) @ r = json_str y @ s"
    then show "JFloat q = y \<and> r = s"
      by (cases y) (auto split: if_splits intro!: quotient_of_inj prod_eqI dest!: unfusedD [OF int_str_unfused])
  qed
next
  case (JStr t)
  show ?case unfolding unfused_def
  proof (intro allI impI)
    fix y r s assume "json_str (JStr t) @ r = json_str y @ s"
    then show "JStr t = y \<and> r = s"
      by (cases y) (auto split: if_splits dest: unfusedD [OF text_str_unfused])
  qed
next
  case (JArr xs)
  then have xs: "\<forall>x \<in> set xs. unfused json_str x" by simp
  show ?case unfolding unfused_def
  proof (intro allI impI)
    fix y r s assume "json_str (JArr xs) @ r = json_str y @ s"
    then show "JArr xs = y \<and> r = s"
      by (cases y) (auto split: if_splits dest: list_unfused [OF xs])
  qed
next
  case (JObj m)
  then have m: "\<forall>e \<in> set m. unfused (\<lambda>e. text_str (fst e) @ json_str (snd e)) e"
    by (metis pair_unfused snds.intros)
  show ?case unfolding unfused_def
  proof (intro allI impI)
    fix y r s assume "json_str (JObj m) @ r = json_str y @ s"
    then show "JObj m = y \<and> r = s"
      by (cases y) (auto split: if_splits dest: list_unfused [OF m])
  qed
qed

lemma paths_unfused:
  "concat (map path_str p) @ CHR ''='' # r = concat (map path_str q) @ CHR ''='' # s \<Longrightarrow> p = q \<and> r = s"
proof (induction p arbitrary: q)
  case Nil
  then show ?case
  proof (cases q)
    case (Cons x q')
    with Nil show ?thesis by (cases x) auto
  qed simp
next
  case (Cons x p)
  then obtain y q' where q: "q = y # q'" by (cases q; cases x) auto
  from Cons show ?case
    by (cases x; cases y) (auto simp: q dest!: unfusedD [OF text_str_unfused])
qed

lemma list_str_inj:
  "concat (map (\<lambda>d. CHR ''x'' # text_str d) ds) = concat (map (\<lambda>d. CHR ''x'' # text_str d) es) \<Longrightarrow> ds = es"
  using list_unfused [of ds text_str "[]" es "[]"] text_str_unfused by simp

lemma edit_str_inj: "inj edit_str"
proof (rule injI)
  fix e f assume eq: "edit_str e = edit_str f"
  have json: "json_str v = json_str w \<Longrightarrow> v = w" for v w
    using unfusedD [OF json_str_unfused, of v "[]" w "[]"] by simp
  have int: "int_str n = int_str m \<Longrightarrow> n = m" for n m
    using unfusedD [OF int_str_unfused, of n "[]" m "[]"] by simp
  have obj: "json_str (JObj m) @ r = json_str (JObj n) @ s \<Longrightarrow> m = n \<and> r = s" for m n r s
    using unfusedD [OF json_str_unfused, of "JObj m" r "JObj n" s] by simp
  show "e = f"
  proof (cases e)
    case (Patch k sets ds)
    with eq obtain k' sets' ds' where f: "f = Patch k' sets' ds'" by (cases f) auto
    from eq Patch f have "k = k' \<and> json_str (JObj sets) @ concat (map (\<lambda>d. CHR ''x'' # text_str d) ds)
        = json_str (JObj sets') @ concat (map (\<lambda>d. CHR ''x'' # text_str d) ds')"
      by (auto simp del: json_str.simps dest!: unfusedD [OF text_str_unfused])
    with obj list_str_inj Patch f show ?thesis by blast
  next
    case (ReplaceRecords k rs)
    with eq obtain k' rs' where f: "f = ReplaceRecords k' rs'" by (cases f) auto
    from eq ReplaceRecords f show ?thesis
      by (auto simp del: json_str.simps dest!: unfusedD [OF text_str_unfused] json)
  next
    case (Set k p v)
    with eq show ?thesis by (cases f) (auto dest!: unfusedD [OF text_str_unfused] paths_unfused json)
  next
    case (Delete k p)
    with eq show ?thesis
      by (cases f) (auto dest!: unfusedD [OF text_str_unfused], metis option.inject paths_of_str)
  next
    case (Increment k p n)
    with eq show ?thesis by (cases f) (auto dest!: unfusedD [OF text_str_unfused] paths_unfused int)
  qed
qed

definition checkpoint_a :: Data where
  "checkpoint_a = (Data_empty sample_owner)\<lparr>data_values := [(''n'', JInt 5), (''x'', JInt 1)],
     data_revision := Some (Revision 3 ''A'' 2),
     data_versions := [(scope_str tagged_codec (''x'', []), Revision 1 ''A'' 1)],
     data_additions := [(scope_str tagged_codec (''n'', []), [\<lparr>add_revision = Revision 3 ''A'' 2, add_delta = 5\<rparr>])]\<rparr>"

definition checkpoint_b :: Data where
  "checkpoint_b = (Data_empty sample_owner)\<lparr>data_values := [(''n'', JInt 0), (''x'', JInt 2)],
     data_revision := Some (Revision 2 ''B'' 1),
     data_versions := [(scope_str tagged_codec (''x'', []), Revision 2 ''B'' 1)]\<rparr>"

theorem Data_merge_commutes_witness:
  "\<exists>joined. Data_merge merge_sample_codec checkpoint_a checkpoint_b = Inr joined \<and>
     Data_merge merge_sample_codec checkpoint_b checkpoint_a = Inr joined \<and>
     data_values joined = [(''n'', JInt 5), (''x'', JInt 2)]"
proof -
  have "(case Data_merge merge_sample_codec checkpoint_a checkpoint_b of
      Inr joined \<Rightarrow> data_values joined = [(''n'', JInt 5), (''x'', JInt 2)] | Inl _ \<Rightarrow> False)"
    by code_simp
  then obtain joined where run: "Data_merge merge_sample_codec checkpoint_a checkpoint_b = Inr joined"
    and vals: "data_values joined = [(''n'', JInt 5), (''x'', JInt 2)]" by (auto split: sum.splits)
  have "Data_merge merge_sample_codec checkpoint_b checkpoint_a = Inr joined"
    by (rule Data_merge_commutes [OF run])
      (auto simp: merge_sample_codec_def codec.defs edit_str_inj clock_monotone_def checkpoint_revisions_def
        checkpoint_a_def checkpoint_b_def Data_empty_def)
  with run vals show ?thesis by blast
qed

end
