(* ===== verification/Markdown_Plugins.thy ===== *)
theory Markdown_Plugins
  imports Stream_Plugin
begin

text \<open>
  The Markdown plugins (\<open>StreamMarkdownPlugin.rs\<close>): fenced code, headers, block quotes, ordered
  and unordered lists, display mathematics in both notations, images, tables and footnote
  definitions, each a state machine over characters.
\<close>

section \<open>Fenced code blocks\<close>

record fenced =
  fc_include_fences :: bool
  fc_state :: PluginState
  fence_len :: nat
  is_matching_end_fence :: bool
  has_started_matching_fence :: bool

definition fenced_reset :: "fenced \<Rightarrow> fenced" where
  "fenced_reset p = p\<lparr>fc_state := Idle, fence_len := 0, is_matching_end_fence := False,
     has_started_matching_fence := False\<rparr>"

definition fenced_new :: "bool \<Rightarrow> fenced" where
  "fenced_new include_fences = fenced_reset \<lparr>fc_include_fences = include_fences, fc_state = Idle,
     fence_len = 0, is_matching_end_fence = False, has_started_matching_fence = False\<rparr>"

text \<open>Inside a block, while the start of a line may be the closing fence.\<close>

definition fenced_match_end :: "fenced \<Rightarrow> rchar \<Rightarrow> bool \<times> fenced" where
  "fenced_match_end p c =
     (if \<not> has_started_matching_fence p \<and> c = ch CHR '' '' then (fc_include_fences p, p)
      else let p = p\<lparr>has_started_matching_fence := True\<rparr> in
        if c = ch CHR 0x60 then (fc_include_fences p, p\<lparr>fence_len := fence_len p + 1\<rparr>)
        else if c = newline \<and> 3 \<le> fence_len p then (fc_include_fences p, fenced_reset p)
        else (True, p\<lparr>is_matching_end_fence := False, fence_len := 0\<rparr>))"

definition fenced_processing :: "fenced \<Rightarrow> rchar \<Rightarrow> bool \<Rightarrow> bool \<times> fenced" where
  "fenced_processing p c at_start_of_line =
     (let p = (if at_start_of_line
               then p\<lparr>is_matching_end_fence := True, has_started_matching_fence := False\<rparr> else p)
      in if is_matching_end_fence p then fenced_match_end p c else (True, p))"

definition fenced_trying :: "fenced \<Rightarrow> rchar \<Rightarrow> bool \<times> fenced" where
  "fenced_trying p c =
     (if c = ch CHR 0x60 then (fc_include_fences p, p\<lparr>fence_len := fence_len p + 1\<rparr>)
      else if c = newline then
        (if 3 \<le> fence_len p
         then (fc_include_fences p, p\<lparr>fc_state := Processing, is_matching_end_fence := False,
                 has_started_matching_fence := False, fence_len := 0\<rparr>)
         else (True, fenced_reset p))
      else if fence_len p < 3 then (True, fenced_reset p)
      else (fc_include_fences p, p))"

definition fenced_process_char :: "fenced \<Rightarrow> rchar \<Rightarrow> bool \<Rightarrow> bool \<times> fenced" where
  "fenced_process_char p c at_start_of_line = (case fc_state p of
     Processing \<Rightarrow> fenced_processing p c at_start_of_line
   | Idle \<Rightarrow>
       if at_start_of_line \<and> c = ch CHR 0x60
       then (fc_include_fences p, p\<lparr>fc_state := Trying, fence_len := 1\<rparr>) else (True, p)
   | Trying \<Rightarrow> fenced_trying p c
   | WaitFor \<Rightarrow> (True, p))"

section \<open>Headers\<close>

record header =
  hd_include_marker :: bool
  hd_state :: PluginState
  hash_count :: nat
  in_match :: bool

definition header_reset :: "header \<Rightarrow> header" where
  "header_reset p = p\<lparr>hd_state := Idle, hash_count := 0, in_match := False\<rparr>"

definition header_new :: "bool \<Rightarrow> header" where
  "header_new include_marker = header_reset \<lparr>hd_include_marker = include_marker, hd_state = Idle,
     hash_count = 0, in_match = False\<rparr>"

definition header_process_char :: "header \<Rightarrow> rchar \<Rightarrow> bool \<Rightarrow> bool \<times> header" where
  "header_process_char p c at_start_of_line =
     (if hd_state p = Processing then (True, if c = newline then header_reset p else p)
      else let p = (if at_start_of_line then p\<lparr>in_match := True, hash_count := 0, hd_state := Idle\<rparr> else p) in
        if \<not> in_match p \<and> hd_state p \<noteq> Trying then (True, p)
        else if c = ch CHR ''#'' then (hd_include_marker p, p\<lparr>hash_count := hash_count p + 1, hd_state := Trying\<rparr>)
        else if c = ch CHR '' '' \<and> 1 \<le> hash_count p \<and> hash_count p \<le> 6
        then (hd_include_marker p, p\<lparr>hd_state := Processing, in_match := False\<rparr>)
        else (True, header_reset p))"

section \<open>Block quotes\<close>

record quote =
  bq_include_marker :: bool
  bq_state :: PluginState
  match_index :: nat

definition quote_reset :: "quote \<Rightarrow> quote" where
  "quote_reset p = p\<lparr>bq_state := Idle, match_index := 0\<rparr>"

definition quote_new :: "bool \<Rightarrow> quote" where
  "quote_new include_marker = quote_reset \<lparr>bq_include_marker = include_marker, bq_state = Idle, match_index = 0\<rparr>"

definition quote_process_char :: "quote \<Rightarrow> rchar \<Rightarrow> bool \<Rightarrow> bool \<times> quote" where
  "quote_process_char p c at_start_of_line =
     (if bq_state p = Processing then
        (if c = newline then (True, p\<lparr>bq_state := WaitFor\<rparr>)
         else if match_index p = 1 then
           (if c = ch CHR '' '' then bq_include_marker p else True, p\<lparr>match_index := 0\<rparr>)
         else (True, p))
      else if bq_state p = WaitFor then
        (if at_start_of_line \<and> c = ch CHR ''>''
         then (bq_include_marker p, p\<lparr>bq_state := Processing, match_index := 1\<rparr>)
         else (True, quote_reset p))
      else if at_start_of_line \<and> c = ch CHR ''>''
      then (bq_include_marker p, p\<lparr>bq_state := Trying, match_index := 1\<rparr>)
      else if bq_state p = Trying \<and> match_index p = 1
      then (if c = ch CHR '' '' then bq_include_marker p else True, p\<lparr>bq_state := Processing, match_index := 0\<rparr>)
      else (True, p))"

section \<open>Lists\<close>

text \<open>Both list plugins share their record and the reset.\<close>

record list_item =
  li_include_marker :: bool
  li_state :: PluginState
  match_state :: nat

definition list_reset :: "list_item \<Rightarrow> list_item" where
  "list_reset p = p\<lparr>li_state := Idle, match_state := 0\<rparr>"

definition list_new :: "bool \<Rightarrow> list_item" where
  "list_new include_marker = list_reset \<lparr>li_include_marker = include_marker, li_state = Idle, match_state = 0\<rparr>"

definition blank :: "rchar \<Rightarrow> bool" where
  "blank c \<longleftrightarrow> c = ch CHR '' '' \<or> c = tab"

definition ordered_process_char :: "list_item \<Rightarrow> rchar \<Rightarrow> bool \<Rightarrow> bool \<times> list_item" where
  "ordered_process_char p c at_start_of_line =
     (if li_state p = Processing then (True, if c = newline then list_reset p else p)
      else let p = (if at_start_of_line then p\<lparr>match_state := 0, li_state := Idle\<rparr> else p) in
        if \<not> at_start_of_line \<and> li_state p \<noteq> Trying then (True, p)
        else if match_state p = 0 then
          (if blank c then (li_include_marker p, p\<lparr>li_state := Trying\<rparr>)
           else if is_digit c then (li_include_marker p, p\<lparr>li_state := Trying, match_state := 1\<rparr>)
           else (True, list_reset p))
        else if match_state p = 1 then
          (if is_digit c then (li_include_marker p, p\<lparr>li_state := Trying\<rparr>)
           else if c = ch CHR ''.'' \<or> c = ch CHR '')''
           then (li_include_marker p, p\<lparr>match_state := 2, li_state := Trying\<rparr>)
           else (True, list_reset p))
        else if match_state p = 2 then
          (if blank c then (li_include_marker p, p\<lparr>li_state := Processing, match_state := 0\<rparr>)
           else (True, list_reset p))
        else (True, list_reset p))"

definition unordered_process_char :: "list_item \<Rightarrow> rchar \<Rightarrow> bool \<Rightarrow> bool \<times> list_item" where
  "unordered_process_char p c at_start_of_line =
     (if li_state p = Processing then (True, if c = newline then list_reset p else p)
      else let p = (if at_start_of_line then p\<lparr>match_state := 0, li_state := Idle\<rparr> else p) in
        if \<not> at_start_of_line \<and> li_state p \<noteq> Trying then (True, p)
        else if match_state p = 0 then
          (if blank c then (li_include_marker p, p\<lparr>li_state := Trying\<rparr>)
           else if c \<in> {ch CHR ''-'', ch CHR ''+'', ch CHR ''*''}
           then (li_include_marker p, p\<lparr>li_state := Trying, match_state := 1\<rparr>)
           else (True, list_reset p))
        else if match_state p = 1 then
          (if blank c then (li_include_marker p, p\<lparr>li_state := Processing, match_state := 0\<rparr>)
           else (True, list_reset p))
        else (True, list_reset p))"

section \<open>Display mathematics\<close>

record math =
  mt_include_delimiters :: bool
  mt_state :: PluginState
  start_state :: nat
  end_state :: nat

definition math_reset :: "math \<Rightarrow> math" where
  "math_reset p = p\<lparr>mt_state := Idle, start_state := 0, end_state := 0\<rparr>"

definition math_new :: "bool \<Rightarrow> math" where
  "math_new include_delimiters = math_reset \<lparr>mt_include_delimiters = include_delimiters, mt_state = Idle,
     start_state = 0, end_state = 0\<rparr>"

text \<open>Inside a formula: the first and second character of the closing delimiter.\<close>

definition math_processing :: "rchar \<Rightarrow> rchar \<Rightarrow> math \<Rightarrow> rchar \<Rightarrow> bool \<times> math" where
  "math_processing e1 e2 p c =
     (if end_state p = 0 then
        (if c = e1 then (mt_include_delimiters p, p\<lparr>end_state := 1\<rparr>) else (True, p))
      else if end_state p = 1 then
        (if c = e2 then (mt_include_delimiters p, math_reset p) else (True, p\<lparr>end_state := 0\<rparr>))
      else (True, p\<lparr>end_state := 0\<rparr>))"

definition latex_process_char :: "math \<Rightarrow> rchar \<Rightarrow> bool \<Rightarrow> bool \<times> math" where
  "latex_process_char p c at_start_of_line =
     (if mt_state p = Processing then math_processing (ch CHR ''$'') (ch CHR ''$'') p c
      else if start_state p = 0 then
        (if c = ch CHR ''$'' then (mt_include_delimiters p, p\<lparr>start_state := 1, mt_state := Trying\<rparr>) else (True, p))
      else if start_state p = 1 then
        (if c = ch CHR ''$''
         then (mt_include_delimiters p, p\<lparr>mt_state := Processing, start_state := 0, end_state := 0\<rparr>)
         else (True, math_reset p))
      else (True, math_reset p))"

definition bracket_process_char :: "math \<Rightarrow> rchar \<Rightarrow> bool \<Rightarrow> bool \<times> math" where
  "bracket_process_char p c at_start_of_line =
     (if mt_state p = Processing then math_processing (ch CHR 0x5C) (ch CHR '']'') p c
      else if start_state p = 0 then
        (if c = ch CHR 0x5C then (mt_include_delimiters p, p\<lparr>start_state := 1, mt_state := Trying\<rparr>) else (True, p))
      else if start_state p = 1 then
        (if c = ch CHR ''['' then (mt_include_delimiters p, p\<lparr>start_state := 2\<rparr>) else (True, math_reset p))
      else if start_state p = 2 then
        (True, if c = ch CHR ''^'' then math_reset p
          else p\<lparr>mt_state := Processing, start_state := 0, end_state := (if c = ch CHR 0x5C then 1 else 0)\<rparr>)
      else (True, math_reset p))"

section \<open>Images\<close>

record image =
  im_include_delimiters :: bool
  im_state :: PluginState
  im_phase :: nat

definition image_reset :: "image \<Rightarrow> image" where
  "image_reset p = p\<lparr>im_state := Idle, im_phase := 0\<rparr>"

definition image_new :: "bool \<Rightarrow> image" where
  "image_new include_delimiters = image_reset \<lparr>im_include_delimiters = include_delimiters, im_state = Idle, im_phase = 0\<rparr>"

definition image_process_char :: "image \<Rightarrow> rchar \<Rightarrow> bool \<Rightarrow> bool \<times> image" where
  "image_process_char p c at_start_of_line =
     (if im_state p = Idle then
        (if c = ch CHR ''!'' then (im_include_delimiters p, p\<lparr>im_state := Trying, im_phase := 1\<rparr>) else (True, p))
      else if im_state p = Trying \<or> im_state p = Processing then
        (if c = newline then (True, image_reset p)
         else if im_phase p = 1 then
           (if c = ch CHR ''['' then (im_include_delimiters p, p\<lparr>im_phase := 2, im_state := Processing\<rparr>)
            else (True, image_reset p))
         else if im_phase p = 2 then
           (im_include_delimiters p, if c = ch CHR '']'' then p\<lparr>im_phase := 3\<rparr> else p)
         else if im_phase p = 3 then
           (if c = ch CHR ''('' then (im_include_delimiters p, p\<lparr>im_phase := 4\<rparr>) else (True, image_reset p))
         else if im_phase p = 4 then
           (im_include_delimiters p, if c = ch CHR '')'' then image_reset p else p)
         else (True, p))
      else (True, p))"

section \<open>Tables\<close>

record table =
  tb_include_delimiters :: bool
  tb_state :: PluginState
  table_row_count :: nat
  found_header_separator :: bool
  header_sep_match_state :: nat

definition table_reset :: "table \<Rightarrow> table" where
  "table_reset p = p\<lparr>tb_state := Idle, table_row_count := 0, found_header_separator := False,
     header_sep_match_state := 0\<rparr>"

definition table_new :: "bool \<Rightarrow> table" where
  "table_new include_delimiters = table_reset \<lparr>tb_include_delimiters = include_delimiters, tb_state = Idle,
     table_row_count = 0, found_header_separator = False, header_sep_match_state = 0\<rparr>"

definition table_process_char :: "table \<Rightarrow> rchar \<Rightarrow> bool \<Rightarrow> bool \<times> table" where
  "table_process_char p c at_start_of_line =
     (if c = newline then (True, if tb_state p = Processing then p\<lparr>tb_state := WaitFor\<rparr> else p)
      else if tb_state p = WaitFor \<and> at_start_of_line then
        (if c = ch CHR ''|''
         then (tb_include_delimiters p, p\<lparr>tb_state := Processing, table_row_count := table_row_count p + 1,
                 header_sep_match_state := 0\<rparr>)
         else (True, table_reset p))
      else if at_start_of_line then
        (if c = ch CHR ''|'' then
           (let p = (if tb_state p = Idle
                     then p\<lparr>tb_state := Processing, table_row_count := 1, found_header_separator := False\<rparr>
                     else if tb_state p = Processing then p\<lparr>table_row_count := table_row_count p + 1\<rparr> else p)
            in (tb_include_delimiters p, p\<lparr>header_sep_match_state := 0\<rparr>))
         else (True, if tb_state p = Processing then table_reset p else p))
      else if tb_state p = Processing then
        (let p = (if table_row_count p = 2 \<and> \<not> found_header_separator p \<and> header_sep_match_state p = 0
                  then p\<lparr>header_sep_match_state := 1\<rparr> else p)
         in (if tb_include_delimiters p then True else c \<noteq> ch CHR ''|'', p))
      else (True, p))"

section \<open>Footnote definitions\<close>

record footnote =
  fn_state :: PluginState
  fn_phase :: nat
  label_len :: nat
  indent :: nat

definition footnote_default :: footnote where
  "footnote_default = \<lparr>fn_state = Idle, fn_phase = 0, label_len = 0, indent = 0\<rparr>"

definition footnote_reset :: "footnote \<Rightarrow> footnote" where
  "footnote_reset p = footnote_default"

text \<open>The prefix \<open>[^label]:\<close> with up to three spaces before it.\<close>

definition footnote_prefix :: "footnote \<Rightarrow> rchar \<Rightarrow> footnote" where
  "footnote_prefix p c =
     (if fn_phase p = 0 \<and> c = ch CHR '' '' \<and> indent p < 3 then p\<lparr>indent := indent p + 1\<rparr>
      else if fn_phase p = 0 \<and> c = ch CHR ''['' then p\<lparr>fn_phase := 1\<rparr>
      else if fn_phase p = 1 \<and> c = ch CHR ''^'' then p\<lparr>fn_phase := 2\<rparr>
      else if fn_phase p = 2 \<and> c = ch CHR '']'' \<and> 0 < label_len p then p\<lparr>fn_phase := 3\<rparr>
      else if fn_phase p = 2 \<and> \<not> is_whitespace c \<and> c \<notin> {ch CHR ''['', ch CHR '']'', ch CHR 0x5C}
      then p\<lparr>label_len := label_len p + 1\<rparr>
      else if fn_phase p = 3 \<and> c = ch CHR '':'' then p\<lparr>fn_state := Processing\<rparr>
      else footnote_reset p)"

definition footnote_process_char :: "footnote \<Rightarrow> rchar \<Rightarrow> bool \<Rightarrow> bool \<times> footnote" where
  "footnote_process_char p c at_start_of_line = (True,
     case fn_state p of
       Processing \<Rightarrow> if c = newline then p\<lparr>fn_state := WaitFor, indent := 0\<rparr> else p
     | WaitFor \<Rightarrow>
         if c = ch CHR '' '' then
           (let p = p\<lparr>indent := indent p + 1\<rparr> in if indent p = 4 then p\<lparr>fn_state := Processing\<rparr> else p)
         else if c = tab then p\<lparr>fn_state := Processing\<rparr>
         else footnote_reset p
     | Idle \<Rightarrow> if at_start_of_line then footnote_prefix (p\<lparr>fn_state := Trying\<rparr>) c else p
     | Trying \<Rightarrow> footnote_prefix p c)"

section \<open>The plugins keep the contract\<close>

lemmas markdown_resets = fenced_reset_def header_reset_def quote_reset_def list_reset_def math_reset_def
  image_reset_def table_reset_def footnote_reset_def footnote_default_def

interpretation fenced: stream_plugin fc_state fenced_process_char fenced_reset fc_include_fences "\<lambda>p. fc_state p \<noteq> WaitFor"
  by unfold_locales
    (auto simp: fenced_process_char_def fenced_processing_def fenced_match_end_def fenced_trying_def
      markdown_resets Let_def split: PluginState.splits)

interpretation header: stream_plugin hd_state header_process_char header_reset hd_include_marker "\<lambda>p. hd_state p \<noteq> WaitFor"
  by unfold_locales (auto simp: header_process_char_def markdown_resets Let_def)

interpretation quote: stream_plugin bq_state quote_process_char quote_reset bq_include_marker "\<lambda>_. False"
  by unfold_locales (auto simp: quote_process_char_def markdown_resets Let_def)

interpretation ordered: stream_plugin li_state ordered_process_char list_reset li_include_marker "\<lambda>p. li_state p \<noteq> WaitFor"
  by unfold_locales (auto simp: ordered_process_char_def markdown_resets Let_def)

interpretation unordered: stream_plugin li_state unordered_process_char list_reset li_include_marker "\<lambda>p. li_state p \<noteq> WaitFor"
  by unfold_locales (auto simp: unordered_process_char_def markdown_resets Let_def)

interpretation latex: stream_plugin mt_state latex_process_char math_reset mt_include_delimiters "\<lambda>p. mt_state p \<noteq> WaitFor"
  by unfold_locales (auto simp: latex_process_char_def math_processing_def markdown_resets)

interpretation bracket: stream_plugin mt_state bracket_process_char math_reset mt_include_delimiters "\<lambda>p. mt_state p \<noteq> WaitFor"
  by unfold_locales (auto simp: bracket_process_char_def math_processing_def markdown_resets)

interpretation image: stream_plugin im_state image_process_char image_reset im_include_delimiters "\<lambda>p. im_state p \<noteq> WaitFor"
  by unfold_locales (auto simp: image_process_char_def markdown_resets)

interpretation table: stream_plugin tb_state table_process_char table_reset tb_include_delimiters "\<lambda>_. False"
  by unfold_locales (auto simp: table_process_char_def markdown_resets Let_def)

interpretation footnote: stream_plugin fn_state footnote_process_char footnote_reset "\<lambda>_. True" "\<lambda>_. False"
  by unfold_locales (auto simp: footnote_process_char_def markdown_resets)

section \<open>Phases stay in range\<close>

text \<open>
  The counters that name the phase of a match, in every state a plugin can reach; the final
  fall-through branches of the source are never taken.
\<close>

definition header_ok :: "header \<Rightarrow> bool" where
  "header_ok p \<longleftrightarrow> (hd_state p = Idle \<longrightarrow> hash_count p = 0) \<and> (hd_state p = Trying \<longrightarrow> 1 \<le> hash_count p \<and> in_match p)
     \<and> (hd_state p = Processing \<longrightarrow> 1 \<le> hash_count p \<and> hash_count p \<le> 6 \<and> \<not> in_match p) \<and> hd_state p \<noteq> WaitFor"

definition quote_ok :: "quote \<Rightarrow> bool" where
  "quote_ok p \<longleftrightarrow> match_index p \<le> 1 \<and> (bq_state p = Trying \<longrightarrow> match_index p = 1) \<and> (bq_state p = Idle \<longrightarrow> match_index p = 0)"

definition ordered_ok :: "list_item \<Rightarrow> bool" where
  "ordered_ok p \<longleftrightarrow> match_state p \<le> 2 \<and> (li_state p \<noteq> Trying \<longrightarrow> match_state p = 0) \<and> li_state p \<noteq> WaitFor"

definition unordered_ok :: "list_item \<Rightarrow> bool" where
  "unordered_ok p \<longleftrightarrow> match_state p \<le> 1 \<and> (li_state p \<noteq> Trying \<longrightarrow> match_state p = 0) \<and> li_state p \<noteq> WaitFor"

definition latex_ok :: "math \<Rightarrow> bool" where
  "latex_ok p \<longleftrightarrow> (case mt_state p of Idle \<Rightarrow> start_state p = 0 \<and> end_state p = 0
     | Trying \<Rightarrow> start_state p = 1 \<and> end_state p = 0 | Processing \<Rightarrow> start_state p = 0 \<and> end_state p \<le> 1 | WaitFor \<Rightarrow> False)"

definition bracket_ok :: "math \<Rightarrow> bool" where
  "bracket_ok p \<longleftrightarrow> (case mt_state p of Idle \<Rightarrow> start_state p = 0 \<and> end_state p = 0
     | Trying \<Rightarrow> (start_state p = 1 \<or> start_state p = 2) \<and> end_state p = 0
     | Processing \<Rightarrow> start_state p = 0 \<and> end_state p \<le> 1 | WaitFor \<Rightarrow> False)"

definition image_ok :: "image \<Rightarrow> bool" where
  "image_ok p \<longleftrightarrow> (case im_state p of Idle \<Rightarrow> im_phase p = 0 | Trying \<Rightarrow> im_phase p = 1
     | Processing \<Rightarrow> 2 \<le> im_phase p \<and> im_phase p \<le> 4 | WaitFor \<Rightarrow> False)"

definition footnote_ok :: "footnote \<Rightarrow> bool" where
  "footnote_ok p \<longleftrightarrow> (case fn_state p of Idle \<Rightarrow> p = footnote_default
     | Trying \<Rightarrow> fn_phase p \<le> 3 \<and> indent p \<le> 3 \<and> (fn_phase p = 3 \<longrightarrow> 0 < label_len p)
         \<and> (fn_phase p < 2 \<longrightarrow> label_len p = 0)
     | Processing \<Rightarrow> fn_phase p = 3 \<and> 0 < label_len p
     | WaitFor \<Rightarrow> fn_phase p = 3 \<and> 0 < label_len p \<and> indent p < 4)"

lemma header_ok_step: "header_ok p \<Longrightarrow> header_ok (snd (header_process_char p c b))"
  by (cases "hd_state p") (auto simp: header_ok_def header_process_char_def header_reset_def Let_def)

lemma quote_ok_step: "quote_ok p \<Longrightarrow> quote_ok (snd (quote_process_char p c b))"
  by (auto simp: quote_ok_def quote_process_char_def quote_reset_def)

lemma ordered_ok_step: "ordered_ok p \<Longrightarrow> ordered_ok (snd (ordered_process_char p c b))"
  by (auto simp: ordered_ok_def ordered_process_char_def list_reset_def Let_def)

lemma unordered_ok_step: "unordered_ok p \<Longrightarrow> unordered_ok (snd (unordered_process_char p c b))"
  by (auto simp: unordered_ok_def unordered_process_char_def list_reset_def Let_def)

lemma latex_ok_step: "latex_ok p \<Longrightarrow> latex_ok (snd (latex_process_char p c b))"
  by (cases "mt_state p") (auto simp: latex_ok_def latex_process_char_def math_processing_def math_reset_def)

lemma bracket_ok_step: "bracket_ok p \<Longrightarrow> bracket_ok (snd (bracket_process_char p c b))"
  by (cases "mt_state p") (auto simp: bracket_ok_def bracket_process_char_def math_processing_def math_reset_def)

lemma image_ok_step: "image_ok p \<Longrightarrow> image_ok (snd (image_process_char p c b))"
  by (cases "im_state p") (auto simp: image_ok_def image_process_char_def image_reset_def)

lemma footnote_ok_step: "footnote_ok p \<Longrightarrow> footnote_ok (snd (footnote_process_char p c b))"
  by (cases "fn_state p")
    (auto simp: footnote_ok_def footnote_process_char_def footnote_prefix_def footnote_reset_def footnote_default_def Let_def)


lemma header_ok_run: "header_ok (run_chars header_process_char (header_new i) b cs)"
  by (rule run_chars_invariant [of header_ok, OF _ header_ok_step]) (simp_all add: header_ok_def header_new_def markdown_resets)

lemma quote_ok_run: "quote_ok (run_chars quote_process_char (quote_new i) b cs)"
  by (rule run_chars_invariant [of quote_ok, OF _ quote_ok_step]) (simp_all add: quote_ok_def quote_new_def markdown_resets)

lemma ordered_ok_run: "ordered_ok (run_chars ordered_process_char (list_new i) b cs)"
  by (rule run_chars_invariant [of ordered_ok, OF _ ordered_ok_step]) (simp_all add: ordered_ok_def list_new_def markdown_resets)

lemma unordered_ok_run: "unordered_ok (run_chars unordered_process_char (list_new i) b cs)"
  by (rule run_chars_invariant [of unordered_ok, OF _ unordered_ok_step]) (simp_all add: unordered_ok_def list_new_def markdown_resets)

lemma latex_ok_run: "latex_ok (run_chars latex_process_char (math_new i) b cs)"
  by (rule run_chars_invariant [of latex_ok, OF _ latex_ok_step]) (simp_all add: latex_ok_def math_new_def markdown_resets)

lemma bracket_ok_run: "bracket_ok (run_chars bracket_process_char (math_new i) b cs)"
  by (rule run_chars_invariant [of bracket_ok, OF _ bracket_ok_step]) (simp_all add: bracket_ok_def math_new_def markdown_resets)

lemma image_ok_run: "image_ok (run_chars image_process_char (image_new i) b cs)"
  by (rule run_chars_invariant [of image_ok, OF _ image_ok_step]) (simp_all add: image_ok_def image_new_def markdown_resets)

lemma footnote_ok_run: "footnote_ok (run_chars footnote_process_char footnote_default b cs)"
  by (rule run_chars_invariant [of footnote_ok, OF _ footnote_ok_step]) (simp_all add: footnote_ok_def footnote_default_def markdown_resets)

text \<open>for every text, started anywhere, each Markdown plugin stays in its range of phases: the
  counters that name the phase of a match agree with the plugin's state, so the fall-through
  branches of the source are unreachable.\<close>

theorem markdown_phases_in_range:
  "header_ok (run_chars header_process_char (header_new i) b cs)
   \<and> quote_ok (run_chars quote_process_char (quote_new i) b cs)
   \<and> ordered_ok (run_chars ordered_process_char (list_new i) b cs)
   \<and> unordered_ok (run_chars unordered_process_char (list_new i) b cs)
   \<and> latex_ok (run_chars latex_process_char (math_new i) b cs)
   \<and> bracket_ok (run_chars bracket_process_char (math_new i) b cs)
   \<and> image_ok (run_chars image_process_char (image_new i) b cs)
   \<and> footnote_ok (run_chars footnote_process_char footnote_default b cs)"
  by (simp only: header_ok_run quote_ok_run ordered_ok_run unordered_ok_run latex_ok_run bracket_ok_run
      image_ok_run footnote_ok_run simp_thms)

section \<open>Headers are recognised exactly\<close>

text \<open>One to six hashes and a space, at the start of the line.\<close>

definition header_line :: "rchar list \<Rightarrow> bool" where
  "header_line l \<longleftrightarrow> (let n = length (takeWhile (\<lambda>c. c = ch CHR ''#'') l); r = dropWhile (\<lambda>c. c = ch CHR ''#'') l
     in 1 \<le> n \<and> n \<le> 6 \<and> r \<noteq> [] \<and> hd r = ch CHR '' '')"

definition header_after :: "bool \<Rightarrow> nat \<Rightarrow> header" where
  "header_after i k = \<lparr>hd_include_marker = i, hd_state = Trying, hash_count = k, in_match = True\<rparr>"

lemma header_processing_stays:
  assumes "hd_state p = Processing" and "newline \<notin> set l"
  shows "run_chars header_process_char p b l = p"
  using assms by (induction l arbitrary: b) (auto simp: header_process_char_def)

lemma header_dead_stays:
  assumes "newline \<notin> set l"
  shows "run_chars header_process_char (header_new i) False l = header_new i"
  using assms
  by (induction l) (auto simp: header_process_char_def header_new_def header_reset_def)

lemma header_trying:
  assumes "newline \<notin> set l" and "1 \<le> k"
  shows "hd_state (run_chars header_process_char (header_after i k) False l) = Processing \<longleftrightarrow>
    (let n = length (takeWhile (\<lambda>c. c = ch CHR ''#'') l); r = dropWhile (\<lambda>c. c = ch CHR ''#'') l
     in n + k \<le> 6 \<and> r \<noteq> [] \<and> hd r = ch CHR '' '')"
  using assms
proof (induction l arbitrary: k)
  case Nil
  then show ?case by (simp add: header_after_def)
next
  case (Cons c l)
  consider (hash) "c = ch CHR ''#''" | (space) "c = ch CHR '' ''" "k \<le> 6"
    | (other) "c \<noteq> ch CHR ''#''" "c = ch CHR '' '' \<Longrightarrow> 6 < k" by fastforce
  then show ?case
  proof cases
    case hash
    have "snd (header_process_char (header_after i k) c False) = header_after i (Suc k)"
      by (simp add: hash header_process_char_def header_after_def)
    with Cons hash show ?thesis by (simp add: Let_def)
  next
    case space
    have "hd_state (snd (header_process_char (header_after i k) c False)) = Processing"
      using space Cons.prems by (simp add: header_process_char_def header_after_def)
    with Cons.prems space show ?thesis by (simp add: header_processing_stays Let_def)
  next
    case other
    have "snd (header_process_char (header_after i k) c False) = header_new i"
      using other Cons.prems
      by (auto simp: header_process_char_def header_after_def header_new_def header_reset_def Let_def)
    with Cons.prems other show ?thesis
      by (auto simp: header_dead_stays Let_def) (simp_all add: header_new_def header_reset_def)
  qed
qed

text \<open>a line is taken as a header exactly when it starts with one to six hashes followed by a
  space; in particular seven hashes, a missing space or leading text do not start a header.\<close>

theorem header_recognised_iff:
  assumes "newline \<notin> set l"
  shows "hd_state (run_chars header_process_char (header_new i) True l) = Processing \<longleftrightarrow> header_line l"
proof (cases l)
  case Nil
  then show ?thesis by (simp add: header_line_def header_new_def header_reset_def)
next
  case (Cons c l')
  have first: "snd (header_process_char (header_new i) c True)
      = (if c = ch CHR ''#'' then header_after i 1 else header_new i)"
    by (simp add: header_process_char_def header_after_def header_new_def header_reset_def)
  show ?thesis
  proof (cases "c = ch CHR ''#''")
    case True
    with assms Cons first header_trying [of l' 1 i] show ?thesis
      by (auto simp: header_line_def Let_def)
  next
    case False
    with assms Cons first header_dead_stays [of l' i] show ?thesis
      by (auto simp: header_line_def Let_def header_new_def header_reset_def)
  qed
qed

theorem header_recognised_iff_witness:
  "hd_state (run_chars header_process_char (header_new True) True (chars ''## a'')) = Processing"
proof -
  have "newline \<notin> set (chars ''## a'')" by (auto simp: chars_def dest: sym)
  from header_recognised_iff [OF this, of True] show ?thesis
    by (simp add: header_line_def chars_def Let_def)
qed

section \<open>Fenced blocks are closed exactly\<close>

text \<open>A closing line: spaces, then at least three backticks and nothing else.\<close>

definition closing_fence :: "rchar list \<Rightarrow> bool" where
  "closing_fence l \<longleftrightarrow> (let r = dropWhile (\<lambda>c. c = ch CHR '' '') l
     in 3 \<le> length r \<and> list_all (\<lambda>c. c = ch CHR 0x60) r)"

definition opening_fence :: "rchar list \<Rightarrow> bool" where
  "opening_fence l \<longleftrightarrow> 3 \<le> length l \<and> take 3 l = replicate 3 (ch CHR 0x60)"

definition inside_block :: "bool \<Rightarrow> bool \<Rightarrow> fenced" where
  "inside_block i s = \<lparr>fc_include_fences = i, fc_state = Processing, fence_len = 0,
     is_matching_end_fence = False, has_started_matching_fence = s\<rparr>"

definition matching_end :: "bool \<Rightarrow> nat \<Rightarrow> bool \<Rightarrow> fenced" where
  "matching_end i k s = \<lparr>fc_include_fences = i, fc_state = Processing, fence_len = k,
     is_matching_end_fence = True, has_started_matching_fence = s\<rparr>"

lemmas fenced_step_defs = fenced_process_char_def fenced_processing_def fenced_match_end_def
  fenced_trying_def fenced_reset_def Let_def

lemma inside_block_text:
  "newline \<notin> set l \<Longrightarrow> run_chars fenced_process_char (inside_block i s) False (l @ [newline]) = inside_block i s"
  by (induction l) (auto simp: fenced_step_defs inside_block_def)

lemma matching_end_ticks:
  assumes "newline \<notin> set l"
  shows "run_chars fenced_process_char (matching_end i k True) False (l @ [newline])
    = (if 3 \<le> k + length l \<and> list_all (\<lambda>c. c = ch CHR 0x60) l then fenced_new i else inside_block i True)"
  using assms
proof (induction l arbitrary: k)
  case Nil
  then show ?case
    by (simp add: fenced_step_defs matching_end_def fenced_new_def inside_block_def newline_def ch_def)
next
  case (Cons c l)
  show ?case
  proof (cases "c = ch CHR 0x60")
    case True
    have "snd (fenced_process_char (matching_end i k True) c False) = matching_end i (Suc k) True"
      using True by (simp add: fenced_step_defs matching_end_def)
    with Cons True show ?thesis by simp
  next
    case False
    have "snd (fenced_process_char (matching_end i k True) c False) = inside_block i True"
      using False Cons.prems by (auto simp: fenced_step_defs matching_end_def inside_block_def)
    with Cons.prems False show ?thesis by (auto simp: inside_block_text)
  qed
qed

lemma matching_end_unstarted:
  "newline \<notin> set l \<Longrightarrow> run_chars fenced_process_char (matching_end i 0 False) False (l @ [newline])
    = (if closing_fence l then fenced_new i else inside_block i True)"
proof (induction l)
  case Nil
  then show ?case
    by (simp add: fenced_step_defs matching_end_def inside_block_def closing_fence_def newline_def ch_def)
next
  case (Cons c l)
  consider (space) "c = ch CHR '' ''" | (tick) "c = ch CHR 0x60" | (other) "c \<noteq> ch CHR '' ''" "c \<noteq> ch CHR 0x60"
    by blast
  then show ?case
  proof cases
    case space
    have "snd (fenced_process_char (matching_end i 0 False) c False) = matching_end i 0 False"
      by (simp add: space fenced_step_defs matching_end_def)
    with Cons space show ?thesis by (simp add: closing_fence_def)
  next
    case tick
    have "snd (fenced_process_char (matching_end i 0 False) c False) = matching_end i 1 True"
      by (simp add: tick fenced_step_defs matching_end_def)
    with Cons.prems tick show ?thesis by (auto simp: closing_fence_def matching_end_ticks)
  next
    case other
    have "snd (fenced_process_char (matching_end i 0 False) c False) = inside_block i True"
      using other Cons.prems by (auto simp: fenced_step_defs matching_end_def inside_block_def)
    with Cons.prems other show ?thesis by (auto simp: closing_fence_def inside_block_text)
  qed
qed

lemma inside_block_line:
  assumes "newline \<notin> set l"
  shows "run_chars fenced_process_char (inside_block i s) True (l @ [newline])
    = (if closing_fence l then fenced_new i else inside_block i True)"
proof -
  have first: "fenced_process_char (inside_block i s) c True = fenced_process_char (matching_end i 0 False) c False" for c
    by (simp add: fenced_step_defs inside_block_def matching_end_def)
  have "run_chars fenced_process_char (inside_block i s) True (l @ [newline])
      = run_chars fenced_process_char (matching_end i 0 False) False (l @ [newline])"
    by (cases l) (simp_all add: first)
  then show ?thesis using matching_end_unstarted [OF assms] by simp
qed

lemma info_string_opens:
  assumes "newline \<notin> set l" and "3 \<le> k"
  shows "run_chars fenced_process_char \<lparr>fc_include_fences = i, fc_state = Trying, fence_len = k,
      is_matching_end_fence = False, has_started_matching_fence = False\<rparr> False (l @ [newline]) = inside_block i False"
  using assms
proof (induction l arbitrary: k)
  case Nil
  then show ?case by (simp add: fenced_step_defs inside_block_def newline_def ch_def)
next
  case (Cons c l)
  then show ?case by (cases "c = ch CHR 0x60") (auto simp: fenced_step_defs)
qed

lemma opening_line_opens:
  assumes "opening_fence l" and "newline \<notin> set l"
  shows "run_chars fenced_process_char (fenced_new i) True (l @ [newline]) = inside_block i False"
proof -
  have "l = replicate 3 (ch CHR 0x60) @ drop 3 l"
    using assms(1) by (metis append_take_drop_id opening_fence_def)
  then obtain r where l: "l = ch CHR 0x60 # ch CHR 0x60 # ch CHR 0x60 # r"
    by (metis append.simps numeral_3_eq_3 replicate_0 replicate_Suc)
  have "newline \<notin> set r" using assms(2) by (simp add: l)
  then show ?thesis
    by (simp add: l fenced_step_defs fenced_new_def info_string_opens)
qed

text \<open>A text made of whole lines.\<close>

definition lines_text :: "rchar list list \<Rightarrow> rchar list" where
  "lines_text ls = concat (map (\<lambda>l. l @ [newline]) ls)"

lemma line_start_line [simp]: "line_start b (l @ [newline]) = True"
  by simp

lemma body_lines_stay:
  assumes "\<forall>l\<in>set ls. newline \<notin> set l \<and> \<not> closing_fence l"
  shows "run_chars fenced_process_char (inside_block i s) True (lines_text ls @ rest)
    = run_chars fenced_process_char (inside_block i (s \<or> ls \<noteq> [])) True rest"
  using assms
proof (induction ls arbitrary: s)
  case Nil
  then show ?case by (simp add: lines_text_def)
next
  case (Cons l ls)
  have "run_chars fenced_process_char (inside_block i s) True (lines_text (l # ls) @ rest)
      = run_chars fenced_process_char (run_chars fenced_process_char (inside_block i s) True (l @ [newline]))
          (line_start True (l @ [newline])) (lines_text ls @ rest)"
    by (simp only: run_chars_append [symmetric]) (simp add: lines_text_def)
  also have "\<dots> = run_chars fenced_process_char (inside_block i True) True (lines_text ls @ rest)"
    using Cons.prems inside_block_line [of l i s] by (simp add: line_start_def)
  finally show ?case using Cons by simp
qed

text \<open>A fenced block is recognised exactly.  After an opening line (three backticks and any info
  string) the plugin is processing; it stays so over every line that is not a closing fence, and
  the first closing line returns it to its initial state.\<close>

theorem fenced_block_extent:
  assumes "opening_fence op" and "newline \<notin> set op" and "\<forall>l\<in>set body. newline \<notin> set l \<and> \<not> closing_fence l"
    and "newline \<notin> set cl" and "closing_fence cl"
  shows "run_chars fenced_process_char (fenced_new i) True (lines_text (op # body @ [cl])) = fenced_new i
    \<and> fc_state (run_chars fenced_process_char (fenced_new i) True (lines_text (op # body))) = Processing"
proof -
  have opened: "run_chars fenced_process_char (fenced_new i) True (lines_text (op # ls))
      = run_chars fenced_process_char (inside_block i False) True (lines_text ls)" for ls
  proof -
    have "lines_text (op # ls) = (op @ [newline]) @ lines_text ls" by (simp add: lines_text_def)
    then show ?thesis
      using opening_line_opens [OF assms(1,2)] by (simp only: run_chars_append line_start_line)
  qed
  have split: "lines_text (body @ [cl]) = lines_text body @ (cl @ [newline])" by (simp add: lines_text_def)
  have "run_chars fenced_process_char (inside_block i False) True (lines_text (body @ [cl])) = fenced_new i"
    unfolding split body_lines_stay [OF assms(3)] using inside_block_line [OF assms(4)] assms(5) by simp
  moreover have "run_chars fenced_process_char (inside_block i False) True (lines_text body) = inside_block i (body \<noteq> [])"
    using body_lines_stay [OF assms(3), of i False "[]"] by simp
  ultimately show ?thesis unfolding opened by (simp add: inside_block_def)
qed

theorem fenced_block_extent_witness:
  "run_chars fenced_process_char (fenced_new True) True (lines_text [chars ''```rust'', chars ''let x;'', chars '' ```'']) = fenced_new True"
proof -
  have lines: "newline \<notin> set (chars ''```rust'')" "newline \<notin> set (chars '' ```'')" "newline \<notin> set (chars ''let x;'')"
    by (auto simp: chars_def dest: sym)
  have "opening_fence (chars ''```rust'')" "closing_fence (chars '' ```'')" "\<not> closing_fence (chars ''let x;'')"
    by (simp_all add: opening_fence_def closing_fence_def chars_def numeral_3_eq_3)
  with lines fenced_block_extent [of "chars ''```rust''" "[chars ''let x;'']" "chars '' ```''" True]
  show ?thesis by simp
qed

end
