(* ===== verification/Text_Match.thy ===== *)
theory Text_Match
  imports Prelude "HOL-Library.Sublist"
begin

text \<open>
  Matching a pattern with a single candidate and no failure links, as the XML plugin and the
  string graph of the stream package do.  The candidate is the partial match at the end of the
  text; at a mismatch it restarts with the current character.  This is complete when the first
  character of the pattern does not occur again in it, since then two partial matches never
  overlap.
\<close>

definition distinct_head :: "'a list \<Rightarrow> bool" where
  "distinct_head e \<longleftrightarrow> e \<noteq> [] \<and> hd e \<notin> set (tl e)"

definition advance :: "'a list \<Rightarrow> 'a list \<Rightarrow> 'a \<Rightarrow> 'a list" where
  "advance e k c = (if prefix (k @ [c]) e then k @ [c] else if prefix [c] e then [c] else [])"

text \<open>\<open>k\<close> is a partial match at the end of \<open>t\<close>, and the only non-empty one.\<close>

definition partial_match :: "'a list \<Rightarrow> 'a list \<Rightarrow> 'a list \<Rightarrow> bool" where
  "partial_match e t k \<longleftrightarrow> prefix k e \<and> suffix k t \<and> (\<forall>s. s \<noteq> [] \<and> prefix s e \<and> suffix s t \<longrightarrow> s = k)"

lemma partial_match_empty [simp]: "partial_match e [] []"
  by (simp add: partial_match_def)

lemma partial_match_unique:
  "partial_match e t k \<Longrightarrow> s \<noteq> [] \<Longrightarrow> prefix (s @ r) e \<Longrightarrow> suffix s t \<Longrightarrow> s = k"
  unfolding partial_match_def by (blast dest: append_prefixD)

lemma suffix_snocE:
  assumes "suffix s (t @ [c])" and "s \<noteq> []"
  obtains s' where "s = s' @ [c]" and "suffix s' t"
proof -
  have "s = [] \<or> (\<exists>s'. s = s' @ [c] \<and> suffix s' t)" using assms(1) by (simp only: suffix_snoc)
  with assms(2) that show thesis by blast
qed

lemma distinct_head_restart:
  assumes "distinct_head e" and "prefix [c] e" and "prefix (k @ [c]) e"
  shows "k = []"
proof (cases k)
  case (Cons x xs)
  obtain y ys where e: "e = y # ys" "y \<notin> set ys" using assms(1) by (cases e) (auto simp: distinct_head_def)
  from assms(2) e have "c = y" by simp
  moreover have "c \<in> set ys" using assms(3) by (auto simp: e Cons prefix_def)
  ultimately show ?thesis using e by simp
qed simp

lemma partial_match_step:
  assumes "distinct_head e" and "partial_match e t k"
  shows "partial_match e (t @ [c]) (advance e k c)"
  unfolding partial_match_def
proof (intro conjI allI impI)
  show "prefix (advance e k c) e" by (simp add: advance_def)
  show "suffix (advance e k c) (t @ [c])" using assms(2) by (simp add: advance_def partial_match_def)
  fix s assume s: "s \<noteq> [] \<and> prefix s e \<and> suffix s (t @ [c])"
  then obtain s' where s': "s = s' @ [c]" "suffix s' t" by (meson suffix_snocE)
  show "s = advance e k c"
  proof (cases "s' = []")
    case True
    with s s' have "prefix [c] e" by simp
    with assms(1) True s' show ?thesis by (auto simp: advance_def dest: distinct_head_restart)
  next
    case False
    with s s' assms(2) have "s' = k" by (blast intro: partial_match_unique)
    with s s' show ?thesis by (simp add: advance_def)
  qed
qed

lemma partial_match_occurs:
  assumes "partial_match e t k" and "e \<noteq> []"
  shows "suffix e t \<longleftrightarrow> k = e"
  using assms by (auto simp: partial_match_def)

text \<open>Soundness does not need the distinct first character.\<close>

lemma advance_sound:
  "suffix k t \<Longrightarrow> prefix (advance e k c) e \<and> suffix (advance e k c) (t @ [c])"
  by (simp add: advance_def)

end
