(* ===== verification/Xml_Plugin.thy ===== *)
theory Xml_Plugin
  imports Stream_Plugin Text_Match
begin

text \<open>
  The XML plugin (\<open>StreamXmlPlugin.rs\<close>): it takes an element from its opening tag to the first
  occurrence of its closing tag.  The tag name is read by \<open>extract_opening_tag_name\<close> of
  \<open>ChatMarkupRegex.rs\<close>.
\<close>

section \<open>Tag names\<close>

definition is_ascii_alphanumeric :: "rchar \<Rightarrow> bool" where
  "is_ascii_alphanumeric c \<longleftrightarrow> is_ascii_alphabetic c \<or> is_digit c"

definition tag_name_char :: "rchar \<Rightarrow> bool" where
  "tag_name_char c \<longleftrightarrow> is_ascii_alphanumeric c \<or> c = ch CHR ''_''"

text \<open>The loop over the characters after the opening bracket; \<open>name\<close> is what was read so far.\<close>

fun read_tag_name :: "rchar list \<Rightarrow> rchar list \<Rightarrow> rchar list option" where
  "read_tag_name name [] = (if name = [] then None else Some name)"
| "read_tag_name name (c # cs) =
     (if name = [] then (if is_ascii_alphabetic c then read_tag_name [c] cs else None)
      else if tag_name_char c then read_tag_name (name @ [c]) cs
      else Some name)"

definition extract_opening_tag_name :: "rchar list \<Rightarrow> rchar list option" where
  "extract_opening_tag_name xml =
     (let trimmed = dropWhile is_whitespace xml
      in if trimmed = [] \<or> hd trimmed \<noteq> ch CHR ''<'' then None else read_tag_name [] (tl trimmed))"

section \<open>The plugin\<close>

record xml_plugin =
  include_tags_in_output :: bool
  xp_state :: PluginState
  candidate :: "rchar list"
  active_tag_name :: "rchar list option"
  closing_candidate :: "rchar list"
  allow_start_after_end_tag :: bool
  allow_start_after_punctuation :: bool
  last_char :: rchar

definition xml_new :: "bool \<Rightarrow> xml_plugin" where
  "xml_new include_tags = \<lparr>include_tags_in_output = include_tags, xp_state = Idle, candidate = [],
     active_tag_name = None, closing_candidate = [], allow_start_after_end_tag = False,
     allow_start_after_punctuation = False, last_char = 0\<rparr>"

definition xml_reset :: "xml_plugin \<Rightarrow> xml_plugin" where
  "xml_reset p = p\<lparr>xp_state := Idle, candidate := [], active_tag_name := None, closing_candidate := [],
     last_char := 0\<rparr>"

text \<open>The full-width and ASCII punctuation of the source, by code point.\<close>

definition punctuation_triggers :: "rchar list" where
  "punctuation_triggers = [65292, 12290, 65311, 65281, 65306, 65288, 65289, 12304, 12305, 12298, 12299,
     ch CHR '':'', ch CHR '','', ch CHR ''.'', ch CHR ''?'', ch CHR ''!'', ch CHR ''~'', 65374]"

definition is_emoji_trigger :: "rchar \<Rightarrow> bool" where
  "is_emoji_trigger c \<longleftrightarrow> (0x1F300 \<le> c \<and> c \<le> 0x1FAFF) \<or> (0x2600 \<le> c \<and> c \<le> 0x27BF)"

definition is_emoji_continuation_char :: "rchar \<Rightarrow> bool" where
  "is_emoji_continuation_char c \<longleftrightarrow> c \<in> {0x200D, 0xFE0E, 0xFE0F, 0x20E3}"

definition update_punctuation_allowance :: "xml_plugin \<Rightarrow> rchar \<Rightarrow> xml_plugin" where
  "update_punctuation_allowance p c =
     (if c \<in> set punctuation_triggers \<or> is_emoji_trigger c then p\<lparr>allow_start_after_punctuation := True\<rparr>
      else if c = ch CHR '' '' \<or> c = tab \<or> is_emoji_continuation_char c then p
      else p\<lparr>allow_start_after_punctuation := False\<rparr>)"

definition xml_finish :: "xml_plugin \<Rightarrow> rchar \<Rightarrow> bool \<Rightarrow> bool \<times> xml_plugin" where
  "xml_finish p c r = (r, p\<lparr>last_char := c\<rparr>)"

definition handle_default_character :: "xml_plugin \<Rightarrow> rchar \<Rightarrow> bool \<times> xml_plugin" where
  "handle_default_character p c = (True, update_punctuation_allowance p c)"

definition xml_default :: "xml_plugin \<Rightarrow> rchar \<Rightarrow> bool \<times> xml_plugin" where
  "xml_default p c = (let (r, p') = handle_default_character p c in xml_finish p' c r)"

definition end_tag :: "rchar list \<Rightarrow> rchar list" where
  "end_tag name = ch CHR ''<'' # ch CHR ''/'' # name @ [ch CHR ''>'']"

definition xml_processing :: "xml_plugin \<Rightarrow> rchar \<Rightarrow> bool \<times> xml_plugin" where
  "xml_processing p c =
     (let p = p\<lparr>closing_candidate := closing_candidate p @ [c]\<rparr>;
          e = end_tag (case active_tag_name p of Some n \<Rightarrow> n | None \<Rightarrow> [])
      in if prefix (closing_candidate p) e then
           (let p = (if closing_candidate p = e
                     then (xml_reset (p\<lparr>allow_start_after_end_tag := True, allow_start_after_punctuation := False\<rparr>))
                            \<lparr>allow_start_after_end_tag := True\<rparr>
                     else p)
            in xml_finish p c (include_tags_in_output p))
         else xml_finish (p\<lparr>closing_candidate := (if c = ch CHR ''<'' then [c] else [])\<rparr>) c True)"

text \<open>The opening tag, from its first character on.\<close>

definition xml_opening :: "xml_plugin \<Rightarrow> rchar \<Rightarrow> bool \<times> xml_plugin" where
  "xml_opening p c =
     (let p = p\<lparr>candidate := candidate p @ [c]\<rparr>
      in if hd (candidate p) \<noteq> ch CHR ''<'' then xml_default (p\<lparr>candidate := []\<rparr>) c
         else if ch CHR ''>'' \<notin> set (candidate p)
         then xml_finish (p\<lparr>xp_state := Trying\<rparr>) c (include_tags_in_output p)
         else case extract_opening_tag_name (candidate p) of
             None \<Rightarrow> xml_finish (xml_reset p) c True
           | Some name \<Rightarrow>
               if last_char p = ch CHR ''/'' \<or>
                  suffix [ch CHR ''/'', ch CHR ''>''] (rev (dropWhile is_whitespace (rev (candidate p))))
               then xml_finish (xml_reset p) c True
               else xml_finish (p\<lparr>xp_state := Processing, active_tag_name := Some name, closing_candidate := [],
                      candidate := [], allow_start_after_end_tag := False, allow_start_after_punctuation := False\<rparr>)
                      c (include_tags_in_output p))"

definition xml_process_char :: "xml_plugin \<Rightarrow> rchar \<Rightarrow> bool \<Rightarrow> bool \<times> xml_plugin" where
  "xml_process_char p c at_start_of_line =
     (if xp_state p = Processing then xml_processing p c
      else if xp_state p = Idle \<and> \<not> at_start_of_line
        \<and> (\<not> (allow_start_after_end_tag p \<or> allow_start_after_punctuation p)
           \<or> c = ch CHR '' '' \<or> c = tab \<or> is_emoji_continuation_char c)
      then xml_default p c
      else xml_opening p c)"

lemmas xml_step_defs = xml_process_char_def xml_processing_def xml_opening_def xml_default_def
  handle_default_character_def update_punctuation_allowance_def xml_finish_def Let_def

lemma xml_default_fields:
  "fst (xml_default p c) = True" "xp_state (snd (xml_default p c)) = xp_state p"
  "include_tags_in_output (snd (xml_default p c)) = include_tags_in_output p"
  by (simp_all add: xml_default_def handle_default_character_def update_punctuation_allowance_def xml_finish_def)

lemma xml_reset_fields [simp]:
  "xp_state (xml_reset p) = Idle" "include_tags_in_output (xml_reset p) = include_tags_in_output p"
  by (simp_all add: xml_reset_def)

lemma xml_opening_fields:
  "include_tags_in_output p \<Longrightarrow> fst (xml_opening p c)"
  "include_tags_in_output (snd (xml_opening p c)) = include_tags_in_output p"
  "xp_state p \<noteq> WaitFor \<Longrightarrow> xp_state (snd (xml_opening p c)) \<noteq> WaitFor"
  by (simp_all add: xml_opening_def Let_def xml_default_fields xml_finish_def split: option.split)

lemma xml_processing_fields:
  "include_tags_in_output p \<Longrightarrow> fst (xml_processing p c)"
  "include_tags_in_output (snd (xml_processing p c)) = include_tags_in_output p"
  "xp_state p \<noteq> WaitFor \<Longrightarrow> xp_state (snd (xml_processing p c)) \<noteq> WaitFor"
  by (simp_all add: xml_processing_def Let_def xml_finish_def)

interpretation xml: stream_plugin xp_state xml_process_char xml_reset include_tags_in_output "\<lambda>p. xp_state p \<noteq> WaitFor"
  by unfold_locales
    (simp_all add: xml_process_char_def xml_default_fields xml_opening_fields xml_processing_fields,
     simp add: xml_reset_def)

section \<open>The closing tag is found exactly\<close>

text \<open>
  The plugin compares with one candidate only and restarts it at a mismatch, without the failure
  links of a string matcher.  That is enough here: the opening bracket occurs in a closing tag
  only as its first character, so two partial matches never overlap.
\<close>

definition plain_name :: "rchar list \<Rightarrow> bool" where
  "plain_name name \<longleftrightarrow> ch CHR ''<'' \<notin> set name"

lemma end_tag_prefix: "prefix [c] (end_tag name) \<longleftrightarrow> c = ch CHR ''<''"
  by (simp add: end_tag_def)

lemma end_tag_distinct_head: "plain_name name \<Longrightarrow> distinct_head (end_tag name)"
  by (simp add: distinct_head_def end_tag_def plain_name_def)

text \<open>A plugin inside an element named \<open>name\<close>, before and after some of its content.\<close>

definition in_element :: "bool \<Rightarrow> rchar list \<Rightarrow> rchar list \<Rightarrow> rchar \<Rightarrow> xml_plugin" where
  "in_element i name k l = \<lparr>include_tags_in_output = i, xp_state = Processing, candidate = [],
     active_tag_name = Some name, closing_candidate = k, allow_start_after_end_tag = False,
     allow_start_after_punctuation = False, last_char = l\<rparr>"

definition after_element :: "bool \<Rightarrow> xml_plugin" where
  "after_element i = \<lparr>include_tags_in_output = i, xp_state = Idle, candidate = [],
     active_tag_name = None, closing_candidate = [], allow_start_after_end_tag = True,
     allow_start_after_punctuation = False, last_char = ch CHR ''>''\<rparr>"

lemma in_element_step:
  "snd (xml_process_char (in_element i name k l) c b) =
     (if k @ [c] = end_tag name then (after_element i)\<lparr>last_char := c\<rparr>
      else in_element i name (advance (end_tag name) k c) c)"
  by (simp add: xml_step_defs in_element_def after_element_def xml_reset_def advance_def end_tag_prefix)

lemma in_element_run:
  assumes "plain_name name" and "\<not> sublist (end_tag name) t"
  shows "\<exists>k l'. run_chars xml_process_char (in_element i name [] l) b t = in_element i name k l'
    \<and> partial_match (end_tag name) t k"
  using assms(2)
proof (induction t rule: rev_induct)
  case Nil
  show ?case by (metis run_chars.simps(1) partial_match_empty)
next
  case (snoc c t)
  have "\<not> sublist (end_tag name) t"
    using snoc.prems by (meson sublist_append_rightI sublist_order.order_trans)
  with snoc.IH obtain k l' where r: "run_chars xml_process_char (in_element i name [] l) b t = in_element i name k l'"
    and k: "partial_match (end_tag name) t k" by blast
  note next_match = partial_match_step [OF end_tag_distinct_head [OF assms(1)] k, of c]
  have "k @ [c] \<noteq> end_tag name"
  proof
    assume e: "k @ [c] = end_tag name"
    from k have "suffix k t" by (simp add: partial_match_def)
    then have "suffix (k @ [c]) (t @ [c])" by simp
    with e snoc.prems show False by (metis suffix_imp_sublist)
  qed
  then have "run_chars xml_process_char (in_element i name [] l) b (t @ [c])
      = in_element i name (advance (end_tag name) k c) c"
    by (simp only: run_chars_append r run_chars.simps in_element_step if_False)
  with next_match show ?case by blast
qed

lemma end_tag_closes:
  assumes "plain_name name" and "\<not> sublist (end_tag name) (body @ butlast (end_tag name))"
  shows "run_chars xml_process_char (in_element i name [] l) b (body @ end_tag name) = after_element i"
proof -
  let ?t = "body @ butlast (end_tag name)"
  obtain k l' where r: "run_chars xml_process_char (in_element i name [] l) b ?t = in_element i name k l'"
    and k: "partial_match (end_tag name) ?t k" using in_element_run [OF assms] by blast
  have snoc: "end_tag name = butlast (end_tag name) @ [ch CHR ''>'']" by (simp add: end_tag_def)
  then have "butlast (end_tag name) = k"
    by (intro partial_match_unique [OF k, where r = "[ch CHR ''>'']"]) (simp_all add: end_tag_def suffixI)
  with snoc have "k @ [ch CHR ''>''] = end_tag name" by simp
  then have "snd (xml_process_char (in_element i name k l') (ch CHR ''>'') b') = after_element i" for b'
    by (simp only: in_element_step if_True) (simp add: after_element_def)
  moreover have "body @ end_tag name = ?t @ [ch CHR ''>'']" using snoc by simp
  ultimately show ?thesis by (simp only: run_chars_append [of _ _ _ ?t] r run_chars.simps)
qed

section \<open>An element is recognised exactly\<close>

text \<open>A tag name of the source, and an opening tag with its attributes.\<close>

definition valid_name :: "rchar list \<Rightarrow> bool" where
  "valid_name name \<longleftrightarrow> name \<noteq> [] \<and> is_ascii_alphabetic (hd name) \<and> list_all tag_name_char (tl name)"

definition valid_attributes :: "rchar list \<Rightarrow> bool" where
  "valid_attributes a \<longleftrightarrow> ch CHR ''>'' \<notin> set a \<and> (a = [] \<or> \<not> tag_name_char (hd a) \<and> last a \<noteq> ch CHR ''/'')"

definition opening_tag :: "rchar list \<Rightarrow> rchar list \<Rightarrow> rchar list" where
  "opening_tag name a = ch CHR ''<'' # name @ a @ [ch CHR ''>'']"

lemma ch_codes: "ch CHR ''<'' = 60" "ch CHR ''>'' = 62" "ch CHR ''/'' = 47" "ch CHR ''_'' = 95"
  by (simp_all add: ch_def)

lemma tag_name_char_plain: "tag_name_char c \<Longrightarrow> c \<noteq> ch CHR ''<'' \<and> c \<noteq> ch CHR ''>'' \<and> c \<noteq> ch CHR ''/''"
  by (auto simp: tag_name_char_def is_ascii_alphanumeric_def is_ascii_alphabetic_def is_digit_def ch_codes)

lemma valid_name_chars: "valid_name name \<Longrightarrow> c \<in> set name \<Longrightarrow> tag_name_char c"
  by (cases name) (auto simp: valid_name_def list_all_iff tag_name_char_def is_ascii_alphanumeric_def)

lemma valid_name_plain: "valid_name name \<Longrightarrow> plain_name name"
  unfolding plain_name_def using valid_name_chars tag_name_char_plain by blast

lemma read_tag_name_reads:
  assumes "name \<noteq> []" and "list_all tag_name_char cs" and "rest = [] \<or> \<not> tag_name_char (hd rest)"
  shows "read_tag_name name (cs @ rest) = Some (name @ cs)"
  using assms by (induction cs arbitrary: name) (cases rest; simp)+

lemma extract_opening_tag:
  assumes "valid_name name" and "valid_attributes a"
  shows "extract_opening_tag_name (opening_tag name a) = Some name"
proof -
  obtain x xs where name: "name = x # xs" "is_ascii_alphabetic x" "list_all tag_name_char xs"
    using assms(1) by (cases name) (auto simp: valid_name_def)
  have "\<not> tag_name_char (ch CHR ''>'')" using tag_name_char_plain by blast
  then have "a @ [ch CHR ''>''] = [] \<or> \<not> tag_name_char (hd (a @ [ch CHR ''>'']))"
    using assms(2) by (cases a) (auto simp: valid_attributes_def)
  then have "read_tag_name [x] (xs @ a @ [ch CHR ''>'']) = Some name"
    using read_tag_name_reads [of "[x]" xs] name by simp
  then show ?thesis
    by (simp add: extract_opening_tag_name_def opening_tag_def is_whitespace_def ch_codes name Let_def)
qed

definition reading_tag :: "bool \<Rightarrow> rchar list \<Rightarrow> xml_plugin" where
  "reading_tag i cand = \<lparr>include_tags_in_output = i, xp_state = Trying, candidate = cand,
     active_tag_name = None, closing_candidate = [], allow_start_after_end_tag = False,
     allow_start_after_punctuation = False, last_char = last cand\<rparr>"

lemma reading_tag_step:
  assumes "c \<noteq> ch CHR ''>''" and "ch CHR ''>'' \<notin> set cand" and "cand \<noteq> []" and "hd cand = ch CHR ''<''"
  shows "snd (xml_process_char (reading_tag i cand) c b) = reading_tag i (cand @ [c])"
  using assms by (simp add: xml_process_char_def xml_opening_def reading_tag_def Let_def xml_finish_def)

lemma reading_tag_run:
  assumes "ch CHR ''>'' \<notin> set cs" and "ch CHR ''>'' \<notin> set cand" and "cand \<noteq> []" and "hd cand = ch CHR ''<''"
  shows "run_chars xml_process_char (reading_tag i cand) b cs = reading_tag i (cand @ cs)"
  using assms
proof (induction cs arbitrary: cand b)
  case (Cons c cs)
  then show ?case using reading_tag_step [of c cand i b] by simp
qed simp

lemma opening_tag_enters:
  assumes "valid_name name" and "valid_attributes a"
  shows "run_chars xml_process_char (xml_new i) True (opening_tag name a) = in_element i name [] (ch CHR ''>'')"
proof -
  let ?cand = "ch CHR ''<'' # name @ a"
  have gt: "ch CHR ''>'' \<notin> set (name @ a)"
    using assms valid_name_chars tag_name_char_plain by (auto simp: valid_attributes_def)
  have first: "snd (xml_process_char (xml_new i) (ch CHR ''<'') True) = reading_tag i [ch CHR ''<'']"
    by (simp add: xml_process_char_def xml_opening_def xml_new_def reading_tag_def Let_def xml_finish_def)
  have run: "run_chars xml_process_char (reading_tag i [ch CHR ''<'']) b (name @ a) = reading_tag i ?cand" for b
    using reading_tag_run [OF gt, of "[ch CHR ''<'']"] by simp
  have slash: "last ?cand \<noteq> ch CHR ''/''"
    using assms valid_name_chars [OF assms(1)] tag_name_char_plain
    by (cases "a = []") (auto simp: valid_attributes_def valid_name_def)
  have trimmed: "rev (dropWhile is_whitespace (rev (opening_tag name a))) = opening_tag name a"
    by (simp add: opening_tag_def is_whitespace_def ch_codes)
  have "\<not> suffix [ch CHR ''/'', ch CHR ''>''] (opening_tag name a)"
  proof
    assume "suffix [ch CHR ''/'', ch CHR ''>''] (opening_tag name a)"
    then have "suffix ([ch CHR ''/''] @ [ch CHR ''>'']) (?cand @ [ch CHR ''>''])" by (simp add: opening_tag_def)
    then have "suffix [ch CHR ''/''] ?cand" by (simp only: snoc_suffix_snoc)
    then have "last ?cand = last [ch CHR ''/'']" unfolding suffix_def by (elim exE) (simp only: last_snoc last.simps simp_thms if_True)
    with slash show False by simp
  qed
  with slash have "snd (xml_process_char (reading_tag i ?cand) (ch CHR ''>'') b) = in_element i name [] (ch CHR ''>'')" for b
    using extract_opening_tag [OF assms] trimmed
    by (simp add: xml_process_char_def xml_opening_def reading_tag_def in_element_def Let_def xml_finish_def
        opening_tag_def)
  moreover have "opening_tag name a = ch CHR ''<'' # (name @ a) @ [ch CHR ''>'']" by (simp add: opening_tag_def)
  ultimately show ?thesis by (simp only: run_chars.simps run_chars_append [of _ _ _ "name @ a"] first run)
qed

text \<open>An XML element is recognised exactly.  From the start of a line, its opening tag starts the
  element; the plugin keeps processing over every text without the closing tag, and the first
  occurrence of the closing tag, found without failure links, ends it and lets another element
  follow directly.\<close>

theorem xml_element_extent:
  assumes "valid_name name" and "valid_attributes a" and "\<not> sublist (end_tag name) (body @ butlast (end_tag name))"
  shows "run_chars xml_process_char (xml_new i) True (opening_tag name a @ body @ end_tag name) = after_element i
    \<and> (\<forall>k \<le> length (body @ butlast (end_tag name)). xp_state (run_chars xml_process_char (xml_new i) True
          (opening_tag name a @ take k (body @ butlast (end_tag name)))) = Processing)"
proof (intro conjI allI impI)
  show "run_chars xml_process_char (xml_new i) True (opening_tag name a @ body @ end_tag name) = after_element i"
    by (simp only: run_chars_append [of _ _ _ "opening_tag name a"] opening_tag_enters [OF assms(1,2)]
        end_tag_closes [OF valid_name_plain [OF assms(1)] assms(3)])
next
  fix k
  let ?t = "body @ butlast (end_tag name)"
  have "\<not> sublist (end_tag name) (take k ?t)"
    using assms(3) by (metis append_take_drop_id sublist_appendI sublist_order.order_trans append_Nil)
  then obtain m l where "run_chars xml_process_char (in_element i name [] (ch CHR ''>''))
      (line_start True (opening_tag name a)) (take k ?t) = in_element i name m l"
    using in_element_run [OF valid_name_plain [OF assms(1)]] by blast
  then show "xp_state (run_chars xml_process_char (xml_new i) True (opening_tag name a @ take k ?t)) = Processing"
    by (simp only: run_chars_append [of _ _ _ "opening_tag name a"] opening_tag_enters [OF assms(1,2)])
      (simp add: in_element_def)
qed

theorem xml_element_extent_witness:
  "run_chars xml_process_char (xml_new True) True (chars ''<b x><</</b>'') = after_element True"
proof -
  have n: "valid_name (chars ''b'')" "valid_attributes (chars '' x'')"
    by (simp_all add: valid_name_def valid_attributes_def chars_def is_ascii_alphabetic_def tag_name_char_def
        is_ascii_alphanumeric_def is_digit_def ch_def)
  have b: "\<not> sublist (end_tag (chars ''b'')) (chars ''<</'' @ butlast (end_tag (chars ''b'')))"
    by (simp add: end_tag_def chars_def sublist_Cons_right)
  show ?thesis
    using xml_element_extent [OF n b, of True] by (simp add: opening_tag_def end_tag_def chars_def)
qed

end
