(* ===== verification/Stream_Split.thy ===== *)
theory Stream_Split
  imports Markdown_Plugins Xml_Plugin
begin

text \<open>
  The splitter of \<open>StreamOperators.rs\<close>: \<open>split_chars_by\<close> runs a list of plugins over a text and
  cuts it into groups, each tagged with the plugin that took it or with none; and the list-like
  operators of the same file.  A stream is the list of items its \<open>collect\<close> delivers.
\<close>

section \<open>Any plugin\<close>

text \<open>The implementations of the trait \<open>StreamPlugin\<close>; both list plugins and both mathematics
  plugins share a record.\<close>

datatype plugin =
    JsonPlugin BaseJsonPlugin
  | FencedCodePlugin fenced
  | HeaderPlugin header
  | BlockQuotePlugin quote
  | OrderedListPlugin list_item
  | UnorderedListPlugin list_item
  | BlockLatexPlugin math
  | BracketLatexPlugin math
  | ImagePlugin image
  | TablePlugin table
  | FootnotePlugin footnote
  | XmlPlugin xml_plugin

fun plugin_name :: "plugin \<Rightarrow> string" where
  "plugin_name (JsonPlugin p) = (case js_mode p of JsonEmitAll \<Rightarrow> ''StreamJsonPlugin'' | PureJsonEmitMode \<Rightarrow> ''StreamPureJsonPlugin'')"
| "plugin_name (FencedCodePlugin _) = ''StreamMarkdownFencedCodeBlockPlugin''"
| "plugin_name (HeaderPlugin _) = ''StreamMarkdownHeaderPlugin''"
| "plugin_name (BlockQuotePlugin _) = ''StreamMarkdownBlockQuotePlugin''"
| "plugin_name (OrderedListPlugin _) = ''StreamMarkdownOrderedListPlugin''"
| "plugin_name (UnorderedListPlugin _) = ''StreamMarkdownUnorderedListPlugin''"
| "plugin_name (BlockLatexPlugin _) = ''StreamMarkdownBlockLaTeXPlugin''"
| "plugin_name (BracketLatexPlugin _) = ''StreamMarkdownBlockBracketLaTeXPlugin''"
| "plugin_name (ImagePlugin _) = ''StreamMarkdownImagePlugin''"
| "plugin_name (TablePlugin _) = ''StreamMarkdownTablePlugin''"
| "plugin_name (FootnotePlugin _) = ''StreamMarkdownFootnoteDefinitionPlugin''"
| "plugin_name (XmlPlugin _) = ''StreamXmlPlugin''"

fun plugin_state :: "plugin \<Rightarrow> PluginState" where
  "plugin_state (JsonPlugin p) = js_state p"
| "plugin_state (FencedCodePlugin p) = fc_state p"
| "plugin_state (HeaderPlugin p) = hd_state p"
| "plugin_state (BlockQuotePlugin p) = bq_state p"
| "plugin_state (OrderedListPlugin p) = li_state p"
| "plugin_state (UnorderedListPlugin p) = li_state p"
| "plugin_state (BlockLatexPlugin p) = mt_state p"
| "plugin_state (BracketLatexPlugin p) = mt_state p"
| "plugin_state (ImagePlugin p) = im_state p"
| "plugin_state (TablePlugin p) = tb_state p"
| "plugin_state (FootnotePlugin p) = fn_state p"
| "plugin_state (XmlPlugin p) = xp_state p"

fun plugin_process :: "plugin \<Rightarrow> rchar \<Rightarrow> bool \<Rightarrow> bool \<times> plugin" where
  "plugin_process (JsonPlugin p) c b = map_prod id JsonPlugin (json_process_char p c b)"
| "plugin_process (FencedCodePlugin p) c b = map_prod id FencedCodePlugin (fenced_process_char p c b)"
| "plugin_process (HeaderPlugin p) c b = map_prod id HeaderPlugin (header_process_char p c b)"
| "plugin_process (BlockQuotePlugin p) c b = map_prod id BlockQuotePlugin (quote_process_char p c b)"
| "plugin_process (OrderedListPlugin p) c b = map_prod id OrderedListPlugin (ordered_process_char p c b)"
| "plugin_process (UnorderedListPlugin p) c b = map_prod id UnorderedListPlugin (unordered_process_char p c b)"
| "plugin_process (BlockLatexPlugin p) c b = map_prod id BlockLatexPlugin (latex_process_char p c b)"
| "plugin_process (BracketLatexPlugin p) c b = map_prod id BracketLatexPlugin (bracket_process_char p c b)"
| "plugin_process (ImagePlugin p) c b = map_prod id ImagePlugin (image_process_char p c b)"
| "plugin_process (TablePlugin p) c b = map_prod id TablePlugin (table_process_char p c b)"
| "plugin_process (FootnotePlugin p) c b = map_prod id FootnotePlugin (footnote_process_char p c b)"
| "plugin_process (XmlPlugin p) c b = map_prod id XmlPlugin (xml_process_char p c b)"

fun plugin_reset :: "plugin \<Rightarrow> plugin" where
  "plugin_reset (JsonPlugin p) = JsonPlugin (json_reset p)"
| "plugin_reset (FencedCodePlugin p) = FencedCodePlugin (fenced_reset p)"
| "plugin_reset (HeaderPlugin p) = HeaderPlugin (header_reset p)"
| "plugin_reset (BlockQuotePlugin p) = BlockQuotePlugin (quote_reset p)"
| "plugin_reset (OrderedListPlugin p) = OrderedListPlugin (list_reset p)"
| "plugin_reset (UnorderedListPlugin p) = UnorderedListPlugin (list_reset p)"
| "plugin_reset (BlockLatexPlugin p) = BlockLatexPlugin (math_reset p)"
| "plugin_reset (BracketLatexPlugin p) = BracketLatexPlugin (math_reset p)"
| "plugin_reset (ImagePlugin p) = ImagePlugin (image_reset p)"
| "plugin_reset (TablePlugin p) = TablePlugin (table_reset p)"
| "plugin_reset (FootnotePlugin p) = FootnotePlugin (footnote_reset p)"
| "plugin_reset (XmlPlugin p) = XmlPlugin (xml_reset p)"

text \<open>Which plugins emit every character, and which never wait for the next line.\<close>

fun transparent :: "plugin \<Rightarrow> bool" where
  "transparent (JsonPlugin p) = False"
| "transparent (FencedCodePlugin p) = fc_include_fences p"
| "transparent (HeaderPlugin p) = hd_include_marker p"
| "transparent (BlockQuotePlugin p) = bq_include_marker p"
| "transparent (OrderedListPlugin p) = li_include_marker p"
| "transparent (UnorderedListPlugin p) = li_include_marker p"
| "transparent (BlockLatexPlugin p) = mt_include_delimiters p"
| "transparent (BracketLatexPlugin p) = mt_include_delimiters p"
| "transparent (ImagePlugin p) = im_include_delimiters p"
| "transparent (TablePlugin p) = tb_include_delimiters p"
| "transparent (FootnotePlugin p) = True"
| "transparent (XmlPlugin p) = include_tags_in_output p"

fun calm :: "plugin \<Rightarrow> bool" where
  "calm (JsonPlugin p) = json_calm p"
| "calm (BlockQuotePlugin p) = False"
| "calm (TablePlugin p) = False"
| "calm (FootnotePlugin p) = False"
| "calm p = (plugin_state p \<noteq> WaitFor)"

lemma plugin_reset_idle: "plugin_state (plugin_reset p) = Idle"
  by (cases p) (simp_all add: json.reset_idle fenced.reset_idle header.reset_idle quote.reset_idle
      ordered.reset_idle latex.reset_idle image.reset_idle table.reset_idle footnote.reset_idle xml.reset_idle)

lemma plugin_reset_reset: "plugin_reset (plugin_reset p) = plugin_reset p"
  by (cases p) (simp_all add: json.reset_reset fenced.reset_reset header.reset_reset quote.reset_reset
      ordered.reset_reset latex.reset_reset image.reset_reset table.reset_reset footnote.reset_reset xml.reset_reset)

lemma plugin_transparent_reset: "transparent (plugin_reset p) = transparent p"
  by (cases p) (simp_all add: fenced.transparent_reset header.transparent_reset quote.transparent_reset
      ordered.transparent_reset latex.transparent_reset image.transparent_reset table.transparent_reset
      xml.transparent_reset)

lemma plugin_calm_reset: "calm p \<Longrightarrow> calm (plugin_reset p)"
  by (cases p) (simp_all add: json.calm_reset fenced.reset_idle header.reset_idle ordered.reset_idle
      latex.reset_idle image.reset_idle xml.reset_idle)

lemma plugin_transparent_process:
  "transparent p \<Longrightarrow> transparent (snd (plugin_process p c b)) \<and> fst (plugin_process p c b)"
  by (cases p) (simp_all add: fenced.transparent_process header.transparent_process quote.transparent_process
      ordered.transparent_process unordered.transparent_process latex.transparent_process
      bracket.transparent_process image.transparent_process table.transparent_process
      footnote.transparent_process xml.transparent_process)

lemma plugin_calm_process:
  "calm p \<Longrightarrow> calm (snd (plugin_process p c b)) \<and> plugin_state (snd (plugin_process p c b)) \<noteq> WaitFor"
  by (cases p) (simp_all add: json.calm_process fenced.calm_process header.calm_process
      ordered.calm_process unordered.calm_process latex.calm_process
      bracket.calm_process image.calm_process xml.calm_process)

interpretation plug: stream_plugin plugin_state plugin_process plugin_reset transparent calm
  by unfold_locales
    (simp_all add: plugin_reset_idle plugin_reset_reset plugin_transparent_reset plugin_calm_reset
      plugin_transparent_process plugin_calm_process)

section \<open>The splitter\<close>

record split =
  plugins :: "plugin list"
  split_groups :: "(string option \<times> rchar list) list"
  default_text_buffer :: "rchar list"
  active_plugin :: "nat option"
  active_plugin_buffer :: "rchar list"
  evaluation_buffer :: "rchar list"
  evaluation_should_emit :: "bool list list"
  at_line_start :: bool

definition split_init :: "plugin list \<Rightarrow> split" where
  "split_init ps = \<lparr>plugins = map plugin_reset ps, split_groups = [], default_text_buffer = [],
     active_plugin = None, active_plugin_buffer = [], evaluation_buffer = [], evaluation_should_emit = [],
     at_line_start = True\<rparr>"

text \<open>The end of an active group.\<close>

definition close_active :: "split \<Rightarrow> nat \<Rightarrow> split" where
  "close_active s i = s\<lparr>split_groups := split_groups s @ [(Some (plugin_name (plugins s ! i)), active_plugin_buffer s)],
     active_plugin_buffer := [], active_plugin := None\<rparr>"

text \<open>
  One character while plugin \<open>i\<close> is active; the result holds what is left of the input.  A plugin
  that waits is shown the next character; when it does not take it, that character and, if it was
  emitted, the current one are put back in front of the input.
\<close>

definition active_step :: "split \<Rightarrow> nat \<Rightarrow> rchar \<Rightarrow> bool \<Rightarrow> rchar list \<Rightarrow> split \<times> rchar list" where
  "active_step s i c b cs =
     (let (emit, p) = plugin_process (plugins s ! i) c b;
          s = s\<lparr>plugins := (plugins s)[i := p],
                active_plugin_buffer := active_plugin_buffer s @ (if emit then [c] else [])\<rparr>
      in if plugin_state p = Processing then (s, cs)
         else if plugin_state p = WaitFor then
           (let held = (if emit then [c] else [])
            in case cs of
                [] \<Rightarrow> (close_active s i, held)
              | d # ds \<Rightarrow>
                  (let (next_emit, q) = plugin_process p d (c = newline);
                       s = s\<lparr>plugins := (plugins s)[i := q]\<rparr>
                   in if plugin_state q = Processing
                      then (s\<lparr>active_plugin_buffer := active_plugin_buffer s @ (if next_emit then [d] else []),
                              at_line_start := (d = newline)\<rparr>, ds)
                      else (close_active s i, held @ d # ds)))
         else (close_active s i, cs))"

definition emitted_of :: "bool list list \<Rightarrow> nat \<Rightarrow> rchar list \<Rightarrow> rchar list" where
  "emitted_of maps i buf = map fst (filter (\<lambda>(c, m). i < length m \<and> m ! i) (zip buf maps))"

definition flush_default :: "split \<Rightarrow> split" where
  "flush_default s = (if default_text_buffer s = [] then s
     else s\<lparr>split_groups := split_groups s @ [(None, default_text_buffer s)], default_text_buffer := []\<rparr>)"

definition reset_others :: "nat \<Rightarrow> plugin list \<Rightarrow> plugin list" where
  "reset_others i ps = map (\<lambda>j. if j = i then ps ! j else plugin_reset (ps ! j)) [0..<length ps]"

definition find_processing :: "plugin list \<Rightarrow> nat option" where
  "find_processing ps = List.find (\<lambda>i. plugin_state (ps ! i) = Processing) [0..<length ps]"

text \<open>One character while no plugin is active.\<close>

definition evaluate_step :: "split \<Rightarrow> rchar \<Rightarrow> bool \<Rightarrow> split" where
  "evaluate_step s c b =
     (let rs = map (\<lambda>p. plugin_process p c b) (plugins s);
          s = s\<lparr>plugins := map snd rs, evaluation_buffer := evaluation_buffer s @ [c],
                evaluation_should_emit := evaluation_should_emit s @ [map fst rs]\<rparr>
      in case find_processing (plugins s) of
          Some i \<Rightarrow>
            (let s = flush_default s
             in s\<lparr>active_plugin := Some i,
                  active_plugin_buffer := active_plugin_buffer s
                    @ emitted_of (evaluation_should_emit s) i (evaluation_buffer s),
                  evaluation_buffer := [], evaluation_should_emit := [],
                  plugins := reset_others i (plugins s)\<rparr>)
        | None \<Rightarrow>
            if list_all (\<lambda>p. plugin_state p \<noteq> Trying) (plugins s)
            then s\<lparr>default_text_buffer := default_text_buffer s @ evaluation_buffer s, evaluation_buffer := [],
                   evaluation_should_emit := [], plugins := map plugin_reset (plugins s)\<rparr>
            else s)"

lemma active_step_shrinks:
  "length (snd (active_step s i c b cs)) \<le> length cs
   \<or> length (snd (active_step s i c b cs)) = Suc (length cs) \<and> active_plugin (fst (active_step s i c b cs)) = None"
  by (auto simp: active_step_def Let_def close_active_def split: prod.split list.split)

function split_loop :: "split \<Rightarrow> rchar list \<Rightarrow> split" where
  "split_loop s [] = s"
| "split_loop s (c # cs) =
     (let b = at_line_start s; s = s\<lparr>at_line_start := (c = newline)\<rparr>
      in case active_plugin s of
          Some i \<Rightarrow> (let r = active_step s i c b cs in split_loop (fst r) (snd r))
        | None \<Rightarrow> split_loop (evaluate_step s c b) cs)"
  by pat_completeness auto
termination
proof (relation "measure (\<lambda>x. 2 * length (snd x) + (if active_plugin (fst x) = None then 0 else 1))")
  fix s :: split and c cs x s' a r
  assume "x = at_line_start s" "s' = s\<lparr>at_line_start := (c = newline)\<rparr>" "active_plugin s' = Some a"
    "r = active_step s' a c x cs"
  then show "((fst r, snd r), s, c # cs)
      \<in> measure (\<lambda>x. 2 * length (snd x) + (if active_plugin (fst x) = None then 0 else 1))"
    using active_step_shrinks [of s' a c x cs] by auto
qed (auto split: if_splits)

text \<open>What is left in the buffers at the end of the input.\<close>

definition split_finish :: "split \<Rightarrow> (string option \<times> rchar list) list" where
  "split_finish s =
     (let g = split_groups s @ (if active_plugin_buffer s = [] then []
             else [(map_option (\<lambda>i. plugin_name (plugins s ! i)) (active_plugin s), active_plugin_buffer s)]);
          d = default_text_buffer s @ evaluation_buffer s
      in g @ (if d = [] then [] else [(None, d)]))"

definition split_chars_by :: "rchar list \<Rightarrow> plugin list \<Rightarrow> (string option \<times> rchar list) list" where
  "split_chars_by source ps = split_finish (split_loop (split_init ps) source)"

definition split_strings_by :: "rchar list list \<Rightarrow> plugin list \<Rightarrow> (string option \<times> rchar list) list" where
  "split_strings_by source ps = split_chars_by (concat source) ps"

definition group_text :: "(string option \<times> rchar list) list \<Rightarrow> rchar list" where
  "group_text gs = concat (map snd gs)"


section \<open>No text is lost\<close>

text \<open>What the splitter holds of the text it has read.\<close>

definition held_text :: "split \<Rightarrow> rchar list" where
  "held_text s = group_text (split_groups s) @ default_text_buffer s @ active_plugin_buffer s @ evaluation_buffer s"

definition split_ok :: "split \<Rightarrow> bool" where
  "split_ok s \<longleftrightarrow> (\<forall>p\<in>set (plugins s). transparent p) \<and>
     (case active_plugin s of
        None \<Rightarrow> active_plugin_buffer s = [] \<and> length (evaluation_should_emit s) = length (evaluation_buffer s)
          \<and> (\<forall>m\<in>set (evaluation_should_emit s). m = map (\<lambda>_. True) (plugins s))
      | Some i \<Rightarrow> i < length (plugins s) \<and> default_text_buffer s = [] \<and> evaluation_buffer s = []
          \<and> evaluation_should_emit s = [])"

definition all_calm :: "split \<Rightarrow> bool" where
  "all_calm s \<longleftrightarrow> (\<forall>p\<in>set (plugins s). calm p)"

lemma at_line_start_irrelevant [simp]:
  "split_ok (s\<lparr>at_line_start := x\<rparr>) = split_ok s" "held_text (s\<lparr>at_line_start := x\<rparr>) = held_text s"
  "all_calm (s\<lparr>at_line_start := x\<rparr>) = all_calm s"
  by (simp_all add: split_ok_def held_text_def all_calm_def split: option.split)

lemma group_text_append [simp]: "group_text (a @ b) = group_text a @ group_text b"
  by (simp add: group_text_def)

lemma group_text_single [simp]: "group_text [(t, x)] = x" "group_text [] = []"
  by (simp_all add: group_text_def)

lemma find_processing_bound: "find_processing ps = Some i \<Longrightarrow> i < length ps"
  unfolding find_processing_def by (auto simp: find_Some_iff)

lemma emitted_all:
  assumes "length maps = length buf" and "\<forall>m\<in>set maps. i < length m \<and> m ! i"
  shows "emitted_of maps i buf = buf"
proof -
  have "filter (\<lambda>(c, m). i < length m \<and> m ! i) (zip buf maps) = zip buf maps"
    by (rule filter_True) (use assms(2) set_zip_rightD in fastforce)
  then show ?thesis using assms(1) by (simp add: emitted_of_def)
qed

lemma reset_others_all:
  assumes "\<forall>p\<in>set ps. P p" and "\<And>p. P p \<Longrightarrow> P (plugin_reset p)"
  shows "\<forall>p\<in>set (reset_others i ps). P p"
  using assms by (auto simp: reset_others_def)

lemma reset_others_length [simp]: "length (reset_others i ps) = length ps"
  by (simp add: reset_others_def)

lemma held_flush [simp]: "held_text (flush_default s) = held_text s"
  by (auto simp: held_text_def flush_default_def)

lemma evaluate_emits:
  assumes "\<forall>p\<in>set ps. transparent p"
  shows "map (\<lambda>p. fst (plugin_process p c b)) ps = map (\<lambda>_. True) ps"
  using assms by (simp add: plugin_transparent_process)

lemma evaluate_step_keeps:
  assumes "split_ok s" and "active_plugin s = None"
  shows "split_ok (evaluate_step s c b) \<and> held_text (evaluate_step s c b) = held_text s @ [c]"
proof -
  let ?ps = "map (\<lambda>p. snd (plugin_process p c b)) (plugins s)"
  let ?s = "s\<lparr>plugins := ?ps, evaluation_buffer := evaluation_buffer s @ [c],
     evaluation_should_emit := evaluation_should_emit s @ [map (\<lambda>_. True) (plugins s)]\<rparr>"
  have ps: "\<forall>p\<in>set (plugins s). transparent p" using assms(1) by (simp add: split_ok_def)
  then have ps': "\<forall>p\<in>set ?ps. transparent p" by (auto simp: plugin_transparent_process)
  have trues: "map (\<lambda>_. True) ?ps = map (\<lambda>_. True) (plugins s)" by simp
  have buf: "active_plugin_buffer s = []" "length (evaluation_should_emit s) = length (evaluation_buffer s)"
    "\<forall>m\<in>set (evaluation_should_emit s). m = map (\<lambda>_. True) (plugins s)"
    using assms by (simp_all add: split_ok_def)
  have emits: "map fst (map (\<lambda>p. plugin_process p c b) (plugins s)) = map (\<lambda>_. True) (plugins s)"
    using evaluate_emits [OF ps] by (simp add: comp_def)
  have news: "map snd (map (\<lambda>p. plugin_process p c b) (plugins s)) = ?ps" by simp
  have step: "evaluate_step s c b = (case find_processing ?ps of
       Some i \<Rightarrow> (flush_default ?s)\<lparr>active_plugin := Some i,
           active_plugin_buffer := active_plugin_buffer (flush_default ?s)
             @ emitted_of (evaluation_should_emit (flush_default ?s)) i (evaluation_buffer (flush_default ?s)),
           evaluation_buffer := [], evaluation_should_emit := [], plugins := reset_others i (plugins (flush_default ?s))\<rparr>
     | None \<Rightarrow> if list_all (\<lambda>p. plugin_state p \<noteq> Trying) ?ps
         then ?s\<lparr>default_text_buffer := default_text_buffer s @ evaluation_buffer s @ [c], evaluation_buffer := [],
             evaluation_should_emit := [], plugins := map plugin_reset ?ps\<rparr>
         else ?s)"
    unfolding evaluate_step_def Let_def emits news by (simp cong: option.case_cong)
  show ?thesis
  proof (cases "find_processing ?ps")
    case None
    then show ?thesis
      using ps' buf assms(2) unfolding step
      by (auto simp: split_ok_def held_text_def plugin_transparent_reset comp_def)
  next
    case (Some i)
    then have i: "i < length (plugins s)" using find_processing_bound by fastforce
    have "emitted_of (evaluation_should_emit s @ [map (\<lambda>_. True) (plugins s)]) i (evaluation_buffer s @ [c])
        = evaluation_buffer s @ [c]"
      by (rule emitted_all) (use buf i in auto)
    with Some i show ?thesis
      using reset_others_all [OF ps', of i] buf assms(2) plugin_transparent_reset unfolding step
      by (simp add: split_ok_def held_text_def flush_default_def)
  qed
qed

lemma evaluate_step_calm:
  assumes "all_calm s"
  shows "all_calm (evaluate_step s c b)"
proof -
  let ?ps = "map (\<lambda>p. snd (plugin_process p c b)) (plugins s)"
  have ps: "\<forall>p\<in>set ?ps. calm p" using assms by (auto simp: all_calm_def plugin_calm_process)
  have "plugins (evaluate_step s c b) \<in> {?ps, map plugin_reset ?ps} \<union> (\<lambda>i. reset_others i ?ps) ` UNIV"
    by (auto simp: evaluate_step_def Let_def flush_default_def comp_def split: option.split)
  then show ?thesis
    using ps reset_others_all [OF ps] by (auto simp: all_calm_def plugin_calm_reset)
qed

text \<open>An active step keeps all text; only a plugin that waits can put a character back.\<close>

lemma active_step_keeps:
  assumes "split_ok s" and "active_plugin s = Some i"
  shows "split_ok (fst (active_step s i c b cs))
    \<and> (\<exists>h. held_text (fst (active_step s i c b cs)) @ snd (active_step s i c b cs) = held_text s @ c # h @ cs
        \<and> (all_calm s \<longrightarrow> h = [] \<and> all_calm (fst (active_step s i c b cs))))"
proof -
  obtain e p where r: "plugin_process (plugins s ! i) c b = (e, p)" by fastforce
  have i: "i < length (plugins s)" using assms by (simp add: split_ok_def)
  then have t: "transparent (plugins s ! i)" using assms(1) by (simp add: split_ok_def)
  with r plugin_transparent_process [of "plugins s ! i" c b] have p: "e" "transparent p" by simp_all
  have calm: "all_calm s \<Longrightarrow> calm p \<and> plugin_state p \<noteq> WaitFor"
    using i r plugin_calm_process [of "plugins s ! i" c b] by (simp add: all_calm_def)
  let ?s = "\<lambda>q. s\<lparr>plugins := (plugins s)[i := q], active_plugin_buffer := active_plugin_buffer s @ [c]\<rparr>"
  have upd: "\<forall>q\<in>set ((plugins s)[i := q']). P q" if "\<forall>q\<in>set (plugins s). P q" "P q'" for P q'
    using that set_update_subset_insert [of "plugins s" i q'] by blast
  have ok: "split_ok (?s q) \<and> split_ok (close_active (?s q) i)
      \<and> held_text (?s q) = held_text s @ [c] \<and> held_text (close_active (?s q) i) = held_text s @ [c]"
    if "transparent q" for q
    using assms upd [of transparent q] that
    by (simp add: split_ok_def held_text_def close_active_def)
  have calms: "all_calm (?s p) \<and> all_calm (close_active (?s p) i)" if "all_calm s"
    using that upd [of calm p] calm by (simp add: all_calm_def close_active_def)
  consider (on) "plugin_state p = Processing" | (fin) "plugin_state p \<noteq> Processing" "plugin_state p \<noteq> WaitFor"
    | (wait_end) "plugin_state p = WaitFor" "cs = []" | (wait) d ds where "plugin_state p = WaitFor" "cs = d # ds"
    by (cases cs) auto
  then show ?thesis
  proof cases
    case on
    then have "active_step s i c b cs = (?s p, cs)" by (simp add: active_step_def r p)
    then show ?thesis using ok [OF p(2)] calms by auto
  next
    case fin
    then have "active_step s i c b cs = (close_active (?s p) i, cs)" by (simp add: active_step_def r p)
    then show ?thesis using ok [OF p(2)] calms by auto
  next
    case wait_end
    then have "active_step s i c b cs = (close_active (?s p) i, [c])" by (simp add: active_step_def r p)
    then show ?thesis using ok [OF p(2)] calm wait_end by (auto intro: exI [of _ "[c]"])
  next
    case wait
    obtain e' q where r': "plugin_process p d (c = newline) = (e', q)" by fastforce
    with p plugin_transparent_process [of p d "c = newline"] have q: "e'" "transparent q" by simp_all
    let ?more = "(?s q)\<lparr>active_plugin_buffer := active_plugin_buffer s @ [c] @ [d], at_line_start := (d = newline)\<rparr>"
    have step: "active_step s i c b cs = (if plugin_state q = Processing then (?more, ds)
        else (close_active (?s q) i, c # d # ds))"
      using wait i by (simp add: active_step_def r r' p q Let_def close_active_def)
    have "split_ok ?more" "held_text ?more = held_text s @ [c, d]"
      using ok [OF q(2)] assms by (simp_all add: split_ok_def held_text_def)
    with step ok [OF q(2)] wait calm show ?thesis
      by (cases "plugin_state q = Processing") (auto intro: exI [of _ "[]"] exI [of _ "[c]"])
  qed
qed

lemma split_loop_subseq:
  assumes "split_ok s"
  shows "split_ok (split_loop s cs) \<and> subseq (held_text s @ cs) (held_text (split_loop s cs))"
  using assms
proof (induction s cs rule: split_loop.induct)
  case (2 s c cs)
  let ?s = "s\<lparr>at_line_start := (c = newline)\<rparr>"
  have s: "split_ok ?s" "held_text ?s = held_text s" using 2(3) by simp_all
  show ?case
  proof (cases "active_plugin s")
    case None
    with evaluate_step_keeps [OF s(1), of c "at_line_start s"]
    have e: "split_ok (evaluate_step ?s c (at_line_start s))"
      "held_text (evaluate_step ?s c (at_line_start s)) = held_text s @ [c]" by (simp_all add: s)
    with 2(1) [OF refl refl] None have "subseq ((held_text s @ [c]) @ cs) (held_text (split_loop (evaluate_step ?s c (at_line_start s)) cs))"
      "split_ok (split_loop (evaluate_step ?s c (at_line_start s)) cs)" by simp_all
    with None show ?thesis by simp
  next
    case (Some i)
    let ?r = "active_step ?s i c (at_line_start s) cs"
    obtain h where r: "split_ok (fst ?r)" "held_text (fst ?r) @ snd ?r = held_text s @ c # h @ cs"
      using active_step_keeps [OF s(1), of i c "at_line_start s" cs] Some s(2) by auto
    with 2(2) [OF refl refl _ refl] Some have IH: "split_ok (split_loop (fst ?r) (snd ?r))"
      "subseq (held_text s @ c # h @ cs) (held_text (split_loop (fst ?r) (snd ?r)))" by simp_all
    have "subseq (held_text s @ c # cs) (held_text s @ c # h @ cs)"
      by (rule list_emb_append_mono [OF subseq_order.order_refl]) (simp add: list_emb_append2)
    with IH(2) have "subseq (held_text s @ c # cs) (held_text (split_loop (fst ?r) (snd ?r)))"
      using subseq_order.order_trans by blast
    with IH(1) Some show ?thesis by (simp add: Let_def)
  qed
qed simp

lemma split_loop_exact:
  assumes "split_ok s" and "all_calm s"
  shows "held_text (split_loop s cs) = held_text s @ cs"
  using assms
proof (induction s cs rule: split_loop.induct)
  case (2 s c cs)
  let ?s = "s\<lparr>at_line_start := (c = newline)\<rparr>"
  have s: "split_ok ?s" "held_text ?s = held_text s" "all_calm ?s"
    using 2(3-) by simp_all
  show ?case
  proof (cases "active_plugin s")
    case None
    with evaluate_step_keeps [OF s(1), of c "at_line_start s"] evaluate_step_calm [OF s(3), of c "at_line_start s"] 2(1) [OF refl refl]
    show ?thesis by (simp add: s)
  next
    case (Some i)
    with active_step_keeps [OF s(1), of i c "at_line_start s" cs] s 2(2) [OF refl refl _ refl] show ?thesis by (simp add: Let_def)
  qed
qed simp

lemma split_finish_text:
  assumes "split_ok s"
  shows "group_text (split_finish s) = held_text s"
proof (cases "active_plugin s")
  case None
  with assms show ?thesis by (simp add: split_ok_def split_finish_def held_text_def)
next
  case (Some i)
  with assms show ?thesis by (simp add: split_ok_def split_finish_def held_text_def)
qed

lemma split_init_ok: "\<forall>p\<in>set ps. transparent p \<Longrightarrow> split_ok (split_init ps) \<and> held_text (split_init ps) = []"
  by (simp add: split_ok_def split_init_def held_text_def plugin_transparent_reset)

text \<open>With plugins that emit every character, splitting loses no text: the source is a
  subsequence of the concatenated groups, whatever plugins compete for it.\<close>

theorem split_loses_nothing:
  assumes "\<forall>p\<in>set ps. transparent p"
  shows "subseq source (group_text (split_chars_by source ps))"
  using split_init_ok [OF assms] split_loop_subseq [of "split_init ps" source]
  by (simp add: split_chars_by_def split_finish_text)

theorem split_loses_nothing_witness:
  "subseq (chars ''> a'') (group_text (split_chars_by (chars ''> a'') [BlockQuotePlugin (quote_new True), HeaderPlugin (header_new True)]))"
  by (rule split_loses_nothing) (simp add: quote_new_def quote_reset_def header_new_def header_reset_def)

text \<open>C21: with plugins that emit every character (\<open>transparent\<close>) and never wait for the next line
  (\<open>calm\<close>), the groups partition the source: concatenating them gives it back unchanged, also when it
  is split string by string.  Block quotes, tables and footnotes wait, and are not covered: the
  example below shows the line break they duplicate.\<close>

theorem split_partitions:
  assumes "\<forall>p\<in>set ps. transparent p \<and> calm p"
  shows "group_text (split_strings_by source ps) = concat source"
proof -
  have ok: "split_ok (split_init ps)" "held_text (split_init ps) = []" using split_init_ok assms by blast+
  have "all_calm (split_init ps)" using assms by (simp add: all_calm_def split_init_def plugin_calm_reset)
  with ok split_loop_exact [OF ok(1)] split_loop_subseq [OF ok(1)] show ?thesis
    by (simp add: split_strings_by_def split_chars_by_def split_finish_text)
qed

theorem split_partitions_witness:
  "group_text (split_strings_by [chars ''# a'', chars ''b''] [HeaderPlugin (header_new True), XmlPlugin (xml_new True)]) = chars ''# ab''"
  using split_partitions [of "[HeaderPlugin (header_new True), XmlPlugin (xml_new True)]" "[chars ''# a'', chars ''b'']"]
  by (simp add: header_new_def header_reset_def xml_new_def chars_def)

text \<open>A plugin that waits duplicates the line break it waits behind.  A quote of one line
  followed by other text yields the line break twice: once in the quote's group and once in the
  text after it, so the groups are not a partition of the source.\<close>

theorem waiting_plugin_duplicates_newline:
  "split_chars_by [ch CHR ''>'', ch CHR '' '', ch CHR ''a'', newline, ch CHR ''b''] [BlockQuotePlugin (quote_new True)]
   = [(Some ''StreamMarkdownBlockQuotePlugin'', [ch CHR ''>'', ch CHR '' '', ch CHR ''a'', newline]),
      (None, [newline, ch CHR ''b''])]"
  by (simp add: split_chars_by_def split_init_def evaluate_step_def active_step_def close_active_def
      quote_new_def quote_reset_def quote_process_char_def find_processing_def emitted_of_def reset_others_def
      flush_default_def split_finish_def newline_def ch_def Let_def)

text \<open>The splitter ends a footnote definition before a line indented by four spaces, because it
  shows a waiting plugin one character only and the plugin needs four; a line indented by a tab
  stays in the definition.\<close>

theorem footnote_continuation:
  "split_chars_by (chars ''[^a]:x'' @ newline # chars ''    y'') [FootnotePlugin footnote_default]
     = [(Some ''StreamMarkdownFootnoteDefinitionPlugin'', chars ''[^a]:x'' @ [newline]), (None, newline # chars ''    y'')]
   \<and> split_chars_by (chars ''[^a]:x'' @ newline # tab # chars ''y'') [FootnotePlugin footnote_default]
     = [(Some ''StreamMarkdownFootnoteDefinitionPlugin'', chars ''[^a]:x'' @ newline # tab # chars ''y'')]"
  by (simp add: split_chars_by_def split_init_def evaluate_step_def active_step_def close_active_def
      footnote_default_def footnote_reset_def footnote_process_char_def footnote_prefix_def find_processing_def
      emitted_of_def reset_others_def flush_default_def split_finish_def newline_def tab_def ch_def chars_def
      is_whitespace_def Let_def)

end
