(* ===== verification/Stream_Operators.thy ===== *)
theory Stream_Operators
  imports Prelude
begin

text \<open>
  The list-like operators of \<open>StreamOperators.rs\<close>.  A stream is the list of the items that its
  \<open>collect\<close> hands to the callback, in order; each operator is the fold of its callback over them.
\<close>

type_synonym 'a stream = "'a list"

text \<open>\<open>collect\<close>: the callback runs on every item, over the variables it captures.\<close>

fun collect :: "('s \<Rightarrow> 'a \<Rightarrow> 's) \<Rightarrow> 's \<Rightarrow> 'a stream \<Rightarrow> 's" where
  "collect f s [] = s"
| "collect f s (x # xs) = collect f (f s x) xs"

definition stream_map :: "('a \<Rightarrow> 'b) \<Rightarrow> 'a stream \<Rightarrow> 'b stream" where
  "stream_map transform = collect (\<lambda>vs x. vs @ [transform x]) []"

definition stream_filter :: "('a \<Rightarrow> bool) \<Rightarrow> 'a stream \<Rightarrow> 'a stream" where
  "stream_filter predicate = collect (\<lambda>vs x. if predicate x then vs @ [x] else vs) []"

definition stream_take :: "nat \<Rightarrow> 'a stream \<Rightarrow> 'a stream" where
  "stream_take num = collect (\<lambda>vs x. if length vs < num then vs @ [x] else vs) []"

definition stream_drop :: "nat \<Rightarrow> 'a stream \<Rightarrow> 'a stream" where
  "stream_drop num source =
     snd (collect (\<lambda>(skipped, vs) x. if skipped < num then (skipped + 1, vs) else (skipped, vs @ [x])) (0, []) source)"

definition stream_flat_map :: "('a \<Rightarrow> 'b stream) \<Rightarrow> 'a stream \<Rightarrow> 'b stream" where
  "stream_flat_map transform source =
     collect (\<lambda>vs x. collect (\<lambda>ws y. ws @ [y]) vs (transform x)) [] (collect (\<lambda>vs x. vs @ [x]) [] source)"

text \<open>The action is a function on the state of the caller.\<close>

definition stream_on_each :: "('w \<Rightarrow> 'a \<Rightarrow> 'w) \<Rightarrow> 'a stream \<Rightarrow> 'w \<Rightarrow> 'a stream \<times> 'w" where
  "stream_on_each action source w = collect (\<lambda>(vs, w) x. (vs @ [x], action w x)) ([], w) source"

definition stream_merge :: "'a stream \<Rightarrow> 'a stream \<Rightarrow> 'a stream" where
  "stream_merge left right = collect (\<lambda>vs x. vs @ [x]) (collect (\<lambda>vs x. vs @ [x]) [] left) right"

definition combine_push :: "('l \<Rightarrow> 'r \<Rightarrow> 'o) \<Rightarrow> 'l option \<Rightarrow> 'r option \<Rightarrow> 'o list \<Rightarrow> 'o list" where
  "combine_push transform l r vs = (case (l, r) of (Some x, Some y) \<Rightarrow> vs @ [transform x y] | _ \<Rightarrow> vs)"

text \<open>Both sources are collected before the values are paired: first the loop over the left
  values, then the loop over the right ones.\<close>

definition stream_combine :: "('l \<Rightarrow> 'r \<Rightarrow> 'o) \<Rightarrow> 'l stream \<Rightarrow> 'r stream \<Rightarrow> 'o stream" where
  "stream_combine transform left right =
     (let left_values = collect (\<lambda>vs x. vs @ [x]) [] left; right_values = collect (\<lambda>vs x. vs @ [x]) [] right;
          (latest_left, vs) = collect (\<lambda>(l, vs) x. (Some x, combine_push transform (Some x) None vs)) (None, []) left_values
      in snd (collect (\<lambda>(r, vs) y. (Some y, combine_push transform latest_left (Some y) vs)) (None :: 'r option, vs) right_values))"

definition stream_concat_with :: "'a stream \<Rightarrow> 'a stream \<Rightarrow> 'a stream" where
  "stream_concat_with left right = collect (\<lambda>vs x. vs @ [x]) (collect (\<lambda>vs x. vs @ [x]) [] left) right"

definition distinct_until_changed :: "'a stream \<Rightarrow> 'a stream" where
  "distinct_until_changed source =
     snd (collect (\<lambda>(last_value, vs) x. if last_value \<noteq> Some x then (Some x, vs @ [x]) else (last_value, vs)) (None, []) source)"

text \<open>A size of zero fails the assertion.\<close>

definition chunked :: "nat \<Rightarrow> 'a stream \<Rightarrow> 'a stream stream option" where
  "chunked sz source =
     (if sz = 0 then None
      else let (current, vs) = collect (\<lambda>(current, vs) x.
                let current = current @ [x] in if length current = sz then ([], vs @ [current]) else (current, vs))
              ([], []) source
           in Some (if current = [] then vs else vs @ [current]))"

section \<open>They are the list functions\<close>

lemma collect_append: "collect f s (xs @ ys) = collect f (collect f s xs) ys"
  by (induction xs arbitrary: s) simp_all

lemma collect_push [simp]: "collect (\<lambda>vs x. vs @ [f x]) vs xs = vs @ map f xs"
  by (induction xs arbitrary: vs) simp_all

lemma collect_push_id [simp]: "collect (\<lambda>vs x. vs @ [x]) vs xs = vs @ xs"
  by (induction xs arbitrary: vs) simp_all

lemma collect_filter: "collect (\<lambda>vs x. if P x then vs @ [x] else vs) vs xs = vs @ filter P xs"
  by (induction xs arbitrary: vs) simp_all

lemma collect_take:
  "collect (\<lambda>vs x. if length vs < n then vs @ [x] else vs) vs xs = vs @ take (n - length vs) xs"
proof (induction xs arbitrary: vs)
  case (Cons x xs)
  then show ?case by (cases "length vs < n") (simp_all add: take_Cons' Suc_diff_Suc)
qed simp

lemma collect_drop:
  "collect (\<lambda>(k, vs) x. if k < n then (k + 1, vs) else (k, vs @ [x])) (k, vs) xs = (min n (max k (k + length xs)) + (k - n), vs @ drop (n - k) xs)"
  if "k \<le> n"
  using that
proof (induction xs arbitrary: k vs)
  case (Cons x xs)
  then show ?case by (cases "k < n") (simp_all add: drop_Cons' Suc_diff_Suc)
qed simp

lemma collect_flat: "collect (\<lambda>vs x. vs @ f x) vs xs = vs @ concat (map f xs)"
  by (induction xs arbitrary: vs) simp_all

lemma collect_distinct:
  "snd (collect (\<lambda>(l, vs) x. if l \<noteq> Some x then (Some x, vs @ [x]) else (l, vs)) (Some y, vs) xs)
     = vs @ tl (remdups_adj (y # xs))"
proof (induction xs arbitrary: y vs)
  case (Cons x xs)
  obtain zs where zs: "remdups_adj (x # xs) = x # zs"
    by (metis list.collapse remdups_adj_Cons_alt remdups_adj_Nil_iff list.sel(1) hd_remdups_adj list.discI)
  with Cons show ?case by simp
qed simp

lemma collect_combine_left:
  "collect (\<lambda>(l, vs) x. (Some x, combine_push t (Some x) None vs)) (l, vs) xs = (if xs = [] then l else Some (last xs), vs)"
  by (induction xs arbitrary: l) (simp_all add: combine_push_def)

lemma collect_combine_right:
  "snd (collect (\<lambda>(r, vs) y. (Some y, combine_push t l (Some y) vs)) (r, vs) ys)
     = vs @ (case l of None \<Rightarrow> [] | Some x \<Rightarrow> map (t x) ys)"
  by (induction ys arbitrary: r vs) (auto simp: combine_push_def split: option.split)

lemma collect_each:
  "collect (\<lambda>(vs, w) x. (vs @ [x], f w x)) (vs, w) xs = (vs @ xs, foldl f w xs)"
  by (induction xs arbitrary: vs w) simp_all

text \<open>every list-like operator computes the list function of its name.  The pairing operator
  only ever uses the last value of its left source, since that source is collected before the
  right one starts.\<close>

theorem stream_operators_spec:
  "stream_map f xs = map f xs \<and> stream_filter P xs = filter P xs \<and> stream_take n xs = take n xs
   \<and> stream_drop n xs = drop n xs \<and> stream_flat_map g xs = concat (map g xs)
   \<and> stream_on_each h xs w = (xs, foldl h w xs) \<and> stream_merge xs ys = xs @ ys \<and> stream_concat_with xs ys = xs @ ys
   \<and> distinct_until_changed xs = remdups_adj xs
   \<and> stream_combine t ls rs = (if ls = [] then [] else map (t (last ls)) rs)"
proof (intro conjI)
  show "stream_drop n xs = drop n xs" using collect_drop [of 0 n "[]" xs] by (simp add: stream_drop_def)
  show "distinct_until_changed xs = remdups_adj xs"
  proof (cases xs)
    case (Cons x ys)
    obtain zs where "remdups_adj (x # ys) = x # zs"
      by (metis list.collapse remdups_adj_Nil_iff list.sel(1) hd_remdups_adj list.discI)
    with Cons collect_distinct [of x "[x]" ys] show ?thesis by (simp add: distinct_until_changed_def)
  qed (simp add: distinct_until_changed_def)
  show "stream_combine t ls rs = (if ls = [] then [] else map (t (last ls)) rs)"
    by (simp add: stream_combine_def collect_combine_left collect_combine_right)
qed (simp_all add: stream_map_def stream_filter_def collect_filter stream_take_def collect_take
    stream_flat_map_def collect_flat stream_on_each_def collect_each stream_merge_def stream_concat_with_def)

definition chunk_step :: "nat \<Rightarrow> 'a list \<times> 'a list list \<Rightarrow> 'a \<Rightarrow> 'a list \<times> 'a list list" where
  "chunk_step n = (\<lambda>(current, vs) x.
     let current = current @ [x] in if length current = n then ([], vs @ [current]) else (current, vs))"

lemma chunk_collect:
  assumes "0 < n" and "length (fst s) < n" and "\<forall>v\<in>set (snd s). length v = n"
  shows "length (fst (collect (chunk_step n) s xs)) < n \<and> (\<forall>v\<in>set (snd (collect (chunk_step n) s xs)). length v = n)
    \<and> concat (snd (collect (chunk_step n) s xs)) @ fst (collect (chunk_step n) s xs) = concat (snd s) @ fst s @ xs"
  using assms(2,3)
proof (induction xs arbitrary: s)
  case (Cons x xs)
  obtain c vs where s: "s = (c, vs)" by (rule prod.exhaust)
  have nxt: "chunk_step n s x = (if Suc (length c) = n then ([], vs @ [c @ [x]]) else (c @ [x], vs))"
    by (simp add: s chunk_step_def)
  have c: "length c < n" "\<forall>v\<in>set vs. length v = n" using Cons.prems by (simp_all add: s)
  show ?case
  proof (cases "Suc (length c) = n")
    case True
    have "length (fst ([], vs @ [c @ [x]])) < n" "\<forall>v\<in>set (snd ([] :: 'a list, vs @ [c @ [x]])). length v = n"
      using assms(1) c(2) True by auto
    from Cons.IH [OF this] show ?thesis by (simp only: collect.simps nxt True if_True) (simp add: s)
  next
    case False
    have "length (fst (c @ [x], vs)) < n" "\<forall>v\<in>set (snd (c @ [x], vs)). length v = n"
      using c False by simp_all
    from Cons.IH [OF this] show ?thesis by (simp only: collect.simps nxt False if_False) (simp add: s)
  qed
qed simp

text \<open>Chunking cuts the stream without losing an item: the chunks concatenate to the stream,
  none is empty, all but the last have the requested size and the last is not longer; a size of
  zero is refused.\<close>

theorem chunked_spec:
  "chunked 0 xs = None \<and> (0 < n \<longrightarrow> (\<exists>cs. chunked n xs = Some cs \<and> concat cs = xs
     \<and> (\<forall>c\<in>set cs. 0 < length c \<and> length c \<le> n) \<and> (\<forall>c\<in>set (butlast cs). length c = n)))"
proof (intro conjI impI)
  assume n: "0 < n"
  obtain c vs where r: "collect (chunk_step n) ([], []) xs = (c, vs)" by fastforce
  with chunk_collect [OF n, of "([], [])" xs] n
  have c: "length c < n" "\<forall>v\<in>set vs. length v = n" "concat vs @ c = xs" by simp_all
  have "chunked n xs = Some (if c = [] then vs else vs @ [c])"
    using n r by (simp add: chunked_def chunk_step_def)
  moreover have "concat (if c = [] then vs else vs @ [c]) = xs" using c(3) by (cases c) simp_all
  moreover have "\<forall>x\<in>set (if c = [] then vs else vs @ [c]). 0 < length x \<and> length x \<le> n"
    using c n by auto
  moreover have "\<forall>x\<in>set (butlast (if c = [] then vs else vs @ [c])). length x = n"
    using c(2) in_set_butlastD [of _ vs] by auto
  ultimately show "\<exists>cs. chunked n xs = Some cs \<and> concat cs = xs
     \<and> (\<forall>c\<in>set cs. 0 < length c \<and> length c \<le> n) \<and> (\<forall>c\<in>set (butlast cs). length c = n)" by blast
qed (simp add: chunked_def)

theorem chunked_spec_witness: "\<exists>cs. chunked 2 [1, 2, 3 :: nat] = Some cs \<and> concat cs = [1, 2, 3]"
  using chunked_spec [of "[1, 2, 3 :: nat]" 2] by auto

end
