(* ===== verification/Kmp_Graph.thy ===== *)
theory Kmp_Graph
  imports Stream_Plugin Text_Match
begin

text \<open>
  The string graph of the stream package (\<open>StreamKmpGraph.rs\<close>, \<open>StreamKmpMatchResult.rs\<close>): the
  conditions, the pattern builder, the graph with its failure links, the matcher that reads one
  character at a time, and the capture of groups.

  A value of type \<open>option\<close> is \<open>None\<close> where the code would index outside of the node list, and
  where its search along failure links would not end.
\<close>

section \<open>Conditions\<close>

datatype KmpCondition =
    CharIs rchar
  | RangeOf rchar rchar
  | SetOf "rchar list"
  | NotC KmpCondition
  | OrC "KmpCondition list"
  | AndC "KmpCondition list"
  | Predicate "rchar list" "rchar \<Rightarrow> bool"
  | GreedyStar KmpCondition
  | Group int "KmpCondition list"

fun kmp_matches :: "KmpCondition \<Rightarrow> rchar \<Rightarrow> bool" where
  "kmp_matches (CharIs e) c = (c = e)"
| "kmp_matches (RangeOf a b) c = (a \<le> c \<and> c \<le> b)"
| "kmp_matches (SetOf cs) c = (c \<in> set cs)"
| "kmp_matches (NotC x) c = (\<not> kmp_matches x c)"
| "kmp_matches (OrC xs) c = list_ex (\<lambda>x. kmp_matches x c) xs"
| "kmp_matches (AndC xs) c = list_all (\<lambda>x. kmp_matches x c) xs"
| "kmp_matches (Predicate d p) c = p c"
| "kmp_matches (GreedyStar x) c = kmp_matches x c"
| "kmp_matches (Group i xs) c = False"

fun get_all_group_ids :: "KmpCondition \<Rightarrow> int list" where
  "get_all_group_ids (Group i xs) = i # concat (map get_all_group_ids xs)"
| "get_all_group_ids _ = []"

section \<open>Patterns\<close>

record KmpPattern =
  conditions :: "KmpCondition list"
  group_ids :: "int list"

definition pattern_new :: KmpPattern where
  "pattern_new = \<lparr>conditions = [], group_ids = []\<rparr>"

definition pattern_add :: "KmpCondition \<Rightarrow> KmpPattern \<Rightarrow> KmpPattern" where
  "pattern_add x p = \<lparr>conditions = conditions p @ [x], group_ids = group_ids p @ get_all_group_ids x\<rparr>"

text \<open>A builder is the function on patterns that the closure performs.\<close>

definition pattern_group :: "int \<Rightarrow> (KmpPattern \<Rightarrow> KmpPattern) \<Rightarrow> KmpPattern \<Rightarrow> KmpPattern" where
  "pattern_group i builder p = pattern_add (Group i (conditions (builder pattern_new))) p"

definition pattern_char :: "rchar \<Rightarrow> KmpPattern \<Rightarrow> KmpPattern" where
  "pattern_char c = pattern_add (CharIs c)"

definition to_ascii_uppercase :: "rchar \<Rightarrow> rchar" where
  "to_ascii_uppercase c = (if 97 \<le> c \<and> c \<le> 122 then c - 32 else c)"

definition char_ignore_case :: "rchar \<Rightarrow> KmpPattern \<Rightarrow> KmpPattern" where
  "char_ignore_case c = pattern_add (OrC [CharIs (to_ascii_lowercase c), CharIs (to_ascii_uppercase c)])"

definition pattern_range :: "rchar \<Rightarrow> rchar \<Rightarrow> KmpPattern \<Rightarrow> KmpPattern" where
  "pattern_range a b = pattern_add (RangeOf a b)"

definition any_of :: "rchar list \<Rightarrow> KmpPattern \<Rightarrow> KmpPattern" where
  "any_of cs = pattern_add (SetOf cs)"

definition not_char :: "rchar \<Rightarrow> KmpPattern \<Rightarrow> KmpPattern" where
  "not_char c = pattern_add (NotC (CharIs c))"

definition none_of :: "rchar list \<Rightarrow> KmpPattern \<Rightarrow> KmpPattern" where
  "none_of cs = pattern_add (NotC (SetOf cs))"

definition pattern_predicate :: "rchar list \<Rightarrow> (rchar \<Rightarrow> bool) \<Rightarrow> KmpPattern \<Rightarrow> KmpPattern" where
  "pattern_predicate d p = pattern_add (Predicate d p)"

definition digit :: "KmpPattern \<Rightarrow> KmpPattern" where
  "digit = pattern_predicate (chars ''digit'') is_digit"

definition letter :: "KmpPattern \<Rightarrow> KmpPattern" where
  "letter = pattern_predicate (chars ''letter'') is_ascii_alphabetic"

definition whitespace :: "KmpPattern \<Rightarrow> KmpPattern" where
  "whitespace = pattern_predicate (chars ''whitespace'') is_whitespace"

definition any_char :: "KmpPattern \<Rightarrow> KmpPattern" where
  "any_char = pattern_predicate (chars ''any'') (\<lambda>_. True)"

definition literal :: "rchar list \<Rightarrow> KmpPattern \<Rightarrow> KmpPattern" where
  "literal w p = fold pattern_char w p"

definition greedy_star :: "(KmpPattern \<Rightarrow> KmpPattern) \<Rightarrow> KmpPattern \<Rightarrow> KmpPattern" where
  "greedy_star builder p = (case conditions (builder pattern_new) of
     [] \<Rightarrow> p
   | [x] \<Rightarrow> pattern_add (GreedyStar x) p
   | xs \<Rightarrow> pattern_add (GreedyStar (OrC xs)) p)"

definition pattern_repeat :: "nat \<Rightarrow> (KmpPattern \<Rightarrow> KmpPattern) \<Rightarrow> KmpPattern \<Rightarrow> KmpPattern" where
  "pattern_repeat n builder p =
     p\<lparr>conditions := conditions p @ concat (replicate n (conditions (builder pattern_new)))\<rparr>"

definition kmp_pattern :: "(KmpPattern \<Rightarrow> KmpPattern) \<Rightarrow> KmpPattern" where
  "kmp_pattern init = init pattern_new"

section \<open>The graph\<close>

record KmpNode =
  node_id :: nat
  depth :: nat
  is_final :: bool
  transitions :: "(KmpCondition \<times> nat) list"
  failure_node :: "nat option"

definition get_next_node :: "KmpNode \<Rightarrow> rchar \<Rightarrow> nat option" where
  "get_next_node n c = map_option snd (List.find (\<lambda>(x, _). kmp_matches x c) (transitions n))"

record StreamKmpGraph =
  nodes :: "KmpNode list"
  current_node :: nat
  start_node :: nat
  character_stream_buffer :: "rchar list"
  current_match_length :: nat
  pattern :: "KmpPattern option"

definition create_node :: "nat \<Rightarrow> bool \<Rightarrow> StreamKmpGraph \<Rightarrow> nat \<times> StreamKmpGraph" where
  "create_node d fin g = (length (nodes g),
     g\<lparr>nodes := nodes g @ [\<lparr>node_id = length (nodes g), depth = d, is_final = fin, transitions = [], failure_node = None\<rparr>]\<rparr>)"

definition graph_new :: StreamKmpGraph where
  "graph_new =
     (let (s, g) = create_node 0 False \<lparr>nodes = [], current_node = 0, start_node = 0,
            character_stream_buffer = [], current_match_length = 0, pattern = None\<rparr>
      in g\<lparr>start_node := s, current_node := s\<rparr>)"

definition add_transition :: "nat \<Rightarrow> nat \<Rightarrow> KmpCondition \<Rightarrow> StreamKmpGraph \<Rightarrow> StreamKmpGraph" where
  "add_transition from to x g =
     g\<lparr>nodes := (nodes g)[from := (nodes g ! from)\<lparr>transitions := transitions (nodes g ! from) @ [(x, to)]\<rparr>]\<rparr>"

definition set_failure :: "nat \<Rightarrow> nat \<Rightarrow> StreamKmpGraph \<Rightarrow> StreamKmpGraph" where
  "set_failure n f g = g\<lparr>nodes := (nodes g)[n := (nodes g ! n)\<lparr>failure_node := Some f\<rparr>]\<rparr>"

text \<open>The condition of a loop excludes what the next condition accepts.\<close>

definition loop_condition :: "KmpCondition \<Rightarrow> KmpCondition list \<Rightarrow> KmpCondition" where
  "loop_condition inner rest = (case rest of [] \<Rightarrow> inner | y # _ \<Rightarrow> AndC [inner, NotC y])"

definition extend_graph :: "StreamKmpGraph \<Rightarrow> nat \<Rightarrow> KmpCondition \<Rightarrow> nat \<Rightarrow> nat \<times> StreamKmpGraph" where
  "extend_graph g n x d = (let (m, g') = create_node (d + 1) False g in (m, add_transition n m x g'))"

fun build_recursive :: "StreamKmpGraph \<Rightarrow> nat \<Rightarrow> KmpCondition list \<Rightarrow> nat \<Rightarrow> StreamKmpGraph \<times> nat \<times> nat" where
  "build_recursive g n [] d = (g, n, d)"
| "build_recursive g n (Group i xs # rest) d =
     (if xs = [] then build_recursive g n rest d
      else let (g', n', d') = build_recursive g n xs d in build_recursive g' n' rest d')"
| "build_recursive g n (GreedyStar x # rest) d =
     build_recursive (add_transition n n (loop_condition x rest) g) n rest d"
| "build_recursive g n (x # rest) d =
     (let (m, g') = extend_graph g n x d in build_recursive g' m rest (d + 1))"

definition setup_failure_transitions :: "StreamKmpGraph \<Rightarrow> StreamKmpGraph" where
  "setup_failure_transitions g = g\<lparr>nodes := map (\<lambda>n. n\<lparr>failure_node := Some (start_node g)\<rparr>) (nodes g)\<rparr>"

definition build_graph :: "KmpPattern \<Rightarrow> StreamKmpGraph" where
  "build_graph p =
     (let g = graph_new\<lparr>pattern := Some p\<rparr>;
          (g, f, _) = build_recursive g (start_node g) (conditions p) 0;
          g = g\<lparr>nodes := (nodes g)[f := (nodes g ! f)\<lparr>is_final := True\<rparr>]\<rparr>
      in setup_failure_transitions g)"

section \<open>Captured groups\<close>

fun count_consumed :: "KmpCondition list \<Rightarrow> rchar list \<Rightarrow> nat" where
  "count_consumed [] t = 0"
| "count_consumed (GreedyStar x # rest) t =
     (let k = length (takeWhile (kmp_matches x) t) in k + count_consumed rest (drop k t))"
| "count_consumed (Group i xs # rest) t =
     (let k = count_consumed xs t in k + count_consumed rest (drop k t))"
| "count_consumed (_ # rest) t = (if t = [] then 0 else 1) + count_consumed rest (drop 1 t)"

fun capture_groups :: "KmpCondition list \<Rightarrow> rchar list \<Rightarrow> (int \<rightharpoonup> rchar list) \<Rightarrow> (int \<rightharpoonup> rchar list)" where
  "capture_groups [] t gs = gs"
| "capture_groups (Group i xs # rest) t gs =
     (let k = count_consumed xs t in capture_groups rest (drop k t) (gs(i \<mapsto> take k t)))"
| "capture_groups (GreedyStar x # rest) t gs =
     (let k = length (takeWhile (kmp_matches x) t) in capture_groups rest (drop k t) gs)"
| "capture_groups (_ # rest) t gs = capture_groups rest (drop 1 t) gs"

section \<open>Matching\<close>

datatype StreamKmpMatchResult = NoMatch | InProgress | Match "int \<rightharpoonup> rchar list" bool

definition is_match :: "StreamKmpMatchResult \<Rightarrow> bool" where
  "is_match r = (case r of Match _ _ \<Rightarrow> True | _ \<Rightarrow> False)"

definition match_groups :: "StreamKmpMatchResult \<Rightarrow> (int \<rightharpoonup> rchar list)" where
  "match_groups r = (case r of Match gs _ \<Rightarrow> gs | _ \<Rightarrow> Map.empty)"

definition is_full_match :: "StreamKmpMatchResult \<Rightarrow> bool" where
  "is_full_match r = (case r of Match _ full \<Rightarrow> full | _ \<Rightarrow> False)"

definition node :: "StreamKmpGraph \<Rightarrow> nat \<Rightarrow> KmpNode option" where
  "node g i = (if i < length (nodes g) then Some (nodes g ! i) else None)"

text \<open>The search along the failure links; the result is the next node and the match length, if any
  node on the way accepts the character.\<close>

partial_function (option) search_failure :: "StreamKmpGraph \<Rightarrow> rchar \<Rightarrow> nat option \<Rightarrow> (nat \<times> nat) option option" where
  "search_failure g c search = (case search of
     None \<Rightarrow> Some None
   | Some i \<Rightarrow> (case node g i of
       None \<Rightarrow> None
     | Some n \<Rightarrow> (case get_next_node n c of
         Some m \<Rightarrow> Some (Some (m, depth n + 1))
       | None \<Rightarrow> if i = start_node g then Some None else search_failure g c (failure_node n))))"

definition perform_match :: "StreamKmpGraph \<Rightarrow> bool \<Rightarrow> StreamKmpMatchResult" where
  "perform_match g full =
     (let groups = (case pattern g of
          None \<Rightarrow> Map.empty
        | Some p \<Rightarrow>
            let t = character_stream_buffer g; s = length t - current_match_length g
            in capture_groups (conditions p) (drop s t) Map.empty)
      in Match groups full)"

text \<open>The next node and match length, before the result is decided.\<close>

definition kmp_next :: "StreamKmpGraph \<Rightarrow> rchar \<Rightarrow> (nat option \<times> nat) option" where
  "kmp_next g c = (case node g (current_node g) of
     None \<Rightarrow> None
   | Some n \<Rightarrow> (case get_next_node n c of
       Some m \<Rightarrow> Some (Some m, current_match_length g + 1)
     | None \<Rightarrow> (case search_failure g c (failure_node n) of
         None \<Rightarrow> None
       | Some (Some (m, len)) \<Rightarrow> Some (Some m, len)
       | Some None \<Rightarrow> (case node g (start_node g) of
           None \<Rightarrow> None
         | Some s \<Rightarrow> let m = get_next_node s c in Some (m, if m = None then 0 else 1)))))"

definition kmp_process_char :: "StreamKmpGraph \<Rightarrow> rchar \<Rightarrow> (StreamKmpMatchResult \<times> StreamKmpGraph) option" where
  "kmp_process_char g c =
     (let g = g\<lparr>character_stream_buffer := character_stream_buffer g @ [c]\<rparr>; previous = current_node g
      in case kmp_next g c of
          None \<Rightarrow> None
        | Some (m, len) \<Rightarrow>
            (let g = g\<lparr>current_match_length := len, current_node := (case m of Some i \<Rightarrow> i | None \<Rightarrow> start_node g)\<rparr>
             in case node g (current_node g) of
                 None \<Rightarrow> None
               | Some n \<Rightarrow>
                   Some (if is_final n then perform_match g (previous \<noteq> current_node g)
                         else if current_node g = start_node g \<and> current_match_length g = 0 then NoMatch
                         else InProgress, g)))"

definition kmp_reset :: "StreamKmpGraph \<Rightarrow> StreamKmpGraph" where
  "kmp_reset g = g\<lparr>current_node := start_node g, character_stream_buffer := [], current_match_length := 0\<rparr>"

fun text_positions :: "StreamKmpGraph \<Rightarrow> nat \<Rightarrow> rchar list \<Rightarrow> (nat list \<times> StreamKmpGraph) option" where
  "text_positions g i [] = Some ([], g)"
| "text_positions g i (c # cs) = (case kmp_process_char g c of
     None \<Rightarrow> None
   | Some (r, g') \<Rightarrow> (case text_positions g' (i + 1) cs of
       None \<Rightarrow> None
     | Some (ps, g'') \<Rightarrow> Some ((if is_full_match r then [i + 1] else []) @ ps, g'')))"

definition process_text :: "StreamKmpGraph \<Rightarrow> rchar list \<Rightarrow> (nat list \<times> StreamKmpGraph) option" where
  "process_text g t = text_positions (kmp_reset g) 0 t"

text \<open>The loop of \<open>find_matches\<close> over the rest of \<open>t\<close>, from index \<open>i\<close> on.\<close>

fun matches_from :: "StreamKmpGraph \<Rightarrow> rchar list \<Rightarrow> nat \<Rightarrow> rchar list \<Rightarrow> (rchar list list \<times> StreamKmpGraph) option" where
  "matches_from g t i [] = Some ([], g)"
| "matches_from g t i (c # cs) = (case kmp_process_char g c of
     None \<Rightarrow> None
   | Some (r, g') \<Rightarrow>
       if is_full_match r \<and> i + 1 < current_match_length g' then None
       else (case matches_from g' t (i + 1) cs of
           None \<Rightarrow> None
         | Some (ms, g'') \<Rightarrow>
             let s = i + 1 - current_match_length g'
             in Some ((if is_full_match r then [take (i + 1 - s) (drop s t)] else []) @ ms, g'')))"

definition find_matches :: "StreamKmpGraph \<Rightarrow> rchar list \<Rightarrow> (rchar list list \<times> StreamKmpGraph) option" where
  "find_matches g t = matches_from (kmp_reset g) t 0 t"

section \<open>Every built graph runs\<close>

text \<open>The node list is closed under transitions and every failure link leads to the start.\<close>

definition closed_nodes :: "KmpNode list \<Rightarrow> bool" where
  "closed_nodes ns \<longleftrightarrow> (\<forall>n\<in>set ns. \<forall>(x, m)\<in>set (transitions n). m < length ns)"

definition graph_ok :: "StreamKmpGraph \<Rightarrow> bool" where
  "graph_ok g \<longleftrightarrow> closed_nodes (nodes g) \<and> (\<forall>n\<in>set (nodes g). failure_node n = Some (start_node g))
     \<and> start_node g < length (nodes g) \<and> current_node g < length (nodes g)"

lemma closed_nodes_update:
  assumes "closed_nodes ns" and "\<forall>(x, m)\<in>set (transitions n). m < length ns"
  shows "closed_nodes (ns[i := n])"
  using assms set_update_subset_insert [of ns i n] by (auto simp: closed_nodes_def)

lemma closed_nodes_create:
  assumes "closed_nodes ns" and "transitions n = []"
  shows "closed_nodes (ns @ [n])"
  using assms by (fastforce simp: closed_nodes_def)

lemma add_transition_closed:
  assumes "closed_nodes (nodes g)" and "i < length (nodes g)" and "m < length (nodes g)"
  shows "closed_nodes (nodes (add_transition i m x g))"
proof -
  have "nodes g ! i \<in> set (nodes g)" using assms(2) by simp
  with assms(1) have "\<forall>(x, m)\<in>set (transitions (nodes g ! i)). m < length (nodes g)"
    unfolding closed_nodes_def by blast
  with assms(3) show ?thesis by (auto simp: add_transition_def intro!: closed_nodes_update [OF assms(1)])
qed

lemma add_transition_simps [simp]:
  "length (nodes (add_transition i m x g)) = length (nodes g)" "start_node (add_transition i m x g) = start_node g"
  "current_node (add_transition i m x g) = current_node g" "pattern (add_transition i m x g) = pattern g"
  by (simp_all add: add_transition_def)

lemma extend_graph_closed:
  assumes "closed_nodes (nodes g)" and "n < length (nodes g)" and "extend_graph g n x d = (m, g')"
  shows "closed_nodes (nodes g')" "m < length (nodes g')" "length (nodes g) \<le> length (nodes g')"
    "start_node g' = start_node g" "current_node g' = current_node g"
proof -
  let ?g = "snd (create_node (d + 1) False g)"
  have g: "closed_nodes (nodes ?g)" "length (nodes ?g) = Suc (length (nodes g))"
    "start_node ?g = start_node g" "current_node ?g = current_node g"
    by (simp_all add: create_node_def closed_nodes_create [OF assms(1)])
  have "m = length (nodes g)" "g' = add_transition n m x ?g"
    using assms(3) by (auto simp: extend_graph_def create_node_def)
  with g assms(2) add_transition_closed [OF g(1), of n m x]
  show "closed_nodes (nodes g')" "m < length (nodes g')" "length (nodes g) \<le> length (nodes g')"
    "start_node g' = start_node g" "current_node g' = current_node g" by simp_all
qed

definition builds_closed :: "StreamKmpGraph \<Rightarrow> StreamKmpGraph \<times> nat \<times> nat \<Rightarrow> bool" where
  "builds_closed g r \<longleftrightarrow> closed_nodes (nodes (fst r)) \<and> fst (snd r) < length (nodes (fst r))
     \<and> length (nodes g) \<le> length (nodes (fst r)) \<and> start_node (fst r) = start_node g
     \<and> current_node (fst r) = current_node g"

lemma builds_closed_mono:
  "builds_closed h r \<Longrightarrow> length (nodes g) \<le> length (nodes h) \<Longrightarrow> start_node h = start_node g
    \<Longrightarrow> current_node h = current_node g \<Longrightarrow> builds_closed g r"
  by (auto simp: builds_closed_def)

lemma plain_closed:
  assumes IH: "\<And>m g'. (m, g') = extend_graph g n x d \<Longrightarrow> closed_nodes (nodes g') \<Longrightarrow> m < length (nodes g')
      \<Longrightarrow> builds_closed g' (build_recursive g' m rest (d + 1))"
    and "closed_nodes (nodes g)" and "n < length (nodes g)"
  shows "builds_closed g (let (m, g') = extend_graph g n x d in build_recursive g' m rest (d + 1))"
proof -
  obtain m g1 where e: "extend_graph g n x d = (m, g1)" by fastforce
  note c = extend_graph_closed [OF assms(2,3) e]
  show ?thesis using builds_closed_mono [OF IH [OF e [symmetric] c(1,2)] c(3-5)] by (simp add: e)
qed

lemma build_recursive_closed:
  assumes "closed_nodes (nodes g)" and "n < length (nodes g)"
  shows "builds_closed g (build_recursive g n xs d)"
  using assms
proof (induction g n xs d rule: build_recursive.induct)
  case (1 g n d)
  then show ?case by (simp add: builds_closed_def)
next
  case (2 g n i xs rest d)
  show ?case
  proof (cases "xs = []")
    case True
    with 2 show ?thesis by simp
  next
    case False
    obtain h m e where h: "build_recursive g n xs d = (h, m, e)" by (rule prod_cases3)
    with 2(2) [OF False] 2(4,5) have h': "builds_closed g (h, m, e)" by simp
    then have "builds_closed h (build_recursive h m rest e)"
      using 2(3) [OF False h [symmetric] refl] by (simp add: builds_closed_def)
    with h' have "builds_closed g (build_recursive h m rest e)"
      by (rule_tac builds_closed_mono [of h]) (simp_all add: builds_closed_def)
    with False h show ?thesis by simp
  qed
next
  case (3 g n x rest d)
  then have "builds_closed (add_transition n n (loop_condition x rest) g)
      (build_recursive (add_transition n n (loop_condition x rest) g) n rest d)"
    by (simp add: add_transition_closed)
  then show ?case by (simp add: builds_closed_def)
qed (simp only: build_recursive.simps; rule plain_closed; simp)+

lemma build_graph_ok: "graph_ok (build_graph p)"
proof -
  let ?g = "graph_new\<lparr>pattern := Some p\<rparr>"
  have g: "closed_nodes (nodes ?g)" "start_node ?g < length (nodes ?g)" "start_node ?g = 0" "current_node ?g = 0"
    by (simp_all add: graph_new_def create_node_def closed_nodes_def)
  obtain h f d where r: "build_recursive ?g (start_node ?g) (conditions p) 0 = (h, f, d)" by (rule prod_cases3)
  with build_recursive_closed [OF g(1,2), of "conditions p" 0] have h: "closed_nodes (nodes h)" "f < length (nodes h)"
    "length (nodes ?g) \<le> length (nodes h)" "start_node h = 0" "current_node h = 0" by (simp_all add: builds_closed_def g)
  let ?ns = "(nodes h)[f := (nodes h ! f)\<lparr>is_final := True\<rparr>]"
  have "\<forall>(x, m)\<in>set (transitions (nodes h ! f)). m < length (nodes h)"
    using h(1,2) nth_mem unfolding closed_nodes_def by blast
  then have "closed_nodes ?ns" by (intro closed_nodes_update h) simp
  then have "closed_nodes (map (\<lambda>n. n\<lparr>failure_node := Some 0\<rparr>) ?ns)" by (auto simp: closed_nodes_def)
  moreover have "0 < length (nodes h)" by (rule le_less_trans [OF le0 h(2)])
  ultimately show ?thesis
    using h r by (simp add: graph_ok_def build_graph_def Let_def setup_failure_transitions_def)
qed

lemma node_Some: "node g i = Some n \<longleftrightarrow> i < length (nodes g) \<and> n = nodes g ! i"
  by (auto simp: node_def)

lemma get_next_closed:
  assumes "closed_nodes ns" and "n \<in> set ns" and "get_next_node n c = Some m"
  shows "m < length ns"
proof -
  from assms(3) obtain x where "(x, m) \<in> set (transitions n)"
    by (auto simp: get_next_node_def find_Some_iff in_set_conv_nth) (metis snd_conv surj_pair)
  with assms(1,2) show ?thesis unfolding closed_nodes_def by blast
qed

text \<open>With every failure link at the start, the search looks at the start node only.\<close>

lemma search_at_start:
  assumes "start_node g < length (nodes g)"
  shows "search_failure g c (Some (start_node g)) = Some (map_option (\<lambda>m. (m, depth (nodes g ! start_node g) + 1))
    (get_next_node (nodes g ! start_node g) c))"
  using assms by (subst search_failure.simps) (simp add: node_def split: option.split)

definition next_of :: "StreamKmpGraph \<Rightarrow> rchar \<Rightarrow> nat option \<times> nat" where
  "next_of g c = (case get_next_node (nodes g ! current_node g) c of
     Some m \<Rightarrow> (Some m, current_match_length g + 1)
   | None \<Rightarrow> (case get_next_node (nodes g ! start_node g) c of
       Some m \<Rightarrow> (Some m, depth (nodes g ! start_node g) + 1)
     | None \<Rightarrow> (None, 0)))"

lemma kmp_next_ok:
  assumes "graph_ok g"
  shows "kmp_next g c = Some (next_of g c)"
proof -
  have n: "node g (current_node g) = Some (nodes g ! current_node g)" "node g (start_node g) = Some (nodes g ! start_node g)"
    "failure_node (nodes g ! current_node g) = Some (start_node g)"
    using assms by (simp_all add: graph_ok_def node_def)
  show ?thesis using assms search_at_start [of g c]
    by (simp add: kmp_next_def n next_of_def graph_ok_def split: option.split)
qed

lemma next_of_bound:
  assumes "graph_ok g" and "next_of g c = (Some m, len)"
  shows "m < length (nodes g)"
  using assms get_next_closed [of "nodes g" "nodes g ! current_node g" c] get_next_closed [of "nodes g" "nodes g ! start_node g" c]
  by (auto simp: next_of_def graph_ok_def split: option.splits)

lemma kmp_process_char_ok:
  assumes "graph_ok g"
  shows "\<exists>r g'. kmp_process_char g c = Some (r, g') \<and> graph_ok g'"
proof -
  let ?g = "g\<lparr>character_stream_buffer := character_stream_buffer g @ [c]\<rparr>"
  have ok: "graph_ok ?g" using assms by (simp add: graph_ok_def)
  obtain m len where n: "next_of ?g c = (m, len)" by fastforce
  let ?i = "case m of Some i \<Rightarrow> i | None \<Rightarrow> start_node g"
  have "?i < length (nodes g)" using next_of_bound [OF ok] n ok by (auto simp: graph_ok_def split: option.split)
  then show ?thesis
    using kmp_next_ok [OF ok, of c] n assms
    by (cases m) (simp_all add: kmp_process_char_def Let_def node_def graph_ok_def)
qed

lemma text_positions_ok: "graph_ok g \<Longrightarrow> text_positions g i cs \<noteq> None"
proof (induction cs arbitrary: g i)
  case (Cons c cs)
  then obtain r g' where "kmp_process_char g c = Some (r, g')" "graph_ok g'" using kmp_process_char_ok by blast
  with Cons.IH [of g' "Suc i"] show ?case by (auto split: option.split)
qed simp

text \<open>Every graph that the builder makes runs.  For each pattern, whatever groups and loops it
  has, reading any text ends without leaving the node list: the search along failure links always
  returns and every transition leads to a node.\<close>

theorem built_graph_returns: "\<exists>ps g. process_text (build_graph p) t = Some (ps, g)"
proof -
  have "graph_ok (kmp_reset (build_graph p))"
    using build_graph_ok [of p] by (simp add: graph_ok_def kmp_reset_def)
  then show ?thesis using text_positions_ok by (fastforce simp: process_text_def)
qed

lemma count_consumed_bound: "count_consumed xs t \<le> length t"
proof (induction xs t rule: count_consumed.induct)
  case (2 x rest t)
  have "length (takeWhile (kmp_matches x) t) \<le> length t" by (rule length_takeWhile_le)
  with 2 show ?case by (simp add: Let_def le_diff_conv2)
next
  case (3 i xs rest t)
  then show ?case by (simp add: Let_def le_diff_conv2)
qed (auto simp: Suc_le_eq le_diff_conv2 neq_Nil_conv)

lemma sublist_drop: "sublist s (drop k t) \<Longrightarrow> sublist s t"
  by (metis append_take_drop_id sublist_append_leftI sublist_order.order_trans)

lemma capture_groups_sublist:
  "capture_groups xs t gs i = Some s \<Longrightarrow> gs i = Some s \<or> sublist s t"
proof (induction xs t gs rule: capture_groups.induct)
  case (2 j xs rest t gs)
  have "sublist (take (count_consumed xs t) t) t" by simp
  moreover have "(gs(j \<mapsto> take (count_consumed xs t) t)) i = Some s \<or> sublist s (drop (count_consumed xs t) t)"
    using 2 by (simp add: Let_def del: fun_upd_apply)
  ultimately show ?case by (auto split: if_splits dest: sublist_drop)
next
  case (3 x rest t gs)
  then show ?case by (auto simp: Let_def dest: sublist_drop)
qed (auto dest: sublist_drop)

text \<open>captured groups stay inside the matched text: no list of conditions consumes more than
  there is, so no slice is out of range, and every captured group is a contiguous part of it.\<close>

theorem captures_in_bounds:
  "count_consumed xs t \<le> length t \<and> (\<forall>i s. capture_groups xs t Map.empty i = Some s \<longrightarrow> sublist s t)"
  using count_consumed_bound capture_groups_sublist [of xs t Map.empty] by fastforce

theorem captures_in_bounds_witness:
  "capture_groups [CharIs 1, Group 7 [CharIs 2, GreedyStar (CharIs 3)]] [1, 2, 3, 3] Map.empty 7 = Some [2, 3, 3]
   \<and> sublist [2, 3, 3 :: nat] [1, 2, 3, 3]"
proof -
  have "capture_groups [CharIs 1, Group 7 [CharIs 2, GreedyStar (CharIs 3)]] [1, 2, 3, 3] Map.empty 7 = Some [2, 3, 3]"
    by simp
  with captures_in_bounds [of "[CharIs 1, Group 7 [CharIs 2, GreedyStar (CharIs 3)]]" "[1, 2, 3, 3]"] show ?thesis by blast
qed

section \<open>Literal patterns\<close>

definition literal_graph :: "rchar list \<Rightarrow> StreamKmpGraph" where
  "literal_graph w = build_graph (kmp_pattern (literal w))"

lemma literal_conditions: "conditions (literal w p) = conditions p @ map CharIs w"
  by (induction w arbitrary: p) (simp_all add: literal_def pattern_char_def pattern_add_def)

text \<open>The chain of nodes of a literal, before the failure links.\<close>

fun chain :: "nat \<Rightarrow> nat \<Rightarrow> rchar list \<Rightarrow> KmpNode list" where
  "chain i d [] = [\<lparr>node_id = i, depth = d, is_final = False, transitions = [], failure_node = None\<rparr>]"
| "chain i d (c # cs) = \<lparr>node_id = i, depth = d, is_final = False, transitions = [(CharIs c, i + 1)], failure_node = None\<rparr>
     # chain (i + 1) (d + 1) cs"

lemma chain_length [simp]: "length (chain i d w) = Suc (length w)"
  by (induction w arbitrary: i d) simp_all

lemma chain_nth: "k \<le> length w \<Longrightarrow> chain i d w ! k = \<lparr>node_id = i + k, depth = d + k, is_final = False,
    transitions = (if k < length w then [(CharIs (w ! k), i + k + 1)] else []), failure_node = None\<rparr>"
  by (induction w arbitrary: i d k) (auto simp: nth_Cons split: nat.split)

lemma build_chain:
  assumes "nodes g = ns @ chain i d []" and "i = length ns"
  shows "build_recursive g i (map CharIs w) d = (g\<lparr>nodes := ns @ chain i d w\<rparr>, i + length w, d + length w)"
  using assms
proof (induction w arbitrary: g ns i d)
  case Nil
  then have "g\<lparr>nodes := ns @ chain i d []\<rparr> = g" by (cases g) simp
  then show ?case by simp
next
  case (Cons c w)
  let ?n = "\<lparr>node_id = i, depth = d, is_final = False, transitions = [(CharIs c, i + 1)], failure_node = None\<rparr>"
  have step: "extend_graph g i (CharIs c) d = (i + 1, g\<lparr>nodes := (ns @ [?n]) @ chain (i + 1) (d + 1) []\<rparr>)"
    using Cons.prems by (simp add: extend_graph_def create_node_def add_transition_def nth_append list_update_append)
  show ?case
    using Cons.IH [of "g\<lparr>nodes := (ns @ [?n]) @ chain (i + 1) (d + 1) []\<rparr>" "ns @ [?n]" "i + 1" "d + 1"] Cons.prems(2)
    by (simp add: step [unfolded Cons.prems(2)])
qed

lemma literal_graph_shape:
  "nodes (literal_graph w) = map (\<lambda>n. n\<lparr>failure_node := Some 0\<rparr>)
      ((chain 0 0 w)[length w := (chain 0 0 w ! length w)\<lparr>is_final := True\<rparr>])
   \<and> start_node (literal_graph w) = 0 \<and> current_node (literal_graph w) = 0"
proof -
  have "build_recursive (graph_new\<lparr>pattern := Some p\<rparr>) 0 (map CharIs w) 0
      = (graph_new\<lparr>pattern := Some p, nodes := chain 0 0 w\<rparr>, length w, length w)" for p
    using build_chain [of "graph_new\<lparr>pattern := Some p\<rparr>" "[]" 0 0 w]
    by (simp add: graph_new_def create_node_def)
  moreover have "start_node (graph_new\<lparr>pattern := p\<rparr>) = 0" "current_node (graph_new\<lparr>pattern := p\<rparr>) = 0" for p
    by (simp_all add: graph_new_def create_node_def)
  ultimately show ?thesis
    by (simp add: literal_graph_def build_graph_def kmp_pattern_def literal_conditions pattern_new_def
        setup_failure_transitions_def Let_def graph_new_def create_node_def)
qed

lemma literal_nodes:
  "length (nodes (literal_graph w)) = Suc (length w)"
  "k \<le> length w \<Longrightarrow> nodes (literal_graph w) ! k = \<lparr>node_id = k, depth = k, is_final = (k = length w),
     transitions = (if k < length w then [(CharIs (w ! k), k + 1)] else []), failure_node = Some 0\<rparr>"
  using literal_graph_shape [of w] by (auto simp: chain_nth nth_list_update)

text \<open>The graph of a literal after a text \<open>t\<close>, with candidate \<open>k\<close>.\<close>

definition literal_after :: "rchar list \<Rightarrow> rchar list \<Rightarrow> rchar list \<Rightarrow> StreamKmpGraph" where
  "literal_after w t k = (literal_graph w)\<lparr>current_node := length k, character_stream_buffer := t,
     current_match_length := length k\<rparr>"

lemma literal_ok: "prefix k w \<Longrightarrow> graph_ok (literal_after w t k)"
  using build_graph_ok [of "kmp_pattern (literal w)"]
  by (simp add: graph_ok_def literal_after_def literal_graph_def [symmetric] literal_nodes prefix_length_le less_Suc_eq_le)

lemma literal_next:
  assumes "prefix k w" and "w \<noteq> []"
  shows "next_of (literal_after w t k) c = (if advance w k c = [] then (None, 0)
    else (Some (length (advance w k c)), length (advance w k c)))"
proof -
  obtain zs where w: "w = k @ zs" using assms(1) by (auto simp: prefix_def)
  have here: "get_next_node (nodes (literal_graph w) ! length k) c = (if prefix (k @ [c]) w then Some (length k + 1) else None)"
    by (cases zs) (simp_all add: w literal_nodes get_next_node_def)
  have first: "get_next_node (nodes (literal_graph w) ! 0) c = (if prefix [c] w then Some 1 else None)"
    using assms(2) by (cases w) (simp_all add: literal_nodes get_next_node_def)
  have start: "start_node (literal_after w t k) = 0" "current_node (literal_after w t k) = length k"
    "current_match_length (literal_after w t k) = length k" "nodes (literal_after w t k) = nodes (literal_graph w)"
    "depth (nodes (literal_graph w) ! 0) = 0"
    using literal_graph_shape [of w] literal_nodes(2) [of 0 w] by (simp_all add: literal_after_def)
  show ?thesis by (simp add: next_of_def start here first advance_def)
qed

lemma literal_step:
  assumes "prefix k w" and "w \<noteq> []"
  shows "\<exists>r. kmp_process_char (literal_after w t k) c = Some (r, literal_after w (t @ [c]) (advance w k c))
    \<and> (is_full_match r \<longleftrightarrow> advance w k c = w \<and> length k \<noteq> length w)"
proof -
  let ?k = "advance w k c"
  have pre: "prefix ?k w" by (simp add: advance_def)
  have buf: "(literal_after w t k)\<lparr>character_stream_buffer := character_stream_buffer (literal_after w t k) @ [c]\<rparr>
      = literal_after w (t @ [c]) k" by (simp add: literal_after_def)
  have n: "kmp_next (literal_after w (t @ [c]) k) c
      = Some (if ?k = [] then (None, 0) else (Some (length ?k), length ?k))"
    using kmp_next_ok [OF literal_ok [OF assms(1)]] literal_next [OF assms] by simp
  have start: "start_node (literal_after w (t @ [c]) k) = 0" using literal_graph_shape [of w] by (simp add: literal_after_def)
  have upd: "(literal_after w (t @ [c]) k)\<lparr>current_match_length := length ?k, current_node := length ?k\<rparr>
      = literal_after w (t @ [c]) ?k" by (simp add: literal_after_def)
  have len: "length ?k \<le> length w" using pre by (rule prefix_length_le)
  have cur: "current_node (literal_after w s j) = length j" "current_match_length (literal_after w s j) = length j"
    "nodes (literal_after w s j) = nodes (literal_graph w)" for s j
    by (simp_all add: literal_after_def)
  have "node (literal_after w (t @ [c]) ?k) (length ?k) = Some (nodes (literal_graph w) ! length ?k)"
    using len by (simp add: node_def cur literal_nodes)
  moreover have "length ?k = length w \<longleftrightarrow> ?k = w" using pre by (metis append_Nil2 append_eq_append_conv prefixE)
  moreover obtain m where m: "kmp_next (literal_after w (t @ [c]) k) c = Some (m, length ?k)"
      "(case m of None \<Rightarrow> start_node (literal_after w (t @ [c]) k) | Some i \<Rightarrow> i) = length ?k"
    using n start by (cases "?k = []") auto
  ultimately show ?thesis
    using len by (simp add: kmp_process_char_def Let_def buf m start upd cur literal_nodes is_full_match_def perform_match_def)
qed

text \<open>The positions at which the graph of a literal reports a full match.\<close>

fun candidate_positions :: "rchar list \<Rightarrow> rchar list \<Rightarrow> nat \<Rightarrow> rchar list \<Rightarrow> nat list" where
  "candidate_positions w k i [] = []"
| "candidate_positions w k i (c # cs) =
     (if advance w k c = w \<and> length k \<noteq> length w then [i + 1] else []) @ candidate_positions w (advance w k c) (i + 1) cs"

lemma literal_positions:
  assumes "prefix k w" and "w \<noteq> []"
  shows "\<exists>g. text_positions (literal_after w t k) i cs = Some (candidate_positions w k i cs, g)"
  using assms(1)
proof (induction cs arbitrary: t k i)
  case (Cons c cs)
  obtain r where r: "kmp_process_char (literal_after w t k) c = Some (r, literal_after w (t @ [c]) (advance w k c))"
    "is_full_match r \<longleftrightarrow> advance w k c = w \<and> length k \<noteq> length w" using literal_step [OF Cons.prems assms(2)] by blast
  have "prefix (advance w k c) w" by (simp add: advance_def)
  from Cons.IH [OF this, of "t @ [c]" "i + 1"] r show ?case by auto
qed simp

lemma process_literal: "w \<noteq> [] \<Longrightarrow> \<exists>g. process_text (literal_graph w) t = Some (candidate_positions w [] 0 t, g)"
proof -
  assume w: "w \<noteq> []"
  have "kmp_reset (literal_graph w) = literal_after w [] []"
    using literal_graph_shape [of w] by (simp add: kmp_reset_def literal_after_def)
  with literal_positions [of "[]" w "[]" 0 t] w show ?thesis by (simp add: process_text_def)
qed

lemma candidate_sound:
  assumes "suffix k t" and "w \<noteq> []"
  shows "j \<in> set (candidate_positions w k (length t) cs) \<Longrightarrow> suffix w (take j (t @ cs))"
  using assms(1)
proof (induction cs arbitrary: t k)
  case (Cons c cs)
  have s: "suffix (advance w k c) (t @ [c])" using advance_sound [OF Cons.prems(2)] by blast
  from Cons.prems(1) consider "j = length t + 1" "advance w k c = w"
    | "j \<in> set (candidate_positions w (advance w k c) (length (t @ [c])) cs)" by (auto split: if_splits)
  then show ?case
  proof cases
    case 1
    with s show ?thesis by simp
  next
    case 2
    from Cons.IH [OF this s] show ?thesis by simp
  qed
qed simp

lemma candidate_exact:
  assumes "distinct_head w" and "2 \<le> length w" and "partial_match w t k"
  shows "candidate_positions w k (length t) cs = filter (\<lambda>j. suffix w (take j (t @ cs))) [Suc (length t)..<Suc (length t + length cs)]"
  using assms(3)
proof (induction cs arbitrary: t k)
  case (Cons c cs)
  have w: "w \<noteq> []" using assms(2) by auto
  note step = partial_match_step [OF assms(1) Cons.prems, of c]
  have now: "(advance w k c = w \<and> length k \<noteq> length w) \<longleftrightarrow> suffix w (t @ [c])"
  proof
    assume "suffix w (t @ [c])"
    then have adv: "advance w k c = w" using partial_match_occurs [OF step w] by simp
    then have "length w = length k + 1 \<or> length w = 1" using w by (auto simp: advance_def split: if_splits)
    with adv assms(2) show "advance w k c = w \<and> length k \<noteq> length w" by auto
  qed (use partial_match_occurs [OF step w] in simp)
  have "[Suc (length t)..<Suc (length t + length (c # cs))] = Suc (length t) # [Suc (length (t @ [c]))..<Suc (length (t @ [c]) + length cs)]"
    by (subst upt_conv_Cons) simp_all
  with Cons.IH [OF step] now show ?case by simp
qed simp

text \<open>Matching a literal is sound.  Every position the graph reports for a non-empty literal is
  the end of an occurrence of it in the text.\<close>

theorem literal_match_sound:
  assumes "w \<noteq> []"
  shows "\<exists>ps g. process_text (literal_graph w) t = Some (ps, g) \<and> (\<forall>j\<in>set ps. suffix w (take j t))"
  using process_literal [OF assms, of t] candidate_sound [of "[]" "[]" w _ t] assms by fastforce

theorem literal_match_sound_witness:
  "\<exists>ps g. process_text (literal_graph (chars ''ab'')) (chars ''xab'') = Some (ps, g) \<and> (\<forall>j\<in>set ps. suffix (chars ''ab'') (take j (chars ''xab'')))"
  by (rule literal_match_sound) (simp add: chars_def)

text \<open>C22: for a literal of at least two characters whose first character does not occur again, the
  graph reports exactly the ends of all its occurrences, although every failure link leads to the
  start.\<close>

theorem literal_match_exact:
  assumes "distinct_head w" and "2 \<le> length w"
  shows "\<exists>g. process_text (literal_graph w) t = Some (filter (\<lambda>j. suffix w (take j t)) [1..<Suc (length t)], g)"
proof -
  have "w \<noteq> []" using assms(2) by auto
  from process_literal [OF this, of t] candidate_exact [OF assms, of "[]" "[]" t] show ?thesis by simp
qed

theorem literal_match_exact_witness:
  "\<exists>g. process_text (literal_graph (chars ''ab'')) (chars ''xabab'')
    = Some (filter (\<lambda>j. suffix (chars ''ab'') (take j (chars ''xabab''))) [1..<Suc (length (chars ''xabab''))], g)"
  by (rule literal_match_exact) (simp_all add: distinct_head_def chars_def)

text \<open>With a repeated first character the failure links lose matches.  The graph of the literal
  aab reports nothing in aaab, where the literal occurs at the end; and the graph of a single
  character reports only the first of two adjacent occurrences.\<close>

theorem literal_match_incomplete:
  "(\<exists>g. process_text (literal_graph (chars ''aab'')) (chars ''aaab'') = Some ([], g)) \<and> suffix (chars ''aab'') (chars ''aaab'')
   \<and> (\<exists>g. process_text (literal_graph (chars ''a'')) (chars ''aa'') = Some ([1], g))"
proof (intro conjI)
  show "\<exists>g. process_text (literal_graph (chars ''aab'')) (chars ''aaab'') = Some ([], g)"
    using process_literal [of "chars ''aab''" "chars ''aaab''"] by (simp add: chars_def advance_def)
  show "\<exists>g. process_text (literal_graph (chars ''a'')) (chars ''aa'') = Some ([1], g)"
    using process_literal [of "chars ''a''" "chars ''aa''"] by (simp add: chars_def advance_def)
qed (simp add: chars_def suffix_def)

end
