(* ===== verification/Text_Revision.thy ===== *)
theory Text_Revision
  imports Ordered_Map "HOL-Library.Sublist"
begin

text \<open>
  Revisable response text: the tracker of content and savepoints (\<open>TextStreamRevisionTracker.rs\<close>)
  and the shared stream that keeps one, emits chunks and revisions in one order, and replays its
  state to subscribers that arrive late (\<open>RevisableTextStream.rs\<close>).

  A string is the list of its UTF-8 bytes.  Positions are byte positions, and cutting a string
  anywhere but between two characters is a panic.
\<close>

section \<open>Strings and their boundaries\<close>

definition continuation_byte :: "char \<Rightarrow> bool" where
  "continuation_byte c \<longleftrightarrow> 128 \<le> (of_char c :: nat) \<and> (of_char c :: nat) < 192"

definition is_char_boundary :: "string \<Rightarrow> nat \<Rightarrow> bool" where
  "is_char_boundary s n \<longleftrightarrow> n = 0 \<or> n = length s \<or> n < length s \<and> \<not> continuation_byte (s ! n)"

text \<open>The first byte of a string starts a character.\<close>

definition starts_character :: "string \<Rightarrow> bool" where
  "starts_character s \<longleftrightarrow> s = [] \<or> \<not> continuation_byte (hd s)"

definition truncate_str :: "nat \<Rightarrow> string \<Rightarrow> string res" where
  "truncate_str n s = (if length s < n then Inr s else if is_char_boundary s n then Inr (take n s)
     else Inl (Panic ''truncate''))"

definition slice_str :: "string \<Rightarrow> nat \<Rightarrow> nat \<Rightarrow> string res" where
  "slice_str s a b = (if a \<le> b \<and> is_char_boundary s a \<and> is_char_boundary s b then Inr (take (b - a) (drop a s))
     else Inl (Panic ''slice''))"

section \<open>The tracker\<close>

record TextStreamRevisionState =
  ts_content :: string
  ts_savepoints :: "(string, nat) bmap"

record TextStreamRevisionTracker =
  content_buffer :: string
  savepoints :: "(string, nat) bmap"

definition tracker_new :: "string \<Rightarrow> TextStreamRevisionTracker" where
  "tracker_new c = \<lparr>content_buffer = c, savepoints = []\<rparr>"

definition tracker_from_state :: "TextStreamRevisionState \<Rightarrow> TextStreamRevisionTracker" where
  "tracker_from_state s = \<lparr>content_buffer = ts_content s, savepoints = ts_savepoints s\<rparr>"

definition tracker_state :: "TextStreamRevisionTracker \<Rightarrow> TextStreamRevisionState" where
  "tracker_state t = \<lparr>ts_content = content_buffer t, ts_savepoints = savepoints t\<rparr>"

definition tracker_append :: "string \<Rightarrow> TextStreamRevisionTracker \<Rightarrow> TextStreamRevisionTracker" where
  "tracker_append chunk t = t\<lparr>content_buffer := content_buffer t @ chunk\<rparr>"

definition tracker_savepoint :: "string \<Rightarrow> TextStreamRevisionTracker \<Rightarrow> TextStreamRevisionTracker" where
  "tracker_savepoint i t = t\<lparr>savepoints := bm_insert i (length (content_buffer t)) (savepoints t)\<rparr>"

definition tracker_rollback :: "string \<Rightarrow> TextStreamRevisionTracker \<Rightarrow> (string option \<times> TextStreamRevisionTracker) res" where
  "tracker_rollback i t = (case map_of (savepoints t) i of
     None \<Rightarrow> Inr (None, t)
   | Some pos \<Rightarrow> rbind (truncate_str pos (content_buffer t)) (\<lambda>c.
       Inr (Some c, t\<lparr>content_buffer := c, savepoints := bm_retain (\<lambda>_ saved. saved \<le> pos) (savepoints t)\<rparr>)))"

definition tracker_replace :: "string \<Rightarrow> TextStreamRevisionTracker \<Rightarrow> TextStreamRevisionTracker" where
  "tracker_replace c t = t\<lparr>content_buffer := c, savepoints := []\<rparr>"

text \<open>Every savepoint is a boundary of the content.\<close>

definition tracker_ok :: "TextStreamRevisionTracker \<Rightarrow> bool" where
  "tracker_ok t \<longleftrightarrow> bm_wf (savepoints t) \<and> starts_character (content_buffer t)
     \<and> (\<forall>(i, p)\<in>set (savepoints t). p \<le> length (content_buffer t) \<and> starts_character (drop p (content_buffer t)))"

section \<open>The tracker implements snapshots\<close>

datatype tracker_op = Append string | Savepoint string | Rollback string | Replace string

definition tracker_step :: "tracker_op \<Rightarrow> TextStreamRevisionTracker \<Rightarrow> (string option \<times> TextStreamRevisionTracker) res" where
  "tracker_step x t = (case x of
     Append c \<Rightarrow> Inr (None, tracker_append c t)
   | Savepoint i \<Rightarrow> Inr (None, tracker_savepoint i t)
   | Rollback i \<Rightarrow> tracker_rollback i t
   | Replace c \<Rightarrow> Inr (None, tracker_replace c t))"

text \<open>The specification keeps the text itself for each savepoint, and no positions.\<close>

record snapshots =
  sn_text :: string
  sn_saved :: "string \<rightharpoonup> string"

definition snapshot_step :: "tracker_op \<Rightarrow> snapshots \<Rightarrow> string option \<times> snapshots" where
  "snapshot_step x s = (case x of
     Append c \<Rightarrow> (None, s\<lparr>sn_text := sn_text s @ c\<rparr>)
   | Savepoint i \<Rightarrow> (None, s\<lparr>sn_saved := (sn_saved s)(i \<mapsto> sn_text s)\<rparr>)
   | Rollback i \<Rightarrow> (case sn_saved s i of
       None \<Rightarrow> (None, s)
     | Some c \<Rightarrow> (Some c, s\<lparr>sn_text := c,
         sn_saved := (\<lambda>j. case sn_saved s j of Some d \<Rightarrow> if prefix d c then Some d else None | None \<Rightarrow> None)\<rparr>))
   | Replace c \<Rightarrow> (None, \<lparr>sn_text = c, sn_saved = Map.empty\<rparr>))"

fun run_tracker :: "tracker_op list \<Rightarrow> TextStreamRevisionTracker \<Rightarrow> (string option list \<times> TextStreamRevisionTracker) res" where
  "run_tracker [] t = Inr ([], t)"
| "run_tracker (x # xs) t = rbind (tracker_step x t) (\<lambda>(r, t'). rbind (run_tracker xs t') (\<lambda>(rs, u). Inr (r # rs, u)))"

fun run_snapshots :: "tracker_op list \<Rightarrow> snapshots \<Rightarrow> string option list \<times> snapshots" where
  "run_snapshots [] s = ([], s)"
| "run_snapshots (x # xs) s = (let (r, s') = snapshot_step x s; (rs, u) = run_snapshots xs s' in (r # rs, u))"

fun valid_op :: "tracker_op \<Rightarrow> bool" where
  "valid_op (Append c) = starts_character c"
| "valid_op (Replace c) = starts_character c"
| "valid_op _ = True"

text \<open>A snapshot is the content up to the saved position.\<close>

definition abs_tracker :: "TextStreamRevisionTracker \<Rightarrow> snapshots" where
  "abs_tracker t = \<lparr>sn_text = content_buffer t,
     sn_saved = (\<lambda>i. map_option (\<lambda>p. take p (content_buffer t)) (map_of (savepoints t) i))\<rparr>"

lemma starts_character_append [simp]:
  "starts_character (a @ b) \<longleftrightarrow> (if a = [] then starts_character b else starts_character a)"
  by (cases a) (simp_all add: starts_character_def)

lemma starts_character_Nil [simp]: "starts_character []"
  by (simp add: starts_character_def)

lemma starts_character_take: "starts_character s \<Longrightarrow> starts_character (take n s)"
  by (cases n) (auto simp: starts_character_def)

lemma boundary_drop:
  assumes "p \<le> length s" and "starts_character (drop p s)"
  shows "is_char_boundary s p"
  using assms by (cases "p = length s") (auto simp: is_char_boundary_def starts_character_def hd_drop_conv_nth)

lemma truncate_ok: "p \<le> length s \<Longrightarrow> starts_character (drop p s) \<Longrightarrow> truncate_str p s = Inr (take p s)"
  by (simp add: truncate_str_def boundary_drop)

lemma tracker_okD:
  assumes "tracker_ok t" and "map_of (savepoints t) i = Some p"
  shows "p \<le> length (content_buffer t)" "starts_character (drop p (content_buffer t))"
  using assms by (auto simp: tracker_ok_def dest!: map_of_SomeD)

lemma prefix_take_iff: "p \<le> length s \<Longrightarrow> q \<le> length s \<Longrightarrow> prefix (take p s) (take q s) \<longleftrightarrow> p \<le> q"
  by (metis length_take min.absorb2 prefix_length_le take_is_prefix prefix_order.order_trans prefix_length_prefix nat_le_linear)

lemma tracker_rollback_ok:
  assumes "tracker_ok t" and "map_of (savepoints t) i = Some p"
  shows "tracker_rollback i t = Inr (Some (take p (content_buffer t)), t\<lparr>content_buffer := take p (content_buffer t),
      savepoints := bm_retain (\<lambda>_ saved. saved \<le> p) (savepoints t)\<rparr>)"
  using truncate_ok [OF tracker_okD [OF assms]] assms(2) by (simp add: tracker_rollback_def)

lemma tracker_step_refines:
  assumes "tracker_ok t" and "valid_op x"
  shows "\<exists>r t'. tracker_step x t = Inr (r, t') \<and> tracker_ok t' \<and> snapshot_step x (abs_tracker t) = (r, abs_tracker t')"
proof (cases x)
  case (Append c)
  have saved: "take p (content_buffer t @ c) = take p (content_buffer t)" if "map_of (savepoints t) i = Some p" for i p
    using tracker_okD [OF assms(1) that] by simp
  have "tracker_ok (tracker_append c t)"
    using assms Append by (auto simp: tracker_ok_def tracker_append_def)
  moreover have "abs_tracker (tracker_append c t) = (abs_tracker t)\<lparr>sn_text := sn_text (abs_tracker t) @ c\<rparr>"
    using saved by (auto simp: abs_tracker_def tracker_append_def fun_eq_iff intro!: option.map_cong)
  ultimately show ?thesis by (simp add: Append tracker_step_def snapshot_step_def)
next
  case (Savepoint i)
  have "tracker_ok (tracker_savepoint i t)"
    using assms(1) by (auto simp: tracker_ok_def tracker_savepoint_def dest!: subsetD [OF set_bm_insert_subset])
  moreover have "abs_tracker (tracker_savepoint i t) = (abs_tracker t)\<lparr>sn_saved := (sn_saved (abs_tracker t))(i \<mapsto> sn_text (abs_tracker t))\<rparr>"
    using assms(1) by (auto simp: abs_tracker_def tracker_savepoint_def tracker_ok_def fun_eq_iff)
  ultimately show ?thesis by (simp add: Savepoint tracker_step_def snapshot_step_def)
next
  case (Rollback i)
  show ?thesis
  proof (cases "map_of (savepoints t) i")
    case None
    then show ?thesis using assms(1) by (simp add: Rollback tracker_step_def tracker_rollback_def snapshot_step_def abs_tracker_def)
  next
    case (Some p)
    note p = tracker_okD [OF assms(1) Some]
    let ?t = "t\<lparr>content_buffer := take p (content_buffer t), savepoints := bm_retain (\<lambda>_ saved. saved \<le> p) (savepoints t)\<rparr>"
    have wf: "bm_wf (savepoints t)" using assms(1) by (simp add: tracker_ok_def)
    have "starts_character (drop q (take p (content_buffer t)))" if "(j, q) \<in> set (savepoints t)" for j q
      using assms(1) that by (auto simp: tracker_ok_def drop_take intro: starts_character_take)
    then have "tracker_ok ?t"
      using assms(1) p by (auto simp: tracker_ok_def bm_retain_def bm_wf_filter intro: starts_character_take)
    moreover have "sn_saved (snd (snapshot_step x (abs_tracker t))) j = sn_saved (abs_tracker ?t) j" for j
    proof (cases "map_of (savepoints t) j")
      case (Some q)
      from tracker_okD(1) [OF assms(1) this] p(1) \<open>map_of (savepoints t) i = Some p\<close> wf Some show ?thesis
        by (simp add: Rollback snapshot_step_def abs_tracker_def map_of_bm_retain prefix_take_iff)
    qed (use \<open>map_of (savepoints t) i = Some p\<close> wf in \<open>simp add: Rollback snapshot_step_def abs_tracker_def map_of_bm_retain\<close>)
    then have "snapshot_step x (abs_tracker t) = (Some (take p (content_buffer t)), abs_tracker ?t)"
      using Some by (simp add: Rollback snapshot_step_def abs_tracker_def fun_eq_iff)
    ultimately show ?thesis using tracker_rollback_ok [OF assms(1) Some] by (simp add: Rollback tracker_step_def)
  qed
next
  case (Replace c)
  then show ?thesis using assms(2)
    by (simp add: tracker_step_def tracker_replace_def tracker_ok_def snapshot_step_def abs_tracker_def)
qed

lemma run_tracker_refines:
  assumes "tracker_ok t" and "\<forall>x\<in>set xs. valid_op x"
  shows "\<exists>rs t'. run_tracker xs t = Inr (rs, t') \<and> tracker_ok t' \<and> run_snapshots xs (abs_tracker t) = (rs, abs_tracker t')"
  using assms
proof (induction xs arbitrary: t)
  case (Cons x xs)
  obtain r t' where s: "tracker_step x t = Inr (r, t')" "tracker_ok t'" "snapshot_step x (abs_tracker t) = (r, abs_tracker t')"
    using tracker_step_refines [OF Cons.prems(1)] Cons.prems(2) by (metis list.set_intros(1))
  with Cons show ?case by fastforce
qed simp

text \<open>C20: the tracker implements snapshots.  For every sequence of appends, savepoints, rollbacks and
  replacements of well-formed text, it never cuts a character, every rollback returns exactly the
  text that was current at its savepoint, and a savepoint survives a rollback exactly when the text
  saved there is a prefix of the text restored.\<close>

theorem tracker_implements_snapshots:
  assumes "starts_character c" and "\<forall>x\<in>set xs. valid_op x"
  shows "\<exists>rs t. run_tracker xs (tracker_new c) = Inr (rs, t)
    \<and> run_snapshots xs \<lparr>sn_text = c, sn_saved = Map.empty\<rparr> = (rs, abs_tracker t)"
proof -
  have "tracker_ok (tracker_new c)" using assms(1) by (simp add: tracker_ok_def tracker_new_def)
  moreover have "abs_tracker (tracker_new c) = \<lparr>sn_text = c, sn_saved = Map.empty\<rparr>"
    by (simp add: abs_tracker_def tracker_new_def)
  ultimately show ?thesis using run_tracker_refines [of "tracker_new c" xs] assms(2) by fastforce
qed

theorem tracker_implements_snapshots_witness:
  "\<exists>rs t. run_tracker [Savepoint ''a'', Append ''y'', Savepoint ''b'', Rollback ''a'', Rollback ''b''] (tracker_new ''x'') = Inr (rs, t)
    \<and> rs = [None, None, None, Some ''x'', None]"
  using tracker_implements_snapshots [of "''x''" "[Savepoint ''a'', Append ''y'', Savepoint ''b'', Rollback ''a'', Rollback ''b'']"]
  by (auto simp: starts_character_def continuation_byte_def snapshot_step_def)

end
