(* ===== verification/Shared_Text.thy ===== *)
theory Shared_Text
  imports Text_Revision
begin

text \<open>
  The shared response stream (\<open>DelegatingRevisableSharedTextStream\<close> of \<open>RevisableTextStream.rs\<close>):
  a producer emits chunks and revisions; the stream tracks the rendered text; a subscriber that
  attaches late first receives a replay of that text cut at the active savepoints, then the live
  items.  Emission and attachment hold one lock, so each is one step here; what the channels carry
  is the list of the items they were given.
\<close>

section \<open>Items\<close>

datatype TextStreamEventType = SavepointEvent | RollbackEvent

record TextStreamEvent =
  event_type :: TextStreamEventType
  event_id :: string

datatype ResponseStreamItem = Chunk string | RevisionItem TextStreamEvent

record shared_text =
  ordered_items :: bool
  initial_content :: string
  rendered_segment :: TextStreamRevisionTracker
  item_channel :: "ResponseStreamItem list"
  chunk_channel :: "string list"
  event_channel :: "TextStreamEvent list"

text \<open>\<open>new\<close> and \<open>new_ordered\<close> differ in the item strategy.\<close>

definition with_item_stream :: "bool \<Rightarrow> shared_text" where
  "with_item_stream ord = \<lparr>ordered_items = ord, initial_content = [], rendered_segment = tracker_new [],
     item_channel = [], chunk_channel = [], event_channel = []\<rparr>"

definition set_initial_content :: "string \<Rightarrow> shared_text \<Rightarrow> shared_text" where
  "set_initial_content c s = s\<lparr>initial_content := c\<rparr>"

definition emit_chunk :: "string \<Rightarrow> shared_text \<Rightarrow> shared_text" where
  "emit_chunk c s = s\<lparr>rendered_segment := tracker_append c (rendered_segment s),
     item_channel := (if ordered_items s then item_channel s @ [Chunk c] else item_channel s),
     chunk_channel := chunk_channel s @ [c]\<rparr>"

definition revise :: "TextStreamEvent \<Rightarrow> TextStreamRevisionTracker \<Rightarrow> TextStreamRevisionTracker res" where
  "revise e t = (case event_type e of
     SavepointEvent \<Rightarrow> Inr (tracker_savepoint (event_id e) t)
   | RollbackEvent \<Rightarrow> rbind (tracker_rollback (event_id e) t) (\<lambda>(_, t'). Inr t'))"

definition emit_revision :: "TextStreamEvent \<Rightarrow> shared_text \<Rightarrow> shared_text res" where
  "emit_revision e s = rbind (revise e (rendered_segment s)) (\<lambda>t.
     if \<not> ordered_items s then Inl (Panic ''revisable response stream must preserve item order'')
     else Inr (s\<lparr>rendered_segment := t, item_channel := item_channel s @ [RevisionItem e],
                 event_channel := event_channel s @ [e]\<rparr>))"

definition current_render_content :: "shared_text \<Rightarrow> string" where
  "current_render_content s = initial_content s @ content_buffer (rendered_segment s)"

text \<open>What a late subscriber is handed before the live items.\<close>

fun replay_savepoints :: "string \<Rightarrow> nat \<Rightarrow> (string \<times> nat) list \<Rightarrow> nat \<Rightarrow> ResponseStreamItem list res" where
  "replay_savepoints snapshot initial_len [] cursor =
     (if cursor < length snapshot
      then rbind (slice_str snapshot cursor (length snapshot)) (\<lambda>c. Inr [Chunk c]) else Inr [])"
| "replay_savepoints snapshot initial_len ((i, p) # sps) cursor =
     (let cut = min (initial_len + p) (length snapshot); item = RevisionItem \<lparr>event_type = SavepointEvent, event_id = i\<rparr>
      in if cursor < cut
         then rbind (slice_str snapshot cursor cut) (\<lambda>c.
              rbind (replay_savepoints snapshot initial_len sps cut) (\<lambda>xs. Inr (Chunk c # item # xs)))
         else rbind (replay_savepoints snapshot initial_len sps cursor) (\<lambda>xs. Inr (item # xs)))"

definition late_replay :: "shared_text \<Rightarrow> ResponseStreamItem list res" where
  "late_replay s =
     (let snapshot = current_render_content s;
          rendered_len = length (content_buffer (rendered_segment s));
          sps = (if ordered_items s then sort_key snd (savepoints (rendered_segment s)) else [])
      in replay_savepoints snapshot (length snapshot - rendered_len) sps 0)"

section \<open>Producers and subscribers\<close>

definition emit_item :: "ResponseStreamItem \<Rightarrow> shared_text \<Rightarrow> shared_text res" where
  "emit_item x s = (case x of Chunk c \<Rightarrow> Inr (emit_chunk c s) | RevisionItem e \<Rightarrow> emit_revision e s)"

text \<open>A subscriber that rebuilds the text applies every item to a tracker of its own.\<close>

definition apply_item :: "ResponseStreamItem \<Rightarrow> TextStreamRevisionTracker \<Rightarrow> TextStreamRevisionTracker res" where
  "apply_item x t = (case x of Chunk c \<Rightarrow> Inr (tracker_append c t) | RevisionItem e \<Rightarrow> revise e t)"

fun valid_item :: "ResponseStreamItem \<Rightarrow> bool" where
  "valid_item (Chunk c) = starts_character c"
| "valid_item (RevisionItem e) = True"

lemma apply_item_ok:
  assumes "tracker_ok t" and "valid_item x"
  shows "\<exists>t'. apply_item x t = Inr t' \<and> tracker_ok t'"
proof (cases x)
  case (Chunk c)
  with tracker_step_refines [OF assms(1), of "Append c"] assms(2) show ?thesis
    by (auto simp: apply_item_def tracker_step_def)
next
  case (RevisionItem e)
  with tracker_step_refines [OF assms(1), of "Savepoint (event_id e)"]
    tracker_step_refines [OF assms(1), of "Rollback (event_id e)"] show ?thesis
    by (cases "event_type e") (auto simp: apply_item_def revise_def tracker_step_def)
qed

lemma apply_items_ok:
  assumes "tracker_ok t" and "\<forall>x\<in>set xs. valid_item x"
  shows "\<exists>t'. rfold apply_item xs t = Inr t' \<and> tracker_ok t'"
  using assms
proof (induction xs arbitrary: t)
  case (Cons x xs)
  with apply_item_ok [of t x] show ?case by auto
qed simp

text \<open>The stream's own tracker is that of an early subscriber, without the initial content.\<close>

lemma emit_items:
  assumes "ordered_items s" and "tracker_ok (rendered_segment s)" and "\<forall>x\<in>set xs. valid_item x"
  shows "\<exists>s' t. rfold emit_item xs s = Inr s' \<and> rfold apply_item xs (rendered_segment s) = Inr t
    \<and> rendered_segment s' = t \<and> tracker_ok t \<and> initial_content s' = initial_content s \<and> ordered_items s'
    \<and> item_channel s' = item_channel s @ xs"
  using assms
proof (induction xs arbitrary: s)
  case (Cons x xs)
  obtain t where t: "apply_item x (rendered_segment s) = Inr t" "tracker_ok t"
    using apply_item_ok Cons.prems by (meson list.set_intros(1))
  then obtain s1 where s1: "emit_item x s = Inr s1" "rendered_segment s1 = t" "initial_content s1 = initial_content s"
    "ordered_items s1" "item_channel s1 = item_channel s @ [x]"
    using Cons.prems(1)
    by (cases x) (auto simp: emit_item_def apply_item_def emit_chunk_def emit_revision_def)
  from Cons.IH [of s1] Cons.prems t s1 show ?case by simp
qed simp

section \<open>A late subscriber catches up\<close>

definition shift_entries :: "nat \<Rightarrow> (string \<times> nat) list \<Rightarrow> (string \<times> nat) list" where
  "shift_entries n m = map (\<lambda>(i, p). (i, n + p)) m"

definition shifted :: "string \<Rightarrow> TextStreamRevisionTracker \<Rightarrow> TextStreamRevisionTracker" where
  "shifted c t = \<lparr>content_buffer = c @ content_buffer t, savepoints = shift_entries (length c) (savepoints t)\<rparr>"

lemma shift_entries_simps [simp]:
  "shift_entries n [] = []" "shift_entries n ((i, p) # m) = (i, n + p) # shift_entries n m"
  "map fst (shift_entries n m) = map fst m" "set (shift_entries n m) = (\<lambda>(i, p). (i, n + p)) ` set m"
  by (simp_all add: shift_entries_def comp_def case_prod_beta)

lemma shift_entries_insert: "shift_entries n (bm_insert k v m) = bm_insert k (n + v) (shift_entries n m)"
  by (induction m) (auto simp: shift_entries_def)

lemma map_of_shift: "map_of (shift_entries n m) k = map_option ((+) n) (map_of m k)"
  by (induction m) (auto simp: shift_entries_def)

lemma shift_entries_retain:
  "shift_entries n (bm_retain (\<lambda>_ q. q \<le> p) m) = bm_retain (\<lambda>_ q. q \<le> n + p) (shift_entries n m)"
  by (induction m) (auto simp: bm_retain_def shift_entries_def)

lemma apply_item_shifted:
  assumes "tracker_ok t" and "valid_item x" and "apply_item x t = Inr t'"
  shows "apply_item x (shifted c t) = Inr (shifted c t')"
proof (cases x)
  case (Chunk d)
  with assms(3) show ?thesis by (auto simp: apply_item_def tracker_append_def shifted_def)
next
  case (RevisionItem e)
  show ?thesis
  proof (cases "event_type e")
    case SavepointEvent
    with RevisionItem assms(3) show ?thesis
      by (auto simp: apply_item_def revise_def tracker_savepoint_def shifted_def shift_entries_insert)
  next
    case RollbackEvent
    show ?thesis
    proof (cases "map_of (savepoints t) (event_id e)")
      case None
      with RevisionItem RollbackEvent assms(3) show ?thesis
        by (auto simp: apply_item_def revise_def tracker_rollback_def shifted_def map_of_shift)
    next
      case (Some p)
      note p = tracker_okD [OF assms(1) Some]
      have t': "t' = t\<lparr>content_buffer := take p (content_buffer t), savepoints := bm_retain (\<lambda>_ saved. saved \<le> p) (savepoints t)\<rparr>"
        using assms(3) RevisionItem RollbackEvent tracker_rollback_ok [OF assms(1) Some]
        by (simp add: apply_item_def revise_def)
      have "truncate_str (length c + p) (c @ content_buffer t) = Inr (c @ take p (content_buffer t))"
        using truncate_ok [of "length c + p" "c @ content_buffer t"] p by simp
      with Some RevisionItem RollbackEvent show ?thesis
        by (simp add: apply_item_def revise_def tracker_rollback_def shifted_def map_of_shift t' shift_entries_retain)
    qed
  qed
qed

lemma apply_items_shifted:
  assumes "tracker_ok t" and "\<forall>x\<in>set xs. valid_item x" and "rfold apply_item xs t = Inr t'"
  shows "rfold apply_item xs (shifted c t) = Inr (shifted c t')"
  using assms
proof (induction xs arbitrary: t)
  case (Cons x xs)
  then obtain t1 where t1: "apply_item x t = Inr t1" "rfold apply_item xs t1 = Inr t'" by auto
  moreover have "tracker_ok t1" using apply_item_ok [OF Cons.prems(1), of x] Cons.prems(2) t1(1) by auto
  ultimately show ?case using Cons.IH [of t1] apply_item_shifted [OF Cons.prems(1) _ t1(1)] Cons.prems(2) by simp
qed simp

text \<open>The replay rebuilds the snapshot and every savepoint.\<close>

lemma slice_ok:
  "a \<le> b \<Longrightarrow> is_char_boundary s a \<Longrightarrow> is_char_boundary s b \<Longrightarrow> slice_str s a b = Inr (take (b - a) (drop a s))"
  by (simp add: slice_str_def)

lemma boundary_length [simp]: "is_char_boundary s (length s)"
  by (simp add: is_char_boundary_def)

lemma replay_savepoints_rebuild:
  assumes "sorted (map snd sps)" and "\<forall>(i, p)\<in>set sps. cursor \<le> n + p \<and> n + p \<le> length s \<and> is_char_boundary s (n + p)"
    and "cursor \<le> length s" and "is_char_boundary s cursor" and "content_buffer t = take cursor s"
  shows "\<exists>xs. replay_savepoints s n sps cursor = Inr xs \<and> rfold apply_item xs t
    = Inr (t\<lparr>content_buffer := s, savepoints := bm_extend (savepoints t) (shift_entries n sps)\<rparr>)"
  using assms
proof (induction sps arbitrary: cursor t)
  case Nil
  then show ?case
    by (cases "cursor < length s")
      (auto simp: slice_ok apply_item_def tracker_append_def bm_extend_def append_take_drop_id)
next
  case (Cons e sps)
  obtain i p where e: "e = (i, p)" by fastforce
  let ?cut = "n + p"
  let ?item = "RevisionItem \<lparr>event_type = SavepointEvent, event_id = i\<rparr>"
  let ?t = "t\<lparr>content_buffer := take ?cut s, savepoints := bm_insert i ?cut (savepoints t)\<rparr>"
  have cut: "cursor \<le> ?cut" "?cut \<le> length s" "is_char_boundary s ?cut" using Cons.prems(2) by (simp_all add: e)
  have later: "\<forall>(j, q)\<in>set sps. ?cut \<le> n + q \<and> n + q \<le> length s \<and> is_char_boundary s (n + q)"
    using Cons.prems(1,2) by (fastforce simp: e)
  obtain xs where xs: "replay_savepoints s n sps ?cut = Inr xs" "rfold apply_item xs ?t
      = Inr (?t\<lparr>content_buffer := s, savepoints := bm_extend (savepoints ?t) (shift_entries n sps)\<rparr>)"
    using Cons.IH [OF _ later cut(2,3), of ?t] Cons.prems(1) by auto
  have goal: "?t\<lparr>content_buffer := s, savepoints := bm_extend (savepoints ?t) (shift_entries n sps)\<rparr>
      = t\<lparr>content_buffer := s, savepoints := bm_extend (savepoints t) (shift_entries n (e # sps))\<rparr>"
    by (simp add: e bm_extend_def)
  have save: "apply_item ?item u = Inr (u\<lparr>savepoints := bm_insert i (length (content_buffer u)) (savepoints u)\<rparr>)" for u
    by (simp add: apply_item_def revise_def tracker_savepoint_def)
  have "take cursor s @ take (?cut - cursor) (drop cursor s) = take ?cut s"
    using cut(1) by (metis le_add_diff_inverse take_add)
  then show ?case
  proof (cases "cursor < ?cut")
    case True
    have "replay_savepoints s n (e # sps) cursor = Inr (Chunk (take (?cut - cursor) (drop cursor s)) # ?item # xs)"
      using True cut xs(1) Cons.prems(4) by (simp add: e slice_ok Let_def)
    moreover have "rfold apply_item (Chunk (take (?cut - cursor) (drop cursor s)) # ?item # xs) t
        = rfold apply_item xs ?t"
      using cut(2) Cons.prems(5) \<open>take cursor s @ take (?cut - cursor) (drop cursor s) = take ?cut s\<close>
      by (simp add: apply_item_def [of "Chunk c" for c] tracker_append_def save)
    ultimately show ?thesis using xs(2) goal by (intro exI conjI) (assumption, simp only:)
  next
    case False
    then have eq: "?cut = cursor" using cut(1) by simp
    have "replay_savepoints s n (e # sps) cursor = Inr (?item # xs)"
      using cut xs(1) by (simp add: e eq Let_def)
    moreover have "rfold apply_item (?item # xs) t = rfold apply_item xs ?t"
      using cut(2) Cons.prems(5) by (cases t) (simp add: save eq)
    ultimately show ?thesis using xs(2) goal by (intro exI conjI) (assumption, simp only:)
  qed
qed

lemma bm_extend_shift_sorted:
  assumes "bm_wf m"
  shows "bm_extend [] (shift_entries n (sort_key snd m)) = shift_entries n m"
proof (rule bm_ext)
  have fst: "distinct (map fst (sort_key snd m))"
    using bm_wf_distinct [OF assms] by (simp add: distinct_map)
  have "map_of (sort_key snd m) = map_of m"
    by (rule map_of_eqI) (use fst bm_wf_distinct [OF assms] in auto)
  with fst show "map_of (bm_extend [] (shift_entries n (sort_key snd m))) = map_of (shift_entries n m)"
    by (auto simp: fun_eq_iff map_of_bm_extend map_of_shift split: option.split)
  show "bm_wf (shift_entries n m)" using assms by (simp add: bm_wf_def)
qed simp

lemma late_replay_rebuilds:
  assumes "tracker_ok (rendered_segment s)" and "ordered_items s" and "starts_character (initial_content s)"
  shows "\<exists>xs. late_replay s = Inr xs
    \<and> rfold apply_item xs (tracker_new []) = Inr (shifted (initial_content s) (rendered_segment s))"
proof -
  let ?t = "rendered_segment s" and ?c = "initial_content s"
  let ?s = "?c @ content_buffer ?t" and ?sps = "sort_key snd (savepoints ?t)"
  have bounds: "\<forall>(i, p)\<in>set ?sps. 0 \<le> length ?c + p \<and> length ?c + p \<le> length ?s \<and> is_char_boundary ?s (length ?c + p)"
  proof (clarsimp)
    fix i p assume "(i, p) \<in> set (savepoints ?t)"
    with assms(1) have "p \<le> length (content_buffer ?t)" "starts_character (drop p (content_buffer ?t))"
      by (auto simp: tracker_ok_def)
    then show "p \<le> length (content_buffer ?t) \<and> is_char_boundary ?s (length ?c + p)"
      using boundary_drop [of "length ?c + p" ?s] by simp
  qed
  obtain xs where xs: "replay_savepoints ?s (length ?c) ?sps 0 = Inr xs"
    "rfold apply_item xs (tracker_new []) = Inr ((tracker_new [])\<lparr>content_buffer := ?s,
        savepoints := bm_extend (savepoints (tracker_new [])) (shift_entries (length ?c) ?sps)\<rparr>)"
    using replay_savepoints_rebuild [OF _ bounds, of "tracker_new []"]
    by (auto simp: tracker_new_def is_char_boundary_def)
  have "bm_wf (savepoints ?t)" using assms(1) by (simp add: tracker_ok_def)
  then have "(tracker_new [])\<lparr>content_buffer := ?s,
        savepoints := bm_extend (savepoints (tracker_new [])) (shift_entries (length ?c) ?sps)\<rparr> = shifted ?c ?t"
    by (simp add: tracker_new_def shifted_def bm_extend_shift_sorted)
  with xs assms(2) show ?thesis
    by (simp add: late_replay_def current_render_content_def)
qed

text \<open>C19: a late subscriber catches up.  After any sequence of chunks, savepoints and rollbacks, a
  subscriber that attaches now and applies the replay holds the same text and the same savepoints
  as one that received the initial content and every item from the start, so every later item,
  rollbacks included, has the same effect on both; and its text is the current render content.\<close>

theorem late_subscriber_catches_up:
  assumes "starts_character c" and "\<forall>x\<in>set xs. valid_item x"
  shows "\<exists>s ys t. rfold emit_item xs (set_initial_content c (with_item_stream True)) = Inr s \<and> late_replay s = Inr ys
    \<and> rfold apply_item ys (tracker_new []) = Inr t
    \<and> rfold apply_item (Chunk c # item_channel s) (tracker_new []) = Inr t
    \<and> item_channel s = xs \<and> content_buffer t = current_render_content s"
proof -
  let ?s0 = "set_initial_content c (with_item_stream True)"
  have s0: "ordered_items ?s0" "rendered_segment ?s0 = tracker_new []" "initial_content ?s0 = c" "item_channel ?s0 = []"
    "tracker_ok (tracker_new [])"
    by (simp_all add: set_initial_content_def with_item_stream_def tracker_ok_def tracker_new_def)
  obtain s t where s: "rfold emit_item xs ?s0 = Inr s" "rfold apply_item xs (tracker_new []) = Inr t"
    "rendered_segment s = t" "tracker_ok t" "initial_content s = c" "ordered_items s" "item_channel s = xs"
    using emit_items [of ?s0 xs] s0 assms(2) by auto
  obtain ys where ys: "late_replay s = Inr ys" "rfold apply_item ys (tracker_new []) = Inr (shifted c t)"
    using late_replay_rebuilds [of s] s assms(1) by auto
  have "rfold apply_item (Chunk c # xs) (tracker_new []) = rfold apply_item xs (shifted c (tracker_new []))"
    by (simp add: apply_item_def tracker_append_def tracker_new_def shifted_def)
  also have "\<dots> = Inr (shifted c t)" by (rule apply_items_shifted [OF s0(5) assms(2) s(2)])
  finally show ?thesis
    using s ys by (auto simp: current_render_content_def shifted_def intro!: exI [of _ s])
qed

theorem late_subscriber_catches_up_witness:
  "\<exists>s ys. rfold emit_item [Chunk ''x'', RevisionItem \<lparr>event_type = SavepointEvent, event_id = ''a''\<rparr>, Chunk ''y'']
      (set_initial_content ''i'' (with_item_stream True)) = Inr s
    \<and> late_replay s = Inr ys \<and> current_render_content s = ''ixy''"
proof -
  have "starts_character ''i''" "\<forall>x\<in>set [Chunk ''x'', RevisionItem \<lparr>event_type = SavepointEvent, event_id = ''a''\<rparr>, Chunk ''y'']. valid_item x"
    by (simp_all add: starts_character_def continuation_byte_def)
  from late_subscriber_catches_up [OF this] show ?thesis
    by (auto simp: apply_item_def revise_def tracker_append_def tracker_savepoint_def tracker_new_def)
qed

end
