(* ===== verification/Native_Markdown.thy ===== *)
theory Native_Markdown
  imports Stream_Split "HOL-Library.Word"
begin

text \<open>
  The incremental block splitter that feeds the renderer (\<open>NativeMarkdownSplitter.rs\<close>): a session
  keeps its plugins and the characters it has not decided on between chunks, and reports segments
  of character indices with the kind of node they belong to.

  \<open>sink\<close> stands for the two parameters \<open>out\<close> and \<open>run\<close> that every step of the source passes on.
\<close>

unbundle bit_operations_syntax

section \<open>Node kinds\<close>

datatype MarkdownProcessorType =
    HeaderT | BlockQuoteT | CodeBlockT | OrderedListT | UnorderedListT | HorizontalRuleT | BlockLatexT
  | TableT | XmlBlockT | BoldT | ItalicT | InlineCodeT | LinkT | ImageT | StrikethroughT | UnderlineT
  | InlineLatexT | PlainTextT | HtmlBreakT | FootnoteReferenceT | FootnoteDefinitionT

fun type_ordinal :: "MarkdownProcessorType \<Rightarrow> int" where
  "type_ordinal HeaderT = 0"
| "type_ordinal BlockQuoteT = 1"
| "type_ordinal CodeBlockT = 2"
| "type_ordinal OrderedListT = 3"
| "type_ordinal UnorderedListT = 4"
| "type_ordinal HorizontalRuleT = 5"
| "type_ordinal BlockLatexT = 6"
| "type_ordinal TableT = 7"
| "type_ordinal XmlBlockT = 8"
| "type_ordinal BoldT = 9"
| "type_ordinal ItalicT = 10"
| "type_ordinal InlineCodeT = 11"
| "type_ordinal LinkT = 12"
| "type_ordinal ImageT = 13"
| "type_ordinal StrikethroughT = 14"
| "type_ordinal UnderlineT = 15"
| "type_ordinal InlineLatexT = 16"
| "type_ordinal PlainTextT = 17"
| "type_ordinal HtmlBreakT = 18"
| "type_ordinal FootnoteReferenceT = 19"
| "type_ordinal FootnoteDefinitionT = 20"

definition from_ordinal :: "int \<Rightarrow> MarkdownProcessorType option" where
  "from_ordinal v =
     (if v = 0 then Some HeaderT else if v = 1 then Some BlockQuoteT else if v = 2 then Some CodeBlockT
      else if v = 3 then Some OrderedListT else if v = 4 then Some UnorderedListT
      else if v = 5 then Some HorizontalRuleT else if v = 6 then Some BlockLatexT else if v = 7 then Some TableT
      else if v = 8 then Some XmlBlockT else if v = 9 then Some BoldT else if v = 10 then Some ItalicT
      else if v = 11 then Some InlineCodeT else if v = 12 then Some LinkT else if v = 13 then Some ImageT
      else if v = 14 then Some StrikethroughT else if v = 15 then Some UnderlineT
      else if v = 16 then Some InlineLatexT else if v = 17 then Some PlainTextT
      else if v = 18 then Some HtmlBreakT else if v = 19 then Some FootnoteReferenceT
      else if v = 20 then Some FootnoteDefinitionT else None)"

section \<open>Segments\<close>

record Segment =
  seg_type :: int
  seg_start :: nat
  seg_end :: nat

definition SEG_BREAK :: int where "SEG_BREAK = -1"

record RunState =
  run_tag :: MarkdownProcessorType
  run_start :: "nat option"
  run_end :: nat

definition run_default :: RunState where
  "run_default = \<lparr>run_tag = PlainTextT, run_start = None, run_end = 0\<rparr>"

record sink =
  sink_out :: "Segment list"
  sink_run :: RunState

definition push_run :: "RunState \<Rightarrow> nat \<Rightarrow> Segment list \<Rightarrow> Segment list" where
  "push_run r start out = out @ [\<lparr>seg_type = type_ordinal (run_tag r), seg_start = start, seg_end = run_end r\<rparr>]"

definition emit_index :: "MarkdownProcessorType \<Rightarrow> nat \<Rightarrow> sink \<Rightarrow> sink" where
  "emit_index tag i k =
     (let r = sink_run k;
          k = (case run_start r of
                 Some s \<Rightarrow> if run_tag r \<noteq> tag \<or> run_end r \<noteq> i
                   then \<lparr>sink_out = push_run r s (sink_out k), sink_run = r\<lparr>run_start := None, run_end := 0\<rparr>\<rparr> else k
               | None \<Rightarrow> k);
          r = sink_run k
      in k\<lparr>sink_run := (if run_start r = None then r\<lparr>run_tag := tag, run_start := Some i, run_end := i + 1\<rparr>
                        else r\<lparr>run_end := i + 1\<rparr>)\<rparr>)"

definition flush_run :: "sink \<Rightarrow> sink" where
  "flush_run k =
     (let r = sink_run k;
          out = (case run_start r of Some s \<Rightarrow> push_run r s (sink_out k) | None \<Rightarrow> sink_out k)
      in \<lparr>sink_out = out, sink_run = r\<lparr>run_start := None, run_end := 0\<rparr>\<rparr>)"

definition emit_break :: "nat \<Rightarrow> sink \<Rightarrow> sink" where
  "emit_break pos k = (let k = flush_run k
     in k\<lparr>sink_out := sink_out k @ [\<lparr>seg_type = SEG_BREAK, seg_start = pos, seg_end = pos\<rparr>]\<rparr>)"

section \<open>Rule lines and line breaks\<close>

record RulePrefix =
  rule_marker :: "rchar option"
  rule_count :: nat
  rule_valid :: bool

definition rule_default :: RulePrefix where
  "rule_default = \<lparr>rule_marker = None, rule_count = 0, rule_valid = True\<rparr>"

definition rule_push :: "rchar \<Rightarrow> RulePrefix \<Rightarrow> RulePrefix" where
  "rule_push c r =
     (if \<not> rule_valid r \<or> c \<in> {ch CHR '' '', tab, 13, newline} then r
      else if c \<notin> {ch CHR ''-'', ch CHR ''*'', ch CHR ''_''} \<or> (\<exists>m \<in> set_option (rule_marker r). m \<noteq> c)
      then r\<lparr>rule_valid := False\<rparr>
      else r\<lparr>rule_marker := Some c, rule_count := rule_count r + 1\<rparr>)"

definition rule_length :: "RulePrefix \<Rightarrow> nat option" where
  "rule_length r = (if rule_valid r \<and> rule_marker r \<noteq> None then Some (rule_count r) else None)"

definition matches_case_insensitive_prefix :: "rchar list \<Rightarrow> rchar list \<Rightarrow> bool" where
  "matches_case_insensitive_prefix buf pat \<longleftrightarrow> length buf \<le> length pat
     \<and> list_all (\<lambda>(a, b). to_ascii_lowercase a = to_ascii_lowercase b) (zip buf pat)"

definition matches_case_insensitive_full :: "rchar list \<Rightarrow> rchar list \<Rightarrow> bool" where
  "matches_case_insensitive_full buf pat \<longleftrightarrow> length buf = length pat \<and> matches_case_insensitive_prefix buf pat"

definition is_html_break_prefix :: "rchar list \<Rightarrow> bool" where
  "is_html_break_prefix buf \<longleftrightarrow> matches_case_insensitive_prefix buf (chars ''<br>'')
     \<or> matches_case_insensitive_prefix buf (chars ''<br/>'') \<or> matches_case_insensitive_prefix buf (chars ''<br />'')
     \<or> matches_case_insensitive_prefix buf (chars ''<br >'')"

definition is_html_break_full_match :: "rchar list \<Rightarrow> bool" where
  "is_html_break_full_match buf \<longleftrightarrow> matches_case_insensitive_full buf (chars ''<br>'')
     \<or> matches_case_insensitive_full buf (chars ''<br/>'') \<or> matches_case_insensitive_full buf (chars ''<br />'')
     \<or> matches_case_insensitive_full buf (chars ''<br >'')"

section \<open>Sessions\<close>

record PluginEntry =
  entry_plugin :: plugin
  entry_tag :: MarkdownProcessorType

record WaitforPending =
  wait_char :: rchar
  wait_at_start :: bool
  wait_index :: nat
  wait_emit :: bool

record PendingChar =
  pend_at_start :: bool
  pend_char :: rchar
  pend_index :: nat

record MarkdownSession =
  ms_plugins :: "PluginEntry list"
  global_offset :: nat
  ms_at_start_of_line :: bool
  active_index :: "nat option"
  active_tag :: MarkdownProcessorType
  eval_start_global :: "nat option"
  ms_evaluation_buffer :: "rchar list"
  rule_prefix :: RulePrefix
  evaluation_emit_mask :: "32 word list"
  waitfor_active :: bool
  waitfor_at_start_of_line :: bool
  waitfor_pending :: "WaitforPending list"
  pending_chars :: "PendingChar list"

definition reset_entry :: "PluginEntry \<Rightarrow> PluginEntry" where
  "reset_entry e = e\<lparr>entry_plugin := plugin_reset (entry_plugin e)\<rparr>"

definition session_new :: "PluginEntry list \<Rightarrow> MarkdownSession" where
  "session_new es = \<lparr>ms_plugins = map reset_entry es, global_offset = 0, ms_at_start_of_line = True,
     active_index = None, active_tag = PlainTextT, eval_start_global = None, ms_evaluation_buffer = [],
     rule_prefix = rule_default, evaluation_emit_mask = [], waitfor_active = False,
     waitfor_at_start_of_line = False, waitfor_pending = [], pending_chars = []\<rparr>"

definition clear_evaluation :: "MarkdownSession \<Rightarrow> MarkdownSession" where
  "clear_evaluation s = s\<lparr>ms_evaluation_buffer := [], rule_prefix := rule_default, evaluation_emit_mask := [],
     eval_start_global := None\<rparr>"

definition reset_entries :: "MarkdownSession \<Rightarrow> MarkdownSession" where
  "reset_entries s = s\<lparr>ms_plugins := map reset_entry (ms_plugins s)\<rparr>"

definition emit_range :: "MarkdownProcessorType \<Rightarrow> nat list \<Rightarrow> sink \<Rightarrow> sink" where
  "emit_range tag is k = fold (emit_index tag) is k"

text \<open>The characters under evaluation, as indices.\<close>

definition eval_indices :: "MarkdownSession \<Rightarrow> nat \<Rightarrow> nat list" where
  "eval_indices s i = (let start = (case eval_start_global s of Some g \<Rightarrow> g | None \<Rightarrow> i)
     in map (\<lambda>k. start + k) [0..<length (ms_evaluation_buffer s)])"

text \<open>All plugins read the character; bit \<open>j\<close> of the mask says whether plugin \<open>j\<close> emits it.\<close>

fun read_all :: "rchar \<Rightarrow> bool \<Rightarrow> nat \<Rightarrow> PluginEntry list \<Rightarrow> 32 word \<Rightarrow> PluginEntry list \<times> 32 word" where
  "read_all c b j [] m = ([], m)"
| "read_all c b j (e # es) m =
     (let (emit, p) = plugin_process (entry_plugin e) c b;
          m = (if emit then m OR push_bit j 1 else m);
          (es', m') = read_all c b (j + 1) es m
      in (e\<lparr>entry_plugin := p\<rparr> # es', m'))"

definition find_successful :: "PluginEntry list \<Rightarrow> nat option" where
  "find_successful es = List.find (\<lambda>i. plugin_state (entry_plugin (es ! i)) = Processing) [0..<length es]"

definition emit_masked :: "MarkdownSession \<Rightarrow> nat \<Rightarrow> nat \<Rightarrow> sink \<Rightarrow> sink" where
  "emit_masked s i idx k =
     (let start = (case eval_start_global s of Some g \<Rightarrow> g | None \<Rightarrow> i)
      in fold (\<lambda>(b, mask) k. if mask AND push_bit idx 1 \<noteq> 0 then emit_index (active_tag s) (start + b) k else k)
           (zip [0..<length (evaluation_emit_mask s)] (evaluation_emit_mask s)) k)"

definition reset_other_entries :: "nat \<Rightarrow> PluginEntry list \<Rightarrow> PluginEntry list" where
  "reset_other_entries i es = map (\<lambda>j. if j = i then es ! j else reset_entry (es ! j)) [0..<length es]"

definition read_evaluated :: "rchar \<Rightarrow> bool \<Rightarrow> nat \<Rightarrow> MarkdownSession \<Rightarrow> MarkdownSession" where
  "read_evaluated c b i s =
     (let s = (if eval_start_global s = None
               then s\<lparr>eval_start_global := Some i, rule_prefix := (rule_prefix s)\<lparr>rule_valid := b\<rparr>\<rparr> else s);
          (es, mask) = read_all c b 0 (ms_plugins s) 0
      in s\<lparr>ms_evaluation_buffer := ms_evaluation_buffer s @ [c], rule_prefix := rule_push c (rule_prefix s),
           ms_plugins := es, evaluation_emit_mask := evaluation_emit_mask s @ [mask]\<rparr>)"

text \<open>What is left of an evaluation step once the rule line has been dealt with.\<close>

definition decide_plugins :: "nat \<Rightarrow> MarkdownSession \<Rightarrow> sink \<Rightarrow> MarkdownSession \<times> sink" where
  "decide_plugins i s k = (case find_successful (ms_plugins s) of
     Some idx \<Rightarrow>
       (let s = s\<lparr>active_index := Some idx, active_tag := entry_tag (ms_plugins s ! idx)\<rparr>;
            k = emit_masked s i idx (flush_run k);
            s = clear_evaluation s
        in (s\<lparr>ms_plugins := reset_other_entries idx (ms_plugins s)\<rparr>, k))
   | None \<Rightarrow>
       if is_html_break_prefix (ms_evaluation_buffer s) then (s, k)
       else if list_ex (\<lambda>e. plugin_state (entry_plugin e) = Trying) (ms_plugins s) then (s, k)
       else (reset_entries (clear_evaluation s), emit_range PlainTextT (eval_indices s i) k))"

definition process_evaluation :: "rchar \<Rightarrow> bool \<Rightarrow> nat \<Rightarrow> MarkdownSession \<Rightarrow> sink \<Rightarrow> MarkdownSession \<times> sink" where
  "process_evaluation c b i s k =
     (let s = read_evaluated c b i s
      in if is_html_break_full_match (ms_evaluation_buffer s)
         then (reset_entries (clear_evaluation s), emit_range HtmlBreakT (eval_indices s i) k)
         else case rule_length (rule_prefix s) of
             Some n \<Rightarrow>
               if last (ms_evaluation_buffer s) = newline \<and> 3 \<le> n
               then (reset_entries (clear_evaluation s), emit_break (i + 1) (emit_range HorizontalRuleT (eval_indices s i) k))
               else if last (ms_evaluation_buffer s) \<noteq> newline then (s, k)
               else decide_plugins i s k
           | None \<Rightarrow> decide_plugins i s k)"

definition emit_pending :: "MarkdownProcessorType \<Rightarrow> WaitforPending list \<Rightarrow> sink \<Rightarrow> sink" where
  "emit_pending tag ps k = fold (\<lambda>p k. if wait_emit p then emit_index tag (wait_index p) k else k) ps k"

text \<open>The plugin did not go on: a leading line break is plain text, the rest is read again.\<close>

fun settle_pending :: "WaitforPending list \<Rightarrow> PendingChar list \<Rightarrow> sink \<Rightarrow> PendingChar list \<times> sink" where
  "settle_pending [] replay k = (replay, k)"
| "settle_pending (p # ps) replay k =
     (if wait_char p = newline \<and> replay = []
      then settle_pending ps replay (if wait_emit p then emit_index PlainTextT (wait_index p) k else k)
      else settle_pending ps (replay @ [\<lparr>pend_at_start = wait_at_start p, pend_char = wait_char p, pend_index = wait_index p\<rparr>]) k)"

definition process_waitfor :: "rchar \<Rightarrow> nat \<Rightarrow> MarkdownSession \<Rightarrow> sink \<Rightarrow> MarkdownSession \<times> sink" where
  "process_waitfor c i s k = (case active_index s of
     None \<Rightarrow> (s\<lparr>waitfor_active := False\<rparr>, k)
   | Some a \<Rightarrow>
       (let e = ms_plugins s ! a;
            (emit, p) = plugin_process (entry_plugin e) c (waitfor_at_start_of_line s);
            s = s\<lparr>ms_plugins := (ms_plugins s)[a := e\<lparr>entry_plugin := p\<rparr>]\<rparr>
        in if plugin_state p = WaitFor
           then (s\<lparr>waitfor_pending := waitfor_pending s @ [\<lparr>wait_char = c, wait_at_start = waitfor_at_start_of_line s,
                     wait_index = i, wait_emit = emit\<rparr>],
                   waitfor_at_start_of_line := (c = newline)\<rparr>, k)
           else if plugin_state p = Processing
           then (let k = emit_pending (active_tag s) (waitfor_pending s) k
                 in (s\<lparr>waitfor_pending := [], waitfor_active := False\<rparr>, if emit then emit_index (active_tag s) i k else k))
           else (let (replay, k) = settle_pending (waitfor_pending s) [] k;
                     k = emit_break i k;
                     s = s\<lparr>waitfor_pending := [], waitfor_active := False, active_index := None, active_tag := PlainTextT\<rparr>;
                     s = reset_entries s
                 in (s\<lparr>pending_chars := replay
                        @ \<lparr>pend_at_start = waitfor_at_start_of_line s, pend_char = c, pend_index = i\<rparr> # pending_chars s\<rparr>, k))))"

definition process_active :: "rchar \<Rightarrow> bool \<Rightarrow> nat \<Rightarrow> nat \<Rightarrow> MarkdownSession \<Rightarrow> sink \<Rightarrow> MarkdownSession \<times> sink" where
  "process_active c b i a s k =
     (let e = ms_plugins s ! a;
          (emit, p) = plugin_process (entry_plugin e) c b;
          s = s\<lparr>ms_plugins := (ms_plugins s)[a := e\<lparr>entry_plugin := p\<rparr>]\<rparr>
      in if plugin_state p = WaitFor
         then (s\<lparr>waitfor_active := True, waitfor_at_start_of_line := (c = newline),
                 waitfor_pending := waitfor_pending s @ [\<lparr>wait_char = c, wait_at_start = b, wait_index = i, wait_emit = emit\<rparr>]\<rparr>, k)
         else (let k = (if emit then emit_index (active_tag s) i k else k)
               in if plugin_state p \<noteq> Processing
                  then (s\<lparr>active_index := None, active_tag := PlainTextT\<rparr>, emit_break (i + 1) k)
                  else (s, k)))"

definition process_one :: "rchar \<Rightarrow> bool \<Rightarrow> nat option \<Rightarrow> MarkdownSession \<Rightarrow> sink \<Rightarrow> MarkdownSession \<times> sink" where
  "process_one c b forced s k =
     (let i = (case forced of Some g \<Rightarrow> g | None \<Rightarrow> global_offset s);
          s = (if forced = None then s\<lparr>global_offset := global_offset s + 1\<rparr> else s)
      in if waitfor_active s then process_waitfor c i s k
         else case active_index s of
             Some a \<Rightarrow> process_active c b i a s k
           | None \<Rightarrow> process_evaluation c b i s k)"

section \<open>The push loop ends\<close>

definition stage :: "MarkdownSession \<Rightarrow> nat" where
  "stage s = (if waitfor_active s then 1 else if active_index s \<noteq> None then 2 else 0)"

lemma settle_pending_length: "length (fst (settle_pending ps r k)) \<le> length r + length ps"
  by (induction ps r k rule: settle_pending.induct) (auto simp: le_Suc_eq)

lemma clear_simps [simp]:
  "waitfor_pending (clear_evaluation s) = waitfor_pending s" "pending_chars (clear_evaluation s) = pending_chars s"
  "waitfor_pending (reset_entries s) = waitfor_pending s" "pending_chars (reset_entries s) = pending_chars s"
  "waitfor_active (clear_evaluation s) = waitfor_active s" "waitfor_active (reset_entries s) = waitfor_active s"
  "active_index (clear_evaluation s) = active_index s" "active_index (reset_entries s) = active_index s"
  "global_offset (clear_evaluation s) = global_offset s" "global_offset (reset_entries s) = global_offset s"
  "ms_plugins (clear_evaluation s) = ms_plugins s" "active_tag (clear_evaluation s) = active_tag s"
  "waitfor_at_start_of_line (reset_entries s) = waitfor_at_start_of_line s"
  by (simp_all add: clear_evaluation_def reset_entries_def)

lemma read_evaluated_simps [simp]:
  "waitfor_pending (read_evaluated c b i s) = waitfor_pending s" "pending_chars (read_evaluated c b i s) = pending_chars s"
  "waitfor_active (read_evaluated c b i s) = waitfor_active s" "active_index (read_evaluated c b i s) = active_index s"
  "global_offset (read_evaluated c b i s) = global_offset s"
  by (simp_all add: read_evaluated_def Let_def split: prod.split)

lemma decide_plugins_keeps:
  "waitfor_pending (fst (decide_plugins i s k)) = waitfor_pending s \<and> pending_chars (fst (decide_plugins i s k)) = pending_chars s"
  by (simp add: decide_plugins_def Let_def split: option.split)

lemma process_evaluation_keeps:
  "waitfor_pending (fst (process_evaluation c b i s k)) = waitfor_pending s
   \<and> pending_chars (fst (process_evaluation c b i s k)) = pending_chars s"
  by (simp add: process_evaluation_def Let_def decide_plugins_keeps split: option.split)

text \<open>A step consumes the character, or holds it in a plugin that waits, or ends the waiting.\<close>

definition backlog :: "MarkdownSession \<Rightarrow> nat" where
  "backlog s = length (waitfor_pending s) + length (pending_chars s)"

lemma process_waitfor_progress:
  assumes "waitfor_active s" and "process_waitfor c i s k = (s', k')"
  shows "backlog s' \<le> backlog s
    \<or> backlog s' = Suc (backlog s) \<and> length (pending_chars s') = length (pending_chars s) \<and> stage s' = 1
    \<or> backlog s' \<le> Suc (backlog s) \<and> stage s' = 0"
proof (cases "active_index s")
  case None
  with assms show ?thesis by (auto simp: process_waitfor_def backlog_def)
next
  case (Some a)
  obtain emit p where r: "plugin_process (entry_plugin (ms_plugins s ! a)) c (waitfor_at_start_of_line s) = (emit, p)" by fastforce
  obtain replay k1 where settled: "settle_pending (waitfor_pending s) [] k = (replay, k1)" by fastforce
  then have "length replay \<le> length (waitfor_pending s)"
    using settle_pending_length [of "waitfor_pending s" "[]" k] by simp
  with assms Some r settled show ?thesis
    by (auto simp: process_waitfor_def backlog_def stage_def Let_def split: if_splits)
qed

lemma process_active_progress:
  assumes "\<not> waitfor_active s" and "active_index s = Some a" and "process_active c b i a s k = (s', k')"
  shows "backlog s' \<le> backlog s
    \<or> backlog s' = Suc (backlog s) \<and> length (pending_chars s') = length (pending_chars s) \<and> stage s' = 1"
  using assms by (auto simp: process_active_def backlog_def stage_def Let_def split: if_splits prod.splits)

lemma process_one_progress:
  assumes "process_one c b f s k = (s', k')"
  shows "backlog s' \<le> backlog s
    \<or> backlog s' = Suc (backlog s) \<and> length (pending_chars s') = length (pending_chars s) \<and> stage s' = 1 \<and> 0 < stage s
    \<or> backlog s' \<le> Suc (backlog s) \<and> stage s' = 0 \<and> stage s = 1"
proof -
  let ?s = "if f = None then s\<lparr>global_offset := global_offset s + 1\<rparr> else s"
  let ?i = "case f of Some g \<Rightarrow> g | None \<Rightarrow> global_offset s"
  have same: "backlog ?s = backlog s" "stage ?s = stage s" "pending_chars ?s = pending_chars s"
    "waitfor_active ?s = waitfor_active s" "active_index ?s = active_index s"
    by (simp_all add: backlog_def stage_def)
  have step: "(if waitfor_active s then process_waitfor c ?i ?s k
      else case active_index s of Some a \<Rightarrow> process_active c b ?i a ?s k | None \<Rightarrow> process_evaluation c b ?i ?s k) = (s', k')"
    using assms by (simp only: process_one_def Let_def same)
  show ?thesis
  proof (cases "waitfor_active s")
    case True
    with step process_waitfor_progress [of ?s c ?i k s' k'] same show ?thesis
      by (simp add: stage_def [of s])
  next
    case False
    show ?thesis
    proof (cases "active_index s")
      case None
      with step False have "process_evaluation c b ?i ?s k = (s', k')" by simp
      with process_evaluation_keeps [of c b ?i ?s k] have "backlog s' = backlog ?s" by (simp add: backlog_def)
      with same(1) show ?thesis by simp
    next
      case (Some a)
      with step False process_active_progress [of ?s a c b ?i k s' k'] same show ?thesis
        by (simp add: stage_def [of s])
    qed
  qed
qed

text \<open>Characters put back by a waiting plugin are read before the rest of the chunk.\<close>

function push_loop :: "MarkdownSession \<Rightarrow> rchar list \<Rightarrow> bool \<Rightarrow> sink \<Rightarrow> MarkdownSession \<times> bool \<times> sink" where
  "push_loop s cs b k = (case pending_chars s of
     p # ps \<Rightarrow> (let r = process_one (pend_char p) (pend_at_start p) (Some (pend_index p)) (s\<lparr>pending_chars := ps\<rparr>) k
                in push_loop (fst r) cs (pend_char p = newline) (snd r))
   | [] \<Rightarrow> (case cs of
       [] \<Rightarrow> (s, b, k)
     | c # cs' \<Rightarrow> (let r = process_one c b None s k in push_loop (fst r) cs' (c = newline) (snd r))))"
  by pat_completeness auto
termination
proof (relation "measures [\<lambda>(s, cs, b, k). backlog s + length cs, \<lambda>(s, cs, b, k). stage s,
    \<lambda>(s, cs, b, k). length (pending_chars s) + length cs]", goal_cases)
  case (3 s cs b k p ps r)
  let ?s = "s\<lparr>pending_chars := ps\<rparr>"
  have "backlog s = Suc (backlog ?s)" "stage ?s = stage s" "length (pending_chars s) = Suc (length ps)"
    using 3(1) by (simp_all add: backlog_def stage_def)
  then show ?case
    using process_one_progress [of "pend_char p" "pend_at_start p" "Some (pend_index p)" ?s k "fst r" "snd r"] 3(2) by auto
next
  case (2 s cs b k c cs' r)
  then show ?case
    using process_one_progress [of c b None s k "fst r" "snd r"] by auto
qed simp

declare push_loop.simps [simp del]

definition empty_sink :: sink where
  "empty_sink = \<lparr>sink_out = [], sink_run = run_default\<rparr>"

definition session_push :: "rchar list \<Rightarrow> MarkdownSession \<Rightarrow> Segment list \<times> MarkdownSession" where
  "session_push chunk s =
     (let (s, b, k) = push_loop s chunk (ms_at_start_of_line s) empty_sink
      in (sink_out (flush_run k), s\<lparr>ms_at_start_of_line := b\<rparr>))"

definition session_finish :: "MarkdownSession \<Rightarrow> Segment list \<times> MarkdownSession" where
  "session_finish s =
     (let tag = (case rule_length (rule_prefix s) of Some n \<Rightarrow> if 3 \<le> n then HorizontalRuleT else PlainTextT | None \<Rightarrow> PlainTextT);
          k = (case eval_start_global s of Some g \<Rightarrow> emit_range tag (eval_indices s g) empty_sink | None \<Rightarrow> empty_sink);
          s = clear_evaluation s;
          k = fold (\<lambda>p. emit_index (active_tag s) (wait_index p)) (waitfor_pending s) k
      in (sink_out (flush_run k), s\<lparr>waitfor_pending := [], waitfor_active := False\<rparr>))"

section \<open>The sessions of the renderer\<close>

definition block_plugins :: "PluginEntry list" where
  "block_plugins =
     [\<lparr>entry_plugin = FootnotePlugin footnote_default, entry_tag = FootnoteDefinitionT\<rparr>,
      \<lparr>entry_plugin = HeaderPlugin (header_new True), entry_tag = HeaderT\<rparr>,
      \<lparr>entry_plugin = FencedCodePlugin (fenced_new True), entry_tag = CodeBlockT\<rparr>,
      \<lparr>entry_plugin = BlockQuotePlugin (quote_new False), entry_tag = BlockQuoteT\<rparr>,
      \<lparr>entry_plugin = OrderedListPlugin (list_new True), entry_tag = OrderedListT\<rparr>,
      \<lparr>entry_plugin = UnorderedListPlugin (list_new True), entry_tag = UnorderedListT\<rparr>,
      \<lparr>entry_plugin = BlockLatexPlugin (math_new False), entry_tag = BlockLatexT\<rparr>,
      \<lparr>entry_plugin = BracketLatexPlugin (math_new True), entry_tag = BlockLatexT\<rparr>,
      \<lparr>entry_plugin = TablePlugin (table_new True), entry_tag = TableT\<rparr>,
      \<lparr>entry_plugin = ImagePlugin (image_new True), entry_tag = ImageT\<rparr>,
      \<lparr>entry_plugin = XmlPlugin (xml_new True), entry_tag = XmlBlockT\<rparr>]"

definition create_block_session :: MarkdownSession where
  "create_block_session = session_new block_plugins"

definition create_xml_content_session :: MarkdownSession where
  "create_xml_content_session = session_new [\<lparr>entry_plugin = XmlPlugin (xml_new False), entry_tag = XmlBlockT\<rparr>]"

end
