(* ===== verification/Markdown_Inline.thy ===== *)
theory Markdown_Inline
  imports Native_Markdown
begin

text \<open>
  The incremental inline parser (\<open>streamnative/MarkdownInlineStream.rs\<close>): a machine whose mode holds only
  undecided text, and the tokens it emits.

  The stack of open styles is a list, its top first.  \<open>char::is_alphanumeric\<close>, a table of the Unicode
  database, is the argument \<open>alnum\<close>.  A link parses its label with a parser one level deeper: the
  argument \<open>sub\<close> of a step is that parser, \<open>None\<close> when it does not return.
\<close>

section \<open>Tokens\<close>

datatype InlineKind = TextKind | BoldKind | ItalicKind | StrikeKind | CodeKind | LatexKind | LinkKind | FootnoteReferenceKind

fun processor_type :: "InlineKind \<Rightarrow> MarkdownProcessorType" where
  "processor_type TextKind = PlainTextT"
| "processor_type BoldKind = BoldT"
| "processor_type ItalicKind = ItalicT"
| "processor_type StrikeKind = StrikethroughT"
| "processor_type CodeKind = InlineCodeT"
| "processor_type LatexKind = InlineLatexT"
| "processor_type LinkKind = LinkT"
| "processor_type FootnoteReferenceKind = FootnoteReferenceT"

datatype InlineToken = OpenToken InlineKind "rchar list option" | CloseToken | TextToken InlineKind "rchar list"

datatype Mode =
    TextMode
  | EscapeMode
  | DelimiterMode rchar nat "rchar option"
  | CodeMode nat nat
  | LatexMode bool bool
  | LabelMode "rchar list" nat bool
  | AfterLabelMode "rchar list"
  | DestinationMode "rchar list" "rchar list" nat bool
  | UrlPrefixMode "rchar list"
  | UrlMode "rchar list"

type_synonym style = "rchar \<times> nat \<times> InlineKind"

record MarkdownInlineStream =
  in_mode :: Mode
  in_styles :: "style list"
  in_previous :: "rchar option"
  in_depth :: nat

definition inline_new :: "nat \<Rightarrow> MarkdownInlineStream" where
  "inline_new d = \<lparr>in_mode = TextMode, in_styles = [], in_previous = None, in_depth = d\<rparr>"

text \<open>A character joins the last token when that is text of its kind.\<close>

definition text_token :: "InlineKind \<Rightarrow> rchar \<Rightarrow> InlineToken list \<Rightarrow> InlineToken list" where
  "text_token kind c out =
     (if out = [] then [TextToken kind [c]]
      else case last out of
          TextToken k s \<Rightarrow> if k = kind then butlast out @ [TextToken k (s @ [c])] else out @ [TextToken kind [c]]
        | _ \<Rightarrow> out @ [TextToken kind [c]])"

definition literal_tokens :: "rchar list \<Rightarrow> InlineToken list \<Rightarrow> InlineToken list" where
  "literal_tokens cs out = fold (text_token TextKind) cs out"

definition repeat_token :: "InlineKind \<Rightarrow> nat \<Rightarrow> rchar \<Rightarrow> InlineToken list \<Rightarrow> InlineToken list" where
  "repeat_token kind n c out = fold (text_token kind) (replicate n c) out"

section \<open>Characters\<close>

definition is_ascii_punctuation :: "rchar \<Rightarrow> bool" where
  "is_ascii_punctuation c \<longleftrightarrow> (33 \<le> c \<and> c \<le> 47) \<or> (58 \<le> c \<and> c \<le> 64) \<or> (91 \<le> c \<and> c \<le> 96) \<or> (123 \<le> c \<and> c \<le> 126)"

definition backslash :: rchar where "backslash = 0x5C"
definition backtick :: rchar where "backtick = 0x60"

section \<open>Links\<close>

fun destination_end :: "bool \<Rightarrow> rchar list \<Rightarrow> rchar list" where
  "destination_end escaped [] = []"
| "destination_end escaped (c # cs) =
     (if \<not> escaped \<and> is_whitespace c then [] else c # destination_end (\<not> escaped \<and> c = backslash) cs)"

definition link_destination :: "rchar list \<Rightarrow> rchar list" where
  "link_destination raw =
     (let raw = dropWhile is_whitespace (rev (dropWhile is_whitespace (rev raw)))
      in case raw of
          c # rest \<Rightarrow> if c = ch CHR ''<'' then takeWhile (\<lambda>c. c \<noteq> ch CHR ''>'') rest else destination_end False raw
        | [] \<Rightarrow> [])"

text \<open>\<open>.,;:!?\<close> and their full-width forms.\<close>

definition trailing_punctuation :: "rchar list" where
  "trailing_punctuation = chars ''.,;:!?'' @ [0xFF0C, 0x3002, 0x3001, 0xFF1B, 0xFF1A, 0xFF01, 0xFF1F]"

definition paren_balance :: "rchar list \<Rightarrow> int" where
  "paren_balance url = foldl (\<lambda>b c. b + (if c = ch CHR ''('' then 1 else if c = ch CHR '')'' then -1 else 0)) 0 url"

text \<open>On the reversed address; what is cut off is collected in the order in which it is popped.\<close>

fun trim_address :: "int \<Rightarrow> rchar list \<Rightarrow> rchar list \<Rightarrow> rchar list \<times> rchar list" where
  "trim_address balance [] trailing = ([], trailing)"
| "trim_address balance (c # cs) trailing =
     (if c \<in> set trailing_punctuation \<or> c = ch CHR '')'' \<and> balance < 0
      then trim_address (if c = ch CHR '')'' then balance + 1 else balance) cs (trailing @ [c])
      else (c # cs, trailing))"

definition autolink :: "rchar list \<Rightarrow> InlineToken list \<Rightarrow> InlineToken list" where
  "autolink url out =
     (let (kept, trailing) = trim_address (paren_balance url) (rev url) [];
          url = rev kept;
          out = out @ [OpenToken LinkKind (Some url)];
          out = literal_tokens url out;
          out = out @ [CloseToken]
      in fold (text_token TextKind) (rev trailing) out)"

section \<open>Delimiters\<close>

fun close_styles :: "rchar \<Rightarrow> nat \<Rightarrow> style list \<Rightarrow> InlineToken list \<Rightarrow> nat \<times> style list \<times> InlineToken list" where
  "close_styles c n [] out = (n, [], out)"
| "close_styles c n ((marker, width, kind) # styles) out =
     (if marker \<noteq> c \<or> n < width \<or> width = 1 \<and> n = 2 then (n, (marker, width, kind) # styles, out)
      else close_styles c (n - width) styles (out @ [CloseToken]))"

definition delimiter_widths :: "rchar \<Rightarrow> nat \<Rightarrow> nat list" where
  "delimiter_widths c n =
     (if c \<in> {ch CHR ''*'', ch CHR ''_''} \<and> n = 1 then [1]
      else if c \<in> {ch CHR ''*'', ch CHR ''_''} \<and> n = 2 then [2]
      else if c \<in> {ch CHR ''*'', ch CHR ''_''} \<and> n = 3 then [2, 1]
      else if c = ch CHR ''~'' \<and> n = 2 then [2] else [])"

definition width_kind :: "rchar \<Rightarrow> nat \<Rightarrow> InlineKind" where
  "width_kind c w = (if c = ch CHR ''~'' then StrikeKind else if w = 2 then BoldKind else ItalicKind)"

definition open_styles :: "rchar \<Rightarrow> nat list \<Rightarrow> style list \<Rightarrow> InlineToken list \<Rightarrow> style list \<times> InlineToken list" where
  "open_styles c ws styles out =
     (rev (map (\<lambda>w. (c, w, width_kind c w)) ws) @ styles, out @ map (\<lambda>w. OpenToken (width_kind c w) None) ws)"

definition is_some_and :: "'a option \<Rightarrow> ('a \<Rightarrow> bool) \<Rightarrow> bool" where
  "is_some_and x P = (case x of Some y \<Rightarrow> P y | None \<Rightarrow> False)"

definition delimiter :: "(rchar \<Rightarrow> bool) \<Rightarrow> rchar \<Rightarrow> nat \<Rightarrow> rchar option \<Rightarrow> rchar option
    \<Rightarrow> style list \<Rightarrow> InlineToken list \<Rightarrow> style list \<times> InlineToken list" where
  "delimiter alnum c n before after styles out =
     (let can_close = is_some_and before (\<lambda>c. \<not> is_whitespace c);
          can_open = is_some_and after (\<lambda>c. \<not> is_whitespace c)
      in if c = ch CHR ''_'' \<and> is_some_and before alnum \<and> is_some_and after alnum
         then (styles, repeat_token TextKind n c out)
         else
           let (n, styles, out) = (if can_close then close_styles c n styles out else (n, styles, out));
               ws = (if can_open \<and> length styles < 12 then delimiter_widths c n else [])
           in if ws \<noteq> [] \<and> length styles + length ws \<le> 12 then open_styles c ws styles out
              else (styles, repeat_token TextKind n c out))"

section \<open>Steps\<close>

definition normal :: "(rchar \<Rightarrow> bool) \<Rightarrow> rchar \<Rightarrow> MarkdownInlineStream \<Rightarrow> InlineToken list
    \<Rightarrow> MarkdownInlineStream \<times> InlineToken list" where
  "normal alnum c s out =
     (if c = backslash then (s\<lparr>in_mode := EscapeMode\<rparr>, out)
      else if c \<in> {ch CHR ''*'', ch CHR ''_'', ch CHR ''~'', backtick}
      then (s\<lparr>in_mode := DelimiterMode c 1 (in_previous s)\<rparr>, out)
      else if c = ch CHR ''$'' then (s\<lparr>in_mode := LatexMode False False\<rparr>, out)
      else if c = ch CHR ''['' \<and> in_depth s = 0 then (s\<lparr>in_mode := LabelMode [] 0 False\<rparr>, out)
      else if c \<in> {ch CHR ''h'', ch CHR ''H''} \<and> in_depth s = 0 \<and> \<not> is_some_and (in_previous s) alnum
      then (s\<lparr>in_mode := UrlPrefixMode [c]\<rparr>, out)
      else (s, text_token TextKind c out))"

definition code_step :: "(rchar \<Rightarrow> bool) \<Rightarrow> rchar \<Rightarrow> nat \<Rightarrow> nat \<Rightarrow> MarkdownInlineStream \<Rightarrow> InlineToken list
    \<Rightarrow> MarkdownInlineStream \<times> InlineToken list" where
  "code_step alnum c ticks pending s out =
     (if c = backtick then (s\<lparr>in_mode := CodeMode ticks (pending + 1)\<rparr>, out)
      else if pending = ticks then normal alnum c s out
      else (s\<lparr>in_mode := CodeMode ticks 0\<rparr>, text_token CodeKind c (repeat_token CodeKind pending backtick out)))"

definition latex_step :: "rchar \<Rightarrow> bool \<Rightarrow> bool \<Rightarrow> MarkdownInlineStream \<Rightarrow> InlineToken list
    \<Rightarrow> MarkdownInlineStream \<times> InlineToken list" where
  "latex_step c paren escape s out =
     (if paren \<and> escape \<and> c = ch CHR '')'' \<or> \<not> paren \<and> c = ch CHR ''$'' then (s, out)
      else let out = (if escape then text_token LatexKind backslash out else out)
           in if paren \<and> c = backslash then (s\<lparr>in_mode := LatexMode paren True\<rparr>, out)
              else (s\<lparr>in_mode := LatexMode paren False\<rparr>, text_token LatexKind c out))"

definition footnote_label :: "rchar list \<Rightarrow> rchar list option" where
  "footnote_label raw =
     (case raw of
        c # label \<Rightarrow> if c = ch CHR ''^'' \<and> label \<noteq> []
            \<and> \<not> list_ex (\<lambda>c. is_whitespace c \<or> c \<in> {ch CHR ''['', ch CHR '']'', backslash}) label
          then Some label else None
      | [] \<Rightarrow> None)"

definition label_step :: "rchar \<Rightarrow> rchar list \<Rightarrow> nat \<Rightarrow> bool \<Rightarrow> MarkdownInlineStream \<Rightarrow> InlineToken list
    \<Rightarrow> MarkdownInlineStream \<times> InlineToken list" where
  "label_step c raw depth escaped s out =
     (if \<not> escaped \<and> c = ch CHR '']'' \<and> depth = 0
      then case footnote_label raw of
          Some label \<Rightarrow> (s, literal_tokens label (out @ [OpenToken FootnoteReferenceKind None]) @ [CloseToken])
        | None \<Rightarrow> (s\<lparr>in_mode := AfterLabelMode raw\<rparr>, out)
      else
        let depth = (if \<not> escaped \<and> c = ch CHR ''['' then depth + 1 else depth);
            depth = (if \<not> escaped \<and> c = ch CHR '']'' then depth - 1 else depth)
        in (s\<lparr>in_mode := LabelMode (raw @ [c]) depth (\<not> escaped \<and> c = backslash)\<rparr>, out))"

definition destination_step :: "(nat \<Rightarrow> rchar list \<Rightarrow> InlineToken list option) \<Rightarrow> rchar \<Rightarrow> rchar list \<Rightarrow> rchar list
    \<Rightarrow> nat \<Rightarrow> bool \<Rightarrow> MarkdownInlineStream \<Rightarrow> InlineToken list \<Rightarrow> (MarkdownInlineStream \<times> InlineToken list) option" where
  "destination_step sub c label url depth escaped s out =
     (if \<not> escaped \<and> c = ch CHR '')'' \<and> depth = 0
      then Option.bind (sub (in_depth s + 1) label) (\<lambda>inner.
        Some (s, out @ [OpenToken LinkKind (Some (link_destination url))] @ inner @ [CloseToken]))
      else
        let depth = (if \<not> escaped \<and> c = ch CHR ''('' then depth + 1 else depth);
            depth = (if \<not> escaped \<and> c = ch CHR '')'' then depth - 1 else depth)
        in Some (s\<lparr>in_mode := DestinationMode label (url @ [c]) depth (\<not> escaped \<and> c = backslash)\<rparr>, out))"

definition prefix_step :: "(rchar \<Rightarrow> bool) \<Rightarrow> rchar \<Rightarrow> rchar list \<Rightarrow> MarkdownInlineStream \<Rightarrow> InlineToken list
    \<Rightarrow> MarkdownInlineStream \<times> InlineToken list" where
  "prefix_step alnum c pre s out =
     (let lower = map to_ascii_lowercase (pre @ [c])
      in if lower = chars ''http://'' \<or> lower = chars ''https://'' then (s\<lparr>in_mode := UrlMode (pre @ [c])\<rparr>, out)
         else if prefix lower (chars ''http://'') \<or> prefix lower (chars ''https://'')
         then (s\<lparr>in_mode := UrlPrefixMode (pre @ [c])\<rparr>, out)
         else normal alnum c s (literal_tokens pre out))"

definition ends_address :: "rchar \<Rightarrow> bool" where
  "ends_address c \<longleftrightarrow> is_whitespace c \<or> c \<in> set (chars ''<>[]*~'') \<or> c = backtick"

text \<open>The mode is taken out first, so that a step that ends it leaves \<open>Text\<close>.\<close>

definition inline_step :: "(rchar \<Rightarrow> bool) \<Rightarrow> (nat \<Rightarrow> rchar list \<Rightarrow> InlineToken list option) \<Rightarrow> rchar
    \<Rightarrow> MarkdownInlineStream \<Rightarrow> InlineToken list \<Rightarrow> (MarkdownInlineStream \<times> InlineToken list) option" where
  "inline_step alnum sub c s out =
     (let m = in_mode s; s = s\<lparr>in_mode := TextMode\<rparr>
      in case m of
          TextMode \<Rightarrow> Some (normal alnum c s out)
        | EscapeMode \<Rightarrow>
            Some (if c = ch CHR ''('' then (s\<lparr>in_mode := LatexMode True False\<rparr>, out)
                  else if is_ascii_punctuation c then (s, text_token TextKind c out)
                  else normal alnum c s (text_token TextKind backslash out))
        | DelimiterMode marker n before \<Rightarrow>
            Some (if c = marker then (s\<lparr>in_mode := DelimiterMode marker (n + 1) before\<rparr>, out)
                  else if marker = backtick then code_step alnum c n 0 s out
                  else let (styles, out) = delimiter alnum marker n before (Some c) (in_styles s) out
                       in normal alnum c (s\<lparr>in_styles := styles\<rparr>) out)
        | CodeMode ticks pending \<Rightarrow> Some (code_step alnum c ticks pending s out)
        | LatexMode paren escape \<Rightarrow> Some (latex_step c paren escape s out)
        | LabelMode raw depth escaped \<Rightarrow> Some (label_step c raw depth escaped s out)
        | AfterLabelMode label \<Rightarrow>
            Some (if c = ch CHR ''('' then (s\<lparr>in_mode := DestinationMode label [] 0 False\<rparr>, out)
                  else normal alnum c s
                    (literal_tokens (chars '']'') (literal_tokens label (literal_tokens (chars ''['') out))))
        | DestinationMode label url depth escaped \<Rightarrow> destination_step sub c label url depth escaped s out
        | UrlPrefixMode pre \<Rightarrow> Some (prefix_step alnum c pre s out)
        | UrlMode url \<Rightarrow>
            Some (if ends_address c then normal alnum c s (autolink url out)
                  else (s\<lparr>in_mode := UrlMode (url @ [c])\<rparr>, out)))"

fun inline_loop :: "(rchar \<Rightarrow> bool) \<Rightarrow> (nat \<Rightarrow> rchar list \<Rightarrow> InlineToken list option) \<Rightarrow> rchar list
    \<Rightarrow> MarkdownInlineStream \<Rightarrow> InlineToken list \<Rightarrow> (MarkdownInlineStream \<times> InlineToken list) option" where
  "inline_loop alnum sub [] s out = Some (s, out)"
| "inline_loop alnum sub (c # cs) s out =
     Option.bind (inline_step alnum sub c s out) (\<lambda>(s, out). inline_loop alnum sub cs (s\<lparr>in_previous := Some c\<rparr>) out)"

text \<open>The undecided text, as it stands.\<close>

definition inline_flush :: "(rchar \<Rightarrow> bool) \<Rightarrow> MarkdownInlineStream \<Rightarrow> style list \<times> InlineToken list" where
  "inline_flush alnum s =
     (case in_mode s of
        TextMode \<Rightarrow> (in_styles s, [])
      | EscapeMode \<Rightarrow> (in_styles s, literal_tokens [backslash] [])
      | DelimiterMode c n before \<Rightarrow>
          if c = backtick then (in_styles s, repeat_token TextKind n c [])
          else delimiter alnum c n before None (in_styles s) []
      | CodeMode ticks pending \<Rightarrow> (in_styles s, if pending \<noteq> ticks then repeat_token CodeKind pending backtick [] else [])
      | LatexMode paren escape \<Rightarrow> (in_styles s, if escape then text_token LatexKind backslash [] else [])
      | LabelMode raw depth escaped \<Rightarrow> (in_styles s, literal_tokens raw (literal_tokens (chars ''['') []))
      | AfterLabelMode label \<Rightarrow>
          (in_styles s, literal_tokens (chars '']'') (literal_tokens label (literal_tokens (chars ''['') [])))
      | DestinationMode label url depth escaped \<Rightarrow>
          (in_styles s, literal_tokens url (literal_tokens (chars ''](''  ) (literal_tokens label (literal_tokens (chars ''['') []))))
      | UrlPrefixMode pre \<Rightarrow> (in_styles s, literal_tokens pre [])
      | UrlMode url \<Rightarrow> (in_styles s, autolink url []))"

definition inline_finish :: "(rchar \<Rightarrow> bool) \<Rightarrow> MarkdownInlineStream \<Rightarrow> MarkdownInlineStream \<times> InlineToken list" where
  "inline_finish alnum s =
     (let (styles, out) = inline_flush alnum s
      in (s\<lparr>in_mode := TextMode, in_styles := []\<rparr>, out @ map (\<lambda>_. CloseToken) styles))"

text \<open>The parser of a label, with at most \<open>n\<close> levels of parsers below each other.\<close>

fun parse_label :: "(rchar \<Rightarrow> bool) \<Rightarrow> nat \<Rightarrow> nat \<Rightarrow> rchar list \<Rightarrow> InlineToken list option" where
  "parse_label alnum 0 depth label = None"
| "parse_label alnum (Suc n) depth label =
     Option.bind (inline_loop alnum (parse_label alnum n) label (inline_new depth) []) (\<lambda>(s, out).
       Some (out @ snd (inline_finish alnum s)))"

definition label_levels :: nat where "label_levels = 1"

definition inline_push :: "(rchar \<Rightarrow> bool) \<Rightarrow> rchar list \<Rightarrow> MarkdownInlineStream \<Rightarrow> (MarkdownInlineStream \<times> InlineToken list) option" where
  "inline_push alnum content s = inline_loop alnum (parse_label alnum label_levels) content s []"

definition create_inline_session :: MarkdownInlineStream where
  "create_inline_session = inline_new 0"

end
