(* ===== verification/Inline_Tokens.thy ===== *)
theory Inline_Tokens
  imports Markdown_Inline
begin

text \<open>
  What the inline parser guarantees about its tokens: a push always returns, opening and closing
  tokens match and are nested to a bounded depth, the text of the tokens is taken from the input in
  order, and cutting the input into chunks changes only how text tokens are cut.
\<close>

section \<open>Tokens as events\<close>

datatype inline_event = CharEvent InlineKind rchar | OpenEvent InlineKind "rchar list option" | CloseEvent

fun token_events :: "InlineToken \<Rightarrow> inline_event list" where
  "token_events (TextToken k s) = map (CharEvent k) s"
| "token_events (OpenToken k url) = [OpenEvent k url]"
| "token_events CloseToken = [CloseEvent]"

definition events_of :: "InlineToken list \<Rightarrow> inline_event list" where
  "events_of toks = concat (map token_events toks)"

fun event_text :: "inline_event list \<Rightarrow> rchar list" where
  "event_text [] = []"
| "event_text (CharEvent k c # es) = c # event_text es"
| "event_text (OpenEvent k u # es) = event_text es"
| "event_text (CloseEvent # es) = event_text es"

text \<open>The depth after the events, if they close nothing that is not open and stay within depth \<open>m\<close>.\<close>

fun nest_within :: "nat \<Rightarrow> nat \<Rightarrow> inline_event list \<Rightarrow> nat option" where
  "nest_within m d [] = Some d"
| "nest_within m d (CharEvent k c # es) = nest_within m d es"
| "nest_within m d (OpenEvent k u # es) = (if d < m then nest_within m (Suc d) es else None)"
| "nest_within m d (CloseEvent # es) = (if d = 0 then None else nest_within m (d - 1) es)"

lemma events_of_simps [simp]:
  "events_of [] = []" "events_of (a @ b) = events_of a @ events_of b" "events_of (t # ts) = token_events t @ events_of ts"
  by (simp_all add: events_of_def)

lemma event_text_append [simp]: "event_text (a @ b) = event_text a @ event_text b"
  by (induction a rule: event_text.induct) simp_all

lemma event_text_chars [simp]: "event_text (map (CharEvent k) cs) = cs"
  by (induction cs) simp_all

lemma nest_within_append: "nest_within m d (a @ b) = Option.bind (nest_within m d a) (\<lambda>d. nest_within m d b)"
  by (induction m d a rule: nest_within.induct) simp_all

lemma nest_within_chars [simp]: "nest_within m d (map (CharEvent k) cs) = Some d"
  by (induction cs) simp_all

lemma event_text_replicate [simp]: "event_text (replicate n (CharEvent k c)) = replicate n c"
  using event_text_chars [of k "replicate n c"] by simp

lemma nest_within_replicate [simp]: "nest_within m d (replicate n (CharEvent k c)) = Some d"
  using nest_within_chars [of m d k "replicate n c"] by simp

lemma nest_within_mono: "nest_within m d es = Some e \<Longrightarrow> m + k \<le> m' \<Longrightarrow> nest_within m' (d + k) es = Some (e + k)"
  by (induction m d es rule: nest_within.induct) (auto split: if_splits)

section \<open>What the building blocks add\<close>

definition adds :: "(InlineToken list \<Rightarrow> InlineToken list) \<Rightarrow> inline_event list \<Rightarrow> bool" where
  "adds f es \<longleftrightarrow> (\<forall>out. events_of (f out) = events_of out @ es)"

lemma adds_id: "adds (\<lambda>out. out) []"
  by (simp add: adds_def)

lemma adds_comp: "adds f a \<Longrightarrow> adds g b \<Longrightarrow> adds (\<lambda>out. g (f out)) (a @ b)"
  by (simp add: adds_def)

lemma adds_tokens: "adds (\<lambda>out. out @ toks) (events_of toks)"
  by (simp add: adds_def)

lemma adds_text: "adds (text_token k c) [CharEvent k c]"
  unfolding adds_def
proof
  fix out
  show "events_of (text_token k c out) = events_of out @ [CharEvent k c]"
    by (cases out rule: rev_cases) (auto simp: text_token_def split: InlineToken.split)
qed

lemma adds_fold_text: "adds (fold (text_token k) cs) (map (CharEvent k) cs)"
proof (induction cs)
  case (Cons c cs)
  then have "adds (\<lambda>out. fold (text_token k) cs (text_token k c out)) ([CharEvent k c] @ map (CharEvent k) cs)"
    by (intro adds_comp adds_text)
  then show ?case by (simp add: adds_def)
qed (simp add: adds_def)

lemma adds_literal: "adds (literal_tokens cs) (map (CharEvent TextKind) cs)"
  using adds_fold_text [of TextKind cs] by (simp add: adds_def literal_tokens_def)

lemma adds_repeat: "adds (repeat_token k n c) (map (CharEvent k) (replicate n c))"
  using adds_fold_text [of k "replicate n c"] by (simp add: adds_def repeat_token_def)

lemma trim_address_split: "trim_address b cs tr = (kept, trailing) \<Longrightarrow> rev kept @ rev trailing = rev cs @ rev tr"
  by (induction b cs tr rule: trim_address.induct) (auto split: if_splits)

lemma adds_autolink:
  "\<exists>es. adds (autolink url) es \<and> event_text es = url \<and> (\<forall>m d. d < m \<longrightarrow> nest_within m d es = Some d)"
proof -
  obtain kept trailing where t: "trim_address (paren_balance url) (rev url) [] = (kept, trailing)" by fastforce
  let ?es = "[OpenEvent LinkKind (Some (rev kept))] @ map (CharEvent TextKind) (rev kept) @ [CloseEvent]
    @ map (CharEvent TextKind) (rev trailing)"
  have "adds (autolink url) ?es"
    using adds_fold_text [of TextKind "rev trailing"] adds_literal [of "rev kept"]
    by (simp add: adds_def autolink_def t Let_def)
  moreover have "event_text ?es = url" using trim_address_split [OF t] by simp
  moreover have "nest_within m d ?es = Some d" if "d < m" for m d using that by (simp add: nest_within_append)
  ultimately show ?thesis by blast
qed

lemma close_styles_adds:
  "\<exists>n' st' k. n' \<le> n \<and> length st = k + length st' \<and> (\<forall>out. close_styles c n st out = (n', st', out @ replicate k CloseToken))"
proof (induction st arbitrary: n)
  case (Cons s st)
  obtain marker width kind where s: "s = (marker, width, kind)" by (cases s) auto
  show ?case
  proof (cases "marker \<noteq> c \<or> n < width \<or> width = 1 \<and> n = 2")
    case True
    then show ?thesis by (intro exI [of _ n] exI [of _ "s # st"] exI [of _ 0]) (auto simp: s)
  next
    case False
    obtain n' st' k where IH: "n' \<le> n - width" "length st = k + length st'"
      "\<And>out. close_styles c (n - width) st out = (n', st', out @ replicate k CloseToken)" using Cons.IH by blast
    then show ?thesis
      using False by (intro exI [of _ n'] exI [of _ st'] exI [of _ "Suc k"]) (auto simp: s)
  qed
qed simp

lemma nest_closes: "nest_within m (k + d) (replicate k CloseEvent) = Some d"
  by (induction k) simp_all

lemma nest_opens: "d + length ws \<le> m \<Longrightarrow> nest_within m d (map (\<lambda>w. OpenEvent (f w) u) ws) = Some (d + length ws)"
  by (induction ws arbitrary: d) simp_all

lemma event_text_closes [simp]: "event_text (replicate k CloseEvent) = []"
  by (induction k) simp_all

lemma event_text_opens [simp]: "event_text (map (\<lambda>w. OpenEvent (f w) u) ws) = []"
  by (induction ws) simp_all

lemma events_of_closes [simp]: "events_of (replicate k CloseToken) = replicate k CloseEvent"
  by (induction k) simp_all

lemma events_of_opens [simp]: "events_of (map (\<lambda>w. OpenToken (f w) u) ws) = map (\<lambda>w. OpenEvent (f w) u) ws"
  by (induction ws) simp_all

lemma subseq_replicate: "k \<le> n \<Longrightarrow> subseq (replicate k c) (replicate n c)"
  by (metis le_add_diff_inverse replicate_add list_emb_append2 subseq_order.order_refl subseq_rev_drop_many prefix_imp_subseq prefixI)

lemma subseq_middle: "subseq l (a @ l @ b)"
  by (intro subseq_drop_many subseq_rev_drop_many) simp

lemma delimiter_adds:
  assumes "length st \<le> 12" and "12 \<le> m"
  obtains st' g es where "\<And>out. delimiter alnum c n b a st out = (st', g out)" and "adds g es" and "length st' \<le> 12"
    and "subseq (event_text es) (replicate n c)" and "nest_within m (length st) es = Some (length st')"
proof (cases "c = ch CHR ''_'' \<and> is_some_and b alnum \<and> is_some_and a alnum")
  case True
  then have "\<And>out. delimiter alnum c n b a st out = (st, repeat_token TextKind n c out)"
    by (simp add: delimiter_def Let_def)
  moreover note adds_repeat [of TextKind n c]
  ultimately show ?thesis by (rule that) (use assms in simp_all)
next
  case False
  let ?closed = "\<lambda>out. if is_some_and b (\<lambda>c. \<not> is_whitespace c) then close_styles c n st out else (n, st, out)"
  have "\<exists>n' st' k. n' \<le> n \<and> length st = k + length st' \<and> (\<forall>out. ?closed out = (n', st', out @ replicate k CloseToken))"
  proof (cases "is_some_and b (\<lambda>c. \<not> is_whitespace c)")
    case True
    with close_styles_adds [where n = n and st = st and c = c] show ?thesis by simp
  next
    case False
    then show ?thesis by (intro exI [of _ n] exI [of _ st] exI [of _ 0]) simp
  qed
  then obtain n' st1 k where 1: "n' \<le> n" "length st = k + length st1"
    "\<And>out. ?closed out = (n', st1, out @ replicate k CloseToken)" by blast
  define ws where "ws = (if is_some_and a (\<lambda>c. \<not> is_whitespace c) \<and> length st1 < 12 then delimiter_widths c n' else [])"
  define opens where "opens \<longleftrightarrow> ws \<noteq> [] \<and> length st1 + length ws \<le> 12"
  let ?st = "if opens then fst (open_styles c ws st1 []) else st1"
  let ?g = "\<lambda>out. if opens then snd (open_styles c ws st1 (out @ replicate k CloseToken))
      else repeat_token TextKind n' c (out @ replicate k CloseToken)"
  let ?es = "replicate k CloseEvent @ (if opens then map (\<lambda>w. OpenEvent (width_kind c w) None) ws
      else map (CharEvent TextKind) (replicate n' c))"
  have "\<And>out. delimiter alnum c n b a st out = (?st, ?g out)"
    using False by (auto simp: delimiter_def Let_def 1(3) ws_def [symmetric] opens_def open_styles_def)
  moreover have "adds ?g ?es"
    using adds_repeat [of TextKind n' c] by (simp add: adds_def open_styles_def)
  moreover have "length ?st \<le> 12" using assms 1(2) by (simp add: open_styles_def opens_def)
  moreover have "subseq (event_text ?es) (replicate n c)" using subseq_replicate [OF 1(1), of c] by simp
  moreover have "nest_within m (length st) ?es = Some (length ?st)"
    using 1(2) assms nest_opens [of "length st1" ws m "width_kind c" None]
    by (simp add: nest_within_append nest_closes open_styles_def opens_def)
  ultimately show ?thesis by (rule that)
qed

section \<open>Steps\<close>

text \<open>What has been read and not decided.\<close>

fun undecided :: "Mode \<Rightarrow> rchar list" where
  "undecided TextMode = []"
| "undecided EscapeMode = [backslash]"
| "undecided (DelimiterMode c n before) = replicate n c"
| "undecided (CodeMode ticks pending) = replicate pending backtick"
| "undecided (LatexMode paren escape) = (if escape then [backslash] else [])"
| "undecided (LabelMode raw depth escaped) = chars ''['' @ raw"
| "undecided (AfterLabelMode label) = chars ''['' @ label @ chars '']''"
| "undecided (DestinationMode label url depth escaped) = chars ''['' @ label @ chars ''](''  @ url"
| "undecided (UrlPrefixMode pre) = pre"
| "undecided (UrlMode url) = url"

fun link_mode :: "Mode \<Rightarrow> bool" where
  "link_mode (LabelMode raw depth escaped) = True"
| "link_mode (AfterLabelMode label) = True"
| "link_mode (DestinationMode label url depth escaped) = True"
| "link_mode (UrlPrefixMode pre) = True"
| "link_mode (UrlMode url) = True"
| "link_mode _ = False"

definition inline_ok :: "MarkdownInlineStream \<Rightarrow> bool" where
  "inline_ok s \<longleftrightarrow> length (in_styles s) \<le> 12 \<and> (0 < in_depth s \<longrightarrow> \<not> link_mode (in_mode s))"

text \<open>Twelve styles, a link or footnote in them, and twelve styles in its label.\<close>

definition depth_limit :: "nat \<Rightarrow> nat" where
  "depth_limit d = (if d = 0 then 25 else 12)"

text \<open>\<open>F\<close> reads the text \<open>w\<close>, with \<open>n\<close> styles open before, for a parser of depth \<open>d\<close>.\<close>

definition consumes :: "nat \<Rightarrow> (InlineToken list \<Rightarrow> (MarkdownInlineStream \<times> InlineToken list) option) \<Rightarrow> nat \<Rightarrow> rchar list \<Rightarrow> bool" where
  "consumes d F n w \<longleftrightarrow> (\<exists>s' g es x. (\<forall>out. F out = Some (s', g out)) \<and> adds g es \<and> inline_ok s' \<and> in_depth s' = d
     \<and> w = x @ undecided (in_mode s') \<and> subseq (event_text es) x \<and> nest_within (depth_limit d) n es = Some (length (in_styles s')))"

lemma consumesI:
  assumes "\<And>out. F out = Some (s', g out)" and "adds g es" and "inline_ok s'" and "in_depth s' = d"
    and "w = x @ undecided (in_mode s')" and "subseq (event_text es) x"
    and "nest_within (depth_limit d) n es = Some (length (in_styles s'))"
  shows "consumes d F n w"
  using assms unfolding consumes_def by blast

lemma consumes_hold:
  assumes "inline_ok (s\<lparr>in_mode := m\<rparr>)" and "w = x @ undecided m"
  shows "consumes (in_depth s) (\<lambda>out. Some (s\<lparr>in_mode := m\<rparr>, out)) (length (in_styles s)) w"
  by (rule consumesI [where s' = "s\<lparr>in_mode := m\<rparr>" and es = "[]" and x = x and g = "\<lambda>out. out"]) (use assms adds_id in simp_all)

lemma consumes_emit:
  assumes "inline_ok (s\<lparr>in_mode := m\<rparr>)" and "adds g (map (CharEvent k) cs)" and "w = x @ undecided m" and "subseq cs x"
  shows "consumes (in_depth s) (\<lambda>out. Some (s\<lparr>in_mode := m\<rparr>, g out)) (length (in_styles s)) w"
  by (rule consumesI [where s' = "s\<lparr>in_mode := m\<rparr>" and x = x, OF _ assms(2)]) (use assms in simp_all)

text \<open>Emitting the events \<open>es\<close> for the text \<open>y\<close> first.\<close>

lemma consumes_after:
  assumes F: "consumes d F n' w" and g: "adds g es" and "subseq (event_text es) y" and "nest_within (depth_limit d) n es = Some n'"
  shows "consumes d (\<lambda>out. F (g out)) n (y @ w)"
proof -
  obtain s' g' es' x where F': "\<And>out. F out = Some (s', g' out)" "adds g' es'" "inline_ok s'" "in_depth s' = d"
    "w = x @ undecided (in_mode s')" "subseq (event_text es') x" "nest_within (depth_limit d) n' es' = Some (length (in_styles s'))"
    using F unfolding consumes_def by blast
  show ?thesis
    by (rule consumesI [OF _ adds_comp [OF g F'(2)], where s' = s' and x = "y @ x"])
      (use F' assms in \<open>simp_all add: list_emb_append_mono nest_within_append\<close>)
qed

lemma consumes_drop: "consumes d F n w \<Longrightarrow> consumes d F n (y @ w)"
  using consumes_after [OF _ adds_id, of d F n w y n] by simp

lemma consumes_cong: "consumes d F n w \<Longrightarrow> (\<And>out. G out = F out) \<Longrightarrow> w' = w \<Longrightarrow> consumes d G n w'"
  by (simp add: consumes_def)

lemma consumes_if:
  "(b \<Longrightarrow> consumes d F n w) \<Longrightarrow> (\<not> b \<Longrightarrow> consumes d G n w) \<Longrightarrow> consumes d (\<lambda>out. if b then F out else G out) n w"
  by (cases b) simp_all

lemma consumes_option:
  "(x = None \<Longrightarrow> consumes d F n w) \<Longrightarrow> (\<And>y. x = Some y \<Longrightarrow> consumes d (G y) n w)
   \<Longrightarrow> consumes d (\<lambda>out. case x of None \<Rightarrow> F out | Some y \<Rightarrow> G y out) n w"
  by (cases x) simp_all

lemma normal_consumes:
  assumes "length (in_styles s) \<le> 12" and "in_mode s = TextMode"
  shows "consumes (in_depth s) (\<lambda>out. Some (normal alnum c s out)) (length (in_styles s)) [c]"
proof -
  have hold: "consumes (in_depth s) (\<lambda>out. Some (s\<lparr>in_mode := m\<rparr>, out)) (length (in_styles s)) [c]"
    if "link_mode m \<longrightarrow> in_depth s = 0" and "\<exists>x. [c] = x @ undecided m" for m
    using that assms by (auto intro: consumes_hold simp: inline_ok_def)
  have same: "s\<lparr>in_mode := TextMode\<rparr> = s" using assms(2) by simp
  have plain: "consumes (in_depth s) (\<lambda>out. Some (s, text_token TextKind c out)) (length (in_styles s)) [c]"
    using consumes_emit [where s = s and m = TextMode and g = "text_token TextKind c" and k = TextKind and cs = "[c]" and w = "[c]" and x = "[c]"] adds_text assms
    by (simp add: same inline_ok_def)
  show ?thesis
    unfolding normal_def if_distrib [of Some]
    by (intro consumes_if hold plain) (auto simp: chars_def)
qed

lemma code_consumes:
  assumes "length (in_styles s) \<le> 12" and "in_mode s = TextMode"
  shows "consumes (in_depth s) (\<lambda>out. Some (code_step alnum c ticks pending s out)) (length (in_styles s)) (replicate pending backtick @ [c])"
proof -
  have "adds (\<lambda>out. text_token CodeKind c (repeat_token CodeKind pending backtick out))
      (map (CharEvent CodeKind) (replicate pending backtick) @ [CharEvent CodeKind c])"
    by (intro adds_comp adds_repeat adds_text)
  then have "consumes (in_depth s) (\<lambda>out. Some (s\<lparr>in_mode := CodeMode ticks 0\<rparr>,
      text_token CodeKind c (repeat_token CodeKind pending backtick out))) (length (in_styles s)) (replicate pending backtick @ [c])"
    by (intro consumes_emit [where k = CodeKind and cs = "replicate pending backtick @ [c]" and x = "replicate pending backtick @ [c]"])
      (use assms in \<open>simp_all add: inline_ok_def\<close>)
  moreover have "consumes (in_depth s) (\<lambda>out. Some (normal alnum c s out)) (length (in_styles s)) (replicate pending backtick @ [c])"
    using normal_consumes [OF assms] by (rule consumes_drop)
  moreover have "c = backtick \<Longrightarrow> consumes (in_depth s) (\<lambda>out. Some (s\<lparr>in_mode := CodeMode ticks (pending + 1)\<rparr>, out))
      (length (in_styles s)) (replicate pending backtick @ [c])"
    by (rule consumes_hold [where x = "[]"]) (use assms in \<open>simp_all add: inline_ok_def replicate_append_same\<close>)
  ultimately show ?thesis
    unfolding code_step_def if_distrib [of Some] by (intro consumes_if) simp_all
qed

lemma latex_consumes:
  assumes "length (in_styles s) \<le> 12" and "in_mode s = TextMode"
  shows "consumes (in_depth s) (\<lambda>out. Some (latex_step c paren escape s out)) (length (in_styles s))
    (undecided (LatexMode paren escape) @ [c])"
proof -
  let ?h = "undecided (LatexMode paren escape)"
  have ok: "inline_ok (s\<lparr>in_mode := LatexMode p e\<rparr>)" "inline_ok (s\<lparr>in_mode := TextMode\<rparr>)" for p e
    using assms(1) by (simp_all add: inline_ok_def)
  have same: "s\<lparr>in_mode := TextMode\<rparr> = s" using assms(2) by simp
  have esc: "adds (\<lambda>out. if escape then text_token LatexKind backslash out else out) (map (CharEvent LatexKind) ?h)"
    using adds_text [of LatexKind backslash] by (simp add: adds_def)
  have "adds (\<lambda>out. text_token LatexKind c (if escape then text_token LatexKind backslash out else out))
      (map (CharEvent LatexKind) ?h @ [CharEvent LatexKind c])"
    by (rule adds_comp [OF esc adds_text])
  then have both: "adds (\<lambda>out. text_token LatexKind c (if escape then text_token LatexKind backslash out else out))
      (map (CharEvent LatexKind) (?h @ [c]))" by simp
  have "consumes (in_depth s) (\<lambda>out. Some (s, out)) (length (in_styles s)) (?h @ [c])"
    using consumes_hold [OF ok(2), of "?h @ [c]" "?h @ [c]"] by (simp add: same)
  moreover have "consumes (in_depth s) (\<lambda>out. Some (s\<lparr>in_mode := LatexMode paren True\<rparr>,
      if escape then text_token LatexKind backslash out else out)) (length (in_styles s)) (?h @ [c])" if "c = backslash"
    by (rule consumes_emit [OF ok(1) esc, where x = ?h]) (use that in simp_all)
  moreover have "consumes (in_depth s) (\<lambda>out. Some (s\<lparr>in_mode := LatexMode paren False\<rparr>,
      text_token LatexKind c (if escape then text_token LatexKind backslash out else out))) (length (in_styles s)) (?h @ [c])"
    by (rule consumes_emit [OF ok(1) both, where x = "?h @ [c]"]) simp_all
  ultimately show ?thesis
    unfolding latex_step_def Let_def if_distrib [of Some] by (intro consumes_if) auto
qed

lemma adds_bracketed: "adds (\<lambda>out. f (out @ [OpenToken k u]) @ [CloseToken]) ([OpenEvent k u] @ es @ [CloseEvent])" if "adds f es"
  using that by (simp add: adds_def)

lemma label_consumes:
  assumes "length (in_styles s) \<le> 12" and "in_mode s = TextMode" and "in_depth s = 0"
  shows "consumes (in_depth s) (\<lambda>out. Some (label_step c raw depth escaped s out)) (length (in_styles s))
    (undecided (LabelMode raw depth escaped) @ [c])"
proof -
  let ?w = "undecided (LabelMode raw depth escaped) @ [c]"
  have hold: "consumes (in_depth s) (\<lambda>out. Some (s\<lparr>in_mode := m\<rparr>, out)) (length (in_styles s)) ?w" if "undecided m = ?w" for m
    by (rule consumes_hold [where x = "[]"]) (use assms that in \<open>simp_all add: inline_ok_def\<close>)
  have footnote: "consumes (in_depth s) (\<lambda>out. Some (s, literal_tokens label (out @ [OpenToken FootnoteReferenceKind None]) @ [CloseToken]))
      (length (in_styles s)) ?w" if "footnote_label raw = Some label" for label
  proof (rule consumesI [OF _ adds_bracketed [OF adds_literal], where x = ?w])
    have "raw = ch CHR ''^'' # label" using that by (auto simp: footnote_label_def split: list.splits if_splits)
    then show "subseq (event_text ([OpenEvent FootnoteReferenceKind None] @ map (CharEvent TextKind) label @ [CloseEvent])) ?w"
      using subseq_middle [of label "chars ''[^''" "[c]"] by (simp add: chars_def)
  qed (use assms in \<open>simp_all add: inline_ok_def depth_limit_def nest_within_append\<close>)
  show ?thesis
    unfolding label_step_def Let_def if_distrib [of Some] option.case_distrib [of Some]
    by (intro consumes_if consumes_option hold footnote) (auto simp: chars_def)
qed

text \<open>A parser of labels: it returns tokens that match, nested to at most twelve styles, with the label's text.\<close>

definition label_parser :: "(nat \<Rightarrow> rchar list \<Rightarrow> InlineToken list option) \<Rightarrow> bool" where
  "label_parser sub \<longleftrightarrow> (\<forall>label. \<exists>toks. sub 1 label = Some toks \<and> nest_within 12 0 (events_of toks) = Some 0
     \<and> subseq (event_text (events_of toks)) label)"

lemma destination_consumes:
  assumes "length (in_styles s) \<le> 12" and "in_mode s = TextMode" and "in_depth s = 0" and "label_parser sub"
  shows "consumes (in_depth s) (destination_step sub c label url depth escaped s) (length (in_styles s))
    (undecided (DestinationMode label url depth escaped) @ [c])"
proof -
  let ?w = "undecided (DestinationMode label url depth escaped) @ [c]" and ?n = "length (in_styles s)"
  obtain toks where toks: "sub 1 label = Some toks" "nest_within 12 0 (events_of toks) = Some 0"
    "subseq (event_text (events_of toks)) label" using assms(4) by (auto simp: label_parser_def)
  have nested: "nest_within 25 (Suc ?n) (events_of toks) = Some (Suc ?n)"
    using nest_within_mono [OF toks(2), of "Suc ?n" 25] assms(1) by simp
  let ?link = "OpenToken LinkKind (Some (link_destination url))"
  have link: "consumes (in_depth s) (\<lambda>out. Some (s, out @ [?link] @ toks @ [CloseToken])) ?n ?w"
  proof (rule consumesI [OF _ adds_tokens, where x = ?w])
    have "subseq (event_text (events_of toks)) (chars ''['' @ label @ chars ''](''  @ url @ [c])"
      using toks(3) subseq_middle [of label "chars ''[''" "chars ''](''  @ url @ [c]"] by (rule subseq_order.order_trans)
    then show "subseq (event_text (events_of ([?link] @ toks @ [CloseToken]))) ?w" by simp
  qed (use assms nested in \<open>simp_all add: inline_ok_def depth_limit_def nest_within_append\<close>)
  have "consumes (in_depth s) (\<lambda>out. Some (s\<lparr>in_mode := DestinationMode label (url @ [c]) d e\<rparr>, out)) ?n ?w" for d e
    by (rule consumes_hold [where x = "[]"]) (use assms in \<open>simp_all add: inline_ok_def\<close>)
  with link have "consumes (in_depth s) (\<lambda>out. destination_step sub c label url depth escaped s out) ?n ?w"
    unfolding destination_step_def Let_def by (intro consumes_if) (simp_all add: assms(3) toks(1) [unfolded One_nat_def])
  then show ?thesis by simp
qed

lemma prefix_consumes:
  assumes "length (in_styles s) \<le> 12" and "in_mode s = TextMode" and "in_depth s = 0"
  shows "consumes (in_depth s) (\<lambda>out. Some (prefix_step alnum c pre s out)) (length (in_styles s)) (pre @ [c])"
proof -
  have hold: "consumes (in_depth s) (\<lambda>out. Some (s\<lparr>in_mode := m\<rparr>, out)) (length (in_styles s)) (pre @ [c])"
    if "undecided m = pre @ [c]" for m
    by (rule consumes_hold [where x = "[]"]) (use assms that in \<open>simp_all add: inline_ok_def\<close>)
  have "consumes (in_depth s) (\<lambda>out. Some (normal alnum c s (literal_tokens pre out))) (length (in_styles s)) (pre @ [c])"
    by (rule consumes_after [OF normal_consumes [OF assms(1,2)] adds_literal]) simp_all
  with hold show ?thesis
    unfolding prefix_step_def Let_def if_distrib [of Some] by (intro consumes_if) simp_all
qed

lemma bracketed_label_adds:
  "adds (\<lambda>out. literal_tokens (chars '']'') (literal_tokens label (literal_tokens (chars ''['') out)))
     (map (CharEvent TextKind) (chars ''['' @ label @ chars '']''))"
  using adds_literal [of "chars ''[''"] adds_literal [of label] adds_literal [of "chars '']''"] by (simp add: adds_def)

lemma inline_step_consumes:
  assumes ok: "inline_ok s" and sub: "in_depth s = 0 \<Longrightarrow> label_parser sub"
  shows "consumes (in_depth s) (inline_step alnum sub c s) (length (in_styles s)) (undecided (in_mode s) @ [c])"
proof -
  let ?s = "s\<lparr>in_mode := TextMode\<rparr>" and ?n = "length (in_styles s)"
  have s: "length (in_styles ?s) \<le> 12" "in_mode ?s = TextMode" "in_depth ?s = in_depth s" using ok by (simp_all add: inline_ok_def)
  have top: "in_depth ?s = 0" if "link_mode (in_mode s)" using ok that by (auto simp: inline_ok_def)
  have normal: "consumes (in_depth s) (\<lambda>out. Some (normal alnum c ?s out)) ?n [c]"
    using normal_consumes [OF s(1,2), of alnum c] by simp
  have chars_first: "consumes (in_depth s) (\<lambda>out. Some (normal alnum c ?s (f out))) ?n (w @ [c])"
    if "adds f (map (CharEvent TextKind) w)" for f w
    by (rule consumes_after [OF normal that]) simp_all
  have hold: "consumes (in_depth s) (\<lambda>out. Some (s\<lparr>in_mode := m\<rparr>, out)) ?n w"
    if "link_mode m \<longrightarrow> link_mode (in_mode s)" "w = x @ undecided m" for m w x
    by (rule consumes_hold [OF _ that(2)]) (use ok that(1) in \<open>auto simp: inline_ok_def\<close>)
  show ?thesis
  proof (cases "in_mode s")
    case TextMode
    with normal show ?thesis by (simp add: inline_step_def [abs_def] Let_def)
  next
    case EscapeMode
    have "consumes (in_depth s) (\<lambda>out. Some (s\<lparr>in_mode := TextMode\<rparr>, text_token TextKind c out)) ?n [backslash, c]"
      by (rule consumes_emit [where k = TextKind and cs = "[c]" and x = "[backslash, c]"])
        (use s adds_text in \<open>simp_all add: inline_ok_def\<close>)
    moreover have "consumes (in_depth s) (\<lambda>out. Some (normal alnum c ?s (text_token TextKind backslash out))) ?n [backslash, c]"
      using chars_first [of "text_token TextKind backslash" "[backslash]"] adds_text by simp
    moreover have "consumes (in_depth s) (\<lambda>out. Some (s\<lparr>in_mode := LatexMode True False\<rparr>, out)) ?n [backslash, c]"
      by (rule hold [where x = "[backslash, c]"]) simp_all
    ultimately have "consumes (in_depth s) (\<lambda>out. inline_step alnum sub c s out) ?n [backslash, c]"
      unfolding inline_step_def Let_def EscapeMode Mode.case if_distrib [of Some] by (intro consumes_if) simp_all
    then show ?thesis by (simp add: EscapeMode)
  next
    case (DelimiterMode marker n before)
    obtain st' g es where d: "\<And>out. delimiter alnum marker n before (Some c) (in_styles s) out = (st', g out)" "adds g es"
      "length st' \<le> 12" "subseq (event_text es) (replicate n marker)"
      "nest_within (depth_limit (in_depth s)) ?n es = Some (length st')"
      by (rule delimiter_adds [of "in_styles s" "depth_limit (in_depth s)" alnum marker n before "Some c"])
        (use s in \<open>auto simp: depth_limit_def\<close>)
    have "consumes (in_depth s) (\<lambda>out. Some (normal alnum c (?s\<lparr>in_styles := st'\<rparr>) out)) (length st') [c]"
      using normal_consumes [of "?s\<lparr>in_styles := st'\<rparr>" alnum c] d(3) by simp
    from consumes_after [OF this d(2) d(4) d(5)]
    have other: "consumes (in_depth s) (\<lambda>out. Some (normal alnum c (?s\<lparr>in_styles := st'\<rparr>) (g out))) ?n (replicate n marker @ [c])" .
    have code: "consumes (in_depth s) (\<lambda>out. Some (code_step alnum c n 0 ?s out)) ?n (replicate n marker @ [c])"
      using code_consumes [OF s(1,2), of alnum c n 0] consumes_drop by simp
    have more: "consumes (in_depth s) (\<lambda>out. Some (s\<lparr>in_mode := DelimiterMode marker (n + 1) before\<rparr>, out)) ?n (replicate n marker @ [c])"
      if "c = marker"
      by (rule hold [where x = "[]"]) (use that in \<open>simp_all add: replicate_append_same\<close>)
    have "consumes (in_depth s) (\<lambda>out. inline_step alnum sub c s out) ?n (replicate n marker @ [c])"
      unfolding inline_step_def Let_def DelimiterMode Mode.case if_distrib [of Some]
      by (intro consumes_if) (use other code more d(1) in simp_all)
    then show ?thesis by (simp add: DelimiterMode)
  next
    case (CodeMode ticks pending)
    with code_consumes [OF s(1,2), of alnum c ticks pending] show ?thesis by (simp add: inline_step_def [abs_def] Let_def)
  next
    case (LatexMode paren escape)
    with latex_consumes [OF s(1,2), of c paren escape] show ?thesis by (simp add: inline_step_def [abs_def] Let_def)
  next
    case (LabelMode raw depth escaped)
    with label_consumes [OF s(1,2) top, of c raw depth escaped] show ?thesis by (simp add: inline_step_def [abs_def] Let_def)
  next
    case (AfterLabelMode label)
    have opens: "consumes (in_depth s) (\<lambda>out. Some (s\<lparr>in_mode := DestinationMode label [] 0 False\<rparr>, out)) ?n
        (undecided (in_mode s) @ [c])" if "c = ch CHR ''(''"
      by (rule hold [where x = "[]"]) (use that AfterLabelMode in \<open>simp_all add: chars_def\<close>)
    have "consumes (in_depth s) (\<lambda>out. inline_step alnum sub c s out) ?n (undecided (in_mode s) @ [c])"
      unfolding inline_step_def Let_def AfterLabelMode Mode.case if_distrib [of Some]
      by (intro consumes_if) (use opens chars_first [OF bracketed_label_adds [of label]] AfterLabelMode in simp_all)
    then show ?thesis by simp
  next
    case (DestinationMode label url depth escaped)
    with destination_consumes [OF s(1,2) top sub, of c label url depth escaped] top show ?thesis
      by (simp add: inline_step_def [abs_def] Let_def)
  next
    case (UrlPrefixMode pre)
    with prefix_consumes [OF s(1,2) top, of alnum c pre] show ?thesis by (simp add: inline_step_def [abs_def] Let_def)
  next
    case (UrlMode url)
    have d: "in_depth s = 0" using top UrlMode by simp
    obtain es where es: "adds (autolink url) es" "event_text es = url" "\<And>m d. d < m \<Longrightarrow> nest_within m d es = Some d"
      using adds_autolink [of url] by blast
    have "consumes (in_depth s) (\<lambda>out. Some (normal alnum c ?s (autolink url out))) ?n (url @ [c])"
      by (rule consumes_after [OF normal es(1)]) (use es s d in \<open>simp_all add: depth_limit_def\<close>)
    moreover have "consumes (in_depth s) (\<lambda>out. Some (s\<lparr>in_mode := UrlMode (url @ [c])\<rparr>, out)) ?n (url @ [c])"
      by (rule hold [where x = "[]"]) (use UrlMode in simp_all)
    ultimately have "consumes (in_depth s) (\<lambda>out. inline_step alnum sub c s out) ?n (url @ [c])"
      unfolding inline_step_def Let_def UrlMode Mode.case if_distrib [of Some] by (intro consumes_if) simp_all
    then show ?thesis by (simp add: UrlMode)
  qed
qed

section \<open>Whole texts\<close>

lemma inline_loop_consumes:
  assumes "inline_ok s" and "in_depth s = 0 \<Longrightarrow> label_parser sub"
  shows "consumes (in_depth s) (inline_loop alnum sub cs s) (length (in_styles s)) (undecided (in_mode s) @ cs)"
  using assms
proof (induction cs arbitrary: s)
  case Nil
  then show ?case using consumes_hold [where s = s and m = "in_mode s" and w = "undecided (in_mode s)" and x = "[]"] by (simp add: inline_loop.simps [abs_def])
next
  case (Cons c cs)
  obtain s' g es x where step: "\<And>out. inline_step alnum sub c s out = Some (s', g out)" "adds g es" "inline_ok s'"
    "in_depth s' = in_depth s" "undecided (in_mode s) @ [c] = x @ undecided (in_mode s')" "subseq (event_text es) x"
    "nest_within (depth_limit (in_depth s)) (length (in_styles s)) es = Some (length (in_styles s'))"
    using inline_step_consumes [OF Cons.prems, of alnum c] unfolding consumes_def by blast
  let ?s = "s'\<lparr>in_previous := Some c\<rparr>"
  have "consumes (in_depth s) (inline_loop alnum sub cs ?s) (length (in_styles s')) (undecided (in_mode s') @ cs)"
    using Cons.IH [of ?s] Cons.prems(2) step(3,4) by (simp add: inline_ok_def)
  from consumes_after [OF this step(2,6,7)] show ?case
  proof (rule consumes_cong)
    show "inline_loop alnum sub (c # cs) s out = inline_loop alnum sub cs ?s (g out)" for out by (simp add: step(1))
    show "undecided (in_mode s) @ c # cs = x @ undecided (in_mode s') @ cs" using step(5) by (metis append_Cons append_assoc append_Nil)
  qed
qed

text \<open>What \<open>finish\<close> reports: the undecided text, and a closing token for every open style.\<close>

definition settles :: "nat \<Rightarrow> nat \<Rightarrow> rchar list \<Rightarrow> style list \<times> InlineToken list \<Rightarrow> bool" where
  "settles m n w r \<longleftrightarrow> subseq (event_text (events_of (snd r))) w \<and> nest_within m n (events_of (snd r)) = Some (length (fst r))"

lemma settles_emit:
  "adds f (map (CharEvent k) cs) \<Longrightarrow> subseq cs w \<Longrightarrow> settles m (length st) w (st, f [])"
  by (simp add: settles_def adds_def)

lemma settles_nothing: "settles m (length st) w (st, [])"
  by (simp add: settles_def)

lemma inline_flush_settles:
  assumes "inline_ok s"
  shows "settles (depth_limit (in_depth s)) (length (in_styles s)) (undecided (in_mode s)) (inline_flush alnum s)"
proof (cases "in_mode s")
  case (DelimiterMode c n before)
  obtain st' g es where d: "\<And>out. delimiter alnum c n before None (in_styles s) out = (st', g out)" "adds g es"
    "subseq (event_text es) (replicate n c)" "nest_within (depth_limit (in_depth s)) (length (in_styles s)) es = Some (length st')"
    by (rule delimiter_adds [of "in_styles s" "depth_limit (in_depth s)" alnum c n before None])
      (use assms in \<open>auto simp: inline_ok_def depth_limit_def\<close>)
  then have "settles (depth_limit (in_depth s)) (length (in_styles s)) (replicate n c) (st', g [])"
    by (simp add: settles_def adds_def)
  then show ?thesis
    using DelimiterMode settles_emit [OF adds_repeat, of n c "replicate n c"] d(1) by (auto simp: inline_flush_def)
next
  case (LabelMode raw depth escaped)
  have "adds (\<lambda>out. literal_tokens raw (literal_tokens (chars ''['') out)) (map (CharEvent TextKind) (chars ''['' @ raw))"
    using adds_literal [of raw] adds_literal [of "chars ''[''"] by (simp add: adds_def)
  from settles_emit [OF this] LabelMode show ?thesis by (simp add: inline_flush_def)
next
  case (DestinationMode label url depth escaped)
  have "adds (\<lambda>out. literal_tokens url (literal_tokens (chars ''](''  ) (literal_tokens label (literal_tokens (chars ''['') out))))
      (map (CharEvent TextKind) (chars ''['' @ label @ chars ''](''  @ url))"
    using adds_literal [of url] adds_literal [of label] adds_literal [of "chars ''[''"] adds_literal [of "chars ''](''"]
    by (simp add: adds_def)
  from settles_emit [OF this] DestinationMode show ?thesis by (simp add: inline_flush_def)
next
  case (UrlMode url)
  then have d: "in_depth s = 0" using assms by (auto simp: inline_ok_def)
  obtain es where es: "adds (autolink url) es" "event_text es = url" "\<And>m d. d < m \<Longrightarrow> nest_within m d es = Some d"
    using adds_autolink [of url] by blast
  with UrlMode d assms show ?thesis by (simp add: inline_flush_def settles_def adds_def depth_limit_def inline_ok_def)
qed (use settles_nothing settles_emit [OF adds_repeat] settles_emit [OF adds_literal] settles_emit [OF bracketed_label_adds]
    settles_emit [where k = LatexKind and cs = "[backslash]"] adds_text [of LatexKind backslash]
    in \<open>auto simp: inline_flush_def\<close>)

lemma inline_finish_settles:
  assumes "inline_ok s"
  shows "subseq (event_text (events_of (snd (inline_finish alnum s)))) (undecided (in_mode s))
    \<and> nest_within (depth_limit (in_depth s)) (length (in_styles s)) (events_of (snd (inline_finish alnum s))) = Some 0"
  using inline_flush_settles [OF assms, of alnum] nest_closes [of _ _ 0]
  by (auto simp: inline_finish_def settles_def nest_within_append map_replicate_const split: prod.split)

text \<open>A parser below another one does not ask for a third.\<close>

lemma parse_label_parser: "label_parser (parse_label alnum (Suc n))"
  unfolding label_parser_def
proof
  fix label
  have ok: "inline_ok (inline_new 1)" by (simp add: inline_ok_def inline_new_def)
  have "consumes 1 (inline_loop alnum (parse_label alnum n) label (inline_new 1)) 0 label"
    using inline_loop_consumes [OF ok, of "parse_label alnum n" alnum label] by (simp add: inline_new_def)
  then obtain s g es x where r: "\<And>out. inline_loop alnum (parse_label alnum n) label (inline_new 1) out = Some (s, g out)" "adds g es"
    "inline_ok s" "in_depth s = 1" "label = x @ undecided (in_mode s)" "subseq (event_text es) x"
    "nest_within 12 0 es = Some (length (in_styles s))"
    unfolding consumes_def depth_limit_def by auto
  let ?rest = "snd (inline_finish alnum s)"
  have "parse_label alnum (Suc n) 1 label = Some (g [] @ ?rest)" by (simp add: r(1) [unfolded One_nat_def])
  moreover have "nest_within 12 0 (events_of (g [] @ ?rest)) = Some 0"
    using inline_finish_settles [OF r(3), of alnum] r(2,4,7) by (simp add: nest_within_append adds_def depth_limit_def)
  moreover have "subseq (event_text (events_of (g [] @ ?rest))) label"
    using inline_finish_settles [OF r(3), of alnum] r(2,5,6) by (simp add: adds_def list_emb_append_mono)
  ultimately show "\<exists>toks. parse_label alnum (Suc n) 1 label = Some toks \<and> nest_within 12 0 (events_of toks) = Some 0
      \<and> subseq (event_text (events_of toks)) label" by blast
qed

lemma inline_step_levels:
  "inline_ok s \<Longrightarrow> 0 < in_depth s \<Longrightarrow> inline_step alnum sub c s out = inline_step alnum sub' c s out"
  by (cases "in_mode s") (simp_all add: inline_ok_def inline_step_def)

lemma inline_loop_levels:
  assumes "inline_ok s" and "0 < in_depth s"
  shows "inline_loop alnum sub cs s out = inline_loop alnum sub' cs s out"
  using assms
proof (induction cs arbitrary: s out)
  case (Cons c cs)
  have "consumes (in_depth s) (inline_step alnum sub c s) (length (in_styles s)) (undecided (in_mode s) @ [c])"
    by (rule inline_step_consumes) (use Cons.prems in simp_all)
  then obtain s' g where s': "\<And>out. inline_step alnum sub c s out = Some (s', g out)" "inline_ok s'" "in_depth s' = in_depth s"
    unfolding consumes_def by blast
  with Cons.prems inline_step_levels [of s alnum sub c _ sub'] have "inline_step alnum sub' c s out = Some (s', g out)" by simp
  moreover have "inline_loop alnum sub cs (s'\<lparr>in_previous := Some c\<rparr>) (g out) = inline_loop alnum sub' cs (s'\<lparr>in_previous := Some c\<rparr>) (g out)"
    by (rule Cons.IH) (use s' Cons.prems in \<open>simp_all add: inline_ok_def\<close>)
  ultimately show ?case by (simp add: s'(1))
qed simp

lemma parse_label_levels: "parse_label alnum (Suc n) 1 label = parse_label alnum label_levels 1 label"
  using inline_loop_levels [of "inline_new 1" alnum "parse_label alnum n" label "[]" "parse_label alnum 0"]
  by (simp add: label_levels_def inline_ok_def inline_new_def)

text \<open>A text that arrives in chunks, and is finished.\<close>

fun push_texts :: "(rchar \<Rightarrow> bool) \<Rightarrow> rchar list list \<Rightarrow> MarkdownInlineStream \<Rightarrow> (MarkdownInlineStream \<times> InlineToken list) option" where
  "push_texts alnum [] s = Some (s, [])"
| "push_texts alnum (c # cs) s = Option.bind (inline_push alnum c s) (\<lambda>(s, a).
     Option.bind (push_texts alnum cs s) (\<lambda>(s, b). Some (s, a @ b)))"

definition inline_tokens :: "(rchar \<Rightarrow> bool) \<Rightarrow> rchar list list \<Rightarrow> InlineToken list option" where
  "inline_tokens alnum cs = Option.bind (push_texts alnum cs create_inline_session) (\<lambda>(s, out).
     Some (out @ snd (inline_finish alnum s)))"

lemma inline_loop_append:
  "inline_loop alnum sub (cs @ ds) s out = Option.bind (inline_loop alnum sub cs s out) (\<lambda>(s, out). inline_loop alnum sub ds s out)"
  by (induction cs arbitrary: s out) (auto simp: bind_eq_Some_conv split: bind_split)

lemma push_texts_loop:
  assumes "inline_ok s" and "in_depth s = 0"
  shows "\<exists>s' toks toks'. push_texts alnum cs s = Some (s', toks) \<and> inline_push alnum (concat cs) s = Some (s', toks')
    \<and> events_of toks' = events_of toks"
  using assms
proof (induction cs arbitrary: s)
  case Nil
  then show ?case by (simp add: inline_push_def)
next
  case (Cons c cs)
  note sub = parse_label_parser [of alnum 0, folded One_nat_def label_levels_def]
  note loop = inline_loop_consumes [OF _ sub, of _ alnum]
  obtain s1 g1 where 1: "\<And>out. inline_loop alnum (parse_label alnum label_levels) c s out = Some (s1, g1 out)" "inline_ok s1" "in_depth s1 = 0"
    using loop [OF Cons.prems(1), of c] Cons.prems(2) unfolding consumes_def by auto
  obtain g2 es2 s2 where 2: "\<And>out. inline_loop alnum (parse_label alnum label_levels) (concat cs) s1 out = Some (s2, g2 out)" "adds g2 es2"
    using loop [OF 1(2), of "concat cs"] unfolding consumes_def by blast
  obtain s' toks toks' where IH: "push_texts alnum cs s1 = Some (s', toks)" "inline_push alnum (concat cs) s1 = Some (s', toks')"
    "events_of toks' = events_of toks" using Cons.IH [OF 1(2,3)] by blast
  have "s2 = s'" "g2 [] = toks'" using IH(2) 2(1) [of "[]"] by (simp_all add: inline_push_def)
  then have "events_of (g2 (g1 [])) = events_of (g1 [] @ toks)" using 2(2) IH(3) by (auto simp: adds_def)
  moreover have "push_texts alnum (c # cs) s = Some (s', g1 [] @ toks)" by (simp add: inline_push_def 1(1) IH(1))
  moreover have "inline_push alnum (concat (c # cs)) s = Some (s', g2 (g1 []))"
    using \<open>s2 = s'\<close> by (simp add: inline_push_def inline_loop_append 1(1) 2(1))
  ultimately show ?case by blast
qed

lemma inline_tokens_whole:
  obtains s toks toks' where "push_texts alnum cs create_inline_session = Some (s, toks)"
    and "inline_push alnum (concat cs) create_inline_session = Some (s, toks')"
    and "events_of toks' = events_of toks" and "inline_ok s" and "in_depth s = 0"
    and "nest_within 25 0 (events_of toks) = Some (length (in_styles s))"
    and "\<exists>x. concat cs = x @ undecided (in_mode s) \<and> subseq (event_text (events_of toks)) x"
proof -
  have ok: "inline_ok create_inline_session" "in_depth create_inline_session = 0" "in_styles create_inline_session = []"
    "undecided (in_mode create_inline_session) = []"
    by (simp_all add: inline_ok_def inline_new_def create_inline_session_def)
  have limit: "depth_limit 0 = 25" by (simp add: depth_limit_def)
  have "label_parser (parse_label alnum label_levels)" unfolding label_levels_def One_nat_def by (rule parse_label_parser)
  with inline_loop_consumes [OF ok(1), of "parse_label alnum label_levels" alnum "concat cs"] ok
  have "consumes 0 (inline_loop alnum (parse_label alnum label_levels) (concat cs) create_inline_session) 0 (concat cs)" by simp
  then obtain s g es x where r: "\<And>out. inline_loop alnum (parse_label alnum label_levels) (concat cs) create_inline_session out = Some (s, g out)"
    "adds g es" "inline_ok s" "in_depth s = 0" "concat cs = x @ undecided (in_mode s)" "subseq (event_text es) x"
    "nest_within 25 0 es = Some (length (in_styles s))"
    unfolding consumes_def limit by blast
  obtain s' toks toks' where p: "push_texts alnum cs create_inline_session = Some (s', toks)"
    "inline_push alnum (concat cs) create_inline_session = Some (s', toks')" "events_of toks' = events_of toks"
    using push_texts_loop [OF ok(1,2)] by blast
  then have "s' = s" "toks' = g []" using r(1) by (simp_all add: inline_push_def)
  moreover from this r(2) p(3) have "events_of toks = es" by (simp add: adds_def)
  ultimately show ?thesis using that [of s toks toks'] p r by blast
qed

lemma inline_tokens_correct:
  "\<exists>toks. inline_tokens alnum cs = Some toks \<and> nest_within 25 0 (events_of toks) = Some 0
     \<and> subseq (event_text (events_of toks)) (concat cs)"
proof -
  obtain s toks where p: "push_texts alnum cs create_inline_session = Some (s, toks)" "inline_ok s" "in_depth s = 0"
    "nest_within 25 0 (events_of toks) = Some (length (in_styles s))"
    "\<exists>x. concat cs = x @ undecided (in_mode s) \<and> subseq (event_text (events_of toks)) x"
    by (rule inline_tokens_whole [of alnum cs])
  let ?all = "toks @ snd (inline_finish alnum s)"
  have "inline_tokens alnum cs = Some ?all" by (simp add: inline_tokens_def p(1))
  moreover have "nest_within 25 0 (events_of ?all) = Some 0"
    using inline_finish_settles [OF p(2), of alnum] p(3,4) by (simp add: nest_within_append depth_limit_def)
  moreover have "subseq (event_text (events_of ?all)) (concat cs)"
    using inline_finish_settles [OF p(2), of alnum] p(5) by (auto simp: list_emb_append_mono)
  ultimately show ?thesis by blast
qed

section \<open>The properties\<close>

text \<open>C25: A text pushed in any chunks and finished gives tokens in which every opening token is closed, nested to at most
  twenty-five levels, and whose text is taken from the input in order.  The parser of a label returns without a further
  level below it.\<close>

theorem inline_tokens_nested:
  "\<exists>toks. inline_tokens alnum cs = Some toks \<and> nest_within 25 0 (events_of toks) = Some 0
     \<and> subseq (event_text (events_of toks)) (concat cs)
     \<and> parse_label alnum (Suc n) 1 label = parse_label alnum label_levels 1 label"
  using inline_tokens_correct [of alnum cs] parse_label_levels by blast

text \<open>C26: Cutting a text into chunks changes only where its text tokens are cut.\<close>

theorem inline_chunking_irrelevant:
  "map_option events_of (inline_tokens alnum cs) = map_option events_of (inline_tokens alnum [concat cs])"
proof -
  obtain s toks toks' where p: "push_texts alnum cs create_inline_session = Some (s, toks)"
    "inline_push alnum (concat cs) create_inline_session = Some (s, toks')" "events_of toks' = events_of toks"
    by (rule inline_tokens_whole [of alnum cs])
  then show ?thesis by (simp add: inline_tokens_def)
qed

end
