(* ===== verification/Markdown_Coverage.thy ===== *)
theory Markdown_Coverage
  imports Native_Markdown
begin

text \<open>
  What the block splitter guarantees about its segments: they list character indices in order,
  each at most once, and exactly once when the plugins emit every character; they stay inside the
  text; and cutting the text into chunks does not change them.
\<close>

declare upt_Suc [simp del]

section \<open>The segments as a sequence of events\<close>

datatype sink_event = NodeAt int nat | BreakAt nat

definition seg_events :: "Segment \<Rightarrow> sink_event list" where
  "seg_events g = (if seg_type g = SEG_BREAK then [BreakAt (seg_start g)]
     else map (NodeAt (seg_type g)) [seg_start g..<seg_end g])"

definition segments_events :: "Segment list \<Rightarrow> sink_event list" where
  "segments_events gs = concat (map seg_events gs)"

definition run_events :: "RunState \<Rightarrow> sink_event list" where
  "run_events r = (case run_start r of None \<Rightarrow> [] | Some s \<Rightarrow> map (NodeAt (type_ordinal (run_tag r))) [s..<run_end r])"

definition sink_events :: "sink \<Rightarrow> sink_event list" where
  "sink_events k = segments_events (sink_out k) @ run_events (sink_run k)"

definition event_index :: "sink_event \<Rightarrow> nat list" where
  "event_index e = (case e of NodeAt t i \<Rightarrow> [i] | BreakAt p \<Rightarrow> [])"

definition event_indices :: "sink_event list \<Rightarrow> nat list" where
  "event_indices es = concat (map event_index es)"

definition seg_ok :: "nat \<Rightarrow> Segment \<Rightarrow> bool" where
  "seg_ok n g \<longleftrightarrow> seg_start g \<le> seg_end g \<and> seg_end g \<le> n \<and> (seg_type g \<noteq> SEG_BREAK \<longrightarrow> seg_start g < seg_end g)"

definition sink_ok :: "nat \<Rightarrow> sink \<Rightarrow> bool" where
  "sink_ok n k \<longleftrightarrow> (\<forall>g\<in>set (sink_out k). seg_ok n g)
     \<and> (case run_start (sink_run k) of None \<Rightarrow> True | Some s \<Rightarrow> s < run_end (sink_run k) \<and> run_end (sink_run k) \<le> n)"

lemma type_ordinal_not_break [simp]: "type_ordinal t \<noteq> SEG_BREAK"
  by (cases t) (simp_all add: SEG_BREAK_def)

lemma event_indices_simps [simp]:
  "event_indices [] = []" "event_indices (a @ b) = event_indices a @ event_indices b"
  "event_indices (NodeAt t i # es) = i # event_indices es" "event_indices (BreakAt p # es) = event_indices es"
  "event_indices (map (NodeAt t) is) = is" "event_indices (map (\<lambda>p. NodeAt t (f p)) ps) = map f ps"
  by (simp_all add: event_indices_def event_index_def comp_def)

lemma segments_events_simps [simp]:
  "segments_events [] = []" "segments_events (a @ b) = segments_events a @ segments_events b"
  "segments_events [g] = seg_events g"
  by (simp_all add: segments_events_def)

text \<open>\<open>f\<close> appends the events \<open>es\<close>, whatever the sink holds already.\<close>

definition emits :: "nat \<Rightarrow> (sink \<Rightarrow> sink) \<Rightarrow> sink_event list \<Rightarrow> bool" where
  "emits n f es \<longleftrightarrow> (\<forall>k. sink_ok n k \<longrightarrow> sink_ok n (f k) \<and> sink_events (f k) = sink_events k @ es)"

lemma push_run_events:
  "run_start r = Some s \<Longrightarrow> segments_events (push_run r s out) = segments_events out @ run_events r"
  by (simp add: push_run_def seg_events_def run_events_def)

lemma push_run_ok:
  "\<forall>g\<in>set out. seg_ok n g \<Longrightarrow> s < run_end r \<Longrightarrow> run_end r \<le> n \<Longrightarrow> \<forall>g\<in>set (push_run r s out). seg_ok n g"
  by (auto simp: push_run_def seg_ok_def)

lemma emits_flush: "emits n flush_run []"
  unfolding emits_def
proof (intro allI impI)
  fix k assume "sink_ok n k"
  then show "sink_ok n (flush_run k) \<and> sink_events (flush_run k) = sink_events k @ []"
    using push_run_events [of "sink_run k"] push_run_ok [of "sink_out k" n _ "sink_run k"]
    by (cases "run_start (sink_run k)") (auto simp: flush_run_def Let_def sink_ok_def sink_events_def run_events_def)
qed

lemma emits_break:
  assumes "pos \<le> n"
  shows "emits n (emit_break pos) [BreakAt pos]"
  unfolding emits_def
proof (intro allI impI)
  fix k assume k: "sink_ok n k"
  have f: "sink_ok n (flush_run k)" "sink_events (flush_run k) = sink_events k" using emits_flush k by (simp_all add: emits_def)
  have "run_start (sink_run (flush_run k)) = None" by (simp add: flush_run_def Let_def)
  with f assms show "sink_ok n (emit_break pos k) \<and> sink_events (emit_break pos k) = sink_events k @ [BreakAt pos]"
    by (auto simp: emit_break_def Let_def sink_ok_def sink_events_def run_events_def seg_events_def seg_ok_def)
qed

lemma emits_index:
  assumes "i < n"
  shows "emits n (emit_index t i) [NodeAt (type_ordinal t) i]"
  unfolding emits_def
proof (intro allI impI)
  fix k assume k: "sink_ok n k"
  show "sink_ok n (emit_index t i k) \<and> sink_events (emit_index t i k) = sink_events k @ [NodeAt (type_ordinal t) i]"
  proof (cases "run_start (sink_run k)")
    case None
    with k assms show ?thesis by (auto simp: emit_index_def Let_def sink_ok_def sink_events_def run_events_def upt_Suc)
  next
    case (Some s)
    with k have r: "s < run_end (sink_run k)" "run_end (sink_run k) \<le> n" by (simp_all add: sink_ok_def)
    show ?thesis
    proof (cases "run_tag (sink_run k) = t \<and> run_end (sink_run k) = i")
      case True
      with Some k assms r show ?thesis
        by (auto simp: emit_index_def Let_def sink_ok_def sink_events_def run_events_def upt_Suc)
    next
      case False
      with Some k assms r push_run_events [OF Some] push_run_ok [of "sink_out k" n s "sink_run k"] show ?thesis
        by (auto simp: emit_index_def Let_def sink_ok_def sink_events_def run_events_def upt_Suc)
    qed
  qed
qed

lemma emits_id: "emits n (\<lambda>k. k) []"
  by (simp add: emits_def)

lemma emits_comp: "emits n f a \<Longrightarrow> emits n g b \<Longrightarrow> emits n (\<lambda>k. g (f k)) (a @ b)"
  by (simp add: emits_def)

lemma emits_if: "(c \<Longrightarrow> emits n f es) \<Longrightarrow> emits n (\<lambda>k. if c then f k else k) (if c then es else [])"
  by (simp add: emits_def)

lemma emits_fold:
  assumes "\<And>x. x \<in> set xs \<Longrightarrow> emits n (f x) (e x)"
  shows "emits n (fold f xs) (concat (map e xs))"
  using assms
proof (induction xs)
  case Nil
  then show ?case by (simp add: emits_def)
next
  case (Cons x xs)
  then have "emits n (\<lambda>k. fold f xs (f x k)) (e x @ concat (map e xs))" by (intro emits_comp) simp_all
  then show ?case by (simp add: emits_def)
qed

lemma emits_range:
  assumes "\<forall>i\<in>set is. i < n"
  shows "emits n (emit_range t is) (map (NodeAt (type_ordinal t)) is)"
proof -
  have "emits n (fold (emit_index t) is) (concat (map (\<lambda>i. [NodeAt (type_ordinal t) i]) is))"
    by (rule emits_fold) (use assms in \<open>simp add: emits_index\<close>)
  then show ?thesis by (simp add: emits_def emit_range_def)
qed

section \<open>What a session holds back\<close>

definition held_indices :: "MarkdownSession \<Rightarrow> nat list" where
  "held_indices s = (case eval_start_global s of None \<Rightarrow> [] | Some g \<Rightarrow> [g..<g + length (ms_evaluation_buffer s)])
     @ map wait_index (waitfor_pending s)"

definition session_ok :: "MarkdownSession \<Rightarrow> bool" where
  "session_ok s \<longleftrightarrow> (active_index s \<noteq> None \<longrightarrow> eval_start_global s = None)
     \<and> (eval_start_global s = None \<longleftrightarrow> ms_evaluation_buffer s = [])
     \<and> length (evaluation_emit_mask s) = length (ms_evaluation_buffer s)
     \<and> (waitfor_active s \<longrightarrow> active_index s \<noteq> None) \<and> (\<not> waitfor_active s \<longrightarrow> waitfor_pending s = [])
     \<and> (\<forall>a. active_index s = Some a \<longrightarrow> a < length (ms_plugins s))"

definition session_transparent :: "MarkdownSession \<Rightarrow> bool" where
  "session_transparent s \<longleftrightarrow> length (ms_plugins s) \<le> 32 \<and> (\<forall>e\<in>set (ms_plugins s). transparent (entry_plugin e))
     \<and> (\<forall>p\<in>set (waitfor_pending s). wait_emit p)
     \<and> (\<forall>m\<in>set (evaluation_emit_mask s). \<forall>j<length (ms_plugins s). bit m j)"

text \<open>
  One step at index \<open>j\<close>, when the session holds back \<open>m\<close> to \<open>j\<close>: afterwards it holds back, or puts
  back in front of the input, the indices from some \<open>m'\<close> on, and what it emitted lies between.
\<close>

definition advances :: "nat \<Rightarrow> (sink \<Rightarrow> MarkdownSession \<times> sink) \<Rightarrow> MarkdownSession \<Rightarrow> nat \<Rightarrow> nat \<Rightarrow> bool" where
  "advances n f s m j \<longleftrightarrow> (\<exists>s' g es m' returned. (\<forall>k. f k = (s', g k)) \<and> emits n g es \<and> session_ok s'
     \<and> pending_chars s' = returned @ pending_chars s \<and> global_offset s' = global_offset s
     \<and> held_indices s' @ map pend_index returned = [m'..<Suc j] \<and> m \<le> m' \<and> m' \<le> Suc j
     \<and> subseq (event_indices es) [m..<m']
     \<and> (session_transparent s \<longrightarrow> session_transparent s' \<and> event_indices es = [m..<m']))"

lemma advancesI:
  assumes "\<And>k. f k = (s', g k)" and "emits n g es" and "session_ok s'"
    and "pending_chars s' = returned @ pending_chars s" and "global_offset s' = global_offset s"
    and "held_indices s' @ map pend_index returned = [m'..<Suc j]" and "m \<le> m'" and "m' \<le> Suc j"
    and "subseq (event_indices es) [m..<m']"
    and "session_transparent s \<Longrightarrow> session_transparent s' \<and> event_indices es = [m..<m']"
  shows "advances n f s m j"
  using assms unfolding advances_def by blast

lemma advances_if:
  "(c \<Longrightarrow> advances n f s m j) \<Longrightarrow> (\<not> c \<Longrightarrow> advances n g s m j) \<Longrightarrow> advances n (\<lambda>k. if c then f k else g k) s m j"
  by (cases c) simp_all

lemma advances_option:
  "(x = None \<Longrightarrow> advances n f s m j) \<Longrightarrow> (\<And>y. x = Some y \<Longrightarrow> advances n (g y) s m j)
   \<Longrightarrow> advances n (\<lambda>k. case x of None \<Rightarrow> f k | Some y \<Rightarrow> g y k) s m j"
  by (cases x) simp_all

lemma reset_entry_plugin [simp]: "entry_plugin (reset_entry e) = plugin_reset (entry_plugin e)"
  by (simp add: reset_entry_def)

lemma cleared [simp]:
  "eval_start_global (clear_evaluation s) = None" "ms_evaluation_buffer (clear_evaluation s) = []"
  "evaluation_emit_mask (clear_evaluation s) = []" "eval_start_global (reset_entries s) = eval_start_global s"
  "ms_evaluation_buffer (reset_entries s) = ms_evaluation_buffer s"
  "evaluation_emit_mask (reset_entries s) = evaluation_emit_mask s"
  "length (ms_plugins (reset_entries s)) = length (ms_plugins s)"
  by (simp_all add: clear_evaluation_def reset_entries_def)

lemma transparent_reset_entries:
  "\<forall>e\<in>set es. transparent (entry_plugin e) \<Longrightarrow> \<forall>e\<in>set (map reset_entry es). transparent (entry_plugin e)"
  by (auto simp: plugin_transparent_reset)

section \<open>The evaluation step\<close>

lemma read_all_length [simp]: "length (fst (read_all c b j es m)) = length es"
  by (induction es arbitrary: j m) (simp_all add: Let_def case_prod_beta)

lemma read_all_transparent:
  assumes "\<forall>e\<in>set es. transparent (entry_plugin e)" and "j + length es \<le> 32"
  shows "(\<forall>e\<in>set (fst (read_all c b j es m)). transparent (entry_plugin e))
    \<and> (\<forall>i. bit (snd (read_all c b j es m)) i \<longleftrightarrow> bit m i \<or> j \<le> i \<and> i < j + length es)"
  using assms
proof (induction es arbitrary: j m)
  case (Cons e es)
  define p where "p = snd (plugin_process (entry_plugin e) c b)"
  from Cons.prems have x: "fst (plugin_process (entry_plugin e) c b)" "transparent p"
    using plugin_transparent_process [of "entry_plugin e" c b] by (auto simp: p_def)
  define n where "n = m OR push_bit j 1"
  have r: "fst (read_all c b j (e # es) m) = e\<lparr>entry_plugin := p\<rparr> # fst (read_all c b (j + 1) es n)"
    "snd (read_all c b j (e # es) m) = snd (read_all c b (j + 1) es n)"
    using x(1) by (simp_all add: Let_def case_prod_beta p_def n_def)
  have "bit n i \<longleftrightarrow> bit m i \<or> i = j" for i
    using Cons.prems(2) by (auto simp: n_def bit_simps)
  with Cons.IH [of "j + 1" n] Cons.prems x(2) show ?case
    unfolding r by (auto simp: le_Suc_eq)
qed auto

lemma map_add_upt_shift: "m \<le> j \<Longrightarrow> map (\<lambda>k. m + k) [0..<Suc j - m] = [m..<Suc j]"
  by (rule nth_equalityI) (simp_all del: upt_Suc)

lemma map_plus_upt: "map ((+) a) [0..<n] = [a..<a + n]" for a n :: nat
  by (rule nth_equalityI) simp_all

lemma upt_append: "a \<le> b \<Longrightarrow> b \<le> c \<Longrightarrow> [a..<b] @ [b..<c] = [a..<c]" for a b c :: nat
  by (metis le_add_diff_inverse upt_add_eq_append)

lemma upt_split:
  assumes "[m..<n] = xs @ y # ys"
  shows "xs = [m..<y] \<and> ys = [Suc y..<n] \<and> m \<le> y \<and> y < n"
  using assms
proof (induction xs arbitrary: m)
  case (Cons x xs)
  from Cons.prems have "m < n" "x = m" "[Suc m..<n] = xs @ y # ys" by (auto simp: upt_eq_Cons_conv)
  with Cons.IH [of "Suc m"] show ?case by (auto simp: upt_conv_Cons)
qed (auto simp: upt_eq_Cons_conv)

lemma upt_eq_bounds:
  assumes "[a..<b] = [c..<d]" and "a < b"
  shows "c = a \<and> d = b"
proof -
  have len: "b - a = d - c" using arg_cong [OF assms(1), of length] by simp
  with assms(2) have "c < d" by simp
  with assms have "a = c" by (metis hd_upt)
  with len assms(2) \<open>c < d\<close> show ?thesis by simp
qed

lemma read_evaluated_ok:
  fixes s :: MarkdownSession and c b m j
  assumes "session_ok s" and "active_index s = None" and "held_indices s = [m..<j]" and "m \<le> j" and "\<not> waitfor_active s"
  defines "t \<equiv> read_evaluated c b j s"
  shows "session_ok t" "eval_start_global t = Some m" "length (ms_evaluation_buffer t) = Suc j - m"
    "eval_indices t i = [m..<Suc j]" "held_indices t = [m..<Suc j]" "length (ms_plugins t) = length (ms_plugins s)"
    "length (evaluation_emit_mask t) = Suc j - m" "waitfor_pending t = []"
    "session_transparent s \<Longrightarrow> session_transparent t"
proof -
  have none: "waitfor_pending s = []" using assms(1,5) by (simp add: session_ok_def)
  obtain es mask where r: "read_all c b 0 (ms_plugins s) 0 = (es, mask)" by fastforce
  then have es: "length es = length (ms_plugins s)" by (metis fst_conv read_all_length)
  have start: "(case eval_start_global s of None \<Rightarrow> m = j | Some g \<Rightarrow> g = m \<and> j = m + length (ms_evaluation_buffer s))"
  proof (cases "eval_start_global s")
    case None
    with assms(3) none have "[m..<j] = []" by (simp add: held_indices_def)
    with None assms(4) show ?thesis by auto
  next
    case (Some g)
    with assms(1) have "0 < length (ms_evaluation_buffer s)" by (simp add: session_ok_def)
    with Some assms(3) none show ?thesis by (auto simp: held_indices_def dest: upt_eq_bounds)
  qed
  have fields: "eval_start_global t = Some (case eval_start_global s of None \<Rightarrow> j | Some g \<Rightarrow> g)"
    "ms_evaluation_buffer t = ms_evaluation_buffer s @ [c]" "evaluation_emit_mask t = evaluation_emit_mask s @ [mask]"
    "ms_plugins t = es" "waitfor_pending t = waitfor_pending s" "active_index t = active_index s"
    "waitfor_active t = waitfor_active s"
    by (auto simp: t_def read_evaluated_def r Let_def split: option.split)
  have len: "length (ms_evaluation_buffer s) = j - m" "m \<le> j"
    using start assms(1,4) by (auto simp: session_ok_def split: option.splits)
  show t: "eval_start_global t = Some m" using start by (simp add: fields split: option.splits)
  show t': "length (ms_evaluation_buffer t) = Suc j - m" using len by (simp add: fields Suc_diff_le)
  show "eval_indices t i = [m..<Suc j]" using len by (simp only: eval_indices_def t t' Let_def option.case) (simp add: map_add_upt_shift)
  show "held_indices t = [m..<Suc j]" using len none by (simp add: held_indices_def t t' fields)
  show "length (ms_plugins t) = length (ms_plugins s)" by (simp add: fields es)
  show l: "length (evaluation_emit_mask t) = Suc j - m" using assms(1) len by (simp add: fields session_ok_def Suc_diff_le)
  show "waitfor_pending t = []" by (simp add: fields none)
  show "session_ok t" using assms(1,2,5) none by (simp add: session_ok_def fields)
  show "session_transparent t" if tr: "session_transparent s"
  proof -
    have "(\<forall>e\<in>set es. transparent (entry_plugin e)) \<and> (\<forall>i. bit mask i \<longleftrightarrow> i < length (ms_plugins s))"
      using read_all_transparent [of "ms_plugins s" 0 c b 0] tr r by (simp add: session_transparent_def)
    with tr es show ?thesis by (auto simp: session_transparent_def fields)
  qed
qed

lemma masked_indices:
  assumes "length bs = length xs"
  shows "subseq (concat (map (\<lambda>(b, x). if P x then [f b] else []) (zip bs xs))) (map f bs)"
    and "\<forall>x\<in>set xs. P x \<Longrightarrow> concat (map (\<lambda>(b, x). if P x then [f b] else []) (zip bs xs)) = map f bs"
  using assms by (induction bs xs rule: list_induct2) (simp_all add: list_emb_Cons)

lemma event_indices_concat: "event_indices (concat ess) = concat (map event_indices ess)"
  by (induction ess) simp_all

lemma emit_masked_emits:
  fixes s :: MarkdownSession and n m j i :: nat
  assumes "eval_start_global s = Some m" and "length (evaluation_emit_mask s) = Suc j - m" and "m \<le> j" and "j < n"
  obtains es where "emits n (emit_masked s i idx) es" and "subseq (event_indices es) [m..<Suc j]"
    and "\<forall>x\<in>set (evaluation_emit_mask s). bit x idx \<Longrightarrow> event_indices es = [m..<Suc j]"
proof -
  let ?ms = "evaluation_emit_mask s" and ?node = "NodeAt (type_ordinal (active_tag s))"
  let ?e = "\<lambda>(b, x). if bit x idx then [?node (m + b)] else []"
  let ?es = "concat (map ?e (zip [0..<length ?ms] ?ms))"
  have unfolded: "emit_masked s i idx = fold (\<lambda>(b, x) k. if bit x idx then emit_index (active_tag s) (m + b) k else k)
      (zip [0..<length ?ms] ?ms)"
    by (rule ext) (simp only: emit_masked_def assms(1) Let_def option.case bit_iff_and_push_bit_not_eq_0)
  have "emits n (emit_masked s i idx) ?es"
    unfolding unfolded
  proof (rule emits_fold)
    fix x assume "x \<in> set (zip [0..<length ?ms] ?ms)"
    moreover obtain b y where x: "x = (b, y)" by fastforce
    ultimately have "b \<in> set [0..<length ?ms]" by (metis set_zip_leftD)
    with assms(2-4) have "m + b < n" by simp
    then show "emits n ((\<lambda>(b, x) k. if bit x idx then emit_index (active_tag s) (m + b) k else k) x) (?e x)"
      using emits_index emits_id by (simp add: x emits_def)
  qed
  moreover have idx: "event_indices ?es = concat (map (\<lambda>(b, x). if bit x idx then [m + b] else []) (zip [0..<length ?ms] ?ms))"
    by (simp add: event_indices_concat comp_def split_def if_distrib cong: if_cong)
  moreover have "map (\<lambda>b. m + b) [0..<length ?ms] = [m..<Suc j]"
    using assms(2,3) map_add_upt_shift by simp
  ultimately show ?thesis
    using that [of ?es] masked_indices [of "[0..<length ?ms]" ?ms "\<lambda>x. bit x idx" "\<lambda>b. m + b"] by simp
qed

lemma find_successful_bound: "find_successful es = Some i \<Longrightarrow> i < length es"
  by (auto simp: find_successful_def find_Some_iff)

lemma reset_other_entries_all:
  assumes "\<forall>e\<in>set es. P e" and "\<And>e. P e \<Longrightarrow> P (reset_entry e)"
  shows "\<forall>e\<in>set (reset_other_entries i es). P e"
  using assms by (auto simp: reset_other_entries_def)

lemma hold_back_advances:
  assumes "session_ok t" and "held_indices t = [m..<Suc j]" and "m \<le> j" and "pending_chars t = pending_chars s"
    and "global_offset t = global_offset s" and "session_transparent s \<Longrightarrow> session_transparent t"
  shows "advances n (\<lambda>k. (t, k)) s m j"
  by (rule advancesI [where s' = t and g = "\<lambda>k. k" and es = "[]" and m' = m and returned = "[]"])
    (use assms emits_id in simp_all)

lemma cleared_advances:
  assumes "session_ok t" and "active_index t = None" and "waitfor_pending t = []" and "m \<le> j"
    and "pending_chars t = pending_chars s"
    and "global_offset t = global_offset s" and "session_transparent s \<Longrightarrow> session_transparent t"
    and "emits n g es" and "event_indices es = [m..<Suc j]"
  shows "advances n (\<lambda>k. (reset_entries (clear_evaluation t), g k)) s m j"
proof (rule advancesI [where g = g and es = es and m' = "Suc j" and returned = "[]"])
  show "session_ok (reset_entries (clear_evaluation t))" using assms(1-3) by (simp add: session_ok_def)
  show "held_indices (reset_entries (clear_evaluation t)) @ map pend_index [] = [Suc j..<Suc j]"
    using assms(3) by (simp add: held_indices_def)
  show "session_transparent (reset_entries (clear_evaluation t)) \<and> event_indices es = [m..<Suc j]" if "session_transparent s"
    using assms(3,7,9) that plugin_transparent_reset
    by (auto simp: session_transparent_def reset_entries_def clear_evaluation_def)
qed (use assms in simp_all)

lemma decide_advances:
  assumes ok: "session_ok t" and "active_index t = None" and "\<not> waitfor_active t" and start: "eval_start_global t = Some m"
    and "length (evaluation_emit_mask t) = Suc j - m" and idx: "eval_indices t j = [m..<Suc j]"
    and held: "held_indices t = [m..<Suc j]" and none: "waitfor_pending t = []" and "m \<le> j" and "j < n"
    and keeps: "pending_chars t = pending_chars s" "global_offset t = global_offset s"
    and tr: "session_transparent s \<Longrightarrow> session_transparent t"
  shows "advances n (decide_plugins j t) s m j"
proof (cases "find_successful (ms_plugins t)")
  case None
  have plain: "emits n (emit_range PlainTextT [m..<Suc j]) (map (NodeAt (type_ordinal PlainTextT)) [m..<Suc j])"
    by (rule emits_range) (use \<open>j < n\<close> in auto)
  have "decide_plugins j t = (\<lambda>k. if is_html_break_prefix (ms_evaluation_buffer t) then (t, k)
      else if list_ex (\<lambda>e. plugin_state (entry_plugin e) = Trying) (ms_plugins t) then (t, k)
      else (reset_entries (clear_evaluation t), emit_range PlainTextT [m..<Suc j] k))"
    by (rule ext) (simp only: decide_plugins_def None option.case idx)
  then show ?thesis
    using cleared_advances [OF ok assms(2) none \<open>m \<le> j\<close> keeps tr plain]
      hold_back_advances [OF ok held \<open>m \<le> j\<close> keeps tr]
    by (simp add: advances_if)
next
  case (Some i)
  let ?t = "t\<lparr>active_index := Some i, active_tag := entry_tag (ms_plugins t ! i)\<rparr>"
  let ?u = "(clear_evaluation ?t)\<lparr>ms_plugins := reset_other_entries i (ms_plugins t)\<rparr>"
  have i: "i < length (ms_plugins t)" using Some by (rule find_successful_bound)
  obtain es where es: "emits n (emit_masked ?t j i) es" "subseq (event_indices es) [m..<Suc j]"
    "\<forall>x\<in>set (evaluation_emit_mask t). bit x i \<Longrightarrow> event_indices es = [m..<Suc j]"
    using emit_masked_emits [of ?t m j n j i] start assms(5) \<open>m \<le> j\<close> \<open>j < n\<close> by auto
  have "emits n (\<lambda>k. emit_masked ?t j i (flush_run k)) ([] @ es)" by (rule emits_comp [OF emits_flush es(1)])
  moreover have "session_ok ?u" using ok none i assms(3) by (simp add: session_ok_def reset_other_entries_def)
  moreover have "session_transparent ?u \<and> event_indices es = [m..<Suc j]" if "session_transparent s"
    using tr [OF that] i none reset_other_entries_all [of "ms_plugins t" "\<lambda>e. transparent (entry_plugin e)" i] es(3)
    by (simp add: session_transparent_def plugin_transparent_reset reset_other_entries_def [of i "ms_plugins t"] clear_evaluation_def)
  ultimately show ?thesis
    using none keeps \<open>m \<le> j\<close> es(2)
    by (intro advancesI [where s' = ?u and g = "\<lambda>k. emit_masked ?t j i (flush_run k)" and es = es and m' = "Suc j" and returned = "[]"])
      (simp_all add: decide_plugins_def Some Let_def held_indices_def)
qed

lemma evaluation_advances:
  assumes "session_ok s" and "active_index s = None" and "\<not> waitfor_active s" and "held_indices s = [m..<j]"
    and "m \<le> j" and "j < n"
  shows "advances n (process_evaluation c b j s) s m j"
proof -
  let ?t = "read_evaluated c b j s"
  note t = read_evaluated_ok [OF assms(1,2,4,5,3), of c b]
  have range: "emits n (emit_range tag [m..<Suc j]) (map (NodeAt (type_ordinal tag)) [m..<Suc j])" for tag
    by (rule emits_range) (use assms(6) in auto)
  have rule_line: "emits n (\<lambda>k. emit_break (j + 1) (emit_range tag [m..<Suc j] k))
      (map (NodeAt (type_ordinal tag)) [m..<Suc j] @ [BreakAt (j + 1)])" for tag
    by (rule emits_comp [OF range emits_break]) (use assms(6) in simp)
  have cleared: "emits n g es \<Longrightarrow> event_indices es = [m..<Suc j] \<Longrightarrow>
      advances n (\<lambda>k. (reset_entries (clear_evaluation ?t), g k)) s m j" for g es
    by (rule cleared_advances [where es = es]) (use t assms in simp_all)
  have decide: "advances n (decide_plugins j ?t) s m j"
    by (rule decide_advances) (use t assms in simp_all)
  have hold: "advances n (\<lambda>k. (?t, k)) s m j"
    by (rule hold_back_advances) (use t assms in simp_all)
  have "advances n (\<lambda>k. process_evaluation c b j s k) s m j"
    unfolding process_evaluation_def Let_def t(4)
    by (intro advances_if advances_option cleared [OF range] cleared [OF rule_line] decide hold) simp_all
  then show ?thesis by simp
qed

section \<open>The steps inside a plugin\<close>

definition to_pending :: "WaitforPending \<Rightarrow> PendingChar" where
  "to_pending p = \<lparr>pend_at_start = wait_at_start p, pend_char = wait_char p, pend_index = wait_index p\<rparr>"

lemma pend_index_to_pending [simp]: "pend_index (to_pending p) = wait_index p"
  by (simp add: to_pending_def)

lemma settle_pending_collected: "r \<noteq> [] \<Longrightarrow> settle_pending ps r k = (r @ map to_pending ps, k)"
  by (induction ps r k rule: settle_pending.induct) (simp_all add: to_pending_def)

lemma settle_pending_split:
  "settle_pending ps [] k = (map to_pending (dropWhile (\<lambda>p. wait_char p = newline) ps),
     emit_pending PlainTextT (takeWhile (\<lambda>p. wait_char p = newline) ps) k)"
  by (induction ps arbitrary: k) (simp_all add: emit_pending_def settle_pending_collected to_pending_def)

definition pending_events :: "MarkdownProcessorType \<Rightarrow> WaitforPending list \<Rightarrow> sink_event list" where
  "pending_events tag ps = concat (map (\<lambda>p. if wait_emit p then [NodeAt (type_ordinal tag) (wait_index p)] else []) ps)"

lemma emit_pending_emits:
  assumes "\<forall>p\<in>set ps. wait_index p < n"
  shows "emits n (emit_pending tag ps) (pending_events tag ps)"
proof -
  have "emits n (fold (\<lambda>p k. if wait_emit p then emit_index tag (wait_index p) k else k) ps) (pending_events tag ps)"
    unfolding pending_events_def
    by (rule emits_fold, rule emits_if) (use assms in \<open>simp add: emits_index\<close>)
  then show ?thesis by (simp add: emits_def emit_pending_def)
qed

lemma pending_events_indices:
  "subseq (event_indices (pending_events tag ps)) (map wait_index ps)"
  "\<forall>p\<in>set ps. wait_emit p \<Longrightarrow> event_indices (pending_events tag ps) = map wait_index ps"
  by (induction ps) (simp_all add: pending_events_def list_emb_Cons)

lemma step_plugin_keeps:
  assumes "session_ok s" and "active_index s = Some a"
    and "plugin_process (entry_plugin (ms_plugins s ! a)) c b = (emit, p)"
  shows "session_transparent s \<Longrightarrow> emit \<and> (\<forall>e\<in>set ((ms_plugins s)[a := (ms_plugins s ! a)\<lparr>entry_plugin := p\<rparr>]). transparent (entry_plugin e))"
proof -
  assume tr: "session_transparent s"
  have a: "a < length (ms_plugins s)" using assms(1,2) by (simp add: session_ok_def)
  then have "transparent (entry_plugin (ms_plugins s ! a))" using tr by (simp add: session_transparent_def)
  with plugin_transparent_process [of "entry_plugin (ms_plugins s ! a)" c b] assms(3) have p: "emit" "transparent p" by simp_all
  have "\<forall>e\<in>set (ms_plugins s). transparent (entry_plugin e)" using tr by (simp add: session_transparent_def)
  with p show ?thesis by (auto dest!: set_update_subset_insert [THEN subsetD])
qed

lemma active_not_evaluating:
  assumes "session_ok s" and "active_index s = Some a"
  shows "eval_start_global s = None" "evaluation_emit_mask s = []" "ms_evaluation_buffer s = []" "a < length (ms_plugins s)"
  using assms by (auto simp: session_ok_def)

lemma active_advances:
  assumes ok: "session_ok s" and a: "active_index s = Some a" and w: "\<not> waitfor_active s" and held: "held_indices s = [m..<j]"
    and "m \<le> j" and "j < n"
  shows "advances n (process_active c b j a s) s m j"
proof -
  obtain emit p where r: "plugin_process (entry_plugin (ms_plugins s ! a)) c b = (emit, p)" by fastforce
  let ?es = "(ms_plugins s)[a := (ms_plugins s ! a)\<lparr>entry_plugin := p\<rparr>]"
  have none: "eval_start_global s = None" "waitfor_pending s = []" "evaluation_emit_mask s = []" "ms_evaluation_buffer s = []"
    using active_not_evaluating [OF ok a] ok w by (simp_all add: session_ok_def)
  with held have "[m..<j] = []" by (simp add: held_indices_def)
  with \<open>m \<le> j\<close> have "m = j" by auto
  have tr: "session_transparent s \<Longrightarrow> emit \<and> (\<forall>e\<in>set ?es. transparent (entry_plugin e))"
    by (rule step_plugin_keeps [OF ok a r])
  let ?node = "if emit then [NodeAt (type_ordinal (active_tag s)) j] else []"
  have node: "emits n (\<lambda>k. if emit then emit_index (active_tag s) j k else k) ?node"
    using \<open>j < n\<close> by (intro emits_if emits_index)
  have broken: "emits n (\<lambda>k. emit_break (j + 1) (if emit then emit_index (active_tag s) j k else k)) (?node @ [BreakAt (j + 1)])"
    by (rule emits_comp [OF node emits_break]) (use \<open>j < n\<close> in simp)
  consider (WaitFor) "plugin_state p = WaitFor" | (Processing) "plugin_state p = Processing"
    | (other) "plugin_state p \<noteq> WaitFor" "plugin_state p \<noteq> Processing" by blast
  then show ?thesis
  proof cases
    case WaitFor
    let ?t = "s\<lparr>ms_plugins := ?es, waitfor_active := True, waitfor_at_start_of_line := (c = newline),
        waitfor_pending := [\<lparr>wait_char = c, wait_at_start = b, wait_index = j, wait_emit = emit\<rparr>]\<rparr>"
    show ?thesis
      by (rule advancesI [where s' = ?t and g = "\<lambda>k. k" and es = "[]" and m' = m and returned = "[]"])
        (use WaitFor r none tr ok a emits_id \<open>m = j\<close> in
          \<open>simp_all add: process_active_def held_indices_def session_ok_def session_transparent_def upt_Suc\<close>)
  next
    case Processing
    show ?thesis
      by (rule advancesI [OF _ node, where s' = "s\<lparr>ms_plugins := ?es\<rparr>" and m' = "Suc j" and returned = "[]"])
        (use Processing r none tr ok a w \<open>m = j\<close> in
          \<open>auto simp: process_active_def held_indices_def session_ok_def session_transparent_def upt_Suc\<close>)
  next
    case other
    show ?thesis
      by (rule advancesI [OF _ broken, where s' = "s\<lparr>ms_plugins := ?es, active_index := None, active_tag := PlainTextT\<rparr>"
            and m' = "Suc j" and returned = "[]"])
        (use other r none tr ok a w \<open>m = j\<close> in
          \<open>auto simp: process_active_def held_indices_def session_ok_def session_transparent_def upt_Suc\<close>)
  qed
qed

lemma waitfor_advances:
  assumes ok: "session_ok s" and w: "waitfor_active s" and held: "held_indices s = [m..<j]" and "m \<le> j" and "j < n"
  shows "advances n (process_waitfor c j s) s m j"
proof -
  obtain a where a: "active_index s = Some a" using ok w by (auto simp: session_ok_def)
  let ?b = "waitfor_at_start_of_line s"
  obtain emit p where r: "plugin_process (entry_plugin (ms_plugins s ! a)) c ?b = (emit, p)" by fastforce
  let ?es = "(ms_plugins s)[a := (ms_plugins s ! a)\<lparr>entry_plugin := p\<rparr>]" and ?ps = "waitfor_pending s"
  note none = active_not_evaluating [OF ok a]
  have ps: "map wait_index ?ps = [m..<j]" using held none by (simp add: held_indices_def)
  then have below: "\<forall>p\<in>set ?ps. wait_index p < n" using \<open>j < n\<close> by (metis atLeastLessThan_iff image_eqI less_trans list.set_map set_upt)
  have tr: "session_transparent s \<Longrightarrow> emit \<and> (\<forall>e\<in>set ?es. transparent (entry_plugin e))"
    by (rule step_plugin_keeps [OF ok a r])
  consider (WaitFor) "plugin_state p = WaitFor" | (Processing) "plugin_state p = Processing"
    | (other) "plugin_state p \<noteq> WaitFor" "plugin_state p \<noteq> Processing" by blast
  then show ?thesis
  proof cases
    case WaitFor
    let ?t = "s\<lparr>ms_plugins := ?es, waitfor_at_start_of_line := (c = newline),
        waitfor_pending := ?ps @ [\<lparr>wait_char = c, wait_at_start = ?b, wait_index = j, wait_emit = emit\<rparr>]\<rparr>"
    show ?thesis
      by (rule advancesI [where s' = ?t and g = "\<lambda>k. k" and es = "[]" and m' = m and returned = "[]"])
        (use WaitFor r none tr ok a w ps emits_id \<open>m \<le> j\<close> in
          \<open>auto simp: process_waitfor_def held_indices_def session_ok_def session_transparent_def upt_Suc\<close>)
  next
    case Processing
    let ?node = "if emit then [NodeAt (type_ordinal (active_tag s)) j] else []"
    let ?g = "\<lambda>k. let k = emit_pending (active_tag s) ?ps k in if emit then emit_index (active_tag s) j k else k"
    have "emits n ?g (pending_events (active_tag s) ?ps @ ?node)"
      unfolding Let_def using \<open>j < n\<close> by (intro emits_comp emit_pending_emits below emits_if emits_index)
    then show ?thesis
      by (rule advancesI [where s' = "s\<lparr>ms_plugins := ?es, waitfor_pending := [], waitfor_active := False\<rparr>" and g = ?g
            and m' = "Suc j" and returned = "[]", rotated])
        (use Processing r none tr ok a w ps \<open>m \<le> j\<close> pending_events_indices [where ps = ?ps and tag = "active_tag s"] in
          \<open>auto simp: process_waitfor_def Let_def held_indices_def session_ok_def session_transparent_def upt_Suc
             intro: list_emb_append_mono\<close>)
  next
    case other
    let ?nl = "\<lambda>p. wait_char p = newline"
    let ?t = "reset_entries (s\<lparr>ms_plugins := ?es, waitfor_pending := [], waitfor_active := False, active_index := None, active_tag := PlainTextT\<rparr>)"
    let ?given = "map to_pending (dropWhile ?nl ?ps) @ [\<lparr>pend_at_start = ?b, pend_char = c, pend_index = j\<rparr>]"
    let ?m = "m + length (takeWhile ?nl ?ps)"
    have len: "length ?ps = j - m" using arg_cong [OF ps, of length] by simp
    have m': "?m \<le> j" using length_takeWhile_le [of ?nl ?ps] \<open>m \<le> j\<close> unfolding len by simp
    have split: "[m..<?m] @ [?m..<j] = [m..<j]" using m' by (intro upt_append) simp_all
    have "map wait_index (takeWhile ?nl ?ps) @ map wait_index (dropWhile ?nl ?ps) = [m..<?m] @ [?m..<j]"
      unfolding split by (simp add: ps [symmetric] map_append [symmetric] del: map_append)
    then have parts: "map wait_index (takeWhile ?nl ?ps) = [m..<?m]" "map wait_index (dropWhile ?nl ?ps) = [?m..<j]"
      by simp_all
    have "\<forall>p\<in>set (takeWhile ?nl ?ps). wait_index p < n" using below by (auto dest: set_takeWhileD)
    then have "emits n (\<lambda>k. emit_break j (emit_pending PlainTextT (takeWhile ?nl ?ps) k))
        (pending_events PlainTextT (takeWhile ?nl ?ps) @ [BreakAt j])"
      using \<open>j < n\<close> by (intro emits_comp emit_pending_emits emits_break) simp_all
    then show ?thesis
    proof (rule advancesI [where s' = "?t\<lparr>pending_chars := ?given @ pending_chars s\<rparr>" and m' = ?m and returned = ?given, rotated])
      show "held_indices (?t\<lparr>pending_chars := ?given @ pending_chars s\<rparr>) @ map pend_index ?given = [?m..<Suc j]"
        using none parts m' by (simp add: held_indices_def comp_def upt_Suc reset_entries_def)
    qed (use other r none tr ok a w m' pending_events_indices [where ps = "takeWhile ?nl ?ps" and tag = PlainTextT, unfolded parts] in
          \<open>auto simp: process_waitfor_def Let_def settle_pending_split held_indices_def session_ok_def session_transparent_def
             reset_entries_def plugin_transparent_reset dest: set_takeWhileD\<close>)
  qed
qed

section \<open>Whole chunks\<close>

lemma global_offset_irrelevant [simp]:
  "session_ok (s\<lparr>global_offset := g\<rparr>) = session_ok s" "held_indices (s\<lparr>global_offset := g\<rparr>) = held_indices s"
  "session_transparent (s\<lparr>global_offset := g\<rparr>) = session_transparent s"
  "session_ok (s\<lparr>pending_chars := ps\<rparr>) = session_ok s" "held_indices (s\<lparr>pending_chars := ps\<rparr>) = held_indices s"
  "session_transparent (s\<lparr>pending_chars := ps\<rparr>) = session_transparent s"
  "session_ok (s\<lparr>ms_at_start_of_line := b\<rparr>) = session_ok s" "held_indices (s\<lparr>ms_at_start_of_line := b\<rparr>) = held_indices s"
  "session_transparent (s\<lparr>ms_at_start_of_line := b\<rparr>) = session_transparent s"
  by (simp_all add: session_ok_def held_indices_def session_transparent_def split: option.split)

lemma dispatch_advances:
  assumes "session_ok s" and "held_indices s = [m..<j]" and "m \<le> j" and "j < n"
  shows "advances n (\<lambda>k. if waitfor_active s then process_waitfor c j s k
      else case active_index s of Some a \<Rightarrow> process_active c b j a s k | None \<Rightarrow> process_evaluation c b j s k) s m j"
  by (intro advances_if advances_option)
    (use assms waitfor_advances active_advances evaluation_advances in blast)+

lemma process_one_forced_advances:
  assumes "session_ok s" and "held_indices s = [m..<j]" and "m \<le> j" and "j < n"
  shows "advances n (process_one c b (Some j) s) s m j"
proof -
  have "process_one c b (Some j) s = (\<lambda>k. if waitfor_active s then process_waitfor c j s k
      else case active_index s of Some a \<Rightarrow> process_active c b j a s k | None \<Rightarrow> process_evaluation c b j s k)"
    by (rule ext) (simp add: process_one_def)
  with dispatch_advances [OF assms] show ?thesis by simp
qed

lemma process_one_fresh_advances:
  assumes "session_ok s" and "held_indices s = [m..<global_offset s]" and "m \<le> global_offset s" and "global_offset s < n"
  shows "advances n (process_one c b None s) (s\<lparr>global_offset := global_offset s + 1\<rparr>) m (global_offset s)"
proof -
  let ?s = "s\<lparr>global_offset := global_offset s + 1\<rparr>"
  have "process_one c b None s = (\<lambda>k. if waitfor_active ?s then process_waitfor c (global_offset s) ?s k
      else case active_index ?s of Some a \<Rightarrow> process_active c b (global_offset s) a ?s k
           | None \<Rightarrow> process_evaluation c b (global_offset s) ?s k)"
    by (rule ext) (simp add: process_one_def Let_def split: option.split)
  with dispatch_advances [of ?s m "global_offset s" n c b] assms show ?thesis by simp
qed

text \<open>The loop over a chunk: the sink it is given does not matter, and it emits what is no longer held back.\<close>

definition runs :: "nat \<Rightarrow> (sink \<Rightarrow> MarkdownSession \<times> bool \<times> sink) \<Rightarrow> bool \<Rightarrow> nat \<Rightarrow> nat \<Rightarrow> bool" where
  "runs n f tr m q \<longleftrightarrow> (\<exists>s' b' g es m'. (\<forall>k. f k = (s', b', g k)) \<and> emits n g es \<and> session_ok s'
     \<and> pending_chars s' = [] \<and> global_offset s' = q \<and> held_indices s' = [m'..<q] \<and> m \<le> m' \<and> m' \<le> q
     \<and> subseq (event_indices es) [m..<m'] \<and> (tr \<longrightarrow> session_transparent s' \<and> event_indices es = [m..<m']))"

lemma runsI:
  assumes "\<And>k. f k = (s', b', g k)" and "emits n g es" and "session_ok s'" and "pending_chars s' = []"
    and "global_offset s' = q" and "held_indices s' = [m'..<q]" and "m \<le> m'" and "m' \<le> q"
    and "subseq (event_indices es) [m..<m']" and "tr \<Longrightarrow> session_transparent s' \<and> event_indices es = [m..<m']"
  shows "runs n f tr m q"
  using assms unfolding runs_def by blast

lemma advances_then_runs:
  assumes step: "advances n f s m j" and F: "\<And>k. F k = G (fst (f k)) (snd (f k))"
    and rest: "\<And>s1 m1. session_ok s1 \<Longrightarrow> m \<le> m1 \<Longrightarrow> m1 \<le> Suc j \<Longrightarrow> global_offset s1 = global_offset s
      \<Longrightarrow> held_indices s1 @ map pend_index (pending_chars s1) = [m1..<Suc j] @ map pend_index (pending_chars s)
      \<Longrightarrow> (\<And>k. fst (f k) = s1)
      \<Longrightarrow> runs n (G s1) (session_transparent s1) m1 q"
  shows "runs n F (session_transparent s) m q"
proof -
  obtain s1 g1 es1 m1 returned where 1: "\<And>k. f k = (s1, g1 k)" "emits n g1 es1" "session_ok s1"
    "pending_chars s1 = returned @ pending_chars s" "global_offset s1 = global_offset s"
    "held_indices s1 @ map pend_index returned = [m1..<Suc j]" "m \<le> m1" "m1 \<le> Suc j" "subseq (event_indices es1) [m..<m1]"
    "session_transparent s \<Longrightarrow> session_transparent s1 \<and> event_indices es1 = [m..<m1]"
    using step unfolding advances_def by blast
  have "held_indices s1 @ map pend_index (pending_chars s1) = [m1..<Suc j] @ map pend_index (pending_chars s)"
    unfolding 1(4) 1(6) [symmetric] by simp
  then have "runs n (G s1) (session_transparent s1) m1 q" using 1 by (intro rest) simp_all
  then obtain s2 b2 g2 es2 m2 where 2: "\<And>k. G s1 k = (s2, b2, g2 k)" "emits n g2 es2" "session_ok s2" "pending_chars s2 = []"
    "global_offset s2 = q" "held_indices s2 = [m2..<q]" "m1 \<le> m2" "m2 \<le> q" "subseq (event_indices es2) [m1..<m2]"
    "session_transparent s1 \<Longrightarrow> session_transparent s2 \<and> event_indices es2 = [m1..<m2]"
    unfolding runs_def by blast
  have parts: "[m..<m2] = [m..<m1] @ [m1..<m2]" using 1(7) 2(7) by (rule upt_append [symmetric])
  show ?thesis
  proof (rule runsI)
    show "F k = (s2, b2, g2 (g1 k))" for k by (simp add: F 1(1) 2(1))
    show "emits n (\<lambda>k. g2 (g1 k)) (es1 @ es2)" using 1(2) 2(2) by (rule emits_comp)
    show "subseq (event_indices (es1 @ es2)) [m..<m2]" using 1(9) 2(9) by (simp add: parts list_emb_append_mono)
    show "session_transparent s2 \<and> event_indices (es1 @ es2) = [m..<m2]" if "session_transparent s"
      using 1(10) 2(10) that by (simp add: parts)
  qed (use 1(7) 2 in simp_all)
qed

lemma push_loop_runs:
  fixes k :: sink
  assumes "session_ok s" and "held_indices s @ map pend_index (pending_chars s) = [m..<global_offset s]"
    and "m \<le> global_offset s" and "global_offset s + length cs \<le> n"
  shows "runs n (push_loop s cs b) (session_transparent s) m (global_offset s + length cs)"
  using assms
proof (induction s cs b k arbitrary: m rule: push_loop.induct)
  case (1 s cs b k)
  show ?case
  proof (cases "pending_chars s")
    case (Cons p ps)
    let ?j = "pend_index p" and ?s = "s\<lparr>pending_chars := ps\<rparr>"
    have "[m..<global_offset s] = held_indices s @ ?j # map pend_index ps" using 1(4) Cons by simp
    then have j: "held_indices s = [m..<?j]" "map pend_index ps = [Suc ?j..<global_offset s]" "?j < global_offset s" "m \<le> ?j"
      by (auto dest: upt_split)
    let ?f = "process_one (pend_char p) (pend_at_start p) (Some ?j) ?s"
    have "advances n ?f ?s m ?j" by (rule process_one_forced_advances) (use 1 j in simp_all)
    then have "runs n (push_loop s cs b) (session_transparent ?s) m (global_offset s + length cs)"
    proof (rule advances_then_runs [where G = "\<lambda>s k. push_loop s cs (pend_char p = newline) k"])
      show "push_loop s cs b k = push_loop (fst (?f k)) cs (pend_char p = newline) (snd (?f k))" for k
        by (simp add: push_loop.simps [of s] Cons Let_def)
      fix s1 m1
      assume *: "session_ok s1" "m \<le> m1" "m1 \<le> Suc ?j" "global_offset s1 = global_offset ?s"
        "held_indices s1 @ map pend_index (pending_chars s1) = [m1..<Suc ?j] @ map pend_index (pending_chars ?s)"
        "\<And>k. fst (?f k) = s1"
      then have "held_indices s1 @ map pend_index (pending_chars s1) = [m1..<global_offset s1]"
        using j by (simp add: upt_append)
      then show "runs n (push_loop s1 cs (pend_char p = newline)) (session_transparent s1) m1 (global_offset s + length cs)"
        using 1(2) [OF Cons refl, of m1] * j 1(6) by simp
    qed
    then show ?thesis by simp
  next
    case Nil
    with 1(4) have held: "held_indices s = [m..<global_offset s]" by simp
    show ?thesis
    proof (cases cs)
      case Nil2: Nil
      show ?thesis
        by (rule runsI [where s' = s and b' = b and g = "\<lambda>k. k" and es = "[]" and m' = m])
          (use 1 Nil Nil2 held emits_id in \<open>simp_all add: push_loop.simps [of s]\<close>)
    next
      case (Cons c cs')
      let ?s = "s\<lparr>global_offset := global_offset s + 1\<rparr>" and ?f = "process_one c b None s"
      have "advances n ?f ?s m (global_offset s)" by (rule process_one_fresh_advances) (use 1 held Cons in simp_all)
      then have "runs n (push_loop s cs b) (session_transparent ?s) m (global_offset s + length cs)"
      proof (rule advances_then_runs [where G = "\<lambda>s k. push_loop s cs' (c = newline) k"])
        show "push_loop s cs b k = push_loop (fst (?f k)) cs' (c = newline) (snd (?f k))" for k
          by (simp add: push_loop.simps [of s] Nil Cons Let_def)
        fix s1 m1
        assume *: "session_ok s1" "m \<le> m1" "m1 \<le> Suc (global_offset s)" "global_offset s1 = global_offset ?s"
          "held_indices s1 @ map pend_index (pending_chars s1) = [m1..<Suc (global_offset s)] @ map pend_index (pending_chars ?s)"
          "\<And>k. fst (?f k) = s1"
        then show "runs n (push_loop s1 cs' (c = newline)) (session_transparent s1) m1 (global_offset s + length cs)"
          using 1(1) [OF Nil Cons refl, of m1] Nil Cons 1(6) by simp
      qed
      then show ?thesis by simp
    qed
  qed
qed

section \<open>What a session reports\<close>

text \<open>Between two chunks nothing is put back, and the indices from \<open>m\<close> on are held.\<close>

definition resting :: "MarkdownSession \<Rightarrow> nat \<Rightarrow> bool" where
  "resting s m \<longleftrightarrow> session_ok s \<and> pending_chars s = [] \<and> held_indices s = [m..<global_offset s] \<and> m \<le> global_offset s"

definition reports :: "nat \<Rightarrow> bool \<Rightarrow> nat \<Rightarrow> Segment list \<Rightarrow> nat \<Rightarrow> bool" where
  "reports n tr m out m' \<longleftrightarrow> m \<le> m' \<and> (\<forall>g\<in>set out. seg_ok n g) \<and> subseq (event_indices (segments_events out)) [m..<m']
     \<and> (tr \<longrightarrow> event_indices (segments_events out) = [m..<m'])"

lemma reports_append:
  assumes "reports n tr m a m1" and "reports n tr' m1 b m2"
  shows "reports n (tr \<and> tr') m (a @ b) m2"
proof -
  have "[m..<m2] = [m..<m1] @ [m1..<m2]" using assms by (simp add: reports_def upt_append)
  with assms show ?thesis by (auto simp: reports_def list_emb_append_mono)
qed

lemma emits_from_empty:
  assumes "emits n g es"
  shows "(\<forall>s\<in>set (sink_out (flush_run (g empty_sink))). seg_ok n s) \<and> segments_events (sink_out (flush_run (g empty_sink))) = es"
proof -
  have "sink_ok n empty_sink" "sink_events empty_sink = []"
    by (simp_all add: sink_ok_def sink_events_def run_events_def empty_sink_def run_default_def)
  with assms have g: "sink_ok n (g empty_sink)" "sink_events (g empty_sink) = es" by (simp_all add: emits_def)
  with emits_flush [of n] have "sink_ok n (flush_run (g empty_sink))" "sink_events (flush_run (g empty_sink)) = es"
    by (simp_all add: emits_def)
  moreover have "run_events (sink_run (flush_run (g empty_sink))) = []" by (simp add: flush_run_def run_events_def Let_def)
  ultimately show ?thesis by (simp add: sink_ok_def sink_events_def)
qed

lemma session_push_runs:
  assumes "resting s m" and "global_offset s + length cs \<le> n"
  obtains s' b' g es m' where "\<And>k. push_loop s cs (ms_at_start_of_line s) k = (s', b', g k)" and "emits n g es"
    and "session_push cs s = (sink_out (flush_run (g empty_sink)), s'\<lparr>ms_at_start_of_line := b'\<rparr>)"
    and "resting (s'\<lparr>ms_at_start_of_line := b'\<rparr>) m'" and "global_offset s' = global_offset s + length cs"
    and "reports n (session_transparent s) m (sink_out (flush_run (g empty_sink))) m'"
    and "session_transparent s \<Longrightarrow> session_transparent s'"
proof -
  have "runs n (push_loop s cs (ms_at_start_of_line s)) (session_transparent s) m (global_offset s + length cs)"
    by (rule push_loop_runs) (use assms in \<open>simp_all add: resting_def\<close>)
  then obtain s' b' g es m' where r: "\<And>k. push_loop s cs (ms_at_start_of_line s) k = (s', b', g k)" "emits n g es"
    "session_ok s'" "pending_chars s' = []" "global_offset s' = global_offset s + length cs"
    "held_indices s' = [m'..<global_offset s + length cs]" "m \<le> m'" "m' \<le> global_offset s + length cs"
    "subseq (event_indices es) [m..<m']"
    "session_transparent s \<Longrightarrow> session_transparent s' \<and> event_indices es = [m..<m']"
    unfolding runs_def by blast
  show ?thesis
    by (rule that [of s' b' g es m'])
      (use r emits_from_empty [OF r(2)] in \<open>simp_all add: session_push_def resting_def reports_def\<close>)
qed

lemma session_push_reports:
  assumes "resting s m" and "global_offset s + length cs \<le> n" and "session_push cs s = (out, s')"
  obtains m' where "resting s' m'" and "global_offset s' = global_offset s + length cs"
    and "reports n (session_transparent s) m out m'" and "session_transparent s \<Longrightarrow> session_transparent s'"
  using session_push_runs [OF assms(1,2)] assms(3) by (metis (no_types, lifting) MarkdownSession.select_convs MarkdownSession.surjective
      MarkdownSession.update_convs(3) global_offset_irrelevant(9) prod.inject)

lemma session_finish_reports:
  assumes "resting s m" and "global_offset s \<le> n" and "session_finish s = (out, s')"
  shows "reports n True m out (global_offset s)"
proof -
  let ?q = "global_offset s"
  let ?is = "case eval_start_global s of None \<Rightarrow> [] | Some g \<Rightarrow> [g..<g + length (ms_evaluation_buffer s)]"
  let ?ws = "map wait_index (waitfor_pending s)"
  have held: "?is @ ?ws = [m..<?q]" "m \<le> ?q" using assms(1) by (simp_all add: resting_def held_indices_def)
  have below: "\<forall>i\<in>set (?is @ ?ws). i < n" unfolding held(1) using assms(2) by simp
  define tag where "tag = (case rule_length (rule_prefix s) of Some n \<Rightarrow> if 3 \<le> n then HorizontalRuleT else PlainTextT | None \<Rightarrow> PlainTextT)"
  define g where "g k = fold (\<lambda>p. emit_index (active_tag s) (wait_index p)) (waitfor_pending s) (emit_range tag ?is k)" for k
  have evaluated: "(case eval_start_global s of None \<Rightarrow> empty_sink | Some g \<Rightarrow> emit_range tag (eval_indices s g) empty_sink)
      = emit_range tag ?is empty_sink"
    by (simp add: emit_range_def eval_indices_def map_plus_upt split: option.split)
  have out: "out = sink_out (flush_run (g empty_sink))"
    using assms(3) by (simp add: session_finish_def Let_def evaluated [unfolded tag_def] g_def tag_def)
  have "emits n (fold (\<lambda>p. emit_index (active_tag s) (wait_index p)) (waitfor_pending s))
      (concat (map (\<lambda>p. [NodeAt (type_ordinal (active_tag s)) (wait_index p)]) (waitfor_pending s)))"
    by (rule emits_fold) (use below in \<open>simp add: emits_index\<close>)
  moreover have "emits n (emit_range tag ?is) (map (NodeAt (type_ordinal tag)) ?is)"
    by (rule emits_range) (use below in simp)
  ultimately have "emits n g (map (NodeAt (type_ordinal tag)) ?is @
      concat (map (\<lambda>p. [NodeAt (type_ordinal (active_tag s)) (wait_index p)]) (waitfor_pending s)))"
    unfolding g_def by (rule emits_comp [rotated])
  from emits_from_empty [OF this] held show ?thesis
    by (simp add: reports_def out event_indices_concat comp_def)
qed

lemma session_new_resting: "resting (session_new es) 0 \<and> global_offset (session_new es) = 0"
  by (simp add: resting_def session_ok_def held_indices_def session_new_def)

lemma session_new_transparent:
  "length es \<le> 32 \<Longrightarrow> \<forall>e\<in>set es. transparent (entry_plugin e) \<Longrightarrow> session_transparent (session_new es)"
  by (simp add: session_transparent_def session_new_def plugin_transparent_reset)

text \<open>A text that arrives in chunks, and is finished.\<close>

fun push_chunks :: "rchar list list \<Rightarrow> MarkdownSession \<Rightarrow> Segment list \<times> MarkdownSession" where
  "push_chunks [] s = ([], s)"
| "push_chunks (c # cs) s = (let (a, s) = session_push c s; (b, s) = push_chunks cs s in (a @ b, s))"

definition split_chunks :: "PluginEntry list \<Rightarrow> rchar list list \<Rightarrow> Segment list" where
  "split_chunks es cs = (let (a, s) = push_chunks cs (session_new es) in a @ fst (session_finish s))"

lemma push_chunks_reports:
  assumes "resting s m" and "global_offset s + length (concat cs) \<le> n" and "push_chunks cs s = (out, s')"
  shows "\<exists>m'. resting s' m' \<and> global_offset s' = global_offset s + length (concat cs)
    \<and> reports n (session_transparent s) m out m' \<and> (session_transparent s \<longrightarrow> session_transparent s')"
  using assms
proof (induction cs arbitrary: s m out)
  case Nil
  then show ?case by (auto simp: reports_def)
next
  case (Cons c cs)
  obtain a s1 where a: "session_push c s = (a, s1)" by fastforce
  obtain b where b: "push_chunks cs s1 = (b, s')" and out: "out = a @ b" using Cons.prems(3) a by (auto split: prod.splits)
  obtain m1 where 1: "resting s1 m1" "global_offset s1 = global_offset s + length c"
    "reports n (session_transparent s) m a m1" "session_transparent s \<Longrightarrow> session_transparent s1"
    using session_push_reports [OF Cons.prems(1) _ a, of n] Cons.prems(2) by auto
  have "global_offset s1 + length (concat cs) \<le> n" using Cons.prems(2) 1(2) by simp
  from Cons.IH [OF 1(1) this b] obtain m2 where 2: "resting s' m2" "global_offset s' = global_offset s1 + length (concat cs)"
    "reports n (session_transparent s1) m1 b m2" "session_transparent s1 \<longrightarrow> session_transparent s'" by blast
  have "reports n (session_transparent s \<and> session_transparent s1) m out m2"
    unfolding out by (rule reports_append [OF 1(3) 2(3)])
  with 1 2 show ?case by (auto simp: reports_def)
qed

lemma split_chunks_reports:
  assumes "n = length (concat cs)"
  shows "reports n (session_transparent (session_new es)) 0 (split_chunks es cs) n"
proof -
  obtain a s where a: "push_chunks cs (session_new es) = (a, s)" by fastforce
  obtain b s' where b: "session_finish s = (b, s')" by fastforce
  have "global_offset (session_new es) + length (concat cs) \<le> n" using assms session_new_resting [of es] by simp
  from push_chunks_reports [OF conjunct1 [OF session_new_resting] this a] session_new_resting [of es] assms
  obtain m where m: "resting s m" "global_offset s = n" "reports n (session_transparent (session_new es)) 0 a m" by auto
  have "reports n True m b n" using session_finish_reports [OF m(1) _ b, of n] m(2) by simp
  from reports_append [OF m(3) this] show ?thesis by (simp add: split_chunks_def a b)
qed

section \<open>Cutting the text does not matter\<close>












section \<open>The properties\<close>

definition segment_indices :: "Segment list \<Rightarrow> nat list" where
  "segment_indices gs = concat (map (\<lambda>g. if seg_type g = SEG_BREAK then [] else [seg_start g..<seg_end g]) gs)"

lemma segment_indices_events: "segment_indices gs = event_indices (segments_events gs)"
  by (induction gs) (simp_all add: segment_indices_def segments_events_def seg_events_def)

text \<open>C23: However the text arrives, the segments stay inside it and list its characters in order, each at
  most once; when every plugin passes its delimiters on, each character is listed exactly once.\<close>

theorem segments_cover_text:
  "(\<forall>g\<in>set (split_chunks es cs). seg_start g \<le> seg_end g \<and> seg_end g \<le> length (concat cs))
   \<and> subseq (segment_indices (split_chunks es cs)) [0..<length (concat cs)]
   \<and> (length es \<le> 32 \<longrightarrow> (\<forall>e\<in>set es. transparent (entry_plugin e))
       \<longrightarrow> segment_indices (split_chunks es cs) = [0..<length (concat cs)])"
  using split_chunks_reports [OF refl, of cs es] session_new_transparent [of es]
  by (auto simp: reports_def seg_ok_def segment_indices_events)

theorem segments_cover_text_witness:
  "segment_indices (split_chunks [\<lparr>entry_plugin = HeaderPlugin (header_new True), entry_tag = HeaderT\<rparr>]
     [chars ''a'', chars ''# b'']) = [0..<4]"
  using segments_cover_text [of "[\<lparr>entry_plugin = HeaderPlugin (header_new True), entry_tag = HeaderT\<rparr>]"
      "[chars ''a'', chars ''# b'']"]
  by (simp add: header_new_def header_reset_def chars_def eval_nat_numeral)


text \<open>The ordinals that cross the bridge name the node kinds one to one.\<close>

theorem ordinal_roundtrip: "from_ordinal v = Some t \<longleftrightarrow> v = type_ordinal t"
  by (cases t) (auto simp: from_ordinal_def)

end
