(* ===== verification/Markdown_Nodes.thy ===== *)
theory Markdown_Nodes
  imports Inline_Tokens Markdown_Coverage
begin

text \<open>
  The node trees of the renderer (\<open>NativeMarkdownSplitter.rs\<close>): inline tokens become a tree over a
  stack of open nodes, block segments become nodes with the text they span.  \<open>None\<close> stands for a
  failed assertion or a parser that does not return; neither happens.
\<close>

section \<open>Definitions\<close>

datatype MarkdownNodeStable =
  Node (node_type: MarkdownProcessorType) (node_content: "rchar list") (node_children: "MarkdownNodeStable list")
    (node_link: "rchar list option")

text \<open>Text goes to the last child when that is a leaf of its kind.\<close>

definition add_text :: "MarkdownProcessorType \<Rightarrow> rchar list \<Rightarrow> MarkdownNodeStable list \<Rightarrow> MarkdownNodeStable list" where
  "add_text t cs children =
     (if children \<noteq> [] \<and> node_type (last children) = t \<and> node_children (last children) = []
      then butlast children @ [Node t (node_content (last children) @ cs) [] (node_link (last children))]
      else children @ [Node t cs [] None])"

definition extend_content :: "rchar list \<Rightarrow> MarkdownNodeStable \<Rightarrow> MarkdownNodeStable" where
  "extend_content cs n = Node (node_type n) (node_content n @ cs) (node_children n) (node_link n)"

definition with_children :: "MarkdownNodeStable list \<Rightarrow> MarkdownNodeStable \<Rightarrow> MarkdownNodeStable" where
  "with_children cs n = Node (node_type n) (node_content n) cs (node_link n)"

text \<open>The stack has its top first.\<close>

fun add_token :: "InlineToken \<Rightarrow> MarkdownNodeStable list \<Rightarrow> MarkdownNodeStable list" where
  "add_token (OpenToken kind url) stack = Node (processor_type kind) [] [] url # stack"
| "add_token CloseToken (n # m # stack) = with_children (node_children m @ [n]) m # stack"
| "add_token CloseToken stack = stack"
| "add_token (TextToken kind cs) stack =
     (case map (extend_content cs) stack of
        [] \<Rightarrow> []
      | n # stack \<Rightarrow> with_children (add_text (processor_type kind) cs (node_children n)) n # stack)"

definition token_nodes :: "InlineToken list \<Rightarrow> MarkdownNodeStable list" where
  "token_nodes toks = node_children (hd (fold add_token toks [Node PlainTextT [] [] None]))"

definition native_markdown_split_by_inline :: "(rchar \<Rightarrow> bool) \<Rightarrow> rchar list \<Rightarrow> MarkdownNodeStable list option" where
  "native_markdown_split_by_inline alnum content =
     Option.bind (inline_push alnum content create_inline_session) (\<lambda>(s, toks).
       Some (token_nodes (toks @ snd (inline_finish alnum s))))"

definition is_inline_container :: "MarkdownProcessorType \<Rightarrow> bool" where
  "is_inline_container t \<longleftrightarrow> t \<noteq> CodeBlockT \<and> t \<noteq> BlockLatexT \<and> t \<noteq> TableT \<and> t \<noteq> XmlBlockT"

text \<open>The offsets are those of the characters, so a slice between two of them is a list of characters.\<close>

definition segment_nodes :: "(rchar \<Rightarrow> bool) \<Rightarrow> rchar list \<Rightarrow> bool \<Rightarrow> Segment \<Rightarrow> MarkdownNodeStable list option" where
  "segment_nodes alnum content parse_inline g =
     (if seg_type g < 0 then Some []
      else
        let t = (case from_ordinal (seg_type g) of Some t \<Rightarrow> t | None \<Rightarrow> PlainTextT)
        in if \<not> (seg_start g \<le> seg_end g \<and> seg_end g < length content + 1) then None
           else
             let text = (if t = HtmlBreakT then [newline] else take (seg_end g - seg_start g) (drop (seg_start g) content))
             in if text = [] then Some []
                else Option.bind (if parse_inline \<and> is_inline_container t then native_markdown_split_by_inline alnum text else Some [])
                  (\<lambda>children. Some [Node t text children None]))"

fun segments_to_stable_nodes :: "(rchar \<Rightarrow> bool) \<Rightarrow> rchar list \<Rightarrow> Segment list \<Rightarrow> bool \<Rightarrow> MarkdownNodeStable list option" where
  "segments_to_stable_nodes alnum content [] parse_inline = Some []"
| "segments_to_stable_nodes alnum content (g # gs) parse_inline =
     Option.bind (segment_nodes alnum content parse_inline g) (\<lambda>a.
       Option.bind (segments_to_stable_nodes alnum content gs parse_inline) (\<lambda>b. Some (a @ b)))"

definition native_markdown_split_by_block :: "(rchar \<Rightarrow> bool) \<Rightarrow> rchar list \<Rightarrow> MarkdownNodeStable list option" where
  "native_markdown_split_by_block alnum content =
     (let (a, s) = session_push content create_block_session;
          (b, _) = session_finish s
      in segments_to_stable_nodes alnum content (a @ b) True)"

section \<open>The tree holds the text of its tokens\<close>

text \<open>A node with children has their text.\<close>

fun node_ok :: "MarkdownNodeStable \<Rightarrow> bool" where
  "node_ok (Node t cs children url) \<longleftrightarrow> (children \<noteq> [] \<longrightarrow> cs = concat (map node_content children)) \<and> list_all node_ok children"

lemma node_ok_iff:
  "node_ok n \<longleftrightarrow> (node_children n \<noteq> [] \<longrightarrow> node_content n = concat (map node_content (node_children n)))
     \<and> list_all node_ok (node_children n)"
  by (cases n) simp

text \<open>An open node has the text of its closed children and of the node that is open inside it.\<close>

fun stack_ok :: "rchar list \<Rightarrow> MarkdownNodeStable list \<Rightarrow> bool" where
  "stack_ok inner [] = True"
| "stack_ok inner (n # stack) \<longleftrightarrow> node_content n = concat (map node_content (node_children n)) @ inner
     \<and> list_all node_ok (node_children n) \<and> stack_ok (node_content n) stack"

lemma add_text_ok:
  "list_all node_ok ns \<Longrightarrow> list_all node_ok (add_text t cs ns)
   \<and> concat (map node_content (add_text t cs ns)) = concat (map node_content ns) @ cs"
  by (cases ns rule: rev_cases) (auto simp: add_text_def)

lemma stack_ok_extend:
  "stack_ok inner stack \<Longrightarrow> stack_ok (inner @ cs) (map (extend_content cs) stack)"
  by (induction inner stack rule: stack_ok.induct) (auto simp: extend_content_def)

lemma add_token_ok:
  assumes "stack_ok [] stack" and "stack \<noteq> []" and "nest_within m (length stack - 1) (token_events tok) = Some d"
  shows "stack_ok [] (add_token tok stack) \<and> length (add_token tok stack) = Suc d
    \<and> node_content (last (add_token tok stack)) = node_content (last stack) @ event_text (token_events tok)"
proof (cases tok)
  case (OpenToken kind url)
  with assms show ?thesis by (cases stack) (auto split: if_splits)
next
  case CloseToken
  with assms obtain n k stack' where "stack = n # k # stack'"
    by (cases stack rule: list.exhaust, simp) (auto simp: neq_Nil_conv split: if_splits)
  with CloseToken assms show ?thesis by (auto simp: with_children_def node_ok_iff)
next
  case (TextToken kind cs)
  obtain n stack' where s: "stack = n # stack'" using assms(2) by (cases stack) auto
  let ?n = "with_children (add_text (processor_type kind) cs (node_children n)) (extend_content cs n)"
  have "add_token tok stack = ?n # map (extend_content cs) stack'" by (simp add: TextToken s extend_content_def)
  moreover have "stack_ok [] (?n # map (extend_content cs) stack')"
    using assms(1) add_text_ok [of "node_children n" "processor_type kind" cs] stack_ok_extend [of "node_content n" stack' cs]
    by (auto simp: s with_children_def extend_content_def)
  moreover have "node_content (last (?n # map (extend_content cs) stack')) = node_content (last stack) @ cs"
    by (simp add: s last_map with_children_def extend_content_def)
  ultimately show ?thesis using assms(3) by (simp only: TextToken s) simp
qed

lemma fold_add_token_ok:
  assumes "stack_ok [] stack" and "stack \<noteq> []" and "nest_within m (length stack - 1) (events_of toks) = Some d"
  shows "stack_ok [] (fold add_token toks stack) \<and> length (fold add_token toks stack) = Suc d
    \<and> node_content (last (fold add_token toks stack)) = node_content (last stack) @ event_text (events_of toks)"
  using assms
proof (induction toks arbitrary: stack)
  case Nil
  then show ?case by (cases stack) auto
next
  case (Cons tok toks)
  then obtain e where e: "nest_within m (length stack - 1) (token_events tok) = Some e" "nest_within m e (events_of toks) = Some d"
    by (auto simp: nest_within_append bind_eq_Some_conv)
  note step = add_token_ok [OF Cons.prems(1,2) e(1)]
  then have "add_token tok stack \<noteq> []" by auto
  with Cons.IH [of "add_token tok stack"] step e(2) show ?case by simp
qed

lemma token_nodes_text:
  assumes "nest_within m 0 (events_of toks) = Some 0"
  shows "list_all node_ok (token_nodes toks) \<and> concat (map node_content (token_nodes toks)) = event_text (events_of toks)"
proof -
  let ?stack = "fold add_token toks [Node PlainTextT [] [] None]"
  have *: "stack_ok [] ?stack \<and> length ?stack = Suc 0 \<and> node_content (last ?stack) = event_text (events_of toks)"
    using fold_add_token_ok [of "[Node PlainTextT [] [] None]" m toks 0] assms by simp
  then obtain n where "?stack = [n]" by (auto simp: length_Suc_conv)
  with * show ?thesis by (auto simp: token_nodes_def)
qed

lemma split_by_inline_tokens:
  "native_markdown_split_by_inline alnum content = map_option token_nodes (inline_tokens alnum [content])"
  by (cases "inline_push alnum content create_inline_session")
    (auto simp: native_markdown_split_by_inline_def inline_tokens_def)

lemma inline_nodes:
  "\<exists>nodes. native_markdown_split_by_inline alnum content = Some nodes \<and> list_all node_ok nodes
     \<and> subseq (concat (map node_content nodes)) content"
proof -
  obtain toks where "inline_tokens alnum [content] = Some toks" "nest_within 25 0 (events_of toks) = Some 0"
    "subseq (event_text (events_of toks)) content"
    using inline_tokens_correct [of alnum "[content]"] by auto
  with token_nodes_text [of 25 toks] show ?thesis by (simp add: split_by_inline_tokens)
qed

text \<open>Inline parsing always gives a forest in which a node with children has exactly their text, and whose text is
  taken from the input in order.\<close>

theorem inline_forest:
  "\<exists>nodes. native_markdown_split_by_inline alnum content = Some nodes \<and> list_all node_ok nodes
     \<and> subseq (concat (map node_content nodes)) content"
  by (rule inline_nodes)

section \<open>Block nodes\<close>

lemma slice_upt: "e \<le> length xs \<Longrightarrow> take (e - s) (drop s xs) = map ((!) xs) [s..<e]"
  by (rule nth_equalityI) simp_all

definition outside_breaks :: "MarkdownNodeStable list \<Rightarrow> rchar list" where
  "outside_breaks nodes = concat (map node_content (filter (\<lambda>n. node_type n \<noteq> HtmlBreakT) nodes))"

text \<open>A node with text, whose children hold text of it in order.\<close>

definition block_node_ok :: "MarkdownNodeStable \<Rightarrow> bool" where
  "block_node_ok n \<longleftrightarrow> node_content n \<noteq> [] \<and> list_all node_ok (node_children n)
     \<and> subseq (concat (map node_content (node_children n))) (node_content n)"

lemma segment_nodes_ok:
  assumes "seg_start g \<le> seg_end g" and "seg_end g \<le> length content"
  shows "\<exists>nodes. segment_nodes alnum content p g = Some nodes \<and> list_all block_node_ok nodes
    \<and> subseq (outside_breaks nodes) (if seg_type g < 0 then [] else map ((!) content) [seg_start g..<seg_end g])"
proof (cases "seg_type g < 0")
  case True
  then show ?thesis by (simp add: segment_nodes_def outside_breaks_def)
next
  case False
  define t where "t = (case from_ordinal (seg_type g) of Some t \<Rightarrow> t | None \<Rightarrow> PlainTextT)"
  define cs where "cs = (if t = HtmlBreakT then [newline] else take (seg_end g - seg_start g) (drop (seg_start g) content))"
  have slice: "subseq (if t = HtmlBreakT then [] else cs) (map ((!) content) [seg_start g..<seg_end g])"
    using slice_upt [OF assms(2), of "seg_start g"] by (simp add: cs_def)
  obtain children where c: "(if p \<and> is_inline_container t then native_markdown_split_by_inline alnum cs else Some []) = Some children"
    "list_all node_ok children" "subseq (concat (map node_content children)) cs"
    using inline_nodes [of alnum cs] by (cases "p \<and> is_inline_container t") auto
  have "segment_nodes alnum content p g = (if cs = [] then Some [] else Some [Node t cs children None])"
    using False assms c(1)
    by (auto simp: segment_nodes_def Let_def t_def [symmetric] cs_def [symmetric] split: if_splits)
  with c(2,3) slice False show ?thesis by (auto simp: outside_breaks_def block_node_ok_def split: if_splits)
qed

lemma stable_nodes_ok:
  assumes "\<forall>g\<in>set gs. seg_start g \<le> seg_end g \<and> seg_end g \<le> length content"
  shows "\<exists>nodes. segments_to_stable_nodes alnum content gs p = Some nodes \<and> list_all block_node_ok nodes
    \<and> subseq (outside_breaks nodes) (map ((!) content) (segment_indices gs))"
  using assms
proof (induction gs)
  case (Cons g gs)
  obtain a where a: "segment_nodes alnum content p g = Some a" "list_all block_node_ok a"
    "subseq (outside_breaks a) (if seg_type g < 0 then [] else map ((!) content) [seg_start g..<seg_end g])"
    using segment_nodes_ok [of g content alnum p] Cons.prems by auto
  obtain b where b: "segments_to_stable_nodes alnum content gs p = Some b" "list_all block_node_ok b"
    "subseq (outside_breaks b) (map ((!) content) (segment_indices gs))" using Cons by auto
  have "subseq (outside_breaks a) (map ((!) content) (segment_indices [g]))"
    using a(3) by (auto simp: segment_indices_def SEG_BREAK_def split: if_splits intro: subseq_order.order_trans)
  with b(3) have "subseq (outside_breaks (a @ b)) (map ((!) content) (segment_indices (g # gs)))"
    using list_emb_append_mono [of "(=)" "outside_breaks a" _ "outside_breaks b"]
    by (simp add: outside_breaks_def segment_indices_def)
  with a b show ?case by simp
qed (simp add: outside_breaks_def segment_indices_def)

lemma split_chunks_single: "split_chunks es [content] = fst (session_push content (session_new es))
    @ fst (session_finish (snd (session_push content (session_new es))))"
  by (simp add: split_chunks_def split_def Let_def)

text \<open>C27: Parsing a text into blocks never fails an assertion: each block has text, its inline children hold text of it in
  order, and apart from line breaks the blocks hold text of the input in order, no character twice.\<close>

theorem block_forest:
  "\<exists>nodes. native_markdown_split_by_block alnum content = Some nodes \<and> list_all block_node_ok nodes
     \<and> subseq (outside_breaks nodes) content"
proof -
  have "reports (length content) (session_transparent create_block_session) 0 (split_chunks block_plugins [content]) (length content)"
    using split_chunks_reports [of "length content" "[content]" block_plugins] by (simp add: create_block_session_def)
  then have segs: "\<forall>g\<in>set (split_chunks block_plugins [content]). seg_start g \<le> seg_end g \<and> seg_end g \<le> length content"
    "subseq (segment_indices (split_chunks block_plugins [content])) [0..<length content]"
    by (auto simp: reports_def seg_ok_def segment_indices_events)
  obtain nodes where n: "segments_to_stable_nodes alnum content (split_chunks block_plugins [content]) True = Some nodes"
    "list_all block_node_ok nodes"
    "subseq (outside_breaks nodes) (map ((!) content) (segment_indices (split_chunks block_plugins [content])))"
    using stable_nodes_ok [OF segs(1)] by blast
  moreover have "subseq (map ((!) content) (segment_indices (split_chunks block_plugins [content]))) content"
    using subseq_map [OF segs(2), of "(!) content"] by (simp add: map_nth)
  moreover have "native_markdown_split_by_block alnum content = Some nodes"
    using n(1) by (simp add: native_markdown_split_by_block_def create_block_session_def split_chunks_single split_def)
  ultimately show ?thesis using subseq_order.order_trans by blast
qed

end
