(* ===== verification/Json_Xml.thy ===== *)
theory Json_Xml
  imports Stream_Plugin
begin

text \<open>
  The arguments of a tool call arrive as a JSON object and are shown as XML parameters while they
  arrive (\<open>StreamingJsonXmlConverter.rs\<close>): the machine, the form of what it emits, and that an object of
  strings becomes the parameters it holds.
\<close>

section \<open>Definitions\<close>

datatype XmlEvent = TagEvent "rchar list" | ContentEvent "rchar list"

datatype ConverterState = WaitBrace | WaitKeyQuote | ReadKey | WaitColon | WaitValue | ReadString | ReadPrimitive
  | EscapeState | UnicodeEscape | WaitComma

record StreamingJsonXmlConverter =
  cv_state :: ConverterState
  cv_buffer :: "rchar list"
  unicode_count :: nat
  primitive_nesting_depth :: int
  primitive_in_string :: bool
  primitive_escape :: bool
  key_escape :: bool
  reading_complex_value :: bool
  has_open_param :: bool

definition converter_new :: StreamingJsonXmlConverter where
  "converter_new = \<lparr>cv_state = WaitBrace, cv_buffer = [], unicode_count = 0, primitive_nesting_depth = 0,
     primitive_in_string = False, primitive_escape = False, key_escape = False, reading_complex_value = False,
     has_open_param = False\<rparr>"

definition has_unfinished_param :: "StreamingJsonXmlConverter \<Rightarrow> bool" where
  "has_unfinished_param s = has_open_param s"

text \<open>\<open>str::replace\<close> of a character, and the entities in the order of the source.\<close>

definition replace_char :: "rchar \<Rightarrow> rchar list \<Rightarrow> rchar list \<Rightarrow> rchar list" where
  "replace_char c r cs = concat (map (\<lambda>x. if x = c then r else [x]) cs)"

definition escape_xml :: "rchar list \<Rightarrow> rchar list" where
  "escape_xml cs =
     replace_char 39 (chars ''&apos;'') (replace_char 34 (chars ''&quot;'') (replace_char (ch CHR ''>'') (chars ''&gt;'')
       (replace_char (ch CHR ''<'') (chars ''&lt;'') (replace_char (ch CHR ''&'') (chars ''&amp;'') cs))))"

definition open_tag :: "rchar list \<Rightarrow> XmlEvent" where
  "open_tag key = TagEvent (newline # chars ''  <param name='' @ [34] @ key @ [34] @ chars ''>'')"

definition close_tag :: XmlEvent where
  "close_tag = TagEvent (chars ''</param>'')"

definition reset_primitive_tracking :: "StreamingJsonXmlConverter \<Rightarrow> StreamingJsonXmlConverter" where
  "reset_primitive_tracking s = s\<lparr>primitive_nesting_depth := 0, primitive_in_string := False, primitive_escape := False,
     reading_complex_value := False\<rparr>"

definition emit_primitive_param :: "StreamingJsonXmlConverter \<Rightarrow> StreamingJsonXmlConverter \<times> XmlEvent list" where
  "emit_primitive_param s = (reset_primitive_tracking (s\<lparr>has_open_param := False, cv_buffer := []\<rparr>),
     [ContentEvent (escape_xml (cv_buffer s)), close_tag])"

definition push_char :: "rchar \<Rightarrow> StreamingJsonXmlConverter \<Rightarrow> StreamingJsonXmlConverter" where
  "push_char c s = s\<lparr>cv_buffer := cv_buffer s @ [c]\<rparr>"

definition read_primitive_char :: "rchar \<Rightarrow> StreamingJsonXmlConverter \<Rightarrow> StreamingJsonXmlConverter \<times> XmlEvent list" where
  "read_primitive_char c s =
     (if reading_complex_value s then
        if primitive_in_string s then
          let s = push_char c s
          in (if primitive_escape s then s\<lparr>primitive_escape := False\<rparr>
              else if c = 0x5C then s\<lparr>primitive_escape := True\<rparr>
              else if c = 34 then s\<lparr>primitive_in_string := False\<rparr> else s, [])
        else if c = 34 then (push_char c (s\<lparr>primitive_in_string := True\<rparr>), [])
        else if c \<in> {ch CHR ''['', ch CHR ''{''}
        then (push_char c (s\<lparr>primitive_nesting_depth := primitive_nesting_depth s + 1\<rparr>), [])
        else if c \<in> {ch CHR '']'', ch CHR ''}''} then
          let s = push_char c (s\<lparr>primitive_nesting_depth := primitive_nesting_depth s - 1\<rparr>)
          in if primitive_nesting_depth s = 0
             then let (s, es) = emit_primitive_param s in (s\<lparr>cv_state := WaitComma\<rparr>, es)
             else (s, [])
        else (push_char c s, [])
      else if c = ch CHR '','' \<or> c = ch CHR ''}'' \<or> is_whitespace c then
        let (s, es) = emit_primitive_param s
        in (s\<lparr>cv_state := (if c = ch CHR '','' then WaitKeyQuote else if c = ch CHR ''}'' then WaitBrace else WaitComma)\<rparr>, es)
      else (push_char c s, []))"

definition unescaped :: "rchar \<Rightarrow> rchar" where
  "unescaped c = (if c = ch CHR ''n'' then newline else if c = ch CHR ''r'' then 13 else if c = ch CHR ''t'' then tab
     else if c = ch CHR ''b'' then 8 else if c = ch CHR ''f'' then 12 else c)"

definition hex_digit :: "rchar \<Rightarrow> nat option" where
  "hex_digit c = (if is_digit c then Some (c - 48) else if 97 \<le> c \<and> c \<le> 102 then Some (c - 87)
     else if 65 \<le> c \<and> c \<le> 70 then Some (c - 55) else None)"

text \<open>\<open>u32::from_str_radix(_, 16)\<close> on four characters: one plus sign may come first.\<close>

fun read_hex :: "nat \<Rightarrow> rchar list \<Rightarrow> nat option" where
  "read_hex v [] = Some v"
| "read_hex v (c # cs) = (case hex_digit c of Some d \<Rightarrow> read_hex (16 * v + d) cs | None \<Rightarrow> None)"

definition from_hex :: "rchar list \<Rightarrow> nat option" where
  "from_hex cs = (let cs = (if cs \<noteq> [] \<and> hd cs = ch CHR ''+'' then tl cs else cs) in if cs = [] then None else read_hex 0 cs)"

text \<open>\<open>char::from_u32\<close>: surrogates are no characters.\<close>

definition char_from_u32 :: "nat \<Rightarrow> rchar option" where
  "char_from_u32 n = (if n < 0xD800 \<or> 0xDFFF < n \<and> n < 0x110000 then Some n else None)"

definition read_unicode :: "rchar \<Rightarrow> StreamingJsonXmlConverter \<Rightarrow> StreamingJsonXmlConverter \<times> XmlEvent list" where
  "read_unicode c s =
     (let s = push_char c (s\<lparr>unicode_count := unicode_count s + 1\<rparr>)
      in if unicode_count s = 4
         then (s\<lparr>cv_state := ReadString\<rparr>,
               case Option.bind (from_hex (cv_buffer s)) char_from_u32 of
                 Some d \<Rightarrow> [ContentEvent (escape_xml [d])] | None \<Rightarrow> [])
         else (s, []))"

definition start_primitive :: "rchar \<Rightarrow> StreamingJsonXmlConverter \<Rightarrow> StreamingJsonXmlConverter" where
  "start_primitive c s =
     (let complex = c \<in> {ch CHR ''['', ch CHR ''{''}
      in s\<lparr>cv_state := ReadPrimitive, cv_buffer := [c], reading_complex_value := complex,
           primitive_nesting_depth := (if complex then 1 else 0), primitive_in_string := False, primitive_escape := False\<rparr>)"

definition feed_char :: "rchar \<Rightarrow> StreamingJsonXmlConverter \<Rightarrow> StreamingJsonXmlConverter \<times> XmlEvent list" where
  "feed_char c s =
     (case cv_state s of
        WaitBrace \<Rightarrow> (if c = ch CHR ''{'' then s\<lparr>cv_state := WaitKeyQuote\<rparr> else s, [])
      | WaitKeyQuote \<Rightarrow>
          (if c = 34 then s\<lparr>cv_state := ReadKey, key_escape := False, cv_buffer := []\<rparr>
           else if c = ch CHR ''}'' then s\<lparr>cv_state := WaitBrace\<rparr> else s, [])
      | ReadKey \<Rightarrow>
          if key_escape s then ((push_char c s)\<lparr>key_escape := False\<rparr>, [])
          else if c = 0x5C then (s\<lparr>key_escape := True\<rparr>, [])
          else if c = 34 then (s\<lparr>has_open_param := True, cv_state := WaitColon\<rparr>, [open_tag (cv_buffer s)])
          else (push_char c s, [])
      | WaitColon \<Rightarrow> (if c = ch CHR '':'' then s\<lparr>cv_state := WaitValue\<rparr> else s, [])
      | WaitValue \<Rightarrow>
          (if is_whitespace c then s else if c = 34 then s\<lparr>cv_state := ReadString\<rparr> else start_primitive c s, [])
      | ReadString \<Rightarrow>
          if c = 34 then (s\<lparr>cv_state := WaitComma, has_open_param := False\<rparr>, [close_tag])
          else if c = 0x5C then (s\<lparr>cv_state := EscapeState\<rparr>, [])
          else (s, [ContentEvent (escape_xml [c])])
      | EscapeState \<Rightarrow>
          if c = ch CHR ''u'' then (s\<lparr>cv_state := UnicodeEscape, unicode_count := 0, cv_buffer := []\<rparr>, [])
          else (s\<lparr>cv_state := ReadString\<rparr>, [ContentEvent (escape_xml [unescaped c])])
      | UnicodeEscape \<Rightarrow> read_unicode c s
      | ReadPrimitive \<Rightarrow> read_primitive_char c s
      | WaitComma \<Rightarrow>
          (if c = ch CHR '','' then s\<lparr>cv_state := WaitKeyQuote\<rparr>
           else if c = ch CHR ''}'' then s\<lparr>cv_state := WaitBrace\<rparr> else s, []))"

fun feed :: "rchar list \<Rightarrow> StreamingJsonXmlConverter \<Rightarrow> StreamingJsonXmlConverter \<times> XmlEvent list" where
  "feed [] s = (s, [])"
| "feed (c # cs) s = (let (s, a) = feed_char c s; (s, b) = feed cs s in (s, a @ b))"

definition can_finalize_primitive_on_flush :: "StreamingJsonXmlConverter \<Rightarrow> bool" where
  "can_finalize_primitive_on_flush s \<longleftrightarrow> cv_state s = ReadPrimitive \<and> cv_buffer s \<noteq> []
     \<and> (\<not> reading_complex_value s \<or> primitive_nesting_depth s = 0 \<and> \<not> primitive_in_string s \<and> \<not> primitive_escape s)"

definition converter_flush :: "StreamingJsonXmlConverter \<Rightarrow> StreamingJsonXmlConverter \<times> XmlEvent list" where
  "converter_flush s = (if can_finalize_primitive_on_flush s then emit_primitive_param s else (s, []))"

section \<open>Escaping\<close>

lemma replace_char_append [simp]: "replace_char c r (a @ b) = replace_char c r a @ replace_char c r b"
  by (simp add: replace_char_def)

lemma escape_xml_append: "escape_xml (a @ b) = escape_xml a @ escape_xml b"
  by (simp add: escape_xml_def)

lemma escape_xml_char:
  "escape_xml [c] =
     (if c = ch CHR ''&'' then chars ''&amp;'' else if c = ch CHR ''<'' then chars ''&lt;''
      else if c = ch CHR ''>'' then chars ''&gt;'' else if c = 34 then chars ''&quot;''
      else if c = 39 then chars ''&apos;'' else [c])"
  by (simp add: escape_xml_def replace_char_def chars_def ch_def)

lemma escape_xml_Cons: "escape_xml (c # cs) = escape_xml [c] @ escape_xml cs"
  using escape_xml_append [of "[c]" cs] by simp

lemma escape_xml_Nil [simp]: "escape_xml [] = []"
  by (simp add: escape_xml_def replace_char_def)

text \<open>What a reader of XML makes of text with entities.\<close>

definition entities :: "(rchar list \<times> rchar) list" where
  "entities = [(chars ''amp;'', ch CHR ''&''), (chars ''lt;'', ch CHR ''<''), (chars ''gt;'', ch CHR ''>''),
     (chars ''quot;'', 34), (chars ''apos;'', 39)]"

function unescape_xml :: "rchar list \<Rightarrow> rchar list" where
  "unescape_xml [] = []"
| "unescape_xml (c # cs) =
     (if c = ch CHR ''&'' then
        case List.find (\<lambda>(name, d). take (length name) cs = name) entities of
          Some (name, d) \<Rightarrow> d # unescape_xml (drop (length name) cs)
        | None \<Rightarrow> c # unescape_xml cs
      else c # unescape_xml cs)"
  by pat_completeness auto
termination
  by (relation "measure length") auto

lemma unescape_escape: "unescape_xml (escape_xml cs) = cs"
proof (induction cs)
  case (Cons c cs)
  then show ?case unfolding escape_xml_Cons [of c cs] escape_xml_char
    by (simp add: entities_def chars_def ch_def)
qed simp

lemma escape_xml_safe: "set (escape_xml cs) \<inter> {ch CHR ''<'', ch CHR ''>'', 34, 39} = {}"
proof (induction cs)
  case (Cons c cs)
  then show ?case unfolding escape_xml_Cons [of c cs] escape_xml_char by (auto simp: chars_def ch_def)
qed simp

section \<open>The form of what is emitted\<close>

text \<open>Parameters one after another: an opening tag, contents without markup, a closing tag.\<close>

fun param_form :: "bool \<Rightarrow> XmlEvent list \<Rightarrow> bool option" where
  "param_form opened [] = Some opened"
| "param_form opened (TagEvent t # es) =
     (if TagEvent t = close_tag then (if opened then param_form False es else None)
      else if opened then None else param_form True es)"
| "param_form opened (ContentEvent t # es) =
     (if opened \<and> set t \<inter> {ch CHR ''<'', ch CHR ''>'', 34, 39} = {} then param_form opened es else None)"

lemma param_form_append: "param_form b (xs @ ys) = Option.bind (param_form b xs) (\<lambda>b. param_form b ys)"
  by (induction b xs rule: param_form.induct) simp_all

lemma open_not_close [simp]: "open_tag key \<noteq> close_tag"
  by (simp add: open_tag_def close_tag_def chars_def newline_def ch_def)

lemma param_form_simps [simp]:
  "param_form b (close_tag # es) = (if b then param_form False es else None)"
  "param_form b (open_tag key # es) = (if b then None else param_form True es)"
  "param_form b (ContentEvent (escape_xml cs) # es) = (if b then param_form b es else None)"
  using open_not_close [of key] escape_xml_safe [of cs] by (simp_all add: open_tag_def close_tag_def)

definition converter_ok :: "StreamingJsonXmlConverter \<Rightarrow> bool" where
  "converter_ok s \<longleftrightarrow> (has_open_param s \<longleftrightarrow>
     cv_state s \<in> {WaitColon, WaitValue, ReadString, ReadPrimitive, EscapeState, UnicodeEscape})"

lemma push_char_fields [simp]:
  "cv_state (push_char c s) = cv_state s" "has_open_param (push_char c s) = has_open_param s"
  "primitive_nesting_depth (push_char c s) = primitive_nesting_depth s" "unicode_count (push_char c s) = unicode_count s"
  "primitive_escape (push_char c s) = primitive_escape s"
  by (simp_all add: push_char_def)

lemma reset_primitive_fields [simp]:
  "cv_state (reset_primitive_tracking s) = cv_state s" "has_open_param (reset_primitive_tracking s) = has_open_param s"
  by (simp_all add: reset_primitive_tracking_def)

lemma emit_primitive_form:
  "param_form True (snd (emit_primitive_param s)) = Some False" "\<not> has_open_param (fst (emit_primitive_param s))"
  by (simp_all add: emit_primitive_param_def del: param_form.simps(2,3))

lemma read_primitive_form:
  assumes "has_open_param s" and "cv_state s = ReadPrimitive"
  shows "converter_ok (fst (read_primitive_char c s))
    \<and> param_form True (snd (read_primitive_char c s)) = Some (has_open_param (fst (read_primitive_char c s)))"
proof (cases "reading_complex_value s")
  case True
  then show ?thesis
    using assms emit_primitive_form
    by (cases "primitive_in_string s") (simp_all add: read_primitive_char_def converter_ok_def Let_def split_def)
next
  case False
  then show ?thesis
    using assms emit_primitive_form by (simp add: read_primitive_char_def converter_ok_def Let_def split_def)
qed

lemma feed_char_form:
  assumes "converter_ok s"
  shows "converter_ok (fst (feed_char c s))
    \<and> param_form (has_open_param s) (snd (feed_char c s)) = Some (has_open_param (fst (feed_char c s)))"
proof (cases "cv_state s")
  case ReadPrimitive
  with assms have "has_open_param s" by (simp add: converter_ok_def)
  with ReadPrimitive read_primitive_form [of s c] show ?thesis by (simp add: feed_char_def)
qed (use assms in \<open>auto simp: feed_char_def converter_ok_def read_unicode_def start_primitive_def Let_def
    simp del: param_form.simps(2,3) split: option.split\<close>)

lemma feed_form:
  assumes "converter_ok s"
  shows "converter_ok (fst (feed cs s)) \<and> param_form (has_open_param s) (snd (feed cs s)) = Some (has_open_param (fst (feed cs s)))"
  using assms
proof (induction cs arbitrary: s)
  case (Cons c cs)
  with feed_char_form [of s c] Cons.IH [of "fst (feed_char c s)"] show ?case
    by (simp add: Let_def split_def param_form_append)
qed simp

text \<open>Whatever arrives, the events are parameters one after another, contents carry no markup, and an unfinished
  parameter is reported exactly when the last one is open.\<close>

theorem converter_events_form:
  "param_form False (snd (feed cs converter_new)) = Some (has_unfinished_param (fst (feed cs converter_new)))"
  using feed_form [of converter_new cs] by (simp add: converter_ok_def converter_new_def has_unfinished_param_def)

section \<open>Objects of strings\<close>

lemma feed_append: "feed (a @ b) s = (let (s, x) = feed a s; (s, y) = feed b s in (s, x @ y))"
  by (induction a arbitrary: s) (simp_all add: Let_def split_def)

definition hex_char :: "nat \<Rightarrow> rchar" where
  "hex_char d = (if d < 10 then 48 + d else 87 + d)"

text \<open>A character inside a JSON string, as serializers write it.\<close>

definition json_char :: "rchar \<Rightarrow> rchar list" where
  "json_char c =
     (if c = 34 then [0x5C, 34] else if c = 0x5C then [0x5C, 0x5C] else if c = newline then [0x5C, ch CHR ''n'']
      else if c = 13 then [0x5C, ch CHR ''r''] else if c = tab then [0x5C, ch CHR ''t''] else if c = 8 then [0x5C, ch CHR ''b'']
      else if c = 12 then [0x5C, ch CHR ''f'']
      else if c < 32 then [0x5C, ch CHR ''u'', 48, 48, hex_char (c div 16), hex_char (c mod 16)] else [c])"

definition json_string :: "rchar list \<Rightarrow> rchar list" where
  "json_string cs = [34] @ concat (map json_char cs) @ [34]"

definition json_member :: "rchar list \<times> rchar list \<Rightarrow> rchar list" where
  "json_member kv = [34] @ fst kv @ [34, ch CHR '':''] @ json_string (snd kv)"

fun json_members :: "(rchar list \<times> rchar list) list \<Rightarrow> rchar list" where
  "json_members [] = []"
| "json_members [kv] = json_member kv"
| "json_members (kv # kvs) = json_member kv @ [ch CHR '',''] @ json_members kvs"

definition json_object :: "(rchar list \<times> rchar list) list \<Rightarrow> rchar list" where
  "json_object kvs = [ch CHR ''{''] @ json_members kvs @ [ch CHR ''}'']"

definition param_events :: "rchar list \<times> rchar list \<Rightarrow> XmlEvent list" where
  "param_events kv = [open_tag (fst kv)] @ map (\<lambda>c. ContentEvent (escape_xml [c])) (snd kv) @ [close_tag]"

lemma hex_char_digit: "d < 16 \<Longrightarrow> hex_digit (hex_char d) = Some d"
  by (auto simp: hex_digit_def hex_char_def is_digit_def)

lemma control_from_hex:
  assumes "c < 32"
  shows "Option.bind (from_hex [48, 48, hex_char (c div 16), hex_char (c mod 16)]) char_from_u32 = Some c"
proof -
  have zero: "hex_digit 48 = Some 0" using hex_char_digit [of 0] by (simp add: hex_char_def)
  have "c div 16 < 16" "c mod 16 < 16" using assms by simp_all
  then show ?thesis using assms
    by (simp add: from_hex_def zero hex_char_digit char_from_u32_def ch_def)
qed

lemma feed_json_char:
  assumes "cv_state s = ReadString"
  shows "\<exists>t. feed (json_char c) s = (t, [ContentEvent (escape_xml [c])]) \<and> cv_state t = ReadString"
proof (cases "c < 32 \<and> c \<notin> {newline, 13, tab, 8, 12}")
  case True
  then have "json_char c = [0x5C, ch CHR ''u'', 48, 48, hex_char (c div 16), hex_char (c mod 16)]"
    by (simp add: json_char_def)
  with assms True control_from_hex [of c] show ?thesis
    by (simp add: feed_char_def read_unicode_def push_char_def ch_def)
next
  case False
  with assms show ?thesis
    by (auto simp: json_char_def feed_char_def unescaped_def newline_def tab_def ch_def)
qed

lemma feed_json_chars:
  assumes "cv_state s = ReadString"
  shows "\<exists>t. feed (concat (map json_char cs)) s = (t, map (\<lambda>c. ContentEvent (escape_xml [c])) cs) \<and> cv_state t = ReadString"
  using assms
proof (induction cs arbitrary: s)
  case (Cons c cs)
  obtain t where t: "feed (json_char c) s = (t, [ContentEvent (escape_xml [c])])" "cv_state t = ReadString"
    using feed_json_char [OF Cons.prems] by blast
  from Cons.IH [OF t(2)] t(1) show ?case by (auto simp: feed_append Let_def)
qed simp

definition plain_key :: "rchar list \<Rightarrow> bool" where
  "plain_key key \<longleftrightarrow> list_all (\<lambda>c. c \<noteq> 34 \<and> c \<noteq> 0x5C) key"

lemma feed_key:
  "plain_key key \<Longrightarrow> cv_state s = ReadKey \<Longrightarrow> \<not> key_escape s \<Longrightarrow>
   \<exists>t. feed key s = (t, []) \<and> cv_state t = ReadKey \<and> \<not> key_escape t \<and> cv_buffer t = cv_buffer s @ key"
proof (induction key arbitrary: s)
  case (Cons c key)
  then have "feed_char c s = (push_char c s, [])" by (simp add: feed_char_def plain_key_def)
  moreover have "\<not> key_escape (push_char c s)" using Cons.prems by (simp add: push_char_def)
  ultimately show ?case using Cons.IH [of "push_char c s"] Cons.prems by (auto simp: plain_key_def push_char_def)
qed simp

lemma feed_member:
  assumes "plain_key (fst kv)" and "cv_state s = WaitKeyQuote"
  shows "\<exists>t. feed (json_member kv) s = (t, param_events kv) \<and> cv_state t = WaitComma"
proof -
  let ?s = "s\<lparr>cv_state := ReadKey, key_escape := False, cv_buffer := []\<rparr>"
  have 1: "feed [34] s = (?s, [])" using assms(2) by (simp add: feed_char_def)
  obtain t where 2: "feed (fst kv) ?s = (t, [])" "cv_state t = ReadKey" "\<not> key_escape t" "cv_buffer t = fst kv"
    using feed_key [OF assms(1), of ?s] by auto
  let ?t = "t\<lparr>has_open_param := True, cv_state := ReadString\<rparr>"
  have 3: "feed [34, ch CHR '':'', 34] t = (?t, [open_tag (fst kv)])"
    using 2 by (simp add: feed_char_def is_whitespace_def ch_def)
  obtain u where 4: "feed (concat (map json_char (snd kv))) ?t = (u, map (\<lambda>c. ContentEvent (escape_xml [c])) (snd kv))"
    "cv_state u = ReadString" using feed_json_chars [of ?t "snd kv"] by auto
  have 5: "feed [34] u = (u\<lparr>cv_state := WaitComma, has_open_param := False\<rparr>, [close_tag])"
    using 4(2) by (simp add: feed_char_def)
  have "json_member kv = [34] @ fst kv @ [34, ch CHR '':'', 34] @ concat (map json_char (snd kv)) @ [34]"
    by (simp add: json_member_def json_string_def)
  then have "feed (json_member kv) s = (u\<lparr>cv_state := WaitComma, has_open_param := False\<rparr>, param_events kv)"
    by (simp only: feed_append 1 2(1) 3 4(1) 5 Let_def prod.case param_events_def append_Nil)
  then show ?thesis by simp
qed

lemma feed_members:
  assumes "list_all (plain_key \<circ> fst) kvs" and "cv_state s = WaitKeyQuote"
  shows "\<exists>t. feed (json_members kvs) s = (t, concat (map param_events kvs)) \<and> cv_state t \<in> {WaitKeyQuote, WaitComma}"
  using assms
proof (induction kvs arbitrary: s rule: json_members.induct)
  case (2 kv)
  then show ?case using feed_member [of kv s] by auto
next
  case (3 kv kv' kvs)
  obtain t where t: "feed (json_member kv) s = (t, param_events kv)" "cv_state t = WaitComma"
    using feed_member [of kv s] 3(2,3) by auto
  have "feed [ch CHR '',''] t = (t\<lparr>cv_state := WaitKeyQuote\<rparr>, [])" using t(2) by (simp add: feed_char_def)
  with 3(1) [of "t\<lparr>cv_state := WaitKeyQuote\<rparr>"] 3(2) t(1) show ?case
    by (auto simp: feed_append Let_def simp del: feed.simps append_Cons)
qed simp

text \<open>A JSON object of strings becomes its parameters: one tag pair for each member, named by its key, around contents
  that an XML reader turns back into the value.\<close>

theorem string_params_shown:
  assumes "list_all (plain_key \<circ> fst) kvs"
  shows "snd (feed (json_object kvs) converter_new) = concat (map param_events kvs)
    \<and> cv_state (fst (feed (json_object kvs) converter_new)) = WaitBrace \<and> unescape_xml (escape_xml v) = v"
proof -
  let ?s = "converter_new\<lparr>cv_state := WaitKeyQuote\<rparr>"
  have 1: "feed [ch CHR ''{''] converter_new = (?s, [])" by (simp add: feed_char_def converter_new_def)
  obtain t where 2: "feed (json_members kvs) ?s = (t, concat (map param_events kvs))" "cv_state t \<in> {WaitKeyQuote, WaitComma}"
    using feed_members [OF assms, of ?s] by auto
  have "feed [ch CHR ''}''] t = (t\<lparr>cv_state := WaitBrace\<rparr>, [])" using 2(2) by (auto simp: feed_char_def ch_def)
  with 1 2 have "feed (json_object kvs) converter_new = (t\<lparr>cv_state := WaitBrace\<rparr>, concat (map param_events kvs))"
    by (simp add: json_object_def feed_append Let_def del: feed.simps append_Cons)
  then show ?thesis by (simp add: unescape_escape)
qed

theorem string_params_shown_witness:
  "snd (feed (json_object [(chars ''a'', chars ''<b>''), (chars ''c'', [newline])]) converter_new)
   = param_events (chars ''a'', chars ''<b>'') @ param_events (chars ''c'', [newline])"
proof -
  have "list_all (plain_key \<circ> fst) [(chars ''a'', chars ''<b>''), (chars ''c'', [newline])]"
    by (simp add: plain_key_def chars_def ch_def)
  from string_params_shown [OF this] show ?thesis by simp
qed

text \<open>A character outside the basic plane, written as a pair of surrogates, is lost, and the name of a parameter is not
  escaped.\<close>

theorem surrogates_lost:
  "snd (feed (chars ''{'' @ [34, ch CHR ''k'', 34] @ chars '':'' @ [34, 0x5C] @ chars ''ud83d'' @ [0x5C] @ chars ''ude00'' @ [34]) converter_new)
   = [open_tag (chars ''k''), close_tag]"
  by (simp add: chars_def ch_def feed_char_def converter_new_def is_whitespace_def read_unicode_def push_char_def from_hex_def
      hex_digit_def is_digit_def char_from_u32_def)

theorem parameter_name_not_escaped:
  "snd (feed (chars ''{'' @ [34] @ chars ''<k>'' @ [34]) converter_new) = [open_tag (chars ''<k>'')]"
  by (simp add: chars_def ch_def feed_char_def converter_new_def push_char_def)

end
