(* ===== verification/Control_Command.thy ===== *)
theory Control_Command
  imports Sync_Operation Stream_Plugin
begin

text \<open>
  The commands through which the devices of a Space change its authorization policy
  (\<open>NetworkControlStore.rs\<close>): their JSON form with the older form of an admission, the checks of
  their fields, and the reading of a command from an operation of the log.
\<close>

section \<open>Commands\<close>

record NetworkControlRole =
  roleId :: string
  displayName :: string
  capabilities :: "string bset"

record NetworkControlIdentityAssignment =
  assigned_node :: string
  assigned_role :: string

datatype NetworkControlCommand =
    Bootstrap string
  | DefineRole NetworkControlRole
  | UpdateRole NetworkControlRole
  | RemoveRole string
  | GrantRole NetworkControlIdentityAssignment
  | RevokeRole string
  | AdmitMember string
  | AdmitSpace string "(string, string) bmap"
  | RemoveMember string "string option"
  | LeaveSpace
  | DisconnectNode string
  | PolicyUpdate string string

record NetworkControlCommandRecord =
  commandId :: string
  rec_spaceId :: string
  issuerNodeId :: string
  command :: NetworkControlCommand

section \<open>JSON form\<close>

text \<open>What the derived implementations of \<open>Serialize\<close> and \<open>Deserialize\<close> do with a \<open>Value\<close>: a
  struct is an object, or the array of its fields; an enum is the name of a unit variant or an
  object with one entry, named by the variant.  Unknown fields are ignored.\<close>

definition json_struct :: "(string \<times> json) list \<Rightarrow> json" where
  "json_struct fs = JObj (bm_extend [] fs)"

fun struct_fields :: "string list \<Rightarrow> json \<Rightarrow> json option list res" where
  "struct_fields names (JObj m) = Inr (map (map_of m) names)"
| "struct_fields names (JArr xs) =
     (if length xs \<le> length names
      then Inr (map Some xs @ replicate (length names - length xs) None) else Inl Foreign)"
| "struct_fields names _ = Inl Foreign"

definition required :: "(json \<Rightarrow> 'a res) \<Rightarrow> json option \<Rightarrow> 'a res" where
  "required f x = rbind (ok_or Foreign x) f"

fun de_string :: "json \<Rightarrow> string res" where
  "de_string (JStr s) = Inr s"
| "de_string _ = Inl Foreign"

fun de_string_set :: "json \<Rightarrow> string bset res" where
  "de_string_set (JArr xs) = rbind (rmap de_string xs) (\<lambda>ss. Inr (bs_of_list ss))"
| "de_string_set _ = Inl Foreign"

fun de_string_map :: "json \<Rightarrow> (string, string) bmap res" where
  "de_string_map (JObj m) = rmap (\<lambda>e. rbind (de_string (snd e)) (\<lambda>s. Inr (fst e, s))) m"
| "de_string_map _ = Inl Foreign"

fun de_option :: "(json \<Rightarrow> 'a res) \<Rightarrow> json \<Rightarrow> 'a option res" where
  "de_option f JNull = Inr None"
| "de_option f v = rbind (f v) (\<lambda>x. Inr (Some x))"

text \<open>\<open>#[serde(default)]\<close> on an option, and \<open>present\<close>, which keeps a missing field apart from null.\<close>

definition optional_field :: "(json \<Rightarrow> 'a option res) \<Rightarrow> json option \<Rightarrow> 'a option res" where
  "optional_field f x = (case x of None \<Rightarrow> Inr None | Some v \<Rightarrow> f v)"

definition present :: "(json \<Rightarrow> 'a res) \<Rightarrow> json \<Rightarrow> 'a option res" where
  "present f v = rbind (f v) (\<lambda>x. Inr (Some x))"

definition encode_role :: "NetworkControlRole \<Rightarrow> json" where
  "encode_role r = json_struct
     [(''roleId'', JStr (roleId r)), (''displayName'', JStr (displayName r)),
      (''capabilities'', JArr (map JStr (capabilities r)))]"

definition decode_role :: "json \<Rightarrow> NetworkControlRole res" where
  "decode_role v =
     rbind (struct_fields [''roleId'', ''displayName'', ''capabilities''] v) (\<lambda>fs.
     rbind (required de_string (fs ! 0)) (\<lambda>i.
     rbind (required de_string (fs ! 1)) (\<lambda>d.
     rbind (required de_string_set (fs ! 2)) (\<lambda>cs.
     Inr \<lparr>roleId = i, displayName = d, capabilities = cs\<rparr>))))"

definition encode_assignment :: "NetworkControlIdentityAssignment \<Rightarrow> json" where
  "encode_assignment a =
     json_struct [(''nodeId'', JStr (assigned_node a)), (''roleId'', JStr (assigned_role a))]"

definition decode_assignment :: "json \<Rightarrow> NetworkControlIdentityAssignment res" where
  "decode_assignment v =
     rbind (struct_fields [''nodeId'', ''roleId''] v) (\<lambda>fs.
     rbind (required de_string (fs ! 0)) (\<lambda>n.
     rbind (required de_string (fs ! 1)) (\<lambda>r.
     Inr \<lparr>assigned_node = n, assigned_role = r\<rparr>)))"

definition variant :: "string \<Rightarrow> (string \<times> json) list \<Rightarrow> json" where
  "variant name fs = JObj [(name, json_struct fs)]"

fun encode_command :: "NetworkControlCommand \<Rightarrow> json" where
  "encode_command (Bootstrap n) = variant ''bootstrap'' [(''initialAdminNodeId'', JStr n)]"
| "encode_command (DefineRole r) = variant ''define_role'' [(''role'', encode_role r)]"
| "encode_command (UpdateRole r) = variant ''update_role'' [(''role'', encode_role r)]"
| "encode_command (RemoveRole r) = variant ''remove_role'' [(''roleId'', JStr r)]"
| "encode_command (GrantRole a) = variant ''grant_role'' [(''grant'', encode_assignment a)]"
| "encode_command (RevokeRole n) = variant ''revoke_role'' [(''nodeId'', JStr n)]"
| "encode_command (AdmitMember n) = variant ''admit_member'' [(''nodeId'', JStr n)]"
| "encode_command (AdmitSpace s ids) = variant ''admit_space''
     [(''sourceSpaceId'', JStr s), (''identities'', JObj (map (\<lambda>e. (fst e, JStr (snd e))) ids))]"
| "encode_command (RemoveMember n i) = variant ''remove_member''
     [(''nodeId'', JStr n), (''revokedIncarnation'', case i of None \<Rightarrow> JNull | Some g \<Rightarrow> JStr g)]"
| "encode_command LeaveSpace = JStr ''leave_space''"
| "encode_command (DisconnectNode n) = variant ''disconnect_node'' [(''nodeId'', JStr n)]"
| "encode_command (PolicyUpdate p v) =
     variant ''policy_update'' [(''policyId'', JStr p), (''value'', JStr v)]"

text \<open>An admission names its devices with their identities; the older form lists the devices,
  which then become users.\<close>

definition decode_admission :: "(string, json) bmap \<Rightarrow> NetworkControlCommand res" where
  "decode_admission m =
     rbind (required de_string (map_of m ''sourceSpaceId'')) (\<lambda>s.
     rbind (optional_field (present de_string_map) (map_of m ''identities'')) (\<lambda>ids.
     rbind (optional_field (present de_string_set) (map_of m ''nodeIds'')) (\<lambda>nodes.
     rbind (case (ids, nodes) of
              (Some ids, None) \<Rightarrow> Inr ids
            | (None, Some ns) \<Rightarrow> Inr (bm_extend [] (map (\<lambda>n. (n, ''user'')) ns))
            | (Some _, Some _) \<Rightarrow> Inl (Err ''Space admission cannot contain both nodeIds and identities'')
            | (None, None) \<Rightarrow> Inl (Err ''Space admission requires identities'')) (\<lambda>ids.
     Inr (AdmitSpace s ids)))))"

definition field :: "string \<Rightarrow> (json \<Rightarrow> 'a res) \<Rightarrow> ('a \<Rightarrow> 'b) \<Rightarrow> (string, json) bmap \<Rightarrow> 'b res" where
  "field name f g m = rbind (required f (map_of m name)) (\<lambda>x. Inr (g x))"

definition decode_variant :: "string \<Rightarrow> (string, json) bmap \<Rightarrow> NetworkControlCommand res" where
  "decode_variant name m =
     (if name = ''bootstrap'' then field ''initialAdminNodeId'' de_string Bootstrap m
      else if name = ''define_role'' then field ''role'' decode_role DefineRole m
      else if name = ''update_role'' then field ''role'' decode_role UpdateRole m
      else if name = ''remove_role'' then field ''roleId'' de_string RemoveRole m
      else if name = ''grant_role'' then field ''grant'' decode_assignment GrantRole m
      else if name = ''revoke_role'' then field ''nodeId'' de_string RevokeRole m
      else if name = ''admit_member'' then field ''nodeId'' de_string AdmitMember m
      else if name = ''admit_space'' then decode_admission m
      else if name = ''remove_member'' then
        rbind (required de_string (map_of m ''nodeId'')) (\<lambda>n.
        rbind (optional_field (de_option de_string) (map_of m ''revokedIncarnation'')) (\<lambda>i.
        Inr (RemoveMember n i)))
      else if name = ''disconnect_node'' then field ''nodeId'' de_string DisconnectNode m
      else if name = ''policy_update'' then
        rbind (required de_string (map_of m ''policyId'')) (\<lambda>p.
        rbind (required de_string (map_of m ''value'')) (\<lambda>v. Inr (PolicyUpdate p v)))
      else Inl Foreign)"

definition deserializeControlCommand :: "json \<Rightarrow> NetworkControlCommand res" where
  "deserializeControlCommand v =
     (case v of
        JStr name \<Rightarrow> if name = ''leave_space'' then Inr LeaveSpace else Inl Foreign
      | JObj [(name, w)] \<Rightarrow>
          if name = ''leave_space'' then (if w = JNull then Inr LeaveSpace else Inl Foreign)
          else (case w of JObj m \<Rightarrow> decode_variant name m | _ \<Rightarrow> Inl Foreign)
      | _ \<Rightarrow> Inl Foreign)"

definition encode_record :: "NetworkControlCommandRecord \<Rightarrow> json" where
  "encode_record r = json_struct
     [(''commandId'', JStr (commandId r)), (''spaceId'', JStr (rec_spaceId r)),
      (''issuerNodeId'', JStr (issuerNodeId r)), (''command'', encode_command (command r))]"

definition decode_record :: "json \<Rightarrow> NetworkControlCommandRecord res" where
  "decode_record v =
     rbind (struct_fields [''commandId'', ''spaceId'', ''issuerNodeId'', ''command''] v) (\<lambda>fs.
     rbind (required de_string (fs ! 0)) (\<lambda>c.
     rbind (required de_string (fs ! 1)) (\<lambda>s.
     rbind (required de_string (fs ! 2)) (\<lambda>i.
     rbind (required deserializeControlCommand (fs ! 3)) (\<lambda>cmd.
     Inr \<lparr>commandId = c, rec_spaceId = s, issuerNodeId = i, command = cmd\<rparr>)))))"

definition isLegacyAdmission :: "SyncOperation \<Rightarrow> bool" where
  "isLegacyAdmission op \<longleftrightarrow>
     json_get (json_index (json_index (payload op) ''command'') ''admit_space'') ''nodeIds'' \<noteq> None"

section \<open>Checks of the fields\<close>

text \<open>The characters of a string, from its UTF-8 bytes.\<close>

fun utf8_chars :: "string \<Rightarrow> rchar list" where
  "utf8_chars [] = []"
| "utf8_chars (b # bs) =
     (let n = of_char b :: nat; k = (if n < 0x80 then 0 else if n < 0xE0 then 1 else if n < 0xF0 then 2 else 3);
          lead = (if n < 0x80 then n else if n < 0xE0 then n mod 32 else if n < 0xF0 then n mod 16 else n mod 8)
      in foldl (\<lambda>acc b. 64 * acc + of_char b mod 64) lead (take k bs) # utf8_chars (drop k bs))"

definition str_trim :: "rchar list \<Rightarrow> rchar list" where
  "str_trim cs = rev (dropWhile is_whitespace (rev (dropWhile is_whitespace cs)))"

definition is_control :: "rchar \<Rightarrow> bool" where
  "is_control c \<longleftrightarrow> c < 32 \<or> 127 \<le> c \<and> c \<le> 159"

definition validateIdentifier :: "string \<Rightarrow> string \<Rightarrow> nat \<Rightarrow> unit res" where
  "validateIdentifier fieldName v maximumLength =
     (let trimmed = str_trim (utf8_chars v)
      in if trimmed = [] then Inl (Err (''network control '' @ fieldName @ '' must not be empty''))
         else if length trimmed > maximumLength
         then Inl (Err (''network control '' @ fieldName @ '' exceeds '' @ decimal maximumLength @ '' characters''))
         else if \<exists>c \<in> set trimmed. is_control c
         then Inl (Err (''network control '' @ fieldName @ '' must not contain control characters''))
         else Inr ())"

definition validateSpaceId :: "string \<Rightarrow> unit res" where
  "validateSpaceId s = validateIdentifier ''space id'' s 160"

definition validateNodeId :: "string \<Rightarrow> unit res" where
  "validateNodeId n = validateIdentifier ''node id'' n 160"

definition validateCapability :: "string \<Rightarrow> unit res" where
  "validateCapability c = validateIdentifier ''capability'' c 160"

definition validateRole :: "NetworkControlRole \<Rightarrow> unit res" where
  "validateRole r =
     rbind (validateIdentifier ''role id'' (roleId r) 120) (\<lambda>_.
     rbind (validateIdentifier ''role display name'' (displayName r) 160) (\<lambda>_.
     if capabilities r = [] then Inl (Err ''network control role must declare at least one capability'')
     else rfold (\<lambda>c _. validateCapability c) (capabilities r) ()))"

definition validateIdentityAssignment :: "NetworkControlIdentityAssignment \<Rightarrow> unit res" where
  "validateIdentityAssignment a =
     rbind (validateNodeId (assigned_node a)) (\<lambda>_. validateIdentifier ''role id'' (assigned_role a) 120)"

definition validateCommandRecord :: "NetworkControlCommandRecord \<Rightarrow> unit res" where
  "validateCommandRecord r =
     rbind (validateIdentifier ''command id'' (commandId r) 160) (\<lambda>_.
     rbind (validateSpaceId (rec_spaceId r)) (\<lambda>_.
     rbind (validateNodeId (issuerNodeId r)) (\<lambda>_.
     case command r of
       LeaveSpace \<Rightarrow> Inr ()
     | Bootstrap n \<Rightarrow> validateNodeId n
     | DefineRole role \<Rightarrow> validateRole role
     | UpdateRole role \<Rightarrow> validateRole role
     | RemoveRole i \<Rightarrow> validateIdentifier ''role id'' i 120
     | GrantRole a \<Rightarrow> validateIdentityAssignment a
     | RevokeRole n \<Rightarrow> validateNodeId n
     | AdmitSpace source ids \<Rightarrow>
         rbind (validateSpaceId source) (\<lambda>_.
         if source = rec_spaceId r \<or> ids = []
         then Inl (Err ''Space admission requires a distinct source and nonempty membership'')
         else rfold (\<lambda>(n, i) _. rbind (validateNodeId n) (\<lambda>_. validateIdentifier ''role id'' i 120)) ids ())
     | AdmitMember n \<Rightarrow> validateNodeId n
     | RemoveMember n _ \<Rightarrow> validateNodeId n
     | DisconnectNode n \<Rightarrow> validateNodeId n
     | PolicyUpdate p v \<Rightarrow>
         rbind (validateIdentifier ''policy id'' p 160) (\<lambda>_. validateIdentifier ''policy value'' v 4096))))"

text \<open>Visible ASCII of at most the given length is a valid identifier.\<close>

lemma utf8_chars_ascii: "\<forall>b \<in> set s. (of_char b :: nat) < 128 \<Longrightarrow> utf8_chars s = map of_char s"
  by (induction s) simp_all

lemma valid_ascii:
  assumes "s \<noteq> []" and "length s \<le> n" and "\<forall>b \<in> set s. 33 \<le> (of_char b :: nat) \<and> (of_char b :: nat) < 127"
  shows "validateIdentifier f s n = Inr ()"
proof -
  let ?c = "map of_char s :: nat list"
  have c: "utf8_chars s = ?c" using assms(3) by (intro utf8_chars_ascii) auto
  have nw: "\<not> is_whitespace x" "\<not> is_control x" if "x \<in> set ?c" for x
    using that assms(3) by (auto simp: is_whitespace_def is_control_def)
  then have d: "dropWhile is_whitespace ?c = ?c" "dropWhile is_whitespace (rev ?c) = rev ?c"
    using assms(1) nw(1) [of "hd ?c"] nw(1) [of "hd (rev ?c)"] hd_in_set [of "rev ?c"]
    by (simp_all add: dropWhile_eq_self_iff hd_map)
  have "str_trim ?c = ?c" by (simp only: str_trim_def d rev_rev_ident)
  then show ?thesis using c nw(2) assms(1,2) by (auto simp: validateIdentifier_def Let_def)
qed

section \<open>Reading a command from the log\<close>

definition validateControlEnvelope :: "SyncOperation \<Rightarrow> unit res" where
  "validateControlEnvelope op =
     (if op_domain op \<noteq> ''network_control'' \<or> entityType op \<noteq> ''command'' \<or> op_operation op \<noteq> ''apply''
         \<or> semantics op \<noteq> Transaction_semantics
      then Inl (Err ''operation is not a network control command'') else Inr ())"

definition decodeControlOperation :: "SyncOperation \<Rightarrow> NetworkControlCommandRecord res" where
  "decodeControlOperation op =
     rbind (validateControlEnvelope op) (\<lambda>_.
     rbind (decode_record (payload op)) (\<lambda>r.
     rbind (validateCommandRecord r) (\<lambda>_.
     if commandId r \<noteq> entityId op
     then Inl (Err ''network control command id does not match its operation entity'') else Inr r)))"

definition validateControlOperation :: "SyncOperation \<Rightarrow> unit res" where
  "validateControlOperation op = rbind (decodeControlOperation op) (\<lambda>_. Inr ())"

section \<open>Round trip\<close>

text \<open>The sets and maps inside a command are in order.\<close>

fun command_wf :: "NetworkControlCommand \<Rightarrow> bool" where
  "command_wf (DefineRole r) \<longleftrightarrow> bs_wf (capabilities r)"
| "command_wf (UpdateRole r) \<longleftrightarrow> bs_wf (capabilities r)"
| "command_wf (AdmitSpace s ids) \<longleftrightarrow> bm_wf ids"
| "command_wf _ \<longleftrightarrow> True"

lemma struct_lookup: "distinct (map fst fs) \<Longrightarrow> map_of (bm_extend [] fs) k = map_of fs k"
  by (simp add: map_of_bm_extend split: option.splits)

lemma required_Some [simp]: "required f (Some v) = f v"
  by (simp add: required_def)

lemma rmap_strings [simp]: "rmap de_string (map JStr ss) = Inr ss"
  by (induction ss) simp_all

lemma bs_of_list_id [simp]: "bs_wf s \<Longrightarrow> bs_of_list s = s"
  by (rule bs_ext) simp_all

lemma rmap_entries [simp]:
  "rmap (\<lambda>e. rbind (de_string (snd e)) (\<lambda>s. Inr (fst e, s))) (map (\<lambda>e. (fst e, JStr (snd e))) m) = Inr m"
  by (induction m) simp_all

lemma role_roundtrip [simp]: "bs_wf (capabilities r) \<Longrightarrow> decode_role (encode_role r) = Inr r"
  by (simp add: decode_role_def encode_role_def json_struct_def struct_lookup)

lemma assignment_roundtrip [simp]: "decode_assignment (encode_assignment a) = Inr a"
  by (simp add: decode_assignment_def encode_assignment_def json_struct_def struct_lookup)

lemma option_string_roundtrip [simp]:
  "de_option de_string (case i of None \<Rightarrow> JNull | Some g \<Rightarrow> JStr g) = Inr i"
  by (cases i) simp_all

lemma command_roundtrip: "command_wf c \<Longrightarrow> deserializeControlCommand (encode_command c) = Inr c"
  by (cases c) (simp_all add: deserializeControlCommand_def decode_variant_def variant_def json_struct_def struct_lookup
      field_def decode_admission_def optional_field_def present_def)

lemma command_record_decoded: "command_wf (command r) \<Longrightarrow> decode_record (encode_record r) = Inr r"
  by (simp add: decode_record_def encode_record_def json_struct_def struct_lookup command_roundtrip)

text \<open>A command written into the log is read back as it was, for every command and every optional field.\<close>

theorem command_record_roundtrip:
  assumes "command_wf (command r)"
  shows "decode_record (encode_record r) = Inr r"
  using assms by (rule command_record_decoded)

theorem command_record_roundtrip_witness:
  "decode_record (encode_record \<lparr>commandId = ''c'', rec_spaceId = ''s'', issuerNodeId = ''n'',
     command = AdmitSpace ''t'' [(''a'', ''admin''), (''b'', ''user'')]\<rparr>)
   = Inr \<lparr>commandId = ''c'', rec_spaceId = ''s'', issuerNodeId = ''n'',
     command = AdmitSpace ''t'' [(''a'', ''admin''), (''b'', ''user'')]\<rparr>"
  by (rule command_record_roundtrip) (simp add: bm_wf_def)

section \<open>What decoding guarantees\<close>

lemma de_string_set_wf: "de_string_set v = Inr s \<Longrightarrow> bs_wf s"
  by (cases v) auto

lemma rmap_entries_keys:
  "rmap (\<lambda>e. rbind (de_string (snd e)) (\<lambda>s. Inr (fst e, s))) m = Inr m' \<Longrightarrow> map fst m' = map fst m"
  by (induction m arbitrary: m') auto

lemma decode_role_wf: "decode_role v = Inr r \<Longrightarrow> bs_wf (capabilities r)"
  by (auto simp: decode_role_def required_def dest: de_string_set_wf)

text \<open>A legacy admission makes every device a user.\<close>

definition all_users :: "(string, string) bmap \<Rightarrow> bool" where
  "all_users ids \<longleftrightarrow> (\<forall>e \<in> set ids. snd e = ''user'')"

lemma bm_extend_snd: "snd ` set (bm_extend m es) \<subseteq> snd ` set m \<union> snd ` set es"
proof (induction es arbitrary: m)
  case (Cons e es)
  have "bm_extend m (e # es) = bm_extend (bm_insert (fst e) (snd e) m) es" by (simp add: bm_extend_def)
  moreover from set_bm_insert_subset [of "fst e" "snd e" m]
  have "snd ` set (bm_insert (fst e) (snd e) m) \<subseteq> insert (snd e) (snd ` set m)" by auto
  moreover note Cons [of "bm_insert (fst e) (snd e) m"]
  ultimately show ?case by (simp only: list.set image_insert Un_insert_right) blast
qed (simp add: bm_extend_def)

lemma legacy_admission_users:
  assumes "decode_admission m = Inr (AdmitSpace s ids)" and "map_of m ''nodeIds'' \<noteq> None"
  shows "all_users ids"
proof -
  from assms obtain ns where ids: "ids = bm_extend [] (map (\<lambda>n. (n, ''user'')) ns)"
    by (auto simp: decode_admission_def optional_field_def present_def split: option.splits)
  have "snd ` set ids \<subseteq> {''user''}"
    using bm_extend_snd [of "[]" "map (\<lambda>n. (n, ''user'')) ns"] unfolding ids by auto
  then show ?thesis by (auto simp: all_users_def)
qed

lemma decode_variant_admission:
  "decode_variant name m = Inr (AdmitSpace s ids) \<Longrightarrow> name = ''admit_space'' \<and> decode_admission m = Inr (AdmitSpace s ids)"
  by (auto simp: decode_variant_def field_def split: if_splits)

lemma legacy_decoded_users:
  assumes "decodeControlOperation op = Inr r" and "isLegacyAdmission op" and "command r = AdmitSpace s ids"
  shows "all_users ids"
proof -
  from assms(2) obtain m where m: "payload op = JObj m"
    by (cases "payload op") (auto simp: isLegacyAdmission_def json_index_def)
  from assms(1) have "decode_record (payload op) = Inr r" by (auto simp: decodeControlOperation_def split: if_splits)
  with assms(3) m obtain v where v: "map_of m ''command'' = Some v" "deserializeControlCommand v = Inr (AdmitSpace s ids)"
    by (auto simp: decode_record_def required_def)
  from v(2) obtain w where w: "v = JObj [(''admit_space'', JObj w)]" "decode_admission w = Inr (AdmitSpace s ids)"
    using decode_variant_admission [of _ _ s ids]
    by (auto simp: deserializeControlCommand_def split: json.splits list.splits if_splits)
  from assms(2) m v(1) w(1) have "map_of w ''nodeIds'' \<noteq> None"
    by (simp add: isLegacyAdmission_def json_index_def)
  with w(2) show ?thesis by (rule legacy_admission_users)
qed

end
