(* ===== verification/Control_Policy.thy ===== *)
theory Control_Policy
  imports Control_Command
begin

text \<open>
  The authorization policy of a Space and the commands that change it
  (\<open>NetworkControlStore.rs\<close>): capabilities through identities, the decision on a command and its effect.
  The lemmas: what every accepted command keeps, that no capability appears that its issuer did not
  hold, and when an administrator remains.
\<close>

section \<open>State and capabilities\<close>

record NetworkControlState =
  st_spaceId :: string
  initialized :: bool
  memberNodeIds :: "string bset"
  roles :: "(string, NetworkControlRole) bmap"
  deviceIdentityIds :: "(string, string) bmap"
  disconnectedNodeIds :: "string bset"
  policies :: "(string, string) bmap"

definition builtinRole :: "string \<Rightarrow> string \<Rightarrow> string list \<Rightarrow> NetworkControlRole" where
  "builtinRole i d cs = \<lparr>roleId = i, displayName = d, capabilities = bs_of_list cs\<rparr>"

definition builtinRoles :: "(string, NetworkControlRole) bmap" where
  "builtinRoles = bm_extend [] (map (\<lambda>r. (roleId r, r))
     [builtinRole ''admin'' ''Administrator'' [''*''],
      builtinRole ''user'' ''User''
        [''network.devices.view'', ''network.relay'', ''runtime.execute'', ''storage.provide''],
      builtinRole ''relay'' ''Relay'' [''network.devices.view'', ''network.relay'', ''storage.provide''],
      builtinRole ''edge'' ''Edge'' [''network.devices.view'', ''runtime.execute'']])"

definition emptyControlState :: "string \<Rightarrow> NetworkControlState" where
  "emptyControlState s = \<lparr>st_spaceId = s, initialized = False, memberNodeIds = [], roles = builtinRoles,
     deviceIdentityIds = [], disconnectedNodeIds = [], policies = []\<rparr>"

definition hasCapability :: "NetworkControlState \<Rightarrow> string \<Rightarrow> string \<Rightarrow> string option \<Rightarrow> bool" where
  "hasCapability s node capability target =
     (if \<not> initialized s then False
      else case map_of (deviceIdentityIds s) node of
        None \<Rightarrow> False
      | Some i \<Rightarrow>
          (case map_of (roles s) i of
             None \<Rightarrow> False
           | Some role \<Rightarrow> ''*'' \<in> set (capabilities role) \<or> capability \<in> set (capabilities role)))"

definition requireCapability :: "NetworkControlState \<Rightarrow> string \<Rightarrow> string \<Rightarrow> string option \<Rightarrow> unit res" where
  "requireCapability s node capability target =
     (if hasCapability s node capability target then Inr ()
      else Inl (Err (''node '' @ node @ '' lacks capability '' @ capability)))"

definition requireGlobalCapability :: "NetworkControlState \<Rightarrow> string \<Rightarrow> string \<Rightarrow> unit res" where
  "requireGlobalCapability s node capability = requireCapability s node capability None"

definition require_all :: "NetworkControlState \<Rightarrow> string \<Rightarrow> string list \<Rightarrow> unit res" where
  "require_all s node cs = rfold (\<lambda>c _. requireGlobalCapability s node c) cs ()"

definition requireIdentityAssignmentAuthority :: "NetworkControlState \<Rightarrow> string \<Rightarrow> string \<Rightarrow> unit res" where
  "requireIdentityAssignmentAuthority s issuer i =
     rbind (ok_or (Err (''network control identity does not exist: '' @ i)) (map_of (roles s) i)) (\<lambda>role.
     rbind (requireGlobalCapability s issuer ''network.identity.assign'') (\<lambda>_.
     require_all s issuer (capabilities role)))"

definition clearingIdentityLeavesNoAdministrator :: "NetworkControlState \<Rightarrow> string \<Rightarrow> bool" where
  "clearingIdentityLeavesNoAdministrator s node \<longleftrightarrow>
     \<not> (\<exists>(n, i) \<in> set (deviceIdentityIds s). n \<noteq> node \<and> i = ''admin'')"

definition nodeIsSoleAdministrator :: "NetworkControlState \<Rightarrow> string \<Rightarrow> bool" where
  "nodeIsSoleAdministrator s node \<longleftrightarrow>
     map_of (deviceIdentityIds s) node = Some ''admin''
     \<and> \<not> (\<exists>(n, i) \<in> set (deviceIdentityIds s). n \<noteq> node \<and> i = ''admin'')"

section \<open>Commands\<close>

text \<open>The arms of \<open>authorizeAndApplyCommand\<close>.  Every check comes before the first change, so a refused
  command is an error value and its state is the old one.\<close>

definition apply_bootstrap :: "string \<Rightarrow> string \<Rightarrow> NetworkControlState \<Rightarrow> NetworkControlState res" where
  "apply_bootstrap issuer admin s =
     (if initialized s then Inl (Err ''Space control policy already has an initial administrator'')
      else if admin \<noteq> issuer then Inl (Err ''initial administrator must issue its own bootstrap command'')
      else Inr (s\<lparr>initialized := True, memberNodeIds := bs_insert admin (memberNodeIds s),
                 deviceIdentityIds := bm_insert admin ''admin'' (deviceIdentityIds s)\<rparr>))"

definition apply_define_role :: "string \<Rightarrow> NetworkControlRole \<Rightarrow> NetworkControlState \<Rightarrow> NetworkControlState res" where
  "apply_define_role issuer role s =
     rbind (requireGlobalCapability s issuer ''network.identity.manage'') (\<lambda>_.
     if bm_mem builtinRoles (roleId role) then Inl (Err ''built-in roles cannot be redefined'')
     else if bm_mem (roles s) (roleId role)
     then Inl (Err (''network control role already exists: '' @ roleId role))
     else rbind (require_all s issuer (capabilities role)) (\<lambda>_.
       Inr (s\<lparr>roles := bm_insert (roleId role) role (roles s)\<rparr>)))"

definition apply_update_role :: "string \<Rightarrow> NetworkControlRole \<Rightarrow> NetworkControlState \<Rightarrow> NetworkControlState res" where
  "apply_update_role issuer role s =
     rbind (requireGlobalCapability s issuer ''network.identity.manage'') (\<lambda>_.
     if bm_mem builtinRoles (roleId role) then Inl (Err ''built-in roles cannot be redefined'')
     else if \<not> bm_mem (roles s) (roleId role)
     then Inl (Err (''network control role does not exist: '' @ roleId role))
     else rbind (require_all s issuer (capabilities role)) (\<lambda>_.
       Inr (s\<lparr>roles := bm_insert (roleId role) role (roles s)\<rparr>)))"

definition apply_remove_role :: "string \<Rightarrow> string \<Rightarrow> NetworkControlState \<Rightarrow> NetworkControlState res" where
  "apply_remove_role issuer role s =
     rbind (requireGlobalCapability s issuer ''network.identity.manage'') (\<lambda>_.
     if bm_mem builtinRoles role then Inl (Err ''built-in roles cannot be removed'')
     else if \<not> bm_mem (roles s) role then Inl (Err (''network control role does not exist: '' @ role))
     else
       let reassigned = map fst (filter (\<lambda>(_, i). i = role) (deviceIdentityIds s))
       in Inr (s\<lparr>deviceIdentityIds := foldl (\<lambda>m n. bm_insert n ''user'' m) (deviceIdentityIds s) reassigned,
                 roles := bm_remove role (roles s)\<rparr>))"

definition apply_grant_role :: "string \<Rightarrow> NetworkControlIdentityAssignment \<Rightarrow> NetworkControlState \<Rightarrow> NetworkControlState res" where
  "apply_grant_role issuer a s =
     rbind (requireIdentityAssignmentAuthority s issuer (assigned_role a)) (\<lambda>_.
     if assigned_node a \<notin> set (memberNodeIds s)
     then Inl (Err ''identity target has not been admitted to the Space'')
     else if (case map_of (deviceIdentityIds s) (assigned_node a) of
                None \<Rightarrow> False
              | Some i \<Rightarrow> assigned_role a \<noteq> ''admin'' \<and> i = ''admin''
                  \<and> clearingIdentityLeavesNoAdministrator s (assigned_node a))
     then Inl (Err ''Space control policy must retain an administrator'')
     else Inr (s\<lparr>deviceIdentityIds := bm_insert (assigned_node a) (assigned_role a) (deviceIdentityIds s)\<rparr>))"

definition apply_revoke_role :: "string \<Rightarrow> string \<Rightarrow> NetworkControlState \<Rightarrow> NetworkControlState res" where
  "apply_revoke_role issuer node s =
     rbind (ok_or (Err (''network device has no identity: '' @ node)) (map_of (deviceIdentityIds s) node)) (\<lambda>i.
     rbind (requireGlobalCapability s issuer ''network.identity.manage'') (\<lambda>_.
     if i = ''admin'' \<and> clearingIdentityLeavesNoAdministrator s node
     then Inl (Err ''Space control policy must retain an administrator'')
     else Inr (s\<lparr>deviceIdentityIds := bm_insert node ''user'' (deviceIdentityIds s)\<rparr>)))"

definition admit :: "string \<Rightarrow> string \<Rightarrow> NetworkControlState \<Rightarrow> NetworkControlState" where
  "admit node i s = s\<lparr>disconnectedNodeIds := bs_remove node (disconnectedNodeIds s),
     memberNodeIds := bs_insert node (memberNodeIds s),
     deviceIdentityIds := (if bm_mem (deviceIdentityIds s) node then deviceIdentityIds s
                           else bm_insert node i (deviceIdentityIds s))\<rparr>"

definition apply_admit_member :: "string \<Rightarrow> string \<Rightarrow> NetworkControlState \<Rightarrow> NetworkControlState res" where
  "apply_admit_member issuer node s =
     rbind (requireCapability s issuer ''network.members.join'' (Some node)) (\<lambda>_. Inr (admit node ''user'' s))"

definition apply_admit_space :: "string \<Rightarrow> (string, string) bmap \<Rightarrow> bool \<Rightarrow> NetworkControlState \<Rightarrow> NetworkControlState res" where
  "apply_admit_space issuer ids legacy s =
     rbind (rfold (\<lambda>(node, i) _.
         rbind (requireCapability s issuer ''network.members.join'' (Some node)) (\<lambda>_.
         if \<not> legacy then requireIdentityAssignmentAuthority s issuer i else Inr ())) ids ()) (\<lambda>_.
     Inr (foldl (\<lambda>s (node, i). admit node i s) s ids))"

definition apply_remove_member :: "string \<Rightarrow> string \<Rightarrow> NetworkControlState \<Rightarrow> NetworkControlState res" where
  "apply_remove_member issuer node s =
     rbind (requireCapability s issuer ''network.members.remove'' (Some node)) (\<lambda>_.
     if nodeIsSoleAdministrator s node then Inl (Err ''Space control policy must retain an administrator'')
     else Inr (s\<lparr>deviceIdentityIds := bm_remove node (deviceIdentityIds s),
                memberNodeIds := bs_remove node (memberNodeIds s),
                disconnectedNodeIds := bs_remove node (disconnectedNodeIds s)\<rparr>))"

definition apply_leave_space :: "string \<Rightarrow> NetworkControlState \<Rightarrow> NetworkControlState res" where
  "apply_leave_space issuer s =
     (if issuer \<notin> set (memberNodeIds s) then Inl (Err ''Only an admitted device can leave its Space'')
      else Inr (s\<lparr>memberNodeIds := bs_remove issuer (memberNodeIds s),
                 deviceIdentityIds := bm_remove issuer (deviceIdentityIds s),
                 disconnectedNodeIds := bs_remove issuer (disconnectedNodeIds s)\<rparr>))"

definition apply_disconnect :: "string \<Rightarrow> string \<Rightarrow> NetworkControlState \<Rightarrow> NetworkControlState res" where
  "apply_disconnect issuer node s =
     rbind (requireCapability s issuer ''network.connections.disconnect'' (Some node)) (\<lambda>_.
     if node \<notin> set (memberNodeIds s) then Inl (Err ''device has not been admitted to the Space'')
     else Inr (s\<lparr>disconnectedNodeIds := bs_insert node (disconnectedNodeIds s)\<rparr>))"

definition apply_policy_update :: "string \<Rightarrow> string \<Rightarrow> string \<Rightarrow> NetworkControlState \<Rightarrow> NetworkControlState res" where
  "apply_policy_update issuer p v s =
     rbind (requireGlobalCapability s issuer ''network.policy.update'') (\<lambda>_.
     Inr (s\<lparr>policies := bm_insert p v (policies s)\<rparr>))"

definition authorizeAndApplyCommand ::
    "NetworkControlState \<Rightarrow> NetworkControlCommandRecord \<Rightarrow> string \<Rightarrow> bool \<Rightarrow> NetworkControlState res" where
  "authorizeAndApplyCommand s r origin legacy =
     (if issuerNodeId r \<noteq> origin then Inl (Err ''network control issuer does not match operation origin'')
      else case command r of
        Bootstrap n \<Rightarrow> apply_bootstrap (issuerNodeId r) n s
      | DefineRole role \<Rightarrow> apply_define_role (issuerNodeId r) role s
      | UpdateRole role \<Rightarrow> apply_update_role (issuerNodeId r) role s
      | RemoveRole i \<Rightarrow> apply_remove_role (issuerNodeId r) i s
      | GrantRole a \<Rightarrow> apply_grant_role (issuerNodeId r) a s
      | RevokeRole n \<Rightarrow> apply_revoke_role (issuerNodeId r) n s
      | AdmitMember n \<Rightarrow> apply_admit_member (issuerNodeId r) n s
      | AdmitSpace _ ids \<Rightarrow> apply_admit_space (issuerNodeId r) ids legacy s
      | RemoveMember n _ \<Rightarrow> apply_remove_member (issuerNodeId r) n s
      | LeaveSpace \<Rightarrow> apply_leave_space (issuerNodeId r) s
      | DisconnectNode n \<Rightarrow> apply_disconnect (issuerNodeId r) n s
      | PolicyUpdate p v \<Rightarrow> apply_policy_update (issuerNodeId r) p v s)"

definition authorizeCommand :: "NetworkControlState \<Rightarrow> string \<Rightarrow> NetworkControlCommand \<Rightarrow> unit res" where
  "authorizeCommand s issuer c =
     rbind (authorizeAndApplyCommand s
       \<lparr>commandId = ''local-authorization'', rec_spaceId = st_spaceId s, issuerNodeId = issuer, command = c\<rparr>
       issuer False) (\<lambda>_. Inr ())"

section \<open>What a decision says\<close>

lemma hasCapability_target [simp]: "hasCapability s n c (Some t) = hasCapability s n c None"
  by (simp add: hasCapability_def)

lemma requireCapability_Inr [simp]: "requireCapability s n c t = Inr u \<longleftrightarrow> hasCapability s n c None"
  by (cases t) (simp_all add: requireCapability_def)

lemma requireGlobalCapability_Inr [simp]: "requireGlobalCapability s n c = Inr u \<longleftrightarrow> hasCapability s n c None"
  by (simp add: requireGlobalCapability_def)

lemma rfold_unit_Inr: "rfold (\<lambda>x _. f x) xs u = Inr v \<longleftrightarrow> (\<forall>x \<in> set xs. f x = Inr ())"
  by (induction xs) auto

lemma rfold_const_unit: "rfold (\<lambda>x. Inr) xs u = Inr u"
  by (induction xs arbitrary: u) simp_all

lemma rfold_pair_Inr: "rfold (\<lambda>(a, b) _. f a b) xs u = Inr v \<longleftrightarrow> (\<forall>(a, b) \<in> set xs. f a b = Inr ())"
  by (induction xs) auto

lemma require_all_Inr [simp]: "require_all s n cs = Inr u \<longleftrightarrow> (\<forall>c \<in> set cs. hasCapability s n c None)"
  by (simp add: require_all_def rfold_unit_Inr)

lemma assignment_authority_Inr [simp]:
  "requireIdentityAssignmentAuthority s n i = Inr u \<longleftrightarrow>
     (\<exists>role. map_of (roles s) i = Some role \<and> hasCapability s n ''network.identity.assign'' None
       \<and> (\<forall>c \<in> set (capabilities role). hasCapability s n c None))"
  by (auto simp: requireIdentityAssignmentAuthority_def)

lemma star_capability: "hasCapability s n ''*'' None \<Longrightarrow> hasCapability s n c None"
  by (auto simp: hasCapability_def split: option.splits if_splits)

text \<open>The issuer holds everything a role gives as soon as it holds what the role lists.\<close>

lemma role_capabilities_held:
  assumes "\<forall>c \<in> set (capabilities role). hasCapability s n c None"
    and "''*'' \<in> set (capabilities role) \<or> c \<in> set (capabilities role)"
  shows "hasCapability s n c None"
  using assms star_capability by blast

lemma admit_space_Inr:
  "apply_admit_space issuer ids legacy s = Inr t \<longleftrightarrow>
     (\<forall>(n, i) \<in> set ids. hasCapability s issuer ''network.members.join'' None
        \<and> (legacy \<or> requireIdentityAssignmentAuthority s issuer i = Inr ()))
     \<and> t = foldl (\<lambda>s (node, i). admit node i s) s ids"
  by (auto simp: apply_admit_space_def rfold_pair_Inr split: if_splits)

section \<open>The invariant of the policy\<close>

text \<open>Every member has an identity and every identity is a member's, identities name roles,
  built-in roles are as built in, and only members are disconnected.\<close>

definition control_ok :: "NetworkControlState \<Rightarrow> bool" where
  "control_ok s \<longleftrightarrow>
     bm_wf (roles s) \<and> bm_wf (deviceIdentityIds s) \<and> bs_wf (memberNodeIds s) \<and> bs_wf (disconnectedNodeIds s)
     \<and> bm_wf (policies s) \<and> fst ` set (deviceIdentityIds s) = set (memberNodeIds s)
     \<and> set (disconnectedNodeIds s) \<subseteq> set (memberNodeIds s)
     \<and> (\<forall>n i. map_of (deviceIdentityIds s) n = Some i \<longrightarrow> bm_mem (roles s) i)
     \<and> (\<forall>i r. map_of builtinRoles i = Some r \<longrightarrow> map_of (roles s) i = Some r)
     \<and> (\<not> initialized s \<longrightarrow> memberNodeIds s = [])"

definition legacy_ok :: "NetworkControlCommandRecord \<Rightarrow> bool \<Rightarrow> bool" where
  "legacy_ok r legacy \<longleftrightarrow> (\<forall>source ids. legacy \<and> command r = AdmitSpace source ids \<longrightarrow> all_users ids)"

lemma builtinRoles_wf [simp]: "bm_wf builtinRoles"
  by (simp add: builtinRoles_def)

lemma map_of_builtinRoles: "map_of builtinRoles i =
    map_of (map (\<lambda>r. (roleId r, r))
     [builtinRole ''admin'' ''Administrator'' [''*''],
      builtinRole ''user'' ''User''
        [''network.devices.view'', ''network.relay'', ''runtime.execute'', ''storage.provide''],
      builtinRole ''relay'' ''Relay'' [''network.devices.view'', ''network.relay'', ''storage.provide''],
      builtinRole ''edge'' ''Edge'' [''network.devices.view'', ''runtime.execute'']]) i"
  unfolding builtinRoles_def by (subst map_of_bm_extend) (simp_all add: builtinRole_def split: option.splits)

lemma builtin_members [simp]: "bm_mem builtinRoles ''admin''" "bm_mem builtinRoles ''user''"
  by (simp_all add: bm_mem_def map_of_builtinRoles builtinRole_def)

lemma control_ok_builtin: "control_ok s \<Longrightarrow> bm_mem builtinRoles i \<Longrightarrow> bm_mem (roles s) i"
  by (auto simp: control_ok_def bm_mem_def)

lemma control_ok_user [simp]: "control_ok s \<Longrightarrow> bm_mem (roles s) ''user''"
  by (simp add: control_ok_builtin)

lemma control_ok_admin [simp]: "control_ok s \<Longrightarrow> bm_mem (roles s) ''admin''"
  by (simp add: control_ok_builtin)

lemma hasCapability_initialized: "hasCapability s n c t \<Longrightarrow> initialized s"
  by (simp add: hasCapability_def split: if_splits)

lemma empty_control_ok: "control_ok (emptyControlState s)"
  by (simp add: control_ok_def emptyControlState_def)

text \<open>Setting the identity of a member, and forgetting a device.\<close>

lemma control_ok_identity:
  assumes "control_ok s" and "n \<in> set (memberNodeIds s)" and "bm_mem (roles s) i"
  shows "control_ok (s\<lparr>deviceIdentityIds := bm_insert n i (deviceIdentityIds s)\<rparr>)"
  using assms by (auto simp: control_ok_def)

lemma control_ok_forget:
  assumes "control_ok s" and "initialized s"
  shows "control_ok (s\<lparr>deviceIdentityIds := bm_remove n (deviceIdentityIds s),
    memberNodeIds := bs_remove n (memberNodeIds s), disconnectedNodeIds := bs_remove n (disconnectedNodeIds s)\<rparr>)"
proof -
  have "fst ` set (bm_remove n (deviceIdentityIds s)) = fst ` set (deviceIdentityIds s) - {n}"
    by (auto simp: bm_remove_def)
  with assms show ?thesis by (auto simp: control_ok_def)
qed

lemma control_ok_admit:
  assumes "control_ok s" and "initialized s" and "bm_mem (roles s) i"
  shows "control_ok (admit n i s) \<and> initialized (admit n i s) \<and> roles (admit n i s) = roles s"
  using assms by (auto simp: control_ok_def admit_def bm_mem_iff)

lemma control_ok_admissions:
  assumes "control_ok s" and "initialized s" and "\<forall>(n, i) \<in> set ids. bm_mem (roles s) i"
  shows "control_ok (foldl (\<lambda>s (node, i). admit node i s) s ids)"
  using assms
proof (induction ids arbitrary: s)
  case (Cons e ids)
  obtain n i where e: "e = (n, i)" by force
  with Cons.prems control_ok_admit [of s i n] Cons.IH [of "admit n i s"] show ?case by simp
qed simp

lemma control_ok_define:
  assumes "control_ok s" and "\<not> bm_mem builtinRoles i"
  shows "control_ok (s\<lparr>roles := bm_insert i role (roles s)\<rparr>)"
  using assms by (auto simp: control_ok_def bm_mem_def)

text \<open>Reassigning the devices of a removed role.\<close>

lemma reassign_wf: "bm_wf m \<Longrightarrow> bm_wf (foldl (\<lambda>m n. bm_insert n i m) m ns)"
  by (induction ns arbitrary: m) auto

lemma reassign_lookup:
  "bm_wf m \<Longrightarrow> map_of (foldl (\<lambda>m n. bm_insert n i m) m ns) k = (if k \<in> set ns then Some i else map_of m k)"
  by (induction ns arbitrary: m) auto

lemma reassign_keys: "fst ` set (foldl (\<lambda>m n. bm_insert n i m) m ns) = set ns \<union> fst ` set m"
  by (induction ns arbitrary: m) auto

lemma holders: "bm_wf m \<Longrightarrow> k \<in> set (map fst (filter (\<lambda>(_, i). i = role) m)) \<longleftrightarrow> map_of m k = Some role"
  by (auto simp: bm_wf_distinct intro: rev_image_eqI dest: map_of_SomeD)

lemma removed_role_identities:
  assumes "bm_wf m"
  shows "map_of (foldl (\<lambda>m n. bm_insert n ''user'' m) m (map fst (filter (\<lambda>(_, i). i = role) m))) k
    = (if map_of m k = Some role then Some ''user'' else map_of m k)"
  by (simp only: reassign_lookup [OF assms] holders [OF assms])

lemma control_ok_remove_role:
  assumes "control_ok s" and "apply_remove_role issuer role s = Inr t"
  shows "control_ok t"
proof -
  let ?m = "deviceIdentityIds s"
  from assms(1) have m: "bm_wf ?m" by (simp add: control_ok_def)
  from assms(2) have nb: "\<not> bm_mem builtinRoles role" and t:
    "t = s\<lparr>deviceIdentityIds := foldl (\<lambda>m n. bm_insert n ''user'' m) ?m (map fst (filter (\<lambda>(_, i). i = role) ?m)),
           roles := bm_remove role (roles s)\<rparr>"
    by (auto simp: apply_remove_role_def Let_def split: if_splits)
  have ids: "map_of (deviceIdentityIds t) k = (if map_of ?m k = Some role then Some ''user'' else map_of ?m k)" for k
    using removed_role_identities [OF m, of role k] by (simp add: t)
  have rs: "map_of (roles t) = (map_of (roles s))(role := None)" by (simp add: t)
  have "role \<noteq> ''user''" using nb builtin_members(2) by metis
  then have "bm_mem (roles t) ''user''" using control_ok_user [OF assms(1)] by (simp add: bm_mem_def rs)
  moreover have "bm_mem (roles t) j" if "map_of ?m n = Some j" and "j \<noteq> role" for n j
    using assms(1) that by (simp add: control_ok_def bm_mem_def rs)
  ultimately have "\<forall>n i. map_of (deviceIdentityIds t) n = Some i \<longrightarrow> bm_mem (roles t) i"
    by (metis ids option.inject)
  moreover have "\<forall>i r. map_of builtinRoles i = Some r \<longrightarrow> map_of (roles t) i = Some r"
  proof (intro allI impI)
    fix i r assume r: "map_of builtinRoles i = Some r"
    with nb have "i \<noteq> role" by (auto simp: bm_mem_def)
    with r assms(1) show "map_of (roles t) i = Some r" by (simp add: rs control_ok_def)
  qed
  moreover have "fst ` set (deviceIdentityIds t) = fst ` set ?m" by (auto simp: t reassign_keys)
  moreover have "bm_wf (deviceIdentityIds t)" by (simp add: t reassign_wf [OF m])
  moreover have "bm_wf (roles t)" "bs_wf (memberNodeIds t)" "bs_wf (disconnectedNodeIds t)" "bm_wf (policies t)"
      "memberNodeIds t = memberNodeIds s" "disconnectedNodeIds t = disconnectedNodeIds s" "initialized t = initialized s"
    using assms(1) by (simp_all add: t control_ok_def)
  ultimately show ?thesis using assms(1) unfolding control_ok_def by simp
qed

lemma control_ok_bootstrap:
  assumes "control_ok s" and "apply_bootstrap issuer n s = Inr t"
  shows "control_ok t"
proof -
  from assms(2) have t: "\<not> initialized s"
    "t = s\<lparr>initialized := True, memberNodeIds := bs_insert n (memberNodeIds s),
           deviceIdentityIds := bm_insert n ''admin'' (deviceIdentityIds s)\<rparr>"
    by (auto simp: apply_bootstrap_def split: if_splits)
  with assms(1) show ?thesis using control_ok_admin [OF assms(1)] by (auto simp: control_ok_def bs_wf_def)
qed

lemma control_ok_grant: "control_ok s \<Longrightarrow> apply_grant_role issuer a s = Inr t \<Longrightarrow> control_ok t"
  by (auto simp: apply_grant_role_def bm_mem_def intro!: control_ok_identity split: if_splits)

lemma control_ok_member: "control_ok s \<Longrightarrow> map_of (deviceIdentityIds s) n = Some i \<Longrightarrow> n \<in> set (memberNodeIds s)"
  by (metis control_ok_def bm_mem_iff bm_mem_def option.distinct(1))

lemma control_ok_revoke: "control_ok s \<Longrightarrow> apply_revoke_role issuer n s = Inr t \<Longrightarrow> control_ok t"
  by (auto simp: apply_revoke_role_def dest: control_ok_member intro!: control_ok_identity split: if_splits)

lemma control_ok_admit_space:
  assumes "control_ok s" and "apply_admit_space issuer ids legacy s = Inr t" and "legacy \<Longrightarrow> all_users ids"
  shows "control_ok t"
proof (cases "ids = []")
  case True
  with assms(1,2) show ?thesis by (simp add: apply_admit_space_def)
next
  case False
  from assms(2) have t: "t = foldl (\<lambda>s (node, i). admit node i s) s ids"
    and all: "\<forall>(n, i) \<in> set ids. hasCapability s issuer ''network.members.join'' None
        \<and> (legacy \<or> requireIdentityAssignmentAuthority s issuer i = Inr ())"
    unfolding admit_space_Inr by blast+
  from False all have "initialized s" by (cases ids) (auto dest: hasCapability_initialized)
  moreover have "\<forall>(n, i) \<in> set ids. bm_mem (roles s) i"
  proof (cases legacy)
    case True
    with assms(3) show ?thesis using control_ok_user [OF assms(1)] by (auto simp: all_users_def)
  next
    case False
    with all show ?thesis by (auto simp: bm_mem_def)
  qed
  ultimately show ?thesis unfolding t by (rule control_ok_admissions [OF assms(1)])
qed

lemma control_ok_leave: "control_ok s \<Longrightarrow> apply_leave_space issuer s = Inr t \<Longrightarrow> control_ok t"
proof -
  assume ok: "control_ok s" and t: "apply_leave_space issuer s = Inr t"
  then have "initialized s" by (auto simp: apply_leave_space_def control_ok_def split: if_splits)
  from control_ok_forget [OF ok this, of issuer] t show "control_ok t"
    by (cases s) (auto simp: apply_leave_space_def split: if_splits)
qed

lemma control_ok_remove: "control_ok s \<Longrightarrow> apply_remove_member issuer n s = Inr t \<Longrightarrow> control_ok t"
  by (auto simp: apply_remove_member_def dest: hasCapability_initialized intro!: control_ok_forget split: if_splits)

lemma control_ok_disconnect: "control_ok s \<Longrightarrow> apply_disconnect issuer n s = Inr t \<Longrightarrow> control_ok t"
  by (clarsimp simp: apply_disconnect_def split: if_splits) (simp add: control_ok_def hasCapability_initialized)

lemma control_ok_policy: "control_ok s \<Longrightarrow> apply_policy_update issuer p v s = Inr t \<Longrightarrow> control_ok t"
  by (clarsimp simp: apply_policy_update_def) (simp add: control_ok_def hasCapability_initialized)

lemma control_ok_roles:
  "control_ok s \<Longrightarrow> apply_define_role issuer role s = Inr t \<Longrightarrow> control_ok t"
  "control_ok s \<Longrightarrow> apply_update_role issuer role s = Inr t \<Longrightarrow> control_ok t"
  by (auto simp: apply_define_role_def apply_update_role_def intro!: control_ok_define split: if_splits)

lemma control_ok_admit_member: "control_ok s \<Longrightarrow> apply_admit_member issuer n s = Inr t \<Longrightarrow> control_ok t"
  by (auto simp: apply_admit_member_def control_ok_admit dest: hasCapability_initialized)

lemmas control_ok_arms = control_ok_bootstrap control_ok_roles control_ok_remove_role control_ok_grant control_ok_revoke
  control_ok_admit_member control_ok_remove control_ok_leave control_ok_disconnect control_ok_policy

lemma authorize_control_ok:
  assumes "control_ok s" and "authorizeAndApplyCommand s r origin legacy = Inr t" and "legacy_ok r legacy"
  shows "control_ok t"
proof (cases "command r")
  case (AdmitSpace source ids)
  with assms show ?thesis
    by (auto simp: authorizeAndApplyCommand_def legacy_ok_def split: if_splits intro: control_ok_admit_space)
qed (use assms in \<open>auto simp: authorizeAndApplyCommand_def split: if_splits dest: control_ok_arms\<close>)

section \<open>No capability out of nothing\<close>

text \<open>What decides a capability is the role of the device.\<close>

definition role_of :: "NetworkControlState \<Rightarrow> string \<Rightarrow> NetworkControlRole option" where
  "role_of s n = Option.bind (map_of (deviceIdentityIds s) n) (map_of (roles s))"

definition gives :: "NetworkControlRole \<Rightarrow> string \<Rightarrow> bool" where
  "gives role c \<longleftrightarrow> ''*'' \<in> set (capabilities role) \<or> c \<in> set (capabilities role)"

lemma hasCapability_role: "hasCapability s n c t \<longleftrightarrow> initialized s \<and> (\<exists>role. role_of s n = Some role \<and> gives role c)"
  by (auto simp: hasCapability_def role_of_def gives_def bind_eq_Some_conv split: option.splits)

definition user_capability :: "string \<Rightarrow> bool" where
  "user_capability c \<longleftrightarrow> c \<in> {''network.devices.view'', ''network.relay'', ''runtime.execute'', ''storage.provide''}"

lemma user_role:
  assumes "control_ok s" and "map_of (roles s) ''user'' = Some role" and "gives role c"
  shows "user_capability c"
proof -
  have u: "map_of builtinRoles ''user'' = Some (builtinRole ''user'' ''User''
        [''network.devices.view'', ''network.relay'', ''runtime.execute'', ''storage.provide''])"
    by (simp add: map_of_builtinRoles builtinRole_def)
  with assms(1) have "map_of (roles s) ''user'' = Some (builtinRole ''user'' ''User''
        [''network.devices.view'', ''network.relay'', ''runtime.execute'', ''storage.provide''])"
    by (simp add: control_ok_def)
  with assms(2,3) show ?thesis by (auto simp: gives_def builtinRole_def user_capability_def)
qed

definition sourced :: "NetworkControlState \<Rightarrow> string \<Rightarrow> NetworkControlState \<Rightarrow> bool" where
  "sourced s issuer t \<longleftrightarrow> (\<forall>n c. hasCapability t n c None \<longrightarrow>
     hasCapability s n c None \<or> hasCapability s issuer c None \<or> user_capability c)"

lemma sourcedI:
  assumes "initialized t \<Longrightarrow> initialized s"
    and "\<And>n role. role_of t n = Some role \<Longrightarrow> role_of s n = Some role
      \<or> (\<forall>c. gives role c \<longrightarrow> hasCapability s issuer c None \<or> user_capability c)"
  shows "sourced s issuer t"
  unfolding sourced_def
proof (intro allI impI)
  fix n c assume "hasCapability t n c None"
  then obtain role where i: "initialized t" and role: "role_of t n = Some role" "gives role c"
    by (auto simp: hasCapability_role)
  from assms(2) [OF role(1)] show "hasCapability s n c None \<or> hasCapability s issuer c None \<or> user_capability c"
    using assms(1) [OF i] role(2) by (auto simp: hasCapability_role)
qed

lemma sourced_same_roles: "(\<And>n. role_of t n = role_of s n) \<Longrightarrow> initialized t = initialized s \<Longrightarrow> sourced s issuer t"
  by (rule sourcedI) auto

lemma issuer_gives: "\<forall>c \<in> set (capabilities role). hasCapability s n c None \<Longrightarrow> gives role c \<Longrightarrow> hasCapability s n c None"
  unfolding gives_def by (rule role_capabilities_held)

lemma role_of_identity:
  "bm_wf (deviceIdentityIds s) \<Longrightarrow> role_of (s\<lparr>deviceIdentityIds := bm_insert m i (deviceIdentityIds s)\<rparr>) n
    = (if n = m then map_of (roles s) i else role_of s n)"
  by (simp add: role_of_def)

lemma role_of_new_role:
  "bm_wf (roles s) \<Longrightarrow> role_of (s\<lparr>roles := bm_insert i role (roles s)\<rparr>) n
    = (if map_of (deviceIdentityIds s) n = Some i then Some role else role_of s n)"
  by (cases "map_of (deviceIdentityIds s) n") (simp_all add: role_of_def)

lemma role_of_admit:
  "bm_wf (deviceIdentityIds s) \<Longrightarrow> role_of (admit m i s) n
    = (if n = m \<and> \<not> bm_mem (deviceIdentityIds s) m then map_of (roles s) i else role_of s n)"
  by (simp add: role_of_def admit_def)

lemma role_of_admissions:
  assumes "bm_wf (deviceIdentityIds s)"
  shows "role_of (foldl (\<lambda>s (node, i). admit node i s) s ids) n = role_of s n
    \<or> (\<exists>(m, i) \<in> set ids. role_of (foldl (\<lambda>s (node, i). admit node i s) s ids) n = map_of (roles s) i)"
  using assms
proof (induction ids arbitrary: s)
  case (Cons e ids)
  obtain m i where e: "e = (m, i)" by force
  have wf: "bm_wf (deviceIdentityIds (admit m i s))" and r: "roles (admit m i s) = roles s"
    using Cons.prems by (simp_all add: admit_def)
  from Cons.IH [OF wf] role_of_admit [OF Cons.prems, of m i n] show ?case
    unfolding e r by (auto split: if_splits)
qed simp

lemma control_ok_wf: "control_ok s \<Longrightarrow> bm_wf (roles s)" "control_ok s \<Longrightarrow> bm_wf (deviceIdentityIds s)"
  by (simp_all add: control_ok_def)

lemma sourced_define:
  assumes "control_ok s" and "apply_define_role issuer role s = Inr t \<or> apply_update_role issuer role s = Inr t"
  shows "sourced s issuer t"
proof (rule sourcedI)
  from assms(2) have t: "t = s\<lparr>roles := bm_insert (roleId role) role (roles s)\<rparr>"
    and h: "\<forall>c \<in> set (capabilities role). hasCapability s issuer c None"
    by (auto simp: apply_define_role_def apply_update_role_def split: if_splits)
  then show "initialized t \<Longrightarrow> initialized s" by simp
  show "role_of t n = Some r \<Longrightarrow> role_of s n = Some r \<or> (\<forall>c. gives r c \<longrightarrow> hasCapability s issuer c None \<or> user_capability c)"
    for n r using h issuer_gives [OF h]
    by (auto simp: t role_of_new_role [OF control_ok_wf(1) [OF assms(1)]] split: if_splits)
qed

lemma sourced_remove_role:
  assumes "control_ok s" and "apply_remove_role issuer i s = Inr t"
  shows "sourced s issuer t"
proof (rule sourcedI)
  let ?m = "deviceIdentityIds s"
  from assms(2) have nb: "\<not> bm_mem builtinRoles i" and t:
    "t = s\<lparr>deviceIdentityIds := foldl (\<lambda>m n. bm_insert n ''user'' m) ?m (map fst (filter (\<lambda>(_, j). j = i) ?m)),
           roles := bm_remove i (roles s)\<rparr>"
    by (auto simp: apply_remove_role_def Let_def split: if_splits)
  from t show "initialized t \<Longrightarrow> initialized s" by simp
  have ids: "map_of (deviceIdentityIds t) k = (if map_of ?m k = Some i then Some ''user'' else map_of ?m k)" for k
    using removed_role_identities [OF control_ok_wf(2) [OF assms(1)], of i k] by (simp add: t)
  have rs: "map_of (roles t) = (map_of (roles s))(i := None)" by (simp add: t)
  have ne: "''user'' \<noteq> i" using nb builtin_members(2) by metis
  show "role_of s n = Some r \<or> (\<forall>c. gives r c \<longrightarrow> hasCapability s issuer c None \<or> user_capability c)"
    if "role_of t n = Some r" for n r
  proof (cases "map_of ?m n = Some i")
    case True
    with that ne have "map_of (roles s) ''user'' = Some r" by (simp add: role_of_def ids rs)
    with user_role [OF assms(1)] show ?thesis by blast
  next
    case False
    with that have "role_of s n = Some r" by (auto simp: role_of_def ids rs bind_eq_Some_conv split: if_splits)
    then show ?thesis ..
  qed
qed

lemma sourced_grant:
  assumes "control_ok s" and "apply_grant_role issuer a s = Inr t"
  shows "sourced s issuer t"
proof (rule sourcedI)
  from assms(2) obtain role where t: "t = s\<lparr>deviceIdentityIds := bm_insert (assigned_node a) (assigned_role a) (deviceIdentityIds s)\<rparr>"
    and role: "map_of (roles s) (assigned_role a) = Some role"
    and h: "\<forall>c \<in> set (capabilities role). hasCapability s issuer c None"
    by (auto simp: apply_grant_role_def split: if_splits)
  from t show "initialized t \<Longrightarrow> initialized s" by simp
  show "role_of t n = Some r \<Longrightarrow> role_of s n = Some r \<or> (\<forall>c. gives r c \<longrightarrow> hasCapability s issuer c None \<or> user_capability c)"
    for n r using issuer_gives [OF h] role
    by (auto simp: t role_of_identity [OF control_ok_wf(2) [OF assms(1)]] split: if_splits)
qed

lemma sourced_revoke:
  assumes "control_ok s" and "apply_revoke_role issuer m s = Inr t"
  shows "sourced s issuer t"
proof (rule sourcedI)
  from assms(2) have t: "t = s\<lparr>deviceIdentityIds := bm_insert m ''user'' (deviceIdentityIds s)\<rparr>"
    by (auto simp: apply_revoke_role_def split: if_splits)
  then show "initialized t \<Longrightarrow> initialized s" by simp
  show "role_of t n = Some r \<Longrightarrow> role_of s n = Some r \<or> (\<forall>c. gives r c \<longrightarrow> hasCapability s issuer c None \<or> user_capability c)"
    for n r using user_role [OF assms(1)]
    by (auto simp: t role_of_identity [OF control_ok_wf(2) [OF assms(1)]] split: if_splits)
qed

lemma sourced_admit_member:
  assumes "control_ok s" and "apply_admit_member issuer m s = Inr t"
  shows "sourced s issuer t"
proof (rule sourcedI)
  from assms(2) have t: "t = admit m ''user'' s" by (auto simp: apply_admit_member_def)
  then show "initialized t \<Longrightarrow> initialized s" by (simp add: admit_def)
  show "role_of t n = Some r \<Longrightarrow> role_of s n = Some r \<or> (\<forall>c. gives r c \<longrightarrow> hasCapability s issuer c None \<or> user_capability c)"
    for n r using user_role [OF assms(1)]
    by (auto simp: t role_of_admit [OF control_ok_wf(2) [OF assms(1)]] split: if_splits)
qed

lemma initialized_admissions: "initialized (foldl (\<lambda>s (node, i). admit node i s) s ids) = initialized s"
proof (induction ids arbitrary: s)
  case (Cons e ids)
  obtain n i where e: "e = (n, i)" by force
  show ?case unfolding e using Cons [of "admit n i s"] by (simp add: admit_def)
qed simp

lemma sourced_admit_space:
  assumes "control_ok s" and "apply_admit_space issuer ids legacy s = Inr t" and "legacy \<Longrightarrow> all_users ids"
  shows "sourced s issuer t"
proof (rule sourcedI)
  from assms(2) have t: "t = foldl (\<lambda>s (node, i). admit node i s) s ids"
    and all: "\<forall>(n, i) \<in> set ids. hasCapability s issuer ''network.members.join'' None
        \<and> (legacy \<or> requireIdentityAssignmentAuthority s issuer i = Inr ())"
    unfolding admit_space_Inr by blast+
  show "initialized t \<Longrightarrow> initialized s" by (simp add: t initialized_admissions)
  have ident: "\<forall>c. gives r c \<longrightarrow> hasCapability s issuer c None \<or> user_capability c"
    if "(m, i) \<in> set ids" and "map_of (roles s) i = Some r" for m i r
  proof (cases legacy)
    case True
    with assms(3) that(1) have "i = ''user''" by (auto simp: all_users_def)
    with that(2) user_role [OF assms(1)] show ?thesis by blast
  next
    case False
    with all that have "\<forall>c \<in> set (capabilities r). hasCapability s issuer c None" by auto
    then show ?thesis using issuer_gives by blast
  qed
  show "role_of s n = Some r \<or> (\<forall>c. gives r c \<longrightarrow> hasCapability s issuer c None \<or> user_capability c)"
    if "role_of t n = Some r" for n r
  proof (cases "role_of s n = Some r")
    case False
    with role_of_admissions [OF control_ok_wf(2) [OF assms(1)], of ids n] that
    obtain m i where "(m, i) \<in> set ids" "map_of (roles s) i = Some r" unfolding t [symmetric] by auto
    then show ?thesis using ident by blast
  qed simp
qed

lemma sourced_forget:
  assumes "map_of (deviceIdentityIds t) = (map_of (deviceIdentityIds s))(m := None)" and "roles t = roles s"
    and "initialized t = initialized s"
  shows "sourced s issuer t"
  by (rule sourcedI) (use assms in \<open>auto simp: role_of_def bind_eq_Some_conv split: if_splits\<close>)

lemma sourced_rest:
  "apply_remove_member issuer m s = Inr t \<Longrightarrow> sourced s issuer t"
  "apply_leave_space issuer s = Inr t \<Longrightarrow> sourced s issuer t"
  "apply_disconnect issuer m s = Inr t \<Longrightarrow> sourced s issuer t"
  "apply_policy_update issuer p v s = Inr t \<Longrightarrow> sourced s issuer t"
proof -
  show "apply_remove_member issuer m s = Inr t \<Longrightarrow> sourced s issuer t"
    by (rule sourced_forget [where m = m]) (auto simp: apply_remove_member_def split: if_splits)
  show "apply_leave_space issuer s = Inr t \<Longrightarrow> sourced s issuer t"
    by (rule sourced_forget [where m = issuer]) (auto simp: apply_leave_space_def split: if_splits)
  show "apply_disconnect issuer m s = Inr t \<Longrightarrow> sourced s issuer t"
    by (rule sourced_same_roles) (auto simp: apply_disconnect_def role_of_def split: if_splits)
  show "apply_policy_update issuer p v s = Inr t \<Longrightarrow> sourced s issuer t"
    by (rule sourced_same_roles) (auto simp: apply_policy_update_def role_of_def)
qed

lemma authorize_sourced:
  assumes "control_ok s" and "authorizeAndApplyCommand s r origin legacy = Inr t" and "legacy_ok r legacy"
    and "initialized s \<or> (\<forall>m. command r \<noteq> Bootstrap m)"
  shows "sourced s origin t"
proof (cases "command r")
  case (AdmitSpace source ids)
  with assms show ?thesis
    by (auto simp: authorizeAndApplyCommand_def legacy_ok_def split: if_splits intro: sourced_admit_space)
next
  case (Bootstrap n)
  with assms(2,4) show ?thesis by (auto simp: authorizeAndApplyCommand_def apply_bootstrap_def split: if_splits)
qed (use assms in \<open>auto simp: authorizeAndApplyCommand_def split: if_splits intro: sourced_rest sourced_define
      sourced_remove_role sourced_grant sourced_revoke sourced_admit_member\<close>)

lemma founding:
  assumes "authorizeAndApplyCommand s r origin legacy = Inr t" and "command r = Bootstrap n"
  shows "command r = Bootstrap origin \<and> \<not> initialized s"
  using assms by (auto simp: authorizeAndApplyCommand_def apply_bootstrap_def split: if_splits)

text \<open>C5: No escalation: after an accepted command, a device holds a capability only if it held it before, or the issuer
  of the command held it, or every user has it, or the command is the one that founds the policy: the bootstrap of a
  Space without a policy, which its issuer directs at itself.  An admission in the old form names users only
  (\<open>legacy_ok\<close>), which the decoder sees to.\<close>

theorem no_escalation:
  assumes "control_ok s" and "authorizeAndApplyCommand s r origin legacy = Inr t" and "legacy_ok r legacy"
    and "hasCapability t n c None"
  shows "hasCapability s n c None \<or> hasCapability s origin c None \<or> user_capability c
    \<or> (command r = Bootstrap origin \<and> \<not> initialized s)"
proof (cases "\<exists>m. command r = Bootstrap m")
  case True
  with founding [OF assms(2)] show ?thesis by blast
next
  case False
  then have "initialized s \<or> (\<forall>m. command r \<noteq> Bootstrap m)" by blast
  from authorize_sourced [OF assms(1-3) this] assms(4) show ?thesis unfolding sourced_def by blast
qed

text \<open>A Space of an administrator \<open>a\<close> and a user \<open>b\<close>.\<close>

definition example_space :: NetworkControlState where
  "example_space = \<lparr>st_spaceId = ''s'', initialized = True, memberNodeIds = [''a'', ''b''], roles = builtinRoles,
     deviceIdentityIds = [(''a'', ''admin''), (''b'', ''user'')], disconnectedNodeIds = [], policies = []\<rparr>"

lemma example_space_ok: "control_ok example_space"
proof -
  have "bm_wf [(''a'', ''admin''), (''b'', ''user'')]" "bs_wf [''a'', ''b'']" by (simp_all add: bm_wf_def bs_wf_def)
  then show ?thesis by (simp add: example_space_def control_ok_def)
qed

theorem no_escalation_witness:
  "let grant = \<lparr>commandId = ''g'', rec_spaceId = ''s'', issuerNodeId = ''a'',
       command = GrantRole \<lparr>assigned_node = ''b'', assigned_role = ''relay''\<rparr>\<rparr>
   in \<exists>t. authorizeAndApplyCommand example_space grant ''a'' False = Inr t
     \<and> (hasCapability example_space ''b'' ''network.relay'' None \<or> hasCapability example_space ''a'' ''network.relay'' None
        \<or> user_capability ''network.relay'')"
proof -
  let ?g = "\<lparr>commandId = ''g'', rec_spaceId = ''s'', issuerNodeId = ''a'',
       command = GrantRole \<lparr>assigned_node = ''b'', assigned_role = ''relay''\<rparr>\<rparr>"
  let ?t = "example_space\<lparr>deviceIdentityIds := [(''a'', ''admin''), (''b'', ''relay'')]\<rparr>"
  have t: "authorizeAndApplyCommand example_space ?g ''a'' False = Inr ?t"
    by (simp add: authorizeAndApplyCommand_def apply_grant_role_def example_space_def requireIdentityAssignmentAuthority_def
        requireGlobalCapability_def requireCapability_def hasCapability_def map_of_builtinRoles builtinRole_def
        require_all_def rfold_const_unit)
  have "hasCapability ?t ''b'' ''network.relay'' None"
    by (simp add: example_space_def hasCapability_def map_of_builtinRoles builtinRole_def)
  from no_escalation [OF example_space_ok t _ this] t show ?thesis
    by (auto simp: legacy_ok_def example_space_def)
qed

lemma authorize_initialized:
  assumes "authorizeAndApplyCommand s r origin legacy = Inr t" and "initialized s"
  shows "initialized t"
proof (cases "command r")
  case (AdmitSpace source ids)
  with assms show ?thesis
    by (auto simp: authorizeAndApplyCommand_def admit_space_Inr initialized_admissions split: if_splits)
qed (use assms in \<open>auto simp: authorizeAndApplyCommand_def apply_bootstrap_def apply_define_role_def apply_update_role_def
      apply_remove_role_def apply_grant_role_def apply_revoke_role_def apply_admit_member_def admit_def
      apply_remove_member_def apply_leave_space_def apply_disconnect_def apply_policy_update_def Let_def
      split: if_splits\<close>)

section \<open>Administrators\<close>

definition administrators :: "NetworkControlState \<Rightarrow> string set" where
  "administrators s = {n. map_of (deviceIdentityIds s) n = Some ''admin''}"

lemma other_administrator:
  assumes "bm_wf (deviceIdentityIds s)"
  shows "(\<exists>(n, i) \<in> set (deviceIdentityIds s). n \<noteq> node \<and> i = ''admin'') \<longleftrightarrow> administrators s - {node} \<noteq> {}"
  using bm_wf_distinct [OF assms] by (auto simp: administrators_def)

lemma clearing_iff:
  "control_ok s \<Longrightarrow> clearingIdentityLeavesNoAdministrator s n \<longleftrightarrow> administrators s \<subseteq> {n}"
  unfolding clearingIdentityLeavesNoAdministrator_def by (subst other_administrator) (auto simp: control_ok_wf)

lemma sole_iff:
  assumes "control_ok s"
  shows "nodeIsSoleAdministrator s n \<longleftrightarrow> administrators s = {n}"
proof -
  have "nodeIsSoleAdministrator s n \<longleftrightarrow> n \<in> administrators s \<and> \<not> administrators s - {n} \<noteq> {}"
    unfolding nodeIsSoleAdministrator_def other_administrator [OF control_ok_wf(2) [OF assms]]
    by (simp add: administrators_def)
  then show ?thesis by blast
qed

lemma administrators_identity:
  "bm_wf (deviceIdentityIds s) \<Longrightarrow> administrators (s\<lparr>deviceIdentityIds := bm_insert n i (deviceIdentityIds s)\<rparr>)
    = (if i = ''admin'' then insert n (administrators s) else administrators s - {n})"
  by (auto simp: administrators_def)

lemma administrators_admit: "bm_wf (deviceIdentityIds s) \<Longrightarrow> administrators s \<subseteq> administrators (admit n i s)"
  by (auto simp: administrators_def admit_def bm_mem_def)

lemma administrators_admissions:
  "bm_wf (deviceIdentityIds s) \<Longrightarrow> administrators s \<subseteq> administrators (foldl (\<lambda>s (node, i). admit node i s) s ids)"
proof (induction ids arbitrary: s)
  case (Cons e ids)
  obtain n i where e: "e = (n, i)" by force
  have "bm_wf (deviceIdentityIds (admit n i s))" using Cons.prems by (simp add: admit_def)
  from Cons.IH [OF this] administrators_admit [OF Cons.prems, of n i] show ?case by (auto simp: e)
qed simp

lemma administrators_remove_role:
  assumes "control_ok s" and "apply_remove_role issuer i s = Inr t"
  shows "administrators t = administrators s"
proof -
  let ?m = "deviceIdentityIds s"
  from assms(2) have nb: "\<not> bm_mem builtinRoles i" and t: "deviceIdentityIds t
      = foldl (\<lambda>m n. bm_insert n ''user'' m) ?m (map fst (filter (\<lambda>(_, j). j = i) ?m))"
    by (auto simp: apply_remove_role_def Let_def split: if_splits)
  have "map_of (deviceIdentityIds t) k = (if map_of ?m k = Some i then Some ''user'' else map_of ?m k)" for k
    using removed_role_identities [OF control_ok_wf(2) [OF assms(1)], of i k] by (simp add: t)
  moreover have "i \<noteq> ''admin''" using nb builtin_members(1) by metis
  ultimately show ?thesis by (auto simp: administrators_def)
qed

lemma administrators_grant:
  assumes "control_ok s" and "apply_grant_role issuer a s = Inr t" and "administrators s \<noteq> {}"
  shows "administrators t \<noteq> {}"
proof -
  from assms(2) have t: "t = s\<lparr>deviceIdentityIds := bm_insert (assigned_node a) (assigned_role a) (deviceIdentityIds s)\<rparr>"
    and c: "assigned_role a \<noteq> ''admin'' \<Longrightarrow> map_of (deviceIdentityIds s) (assigned_node a) = Some ''admin''
      \<Longrightarrow> \<not> administrators s \<subseteq> {assigned_node a}"
    using clearing_iff [OF assms(1)] by (auto simp: apply_grant_role_def split: if_splits option.splits)
  have "assigned_node a \<notin> administrators s \<or> \<not> administrators s \<subseteq> {assigned_node a}" if "assigned_role a \<noteq> ''admin''"
    using c [OF that] by (auto simp: administrators_def)
  with assms(3) show ?thesis unfolding t administrators_identity [OF control_ok_wf(2) [OF assms(1)]] by auto
qed

lemma administrators_revoke:
  assumes "control_ok s" and "apply_revoke_role issuer n s = Inr t" and "administrators s \<noteq> {}"
  shows "administrators t \<noteq> {}"
proof -
  from assms(2) have t: "t = s\<lparr>deviceIdentityIds := bm_insert n ''user'' (deviceIdentityIds s)\<rparr>"
    and "map_of (deviceIdentityIds s) n = Some ''admin'' \<Longrightarrow> \<not> administrators s \<subseteq> {n}"
    using clearing_iff [OF assms(1)] by (auto simp: apply_revoke_role_def split: if_splits)
  then have "n \<notin> administrators s \<or> \<not> administrators s \<subseteq> {n}" by (auto simp: administrators_def)
  with assms(3) show ?thesis unfolding t administrators_identity [OF control_ok_wf(2) [OF assms(1)]] by auto
qed

lemma administrators_remove:
  assumes "control_ok s" and "apply_remove_member issuer n s = Inr t" and "administrators s \<noteq> {}"
  shows "administrators t \<noteq> {}"
proof -
  from assms(2) have "map_of (deviceIdentityIds t) = (map_of (deviceIdentityIds s))(n := None)"
    and ns: "administrators s \<noteq> {n}"
    using sole_iff [OF assms(1)] by (auto simp: apply_remove_member_def split: if_splits)
  then have "administrators t = administrators s - {n}" by (auto simp: administrators_def)
  with ns assms(3) show ?thesis by blast
qed

lemma administrators_same:
  "apply_define_role issuer role s = Inr t \<Longrightarrow> administrators t = administrators s"
  "apply_update_role issuer role s = Inr t \<Longrightarrow> administrators t = administrators s"
  "apply_disconnect issuer n s = Inr t \<Longrightarrow> administrators t = administrators s"
  "apply_policy_update issuer p v s = Inr t \<Longrightarrow> administrators t = administrators s"
  by (auto simp: apply_define_role_def apply_update_role_def apply_disconnect_def apply_policy_update_def
      administrators_def split: if_splits)

text \<open>C6: Once there is an administrator, every accepted command except a device's own departure leaves one: no grant,
  reset, removal, role change or admission ends the administration of a Space.\<close>

theorem administrator_retained:
  assumes "control_ok s" and "authorizeAndApplyCommand s r origin legacy = Inr t" and "command r \<noteq> LeaveSpace"
    and "administrators s \<noteq> {}"
  shows "administrators t \<noteq> {}"
proof (cases "command r")
  case (AdmitSpace source ids)
  with assms(2) have "t = foldl (\<lambda>s (node, i). admit node i s) s ids"
    by (auto simp: authorizeAndApplyCommand_def admit_space_Inr split: if_splits)
  with administrators_admissions [OF control_ok_wf(2) [OF assms(1)], of ids] assms(4) show ?thesis by auto
next
  case (AdmitMember n)
  with assms(2) have "t = admit n ''user'' s"
    by (auto simp: authorizeAndApplyCommand_def apply_admit_member_def split: if_splits)
  with administrators_admit [OF control_ok_wf(2) [OF assms(1)], of n] assms(4) show ?thesis by auto
next
  case (RemoveRole i)
  with assms(2) administrators_remove_role [OF assms(1)] assms(4) show ?thesis
    by (auto simp: authorizeAndApplyCommand_def split: if_splits)
next
  case (Bootstrap n)
  with assms(1,2) have "map_of (deviceIdentityIds t) n = Some ''admin''"
    by (auto simp: authorizeAndApplyCommand_def apply_bootstrap_def control_ok_wf split: if_splits)
  then show ?thesis by (auto simp: administrators_def)
qed (use assms in \<open>auto simp: authorizeAndApplyCommand_def administrators_same split: if_splits
       dest: administrators_grant administrators_revoke administrators_remove\<close>)

theorem administrator_retained_witness:
  "\<exists>t. authorizeAndApplyCommand example_space \<lparr>commandId = ''g'', rec_spaceId = ''s'', issuerNodeId = ''a'',
     command = AdmitMember ''c''\<rparr> ''a'' False = Inr t \<and> administrators t \<noteq> {}"
proof -
  let ?r = "\<lparr>commandId = ''g'', rec_spaceId = ''s'', issuerNodeId = ''a'', command = AdmitMember ''c''\<rparr>"
  have "hasCapability example_space ''a'' ''network.members.join'' None"
    by (simp add: example_space_def hasCapability_def map_of_builtinRoles builtinRole_def)
  then obtain t where t: "authorizeAndApplyCommand example_space ?r ''a'' False = Inr t"
    by (simp add: authorizeAndApplyCommand_def apply_admit_member_def requireCapability_def)
  have "''a'' \<in> administrators example_space" by (simp add: administrators_def example_space_def)
  then have "administrators example_space \<noteq> {}" by blast
  with t administrator_retained [OF example_space_ok t] show ?thesis by simp
qed

end
