(* ===== verification/Control_Replay.thy ===== *)
theory Control_Replay
  imports Control_Policy
begin

text \<open>
  The replay of the control commands of a Space with its audit (\<open>NetworkControlStore.rs\<close>) and
  the read model that keeps the accepted state of every Space up to date
  (\<open>NetworkControlReadModel.rs\<close>).
\<close>

section \<open>Replay and audit\<close>

record NetworkControlAuditRecord =
  audit_commandId :: string
  audit_spaceId :: string
  audit_issuer :: string
  audit_origin :: string
  accepted :: bool
  audit_reason :: fault
  audit_summary :: string
  recordedAt :: int

record CoreSpaceDeviceProfile =
  profile_nodeId :: string
  profile_displayName :: string
  profile_userName :: string
  platform :: string
  profile_model :: string
  coreVersion :: "string option"
  pairingIncarnation :: "string option"
  updatedAt :: int

definition controlDeviceLabel :: "(string, CoreSpaceDeviceProfile) bmap \<Rightarrow> string \<Rightarrow> string res" where
  "controlDeviceLabel profiles n =
     rbind (ok_or (Err (''device profile is missing for audit device: '' @ n)) (map_of profiles n)) (\<lambda>p.
     Inr (if str_trim (utf8_chars (profile_userName p)) = [] then profile_displayName p
          else profile_displayName p @ '' '' @ [char_of (0xC2::nat), char_of (0xB7::nat)] @ '' '' @ profile_userName p))"

definition controlRoleLabel :: "NetworkControlState \<Rightarrow> string \<Rightarrow> string res" where
  "controlRoleLabel s i =
     rbind (ok_or (Err (''role is missing for audit command: '' @ i)) (map_of (roles s) i)) (\<lambda>r. Inr (displayName r))"

fun join :: "string \<Rightarrow> string list \<Rightarrow> string" where
  "join sep [] = []"
| "join sep [x] = x"
| "join sep (x # y # ys) = x @ sep @ join sep (y # ys)"

text \<open>\<open>debug\<close> stands for the standard library's quoting of a string in \<open>{:?}\<close>.\<close>

definition controlAuditSummary :: "(string \<Rightarrow> string) \<Rightarrow> NetworkControlCommand \<Rightarrow> NetworkControlState
    \<Rightarrow> (string, CoreSpaceDeviceProfile) bmap \<Rightarrow> string res" where
  "controlAuditSummary debug c s profiles =
     (case c of
        Bootstrap n \<Rightarrow> rbind (controlDeviceLabel profiles n) (\<lambda>l. Inr (''Bootstrap control; administrator '' @ l))
      | DefineRole r \<Rightarrow> Inr (''Define role '' @ displayName r)
      | UpdateRole r \<Rightarrow> Inr (''Update role '' @ displayName r)
      | RemoveRole i \<Rightarrow> Inr (''Remove role '' @ (case controlRoleLabel s i of Inl _ \<Rightarrow> i | Inr l \<Rightarrow> l))
      | GrantRole a \<Rightarrow>
          rbind (controlRoleLabel s (assigned_role a)) (\<lambda>r.
          rbind (controlDeviceLabel profiles (assigned_node a)) (\<lambda>l. Inr (''Set identity '' @ r @ '' on '' @ l)))
      | RevokeRole n \<Rightarrow> rbind (controlDeviceLabel profiles n) (\<lambda>l. Inr (''Reset identity on '' @ l @ '' to the default user''))
      | AdmitMember n \<Rightarrow> rbind (controlDeviceLabel profiles n) (\<lambda>l. Inr (''Admit device '' @ l))
      | AdmitSpace source ids \<Rightarrow>
          rbind (rmap (controlDeviceLabel profiles) (map fst ids)) (\<lambda>ls.
          Inr (''Merge Space '' @ source @ ''; admit '' @ join '', '' ls))
      | RemoveMember n _ \<Rightarrow> rbind (controlDeviceLabel profiles n) (\<lambda>l. Inr (''Remove device '' @ l))
      | LeaveSpace \<Rightarrow> Inr ''Leave Space''
      | DisconnectNode n \<Rightarrow> rbind (controlDeviceLabel profiles n) (\<lambda>l. Inr (''Disconnect device '' @ l))
      | PolicyUpdate p v \<Rightarrow> Inr (''Update policy '' @ p @ '' to '' @ debug v))"

definition replay_step :: "(string \<Rightarrow> string) \<Rightarrow> string \<Rightarrow> (string, CoreSpaceDeviceProfile) bmap option \<Rightarrow> SyncOperation
    \<Rightarrow> NetworkControlState \<times> NetworkControlAuditRecord list
    \<Rightarrow> (NetworkControlState \<times> NetworkControlAuditRecord list) res" where
  "replay_step debug spaceId profiles op sa =
     (let (s, audit) = sa in
      rbind (decodeControlOperation op) (\<lambda>r.
      if rec_spaceId r \<noteq> spaceId then Inr (s, audit)
      else
        rbind (case profiles of None \<Rightarrow> Inr None
               | Some ps \<Rightarrow> rbind (controlAuditSummary debug (command r) s ps) (\<lambda>t. Inr (Some t))) (\<lambda>summary.
        let result = authorizeAndApplyCommand s r (op_originDeviceId op) (isLegacyAdmission op);
            s' = (case result of Inl _ \<Rightarrow> s | Inr t \<Rightarrow> t);
            (ok, reason) = (case result of Inl e \<Rightarrow> (False, e) | Inr _ \<Rightarrow> (True, Err ''accepted''))
        in Inr (s', case summary of
                      None \<Rightarrow> audit
                    | Some t \<Rightarrow> audit @ [\<lparr>audit_commandId = commandId r, audit_spaceId = rec_spaceId r,
                        audit_issuer = issuerNodeId r, audit_origin = op_originDeviceId op, accepted = ok,
                        audit_reason = reason, audit_summary = t, recordedAt = op_createdAt op\<rparr>]))))"

definition replayControlCommands :: "(string \<Rightarrow> string) \<Rightarrow> string \<Rightarrow> SyncOperation list
    \<Rightarrow> (string, CoreSpaceDeviceProfile) bmap option \<Rightarrow> (NetworkControlState \<times> NetworkControlAuditRecord list) res" where
  "replayControlCommands debug spaceId ops profiles =
     rfold (replay_step debug spaceId profiles) ops (emptyControlState spaceId, [])"

section \<open>The read model\<close>

record NetworkControlReadModel =
  rm_journal :: "(string, SyncOperation) bmap"
  rm_received :: "(string, SyncOperation) bmap"
  rm_projected :: "(string, SyncOperation) bmap"
  rm_commands :: "(string, SyncOperation list) bmap"
  rm_states :: "(string, NetworkControlState) bmap"
  rm_errors :: "(string, fault) bmap"
  recovery_error :: "fault option"

definition by_id :: "SyncOperation list \<Rightarrow> (string, SyncOperation) bmap" where
  "by_id ops = bm_extend [] (map (\<lambda>op. (opId op, op)) ops)"

definition json_space :: "SyncOperation \<Rightarrow> string option" where
  "json_space op = Option.bind (json_get (payload op) ''spaceId'') as_str"

definition add_conflict :: "SyncOperation \<Rightarrow> SyncOperation \<Rightarrow> (string, fault) bmap \<Rightarrow> (string, fault) bmap" where
  "add_conflict previous op errors =
     foldl (\<lambda>es c. case json_space c of None \<Rightarrow> es
       | Some sp \<Rightarrow> bm_insert sp (Err (''Space '' @ sp @ '': Conflicting immutable control operation '' @ opId op)) es)
       errors [previous, op]"

definition unique_step :: "(string, SyncOperation) bmap \<times> (string, fault) bmap \<Rightarrow> SyncOperation
    \<Rightarrow> (string, SyncOperation) bmap \<times> (string, fault) bmap" where
  "unique_step ue op =
     (let (unique, errors) = ue in
      (bm_insert (opId op) op unique,
       case map_of unique (opId op) of
         None \<Rightarrow> errors
       | Some previous \<Rightarrow> if previous \<noteq> op then add_conflict previous op errors else errors))"

text \<open>The text of an error is wrapped; a library's text stays unknown.\<close>

definition prefix_fault :: "string \<Rightarrow> fault \<Rightarrow> fault" where
  "prefix_fault p e = (case e of Err m \<Rightarrow> Err (p @ m) | Foreign \<Rightarrow> Foreign | Panic m \<Rightarrow> Panic m)"

definition decode_step :: "(string, SyncOperation list) bmap \<times> (string, fault) bmap \<Rightarrow> SyncOperation
    \<Rightarrow> (string, SyncOperation list) bmap \<times> (string, fault) bmap" where
  "decode_step ce op =
     (let (commands, errors) = ce in
      case decodeControlOperation op of
        Inr r \<Rightarrow> (bm_insert (rec_spaceId r)
          ((case map_of commands (rec_spaceId r) of None \<Rightarrow> [] | Some ops \<Rightarrow> ops) @ [op]) commands, errors)
      | Inl e \<Rightarrow> (commands,
          case json_space op of
            None \<Rightarrow> errors
          | Some sp \<Rightarrow> if str_trim (utf8_chars sp) = [] then errors
              else bm_insert sp (prefix_fault (''Space control operation '' @ opId op @ '' (origin ''
                @ op_originDeviceId op @ ''): '') e) errors))"

definition state_step :: "(string, NetworkControlState) bmap \<times> (string, fault) bmap \<Rightarrow> string \<times> SyncOperation list
    \<Rightarrow> (string, NetworkControlState) bmap \<times> (string, fault) bmap" where
  "state_step se entry =
     (let (states, errors) = se; (sp, ops) = entry in
      case replayControlCommands id sp ops None of
        Inr (s, _) \<Rightarrow> (bm_insert sp s states, errors)
      | Inl e \<Rightarrow> (states, bm_insert sp (prefix_fault (''Space '' @ sp @ '' control replay: '') e) errors))"

definition rm_rebuild :: "NetworkControlReadModel \<Rightarrow> NetworkControlReadModel" where
  "rm_rebuild m =
     (let (unique, errors) = foldl unique_step ([], [])
            (map snd (rm_journal m) @ map snd (rm_received m) @ map snd (rm_projected m));
          (commands, errors) = foldl decode_step ([], errors) (map snd unique);
          commands = map (\<lambda>(sp, ops). (sp, sort_key fromOperation ops)) commands;
          (states, errors) = foldl state_step ([], errors) commands
      in m\<lparr>rm_commands := commands, rm_states := states, rm_errors := errors\<rparr>)"

definition rm_new :: "SyncOperation list \<Rightarrow> SyncOperation list \<Rightarrow> SyncOperation list \<Rightarrow> NetworkControlReadModel" where
  "rm_new journal received projected = rm_rebuild \<lparr>rm_journal = by_id journal, rm_received = by_id received,
     rm_projected = by_id projected, rm_commands = [], rm_states = [], rm_errors = [], recovery_error = None\<rparr>"

definition rm_check :: "NetworkControlReadModel \<Rightarrow> string \<Rightarrow> unit res" where
  "rm_check m sp =
     (case recovery_error m of
        Some e \<Rightarrow> Inl e
      | None \<Rightarrow> (case map_of (rm_errors m) sp of Some e \<Rightarrow> Inl e | None \<Rightarrow> Inr ()))"

definition rm_state :: "NetworkControlReadModel \<Rightarrow> string \<Rightarrow> NetworkControlState res" where
  "rm_state m sp = rbind (rm_check m sp) (\<lambda>_.
     case map_of (rm_states m) sp of Some s \<Rightarrow> Inr s | None \<Rightarrow> Inr (emptyControlState sp))"

definition rm_space_commands :: "NetworkControlReadModel \<Rightarrow> string \<Rightarrow> SyncOperation list res" where
  "rm_space_commands m sp = rbind (rm_check m sp) (\<lambda>_.
     Inr (case map_of (rm_commands m) sp of None \<Rightarrow> [] | Some ops \<Rightarrow> ops))"

definition rm_unavailable :: "fault \<Rightarrow> NetworkControlReadModel \<Rightarrow> NetworkControlReadModel" where
  "rm_unavailable e m = m\<lparr>recovery_error := Some e\<rparr>"

text \<open>The common loop of the two ways in which operations arrive.\<close>

definition take_controls :: "SyncOperation list \<Rightarrow> (string, SyncOperation) bmap \<Rightarrow> (string, SyncOperation) bmap \<times> bool" where
  "take_controls ops table =
     foldl (\<lambda>(t, changed) op.
        if op_domain op \<noteq> ''network_control'' then (t, changed)
        else if map_of t (opId op) \<noteq> Some op then (bm_insert (opId op) op t, True) else (t, changed))
       (table, False) ops"

definition rm_append_journal :: "SyncOperation list \<Rightarrow> NetworkControlReadModel \<Rightarrow> NetworkControlReadModel" where
  "rm_append_journal ops m =
     (let (t, changed) = take_controls ops (rm_journal m); m = m\<lparr>rm_journal := t\<rparr>
      in if changed then rm_rebuild m else m)"

definition rm_receive :: "SyncOperation list \<Rightarrow> NetworkControlReadModel \<Rightarrow> NetworkControlReadModel" where
  "rm_receive ops m =
     (let (t, changed) = take_controls ops (rm_received m); m = m\<lparr>rm_received := t\<rparr>
      in if changed then rm_rebuild m else m)"

definition rm_complete :: "SyncOperation list \<Rightarrow> NetworkControlReadModel \<Rightarrow> NetworkControlReadModel" where
  "rm_complete ops m =
     (let (t, changed) = foldl (\<lambda>(t, changed) op. (bm_remove (opId op) t, changed \<or> bm_mem t (opId op)))
            (rm_received m, False) ops;
          m = m\<lparr>rm_received := t\<rparr>
      in if changed then rm_rebuild m else m)"

definition rm_replace_projected :: "SyncOperation list \<Rightarrow> NetworkControlReadModel \<Rightarrow> NetworkControlReadModel" where
  "rm_replace_projected ops m = rm_rebuild (m\<lparr>rm_projected := by_id ops\<rparr>)"

definition rm_retire_journal :: "NetworkControlReadModel \<Rightarrow> NetworkControlReadModel" where
  "rm_retire_journal m = rm_rebuild (m\<lparr>rm_journal := []\<rparr>)"

section \<open>The policy of a sequence\<close>

text \<open>The specification: the policy after a sequence of operations, rejected ones changing nothing.\<close>

definition policy_step :: "string \<Rightarrow> NetworkControlState \<Rightarrow> SyncOperation \<Rightarrow> NetworkControlState" where
  "policy_step sp s op =
     (case decodeControlOperation op of
        Inl _ \<Rightarrow> s
      | Inr r \<Rightarrow> if rec_spaceId r \<noteq> sp then s
          else (case authorizeAndApplyCommand s r (op_originDeviceId op) (isLegacyAdmission op) of Inl _ \<Rightarrow> s | Inr t \<Rightarrow> t))"

definition policy :: "string \<Rightarrow> SyncOperation list \<Rightarrow> NetworkControlState" where
  "policy sp ops = foldl (policy_step sp) (emptyControlState sp) ops"

definition readable :: "SyncOperation \<Rightarrow> bool" where
  "readable op \<longleftrightarrow> \<not> isl (decodeControlOperation op)"

definition in_space :: "string \<Rightarrow> SyncOperation \<Rightarrow> bool" where
  "in_space sp op \<longleftrightarrow> (\<exists>r. decodeControlOperation op = Inr r \<and> rec_spaceId r = sp)"

lemma readable_iff: "readable op \<longleftrightarrow> (\<exists>r. decodeControlOperation op = Inr r)"
  by (cases "decodeControlOperation op") (auto simp: readable_def)

lemma replay_step_policy: "readable op \<Longrightarrow> replay_step debug sp None op (s, a) = Inr (policy_step sp s op, a)"
  unfolding readable_iff
  by (erule exE, rename_tac r, case_tac "authorizeAndApplyCommand s r (op_originDeviceId op) (isLegacyAdmission op)")
    (simp_all add: replay_step_def policy_step_def)

lemma replay_policy:
  assumes "\<forall>op \<in> set ops. readable op"
  shows "replayControlCommands debug sp ops None = Inr (policy sp ops, [])"
proof -
  have "rfold (replay_step debug sp None) ops (s, a) = Inr (foldl (policy_step sp) s ops, a)" for s a
    using assms by (induction ops arbitrary: s) (simp_all add: replay_step_policy)
  then show ?thesis by (simp add: replayControlCommands_def policy_def)
qed

lemma authorize_issuer_command:
  "issuerNodeId r = issuerNodeId q \<Longrightarrow> command r = command q \<Longrightarrow>
    authorizeAndApplyCommand s r origin legacy = authorizeAndApplyCommand s q origin legacy"
  by (simp only: authorizeAndApplyCommand_def)

lemma encoded_not_legacy: "command r = c \<Longrightarrow> payload op = encode_record r \<Longrightarrow> \<not> isLegacyAdmission op"
  by (cases c) (simp_all add: isLegacyAdmission_def encode_record_def json_struct_def json_index_def struct_lookup variant_def)

text \<open>An operation as a device writes it.\<close>

definition control_operation :: "string \<Rightarrow> int \<Rightarrow> int \<Rightarrow> NetworkControlCommandRecord \<Rightarrow> SyncOperation" where
  "control_operation node n now r = \<lparr>opId = commandId r, op_originDeviceId = node, op_sequence = n,
     op_domain = ''network_control'', entityType = ''command'', entityId = commandId r, op_operation = ''apply'',
     semantics = Transaction_semantics, payload = encode_record r, op_createdAt = now, schemaVersion = 1\<rparr>"

lemma control_operation_decode:
  assumes "command_wf (command r)" and "validateCommandRecord r = Inr ()"
  shows "decodeControlOperation (control_operation node n now r) = Inr r"
    "isLegacyAdmission (control_operation node n now r) = False"
  using assms encoded_not_legacy [of r "command r" "control_operation node n now r"]
  by (simp_all add: control_operation_def decodeControlOperation_def validateControlEnvelope_def command_record_decoded)

lemma control_operation_simps [simp]:
  "op_originDeviceId (control_operation node n now r) = node" "opId (control_operation node n now r) = commandId r"
  "fromOperation (control_operation node n now r) = Revision now node n"
  by (simp_all add: control_operation_def fromOperation_def)

section \<open>Examples\<close>

lemma policy_step_operation:
  "command_wf (command r) \<Longrightarrow> validateCommandRecord r = Inr () \<Longrightarrow> rec_spaceId r = sp \<Longrightarrow>
    policy_step sp s (control_operation node n now r)
     = (case authorizeAndApplyCommand s r node False of Inl _ \<Rightarrow> s | Inr t \<Rightarrow> t)"
  by (simp add: policy_step_def control_operation_decode)

lemma readable_operation:
  "command_wf (command r) \<Longrightarrow> validateCommandRecord r = Inr () \<Longrightarrow> readable (control_operation node n now r)"
  by (simp add: readable_iff control_operation_decode)

definition example_record :: "string \<Rightarrow> string \<Rightarrow> NetworkControlCommand \<Rightarrow> NetworkControlCommandRecord" where
  "example_record i node c = \<lparr>commandId = i, rec_spaceId = ''s'', issuerNodeId = node, command = c\<rparr>"

lemmas example_simps = example_record_def validateCommandRecord_def validateNodeId_def validateSpaceId_def valid_ascii
  policy_step_operation readable_operation authorizeAndApplyCommand_def apply_bootstrap_def apply_admit_member_def
  apply_leave_space_def apply_grant_role_def admit_def emptyControlState_def map_of_builtinRoles builtinRole_def
  hasCapability_def bs_remove_def bm_remove_def bm_mem_def

definition example_founding :: "SyncOperation list" where
  "example_founding =
     [control_operation ''a'' 1 1 (example_record ''c1'' ''a'' (Bootstrap ''a'')),
      control_operation ''a'' 2 2 (example_record ''c2'' ''a'' (AdmitMember ''b''))]"

lemma example_founded: "policy ''s'' example_founding = example_space"
  by (simp add: policy_def example_founding_def example_simps requireCapability_def example_space_def)

lemma example_readable: "\<forall>op \<in> set example_founding. readable op"
  by (simp add: example_founding_def example_simps)

section \<open>What replay keeps\<close>

lemma replay_step_cases:
  assumes "replay_step debug sp profiles op (s, a) = Inr (t, b)"
  obtains r where "decodeControlOperation op = Inr r" and "t = s \<or> rec_spaceId r = sp
    \<and> authorizeAndApplyCommand s r (op_originDeviceId op) (isLegacyAdmission op) = Inr t"
proof -
  from assms obtain r where "decodeControlOperation op = Inr r" by (auto simp: replay_step_def)
  moreover from assms this have "t = s \<or> rec_spaceId r = sp
      \<and> authorizeAndApplyCommand s r (op_originDeviceId op) (isLegacyAdmission op) = Inr t"
    by (auto simp: replay_step_def Let_def split: if_splits sum.splits prod.splits option.splits)
  ultimately show thesis by (rule that)
qed

lemma decoded_legacy_ok: "decodeControlOperation op = Inr r \<Longrightarrow> legacy_ok r (isLegacyAdmission op)"
  by (auto simp: legacy_ok_def dest: legacy_decoded_users)

lemma replay_step_control_ok:
  assumes "control_ok s" and "replay_step debug sp profiles op (s, a) = Inr (t, b)"
  shows "control_ok t"
  using assms(2) by (rule replay_step_cases) (use assms(1) in \<open>auto dest: authorize_control_ok decoded_legacy_ok\<close>)

lemma replay_from_control_ok:
  assumes "rfold (replay_step debug sp profiles) ops sa = Inr tb" and "control_ok (fst sa)"
  shows "control_ok (fst tb)"
  using assms(1,2)
proof (rule rfold_invariant [where P = "\<lambda>sa. control_ok (fst sa)"])
  show "control_ok (fst v)" if "control_ok (fst u)" and "replay_step debug sp profiles x u = Inr v" for x u v
    using replay_step_control_ok [of "fst u" debug sp profiles x "snd u" "fst v" "snd v"] that by simp
qed

text \<open>C7: The replay of any log of readable commands, in any order and with any rejections, yields a policy in which
  exactly the members have an identity, every identity names a role, the built-in roles are untouched and only members
  are disconnected.\<close>

theorem replay_policy_invariant:
  assumes "replayControlCommands debug sp ops profiles = Inr (s, audit)"
  shows "control_ok s"
  using replay_from_control_ok [OF assms [unfolded replayControlCommands_def]] empty_control_ok by simp

theorem replay_policy_invariant_witness: "control_ok (policy ''s'' example_founding)"
  by (rule replay_policy_invariant [OF replay_policy [OF example_readable]])

text \<open>A capability nobody holds stays unheld.\<close>

lemma replay_step_unheld:
  assumes "replay_step debug sp profiles op (s, a) = Inr (t, b)" and "control_ok s" and "initialized s"
    and "\<forall>n. \<not> hasCapability s n c None" and "\<not> user_capability c"
  shows "initialized t \<and> (\<forall>n. \<not> hasCapability t n c None)"
  using assms(1)
proof (rule replay_step_cases)
  fix r assume r: "decodeControlOperation op = Inr r" and cases: "t = s \<or> rec_spaceId r = sp
    \<and> authorizeAndApplyCommand s r (op_originDeviceId op) (isLegacyAdmission op) = Inr t"
  show ?thesis
  proof (cases "t = s")
    case False
    with cases have a: "authorizeAndApplyCommand s r (op_originDeviceId op) (isLegacyAdmission op) = Inr t" by simp
    from authorize_sourced [OF assms(2) a decoded_legacy_ok [OF r] disjI1 [OF assms(3)]] assms(4,5)
    have "\<forall>n. \<not> hasCapability t n c None" by (auto simp: sourced_def)
    moreover have "initialized t" using authorize_initialized [OF a assms(3)] .
    ultimately show ?thesis by blast
  qed (use assms(3,4) in simp)
qed

text \<open>C8: Capabilities do not come out of nothing: once the policy is initialized and no device holds a capability that
  users lack, no command that is replayed after that point, whoever issues it, brings it back.  So no operation whose
  revision lies behind the departure of the last administrator makes anyone administrator.  The capabilities of every
  user are excepted, since an admission hands them out; and an operation with an older revision that arrives afterwards
  takes its place before that point, where it may have the authority of the one who left.\<close>

theorem capability_not_resurrected:
  assumes "replayControlCommands debug sp ops profiles = Inr (s, audit)" and "initialized s"
    and "\<forall>n. \<not> hasCapability s n c None" and "\<not> user_capability c"
    and "replayControlCommands debug sp (ops @ later) profiles = Inr (t, audit')"
  shows "\<not> hasCapability t n c None"
proof -
  let ?P = "\<lambda>sa. control_ok (fst sa) \<and> initialized (fst sa) \<and> (\<forall>n. \<not> hasCapability (fst sa) n c None)"
  from assms(1,5) have "rfold (replay_step debug sp profiles) later (s, audit) = Inr (t, audit')"
    by (simp add: replayControlCommands_def rfold_append)
  moreover have "?P (s, audit)" using assms(2,3) replay_policy_invariant [OF assms(1)] by simp
  ultimately have "?P (t, audit')"
  proof (rule rfold_invariant [where P = ?P])
    show "?P v" if "?P u" and "replay_step debug sp profiles x u = Inr v" for x u v
      using replay_step_unheld [of debug sp profiles x "fst u" "snd u" "fst v" "snd v" c]
        replay_step_control_ok [of "fst u" debug sp profiles x "snd u" "fst v" "snd v"] that assms(4) by simp
  qed
  then show ?thesis by simp
qed

text \<open>The administrator leaves, which no guard prevents, and the user tries to become administrator.\<close>

definition example_departure :: SyncOperation where
  "example_departure = control_operation ''a'' 3 3 (example_record ''c3'' ''a'' LeaveSpace)"

definition example_usurpation :: SyncOperation where
  "example_usurpation = control_operation ''b'' 1 4 (example_record ''c4'' ''b''
     (GrantRole \<lparr>assigned_node = ''b'', assigned_role = ''admin''\<rparr>))"

lemma example_left: "policy ''s'' (example_founding @ [example_departure]) = example_space\<lparr>memberNodeIds := [''b''],
    deviceIdentityIds := [(''b'', ''user'')]\<rparr>"
proof -
  have "policy ''s'' (example_founding @ [example_departure])
      = policy_step ''s'' (policy ''s'' example_founding) example_departure" by (simp add: policy_def)
  then show ?thesis unfolding example_founded by (simp add: example_departure_def example_simps example_space_def)
qed

theorem capability_not_resurrected_witness:
  "\<not> hasCapability (policy ''s'' (example_founding @ [example_departure] @ [example_usurpation])) ''b'' ''*'' None"
proof -
  let ?s = "policy ''s'' (example_founding @ [example_departure])"
  have r: "readable example_departure" "readable example_usurpation"
    by (simp_all add: example_departure_def example_usurpation_def example_simps validateIdentityAssignment_def)
  have 1: "replayControlCommands id ''s'' (example_founding @ [example_departure]) None = Inr (?s, [])"
    by (rule replay_policy) (use example_readable r in auto)
  have 2: "replayControlCommands id ''s'' ((example_founding @ [example_departure]) @ [example_usurpation]) None
      = Inr (policy ''s'' ((example_founding @ [example_departure]) @ [example_usurpation]), [])"
    by (rule replay_policy) (use example_readable r in auto)
  have n: "\<forall>n. \<not> hasCapability ?s n ''*'' None" "initialized ?s" unfolding example_left
    by (simp_all add: example_space_def hasCapability_def map_of_builtinRoles builtinRole_def)
  from capability_not_resurrected [OF 1 n(2,1) _ 2, of "''b''"] show ?thesis by (simp add: user_capability_def)
qed

section \<open>The read model is current\<close>

definition rm_operations :: "NetworkControlReadModel \<Rightarrow> SyncOperation list" where
  "rm_operations m = map snd (rm_journal m) @ map snd (rm_received m) @ map snd (rm_projected m)"

definition keyed :: "(string, SyncOperation) bmap \<Rightarrow> bool" where
  "keyed t \<longleftrightarrow> bm_wf t \<and> (\<forall>e \<in> set t. fst e = opId (snd e))"

text \<open>The states a model can reach from the logs it is built from.\<close>

inductive rm_reachable :: "NetworkControlReadModel \<Rightarrow> bool" where
  built: "rm_reachable (rm_new journal received projected)"
| appended: "rm_reachable m \<Longrightarrow> rm_reachable (rm_append_journal ops m)"
| received: "rm_reachable m \<Longrightarrow> rm_reachable (rm_receive ops m)"
| completed: "rm_reachable m \<Longrightarrow> rm_reachable (rm_complete ops m)"
| projected: "rm_reachable m \<Longrightarrow> rm_reachable (rm_replace_projected ops m)"
| retired: "rm_reachable m \<Longrightarrow> rm_reachable (rm_retire_journal m)"
| failed: "rm_reachable m \<Longrightarrow> rm_reachable (rm_unavailable e m)"

lemma rebuild_keeps [simp]:
  "rm_journal (rm_rebuild m) = rm_journal m" "rm_received (rm_rebuild m) = rm_received m"
  "rm_projected (rm_rebuild m) = rm_projected m" "recovery_error (rm_rebuild m) = recovery_error m"
  by (simp_all add: rm_rebuild_def split_def Let_def)

lemma rebuild_cong:
  assumes "rm_journal m = rm_journal n" and "rm_received m = rm_received n" and "rm_projected m = rm_projected n"
  shows "rm_commands (rm_rebuild m) = rm_commands (rm_rebuild n)" "rm_states (rm_rebuild m) = rm_states (rm_rebuild n)"
    "rm_errors (rm_rebuild m) = rm_errors (rm_rebuild n)"
  using assms by (simp_all add: rm_rebuild_def split_def Let_def)

lemma rebuild_idem [simp]: "rm_rebuild (rm_rebuild m) = rm_rebuild m"
  by (simp add: rm_rebuild_def split_def Let_def)

lemma keyed_insert: "keyed t \<Longrightarrow> keyed (bm_insert (opId op) op t)"
  using set_bm_insert_subset [of "opId op" op t] by (auto simp: keyed_def)

lemma keyed_by_id: "keyed (by_id ops)"
proof -
  have "keyed t \<Longrightarrow> keyed (bm_extend t (map (\<lambda>op. (opId op, op)) ops))" for t
    by (induction ops arbitrary: t) (auto simp: bm_extend_def keyed_insert)
  from this [of "[]"] show ?thesis by (simp add: by_id_def) (simp add: keyed_def)
qed

lemma take_controls_keyed:
  assumes "keyed t" and "take_controls ops t = (u, changed)"
  shows "keyed u \<and> (\<not> changed \<longrightarrow> u = t)"
proof -
  let ?f = "\<lambda>(t, changed) op. if op_domain op \<noteq> ''network_control'' then (t, changed)
        else if map_of t (opId op) \<noteq> Some op then (bm_insert (opId op) op t, True) else (t, changed)"
  have "keyed (fst (foldl ?f (t, c) ops)) \<and> (\<not> snd (foldl ?f (t, c) ops) \<longrightarrow> \<not> c \<and> fst (foldl ?f (t, c) ops) = t)"
    if "keyed t" for t c using that
  proof (induction ops arbitrary: t c)
    case (Cons op ops)
    have k: "keyed (bm_insert (opId op) op t)" using Cons.prems by (rule keyed_insert)
    show ?case using Cons.IH [OF Cons.prems, of c] Cons.IH [OF k, of True]
      by (cases "op_domain op = ''network_control''"; cases "map_of t (opId op) = Some op") auto
  qed simp
  from this [OF assms(1), of False] assms(2) show ?thesis by (simp add: take_controls_def)
qed

lemma complete_loop:
  assumes "keyed t" and "foldl (\<lambda>(t, changed) op. (bm_remove (opId op) t, changed \<or> bm_mem t (opId op))) (t, c) ops = (u, d)"
  shows "keyed u \<and> (\<not> d \<longrightarrow> \<not> c \<and> u = t) \<and> u = filter (\<lambda>e. fst e \<notin> opId ` set ops) t"
  using assms
proof (induction ops arbitrary: t c)
  case (Cons op ops)
  have k: "keyed (bm_remove (opId op) t)" using Cons.prems(1) by (auto simp: keyed_def bm_remove_def bm_wf_filter)
  have f: "filter (\<lambda>e. fst e \<notin> opId ` set ops) (bm_remove (opId op) t)
      = filter (\<lambda>e. fst e \<notin> opId ` set (op # ops)) t"
    unfolding bm_remove_def filter_filter by (rule filter_cong) auto
  from Cons.IH [OF k, of "c \<or> bm_mem t (opId op)"] Cons.prems(2) f show ?case
    by (auto simp: not_bm_mem)
qed (simp add: filter_id_conv)

text \<open>Whatever happened, the commands, states and errors are those of a rebuild.\<close>

definition rm_current :: "NetworkControlReadModel \<Rightarrow> bool" where
  "rm_current m \<longleftrightarrow> rm_rebuild m = m \<and> keyed (rm_journal m) \<and> keyed (rm_received m) \<and> keyed (rm_projected m)"

lemma reachable_current: "rm_reachable m \<Longrightarrow> rm_current m"
proof (induction rule: rm_reachable.induct)
  case (built journal received projected)
  show ?case by (simp add: rm_new_def rm_current_def keyed_by_id)
next
  case (appended m ops)
  obtain t c where t: "take_controls ops (rm_journal m) = (t, c)" by force
  with appended.IH take_controls_keyed [OF _ t] show ?case by (auto simp: rm_current_def rm_append_journal_def)
next
  case (received m ops)
  obtain t c where t: "take_controls ops (rm_received m) = (t, c)" by force
  with received.IH take_controls_keyed [OF _ t] show ?case by (auto simp: rm_current_def rm_receive_def)
next
  case (completed m ops)
  obtain t c where t: "foldl (\<lambda>(t, changed) op. (bm_remove (opId op) t, changed \<or> bm_mem t (opId op)))
      (rm_received m, False) ops = (t, c)" by force
  with completed.IH complete_loop [OF _ t] show ?case by (auto simp: rm_current_def rm_complete_def Let_def)
next
  case (projected m ops)
  then show ?case by (simp add: rm_current_def rm_replace_projected_def keyed_by_id)
next
  case (retired m)
  then show ?case by (simp add: rm_current_def rm_retire_journal_def keyed_def)
next
  case (failed m e)
  have "rm_rebuild (rm_unavailable e m) = rm_unavailable e (rm_rebuild m)"
    by (simp add: rm_rebuild_def rm_unavailable_def split_def Let_def)
  with failed.IH show ?case by (simp add: rm_current_def) (simp add: rm_unavailable_def)
qed

section \<open>The reading depends on the set of operations\<close>

definition consistent :: "SyncOperation list \<Rightarrow> bool" where
  "consistent ops \<longleftrightarrow> (\<forall>a \<in> set ops. \<forall>b \<in> set ops. opId a = opId b \<longrightarrow> a = b)"

lemma unique_wf: "bm_wf u \<Longrightarrow> bm_wf (fst (foldl unique_step (u, e) ops))"
  by (induction ops arbitrary: u e) (auto simp: unique_step_def)

lemma unique_consistent:
  assumes "consistent ops"
  shows "set (fst (foldl unique_step ([], []) ops)) = (\<lambda>op. (opId op, op)) ` set ops
    \<and> snd (foldl unique_step ([], []) ops) = []"
  using assms
proof (induction ops rule: rev_induct)
  case (snoc op ops)
  let ?u = "fst (foldl unique_step ([], []) ops)"
  from snoc.prems have "consistent ops" by (simp add: consistent_def)
  with snoc.IH have u: "set ?u = (\<lambda>op. (opId op, op)) ` set ops" and e: "snd (foldl unique_step ([], []) ops) = []" by auto
  have wf: "bm_wf ?u" by (simp add: unique_wf)
  have old: "p = op" if "map_of ?u (opId op) = Some p" for p
  proof -
    from that have "(opId op, p) \<in> set ?u" by (rule map_of_SomeD)
    with u snoc.prems show ?thesis by (auto simp: consistent_def)
  qed
  have "set (bm_insert (opId op) op ?u) = insert (opId op, op) (set ?u)"
  proof (cases "map_of ?u (opId op)")
    case None
    from bm_insert_fresh_mset [OF None, of op] show ?thesis by (metis set_mset_add_mset_insert set_mset_mset)
  next
    case (Some p)
    with old [OF Some] wf show ?thesis by (auto dest: map_of_SomeD)
  qed
  moreover have "foldl unique_step ([], []) (ops @ [op]) = (bm_insert (opId op) op ?u, [])"
    using e old by (cases "foldl unique_step ([], []) ops") (auto simp: unique_step_def split: option.splits)
  ultimately show ?case using u by simp
qed simp

lemma unique_set:
  assumes "consistent xs" and "set xs = set ys"
  shows "foldl unique_step ([], []) xs = foldl unique_step ([], []) ys"
proof (rule prod_eqI)
  have ys: "consistent ys" using assms by (simp add: consistent_def)
  show "fst (foldl unique_step ([], []) xs) = fst (foldl unique_step ([], []) ys)"
    by (rule bm_set_ext) (simp_all add: unique_wf unique_consistent [OF assms(1)] unique_consistent [OF ys] assms(2))
  show "snd (foldl unique_step ([], []) xs) = snd (foldl unique_step ([], []) ys)"
    by (simp add: unique_consistent [OF assms(1)] unique_consistent [OF ys])
qed

lemma rebuild_set:
  assumes "consistent (rm_operations m)" and "set (rm_operations m) = set (rm_operations n)"
  shows "rm_commands (rm_rebuild m) = rm_commands (rm_rebuild n)" "rm_states (rm_rebuild m) = rm_states (rm_rebuild n)"
    "rm_errors (rm_rebuild m) = rm_errors (rm_rebuild n)"
  using unique_set [OF assms] unfolding rm_operations_def by (simp_all add: rm_rebuild_def split_def Let_def)

lemma reads_cong:
  assumes "map_of (rm_commands m) sp = map_of (rm_commands n) sp" and "map_of (rm_states m) sp = map_of (rm_states n) sp"
    and "map_of (rm_errors m) sp = map_of (rm_errors n) sp" and "recovery_error m = recovery_error n"
  shows "rm_state m sp = rm_state n sp \<and> rm_space_commands m sp = rm_space_commands n sp"
  unfolding rm_state_def rm_space_commands_def rm_check_def assms by simp

text \<open>C9: Two nodes that know the same set of immutable control operations read the same policy and the same command
  log of every Space, however the operations were split over journal, receipts and projection and in whatever order and
  portions they arrived.\<close>

theorem same_operations_same_policy:
  assumes "rm_reachable m" and "rm_reachable n" and "consistent (rm_operations m)"
    and "set (rm_operations m) = set (rm_operations n)" and "recovery_error m = recovery_error n"
  shows "rm_state m sp = rm_state n sp \<and> rm_space_commands m sp = rm_space_commands n sp"
proof -
  from reachable_current [OF assms(1)] have m: "rm_rebuild m = m" by (simp add: rm_current_def)
  from reachable_current [OF assms(2)] have n: "rm_rebuild n = n" by (simp add: rm_current_def)
  from rebuild_set [OF assms(3,4)] show ?thesis unfolding m n by (intro reads_cong assms(5)) simp_all
qed

theorem same_operations_same_policy_witness:
  "rm_state (rm_new [example_departure] [] []) ''s'' = rm_state (rm_new [] [example_departure] []) ''s''"
proof -
  let ?m = "rm_new [example_departure] [] []" and ?n = "rm_new [] [example_departure] []"
  have "rm_operations ?m = [example_departure]" "rm_operations ?n = [example_departure]"
      "recovery_error ?m = None" "recovery_error ?n = None"
    by (simp_all add: rm_new_def rm_operations_def by_id_def bm_extend_def)
  with same_operations_same_policy [of ?m ?n "''s''"] show ?thesis
    by (auto simp: consistent_def intro: rm_reachable.built)
qed

section \<open>Spaces do not disturb each other\<close>

definition concerns :: "string \<Rightarrow> SyncOperation \<Rightarrow> bool" where
  "concerns sp op \<longleftrightarrow> json_space op = Some sp \<or> (\<exists>r. decodeControlOperation op = Inr r \<and> rec_spaceId r = sp)"

definition agree :: "string \<Rightarrow> (string, 'b) bmap \<times> (string, 'c) bmap \<Rightarrow> (string, 'b) bmap \<times> (string, 'c) bmap \<Rightarrow> bool" where
  "agree sp x y \<longleftrightarrow> bm_wf (fst x) \<and> bm_wf (snd x) \<and> bm_wf (fst y) \<and> bm_wf (snd y)
     \<and> map_of (fst x) sp = map_of (fst y) sp \<and> map_of (snd x) sp = map_of (snd y) sp"

lemma agree_refl: "bm_wf (fst x) \<Longrightarrow> bm_wf (snd x) \<Longrightarrow> agree sp x x"
  by (simp add: agree_def)

lemma agree_trans: "agree sp x y \<Longrightarrow> agree sp y z \<Longrightarrow> agree sp x z"
  by (simp add: agree_def)

lemma agree_sym: "agree sp x y \<Longrightarrow> agree sp y x"
  by (simp add: agree_def)

lemma decode_step_agree: "agree sp x y \<Longrightarrow> agree sp (decode_step x op) (decode_step y op)"
  by (cases x; cases y) (auto simp: agree_def decode_step_def split: sum.splits option.splits)

lemma decode_step_skip: "agree sp x y \<Longrightarrow> \<not> concerns sp op \<Longrightarrow> agree sp (decode_step x op) y"
  by (cases x; cases y) (auto simp: agree_def decode_step_def concerns_def split: sum.splits option.splits)

lemma decode_loop_filter:
  "agree sp x y \<Longrightarrow> agree sp (foldl decode_step x ops) (foldl decode_step y (filter (concerns sp) ops))"
  by (induction ops arbitrary: x y) (auto simp: decode_step_agree decode_step_skip)

lemma decode_loop_agree:
  assumes "agree sp x y" and "filter (concerns sp) ops = filter (concerns sp) ops'"
  shows "agree sp (foldl decode_step x ops) (foldl decode_step y ops')"
  using decode_loop_filter [OF assms(1), of ops] decode_loop_filter [OF agree_refl, of y sp ops'] assms
  by (metis agree_def agree_sym agree_trans)

definition read_replay :: "string \<Rightarrow> SyncOperation list option \<Rightarrow> NetworkControlState option \<times> fault option
    \<Rightarrow> NetworkControlState option \<times> fault option" where
  "read_replay sp ops se =
     (case ops of None \<Rightarrow> se
      | Some ops \<Rightarrow> (case replayControlCommands id sp ops None of
          Inr (t, _) \<Rightarrow> (Some t, snd se)
        | Inl e \<Rightarrow> (fst se, Some (prefix_fault (''Space '' @ sp @ '' control replay: '') e))))"

lemma state_loop:
  assumes "bm_wf s" and "bm_wf e" and "distinct (map fst cs)"
  shows "(map_of (fst (foldl state_step (s, e) cs)) sp, map_of (snd (foldl state_step (s, e) cs)) sp)
    = read_replay sp (map_of cs sp) (map_of s sp, map_of e sp)"
  using assms
proof (induction cs arbitrary: s e)
  case (Cons c cs)
  obtain q ops where c: "c = (q, ops)" by force
  obtain s' e' where step: "state_step (s, e) c = (s', e')" by force
  from step c Cons.prems(1,2) have wf: "bm_wf s'" "bm_wf e'"
    by (auto simp: state_step_def split: sum.splits prod.splits)
  from Cons.prems(3) c have nq: "map_of cs q = None" and d: "distinct (map fst cs)" by (auto simp: map_of_eq_None_iff)
  have "(map_of s' sp, map_of e' sp) = (if sp = q then read_replay sp (Some ops) (map_of s sp, map_of e sp)
      else (map_of s sp, map_of e sp))"
    using step c Cons.prems(1,2) by (auto simp: state_step_def read_replay_def split: sum.splits prod.splits)
  with Cons.IH [OF wf d] nq step c show ?case by (auto simp: read_replay_def)
qed (simp add: read_replay_def)

lemma sorted_lookup: "map_of (map (\<lambda>(sp, ops). (sp, f ops)) cs) sp = map_option f (map_of cs sp)"
  by (induction cs) auto

lemma rebuild_reads:
  assumes "agree sp (foldl decode_step ([], snd (foldl unique_step ([], []) (rm_operations m)))
        (map snd (fst (foldl unique_step ([], []) (rm_operations m)))))
      (foldl decode_step ([], snd (foldl unique_step ([], []) (rm_operations n)))
        (map snd (fst (foldl unique_step ([], []) (rm_operations n)))))"
  shows "map_of (rm_commands (rm_rebuild m)) sp = map_of (rm_commands (rm_rebuild n)) sp"
    "map_of (rm_states (rm_rebuild m)) sp = map_of (rm_states (rm_rebuild n)) sp"
    "map_of (rm_errors (rm_rebuild m)) sp = map_of (rm_errors (rm_rebuild n)) sp"
proof -
  let ?u = "\<lambda>m. foldl unique_step ([], []) (rm_operations m)"
  let ?d = "\<lambda>m. foldl decode_step ([], snd (?u m)) (map snd (fst (?u m)))"
  let ?c = "\<lambda>m. map (\<lambda>(sp, ops). (sp, sort_key fromOperation ops)) (fst (?d m))"
  let ?s = "\<lambda>m. foldl state_step ([], snd (?d m)) (?c m)"
  have r: "rm_commands (rm_rebuild m) = ?c m \<and> rm_states (rm_rebuild m) = fst (?s m) \<and> rm_errors (rm_rebuild m) = snd (?s m)"
    for m by (simp add: rm_rebuild_def split_def Let_def rm_operations_def)
  have c: "map_of (?c m) sp = map_of (?c n) sp" using assms by (simp add: sorted_lookup agree_def)
  have keys: "map fst (?c k) = map fst (fst (?d k))" for k by (simp add: split_def)
  have d: "distinct (map fst (?c m))" "distinct (map fst (?c n))"
    using assms unfolding keys by (simp_all add: agree_def bm_wf_distinct)
  have wf: "bm_wf (snd (?d m))" "bm_wf (snd (?d n))" "map_of (snd (?d m)) sp = map_of (snd (?d n)) sp"
    using assms by (simp_all add: agree_def)
  have "(map_of (fst (?s m)) sp, map_of (snd (?s m)) sp) = (map_of (fst (?s n)) sp, map_of (snd (?s n)) sp)"
    by (simp only: state_loop [OF bm_wf_Nil wf(1) d(1)] state_loop [OF bm_wf_Nil wf(2) d(2)] c wf(3))
  with c r [of m] r [of n] show "map_of (rm_commands (rm_rebuild m)) sp = map_of (rm_commands (rm_rebuild n)) sp"
    "map_of (rm_states (rm_rebuild m)) sp = map_of (rm_states (rm_rebuild n)) sp"
    "map_of (rm_errors (rm_rebuild m)) sp = map_of (rm_errors (rm_rebuild n)) sp"
    by simp_all
qed

lemma add_conflict_wf: "bm_wf e \<Longrightarrow> bm_wf (add_conflict p op e)"
  by (auto simp: add_conflict_def split: option.splits)

lemma unique_errors_wf: "bm_wf e \<Longrightarrow> bm_wf (snd (foldl unique_step (u, e) ops))"
  by (induction ops arbitrary: u e) (auto simp: unique_step_def add_conflict_wf split: option.splits)

lemma unique_insert:
  assumes "opId op \<notin> opId ` set ops" and "bm_wf u"
  shows "foldl unique_step (bm_insert (opId op) op u, e) ops
    = (bm_insert (opId op) op (fst (foldl unique_step (u, e) ops)), snd (foldl unique_step (u, e) ops))"
  using assms
proof (induction ops arbitrary: u e)
  case (Cons x xs)
  then have ne: "opId op \<noteq> opId x" by auto
  obtain u' e' where step: "unique_step (u, e) x = (u', e')" by force
  then have "unique_step (bm_insert (opId op) op u, e) x = (bm_insert (opId op) op u', e')" and "bm_wf u'"
    using ne Cons.prems(2) by (auto simp: unique_step_def bm_insert_commute)
  with Cons.IH [of u' e'] Cons.prems(1) step show ?case by simp
qed simp

lemma fresh_insert_split:
  "map_of m k = None \<Longrightarrow> \<exists>a b. m = a @ b \<and> bm_insert k v m = a @ (k, v) # b"
proof (induction m)
  case (Cons e m)
  show ?case
  proof (cases "fst e < k")
    case True
    with Cons obtain a b where "m = a @ b" "bm_insert k v m = a @ (k, v) # b" by (auto split: if_splits)
    then have "e # m = (e # a) @ b \<and> bm_insert k v (e # m) = (e # a) @ (k, v) # b" using True by (metis append_Cons bm_insert.simps(2))
    then show ?thesis by blast
  next
    case False
    with Cons.prems have "e # m = [] @ e # m \<and> bm_insert k v (e # m) = [] @ (k, v) # e # m"
      by (auto split: if_splits)
    then show ?thesis by blast
  qed
qed simp

lemma filter_fresh_insert:
  assumes "map_of m k = None" and "\<not> P v"
  shows "filter P (map snd (bm_insert k v m)) = filter P (map snd m)"
proof -
  obtain a b where "m = a @ b" "bm_insert k v m = a @ (k, v) # b" using fresh_insert_split [OF assms(1)] by blast
  with assms(2) show ?thesis by simp
qed

lemma unique_keys: "fst ` set (fst (foldl unique_step (u, e) ops)) = fst ` set u \<union> opId ` set ops"
  by (induction ops arbitrary: u e) (auto simp: unique_step_def)

text \<open>C10: Spaces are isolated: an operation in the journal that names another Space, readable or not, changes neither the
  policy nor the command log nor the availability of this one, provided that its identity has not been used.  An
  operation that reuses an identity is a conflict, which closes the Spaces of both operations.\<close>

theorem other_space_isolated:
  assumes "rm_reachable m" and "opId op \<notin> opId ` set (rm_operations m)" and "\<not> concerns sp op"
  shows "rm_state (rm_append_journal [op] m) sp = rm_state m sp
    \<and> rm_space_commands (rm_append_journal [op] m) sp = rm_space_commands m sp"
proof (cases "op_domain op = ''network_control''")
  case False
  then show ?thesis by (simp add: rm_append_journal_def take_controls_def)
next
  case True
  from reachable_current [OF assms(1)] have cur: "rm_rebuild m = m" and k: "keyed (rm_journal m)"
    by (simp_all add: rm_current_def)
  have new: "map_of (rm_journal m) (opId op) = None"
    using assms(2) k by (force simp: rm_operations_def keyed_def map_of_eq_None_iff)
  let ?m = "m\<lparr>rm_journal := bm_insert (opId op) op (rm_journal m)\<rparr>"
  have step: "rm_append_journal [op] m = rm_rebuild ?m"
    using True new by (simp add: rm_append_journal_def take_controls_def)
  obtain a b where ab: "rm_operations m = a @ b" "rm_operations ?m = a @ op # b"
    using fresh_insert_split [OF new, of op] unfolding rm_operations_def by force
  obtain u e where u: "foldl unique_step ([], []) a = (u, e)" by force
  obtain v f where v: "foldl unique_step (u, e) b = (v, f)" by force
  from assms(2) ab have fa: "opId op \<notin> opId ` set a" and fb: "opId op \<notin> opId ` set b" by auto
  have wu: "bm_wf u" using unique_wf [of "[]" "[]" a] u by simp
  have nu: "map_of u (opId op) = None" using unique_keys [of "[]" "[]" a] u fa by (simp add: map_of_eq_None_iff)
  have nv: "map_of v (opId op) = None" using unique_keys [of u e b] v nu fb by (simp add: map_of_eq_None_iff)
  have old: "foldl unique_step ([], []) (rm_operations m) = (v, f)" using ab(1) u v by simp
  have "unique_step (u, e) op = (bm_insert (opId op) op u, e)" using nu by (simp add: unique_step_def)
  with unique_insert [OF fb wu, of e] ab(2) u v
  have new': "foldl unique_step ([], []) (rm_operations ?m) = (bm_insert (opId op) op v, f)" by simp
  have wf: "bm_wf f" using unique_errors_wf [of "[]" "[]" "rm_operations m"] old by simp
  have "agree sp (foldl decode_step ([], f) (map snd (bm_insert (opId op) op v))) (foldl decode_step ([], f) (map snd v))"
    by (intro decode_loop_agree agree_refl) (simp_all add: wf filter_fresh_insert [OF nv] assms(3))
  then have "agree sp (foldl decode_step ([], snd (foldl unique_step ([], []) (rm_operations ?m)))
        (map snd (fst (foldl unique_step ([], []) (rm_operations ?m)))))
      (foldl decode_step ([], snd (foldl unique_step ([], []) (rm_operations m)))
        (map snd (fst (foldl unique_step ([], []) (rm_operations m)))))"
    unfolding old new' by simp
  from rebuild_reads [OF this] show ?thesis unfolding step by (intro reads_cong) (simp_all add: cur)
qed

theorem other_space_isolated_witness:
  "rm_state (rm_append_journal [control_operation ''x'' 1 1 \<lparr>commandId = ''d'', rec_spaceId = ''t'', issuerNodeId = ''x'',
     command = LeaveSpace\<rparr>] (rm_new [example_departure] [] [])) ''s'' = rm_state (rm_new [example_departure] [] []) ''s''"
proof -
  let ?r = "\<lparr>commandId = ''d'', rec_spaceId = ''t'', issuerNodeId = ''x'', command = LeaveSpace\<rparr>"
  let ?op = "control_operation ''x'' 1 1 ?r"
  have "validateCommandRecord ?r = Inr ()" by (simp add: example_simps)
  then have d: "decodeControlOperation ?op = Inr ?r" by (simp add: control_operation_decode)
  have "json_space ?op = Some ''t''"
    by (simp add: json_space_def control_operation_def encode_record_def json_struct_def struct_lookup)
  with d have "\<not> concerns ''s'' ?op" by (simp add: concerns_def)
  moreover have "opId ?op \<notin> opId ` set (rm_operations (rm_new [example_departure] [] []))"
    by (simp add: rm_new_def rm_operations_def by_id_def bm_extend_def example_departure_def example_record_def)
  ultimately show ?thesis using other_space_isolated [OF rm_reachable.built] by blast
qed

section \<open>The audit\<close>

lemma audited_step:
  assumes "replay_step debug sp (Some profiles) op (s, a) = Inr (t, b)"
  shows "readable op \<and> t = policy_step sp s op \<and> map audit_commandId b
    = map audit_commandId a @ (if in_space sp op then [entityId op] else [])"
proof -
  from assms obtain r where r: "decodeControlOperation op = Inr r" by (auto simp: replay_step_def)
  then have i: "entityId op = commandId r" by (auto simp: decodeControlOperation_def split: if_splits)
  show ?thesis
  proof (cases "rec_spaceId r = sp")
    case True
    with assms r i show ?thesis
      by (cases "authorizeAndApplyCommand s r (op_originDeviceId op) (isLegacyAdmission op)")
        (auto simp: replay_step_def policy_step_def in_space_def readable_iff)
  next
    case False
    with assms r show ?thesis by (auto simp: replay_step_def policy_step_def in_space_def readable_iff)
  qed
qed

lemma audited_loop:
  assumes "rfold (replay_step debug sp (Some profiles)) ops (s, a) = Inr (t, b)"
  shows "(\<forall>op \<in> set ops. readable op) \<and> t = foldl (policy_step sp) s ops
    \<and> map audit_commandId b = map audit_commandId a @ map entityId (filter (in_space sp) ops)"
  using assms
proof (induction ops arbitrary: s a)
  case (Cons op ops)
  from Cons.prems obtain s' a' where step: "replay_step debug sp (Some profiles) op (s, a) = Inr (s', a')"
    and rest: "rfold (replay_step debug sp (Some profiles)) ops (s', a') = Inr (t, b)" by auto
  from Cons.IH [OF rest] audited_step [OF step] show ?case by simp
qed simp

text \<open>The audit decides as the policy does: auditing a log yields the same state, with one record for each command
  of the Space, accepted or not, in the order of the replay.\<close>

theorem audit_agrees_with_policy:
  assumes "replayControlCommands debug sp ops (Some profiles) = Inr (s, audit)"
  shows "replayControlCommands debug' sp ops None = Inr (s, [])
    \<and> map audit_commandId audit = map entityId (filter (in_space sp) ops)"
  using audited_loop [OF assms [unfolded replayControlCommands_def]] replay_policy [of ops debug' sp]
  by (simp add: policy_def)

theorem audit_agrees_with_policy_witness:
  "\<exists>s audit. replayControlCommands id ''s'' [example_departure] (Some []) = Inr (s, audit)
     \<and> map audit_commandId audit = [''c3'']"
proof -
  have v: "validateCommandRecord (example_record ''c3'' ''a'' LeaveSpace) = Inr ()" by (simp add: example_simps)
  then have d: "decodeControlOperation example_departure = Inr (example_record ''c3'' ''a'' LeaveSpace)"
    by (simp add: example_departure_def control_operation_decode example_record_def)
  then obtain s audit where r: "replayControlCommands id ''s'' [example_departure] (Some []) = Inr (s, audit)"
    by (cases "authorizeAndApplyCommand (emptyControlState ''s'') (example_record ''c3'' ''a'' LeaveSpace) ''a''
          (isLegacyAdmission example_departure)")
      (auto simp: replayControlCommands_def replay_step_def controlAuditSummary_def example_record_def example_departure_def)
  from audit_agrees_with_policy [OF r] d have "map audit_commandId audit = [''c3'']"
    by (simp add: in_space_def example_record_def example_departure_def control_operation_def)
  with r show ?thesis by (intro exI conjI)
qed

text \<open>But one rejected grant of an unknown role, as a removal of the role on another device leaves it in the log, makes
  the whole audit fail.\<close>

theorem audit_lost_by_rejected_grant:
  assumes "decodeControlOperation op = Inr r" and "rec_spaceId r = sp" and "command r = GrantRole a"
    and "map_of (roles (policy sp before)) (assigned_role a) = None"
  shows "isl (replayControlCommands debug sp (before @ op # later) (Some profiles))"
proof (cases "rfold (replay_step debug sp (Some profiles)) before (emptyControlState sp, [])")
  case (Inl e)
  then show ?thesis by (simp add: replayControlCommands_def rfold_append)
next
  case (Inr sa)
  obtain s b where sa: "sa = (s, b)" by force
  from Inr sa audited_loop [of debug sp profiles before "emptyControlState sp" "[]" s b] have "s = policy sp before"
    by (simp add: policy_def)
  then have "isl (replay_step debug sp (Some profiles) op (s, b))"
    using assms by (simp add: replay_step_def controlAuditSummary_def controlRoleLabel_def)
  then show ?thesis using Inr sa
    by (auto simp: replayControlCommands_def rfold_append isl_def)
qed

end
