(* ===== verification/Control_Store.thy ===== *)
theory Control_Store
  imports Control_Replay
begin

text \<open>
  The control store of an endpoint (\<open>NetworkControlStore.rs\<close>): the durable projection of control
  operations, the commands a device submits, what it accepts from peers, the checks of a policy that
  arrives from elsewhere, and the paged export.
\<close>

section \<open>The store\<close>

text \<open>The endpoint variant (\<open>nodeLocalOnly\<close>): its authority is the projection, a map from operation
  identities to operations, and the read model follows every write of it.  Locks and files are not
  modelled; the time and fresh identifiers are arguments.\<close>

record ControlStore =
  localNodeId :: string
  cs_spaceId :: string
  cs_members :: "string list"
  projection :: "(string, SyncOperation) bmap"
  read_model :: NetworkControlReadModel

definition cs_new :: "string \<Rightarrow> string \<Rightarrow> string list \<Rightarrow> SyncOperation list \<Rightarrow> ControlStore" where
  "cs_new node sp members ops = \<lparr>localNodeId = node, cs_spaceId = sp, cs_members = members,
     projection = by_id ops, read_model = rm_new [] [] ops\<rparr>"

definition replaceRecoverably :: "(string, SyncOperation) bmap \<Rightarrow> ControlStore \<Rightarrow> ControlStore" where
  "replaceRecoverably p st = st\<lparr>projection := p, read_model := rm_replace_projected (map snd p) (read_model st)\<rparr>"

definition stateForSpace :: "ControlStore \<Rightarrow> string \<Rightarrow> NetworkControlState res" where
  "stateForSpace st sp = rm_state (read_model st) sp"

definition orderedCommands :: "ControlStore \<Rightarrow> string \<Rightarrow> SyncOperation list res" where
  "orderedCommands st sp = rbind (validateSpaceId sp) (\<lambda>_. rm_space_commands (read_model st) sp)"

definition currentState :: "ControlStore \<Rightarrow> NetworkControlState res" where
  "currentState st = stateForSpace st (cs_spaceId st)"

section \<open>Queries\<close>

definition nodeHasCapability :: "ControlStore \<Rightarrow> string \<Rightarrow> string \<Rightarrow> string option \<Rightarrow> bool res" where
  "nodeHasCapability st node capability target =
     rbind (validateNodeId node) (\<lambda>_.
     rbind (validateCapability capability) (\<lambda>_.
     rbind (case target of None \<Rightarrow> Inr () | Some t \<Rightarrow> validateNodeId t) (\<lambda>_.
     rbind (currentState st) (\<lambda>s. Inr (hasCapability s node capability target)))))"

definition nodeIsDisconnected :: "ControlStore \<Rightarrow> string \<Rightarrow> bool res" where
  "nodeIsDisconnected st node =
     rbind (validateNodeId node) (\<lambda>_. rbind (currentState st) (\<lambda>s. Inr (node \<in> set (disconnectedNodeIds s))))"

definition relayNodeIds :: "ControlStore \<Rightarrow> string bset res" where
  "relayNodeIds st = rbind (currentState st) (\<lambda>s.
     Inr (bs_of_list (filter (\<lambda>n. hasCapability s n ''network.relay'' None) (cs_members st))))"

definition routingPolicySnapshot :: "ControlStore \<Rightarrow> (string bset \<times> string bset) res" where
  "routingPolicySnapshot st = rbind (currentState st) (\<lambda>s.
     Inr (disconnectedNodeIds s,
          bs_of_list (filter (\<lambda>n. hasCapability s n ''network.relay'' None) (cs_members st))))"

definition control_audit :: "(string \<Rightarrow> string) \<Rightarrow> (string, CoreSpaceDeviceProfile) bmap \<Rightarrow> ControlStore
    \<Rightarrow> NetworkControlAuditRecord list res" where
  "control_audit debug profiles st =
     rbind (orderedCommands st (cs_spaceId st)) (\<lambda>ops.
     rbind (replayControlCommands debug (cs_spaceId st) ops (Some profiles)) (\<lambda>r. Inr (snd r)))"

section \<open>Writing the projection\<close>

definition project_one :: "string \<Rightarrow> SyncOperation \<Rightarrow> (string, SyncOperation) bmap \<times> bool
    \<Rightarrow> ((string, SyncOperation) bmap \<times> bool) res" where
  "project_one sp op pc =
     (let (p, changed) = pc in
      rbind (decodeControlOperation op) (\<lambda>r.
      if rec_spaceId r \<noteq> sp then Inl (Err ''Control projection belongs to another Space'')
      else case map_of p (opId op) of
        Some old \<Rightarrow> if old \<noteq> op then Inl (Err ''Conflicting immutable Space control operation'') else Inr (p, changed)
      | None \<Rightarrow> Inr (bm_insert (opId op) op p, True)))"

definition projectControlOperationsForSpaceUnlocked :: "SyncOperation list \<Rightarrow> string \<Rightarrow> ControlStore \<Rightarrow> ControlStore res" where
  "projectControlOperationsForSpaceUnlocked ops sp st =
     rbind (rfold (project_one sp) ops (projection st, False)) (\<lambda>(p, changed).
     Inr (if changed then replaceRecoverably p st else st))"

definition projectControlOperations :: "SyncOperation list \<Rightarrow> ControlStore \<Rightarrow> ControlStore res" where
  "projectControlOperations ops st =
     (if ops = [] then Inr st else projectControlOperationsForSpaceUnlocked ops (cs_spaceId st) st)"

definition applySyncedOperation :: "SyncOperation \<Rightarrow> ControlStore \<Rightarrow> ControlStore res" where
  "applySyncedOperation op st = rbind (validateControlOperation op) (\<lambda>_. projectControlOperations [op] st)"

definition applyBootstrapOperation :: "SyncOperation \<Rightarrow> ControlStore \<Rightarrow> ControlStore res" where
  "applyBootstrapOperation op st =
     rbind (decodeControlOperation op) (\<lambda>r. projectControlOperationsForSpaceUnlocked [op] (rec_spaceId r) st)"

definition pruneNodeLocalProjection :: "ControlStore \<Rightarrow> ControlStore res" where
  "pruneNodeLocalProjection st =
     rbind (rfilter (\<lambda>e. rbind (decodeControlOperation (snd e)) (\<lambda>r. Inr (rec_spaceId r \<noteq> cs_spaceId st)))
       (projection st)) (\<lambda>gone.
     Inr (if gone = [] then st
          else replaceRecoverably (foldl (\<lambda>p e. bm_remove (fst e) p) (projection st) gone) st))"

section \<open>Local commands\<close>

definition appendLocalCommandWithId ::
    "int \<Rightarrow> string \<Rightarrow> NetworkControlCommand \<Rightarrow> string \<Rightarrow> ControlStore \<Rightarrow> (SyncOperation \<times> ControlStore) res" where
  "appendLocalCommandWithId now sp c i st =
     (let r = \<lparr>commandId = i, rec_spaceId = sp, issuerNodeId = localNodeId st, command = c\<rparr> in
      rbind (validateCommandRecord r) (\<lambda>_.
      rbind (rmap (\<lambda>op. rbind (decodeControlOperation op) (\<lambda>r. Inr (op, rec_spaceId r))) (map snd (projection st))) (\<lambda>known.
      let own = filter (\<lambda>(op, s). s = sp \<and> op_originDeviceId op = localNodeId st) known
      in rbind (ok_or (Err ''Space control sequence exhausted'')
           (i64_checked_add (fold (\<lambda>(op, s) m. max m (op_sequence op)) own 0) 1)) (\<lambda>n.
      let op = \<lparr>opId = i, op_originDeviceId = localNodeId st, op_sequence = n, op_domain = ''network_control'',
                entityType = ''command'', entityId = i, op_operation = ''apply'', semantics = Transaction_semantics,
                payload = encode_record r, op_createdAt = now, schemaVersion = 1\<rparr>
      in rbind (projectControlOperationsForSpaceUnlocked [op] sp st) (\<lambda>st'. Inr (op, st'))))))"

text \<open>\<open>fresh\<close> is the text of a new version 4 UUID.\<close>

definition appendLocalCommand ::
    "int \<Rightarrow> string \<Rightarrow> string \<Rightarrow> NetworkControlCommand \<Rightarrow> ControlStore \<Rightarrow> (SyncOperation \<times> ControlStore) res" where
  "appendLocalCommand now fresh sp c st = appendLocalCommandWithId now sp c (''control-'' @ fresh) st"

definition submitLocalCommand ::
    "int \<Rightarrow> string \<Rightarrow> NetworkControlCommand \<Rightarrow> ControlStore \<Rightarrow> (SyncOperation \<times> ControlStore) res" where
  "submitLocalCommand now fresh c st =
     rbind (stateForSpace st (cs_spaceId st)) (\<lambda>s.
     rbind (authorizeCommand s (localNodeId st) c) (\<lambda>_. appendLocalCommand now fresh (cs_spaceId st) c st))"

definition bootstrapCurrentSpace :: "int \<Rightarrow> string \<Rightarrow> ControlStore \<Rightarrow> (NetworkControlState \<times> ControlStore) res" where
  "bootstrapCurrentSpace now fresh st =
     (if length (cs_members st) \<noteq> 1 \<or> cs_members st \<noteq> [localNodeId st]
      then Inl (Err ''only a new single-device Space can bootstrap its control policy'')
      else rbind (stateForSpace st (cs_spaceId st)) (\<lambda>s.
        if initialized s then Inl (Err ''Space control policy is already initialized'')
        else rbind (appendLocalCommand now fresh (cs_spaceId st) (Bootstrap (localNodeId st)) st) (\<lambda>(_, st').
          rbind (stateForSpace st' (cs_spaceId st)) (\<lambda>s'. Inr (s', st')))))"

definition initializeCurrentSpace :: "int \<Rightarrow> string \<Rightarrow> ControlStore \<Rightarrow> (NetworkControlState \<times> ControlStore) res" where
  "initializeCurrentSpace now fresh st =
     rbind (currentState st) (\<lambda>s.
     if initialized s then Inr (s, st)
     else if length (cs_members st) = 1 \<and> cs_members st = [localNodeId st] then bootstrapCurrentSpace now fresh st
     else Inr (s, st))"

definition requireKnownSpaceMember :: "string \<Rightarrow> ControlStore \<Rightarrow> unit res" where
  "requireKnownSpaceMember node st =
     rbind (validateNodeId node) (\<lambda>_.
     rbind (currentState st) (\<lambda>s.
     if node \<in> set (memberNodeIds s) then Inr ()
     else Inl (Err (''device has not been admitted to the current Space: '' @ node))))"

text \<open>The public commands; a removal revokes the pairing generation the device announced.\<close>

definition defineRole where "defineRole now fresh role st = submitLocalCommand now fresh (DefineRole role) st"
definition updateRole where "updateRole now fresh role st = submitLocalCommand now fresh (UpdateRole role) st"

definition removeRole where
  "removeRole now fresh role st =
     rbind (validateIdentifier ''role id'' role 120) (\<lambda>_. submitLocalCommand now fresh (RemoveRole role) st)"

definition setIdentity where
  "setIdentity now fresh a st =
     rbind (requireKnownSpaceMember (assigned_node a) st) (\<lambda>_. submitLocalCommand now fresh (GrantRole a) st)"

definition clearIdentity where
  "clearIdentity now fresh node st =
     rbind (requireKnownSpaceMember node st) (\<lambda>_. submitLocalCommand now fresh (RevokeRole node) st)"

definition removeMember where
  "removeMember now fresh profiles node st =
     rbind (validateNodeId node) (\<lambda>_.
     submitLocalCommand now fresh (RemoveMember node (Option.bind (map_of profiles node) pairingIncarnation)) st)"

definition admitMember where "admitMember now fresh node st = submitLocalCommand now fresh (AdmitMember node) st"
definition admitSpace where "admitSpace now fresh source ids st = submitLocalCommand now fresh (AdmitSpace source ids) st"

definition disconnectNode where
  "disconnectNode now fresh node st =
     rbind (requireKnownSpaceMember node st) (\<lambda>_. submitLocalCommand now fresh (DisconnectNode node) st)"

definition updatePolicy where "updatePolicy now fresh p v st = submitLocalCommand now fresh (PolicyUpdate p v) st"

text \<open>Departures: the last local exit that no later admission or removal of the device supersedes.\<close>

fun departure_from :: "string \<Rightarrow> SyncOperation list \<Rightarrow> SyncOperation option res" where
  "departure_from node [] = Inr None"
| "departure_from node (op # ops) =
     rbind (decodeControlOperation op) (\<lambda>r.
     case command r of
       LeaveSpace \<Rightarrow>
         if issuerNodeId r = node \<and> op_originDeviceId op = node then Inr (Some op) else departure_from node ops
     | RemoveMember n _ \<Rightarrow> if n = node then Inr None else departure_from node ops
     | AdmitMember n \<Rightarrow> if n = node then Inr None else departure_from node ops
     | AdmitSpace _ ids \<Rightarrow> if bm_mem ids node then Inr None else departure_from node ops
     | _ \<Rightarrow> departure_from node ops)"

definition latestLocalDeparture :: "string \<Rightarrow> ControlStore \<Rightarrow> SyncOperation option res" where
  "latestLocalDeparture sp st =
     rbind (orderedCommands st sp) (\<lambda>ops. departure_from (localNodeId st) (rev ops))"

definition leaveCurrentSpace :: "int \<Rightarrow> string \<Rightarrow> ControlStore \<Rightarrow> (SyncOperation option \<times> ControlStore) res" where
  "leaveCurrentSpace now fresh st =
     rbind (stateForSpace st (cs_spaceId st)) (\<lambda>s.
     if localNodeId st \<notin> set (memberNodeIds s)
     then rbind (latestLocalDeparture (cs_spaceId st) st) (\<lambda>d. Inr (d, st))
     else rbind (appendLocalCommand now fresh (cs_spaceId st) LeaveSpace st) (\<lambda>(op, st'). Inr (Some op, st')))"

definition committedLocalDeparture :: "ControlStore \<Rightarrow> SyncOperation option res" where
  "committedLocalDeparture st =
     rbind (stateForSpace st (cs_spaceId st)) (\<lambda>s.
     if localNodeId st \<in> set (memberNodeIds s) then Inr None else latestLocalDeparture (cs_spaceId st) st)"

definition spaceControlOperation :: "string \<Rightarrow> string \<Rightarrow> string \<Rightarrow> ControlStore \<Rightarrow> SyncOperation option res" where
  "spaceControlOperation sp i issuer st =
     rbind (orderedCommands st sp) (\<lambda>ops.
     Inr (List.find (\<lambda>op. entityId op = i \<and> op_originDeviceId op = issuer) ops))"

definition admitSpaceForReview :: "int \<Rightarrow> string \<Rightarrow> (string, string) bmap \<Rightarrow> string \<Rightarrow> ControlStore
    \<Rightarrow> (SyncOperation \<times> ControlStore) res" where
  "admitSpaceForReview now source ids reviewKey st =
     (let c = AdmitSpace source ids; i = ''control-review-'' @ reviewKey in
      rbind (stateForSpace st (cs_spaceId st)) (\<lambda>s.
      rbind (authorizeCommand s (localNodeId st) c) (\<lambda>_.
      rbind (spaceControlOperation (cs_spaceId st) i (localNodeId st) st) (\<lambda>found.
      case found of
        Some op \<Rightarrow>
          rbind (decode_record (payload op)) (\<lambda>r.
          if rec_spaceId r \<noteq> cs_spaceId st \<or> issuerNodeId r \<noteq> localNodeId st \<or> command r \<noteq> c
          then Inl (Err ''Stored admission differs from the claimed review'') else Inr (op, st))
      | None \<Rightarrow> appendLocalCommandWithId now (cs_spaceId st) c i st))))"

section \<open>Policies from elsewhere\<close>

definition validateSpacePolicy :: "string \<Rightarrow> SyncOperation list \<Rightarrow> NetworkControlState res" where
  "validateSpacePolicy sp ops =
     rbind (validateSpaceId sp) (\<lambda>_.
     rbind (rfold (\<lambda>op _. validateControlOperation op) ops ()) (\<lambda>_.
     rbind (replayControlCommands id sp (sort_key fromOperation ops) None) (\<lambda>r. Inr (fst r))))"

fun find_admission :: "string \<Rightarrow> string \<Rightarrow> string bset \<Rightarrow> SyncOperation list \<Rightarrow> SyncOperation list \<Rightarrow> unit res" where
  "find_admission target source members before [] =
     Inl (Err ''Target Space has no approved admission for this source Space'')"
| "find_admission target source members before (op # ops) =
     rbind (decodeControlOperation op) (\<lambda>r.
     case command r of
       AdmitSpace src ids \<Rightarrow>
         if rec_spaceId r = target \<and> src = source \<and> list_all (bm_mem ids) members
         then rbind (replayControlCommands id target before None) (\<lambda>(s, _).
           case authorizeAndApplyCommand s r (op_originDeviceId op) (isLegacyAdmission op) of
             Inr _ \<Rightarrow> Inr ()
           | Inl _ \<Rightarrow> find_admission target source members (before @ [op]) ops)
         else find_admission target source members (before @ [op]) ops
     | _ \<Rightarrow> find_admission target source members (before @ [op]) ops)"

definition validateSpaceAdmission :: "string \<Rightarrow> string \<Rightarrow> string bset \<Rightarrow> SyncOperation list \<Rightarrow> unit res" where
  "validateSpaceAdmission target source members ops =
     rbind (validateSpacePolicy target ops) (\<lambda>s.
     if \<not> set members \<subseteq> set (memberNodeIds s)
     then Inl (Err ''Merged Space membership is not authorized by the target policy'')
     else find_admission target source members [] (sort_key fromOperation ops))"

definition peer_check :: "NetworkControlState \<Rightarrow> SyncOperation list \<Rightarrow> string \<Rightarrow> SyncOperation \<Rightarrow> unit res" where
  "peer_check s known peer op =
     (if op \<in> set known then Inr ()
      else rbind (decodeControlOperation op) (\<lambda>r.
        if (case command r of Bootstrap _ \<Rightarrow> True | _ \<Rightarrow> False)
        then Inl (Err ''An admitted member cannot replace the Space authority root'')
        else if hasCapability s peer ''*'' None then Inr ()
        else if op_originDeviceId op \<noteq> peer \<or> issuerNodeId r \<noteq> peer
        then Inl (Err ''Control source cannot introduce another issuer's authority command'')
        else rbind (authorizeAndApplyCommand s r (op_originDeviceId op) (isLegacyAdmission op)) (\<lambda>_. Inr ())))"

definition projectPeerControlOperations :: "string \<Rightarrow> SyncOperation list \<Rightarrow> ControlStore \<Rightarrow> ControlStore res" where
  "projectPeerControlOperations peer ops st =
     rbind (orderedCommands st (cs_spaceId st)) (\<lambda>known.
     rbind (replayControlCommands id (cs_spaceId st) known None) (\<lambda>(s, _).
     if peer \<notin> set (memberNodeIds s) \<or> peer \<in> set (disconnectedNodeIds s)
     then Inl (Err ''Control source is not an admitted member'')
     else rbind (rfold (\<lambda>op _. peer_check s known peer op) ops ()) (\<lambda>_. projectControlOperations ops st)))"

section \<open>Paged export\<close>

text \<open>\<open>digest\<close> stands for the hexadecimal SHA-256 over the records.\<close>

definition export_records :: "string \<Rightarrow> ControlStore \<Rightarrow> (string, SyncOperation) bmap res" where
  "export_records sp st =
     rbind (validateSpaceId sp) (\<lambda>_.
     rfilter (\<lambda>e. rbind (decodeControlOperation (snd e)) (\<lambda>r. Inr (rec_spaceId r = sp))) (projection st))"

definition spaceControlExport :: "((string, SyncOperation) bmap \<Rightarrow> string) \<Rightarrow> string \<Rightarrow> string option \<Rightarrow> string option
    \<Rightarrow> ControlStore \<Rightarrow> (string \<times> nat \<times> SyncOperation option) res" where
  "spaceControlExport digest sp expected after st =
     rbind (export_records sp st) (\<lambda>records.
     if expected \<noteq> None \<and> expected \<noteq> Some (digest records)
     then Inl (Err ''SPACE_EXPORT_CHANGED: Restart the endpoint export'')
     else if after \<noteq> None \<and> \<not> bm_mem records (the after)
     then Inl (Err ''SPACE_EXPORT_CURSOR_INVALID: Unknown operation cursor'')
     else Inr (digest records, length records,
       map_option snd (List.find (\<lambda>(i, _). case after of None \<Rightarrow> True | Some previous \<Rightarrow> previous < i) records)))"

section \<open>The store implements the policy of its operations\<close>

text \<open>What a store keeps between operations.\<close>

definition store_ok :: "ControlStore \<Rightarrow> bool" where
  "store_ok st \<longleftrightarrow> rm_current (read_model st) \<and> rm_journal (read_model st) = [] \<and> rm_received (read_model st) = []
     \<and> rm_projected (read_model st) = projection st \<and> recovery_error (read_model st) = None
     \<and> (\<forall>e \<in> set (projection st). readable (snd e))"

lemma store_keyed: "store_ok st \<Longrightarrow> keyed (projection st)"
  by (auto simp: store_ok_def rm_current_def)

lemma keyed_entries: "keyed p \<Longrightarrow> map (\<lambda>op. (opId op, op)) (map snd p) = p"
  by (auto simp: keyed_def intro!: map_idI)

lemma by_id_entries: "keyed p \<Longrightarrow> by_id (map snd p) = p"
  unfolding by_id_def keyed_entries
  by (rule bm_ext) (auto simp: keyed_def map_of_bm_extend bm_wf_distinct split: option.splits intro!: ext)

lemma keyed_consistent: "keyed p \<Longrightarrow> consistent (map snd p)"
proof -
  assume k: "keyed p"
  have "a = b" if "(i, a) \<in> set p" and "(j, b) \<in> set p" and "opId a = opId b" for i j a b
  proof -
    from k that have "i = opId a" "j = opId b" unfolding keyed_def by fastforce+
    with that have "i = j" by simp
    with that k show ?thesis unfolding keyed_def by (blast dest: bm_wf_distinct eq_key_imp_eq_value)
  qed
  then show ?thesis by (force simp: consistent_def)
qed

lemma keyed_unique: "keyed p \<Longrightarrow> foldl unique_step ([], []) (map snd p) = (p, [])"
proof -
  assume k: "keyed p"
  note u = unique_consistent [OF keyed_consistent [OF k]]
  have "(\<lambda>op. (opId op, op)) ` set (map snd p) = set p" using keyed_entries [OF k] by (metis set_map)
  then have "fst (foldl unique_step ([], []) (map snd p)) = p"
    by (intro bm_set_ext) (use u k in \<open>simp_all add: unique_wf keyed_def\<close>)
  with u show ?thesis by (simp add: prod_eq_iff)
qed

lemma decode_loop_readable:
  assumes "\<forall>op \<in> set ops. readable op" and "bm_wf c"
  shows "snd (foldl decode_step (c, e) ops) = e \<and> bm_wf (fst (foldl decode_step (c, e) ops))
    \<and> map_of (fst (foldl decode_step (c, e) ops)) sp = (if filter (in_space sp) ops = [] then map_of c sp
        else Some ((case map_of c sp of None \<Rightarrow> [] | Some old \<Rightarrow> old) @ filter (in_space sp) ops))"
  using assms
proof (induction ops arbitrary: c)
  case (Cons op ops)
  from Cons.prems(1) obtain r where r: "decodeControlOperation op = Inr r" by (auto simp: readable_iff)
  let ?c = "bm_insert (rec_spaceId r) ((case map_of c (rec_spaceId r) of None \<Rightarrow> [] | Some ops \<Rightarrow> ops) @ [op]) c"
  have step: "decode_step (c, e) op = (?c, e)" by (simp add: decode_step_def r)
  have own: "in_space sp op \<longleftrightarrow> rec_spaceId r = sp" by (simp add: in_space_def r)
  have "bm_wf ?c" using Cons.prems(2) by simp
  from Cons.IH [OF _ this] Cons.prems show ?case by (cases "rec_spaceId r = sp") (simp_all add: step own)
qed simp

lemma store_reads:
  assumes "store_ok st"
  shows "stateForSpace st sp = Inr (policy sp (sort_key fromOperation (filter (in_space sp) (map snd (projection st)))))"
    and "rm_space_commands (read_model st) sp = Inr (sort_key fromOperation (filter (in_space sp) (map snd (projection st))))"
proof -
  let ?p = "map snd (projection st)" and ?m = "read_model st"
  let ?own = "filter (in_space sp) ?p"
  let ?d = "foldl decode_step ([], []) ?p"
  let ?c = "map (\<lambda>(sp, ops). (sp, sort_key fromOperation ops)) (fst ?d)"
  from assms have cur: "rm_rebuild ?m = ?m" and k: "keyed (projection st)" and r: "recovery_error ?m = None"
    and all: "\<forall>op \<in> set ?p. readable op" by (auto simp: store_ok_def rm_current_def)
  note d = decode_loop_readable [OF all bm_wf_Nil, of "[]"]
  have parts: "rm_commands ?m = ?c" "rm_states ?m = fst (foldl state_step ([], snd ?d) ?c)"
      "rm_errors ?m = snd (foldl state_step ([], snd ?d) ?c)"
    using assms by (subst cur [symmetric], simp add: rm_rebuild_def store_ok_def keyed_unique [OF k] split_def Let_def)+
  have c: "map_of ?c sp = (if ?own = [] then None else Some (sort_key fromOperation ?own))"
    using d [of sp] by (simp add: sorted_lookup)
  have "map fst ?c = map fst (fst ?d)" by (simp add: split_def)
  then have dis: "distinct (map fst ?c)" using d bm_wf_distinct by metis
  have "\<forall>op \<in> set (sort_key fromOperation ?own). readable op" using all by auto
  from replay_policy [OF this] c state_loop [OF bm_wf_Nil bm_wf_Nil dis, of sp] d
  have "map_of (rm_errors ?m) sp = None \<and> map_of (rm_states ?m) sp
      = (if ?own = [] then None else Some (policy sp (sort_key fromOperation ?own)))"
    unfolding parts by (auto simp: read_replay_def split: if_splits)
  moreover have "policy sp [] = emptyControlState sp" by (simp add: policy_def)
  ultimately show "stateForSpace st sp = Inr (policy sp (sort_key fromOperation ?own))"
    using r by (auto simp: stateForSpace_def rm_state_def rm_check_def split: if_splits)
  from \<open>map_of (rm_errors ?m) sp = None \<and> _\<close> c parts r
  show "rm_space_commands ?m sp = Inr (sort_key fromOperation ?own)"
    by (simp add: rm_space_commands_def rm_check_def)
qed

section \<open>Every write keeps the store in order\<close>

lemma cs_new_ok:
  assumes "\<forall>op \<in> set ops. readable op"
  shows "store_ok (cs_new node sp members ops)"
proof -
  have "snd ` set (bm_extend [] (map (\<lambda>op. (opId op, op)) ops)) \<subseteq> set ops"
    using bm_extend_snd [of "[]" "map (\<lambda>op. (opId op, op)) ops"] by auto
  with assms have "\<forall>e \<in> set (by_id ops). readable (snd e)" by (force simp: by_id_def)
  moreover have "by_id [] = []" by (simp add: by_id_def bm_extend_def)
  ultimately show ?thesis
    using reachable_current [OF rm_reachable.built, of "[]" "[]" ops]
    by (simp add: store_ok_def cs_new_def) (simp add: rm_new_def)
qed

lemma replaceRecoverably_ok:
  assumes "store_ok st" and "keyed p" and "\<forall>e \<in> set p. readable (snd e)"
  shows "store_ok (replaceRecoverably p st)"
proof -
  have "keyed []" by (simp add: keyed_def)
  with assms show ?thesis
    by (simp add: store_ok_def replaceRecoverably_def rm_replace_projected_def rm_current_def by_id_entries)
qed

text \<open>Projection adds the operations of the batch, all readable and of the Space, and changes no old one.\<close>

lemma project_one_step:
  assumes "project_one sp op (p, c) = Inr (q, d)" and "keyed p"
  shows "keyed q \<and> in_space sp op \<and> q = bm_insert (opId op) op p \<and> (\<forall>old. map_of p (opId op) = Some old \<longrightarrow> old = op)
    \<and> (\<not> d \<longrightarrow> \<not> c \<and> q = p)"
  using assms keyed_insert [OF assms(2), of op]
  by (auto simp: project_one_def in_space_def keyed_def split: if_splits option.splits)

lemma project_loop:
  assumes "rfold (project_one sp) ops (p, c) = Inr (q, d)" and "keyed p"
  shows "keyed q \<and> (\<forall>op \<in> set ops. in_space sp op \<and> map_of q (opId op) = Some op)
    \<and> map_of p \<subseteq>\<^sub>m map_of q \<and> set q \<subseteq> set p \<union> (\<lambda>op. (opId op, op)) ` set ops \<and> (\<not> d \<longrightarrow> \<not> c \<and> q = p)"
  using assms
proof (induction ops arbitrary: p c)
  case (Cons op ops)
  from Cons.prems(1) obtain p' c' where step: "project_one sp op (p, c) = Inr (p', c')"
    and rest: "rfold (project_one sp) ops (p', c') = Inr (q, d)" by auto
  from project_one_step [OF step Cons.prems(2)] have p': "keyed p'" "in_space sp op" "p' = bm_insert (opId op) op p"
    and old: "\<forall>old. map_of p (opId op) = Some old \<longrightarrow> old = op" and c: "\<not> c' \<longrightarrow> \<not> c \<and> p' = p" by auto
  from Cons.prems(2) have wf: "bm_wf p" by (simp add: keyed_def)
  have "map_of p \<subseteq>\<^sub>m map_of p'" "map_of p' (opId op) = Some op"
    using wf old by (auto simp: p'(3) map_le_def dom_def)
  moreover have "set p' \<subseteq> insert (opId op, op) (set p)" unfolding p'(3) by (rule set_bm_insert_subset)
  ultimately show ?case
    using Cons.IH [OF rest p'(1)] p'(2) c by (auto simp: map_le_def dom_def)
qed simp

lemma project_ok:
  assumes "projectControlOperationsForSpaceUnlocked ops sp st = Inr st'" and "store_ok st"
  shows "store_ok st' \<and> (\<forall>op \<in> set ops. in_space sp op \<and> map_of (projection st') (opId op) = Some op)
    \<and> map_of (projection st) \<subseteq>\<^sub>m map_of (projection st')
    \<and> set (projection st') \<subseteq> set (projection st) \<union> (\<lambda>op. (opId op, op)) ` set ops
    \<and> localNodeId st' = localNodeId st \<and> cs_spaceId st' = cs_spaceId st \<and> cs_members st' = cs_members st"
proof -
  from assms(1) obtain q d where loop: "rfold (project_one sp) ops (projection st, False) = Inr (q, d)"
    and st': "st' = (if d then replaceRecoverably q st else st)"
    by (auto simp: projectControlOperationsForSpaceUnlocked_def)
  note l = project_loop [OF loop store_keyed [OF assms(2)]]
  have "readable (snd e)" if "e \<in> set q" for e
  proof -
    from l that have "e \<in> set (projection st) \<or> (\<exists>op \<in> set ops. e = (opId op, op))" by auto
    moreover have "readable op" if "op \<in> set ops" for op using l that by (auto simp: in_space_def readable_iff)
    ultimately show ?thesis using assms(2) by (auto simp: store_ok_def)
  qed
  then have "store_ok (replaceRecoverably q st)" using l by (intro replaceRecoverably_ok [OF assms(2)]) auto
  moreover have "projection st' = q" using l by (auto simp: st' replaceRecoverably_def)
  ultimately show ?thesis using l assms(2) by (auto simp: st' replaceRecoverably_def)
qed

section \<open>A local command takes effect\<close>

lemma sort_key_last:
  assumes "\<forall>x \<in> set (a @ b). f x < f y"
  shows "sort_key f (a @ y # b) = sort_key f (a @ b) @ [y]"
proof (rule properties_for_sort_key)
  show "mset (sort_key f (a @ b) @ [y]) = mset (a @ y # b)" by simp
  show "sorted (map f (sort_key f (a @ b) @ [y]))" using assms by (auto simp: sorted_append intro!: order.strict_implies_order)
  show "filter (\<lambda>x. f k = f x) (sort_key f (a @ b) @ [y]) = filter (\<lambda>x. f k = f x) (a @ y # b)"
    if "k \<in> set (sort_key f (a @ b) @ [y])" for k
  proof (cases "f k = f y")
    case True
    with assms have "filter (\<lambda>x. f k = f x) (a @ b) = []" by (auto simp: filter_empty_conv)
    then have "filter (\<lambda>x. f k = f x) a = []" "filter (\<lambda>x. f k = f x) b = []"
      "filter (\<lambda>x. f k = f x) (sort_key f (a @ b)) = []" by (auto simp: filter_empty_conv)
    with True show ?thesis by simp
  next
    case False
    have "filter (\<lambda>x. f k = f x) (sort_key f (a @ b)) = filter (\<lambda>x. f k = f x) (a @ b)"
      using sort_key_stable [of f "f k" "a @ b"] by (simp add: eq_commute)
    with False show ?thesis by simp
  qed
qed

lemma append_local_operation:
  assumes "appendLocalCommandWithId now sp c i st = Inr (op, st')" and "command_wf c"
  shows "decodeControlOperation op = Inr \<lparr>commandId = i, rec_spaceId = sp, issuerNodeId = localNodeId st, command = c\<rparr>
    \<and> op_originDeviceId op = localNodeId st \<and> opId op = i \<and> \<not> isLegacyAdmission op
    \<and> projectControlOperationsForSpaceUnlocked [op] sp st = Inr st'"
proof -
  let ?r = "\<lparr>commandId = i, rec_spaceId = sp, issuerNodeId = localNodeId st, command = c\<rparr>"
  from assms(1) have v: "validateCommandRecord ?r = Inr ()" and p: "projectControlOperationsForSpaceUnlocked [op] sp st = Inr st'"
    and o: "payload op = encode_record ?r" "op_originDeviceId op = localNodeId st" "opId op = i" "entityId op = i"
      "op_domain op = ''network_control''" "entityType op = ''command''" "op_operation op = ''apply''"
      "semantics op = Transaction_semantics"
    by (auto simp: appendLocalCommandWithId_def Let_def)
  have "decode_record (payload op) = Inr ?r" unfolding o(1) by (rule command_record_decoded) (simp add: assms(2))
  with v o have "decodeControlOperation op = Inr ?r" by (simp add: decodeControlOperation_def validateControlEnvelope_def)
  with p o encoded_not_legacy [OF _ o(1)] show ?thesis by simp
qed

text \<open>A command a device submits takes effect: if it sorts after the commands known for the Space, the policy
  afterwards is the previous policy with the command applied, under the authority the device had.\<close>

theorem local_command_takes_effect:
  assumes "store_ok st" and "command_wf c" and "submitLocalCommand now fresh c st = Inr (op, st')"
    and "map_of (projection st) (opId op) = None"
    and "\<forall>e \<in> set (projection st). in_space (cs_spaceId st) (snd e) \<longrightarrow> fromOperation (snd e) < fromOperation op"
  shows "\<exists>s t r. currentState st = Inr s \<and> command r = c \<and> issuerNodeId r = localNodeId st
    \<and> authorizeAndApplyCommand s r (localNodeId st) False = Inr t \<and> currentState st' = Inr t"
proof -
  let ?sp = "cs_spaceId st" and ?i = "''control-'' @ fresh"
  let ?r = "\<lparr>commandId = ?i, rec_spaceId = ?sp, issuerNodeId = localNodeId st, command = c\<rparr>"
  from assms(3) obtain s where s: "currentState st = Inr s" and auth: "authorizeCommand s (localNodeId st) c = Inr ()"
    and app: "appendLocalCommandWithId now ?sp c ?i st = Inr (op, st')"
    by (auto simp: submitLocalCommand_def currentState_def appendLocalCommand_def)
  note o = append_local_operation [OF app assms(2)]
  let ?l = "\<lparr>commandId = ''local-authorization'', rec_spaceId = st_spaceId s, issuerNodeId = localNodeId st, command = c\<rparr>"
  from auth obtain t where "authorizeAndApplyCommand s ?l (localNodeId st) False = Inr t"
    by (auto simp: authorizeCommand_def)
  moreover have "authorizeAndApplyCommand s ?r (localNodeId st) False = authorizeAndApplyCommand s ?l (localNodeId st) False"
    by (rule authorize_issuer_command) simp_all
  ultimately have t: "authorizeAndApplyCommand s ?r (localNodeId st) False = Inr t" by simp
  from o have proj: "projectControlOperationsForSpaceUnlocked [op] ?sp st = Inr st'" by blast
  note ok' = project_ok [OF proj assms(1)]
  have p': "projection st' = bm_insert (opId op) op (projection st)"
    using proj assms(4) o by (auto simp: projectControlOperationsForSpaceUnlocked_def project_one_def replaceRecoverably_def)
  obtain a b where ab: "projection st = a @ b" "projection st' = a @ (opId op, op) # b"
    using fresh_insert_split [OF assms(4), of op] p' by auto
  let ?f = "\<lambda>l. filter (in_space ?sp) (map snd l)"
  have own: "in_space ?sp op" using o by (simp add: in_space_def)
  have "sort_key fromOperation (?f a @ op # ?f b) = sort_key fromOperation (?f a @ ?f b) @ [op]"
    by (rule sort_key_last) (use assms(5) ab(1) in auto)
  then have "sort_key fromOperation (?f (projection st')) = sort_key fromOperation (?f (projection st)) @ [op]"
    using ab own by simp
  then have "currentState st' = Inr (policy_step ?sp (policy ?sp (sort_key fromOperation (?f (projection st)))) op)"
    using store_reads(1) [of st' ?sp] ok' by (simp add: currentState_def policy_def)
  moreover have "policy ?sp (sort_key fromOperation (?f (projection st))) = s"
    using s store_reads(1) [OF assms(1), of ?sp] by (simp add: currentState_def)
  moreover have "policy_step ?sp s op = t" using o t by (simp add: policy_step_def)
  ultimately have "currentState st' = Inr t" by simp
  with s t show ?thesis by (intro exI [of _ s] exI [of _ t] exI [of _ ?r]) simp
qed

text \<open>A founder's first command, on an empty store.\<close>

theorem local_command_takes_effect_witness:
  "\<exists>op st' t. submitLocalCommand 1 ''u'' (Bootstrap ''n'') (cs_new ''n'' ''s'' [''n''] []) = Inr (op, st')
    \<and> currentState st' = Inr t"
proof -
  let ?st = "cs_new ''n'' ''s'' [''n''] []" and ?c = "Bootstrap ''n''"
  have ok: "store_ok ?st" by (rule cs_new_ok) simp
  have "currentState ?st = Inr (emptyControlState ''s'')"
    using store_reads(1) [OF ok, of "''s''"]
    by (simp add: currentState_def policy_def) (simp add: cs_new_def by_id_def bm_extend_def)
  then have "submitLocalCommand 1 ''u'' ?c ?st = appendLocalCommandWithId 1 ''s'' ?c (''control-'' @ ''u'') ?st"
    by (simp add: submitLocalCommand_def currentState_def appendLocalCommand_def authorizeCommand_def
        authorizeAndApplyCommand_def apply_bootstrap_def emptyControlState_def) (simp add: cs_new_def)
  moreover let ?r = "\<lparr>commandId = ''control-u'', rec_spaceId = ''s'', issuerNodeId = ''n'', command = ?c\<rparr>"
  let ?op = "control_operation ''n'' 1 1 ?r"
  have v: "validateCommandRecord ?r = Inr ()" by (simp add: example_simps)
  then have "project_one ''s'' ?op ([], False) = Inr (bm_insert (opId ?op) ?op [], True)"
    by (simp add: project_one_def control_operation_decode)
  then have "appendLocalCommandWithId 1 ''s'' ?c (''control-'' @ ''u'') ?st
      = Inr (?op, replaceRecoverably (bm_insert (opId ?op) ?op []) ?st)"
    using v by (simp add: appendLocalCommandWithId_def cs_new_def by_id_def bm_extend_def i64_checked_add_def is_i64_def
        i64_min_def i64_max_def projectControlOperationsForSpaceUnlocked_def control_operation_def Let_def)
  ultimately obtain op st' where sub: "submitLocalCommand 1 ''u'' ?c ?st = Inr (op, st')" by simp
  have "projection ?st = []" by (simp add: cs_new_def by_id_def bm_extend_def)
  with local_command_takes_effect [OF ok _ sub] sub show ?thesis by auto
qed

lemma admission_nonempty: "decodeControlOperation op = Inr r \<Longrightarrow> command r = AdmitSpace source ids \<Longrightarrow> ids \<noteq> []"
  by (auto simp: decodeControlOperation_def validateCommandRecord_def split: if_splits)

text \<open>Every command but a departure and a bootstrap needs a capability that users do not have.\<close>

lemma accepted_needs_capability:
  assumes "decodeControlOperation op = Inr r" and "authorizeAndApplyCommand s r origin legacy = Inr t"
    and "command r \<noteq> LeaveSpace" and "\<forall>n. command r \<noteq> Bootstrap n"
  shows "\<exists>c. hasCapability s origin c None \<and> \<not> user_capability c"
proof (cases "command r")
  case (AdmitSpace source ids)
  with assms(1) have "ids \<noteq> []" by (rule admission_nonempty)
  then obtain e es where "ids = e # es" by (cases ids) auto
  with AdmitSpace assms(2) have "hasCapability s origin ''network.members.join'' None"
    by (cases e) (auto simp: authorizeAndApplyCommand_def admit_space_Inr split: if_splits)
  then show ?thesis by (intro exI [of _ "''network.members.join''"]) (simp add: user_capability_def)
qed (use assms(2-4) in \<open>auto simp: authorizeAndApplyCommand_def apply_define_role_def apply_update_role_def
      apply_remove_role_def apply_grant_role_def apply_revoke_role_def apply_admit_member_def apply_remove_member_def
      apply_disconnect_def apply_policy_update_def user_capability_def Let_def split: if_splits\<close>)

text \<open>C28: A member without administrative capabilities cannot push authority through a peer connection: whatever batch
  it sends, every accepted operation that was not already known is its own departure.\<close>

theorem plain_member_only_leaves:
  assumes "store_ok st" and "projectPeerControlOperations peer ops st = Inr st'" and "currentState st = Inr s"
    and "\<forall>c. hasCapability s peer c None \<longrightarrow> user_capability c"
    and "op \<in> set ops" and "map_of (projection st) (opId op) \<noteq> Some op"
  shows "\<exists>r. decodeControlOperation op = Inr r \<and> command r = LeaveSpace \<and> issuerNodeId r = peer
    \<and> op_originDeviceId op = peer"
proof -
  let ?sp = "cs_spaceId st"
  let ?known = "sort_key fromOperation (filter (in_space ?sp) (map snd (projection st)))"
  have all: "\<forall>op \<in> set ?known. readable op" using assms(1) by (auto simp: store_ok_def)
  have s: "s = policy ?sp ?known" using assms(3) store_reads(1) [OF assms(1), of ?sp] by (simp add: currentState_def)
  have "op \<notin> set ?known"
  proof
    assume "op \<in> set ?known"
    then obtain i where e: "(i, op) \<in> set (projection st)" by auto
    with store_keyed [OF assms(1)] have "i = opId op" and "bm_wf (projection st)" by (auto simp: keyed_def)
    with e assms(6) show False by (simp add: bm_wf_distinct)
  qed
  moreover from assms(2,5) have "peer_check s ?known peer op = Inr ()"
    by (auto simp: projectPeerControlOperations_def orderedCommands_def store_reads(2) [OF assms(1)] replay_policy [OF all]
        rfold_unit_Inr s split: if_splits)
  moreover have "\<not> hasCapability s peer ''*'' None" using assms(4) by (auto simp: user_capability_def)
  ultimately obtain r t where r: "decodeControlOperation op = Inr r" "issuerNodeId r = peer" "op_originDeviceId op = peer"
      "authorizeAndApplyCommand s r peer (isLegacyAdmission op) = Inr t" "\<forall>n. command r \<noteq> Bootstrap n"
    by (auto simp: peer_check_def split: if_splits NetworkControlCommand.splits)
  with accepted_needs_capability [OF r(1,4)] assms(4) show ?thesis by auto
qed

theorem plain_member_only_leaves_witness:
  "let st = cs_new ''a'' ''s'' [''a'', ''b''] example_founding;
       leave = control_operation ''b'' 1 3 (example_record ''c3'' ''b'' LeaveSpace)
   in (\<exists>st'. projectPeerControlOperations ''b'' [leave] st = Inr st')
     \<and> (\<exists>r. decodeControlOperation leave = Inr r \<and> command r = LeaveSpace)"
proof -
  let ?st = "cs_new ''a'' ''s'' [''a'', ''b''] example_founding"
  let ?r = "example_record ''c3'' ''b'' LeaveSpace" and ?leave = "control_operation ''b'' 1 3 (example_record ''c3'' ''b'' LeaveSpace)"
  have ok: "store_ok ?st" by (rule cs_new_ok) (rule example_readable)
  have p: "map snd (projection ?st) = example_founding" "cs_spaceId ?st = ''s''"
    by (simp_all add: cs_new_def by_id_def bm_extend_def example_founding_def example_record_def control_operation_def)
  have "\<forall>op \<in> set example_founding. in_space ''s'' op"
    by (simp add: example_founding_def in_space_def example_simps control_operation_decode)
  then have f: "filter (in_space ''s'') example_founding = example_founding" by (simp add: filter_id_conv)
  have so: "sort_key fromOperation example_founding = example_founding"
    by (simp add: example_founding_def less_eq_revision_def revision_le_def)
  note reads = store_reads [OF ok, of "''s''", unfolded p f so example_founded]
  have d: "decodeControlOperation ?leave = Inr ?r"
    by (rule control_operation_decode) (simp_all add: example_simps)
  have user: "hasCapability example_space ''b'' c None \<Longrightarrow> user_capability c" for c
    by (simp add: example_space_def hasCapability_def map_of_builtinRoles builtinRole_def user_capability_def)
  have new: "map_of (projection ?st) (opId ?leave) = None"
    by (simp add: cs_new_def by_id_def bm_extend_def example_founding_def example_record_def control_operation_def)
  have "?leave \<notin> set example_founding"
    by (simp add: example_founding_def control_operation_def example_record_def)
  then have "peer_check example_space example_founding ''b'' ?leave = Inr ()"
    using d user [of "''*''"] by (auto simp: peer_check_def example_record_def user_capability_def control_operation_decode
        authorizeAndApplyCommand_def apply_leave_space_def example_space_def)
  moreover have "rm_space_commands (read_model ?st) ''s'' = Inr example_founding" by (rule reads)
  moreover have "replayControlCommands id ''s'' example_founding None = Inr (example_space, [])"
    using replay_policy [OF example_readable] by (simp add: example_founded)
  moreover have "\<exists>st'. projectControlOperations [?leave] ?st = Inr st'"
    using d new by (simp add: projectControlOperations_def projectControlOperationsForSpaceUnlocked_def project_one_def
        example_record_def p(2))
  ultimately obtain st' where proj: "projectPeerControlOperations ''b'' [?leave] ?st = Inr st'"
    by (auto simp: projectPeerControlOperations_def orderedCommands_def p(2) validateSpaceId_def valid_ascii)
      (auto simp: example_space_def)
  have "currentState ?st = Inr example_space" using reads(1) by (simp add: currentState_def p(2))
  from plain_member_only_leaves [OF ok proj this, of ?leave] user new proj show ?thesis by (auto simp: Let_def)
qed

section \<open>The export is complete\<close>

text \<open>A reader that asks for one page after another with the revision of the first.\<close>

fun read_pages :: "((string, SyncOperation) bmap \<Rightarrow> string) \<Rightarrow> string \<Rightarrow> string \<Rightarrow> string option \<Rightarrow> ControlStore \<Rightarrow> nat
    \<Rightarrow> SyncOperation list" where
  "read_pages digest sp expected after st 0 = []"
| "read_pages digest sp expected after st (Suc n) =
     (case spaceControlExport digest sp (Some expected) after st of
        Inr (_, _, Some op) \<Rightarrow> op # read_pages digest sp expected (Some (opId op)) st n
      | _ \<Rightarrow> [])"

lemma export_next:
  assumes "bm_wf (a @ b)" and "after = (if a = [] then None else Some (fst (last a)))"
  shows "List.find (\<lambda>(i, _). case after of None \<Rightarrow> True | Some previous \<Rightarrow> previous < i) (a @ b)
    = (case b of [] \<Rightarrow> None | e # _ \<Rightarrow> Some e)"
proof (cases "a = []")
  case True
  with assms(2) show ?thesis by (cases b) auto
next
  case False
  then obtain a' e where a: "a = a' @ [e]" by (metis rev_exhaust)
  from assms(1) a have lt: "\<forall>x \<in> set a'. fst x < fst e" "\<forall>x \<in> set b. fst e < fst x"
    by (auto simp: bm_wf_def sorted_wrt_append)
  have "List.find (\<lambda>(i, _). fst e < i) (a @ b) = List.find (\<lambda>(i, _). fst e < i) b"
    using lt(1) unfolding a by (induction a') auto
  also have "\<dots> = (case b of [] \<Rightarrow> None | e # _ \<Rightarrow> Some e)" using lt(2) by (cases b) auto
  finally show ?thesis using assms(2) a by simp
qed

lemma read_pages_from:
  assumes "export_records sp st = Inr (a @ b)" and "keyed (a @ b)"
    and "after = (if a = [] then None else Some (fst (last a)))" and "length b < n"
  shows "read_pages digest sp (digest (a @ b)) after st n = map snd b"
  using assms
proof (induction b arbitrary: a after n)
  case Nil
  then obtain k where n: "n = Suc k" by (cases n) auto
  have "bm_mem a (the after)" if "after \<noteq> None"
    using that Nil(3) by (auto simp: bm_mem_iff split: if_splits intro: last_in_set)
  with Nil export_next [of a "[]" after] show ?case
    by (auto simp: n spaceControlExport_def keyed_def)
next
  case (Cons e b)
  then obtain k where n: "n = Suc k" by (cases n) auto
  have ok: "bm_mem (a @ e # b) (the after)" if "after \<noteq> None"
    using that Cons.prems(3) by (auto simp: bm_mem_iff split: if_splits intro: last_in_set)
  from Cons.prems(2) have key: "fst e = opId (snd e)" and wf: "bm_wf (a @ e # b)" by (auto simp: keyed_def)
  have "spaceControlExport digest sp (Some (digest (a @ e # b))) after st = Inr (digest (a @ e # b), length (a @ e # b), Some (snd e))"
    using Cons.prems(1) ok export_next [OF wf Cons.prems(3)] by (cases after) (auto simp: spaceControlExport_def)
  moreover have "read_pages digest sp (digest ((a @ [e]) @ b)) (Some (opId (snd e))) st k = map snd b"
    by (rule Cons.IH) (use Cons.prems n key in auto)
  ultimately show ?case by (simp add: n)
qed

text \<open>Reading the export page by page from the beginning yields every operation of the Space exactly once, in the
  order of their identities, and then ends.\<close>

theorem export_pages_complete:
  assumes "store_ok st" and "validateSpaceId sp = Inr ()" and "length (projection st) < n"
  shows "\<exists>records. export_records sp st = Inr records
    \<and> read_pages digest sp (digest records) None st n = filter (in_space sp) (map snd (projection st))"
proof -
  let ?r = "filter (\<lambda>e. in_space sp (snd e)) (projection st)"
  have "rbind (decodeControlOperation (snd e)) (\<lambda>r. Inr (rec_spaceId r = sp)) = Inr (in_space sp (snd e))"
    if "e \<in> set (projection st)" for e
    using assms(1) that by (auto simp: store_ok_def readable_iff in_space_def)
  then have r: "export_records sp st = Inr ?r"
    using assms(2) by (simp add: export_records_def rfilter_total [where Q = "\<lambda>e. in_space sp (snd e)"])
  have "keyed ?r" using store_keyed [OF assms(1)] by (auto simp: keyed_def bm_wf_filter)
  moreover have "length ?r < n" using assms(3) length_filter_le le_less_trans by blast
  ultimately have "read_pages digest sp (digest ?r) None st n = map snd ?r"
    using read_pages_from [of sp st "[]" ?r None n digest] r by simp
  also have "\<dots> = filter (in_space sp) (map snd (projection st))" by (simp add: filter_map o_def)
  finally show ?thesis using r by blast
qed

theorem export_pages_complete_witness:
  "\<exists>records. export_records ''s'' (cs_new ''a'' ''s'' [''a'', ''b''] example_founding) = Inr records
    \<and> length (read_pages (\<lambda>r. map (\<lambda>_. CHR ''x'') r) ''s'' (map (\<lambda>_. CHR ''x'') records) None
        (cs_new ''a'' ''s'' [''a'', ''b''] example_founding) 3) = 2"
proof -
  let ?st = "cs_new ''a'' ''s'' [''a'', ''b''] example_founding"
  have ok: "store_ok ?st" by (rule cs_new_ok) (rule example_readable)
  have p: "map snd (projection ?st) = example_founding" "length (projection ?st) = 2"
    by (simp_all add: cs_new_def by_id_def bm_extend_def example_founding_def example_record_def control_operation_def)
  have "\<forall>op \<in> set example_founding. in_space ''s'' op"
    by (simp add: example_founding_def in_space_def example_simps control_operation_decode)
  then have "filter (in_space ''s'') (map snd (projection ?st)) = example_founding" unfolding p by (simp add: filter_id_conv)
  moreover have "length example_founding = 2" by (simp add: example_founding_def)
  ultimately show ?thesis
    using export_pages_complete [OF ok, of "''s''" 3 "\<lambda>r. map (\<lambda>_. CHR ''x'') r"] p(2)
    by (auto simp: validateSpaceId_def valid_ascii)
qed

end
