(* ===== verification/Chat_Lease.thy ===== *)
theory Chat_Lease
  imports Control_Command "HOL-Library.Product_Lexorder"
begin

text \<open>
  The execution leases of conversations (\<open>ChatExecutionLease.rs\<close>): while a generation runs, the
  identity of its chat and the revisions it wrote are protected from plugins.  Leases are shared
  handles; the last one to disappear, an explicit release or an armed request guard ends the
  generation.  The theory holds the operations, the handles as counts, the steps of the system and
  what every reachable state satisfies.
\<close>

section \<open>Operations\<close>

record ActiveExecution =
  exec_id :: nat
  dirtyRevisions :: "(int \<times> int) bset"

record ChatExecutionLeaseState =
  nextId :: nat
  active :: "(string, ActiveExecution) bmap"

datatype PluginExtensionTarget = ChatTarget string | MessageTarget string int int

fun target_chatId :: "PluginExtensionTarget \<Rightarrow> string" where
  "target_chatId (ChatTarget c) = c"
| "target_chatId (MessageTarget c ts v) = c"

definition validate_target :: "PluginExtensionTarget \<Rightarrow> unit res" where
  "validate_target t =
     (if str_trim (utf8_chars (target_chatId t)) = []
      then Inl (Err ''Plugin extension target requires a nonempty chatId'')
      else case t of
        MessageTarget _ _ v \<Rightarrow>
          if v < 0 then Inl (Err ''Plugin extension target variantIndex must be nonnegative'') else Inr ()
      | ChatTarget _ \<Rightarrow> Inr ())"

text \<open>\<open>chat_exists\<close> is the query for the chat's row, which may fail.  A lease is the chat and the
  identity of its generation.\<close>

definition beginChatExecution :: "(string \<Rightarrow> bool res) \<Rightarrow> string \<Rightarrow> ChatExecutionLeaseState
    \<Rightarrow> (nat \<times> ChatExecutionLeaseState) res" where
  "beginChatExecution chat_exists chat st =
     (if str_trim (utf8_chars chat) = [] then Inl (Err ''Execution requires a real chat id'')
      else if bm_mem (active st) chat then Inl (Err (''Conversation is executing: '' @ chat))
      else rbind (chat_exists chat) (\<lambda>found.
        if \<not> found then Inl (Err (''Execution chat does not exist: '' @ chat))
        else rbind (ok_or (Err ''Chat execution lease id overflow'') (usize_checked_add (nextId st) 1)) (\<lambda>i.
          Inr (i, \<lparr>nextId = i,
            active = bm_insert chat \<lparr>exec_id = i, dirtyRevisions = []\<rparr> (active st)\<rparr>))))"

definition lease_release :: "string \<Rightarrow> nat \<Rightarrow> ChatExecutionLeaseState \<Rightarrow> ChatExecutionLeaseState" where
  "lease_release chat i st =
     (case map_of (active st) chat of
        Some e \<Rightarrow> if exec_id e = i then st\<lparr>active := bm_remove chat (active st)\<rparr> else st
      | None \<Rightarrow> st)"

definition protectRevision :: "string \<Rightarrow> nat \<Rightarrow> int \<Rightarrow> int \<Rightarrow> ChatExecutionLeaseState \<Rightarrow> ChatExecutionLeaseState res" where
  "protectRevision chat i ts v st =
     (if v < 0 then Inl (Err ''Dirty revision index must be nonnegative'')
      else case map_of (active st) chat of
        None \<Rightarrow> Inl (Err ''Chat execution lease is no longer active'')
      | Some e \<Rightarrow>
          if exec_id e \<noteq> i then Inl (Err ''Chat execution lease is no longer active'')
          else Inr (st\<lparr>active := bm_set chat (e\<lparr>dirtyRevisions := bs_insert (ts, v) (dirtyRevisions e)\<rparr>) (active st)\<rparr>))"

text \<open>\<open>debug\<close> is the text of the target in the message; the action runs only when nothing is protected.\<close>

definition withPluginExtensionMutation :: "(PluginExtensionTarget \<Rightarrow> string) \<Rightarrow> PluginExtensionTarget \<Rightarrow> (unit \<Rightarrow> 'a res)
    \<Rightarrow> ChatExecutionLeaseState \<Rightarrow> 'a res" where
  "withPluginExtensionMutation debug target action st =
     (if (case map_of (active st) (target_chatId target) of
            None \<Rightarrow> False
          | Some e \<Rightarrow> (case target of
              ChatTarget _ \<Rightarrow> True
            | MessageTarget _ ts v \<Rightarrow> (ts, v) \<in> set (dirtyRevisions e)))
      then Inl (Err (''Cannot mutate executing conversation identity or a dirty revision: '' @ debug target))
      else action ())"

section \<open>Handles\<close>

text \<open>One owner per generation, shared by the leases and the armed request guards that hold it.\<close>

record ExecutionLeaseOwner =
  owner_chatId :: string
  lease_handles :: nat
  armed_guards :: nat

record LeaseSystem =
  leases :: ChatExecutionLeaseState
  owners :: "(nat, ExecutionLeaseOwner) bmap"

definition lease_system_new :: LeaseSystem where
  "lease_system_new = \<lparr>leases = \<lparr>nextId = 0, active = []\<rparr>, owners = []\<rparr>"

text \<open>\<open>Drop for ExecutionLeaseOwner\<close>: when the last handle is gone the owner releases.\<close>

definition store_owner :: "nat \<Rightarrow> ExecutionLeaseOwner \<Rightarrow> LeaseSystem \<Rightarrow> LeaseSystem" where
  "store_owner i w s =
     (if lease_handles w + armed_guards w = 0
      then s\<lparr>leases := lease_release (owner_chatId w) i (leases s), owners := bm_remove i (owners s)\<rparr>
      else s\<lparr>owners := bm_insert i w (owners s)\<rparr>)"

datatype lease_event =
    Begin string
  | CloneLease nat
  | DropLease nat
  | ReleaseLease nat
  | Protect nat int int
  | ArmGuard nat
  | Handoff nat
  | DropGuard nat

inductive lease_step :: "(string \<Rightarrow> bool res) \<Rightarrow> LeaseSystem \<Rightarrow> lease_event \<Rightarrow> LeaseSystem \<Rightarrow> bool" for chat_exists where
  begun: "beginChatExecution chat_exists chat (leases s) = Inr (i, l) \<Longrightarrow>
    lease_step chat_exists s (Begin chat)
      (s\<lparr>leases := l, owners := bm_insert i \<lparr>owner_chatId = chat, lease_handles = 1, armed_guards = 0\<rparr> (owners s)\<rparr>)"
| cloned: "map_of (owners s) i = Some w \<Longrightarrow> 0 < lease_handles w \<Longrightarrow>
    lease_step chat_exists s (CloneLease i) (store_owner i (w\<lparr>lease_handles := lease_handles w + 1\<rparr>) s)"
| dropped: "map_of (owners s) i = Some w \<Longrightarrow> 0 < lease_handles w \<Longrightarrow>
    lease_step chat_exists s (DropLease i) (store_owner i (w\<lparr>lease_handles := lease_handles w - 1\<rparr>) s)"
| released: "map_of (owners s) i = Some w \<Longrightarrow>
    lease_step chat_exists s (ReleaseLease i) (s\<lparr>leases := lease_release (owner_chatId w) i (leases s)\<rparr>)"
| protected: "map_of (owners s) i = Some w \<Longrightarrow> protectRevision (owner_chatId w) i ts v (leases s) = Inr l \<Longrightarrow>
    lease_step chat_exists s (Protect i ts v) (s\<lparr>leases := l\<rparr>)"
| armed: "map_of (owners s) i = Some w \<Longrightarrow> 0 < lease_handles w \<Longrightarrow>
    lease_step chat_exists s (ArmGuard i) (store_owner i (w\<lparr>armed_guards := armed_guards w + 1\<rparr>) s)"
| handed: "map_of (owners s) i = Some w \<Longrightarrow> 0 < armed_guards w \<Longrightarrow>
    lease_step chat_exists s (Handoff i) (store_owner i (w\<lparr>armed_guards := armed_guards w - 1\<rparr>) s)"
| disarmed: "map_of (owners s) i = Some w \<Longrightarrow> 0 < armed_guards w \<Longrightarrow>
    lease_step chat_exists s (DropGuard i) (store_owner i (w\<lparr>armed_guards := armed_guards w - 1\<rparr>)
      (s\<lparr>leases := lease_release (owner_chatId w) i (leases s)\<rparr>))"

inductive lease_run :: "(string \<Rightarrow> bool res) \<Rightarrow> LeaseSystem \<Rightarrow> lease_event list \<Rightarrow> LeaseSystem \<Rightarrow> bool" for chat_exists where
  stopped: "lease_run chat_exists s [] s"
| stepped: "lease_step chat_exists s ev t \<Longrightarrow> lease_run chat_exists t evs u \<Longrightarrow> lease_run chat_exists s (ev # evs) u"

inductive_cases lease_stepE: "lease_step chat_exists s ev t"
inductive_simps lease_run_Nil [simp]: "lease_run chat_exists s [] u"
inductive_simps lease_run_Cons: "lease_run chat_exists s (ev # evs) u"

section \<open>What every reachable state satisfies\<close>

text \<open>A running generation belongs to a living owner of the same chat, and identities are never reused.\<close>

definition leases_ok :: "LeaseSystem \<Rightarrow> bool" where
  "leases_ok s \<longleftrightarrow> bm_wf (active (leases s)) \<and> bm_wf (owners s) \<and> nextId (leases s) \<le> usize_max
     \<and> (\<forall>chat e. map_of (active (leases s)) chat = Some e \<longrightarrow>
          (\<exists>w. map_of (owners s) (exec_id e) = Some w \<and> owner_chatId w = chat))
     \<and> (\<forall>i w. map_of (owners s) i = Some w \<longrightarrow> 0 < i \<and> i \<le> nextId (leases s) \<and> 0 < lease_handles w + armed_guards w)"

lemma leases_okD:
  assumes "leases_ok s"
  shows "bm_wf (active (leases s))" "bm_wf (owners s)" "nextId (leases s) \<le> usize_max"
    "map_of (active (leases s)) chat = Some e \<Longrightarrow> \<exists>w. map_of (owners s) (exec_id e) = Some w \<and> owner_chatId w = chat"
    "map_of (owners s) i = Some w \<Longrightarrow> 0 < i \<and> i \<le> nextId (leases s) \<and> 0 < lease_handles w + armed_guards w"
  using assms by (auto simp: leases_ok_def)

lemma release_lookup:
  "map_of (active (lease_release chat i st)) c
    = (if c = chat \<and> (\<exists>e. map_of (active st) chat = Some e \<and> exec_id e = i) then None else map_of (active st) c)"
  by (auto simp: lease_release_def split: option.splits)

lemma release_rest [simp]: "nextId (lease_release chat i st) = nextId st" "bm_wf (active st) \<Longrightarrow> bm_wf (active (lease_release chat i st))"
  by (auto simp: lease_release_def split: option.splits)

lemma begin_Inr:
  assumes "beginChatExecution E chat st = Inr (i, l)"
  shows "i = nextId st + 1 \<and> i \<le> usize_max \<and> map_of (active st) chat = None
    \<and> l = \<lparr>nextId = i, active = bm_insert chat \<lparr>exec_id = i, dirtyRevisions = []\<rparr> (active st)\<rparr>"
  using assms by (auto simp: beginChatExecution_def usize_checked_add_def not_bm_mem split: if_splits)

lemma protect_Inr:
  assumes "protectRevision chat i ts v st = Inr l"
  shows "\<exists>e. map_of (active st) chat = Some e \<and> exec_id e = i
    \<and> l = st\<lparr>active := bm_set chat (e\<lparr>dirtyRevisions := bs_insert (ts, v) (dirtyRevisions e)\<rparr>) (active st)\<rparr>"
  using assms by (auto simp: protectRevision_def split: if_splits option.splits)

lemma leases_ok_release:
  "leases_ok s \<Longrightarrow> leases_ok (s\<lparr>leases := lease_release chat i (leases s)\<rparr>)"
  by (auto simp: leases_ok_def release_lookup split: if_splits)

lemma leases_ok_owner:
  assumes "leases_ok s" and "map_of (owners s) i = Some w" and "owner_chatId w' = owner_chatId w"
  shows "leases_ok (store_owner i w' s)"
proof (cases "lease_handles w' + armed_guards w' = 0")
  case False
  have wf: "bm_wf (owners s)" using assms(1) by (rule leases_okD)
  have "\<exists>v. map_of (bm_insert i w' (owners s)) (exec_id e) = Some v \<and> owner_chatId v = chat"
    if "map_of (active (leases s)) chat = Some e" for chat e
    using leases_okD(4) [OF assms(1) that] assms(2,3) wf by auto
  with False assms(1,2) wf show ?thesis by (auto simp: store_owner_def leases_ok_def)
next
  case True
  have wf: "bm_wf (owners s)" using assms(1) by (rule leases_okD)
  let ?l = "lease_release (owner_chatId w) i (leases s)"
  have "\<exists>v. map_of (bm_remove i (owners s)) (exec_id e) = Some v \<and> owner_chatId v = chat"
    if a: "map_of (active ?l) chat = Some e" for chat e
  proof -
    from a have old: "map_of (active (leases s)) chat = Some e" by (auto simp: release_lookup split: if_splits)
    then obtain v where v: "map_of (owners s) (exec_id e) = Some v" "owner_chatId v = chat"
      using leases_okD(4) [OF assms(1)] by blast
    have "exec_id e \<noteq> i"
    proof
      assume e: "exec_id e = i"
      with v assms(2) have "chat = owner_chatId w" by simp
      with a old e show False by (simp add: release_lookup)
    qed
    with v show ?thesis by simp
  qed
  with True assms(1,3) wf show ?thesis by (auto simp: store_owner_def leases_ok_def split: if_splits)
qed

lemma leases_ok_step: "lease_step E s ev t \<Longrightarrow> leases_ok s \<Longrightarrow> leases_ok t"
proof (induction rule: lease_step.induct)
  case (begun chat s i l)
  note b = begin_Inr [OF begun.hyps] and ok = leases_okD [OF begun.prems]
  have new: "map_of (owners s) i = None" using ok(5) [of i] b by (cases "map_of (owners s) i") auto
  have "\<exists>w. map_of (bm_insert i \<lparr>owner_chatId = chat, lease_handles = 1, armed_guards = 0\<rparr> (owners s)) (exec_id e) = Some w
      \<and> owner_chatId w = c" if "map_of (active l) c = Some e" for c e
    using that ok(1,2) ok(4) [of c e] new b by (auto split: if_splits)
  moreover have "0 < j \<and> j \<le> i \<and> 0 < lease_handles w + armed_guards w"
    if "map_of (bm_insert i \<lparr>owner_chatId = chat, lease_handles = 1, armed_guards = 0\<rparr> (owners s)) j = Some w" for j w
    using that ok(2) ok(5) [of j w] b by (auto split: if_splits)
  ultimately show ?case using ok(1,2) b by (simp add: leases_ok_def)
next
  case (protected s i w ts v l)
  from protect_Inr [OF protected.hyps(2)] protected.prems show ?case
    by (auto simp: leases_ok_def map_of_bm_set split: if_splits)
next
  case (disarmed s i w)
  then show ?case by (intro leases_ok_owner [where w = w] leases_ok_release) simp_all
qed (auto intro: leases_ok_owner leases_ok_release)

lemma leases_ok_run: "lease_run E s evs t \<Longrightarrow> leases_ok s \<Longrightarrow> leases_ok t"
  by (induction rule: lease_run.induct) (auto intro: leases_ok_step)

lemma leases_ok_new: "leases_ok lease_system_new"
  by (simp add: leases_ok_def lease_system_new_def)

section \<open>A generation is protected until its own end\<close>

fun may_end :: "lease_event \<Rightarrow> nat \<Rightarrow> bool" where
  "may_end (DropLease j) i \<longleftrightarrow> j = i"
| "may_end (ReleaseLease j) i \<longleftrightarrow> j = i"
| "may_end (Handoff j) i \<longleftrightarrow> j = i"
| "may_end (DropGuard j) i \<longleftrightarrow> j = i"
| "may_end _ i \<longleftrightarrow> False"

definition continues :: "string \<Rightarrow> ActiveExecution \<Rightarrow> LeaseSystem \<Rightarrow> bool" where
  "continues chat e s \<longleftrightarrow> (\<exists>f. map_of (active (leases s)) chat = Some f \<and> exec_id f = exec_id e
     \<and> set (dirtyRevisions e) \<subseteq> set (dirtyRevisions f))"

lemma release_other:
  "map_of (active st) chat = Some f \<Longrightarrow> exec_id f \<noteq> i \<Longrightarrow> map_of (active (lease_release c i st)) chat = Some f"
  by (auto simp: release_lookup)

lemma store_owner_other:
  "map_of (active (leases s)) chat = Some f \<Longrightarrow> exec_id f \<noteq> i
    \<Longrightarrow> map_of (active (leases (store_owner i w s))) chat = Some f"
  by (simp add: store_owner_def release_other)

lemma store_owner_more:
  "0 < lease_handles w + armed_guards w \<Longrightarrow> leases (store_owner i w s) = leases s"
  by (auto simp: store_owner_def)

lemma continues_step:
  assumes "lease_step E s ev t" and "leases_ok s" and "continues chat e s" and "\<not> may_end ev (exec_id e)"
  shows "continues chat e t"
  using assms
proof (induction rule: lease_step.induct)
  case (begun c s i l)
  from begin_Inr [OF begun.hyps] leases_okD(1) [OF begun.prems(1)] begun.prems(2) show ?case
    by (auto simp: continues_def)
next
  case (protected s i w ts v l)
  from protect_Inr [OF protected.hyps(2)] protected.prems(2) show ?case
    by (auto simp: continues_def map_of_bm_set subset_iff)
next
  case (dropped s i w)
  then show ?case by (auto simp: continues_def intro!: store_owner_other)
next
  case (released s i w)
  then show ?case by (auto simp: continues_def intro!: release_other)
next
  case (handed s i w)
  then show ?case by (auto simp: continues_def intro!: store_owner_other)
next
  case (disarmed s i w)
  then show ?case by (auto simp: continues_def intro!: store_owner_other release_other)
qed (simp_all add: continues_def store_owner_more)

lemma continues_run:
  assumes "lease_run E s evs t" and "leases_ok s" and "continues chat e s" and "\<forall>ev \<in> set evs. \<not> may_end ev (exec_id e)"
  shows "continues chat e t"
  using assms by (induction rule: lease_run.induct) (auto intro: continues_step leases_ok_step)

text \<open>C29: From the moment a generation runs, and as long as no handle of this very generation is dropped or released,
  nothing any other holder does (stale leases of older generations of the same chat included) ends it or forgets one of
  its revisions: plugins can change neither the conversation nor those revisions.\<close>

theorem running_generation_protected:
  assumes "lease_run E lease_system_new before s" and "map_of (active (leases s)) chat = Some e"
    and "lease_run E s evs t" and "\<forall>ev \<in> set evs. \<not> may_end ev (exec_id e)"
  shows "isl (withPluginExtensionMutation debug (ChatTarget chat) action (leases t))
    \<and> ((ts, v) \<in> set (dirtyRevisions e) \<longrightarrow>
        isl (withPluginExtensionMutation debug (MessageTarget chat ts v) action (leases t)))"
proof -
  have "continues chat e s" using assms(2) by (simp add: continues_def)
  from continues_run [OF assms(3) leases_ok_run [OF assms(1) leases_ok_new] this assms(4)]
  show ?thesis by (auto simp: continues_def withPluginExtensionMutation_def)
qed

section \<open>An abandoned generation ends\<close>

lemma lease_run_append: "lease_run E s xs t \<Longrightarrow> lease_run E t ys u \<Longrightarrow> lease_run E s (xs @ ys) u"
  by (induction rule: lease_run.induct) (auto intro: lease_run.intros)

text \<open>Dropping the handles of a generation one after another.\<close>

lemma drop_handles:
  assumes "leases_ok s" and "map_of (owners s) i = Some w"
  shows "\<exists>evs t. lease_run E s evs t \<and> set evs \<subseteq> {DropLease i, DropGuard i} \<and> map_of (owners t) i = None
    \<and> nextId (leases t) = nextId (leases s)"
  using assms
proof (induction "lease_handles w + armed_guards w" arbitrary: s w rule: less_induct)
  case less
  from leases_okD(5) [OF less.prems(1,2)] have pos: "0 < lease_handles w + armed_guards w" by simp
  obtain ev t v where step: "lease_step E s ev t" and ev: "ev \<in> {DropLease i, DropGuard i}"
    and v: "lease_handles v + armed_guards v < lease_handles w + armed_guards w"
    and t: "map_of (owners t) i = (if lease_handles v + armed_guards v = 0 then None else Some v)"
    and n: "nextId (leases t) = nextId (leases s)"
  proof (cases "0 < lease_handles w")
    case True
    let ?v = "w\<lparr>lease_handles := lease_handles w - 1\<rparr>"
    show thesis
      by (rule that [OF lease_step.dropped [OF less.prems(2) True], of ?v])
        (use True leases_okD(2) [OF less.prems(1)] in \<open>auto simp: store_owner_def\<close>)
  next
    case False
    with pos have g: "0 < armed_guards w" by simp
    let ?v = "w\<lparr>armed_guards := armed_guards w - 1\<rparr>"
    show thesis
      by (rule that [OF lease_step.disarmed [OF less.prems(2) g], of ?v])
        (use g False leases_okD(2) [OF less.prems(1)] in \<open>auto simp: store_owner_def\<close>)
  qed
  show ?case
  proof (cases "lease_handles v + armed_guards v = 0")
    case True
    with step ev t n show ?thesis by (intro exI [of _ "[ev]"] exI [of _ t]) (auto simp: lease_run_Cons)
  next
    case False
    with t have "map_of (owners t) i = Some v" by simp
    from less.hyps [OF v leases_ok_step [OF step less.prems(1)] this] obtain evs u where
      "lease_run E t evs u" "set evs \<subseteq> {DropLease i, DropGuard i}" "map_of (owners u) i = None"
      "nextId (leases u) = nextId (leases t)" by blast
    with step ev n show ?thesis by (intro exI [of _ "ev # evs"] exI [of _ u]) (auto simp: lease_run_Cons)
  qed
qed

lemma release_in: "map_of (active st) chat \<in> {None, x} \<Longrightarrow> map_of (active (lease_release c i st)) chat \<in> {None, x}"
  unfolding release_lookup by simp

lemma store_owner_in:
  assumes "map_of (active (leases s)) chat \<in> {None, x}"
  shows "map_of (active (leases (store_owner i w s))) chat \<in> {None, x}"
proof (cases "lease_handles w + armed_guards w = 0")
  case True
  then show ?thesis using release_in [OF assms] by (simp add: store_owner_def)
next
  case False
  then show ?thesis using assms by (simp only: store_owner_def) simp
qed

lemma drop_step_lookup:
  assumes "lease_step E s ev t" and "ev \<in> {DropLease i, DropGuard i}"
    and "map_of (active (leases s)) chat \<in> {None, x}"
  shows "map_of (active (leases t)) chat \<in> {None, x}"
  using assms(1)
proof (cases rule: lease_step.cases)
  case (dropped j w)
  with store_owner_in [OF assms(3)] show ?thesis by simp
next
  case (disarmed j w)
  have "map_of (active (leases (s\<lparr>leases := lease_release (owner_chatId w) j (leases s)\<rparr>))) chat \<in> {None, x}"
    using release_in [OF assms(3)] by simp
  from store_owner_in [OF this] disarmed show ?thesis by simp
qed (use assms(2) in simp_all)

lemma drop_run_lookup:
  "lease_run E s evs t \<Longrightarrow> set evs \<subseteq> {DropLease i, DropGuard i} \<Longrightarrow> map_of (active (leases s)) chat \<in> {None, Some f}
    \<Longrightarrow> map_of (active (leases t)) chat \<in> {None, Some f}"
proof (induction rule: lease_run.induct)
  case (stepped s ev t evs u)
  then show ?case using drop_step_lookup [OF stepped.hyps(1), of i chat "Some f"] by simp
qed simp

lemma no_owner_no_execution:
  "leases_ok s \<Longrightarrow> map_of (owners s) i = None \<Longrightarrow> map_of (active (leases s)) chat = Some e \<Longrightarrow> exec_id e \<noteq> i"
  using leases_okD(4) by fastforce

text \<open>C30: No conversation stays locked: whatever led to a running generation, dropping the handles that still hold it,
  which is always possible, frees the chat, and a new execution then begins under a larger identity.\<close>

theorem abandoned_generation_ends:
  assumes "lease_run E lease_system_new before s" and "map_of (active (leases s)) chat = Some e"
  shows "\<exists>evs t. lease_run E s evs t \<and> set evs \<subseteq> {DropLease (exec_id e), DropGuard (exec_id e)}
    \<and> map_of (active (leases t)) chat = None
    \<and> (str_trim (utf8_chars chat) \<noteq> [] \<and> E chat = Inr True \<and> nextId (leases s) < usize_max \<longrightarrow>
        (\<exists>j l. beginChatExecution E chat (leases t) = Inr (j, l) \<and> exec_id e < j))"
proof -
  have ok: "leases_ok s" by (rule leases_ok_run [OF assms(1) leases_ok_new])
  from leases_okD(4) [OF ok assms(2)] obtain w where w: "map_of (owners s) (exec_id e) = Some w" "owner_chatId w = chat"
    by blast
  obtain evs t where run: "lease_run E s evs t" and evs: "set evs \<subseteq> {DropLease (exec_id e), DropGuard (exec_id e)}"
    and t: "map_of (owners t) (exec_id e) = None" and n: "nextId (leases t) = nextId (leases s)"
    using drop_handles [OF ok w(1)] by blast
  from drop_run_lookup [OF run evs, of chat e] assms(2) no_owner_no_execution [OF leases_ok_run [OF run ok] t]
  have free: "map_of (active (leases t)) chat = None" by auto
  moreover have "exec_id e \<le> nextId (leases s)" using leases_okD(5) [OF ok w(1)] by simp
  ultimately have "\<exists>j l. beginChatExecution E chat (leases t) = Inr (j, l) \<and> exec_id e < j"
    if "str_trim (utf8_chars chat) \<noteq> []" and "E chat = Inr True" and "nextId (leases s) < usize_max"
    using that n by (simp add: beginChatExecution_def not_bm_mem usize_checked_add_def)
  with run evs free show ?thesis by blast
qed

section \<open>Examples\<close>

lemma example_begun:
  "lease_run (\<lambda>_. Inr True) lease_system_new [Begin ''c'', Protect 1 7 0]
     \<lparr>leases = \<lparr>nextId = 1, active = [(''c'', \<lparr>exec_id = 1, dirtyRevisions = [(7, 0)]\<rparr>)]\<rparr>,
      owners = [(1, \<lparr>owner_chatId = ''c'', lease_handles = 1, armed_guards = 0\<rparr>)]\<rparr>"
proof -
  have v: "str_trim (utf8_chars ''c'') \<noteq> []" by (simp add: str_trim_def is_whitespace_def)
  have b: "beginChatExecution (\<lambda>_. Inr True) ''c'' \<lparr>nextId = 0, active = []\<rparr>
      = Inr (1, \<lparr>nextId = 1, active = [(''c'', \<lparr>exec_id = 1, dirtyRevisions = []\<rparr>)]\<rparr>)"
    using v by (simp add: beginChatExecution_def bm_mem_def usize_checked_add_def usize_max_def)
  let ?s = "\<lparr>leases = \<lparr>nextId = 1, active = [(''c'', \<lparr>exec_id = 1, dirtyRevisions = []\<rparr>)]\<rparr>,
      owners = [(1, \<lparr>owner_chatId = ''c'', lease_handles = 1, armed_guards = 0\<rparr>)]\<rparr>"
  have "lease_step (\<lambda>_. Inr True) lease_system_new (Begin ''c'') ?s"
    using lease_step.begun [of "\<lambda>_. Inr True" "''c''" lease_system_new] b by (simp add: lease_system_new_def)
  moreover have "lease_step (\<lambda>_. Inr True) ?s (Protect 1 7 0)
     \<lparr>leases = \<lparr>nextId = 1, active = [(''c'', \<lparr>exec_id = 1, dirtyRevisions = [(7, 0)]\<rparr>)]\<rparr>,
      owners = [(1, \<lparr>owner_chatId = ''c'', lease_handles = 1, armed_guards = 0\<rparr>)]\<rparr>"
    using lease_step.protected [of ?s 1 "\<lparr>owner_chatId = ''c'', lease_handles = 1, armed_guards = 0\<rparr>" 7 0]
    by (simp add: protectRevision_def)
  ultimately show ?thesis by (auto simp: lease_run_Cons)
qed

theorem running_generation_protected_witness:
  "isl (withPluginExtensionMutation (\<lambda>_. []) (ChatTarget ''c'') (\<lambda>_. Inr ())
     \<lparr>nextId = 1, active = [(''c'', \<lparr>exec_id = 1, dirtyRevisions = [(7, 0)]\<rparr>)]\<rparr>)
   \<and> isl (withPluginExtensionMutation (\<lambda>_. []) (MessageTarget ''c'' 7 0) (\<lambda>_. Inr ())
     \<lparr>nextId = 1, active = [(''c'', \<lparr>exec_id = 1, dirtyRevisions = [(7, 0)]\<rparr>)]\<rparr>)"
  using running_generation_protected [OF example_begun _ lease_run.stopped,
      of "''c''" "\<lparr>exec_id = 1, dirtyRevisions = [(7, 0)]\<rparr>" "\<lambda>_. []" "\<lambda>_. Inr ()" 7 0] by simp

theorem abandoned_generation_ends_witness:
  "\<exists>evs t. lease_run (\<lambda>_. Inr True) \<lparr>leases = \<lparr>nextId = 1, active = [(''c'', \<lparr>exec_id = 1, dirtyRevisions = [(7, 0)]\<rparr>)]\<rparr>,
      owners = [(1, \<lparr>owner_chatId = ''c'', lease_handles = 1, armed_guards = 0\<rparr>)]\<rparr> evs t
    \<and> map_of (active (leases t)) ''c'' = None"
  using abandoned_generation_ends [OF example_begun, of "''c''" "\<lparr>exec_id = 1, dirtyRevisions = [(7, 0)]\<rparr>"] by auto

end
