(* ===== verification/Pairing_Throttle.thy ===== *)
theory Pairing_Throttle
  imports Ordered_Map
begin

text \<open>
  The limits on pairing attempts (\<open>node/runtime/src/peer/pairing_throttle.rs\<close>): token buckets per source
  and for all sources together.  Times are milliseconds in \<open>i64\<close>, kept as integers with the saturating
  subtraction of the source written out; token counts are \<open>u32\<close>.
\<close>

section \<open>Buckets\<close>

definition u32_max :: nat where "u32_max = 4294967295"

definition i64_saturating_sub :: "int \<Rightarrow> int \<Rightarrow> int" where
  "i64_saturating_sub a b = max i64_min (min i64_max (a - b))"

definition u32_saturating_add :: "nat \<Rightarrow> nat \<Rightarrow> nat" where
  "u32_saturating_add a b = min u32_max (a + b)"

record TokenBucket =
  tokens :: nat
  bucket_capacity :: nat
  refillMs :: int
  lastRefill :: int

definition bucket_new :: "nat \<Rightarrow> int \<Rightarrow> int \<Rightarrow> TokenBucket" where
  "bucket_new capacity refill now =
     \<lparr>tokens = capacity, bucket_capacity = capacity, refillMs = max refill 1, lastRefill = now\<rparr>"

definition refill :: "int \<Rightarrow> TokenBucket \<Rightarrow> TokenBucket" where
  "refill now b =
     (let elapsed = max (i64_saturating_sub now (lastRefill b)) 0
      in if elapsed < refillMs b then b
         else let gained = nat (min (elapsed div refillMs b) (int u32_max))
              in b\<lparr>tokens := min (u32_saturating_add (tokens b) gained) (bucket_capacity b),
                   lastRefill := i64_saturating_sub now (elapsed mod refillMs b)\<rparr>)"

definition available :: "int \<Rightarrow> TokenBucket \<Rightarrow> bool \<times> TokenBucket" where
  "available now b = (let b = refill now b in (0 < tokens b, b))"

definition take_token :: "int \<Rightarrow> TokenBucket \<Rightarrow> TokenBucket" where
  "take_token now b = (let b = refill now b in b\<lparr>tokens := tokens b - 1\<rparr>)"

section \<open>The throttle\<close>

definition CONFIRMATION_GLOBAL_CAPACITY :: nat where "CONFIRMATION_GLOBAL_CAPACITY = 10"
definition CONFIRMATION_GLOBAL_REFILL_MS :: int where "CONFIRMATION_GLOBAL_REFILL_MS = 60 * 60 * 1000"
definition CONFIRMATION_SOURCE_CAPACITY :: nat where "CONFIRMATION_SOURCE_CAPACITY = 5"
definition CONFIRMATION_SOURCE_REFILL_MS :: int where "CONFIRMATION_SOURCE_REFILL_MS = 10 * 60 * 1000"
definition CREATION_SOURCE_CAPACITY :: nat where "CREATION_SOURCE_CAPACITY = 4"
definition CREATION_SOURCE_REFILL_MS :: int where "CREATION_SOURCE_REFILL_MS = 60 * 1000"
definition CREATION_GLOBAL_CAPACITY :: nat where "CREATION_GLOBAL_CAPACITY = 6"
definition CREATION_GLOBAL_REFILL_MS :: int where "CREATION_GLOBAL_REFILL_MS = 60 * 1000"
definition MAX_SOURCE_BUCKETS :: nat where "MAX_SOURCE_BUCKETS = 512"

lemmas throttle_limits = CONFIRMATION_GLOBAL_CAPACITY_def CONFIRMATION_GLOBAL_REFILL_MS_def
  CONFIRMATION_SOURCE_CAPACITY_def CONFIRMATION_SOURCE_REFILL_MS_def CREATION_SOURCE_CAPACITY_def
  CREATION_SOURCE_REFILL_MS_def CREATION_GLOBAL_CAPACITY_def CREATION_GLOBAL_REFILL_MS_def

text \<open>The loop of \<open>prune\<close> removes the least keys until the limit holds.\<close>

definition prune :: "(string, TokenBucket) bmap \<Rightarrow> (string, TokenBucket) bmap" where
  "prune buckets =
     (if length buckets \<le> MAX_SOURCE_BUCKETS then buckets
      else let kept = bm_retain (\<lambda>_ b. tokens b < bucket_capacity b) buckets
           in drop (length kept - MAX_SOURCE_BUCKETS) kept)"

record PairingThrottle =
  globalConfirmations :: "TokenBucket option"
  sourceConfirmations :: "(string, TokenBucket) bmap"
  globalCreations :: "TokenBucket option"
  sourceCreations :: "(string, TokenBucket) bmap"

definition throttle_default :: PairingThrottle where
  "throttle_default = \<lparr>globalConfirmations = None, sourceConfirmations = [], globalCreations = None, sourceCreations = []\<rparr>"

text \<open>\<open>entry(source).or_insert_with\<close> and \<open>get_or_insert_with\<close>.\<close>

definition or_insert :: "TokenBucket \<Rightarrow> TokenBucket option \<Rightarrow> TokenBucket" where
  "or_insert fresh slot = (case slot of None \<Rightarrow> fresh | Some b \<Rightarrow> b)"

text \<open>The common body: the two budgets are looked at before either is used, and the short circuit of
  \<open>||\<close> leaves the global bucket alone when the source has no token.\<close>

definition spend :: "int \<Rightarrow> string \<Rightarrow> TokenBucket \<Rightarrow> TokenBucket \<Rightarrow> (string, TokenBucket) bmap
    \<Rightarrow> bool \<times> TokenBucket \<times> (string, TokenBucket) bmap" where
  "spend now source global sb buckets =
     (let (source_ok, sb) = available now sb
      in if \<not> source_ok then (False, global, bm_insert source sb buckets)
         else let (global_ok, global) = available now global
              in if \<not> global_ok then (False, global, bm_insert source sb buckets)
                 else (True, take_token now global, prune (bm_insert source (take_token now sb) buckets)))"

definition allowConfirmation :: "string \<Rightarrow> int \<Rightarrow> PairingThrottle \<Rightarrow> bool \<times> PairingThrottle" where
  "allowConfirmation source now p =
     (let global = or_insert (bucket_new CONFIRMATION_GLOBAL_CAPACITY CONFIRMATION_GLOBAL_REFILL_MS now) (globalConfirmations p);
          sb = or_insert (bucket_new CONFIRMATION_SOURCE_CAPACITY CONFIRMATION_SOURCE_REFILL_MS now)
            (map_of (sourceConfirmations p) source);
          (ok, global, buckets) = spend now source global sb (sourceConfirmations p)
      in (ok, p\<lparr>globalConfirmations := Some global, sourceConfirmations := buckets\<rparr>))"

definition allowCreation :: "string \<Rightarrow> int \<Rightarrow> PairingThrottle \<Rightarrow> bool \<times> PairingThrottle" where
  "allowCreation source now p =
     (let global = or_insert (bucket_new CREATION_GLOBAL_CAPACITY CREATION_GLOBAL_REFILL_MS now) (globalCreations p);
          sb = or_insert (bucket_new CREATION_SOURCE_CAPACITY CREATION_SOURCE_REFILL_MS now)
            (map_of (sourceCreations p) source);
          (ok, global, buckets) = spend now source global sb (sourceCreations p)
      in (ok, p\<lparr>globalCreations := Some global, sourceCreations := buckets\<rparr>))"


datatype pairing_call = is_Confirm: Confirm (call_source: string) (call_time: int) | Create (call_source: string) (call_time: int)

fun throttle_call :: "pairing_call \<Rightarrow> PairingThrottle \<Rightarrow> bool \<times> PairingThrottle" where
  "throttle_call (Confirm s now) p = allowConfirmation s now p"
| "throttle_call (Create s now) p = allowCreation s now p"

text \<open>The calls that were allowed, in order, and the final state.\<close>

fun throttle_run :: "pairing_call list \<Rightarrow> PairingThrottle \<Rightarrow> pairing_call list \<times> PairingThrottle" where
  "throttle_run [] p = ([], p)"
| "throttle_run (c # cs) p =
     (let (ok, p) = throttle_call c p; (allowed, p) = throttle_run cs p
      in (if ok then c # allowed else allowed, p))"

section \<open>Budgets\<close>

text \<open>What a bucket still owes: \<open>n\<close> tokens were taken since \<open>t0\<close>, and no more were gained than whole
  intervals have passed.\<close>

definition within_budget :: "int \<Rightarrow> int \<Rightarrow> nat \<Rightarrow> TokenBucket \<Rightarrow> bool" where
  "within_budget t0 now n b \<longleftrightarrow> 0 \<le> t0 \<and> 0 < refillMs b \<and> t0 \<le> lastRefill b \<and> lastRefill b \<le> now \<and> tokens b \<le> bucket_capacity b
     \<and> bucket_capacity b \<le> u32_max \<and> int n + int (tokens b) \<le> int (bucket_capacity b) + (lastRefill b - t0) div refillMs b"

lemma within_budget_later: "within_budget t0 now n b \<Longrightarrow> now \<le> now' \<Longrightarrow> within_budget t0 now' n b"
  by (simp add: within_budget_def)

lemma budget_bound:
  assumes "within_budget t0 now n b"
  shows "int n \<le> int (bucket_capacity b) + (now - t0) div refillMs b"
proof -
  from assms have "(lastRefill b - t0) div refillMs b \<le> (now - t0) div refillMs b"
    by (intro zdiv_mono1) (simp_all add: within_budget_def)
  with assms show ?thesis by (simp add: within_budget_def)
qed

lemma bucket_new_budget: "0 \<le> t0 \<Longrightarrow> t0 \<le> now \<Longrightarrow> now \<le> m \<Longrightarrow> c \<le> u32_max \<Longrightarrow> within_budget t0 m 0 (bucket_new c r now)"
  by (simp add: within_budget_def bucket_new_def pos_imp_zdiv_nonneg_iff)

lemma refill_shape [simp]: "bucket_capacity (refill now b) = bucket_capacity b" "refillMs (refill now b) = refillMs b"
  by (simp_all add: refill_def Let_def)

text \<open>A clock that runs backwards leaves the bucket alone.\<close>

lemma refill_backwards: "0 < refillMs b \<Longrightarrow> now \<le> lastRefill b \<Longrightarrow> refill now b = b"
  by (simp add: refill_def i64_saturating_sub_def i64_min_def i64_max_def Let_def)

lemma refill_budget:
  assumes b: "within_budget t0 m n b" and now: "0 \<le> now" "now \<le> i64_max" "now \<le> m"
  shows "within_budget t0 m n (refill now b)"
proof (cases "now - lastRefill b < refillMs b")
  case True
  with b now have "refill now b = b"
    by (auto simp: within_budget_def refill_def i64_saturating_sub_def i64_min_def i64_max_def Let_def)
  with b show ?thesis by simp
next
  case False
  let ?R = "refillMs b" and ?l = "lastRefill b" and ?e = "now - lastRefill b"
  from b now False have pos: "0 < ?R" "0 \<le> ?l" "0 \<le> ?e" "t0 \<le> ?l" by (simp_all add: within_budget_def)
  have sub: "i64_saturating_sub now ?l = ?e" "i64_saturating_sub now (?e mod ?R) = now - ?e mod ?R"
    using pos now pos_mod_bound [OF pos(1), of ?e] pos_mod_sign [OF pos(1), of ?e] zmod_le_nonneg_dividend [OF pos(3), of ?R]
    by (simp_all add: i64_saturating_sub_def i64_min_def i64_max_def)
  let ?g = "nat (min (?e div ?R) (int u32_max))"
  have q: "0 \<le> ?e div ?R" using pos by (simp add: pos_imp_zdiv_nonneg_iff)
  have r: "refill now b = b\<lparr>tokens := min (u32_saturating_add (tokens b) ?g) (bucket_capacity b), lastRefill := now - ?e mod ?R\<rparr>"
    using False pos by (simp add: refill_def sub Let_def)
  have last: "now - ?e mod ?R = ?l + ?R * (?e div ?R)"
    using minus_mod_eq_mult_div [of ?e ?R] by linarith
  then have eq: "now - ?e mod ?R - t0 = (?l - t0) + ?e div ?R * ?R" by (simp add: mult.commute)
  have div: "(now - ?e mod ?R - t0) div ?R = (?l - t0) div ?R + ?e div ?R"
    unfolding eq using pos(1) by simp
  have "int (min (u32_saturating_add (tokens b) ?g) (bucket_capacity b)) \<le> int (tokens b) + ?e div ?R"
    using q by (simp add: u32_saturating_add_def)
  moreover have "0 \<le> ?R * (?e div ?R)" using pos(1) q by simp
  moreover have "now - ?e mod ?R \<le> m" using now pos_mod_sign [OF pos(1), of ?e] by linarith
  ultimately show ?thesis using b pos unfolding r within_budget_def by (simp add: div) (simp add: last)
qed

lemma take_budget:
  assumes "within_budget t0 m n b" "0 \<le> now" "now \<le> i64_max" "now \<le> m" "0 < tokens (refill now b)"
  shows "within_budget t0 m (Suc n) (take_token now b)"
  using refill_budget [OF assms(1-4)] assms(5) by (auto simp: within_budget_def take_token_def Let_def)

lemma take_shape [simp]: "bucket_capacity (take_token now b) = bucket_capacity b" "refillMs (take_token now b) = refillMs b"
  by (simp_all add: take_token_def Let_def)

lemma refill_gains: "within_budget t0 m n b \<Longrightarrow> tokens b \<le> tokens (refill now b)"
  by (auto simp: within_budget_def refill_def u32_saturating_add_def Let_def)

text \<open>The slot of a bucket that may not exist yet.\<close>

definition slot_ok :: "int \<Rightarrow> int \<Rightarrow> nat \<Rightarrow> int \<Rightarrow> nat \<Rightarrow> TokenBucket option \<Rightarrow> bool" where
  "slot_ok t0 m c r n slot \<longleftrightarrow> (case slot of None \<Rightarrow> n = 0
     | Some b \<Rightarrow> within_budget t0 m n b \<and> bucket_capacity b = c \<and> refillMs b = r)"

lemma slot_ok_simps [simp]:
  "slot_ok t0 m c r n None \<longleftrightarrow> n = 0"
  "slot_ok t0 m c r n (Some b) \<longleftrightarrow> within_budget t0 m n b \<and> bucket_capacity b = c \<and> refillMs b = r"
  by (simp_all add: slot_ok_def)

lemma slot_ok_or_insert:
  assumes "slot_ok t0 m c r n slot" "0 \<le> t0" "t0 \<le> now" "now \<le> m" "c \<le> u32_max" "1 \<le> r"
  shows "slot_ok t0 m c r n (Some (or_insert (bucket_new c r now) slot))"
  using assms bucket_new_budget [of t0 now m c r] by (cases slot) (simp_all add: or_insert_def bucket_new_def)

lemma slot_bound: "slot_ok t0 m c r n slot \<Longrightarrow> t0 \<le> m \<Longrightarrow> 1 \<le> r \<Longrightarrow> int n \<le> int c + (m - t0) div r"
  using budget_bound [of t0 m n] by (cases slot) (auto simp: pos_imp_zdiv_nonneg_iff)

lemma spend_cases:
  "spend now source global sb buckets =
     (if tokens (refill now sb) = 0 then (False, global, bm_insert source (refill now sb) buckets)
      else if tokens (refill now global) = 0 then (False, refill now global, bm_insert source (refill now sb) buckets)
      else (True, take_token now (refill now global), prune (bm_insert source (take_token now (refill now sb)) buckets)))"
  by (simp add: spend_def available_def Let_def)

definition clock_ok :: "int \<Rightarrow> int \<Rightarrow> int \<Rightarrow> bool" where
  "clock_ok t0 m now \<longleftrightarrow> 0 \<le> t0 \<and> t0 \<le> now \<and> now \<le> m \<and> now \<le> i64_max"

lemma slot_refill: "clock_ok t0 m now \<Longrightarrow> slot_ok t0 m c r n (Some b) \<Longrightarrow> slot_ok t0 m c r n (Some (refill now b))"
  by (simp add: refill_budget clock_ok_def)

lemma slot_take:
  assumes now: "clock_ok t0 m now" and b: "slot_ok t0 m c r n (Some b)" and pos: "tokens (refill now b) \<noteq> 0"
  shows "slot_ok t0 m c r (Suc n) (Some (take_token now (refill now b)))"
proof -
  from slot_refill [OF now b] have b: "slot_ok t0 m c r n (Some (refill now b))" .
  with pos refill_gains [of t0 m n "refill now b" now] have "0 < tokens (refill now (refill now b))" by simp
  with b now show ?thesis by (simp add: take_budget clock_ok_def)
qed

lemma spend_global:
  assumes "clock_ok t0 m now" "slot_ok t0 m c r n (Some global)" "spend now source global sb buckets = (ok, g, bs)"
  shows "slot_ok t0 m c r (if ok then Suc n else n) (Some g)"
  using assms(3) slot_refill [OF assms(1,2)] slot_take [OF assms(1,2)] assms(2)
  by (auto simp: spend_cases simp del: slot_ok_simps split: if_splits)

lemma spend_source:
  assumes "clock_ok t0 m now" "slot_ok t0 m c r n (Some sb)" "spend now source global sb buckets = (ok, g, bs)"
  obtains b where "slot_ok t0 m c r (if ok then Suc n else n) (Some b)"
    "bs = (if ok then prune (bm_insert source b buckets) else bm_insert source b buckets)"
proof (cases ok)
  case True
  with assms(3) have "tokens (refill now sb) \<noteq> 0" "bs = prune (bm_insert source (take_token now (refill now sb)) buckets)"
    by (auto simp: spend_cases split: if_splits)
  with True slot_take [OF assms(1,2)] show ?thesis by (intro that [of "take_token now (refill now sb)"]) simp_all
next
  case False
  with assms(3) have "bs = bm_insert source (refill now sb) buckets" by (auto simp: spend_cases split: if_splits)
  with False slot_refill [OF assms(1,2)] show ?thesis by (intro that [of "refill now sb"]) simp_all
qed

section \<open>Attempts in any order, from any sources\<close>

definition throttle_ok :: "int \<Rightarrow> int \<Rightarrow> nat \<Rightarrow> nat \<Rightarrow> PairingThrottle \<Rightarrow> bool" where
  "throttle_ok t0 m k l p \<longleftrightarrow>
     slot_ok t0 m CONFIRMATION_GLOBAL_CAPACITY CONFIRMATION_GLOBAL_REFILL_MS k (globalConfirmations p)
     \<and> slot_ok t0 m CREATION_GLOBAL_CAPACITY CREATION_GLOBAL_REFILL_MS l (globalCreations p)"

lemma limits_small: "CONFIRMATION_GLOBAL_CAPACITY \<le> u32_max" "CREATION_GLOBAL_CAPACITY \<le> u32_max"
  "CONFIRMATION_SOURCE_CAPACITY \<le> u32_max" "1 \<le> CONFIRMATION_GLOBAL_REFILL_MS" "1 \<le> CREATION_GLOBAL_REFILL_MS"
  "1 \<le> CONFIRMATION_SOURCE_REFILL_MS"
  by (simp_all add: throttle_limits u32_max_def)

lemma throttle_call_ok:
  assumes "clock_ok t0 m (call_time c)" "throttle_ok t0 m k l p" "throttle_call c p = (ok, q)"
  shows "throttle_ok t0 m (k + of_bool (ok \<and> is_Confirm c)) (l + of_bool (ok \<and> \<not> is_Confirm c)) q"
proof (cases c)
  case (Confirm source now)
  let ?g = "or_insert (bucket_new CONFIRMATION_GLOBAL_CAPACITY CONFIRMATION_GLOBAL_REFILL_MS now) (globalConfirmations p)"
  from Confirm assms(1,2) limits_small
  have g: "slot_ok t0 m CONFIRMATION_GLOBAL_CAPACITY CONFIRMATION_GLOBAL_REFILL_MS k (Some ?g)"
    by (intro slot_ok_or_insert) (simp_all add: throttle_ok_def clock_ok_def)
  from Confirm assms(3) obtain g sb bs where sp: "spend now source ?g sb (sourceConfirmations p) = (ok, g, bs)"
    and q: "q = p\<lparr>globalConfirmations := Some g, sourceConfirmations := bs\<rparr>"
    by (auto simp: allowConfirmation_def Let_def split: prod.splits)
  from spend_global [OF _ g sp] Confirm assms(1,2) q show ?thesis by (cases ok) (simp_all add: throttle_ok_def del: slot_ok_simps)
next
  case (Create source now)
  let ?g = "or_insert (bucket_new CREATION_GLOBAL_CAPACITY CREATION_GLOBAL_REFILL_MS now) (globalCreations p)"
  from Create assms(1,2) limits_small
  have g: "slot_ok t0 m CREATION_GLOBAL_CAPACITY CREATION_GLOBAL_REFILL_MS l (Some ?g)"
    by (intro slot_ok_or_insert) (simp_all add: throttle_ok_def clock_ok_def)
  from Create assms(3) obtain g sb bs where sp: "spend now source ?g sb (sourceCreations p) = (ok, g, bs)"
    and q: "q = p\<lparr>globalCreations := Some g, sourceCreations := bs\<rparr>"
    by (auto simp: allowCreation_def Let_def split: prod.splits)
  from spend_global [OF _ g sp] Create assms(1,2) q show ?thesis by (cases ok) (simp_all add: throttle_ok_def del: slot_ok_simps)
qed

lemma throttle_run_ok:
  "(\<And>c. c \<in> set cs \<Longrightarrow> clock_ok t0 m (call_time c)) \<Longrightarrow> throttle_ok t0 m k l p \<Longrightarrow> throttle_run cs p = (allowed, q) \<Longrightarrow>
     throttle_ok t0 m (k + length (filter is_Confirm allowed)) (l + length (filter (\<lambda>c. \<not> is_Confirm c) allowed)) q"
proof (induction cs arbitrary: k l p allowed)
  case Nil
  then show ?case by simp
next
  case (Cons c cs)
  obtain ok r where r: "throttle_call c p = (ok, r)" by fastforce
  obtain more where more: "throttle_run cs r = (more, q)" "allowed = (if ok then c # more else more)"
    using Cons.prems(3) r by (auto split: prod.splits)
  from Cons.prems(1,2) r have "throttle_ok t0 m (k + of_bool (ok \<and> is_Confirm c)) (l + of_bool (ok \<and> \<not> is_Confirm c)) r"
    by (intro throttle_call_ok [of t0 m c]) simp_all
  from Cons.IH [OF _ this more(1)] Cons.prems(1) more(2) show ?case by (cases ok; cases "is_Confirm c") simp_all
qed

text \<open>C31: Whatever the sources and however the attempts are ordered or the clock jumps within an interval,
  the confirmations that are let through are at most ten and one for every whole hour of the interval, and
  the new pairings at most six and one for every whole minute: rotating sources or sessions does not help
  to guess a code.\<close>

theorem pairing_budget:
  assumes "\<And>c. c \<in> set cs \<Longrightarrow> t0 \<le> call_time c \<and> call_time c \<le> m" "0 \<le> t0" "t0 \<le> m" "m \<le> i64_max"
    and "throttle_run cs throttle_default = (allowed, p)"
  shows "int (length (filter is_Confirm allowed)) \<le> 10 + (m - t0) div 3600000
    \<and> int (length (filter (\<lambda>c. \<not> is_Confirm c) allowed)) \<le> 6 + (m - t0) div 60000"
proof -
  have "throttle_ok t0 m 0 0 throttle_default" by (simp add: throttle_ok_def throttle_default_def)
  from throttle_run_ok [OF _ this assms(5)] assms(1-4)
  have "throttle_ok t0 m (length (filter is_Confirm allowed)) (length (filter (\<lambda>c. \<not> is_Confirm c) allowed)) p"
    by (force simp: clock_ok_def)
  then show ?thesis using assms(3) slot_bound limits_small by (fastforce simp: throttle_ok_def throttle_limits simp del: slot_ok_simps)
qed

definition rotating :: "nat \<Rightarrow> pairing_call list" where
  "rotating n = map (\<lambda>i. Confirm (replicate i CHR ''x'') 7) [0..<n]"

theorem pairing_budget_witness:
  "\<exists>allowed p. throttle_run (rotating 12) throttle_default = (allowed, p)
    \<and> int (length (filter is_Confirm allowed)) \<le> 10 + (7 - 0) div 3600000 \<and> length allowed = 10"
proof -
  let ?r = "throttle_run (rotating 12) throttle_default"
  have "length (fst ?r) = 10" by code_simp
  moreover have "\<And>c. c \<in> set (rotating 12) \<Longrightarrow> 0 \<le> call_time c \<and> call_time c \<le> 7" by (auto simp: rotating_def)
  ultimately show ?thesis using pairing_budget [of "rotating 12" 0 7 "fst ?r" "snd ?r"]
    by (intro exI [of _ "fst ?r"] exI [of _ "snd ?r"]) (simp add: i64_max_def)
qed

section \<open>One source\<close>

definition from_source :: "string \<Rightarrow> pairing_call list \<Rightarrow> nat" where
  "from_source s cs = length (filter (\<lambda>c. is_Confirm c \<and> call_source c = s) cs)"

definition sources_ok :: "int \<Rightarrow> int \<Rightarrow> string set \<Rightarrow> (string \<Rightarrow> nat) \<Rightarrow> (string, TokenBucket) bmap \<Rightarrow> bool" where
  "sources_ok t0 m S n buckets \<longleftrightarrow> bm_wf buckets \<and> fst ` set buckets \<subseteq> S
     \<and> (\<forall>s. slot_ok t0 m CONFIRMATION_SOURCE_CAPACITY CONFIRMATION_SOURCE_REFILL_MS (n s) (map_of buckets s))"

lemma prune_small: "length buckets \<le> MAX_SOURCE_BUCKETS \<Longrightarrow> prune buckets = buckets"
  by (simp add: prune_def)

lemma spend_sources:
  assumes now: "clock_ok t0 m now" and S: "finite S" "card S \<le> MAX_SOURCE_BUCKETS" "source \<in> S"
    and ok: "sources_ok t0 m S n buckets"
    and sp: "spend now source global (or_insert (bucket_new CONFIRMATION_SOURCE_CAPACITY CONFIRMATION_SOURCE_REFILL_MS now)
      (map_of buckets source)) buckets = (won, g, bs)"
  shows "sources_ok t0 m S (n(source := n source + of_bool won)) bs"
proof -
  from ok now limits_small have "slot_ok t0 m CONFIRMATION_SOURCE_CAPACITY CONFIRMATION_SOURCE_REFILL_MS (n source)
      (Some (or_insert (bucket_new CONFIRMATION_SOURCE_CAPACITY CONFIRMATION_SOURCE_REFILL_MS now) (map_of buckets source)))"
    by (intro slot_ok_or_insert) (simp_all add: sources_ok_def clock_ok_def)
  from spend_source [OF now this sp] obtain b
    where b: "slot_ok t0 m CONFIRMATION_SOURCE_CAPACITY CONFIRMATION_SOURCE_REFILL_MS (if won then Suc (n source) else n source) (Some b)"
      and bs: "bs = (if won then prune (bm_insert source b buckets) else bm_insert source b buckets)" .
  from ok S have wf: "bm_wf (bm_insert source b buckets)" "fst ` set (bm_insert source b buckets) \<subseteq> S"
    by (simp_all add: sources_ok_def)
  with S(1,2) have "length (bm_insert source b buckets) \<le> MAX_SOURCE_BUCKETS"
    by (metis bm_length_card card_mono le_trans)
  with bs have "bs = bm_insert source b buckets" by (simp add: prune_small)
  with wf ok b show ?thesis by (cases won) (simp_all add: sources_ok_def del: slot_ok_simps)
qed

lemma throttle_run_sources:
  "(\<And>c. c \<in> set cs \<Longrightarrow> clock_ok t0 m (call_time c) \<and> call_source c \<in> S) \<Longrightarrow> finite S \<Longrightarrow> card S \<le> MAX_SOURCE_BUCKETS \<Longrightarrow>
     sources_ok t0 m S n (sourceConfirmations p) \<Longrightarrow> throttle_run cs p = (allowed, q) \<Longrightarrow>
     sources_ok t0 m S (\<lambda>s. n s + from_source s allowed) (sourceConfirmations q)"
proof (induction cs arbitrary: n p allowed)
  case Nil
  then show ?case by (simp add: from_source_def)
next
  case (Cons c cs)
  obtain ok r where r: "throttle_call c p = (ok, r)" by fastforce
  obtain more where more: "throttle_run cs r = (more, q)" "allowed = (if ok then c # more else more)"
    using Cons.prems(5) r by (auto split: prod.splits)
  let ?n = "if is_Confirm c then n(call_source c := n (call_source c) + of_bool ok) else n"
  have "sources_ok t0 m S ?n (sourceConfirmations r)"
  proof (cases c)
    case (Confirm source now)
    with Cons.prems(1) [of c] have src: "clock_ok t0 m now" "source \<in> S" by simp_all
    from Confirm r obtain g global where
      "spend now source global (or_insert (bucket_new CONFIRMATION_SOURCE_CAPACITY CONFIRMATION_SOURCE_REFILL_MS now)
        (map_of (sourceConfirmations p) source)) (sourceConfirmations p) = (ok, g, sourceConfirmations r)"
      by (auto simp: allowConfirmation_def Let_def split: prod.splits)
    from spend_sources [OF src(1) Cons.prems(2,3) src(2) Cons.prems(4) this] Confirm show ?thesis by simp
  next
    case (Create source now)
    with r Cons.prems(4) show ?thesis by (auto simp: allowCreation_def Let_def split: prod.splits)
  qed
  from Cons.IH [OF _ Cons.prems(2,3) this more(1)] Cons.prems(1)
  have "sources_ok t0 m S (\<lambda>s. ?n s + from_source s more) (sourceConfirmations q)" by simp
  moreover have "(\<lambda>s. ?n s + from_source s more) = (\<lambda>s. n s + from_source s allowed)"
    using more(2) by (auto simp: from_source_def fun_eq_iff)
  ultimately show ?case by simp
qed

text \<open>As long as at most 512 sources take part, each of them has five confirmations and one more for every
  whole ten minutes.\<close>

theorem source_budget:
  assumes "\<And>c. c \<in> set cs \<Longrightarrow> t0 \<le> call_time c \<and> call_time c \<le> m" "0 \<le> t0" "t0 \<le> m" "m \<le> i64_max"
    and "card (call_source ` set cs) \<le> 512" and "throttle_run cs throttle_default = (allowed, p)"
  shows "int (from_source s allowed) \<le> 5 + (m - t0) div 600000"
proof -
  have "sources_ok t0 m (call_source ` set cs) (\<lambda>_. 0) (sourceConfirmations throttle_default)"
    by (simp add: sources_ok_def throttle_default_def)
  from throttle_run_sources [OF _ _ _ this assms(6)] assms(1-5)
  have "sources_ok t0 m (call_source ` set cs) (\<lambda>s. 0 + from_source s allowed) (sourceConfirmations p)"
    by (force simp: clock_ok_def MAX_SOURCE_BUCKETS_def)
  then have "slot_ok t0 m CONFIRMATION_SOURCE_CAPACITY CONFIRMATION_SOURCE_REFILL_MS (from_source s allowed)
      (map_of (sourceConfirmations p) s)"
    by (simp add: sources_ok_def del: slot_ok_simps)
  from slot_bound [OF this assms(3) limits_small(6)] show ?thesis by (simp add: throttle_limits)
qed

section \<open>Memory under rotating sources\<close>

text \<open>A denied attempt returns before \<open>prune\<close>: once the budget of all sources is used up, every new source
  leaves one more bucket, and their number is not bounded by \<open>MAX_SOURCE_BUCKETS\<close>.\<close>

lemma denied_source_kept:
  assumes "globalConfirmations p = Some g" "tokens (refill now g) = 0" "map_of (sourceConfirmations p) source = None"
    "allowConfirmation source now p = (ok, q)" "bm_wf (sourceConfirmations p)"
  shows "\<not> ok \<and> globalConfirmations q = Some (refill now g) \<and> bm_wf (sourceConfirmations q)
    \<and> fst ` set (sourceConfirmations q) = insert source (fst ` set (sourceConfirmations p))"
proof -
  have "tokens (refill now (bucket_new CONFIRMATION_SOURCE_CAPACITY CONFIRMATION_SOURCE_REFILL_MS now)) \<noteq> 0"
    using refill_backwards [of "bucket_new CONFIRMATION_SOURCE_CAPACITY CONFIRMATION_SOURCE_REFILL_MS now" now]
    by (simp add: bucket_new_def throttle_limits)
  with assms(1-4) have "ok = False" "q = p\<lparr>globalConfirmations := Some (refill now g), sourceConfirmations := bm_insert source
      (refill now (bucket_new CONFIRMATION_SOURCE_CAPACITY CONFIRMATION_SOURCE_REFILL_MS now)) (sourceConfirmations p)\<rparr>"
    by (auto simp: allowConfirmation_def or_insert_def spend_cases Let_def)
  with assms(5) show ?thesis by simp
qed

lemma throttle_run_append:
  "snd (throttle_run (cs @ ds) p) = snd (throttle_run ds (snd (throttle_run cs p)))"
  by (induction cs arbitrary: p) (simp_all add: case_prod_unfold Let_def)

text \<open>A global bucket that is empty at time \<open>now\<close>, beside \<open>n\<close> sources.\<close>

definition exhausted :: "int \<Rightarrow> string set \<Rightarrow> PairingThrottle \<Rightarrow> bool" where
  "exhausted now S p \<longleftrightarrow> (\<exists>g. globalConfirmations p = Some g \<and> tokens g = 0 \<and> refill now g = g)
     \<and> bm_wf (sourceConfirmations p) \<and> fst ` set (sourceConfirmations p) = S"

lemma exhausted_step:
  assumes "exhausted now S p" "source \<notin> S"
  shows "exhausted now (insert source S) (snd (throttle_call (Confirm source now) p))"
proof -
  from assms obtain g where g: "globalConfirmations p = Some g" "tokens (refill now g) = 0" "refill now g = g"
    by (auto simp: exhausted_def)
  from assms have "map_of (sourceConfirmations p) source = None" by (simp add: exhausted_def map_of_eq_None_iff)
  from denied_source_kept [OF g(1,2) this, of "fst (allowConfirmation source now p)" "snd (allowConfirmation source now p)"] assms g
  show ?thesis by (simp add: exhausted_def)
qed

lemma exhausted_run:
  "exhausted now S p \<Longrightarrow> distinct ss \<Longrightarrow> set ss \<inter> S = {} \<Longrightarrow>
     exhausted now (S \<union> set ss) (snd (throttle_run (map (\<lambda>s. Confirm s now) ss) p))"
proof (induction ss arbitrary: S p)
  case Nil
  then show ?case by simp
next
  case (Cons s ss)
  from Cons.prems have "exhausted now (insert s S) (snd (throttle_call (Confirm s now) p))" by (intro exhausted_step) auto
  from Cons.IH [OF this] Cons.prems show ?case by (auto simp: case_prod_unfold Let_def insert_commute)
qed

theorem rotating_sources_unbounded:
  assumes "10 \<le> n"
  shows "length (sourceConfirmations (snd (throttle_run (rotating n) throttle_default))) = n"
proof -
  let ?name = "\<lambda>i. replicate i CHR ''x''" and ?p = "snd (throttle_run (rotating 10) throttle_default)"
  have inj: "inj_on ?name A" for A by (rule inj_onI) (metis length_replicate)
  have "globalConfirmations ?p = Some \<lparr>tokens = 0, bucket_capacity = 10, refillMs = 3600000, lastRefill = 7\<rparr>" by code_simp
  moreover have "map fst (sourceConfirmations ?p) = map ?name [0..<10]" by code_simp
  moreover have "bm_wf (sourceConfirmations ?p)" unfolding bm_wf_def by code_simp
  ultimately have "exhausted 7 (set (map ?name [0..<10])) ?p"
    by (auto simp: exhausted_def refill_def i64_saturating_sub_def i64_min_def i64_max_def simp flip: list.set_map)
  then have "exhausted 7 (set (map ?name [0..<10]) \<union> set (map ?name [10..<n]))
      (snd (throttle_run (map (\<lambda>s. Confirm s 7) (map ?name [10..<n])) ?p))"
    using inj by (intro exhausted_run) (auto simp: distinct_map)
  also have "set (map ?name [0..<10]) \<union> set (map ?name [10..<n]) = ?name ` {..<n}" using assms by force
  also have "snd (throttle_run (map (\<lambda>s. Confirm s 7) (map ?name [10..<n])) ?p) = snd (throttle_run (rotating n) throttle_default)"
    using assms upt_add_eq_append [of 0 10 "n - 10"]
    by (simp add: rotating_def comp_def flip: throttle_run_append)
  finally show ?thesis using card_image [OF inj [of "{..<n}"]] by (simp add: exhausted_def bm_length_card)
qed

end
