(* ===== verification/Link_Session.thy ===== *)
theory Link_Session
  imports Ordered_Map
begin

text \<open>
  One admitted connection of the Link protocol (\<open>foundation/link/src/session.rs\<close>): the watches and the input
  streams it has open, the dispatch of requests and the fair delivery of watch events.  The client behind
  the session is a parameter; a panic inside it or inside a stream is the outcome \<open>Panicked\<close>, which
  \<open>isolation.rs\<close> turns into an error of that operation.
\<close>

section \<open>Requests and responses\<close>

record 'v CoreLinkError =
  err_code :: string
  err_message :: string
  err_details :: "'v option"
  err_location :: "(string \<times> nat \<times> nat) option"
  err_backtrace :: "string option"

definition link_error :: "string \<Rightarrow> string \<Rightarrow> 'v CoreLinkError" where
  "link_error c m = \<lparr>err_code = c, err_message = m, err_details = None, err_location = None, err_backtrace = None\<rparr>"

type_synonym ('v, 'a) reply = "'v CoreLinkError + 'a"

record 'v CoreCallRequest =
  call_requestId :: string
  call_target :: string
  call_methodName :: string
  call_args :: 'v

record 'v CoreWatchRequest =
  watch_requestId :: string
  watch_target :: string
  watch_propertyName :: string
  watch_args :: 'v

record 'v CorePushRequest =
  push_requestId :: string
  push_target :: string
  push_methodName :: string
  push_args :: 'v

record 'v CorePushItem =
  item_pushId :: string
  item_sequence :: nat
  item_args :: 'v

datatype 'v CoreLinkWatchRequest = WatchSnapshot "'v CoreWatchRequest" | WatchOpen "'v CoreWatchRequest" | WatchClose string

datatype 'v CoreLinkPushRequestMessage = PushOpen "'v CorePushRequest" | PushItem "'v CorePushItem" | PushClose string

datatype 'v CoreLinkRequest = CallRequest "'v CoreCallRequest" | WatchRequest "'v CoreLinkWatchRequest"
  | PushRequest "'v CoreLinkPushRequestMessage"

record 'v CoreCallResponse =
  response_requestId :: string
  response_result :: "('v, 'v) reply"

datatype 'e CoreLinkWatchResponse = SnapshotTaken 'e | WatchOpened | WatchEvent 'e | WatchClosed

datatype CoreLinkPushResponse = PushOpened | ItemAccepted nat | PushClosed

datatype ('v, 'e) CoreLinkResponse = CallResponse "'v CoreCallResponse"
  | WatchResponse string "('v, 'e CoreLinkWatchResponse) reply"
  | PushResponse string "('v, CoreLinkPushResponse) reply"

section \<open>Isolation\<close>

datatype 'a outcome = Done 'a | Panicked string

definition panicError :: "string \<Rightarrow> string \<Rightarrow> 'v CoreLinkError" where
  "panicError context message = link_error ''LINK_OPERATION_PANIC'' (context @ '': '' @ message)"

text \<open>\<open>future\<close> flattens the error of the operation with the panic, \<open>polling\<close> wraps a plain value.\<close>

definition isolated :: "string \<Rightarrow> ('v, 'a) reply outcome \<Rightarrow> ('v, 'a) reply" where
  "isolated context r = (case r of Done x \<Rightarrow> x | Panicked m \<Rightarrow> Inl (panicError context m))"

definition isolation_polling :: "string \<Rightarrow> 'a outcome \<Rightarrow> ('v, 'a) reply" where
  "isolation_polling context r = (case r of Done x \<Rightarrow> Inr x | Panicked m \<Rightarrow> Inl (panicError context m))"

section \<open>Event streams\<close>

text \<open>The queue of a receiver, as what the mapping of the source makes of each item: an event, the end of
  the stream, or a panic.  \<open>es_open\<close> says that a sender is alive, \<open>es_ended\<close> that the mapping has ended.\<close>

datatype 'e queued_item = Deliver 'e | EndOfSource | MapPanic string

record 'e CoreEventStream =
  es_queue :: "'e queued_item list"
  es_open :: bool
  es_ended :: bool

datatype 'e polled = Pending | Ready "'e option"

definition poll_recv :: "'e CoreEventStream \<Rightarrow> 'e polled outcome \<times> 'e CoreEventStream" where
  "poll_recv r =
     (if es_ended r then (Done (Ready None), r)
      else case es_queue r of
        [] \<Rightarrow> if es_open r then (Done Pending, r) else (Done (Ready None), r\<lparr>es_ended := True\<rparr>)
      | Deliver e # q \<Rightarrow> (Done (Ready (Some e)), r\<lparr>es_queue := q\<rparr>)
      | EndOfSource # q \<Rightarrow> (Done (Ready None), r\<lparr>es_queue := q, es_ended := True\<rparr>)
      | MapPanic m # q \<Rightarrow> (Panicked m, r\<lparr>es_queue := q\<rparr>))"

datatype TryRecvError = Empty | Disconnected

definition try_recv :: "'e CoreEventStream \<Rightarrow> (TryRecvError + 'e) outcome \<times> 'e CoreEventStream" where
  "try_recv r =
     (if es_ended r then (Done (Inl Disconnected), r)
      else case es_queue r of
        [] \<Rightarrow> (Done (Inl (if es_open r then Empty else Disconnected)), r)
      | Deliver e # q \<Rightarrow> (Done (Inr e), r\<lparr>es_queue := q\<rparr>)
      | EndOfSource # q \<Rightarrow> (Done (Inl Disconnected), r\<lparr>es_queue := q, es_ended := True\<rparr>)
      | MapPanic m # q \<Rightarrow> (Panicked m, r\<lparr>es_queue := q\<rparr>))"

definition pendingCount :: "'e CoreEventStream \<Rightarrow> nat" where
  "pendingCount r = (if es_ended r then 0 else length (es_queue r))"

section \<open>The session\<close>

text \<open>The trait \<open>CoreLinkClient\<close>, over a state of its own, and the trait \<open>CoreLinkPushSession\<close> of an open
  input stream.\<close>

record ('c, 'v, 'e, 'p) link_client =
  cl_call :: "'v CoreCallRequest \<Rightarrow> 'c \<Rightarrow> 'v CoreCallResponse outcome \<times> 'c"
  cl_watchSnapshot :: "'v CoreWatchRequest \<Rightarrow> 'c \<Rightarrow> ('v, 'e) reply outcome \<times> 'c"
  cl_watch :: "'v CoreWatchRequest \<Rightarrow> 'c \<Rightarrow> ('v, 'e CoreEventStream) reply outcome \<times> 'c"
  cl_openPush :: "'v CorePushRequest \<Rightarrow> 'c \<Rightarrow> ('v, 'p) reply outcome \<times> 'c"
  cl_send :: "'v \<Rightarrow> 'p \<Rightarrow> 'c \<Rightarrow> ('v, unit) reply outcome \<times> 'p \<times> 'c"
  cl_close :: "'p \<Rightarrow> 'c \<Rightarrow> ('v, unit) reply outcome \<times> 'c"

record 'p Push =
  push_session :: 'p
  nextSequence :: nat

record ('c, 'e, 'p) CoreLinkSession =
  client :: 'c
  watches :: "(string, 'e CoreEventStream) bmap"
  pushes :: "(string, 'p Push) bmap"
  maxStreams :: nat
  lastWatch :: "string option"

definition link_session_new :: "'c \<Rightarrow> nat \<Rightarrow> ('c, 'e, 'p) CoreLinkSession" where
  "link_session_new c n = \<lparr>client = c, watches = [], pushes = [], maxStreams = n, lastWatch = None\<rparr>"

definition ensureCapacity :: "('c, 'e, 'p) CoreLinkSession \<Rightarrow> ('v, unit) reply" where
  "ensureCapacity s =
     (if maxStreams s \<le> length (watches s) + length (pushes s)
      then Inl (link_error ''LINK_STREAM_LIMIT'' ''Connection stream limit reached'') else Inr ())"

definition dispatch_call :: "('c, 'v, 'e, 'p) link_client \<Rightarrow> 'v CoreCallRequest \<Rightarrow> ('c, 'e, 'p) CoreLinkSession
    \<Rightarrow> ('v, 'e) CoreLinkResponse \<times> ('c, 'e, 'p) CoreLinkSession" where
  "dispatch_call cl r s =
     (let context = ''Link call '' @ call_target r @ ''::'' @ call_methodName r @ '' ['' @ call_requestId r @ '']'';
          (out, c) = cl_call cl r (client s)
      in (CallResponse (case out of Done resp \<Rightarrow> resp
            | Panicked m \<Rightarrow> \<lparr>response_requestId = call_requestId r, response_result = Inl (panicError context m)\<rparr>),
          s\<lparr>client := c\<rparr>))"

definition watch_snapshot :: "('c, 'v, 'e, 'p) link_client \<Rightarrow> 'v CoreWatchRequest \<Rightarrow> ('c, 'e, 'p) CoreLinkSession
    \<Rightarrow> ('v, 'e CoreLinkWatchResponse) reply \<times> ('c, 'e, 'p) CoreLinkSession" where
  "watch_snapshot cl r s =
     (let (out, c) = cl_watchSnapshot cl r (client s)
      in (map_sum id SnapshotTaken (isolated (''Link watch snapshot '' @ watch_requestId r) out), s\<lparr>client := c\<rparr>))"

definition watch_open :: "('c, 'v, 'e, 'p) link_client \<Rightarrow> 'v CoreWatchRequest \<Rightarrow> ('c, 'e, 'p) CoreLinkSession
    \<Rightarrow> ('v, 'e CoreLinkWatchResponse) reply \<times> ('c, 'e, 'p) CoreLinkSession" where
  "watch_open cl r s =
     (if bm_mem (watches s) (watch_requestId r)
      then (Inl (link_error ''LINK_DUPLICATE_WATCH'' ''Watch id is already open''), s)
      else case ensureCapacity s of
        Inl e \<Rightarrow> (Inl e, s)
      | Inr _ \<Rightarrow>
          (let (out, c) = cl_watch cl r (client s)
           in case isolated (''Link watch open '' @ watch_requestId r) out of
                Inl e \<Rightarrow> (Inl e, s\<lparr>client := c\<rparr>)
              | Inr stream \<Rightarrow> (Inr WatchOpened,
                  s\<lparr>client := c, watches := bm_insert (watch_requestId r) stream (watches s)\<rparr>)))"

fun dispatch_watch :: "('c, 'v, 'e, 'p) link_client \<Rightarrow> 'v CoreLinkWatchRequest \<Rightarrow> ('c, 'e, 'p) CoreLinkSession
    \<Rightarrow> ('v, 'e) CoreLinkResponse \<times> ('c, 'e, 'p) CoreLinkSession" where
  "dispatch_watch cl (WatchSnapshot r) s = apfst (WatchResponse (watch_requestId r)) (watch_snapshot cl r s)"
| "dispatch_watch cl (WatchOpen r) s = apfst (WatchResponse (watch_requestId r)) (watch_open cl r s)"
| "dispatch_watch cl (WatchClose i) s = (WatchResponse i (Inr WatchClosed), s\<lparr>watches := bm_remove i (watches s)\<rparr>)"

definition push_open :: "('c, 'v, 'e, 'p) link_client \<Rightarrow> 'v CorePushRequest \<Rightarrow> ('c, 'e, 'p) CoreLinkSession
    \<Rightarrow> ('v, CoreLinkPushResponse) reply \<times> ('c, 'e, 'p) CoreLinkSession" where
  "push_open cl r s =
     (if bm_mem (pushes s) (push_requestId r)
      then (Inl (link_error ''LINK_DUPLICATE_PUSH'' ''Push id is already open''), s)
      else case ensureCapacity s of
        Inl e \<Rightarrow> (Inl e, s)
      | Inr _ \<Rightarrow>
          (let (out, c) = cl_openPush cl r (client s)
           in case isolated (''Link push open '' @ push_requestId r) out of
                Inl e \<Rightarrow> (Inl e, s\<lparr>client := c\<rparr>)
              | Inr p \<Rightarrow> (Inr PushOpened,
                  s\<lparr>client := c, pushes := bm_insert (push_requestId r) \<lparr>push_session = p, nextSequence = 0\<rparr> (pushes s)\<rparr>)))"

definition push_item :: "('c, 'v, 'e, 'p) link_client \<Rightarrow> 'v CorePushItem \<Rightarrow> ('c, 'e, 'p) CoreLinkSession
    \<Rightarrow> ('v, CoreLinkPushResponse) reply \<times> ('c, 'e, 'p) CoreLinkSession" where
  "push_item cl item s =
     (case map_of (pushes s) (item_pushId item) of
        None \<Rightarrow> (Inl (link_error ''LINK_PUSH_NOT_FOUND'' ''Push is not open''), s)
      | Some p \<Rightarrow>
          if item_sequence item \<noteq> nextSequence p
          then (Inl (link_error ''LINK_PUSH_SEQUENCE'' ''Push item is out of order''), s)
          else if nextSequence p + 1 \<ge> 2 ^ 64
          then (Inl (link_error ''LINK_PUSH_SEQUENCE'' ''Push sequence exhausted''), s)
          else
            let (out, h, c) = cl_send cl (item_args item) (push_session p) (client s)
            in case isolated (''Link push item '' @ item_pushId item @ '' sequence '' @ decimal (item_sequence item)) out of
                 Inr _ \<Rightarrow> (Inr (ItemAccepted (item_sequence item)),
                   s\<lparr>client := c, pushes := bm_set (item_pushId item) \<lparr>push_session = h, nextSequence = nextSequence p + 1\<rparr> (pushes s)\<rparr>)
               | Inl e \<Rightarrow> (Inl e, s\<lparr>client := c, pushes := bm_remove (item_pushId item) (pushes s)\<rparr>))"

definition push_close :: "('c, 'v, 'e, 'p) link_client \<Rightarrow> string \<Rightarrow> ('c, 'e, 'p) CoreLinkSession
    \<Rightarrow> ('v, CoreLinkPushResponse) reply \<times> ('c, 'e, 'p) CoreLinkSession" where
  "push_close cl i s =
     (case map_of (pushes s) i of
        None \<Rightarrow> (Inl (link_error ''LINK_PUSH_NOT_FOUND'' ''Push is not open''), s)
      | Some p \<Rightarrow>
          let (out, c) = cl_close cl (push_session p) (client s)
          in (map_sum id (\<lambda>_. PushClosed) (isolated (''Link push close '' @ i) out),
              s\<lparr>client := c, pushes := bm_remove i (pushes s)\<rparr>))"

fun dispatch_push :: "('c, 'v, 'e, 'p) link_client \<Rightarrow> 'v CoreLinkPushRequestMessage \<Rightarrow> ('c, 'e, 'p) CoreLinkSession
    \<Rightarrow> ('v, 'e) CoreLinkResponse \<times> ('c, 'e, 'p) CoreLinkSession" where
  "dispatch_push cl (PushOpen r) s = apfst (PushResponse (push_requestId r)) (push_open cl r s)"
| "dispatch_push cl (PushItem it) s = apfst (PushResponse (item_pushId it)) (push_item cl it s)"
| "dispatch_push cl (PushClose i) s = apfst (PushResponse i) (push_close cl i s)"

fun dispatch :: "('c, 'v, 'e, 'p) link_client \<Rightarrow> 'v CoreLinkRequest \<Rightarrow> ('c, 'e, 'p) CoreLinkSession
    \<Rightarrow> ('v, 'e) CoreLinkResponse \<times> ('c, 'e, 'p) CoreLinkSession" where
  "dispatch cl (CallRequest r) s = dispatch_call cl r s"
| "dispatch cl (WatchRequest r) s = dispatch_watch cl r s"
| "dispatch cl (PushRequest r) s = dispatch_push cl r s"

section \<open>Delivery of events\<close>

text \<open>One round over the watches in the order given: the first that is ready answers; the streams before
  it are only looked at.\<close>

fun poll_round :: "string list \<Rightarrow> (string, 'e CoreEventStream) bmap
    \<Rightarrow> (string \<times> ('v, 'e option) reply) option \<times> (string, 'e CoreEventStream) bmap" where
  "poll_round [] ws = (None, ws)"
| "poll_round (i # is) ws =
     (case map_of ws i of
        None \<Rightarrow> poll_round is ws
      | Some r \<Rightarrow>
          (let (out, r') = poll_recv r; ws' = bm_set i r' ws
           in case isolation_polling (''Link watch '' @ i @ '' event'') out of
                Inl e \<Rightarrow> (Some (i, Inl e), ws')
              | Inr (Ready ev) \<Rightarrow> (Some (i, Inr ev), ws')
              | Inr Pending \<Rightarrow> poll_round is ws'))"

definition poll_order :: "string option \<Rightarrow> string list \<Rightarrow> string list" where
  "poll_order lst keys = (case lst of None \<Rightarrow> keys
     | Some l \<Rightarrow> filter (\<lambda>i. l < i) keys @ filter (\<lambda>i. i \<le> l) keys)"

text \<open>\<open>nextWatchEvent\<close> waits while every stream is pending: \<open>Waiting\<close>.\<close>

datatype 'a awaited = NoWatches | Waiting | Got 'a

definition nextWatchEvent :: "('c, 'e, 'p) CoreLinkSession \<Rightarrow> ('v, 'e) CoreLinkResponse awaited \<times> ('c, 'e, 'p) CoreLinkSession" where
  "nextWatchEvent s =
     (if watches s = [] then (NoWatches, s)
      else case poll_round (poll_order (lastWatch s) (map fst (watches s))) (watches s) of
        (None, ws) \<Rightarrow> (Waiting, s\<lparr>watches := ws\<rparr>)
      | (Some (i, event), ws) \<Rightarrow>
          (let s' = s\<lparr>watches := ws, lastWatch := Some i\<rparr>
           in case event of
                Inl e \<Rightarrow> (Got (WatchResponse i (Inl e)), s'\<lparr>watches := bm_remove i ws\<rparr>)
              | Inr (Some ev) \<Rightarrow> (Got (WatchResponse i (Inr (WatchEvent ev))), s')
              | Inr None \<Rightarrow> (Got (WatchResponse i (Inr WatchClosed)), s'\<lparr>watches := bm_remove i ws\<rparr>)))"

text \<open>The loop of \<open>nextWatchBatch\<close> over one stream, at most \<open>n\<close> times: what it reports, and the stream when
  it is retained.  \<open>debug\<close> is the debug text of an identifier.\<close>

fun drain_stream :: "(string \<Rightarrow> string) \<Rightarrow> string \<Rightarrow> nat \<Rightarrow> 'e CoreEventStream
    \<Rightarrow> ('v, 'e) CoreLinkResponse list \<times> 'e CoreEventStream option" where
  "drain_stream debug i 0 r = ([], Some r)"
| "drain_stream debug i (Suc n) r =
     (case try_recv r of
        (Panicked m, r') \<Rightarrow> ([WatchResponse i (Inl (panicError (''Link watch '' @ debug i @ '' event'') m))], None)
      | (Done (Inl Empty), r') \<Rightarrow> ([], Some r')
      | (Done (Inl Disconnected), r') \<Rightarrow> ([WatchResponse i (Inr WatchClosed)], None)
      | (Done (Inr ev), r') \<Rightarrow> apfst ((#) (WatchResponse i (Inr (WatchEvent ev)))) (drain_stream debug i n r'))"

fun drain_all :: "(string \<Rightarrow> string) \<Rightarrow> (string, 'e CoreEventStream) bmap
    \<Rightarrow> ('v, 'e) CoreLinkResponse list \<times> (string, 'e CoreEventStream) bmap" where
  "drain_all debug [] = ([], [])"
| "drain_all debug ((i, r) # ws) =
     (let (out, kept) = drain_stream debug i (pendingCount r + 1) r; (outs, rest) = drain_all debug ws
      in (out @ outs, (case kept of None \<Rightarrow> rest | Some r' \<Rightarrow> (i, r') # rest)))"

definition nextWatchBatch :: "(string \<Rightarrow> string) \<Rightarrow> ('c, 'e, 'p) CoreLinkSession
    \<Rightarrow> ('v, 'e) CoreLinkResponse list awaited \<times> ('c, 'e, 'p) CoreLinkSession" where
  "nextWatchBatch debug s =
     (case nextWatchEvent s of
        (NoWatches, s) \<Rightarrow> (NoWatches, s)
      | (Waiting, s) \<Rightarrow> (Waiting, s)
      | (Got first, s) \<Rightarrow>
          (let (rest, ws) = drain_all debug (watches s) in (Got (first # rest), s\<lparr>watches := ws\<rparr>)))"

section \<open>The stream limit\<close>

definition session_ok :: "('c, 'e, 'p) CoreLinkSession \<Rightarrow> bool" where
  "session_ok s \<longleftrightarrow> bm_wf (watches s) \<and> bm_wf (pushes s) \<and> length (watches s) + length (pushes s) \<le> maxStreams s"

lemma ensureCapacity_Inr [simp]: "ensureCapacity s = Inr u \<longleftrightarrow> length (watches s) + length (pushes s) < maxStreams s"
  by (auto simp: ensureCapacity_def)

lemma length_bm_set [simp]: "length (bm_set k v m) = length m"
  by (metis fst_bm_set length_map)

lemma session_ok_simps [simp]:
  "session_ok (s\<lparr>client := c\<rparr>) = session_ok s"
  "session_ok (s\<lparr>lastWatch := l\<rparr>) = session_ok s"
  by (simp_all add: session_ok_def)

lemma ok_watches_remove: "session_ok s \<Longrightarrow> session_ok (s\<lparr>watches := bm_remove i (watches s)\<rparr>)"
  using length_bm_remove [of i "watches s"] by (simp add: session_ok_def)

lemma ok_pushes_remove: "session_ok s \<Longrightarrow> session_ok (s\<lparr>client := c, pushes := bm_remove i (pushes s)\<rparr>)"
  using length_bm_remove [of i "pushes s"] by (simp add: session_ok_def)

lemma ok_pushes_set: "session_ok s \<Longrightarrow> session_ok (s\<lparr>client := c, pushes := bm_set i p (pushes s)\<rparr>)"
  by (simp add: session_ok_def)

lemma ok_watches_insert:
  "session_ok s \<Longrightarrow> \<not> bm_mem (watches s) i \<Longrightarrow> length (watches s) + length (pushes s) < maxStreams s \<Longrightarrow>
     session_ok (s\<lparr>client := c, watches := bm_insert i r (watches s)\<rparr>)"
  by (simp add: session_ok_def length_bm_insert)

lemma ok_pushes_insert:
  "session_ok s \<Longrightarrow> \<not> bm_mem (pushes s) i \<Longrightarrow> length (watches s) + length (pushes s) < maxStreams s \<Longrightarrow>
     session_ok (s\<lparr>client := c, pushes := bm_insert i p (pushes s)\<rparr>)"
  by (simp add: session_ok_def length_bm_insert)

lemmas session_oks = ok_watches_remove ok_pushes_remove ok_pushes_set ok_watches_insert ok_pushes_insert

lemma watch_ok: "session_ok s \<Longrightarrow> session_ok (snd (dispatch_watch cl r s)) \<and> maxStreams (snd (dispatch_watch cl r s)) = maxStreams s"
  by (cases r) (simp_all add: session_oks watch_snapshot_def watch_open_def Let_def split: prod.split sum.split)

lemma push_item_cases:
  obtains e where "push_item cl it s = (Inl e, s)"
  | h c n where "push_item cl it s = (Inr (ItemAccepted (item_sequence it)),
      s\<lparr>client := c, pushes := bm_set (item_pushId it) \<lparr>push_session = h, nextSequence = n\<rparr> (pushes s)\<rparr>)"
  | e c where "push_item cl it s = (Inl e, s\<lparr>client := c, pushes := bm_remove (item_pushId it) (pushes s)\<rparr>)"
proof (cases "map_of (pushes s) (item_pushId it)")
  case None
  then show ?thesis by (intro that(1)) (simp add: push_item_def)
next
  case (Some p)
  show ?thesis
  proof (cases "item_sequence it \<noteq> nextSequence p \<or> nextSequence p + 1 \<ge> 2 ^ 64")
    case True
    with Some show ?thesis by (cases "item_sequence it = nextSequence p") (auto intro!: that(1) simp: push_item_def)
  next
    case False
    obtain out h c where send: "cl_send cl (item_args it) (push_session p) (client s) = (out, h, c)" by (metis prod_cases3)
    show ?thesis
    proof (cases "isolated (''Link push item '' @ item_pushId it @ '' sequence '' @ decimal (item_sequence it)) out")
      case (Inl e)
      with Some False send show ?thesis by (intro that(3)) (simp add: push_item_def)
    next
      case (Inr u)
      with Some False send show ?thesis by (intro that(2)) (simp add: push_item_def)
    qed
  qed
qed

lemma push_item_ok: "session_ok s \<Longrightarrow> session_ok (snd (push_item cl it s)) \<and> maxStreams (snd (push_item cl it s)) = maxStreams s"
  by (cases rule: push_item_cases [of cl it s]) (simp_all add: session_oks)

lemma push_close_ok: "session_ok s \<Longrightarrow> session_ok (snd (push_close cl i s)) \<and> maxStreams (snd (push_close cl i s)) = maxStreams s"
  by (simp add: push_close_def session_oks Let_def split: option.split prod.split sum.split)

lemma push_ok: "session_ok s \<Longrightarrow> session_ok (snd (dispatch_push cl r s)) \<and> maxStreams (snd (dispatch_push cl r s)) = maxStreams s"
  by (cases r) (simp_all add: push_item_ok push_close_ok session_oks push_open_def Let_def split: prod.split sum.split)

lemma dispatch_ok: "session_ok s \<Longrightarrow> session_ok (snd (dispatch cl r s)) \<and> maxStreams (snd (dispatch cl r s)) = maxStreams s"
  by (cases r) (simp_all add: watch_ok push_ok dispatch_call_def Let_def split: prod.split)

section \<open>Which stream answers\<close>

definition ready :: "'e CoreEventStream \<Rightarrow> bool" where
  "ready r \<longleftrightarrow> es_ended r \<or> es_queue r \<noteq> [] \<or> \<not> es_open r"

definition ready_at :: "(string, 'e CoreEventStream) bmap \<Rightarrow> string \<Rightarrow> bool" where
  "ready_at ws i \<longleftrightarrow> (case map_of ws i of None \<Rightarrow> False | Some r \<Rightarrow> ready r)"

text \<open>What a ready stream answers, and the stream afterwards.\<close>

definition answer :: "string \<Rightarrow> 'e CoreEventStream \<Rightarrow> ('v, 'e option) reply" where
  "answer i r = (if es_ended r then Inr None else case es_queue r of
     [] \<Rightarrow> Inr None | Deliver e # _ \<Rightarrow> Inr (Some e) | EndOfSource # _ \<Rightarrow> Inr None
   | MapPanic m # _ \<Rightarrow> Inl (panicError (''Link watch '' @ i @ '' event'') m))"

definition answered :: "'e CoreEventStream \<Rightarrow> 'e CoreEventStream" where
  "answered r = snd (poll_recv r)"

lemma poll_recv_pending: "\<not> ready r \<Longrightarrow> poll_recv r = (Done Pending, r)"
  by (simp add: poll_recv_def ready_def)

lemma bm_set_same [simp]: "map_of m k = Some v \<Longrightarrow> bm_set k v m = m"
  by (induction m) auto

lemma poll_round_ready:
  "poll_round (i # is) ws = (if ready_at ws i
     then (Some (i, answer i (the (map_of ws i))), bm_set i (answered (the (map_of ws i))) ws) else poll_round is ws)"
proof (cases "map_of ws i")
  case None
  then show ?thesis by (simp add: ready_at_def)
next
  case (Some r)
  show ?thesis
  proof (cases "ready r")
    case True
    with Some show ?thesis
      by (auto simp: ready_at_def ready_def answer_def answered_def poll_recv_def isolation_polling_def Let_def
        split: list.split queued_item.split)
  next
    case False
    with Some show ?thesis by (simp add: ready_at_def poll_recv_pending isolation_polling_def Let_def)
  qed
qed

declare poll_round.simps(2) [simp del]

lemma poll_round_first:
  "poll_round is ws = (case dropWhile (\<lambda>i. \<not> ready_at ws i) is of [] \<Rightarrow> (None, ws)
     | j # _ \<Rightarrow> (Some (j, answer j (the (map_of ws j))), bm_set j (answered (the (map_of ws j))) ws))"
  by (induction "is") (simp_all add: poll_round_ready)

lemma set_poll_order [simp]: "set (poll_order l keys) = set keys"
  by (auto simp: poll_order_def split: option.split)

text \<open>The first ready stream after the one served last, in the cyclic order of the identifiers.\<close>

definition report :: "string \<Rightarrow> ('v, 'e option) reply \<Rightarrow> ('v, 'e) CoreLinkResponse" where
  "report i a = WatchResponse i (case a of Inl e \<Rightarrow> Inl e | Inr None \<Rightarrow> Inr WatchClosed | Inr (Some ev) \<Rightarrow> Inr (WatchEvent ev))"

definition finishes :: "('v, 'e option) reply \<Rightarrow> bool" where
  "finishes a \<longleftrightarrow> (case a of Inr (Some _) \<Rightarrow> False | _ \<Rightarrow> True)"

lemma nextWatchEvent_waits:
  "watches s \<noteq> [] \<Longrightarrow> (\<And>i. \<not> ready_at (watches s) i) \<Longrightarrow> nextWatchEvent s = (Waiting, s)"
  by (simp add: nextWatchEvent_def poll_round_first dropWhile_eq_Nil_conv [THEN iffD2])

lemma nextWatchEvent_serves:
  assumes order: "poll_order (lastWatch s) (map fst (watches s)) = pre @ j # post"
    and pre: "\<And>i. i \<in> set pre \<Longrightarrow> \<not> ready_at (watches s) i" and j: "map_of (watches s) j = Some r" "ready r"
  shows "(nextWatchEvent s :: ('v, 'e) CoreLinkResponse awaited \<times> ('c, 'e, 'p) CoreLinkSession) = (Got (report j (answer j r)), s\<lparr>watches := (if finishes (answer j r :: ('v, 'e option) reply)
      then bm_remove j (bm_set j (answered r) (watches s)) else bm_set j (answered r) (watches s)), lastWatch := Some j\<rparr>)"
proof -
  have "dropWhile (\<lambda>i. \<not> ready_at (watches s) i) (pre @ j # post) = j # post"
    using pre j by (subst dropWhile_append2) (simp_all add: ready_at_def)
  moreover from j have "watches s \<noteq> []" by auto
  ultimately have round: "poll_round (poll_order (lastWatch s) (map fst (watches s))) (watches s)
      = (Some (j, answer j r :: ('v, 'e option) reply), bm_set j (answered r) (watches s))" "watches s \<noteq> []"
    using j by (simp_all add: order poll_round_first)
  consider e where "(answer j r :: ('v, 'e option) reply) = Inl e" | "(answer j r :: ('v, 'e option) reply) = Inr None"
    | ev where "(answer j r :: ('v, 'e option) reply) = Inr (Some ev)" by (metis option.exhaust sum.exhaust)
  then show ?thesis by cases (simp_all add: nextWatchEvent_def round report_def finishes_def)
qed

text \<open>The identifiers turn round: after \<open>j\<close> come those that followed it, then those that were before.\<close>

lemma sorted_cut: "sorted_wrt (<) keys \<Longrightarrow> keys = filter (\<lambda>i. i \<le> m) keys @ filter (\<lambda>i. m < i) keys" for m :: "'k::linorder"
proof (induction keys)
  case Nil
  show ?case by simp
next
  case (Cons k keys)
  show ?case
  proof (cases "k \<le> m")
    case True
    with Cons show ?thesis by simp
  next
    case False
    with Cons.prems have "\<forall>x\<in>set keys. m < x" by auto
    with False show ?thesis by (simp add: not_le [symmetric] filter_empty_conv)
  qed
qed

lemma filter_below: "\<forall>x\<in>set a. x < j \<Longrightarrow> filter ((<) j) a = [] \<and> filter (\<lambda>i. i \<le> j) a = a \<and> filter (\<lambda>k. k \<noteq> j) a = a" for j :: "'k::linorder"
  by (induction a) auto

lemma filter_above: "\<forall>x\<in>set a. j < x \<Longrightarrow> filter ((<) j) a = a \<and> filter (\<lambda>i. i \<le> j) a = [] \<and> filter (\<lambda>k. k \<noteq> j) a = a" for j :: "'k::linorder"
  by (induction a) auto

lemma poll_order_rotate:
  assumes "sorted_wrt (<) keys" "poll_order l keys = pre @ j # post"
  shows "poll_order (Some j) keys = post @ pre @ [j]" and "poll_order (Some j) (filter (\<lambda>k. k \<noteq> j) keys) = post @ pre"
proof -
  have "\<exists>lo hi. keys = lo @ hi \<and> poll_order l keys = hi @ lo"
  proof (cases l)
    case None
    then show ?thesis by (intro exI [of _ "[]"] exI [of _ keys]) (simp add: poll_order_def)
  next
    case (Some m)
    note sorted_cut [OF assms(1), of m]
    with Some show ?thesis by (auto simp: poll_order_def)
  qed
  then obtain lo hi where k: "keys = lo @ hi" "hi @ lo = pre @ j # post" using assms(2) by auto
  have "(\<exists>h. hi = pre @ j # h \<and> post = h @ lo) \<or> (\<exists>h. lo = h @ j # post \<and> pre = hi @ h)"
    using k(2) by (auto simp: append_eq_append_conv2 append_eq_Cons_conv)
  then have "poll_order (Some j) keys = post @ pre @ [j] \<and> poll_order (Some j) (filter (\<lambda>k. k \<noteq> j) keys) = post @ pre"
  proof (elim disjE exE conjE)
    fix h assume h: "hi = pre @ j # h" "post = h @ lo"
    with assms(1) k(1) have lt: "\<forall>x\<in>set lo \<union> set pre. x < j" "\<forall>x\<in>set h. j < x" by (auto simp: sorted_wrt_append)
    then show ?thesis
      using filter_below [of lo j] filter_below [of pre j] filter_above [of h j] by (simp add: k(1) h poll_order_def)
  next
    fix h assume h: "lo = h @ j # post" "pre = hi @ h"
    with assms(1) k(1) have lt: "\<forall>x\<in>set h. x < j" "\<forall>x\<in>set post \<union> set hi. j < x" by (auto simp: sorted_wrt_append)
    then show ?thesis
      using filter_below [of h j] filter_above [of post j] filter_above [of hi j] by (simp add: k(1) h poll_order_def)
  qed
  then show "poll_order (Some j) keys = post @ pre @ [j]" "poll_order (Some j) (filter (\<lambda>k. k \<noteq> j) keys) = post @ pre"
    by simp_all
qed

text \<open>How many streams may still answer before \<open>i\<close>.\<close>

definition turns :: "string \<Rightarrow> ('c, 'e, 'p) CoreLinkSession \<Rightarrow> nat" where
  "turns i s = length (takeWhile (\<lambda>k. k \<noteq> i) (poll_order (lastWatch s) (map fst (watches s))))"

lemma length_poll_order [simp]: "length (poll_order l keys) = length keys"
proof (cases l)
  case (Some m)
  with sum_length_filter_compl [of "\<lambda>i. m < i" keys] show ?thesis by (simp add: poll_order_def not_less)
qed (simp add: poll_order_def)

lemma takeWhile_less: "i \<in> set xs \<Longrightarrow> length (takeWhile (\<lambda>k. k \<noteq> i) xs) < length xs"
  by (induction xs) auto

lemma turns_bound:
  assumes "map_of (watches s) i = Some r"
  shows "turns i s < length (watches s)"
proof -
  from assms have "i \<in> set (poll_order (lastWatch s) (map fst (watches s)))" by (force dest: map_of_SomeD)
  then show ?thesis unfolding turns_def by (metis length_map length_poll_order takeWhile_less)
qed

lemma next_turn:
  assumes wf: "bm_wf (watches s)" and i: "map_of (watches s) i = Some r" "ready r"
  obtains (served) t where "(nextWatchEvent s :: ('v, 'e) CoreLinkResponse awaited \<times> ('c, 'e, 'p) CoreLinkSession) = (Got (report i (answer i r)), t)"
  | (other) resp t where "(nextWatchEvent s :: ('v, 'e) CoreLinkResponse awaited \<times> ('c, 'e, 'p) CoreLinkSession) = (Got resp, t)"
    "map_of (watches t) i = Some r" "bm_wf (watches t)" "turns i t < turns i s"
proof -
  let ?order = "poll_order (lastWatch s) (map fst (watches s))"
  from i have "ready_at (watches s) i" by (simp add: ready_at_def)
  moreover from i have "i \<in> set ?order" by (force dest: map_of_SomeD)
  ultimately have i_in: "i \<in> set ?order" "ready_at (watches s) i" by simp_all
  then have "\<exists>k\<in>set ?order. ready_at (watches s) k" by blast
  from split_list_first_prop [OF this] obtain pre j post where order: "?order = pre @ j # post"
    and j: "ready_at (watches s) j" and pre: "\<And>k. k \<in> set pre \<Longrightarrow> \<not> ready_at (watches s) k" by blast
  from j obtain q where q: "map_of (watches s) j = Some q" "ready q" by (auto simp: ready_at_def split: option.splits)
  note serve = nextWatchEvent_serves [OF order pre q]
  show ?thesis
  proof (cases "j = i")
    case True
    with serve q i show ?thesis by (intro served) auto
  next
    case False
    from i_in(2) pre have "i \<notin> set pre" by auto
    with i_in(1) order False have post: "i \<in> set post" by auto
    from wf have sorted: "sorted_wrt (<) (map fst (watches s))" by (simp add: bm_wf_def)
    let ?ws = "if finishes (answer j q :: ('v, 'e option) reply) then bm_remove j (bm_set j (answered q) (watches s))
      else bm_set j (answered q) (watches s)"
    obtain more where "poll_order (Some j) (map fst ?ws) = post @ more"
      using poll_order_rotate [OF sorted order] by (cases "finishes (answer j q :: ('v, 'e option) reply)") (auto simp: map_fst_bm_remove)
    then have "turns i (s\<lparr>watches := ?ws, lastWatch := Some j\<rparr>) = length (takeWhile (\<lambda>k. k \<noteq> i) post)"
      using post by (simp add: turns_def)
    moreover have "turns i s = length pre + 1 + length (takeWhile (\<lambda>k. k \<noteq> i) post)"
    proof -
      have "takeWhile (\<lambda>k. k \<noteq> i) (pre @ j # post) = pre @ takeWhile (\<lambda>k. k \<noteq> i) (j # post)"
        using \<open>i \<notin> set pre\<close> by (intro takeWhile_append2) auto
      with False show ?thesis by (simp add: turns_def order)
    qed
    moreover have "map_of ?ws i = Some r" using i False by (simp add: bm_simps)
    moreover have "bm_wf ?ws" using wf by simp
    ultimately show ?thesis by (intro other [OF serve]) simp_all
  qed
qed

section \<open>Fairness\<close>

text \<open>Between deliveries the sources queue more items and may go away; \<open>f\<close> says for every watch what arrives
  and whether a sender remains.\<close>

definition source_update :: "'e queued_item list \<times> bool \<Rightarrow> 'e CoreEventStream \<Rightarrow> 'e CoreEventStream" where
  "source_update a r = (if es_open r then r\<lparr>es_queue := es_queue r @ fst a, es_open := snd a\<rparr> else r)"

definition arrive :: "(string \<Rightarrow> 'e queued_item list \<times> bool) \<Rightarrow> ('c, 'e, 'p) CoreLinkSession \<Rightarrow> ('c, 'e, 'p) CoreLinkSession" where
  "arrive f s = s\<lparr>watches := map (\<lambda>(i, r). (i, source_update (f i) r)) (watches s)\<rparr>"

fun deliver :: "(string \<Rightarrow> 'e queued_item list \<times> bool) list \<Rightarrow> ('c, 'e, 'p) CoreLinkSession
    \<Rightarrow> ('v, 'e) CoreLinkResponse awaited list \<times> ('c, 'e, 'p) CoreLinkSession" where
  "deliver [] s = ([], s)"
| "deliver (f # fs) s = (let (out, t) = nextWatchEvent (arrive f s); (outs, u) = deliver fs t in (out # outs, u))"

lemma arrive_keys [simp]: "map fst (watches (arrive f s)) = map fst (watches s)"
  by (auto simp: arrive_def comp_def)

lemma arrive_wf [simp]: "bm_wf (watches (arrive f s)) = bm_wf (watches s)"
  by (simp add: bm_wf_def)

lemma arrive_length [simp]: "length (watches (arrive f s)) = length (watches s)"
  by (metis arrive_keys length_map)

lemma arrive_lookup: "map_of (watches (arrive f s)) i = map_option (source_update (f i)) (map_of (watches s) i)"
proof -
  have "map_of (map (\<lambda>(i, r). (i, source_update (f i) r)) ws) i = map_option (source_update (f i)) (map_of ws i)" for ws
    by (induction ws) auto
  then show ?thesis by (simp add: arrive_def)
qed

lemma arrive_turns: "turns i (arrive f s) = turns i s"
  unfolding turns_def arrive_keys by (simp add: arrive_def)

lemma source_update_head:
  assumes "es_queue r = x # q" "\<not> es_ended r"
  obtains q' where "es_queue (source_update a r) = x # q'" "\<not> es_ended (source_update a r)"
  using assms by (cases "es_open r") (auto simp: source_update_def)

lemma answer_head: "es_queue r = x # q \<Longrightarrow> \<not> es_ended r \<Longrightarrow> es_queue r' = x # q' \<Longrightarrow> \<not> es_ended r' \<Longrightarrow> answer i r' = answer i r"
  by (simp add: answer_def)

lemma deliver_serves:
  fixes s :: "('c, 'e, 'p) CoreLinkSession" and fs :: "(string \<Rightarrow> 'e queued_item list \<times> bool) list"
  assumes "bm_wf (watches s)" "map_of (watches s) i = Some r" "es_queue r = x # q" "\<not> es_ended r" "turns i s < length fs"
  shows "Got (report i (answer i r)) \<in> set (take (Suc (turns i s)) (fst (deliver fs s :: ('v, 'e) CoreLinkResponse awaited list \<times> ('c, 'e, 'p) CoreLinkSession)))"
  using assms
proof (induction "turns i s" arbitrary: s fs r q rule: less_induct)
  case less
  from less.prems(5) obtain f gs where fs: "fs = f # gs" by (cases fs) auto
  let ?s = "arrive f s"
  obtain q' where q': "es_queue (source_update (f i) r) = x # q'" "\<not> es_ended (source_update (f i) r)"
    using source_update_head [OF less.prems(3,4)] by metis
  have i: "map_of (watches ?s) i = Some (source_update (f i) r)" "ready (source_update (f i) r)"
    using less.prems(2) q' by (simp_all add: arrive_lookup ready_def)
  have same: "(answer i (source_update (f i) r) :: ('v, 'e option) reply) = answer i r"
    by (rule answer_head [OF less.prems(3,4) q'])
  from less.prems(1) have wf: "bm_wf (watches ?s)" by simp
  show ?case
  proof (cases rule: next_turn [OF wf i, where ?'v = 'v, case_names served other])
    case (served t)
    then show ?thesis by (simp add: fs same case_prod_unfold Let_def)
  next
    case (other resp t)
    from other(4) have less_turns: "turns i t < turns i s" by (simp add: arrive_turns)
    with less.prems(5) fs have "turns i t < length gs" by simp
    from less.hyps [OF less_turns other(3,2) q' this] less_turns
    have "Got (report i (answer i r)) \<in> set (take (turns i s) (fst (deliver gs t :: ('v, 'e) CoreLinkResponse awaited list \<times> ('c, 'e, 'p) CoreLinkSession)))"
      unfolding same by (meson Suc_leI set_take_subset_set_take subsetD)
    then show ?thesis by (simp add: fs other(1) case_prod_unfold Let_def)
  qed
qed

text \<open>C33: A watch that has an item is served within as many deliveries as there are watches, whatever arrives
  at the other streams meanwhile, and what it is served is the first item of its queue.\<close>

theorem watches_served_fairly:
  fixes s :: "('c, 'e, 'p) CoreLinkSession"
  assumes "bm_wf (watches s)" "map_of (watches s) i = Some r" "es_queue r = x # q" "\<not> es_ended r" "length (watches s) \<le> length fs"
  shows "Got (report i (answer i r)) \<in> set (take (length (watches s))
    (fst (deliver fs s :: ('v, 'e) CoreLinkResponse awaited list \<times> ('c, 'e, 'p) CoreLinkSession)))"
proof -
  from turns_bound [OF assms(2)] assms(5) have le: "Suc (turns i s) \<le> length (watches s)" "turns i s < length fs" by simp_all
  from deliver_serves [OF assms(1-4) le(2), where ?'v = 'v] le(1) show ?thesis by (meson set_take_subset_set_take subsetD)
qed

definition noisy_session :: "(unit, nat, unit) CoreLinkSession" where
  "noisy_session = (link_session_new () 4)\<lparr>watches :=
     [(''a'', \<lparr>es_queue = [Deliver 1, Deliver 2, Deliver 3], es_open = True, es_ended = False\<rparr>),
      (''b'', \<lparr>es_queue = [Deliver 9], es_open = True, es_ended = False\<rparr>)]\<rparr>"

theorem watches_served_fairly_witness:
  "Got (WatchResponse ''b'' (Inr (WatchEvent 9)) :: (unit, nat) CoreLinkResponse)
     \<in> set (take 2 (fst (deliver [\<lambda>_. ([], True), \<lambda>_. ([Deliver 7], True)] noisy_session)))"
proof -
  let ?r = "\<lparr>es_queue = [Deliver (9 :: nat)], es_open = True, es_ended = False\<rparr>"
  have "bm_wf (watches noisy_session)" "map_of (watches noisy_session) ''b'' = Some ?r" "length (watches noisy_session) = 2"
    by (simp_all add: noisy_session_def bm_wf_def)
  with watches_served_fairly [of noisy_session "''b''" ?r "Deliver 9" "[]" "[\<lambda>_. ([], True), \<lambda>_. ([Deliver 7], True)]", where ?'v = unit]
  show ?thesis by (simp add: report_def answer_def)
qed

section \<open>Batches\<close>

text \<open>Everything a queue still holds, in order, up to the item that ends it; and whether the stream stays.\<close>

fun backlog :: "(string \<Rightarrow> string) \<Rightarrow> string \<Rightarrow> 'e queued_item list \<Rightarrow> bool \<Rightarrow> ('v, 'e) CoreLinkResponse list \<times> bool" where
  "backlog debug i [] is_open = (if is_open then ([], True) else ([WatchResponse i (Inr WatchClosed)], False))"
| "backlog debug i (Deliver e # q) is_open = apfst ((#) (WatchResponse i (Inr (WatchEvent e)))) (backlog debug i q is_open)"
| "backlog debug i (EndOfSource # q) is_open = ([WatchResponse i (Inr WatchClosed)], False)"
| "backlog debug i (MapPanic m # q) is_open =
     ([WatchResponse i (Inl (panicError (''Link watch '' @ debug i @ '' event'') m))], False)"

definition stream_backlog :: "(string \<Rightarrow> string) \<Rightarrow> string \<Rightarrow> 'e CoreEventStream \<Rightarrow> ('v, 'e) CoreLinkResponse list \<times> bool" where
  "stream_backlog debug i r =
     (if es_ended r then ([WatchResponse i (Inr WatchClosed)], False) else backlog debug i (es_queue r) (es_open r))"

lemma drain_stream_backlog:
  "es_queue r = q \<Longrightarrow> \<not> es_ended r \<Longrightarrow> length q < n \<Longrightarrow>
     drain_stream debug i n r = (let (out, kept) = backlog debug i q (es_open r) in (out, if kept then Some (r\<lparr>es_queue := []\<rparr>) else None))"
proof (induction q arbitrary: r n)
  case Nil
  then show ?case by (cases n) (auto simp: try_recv_def)
next
  case (Cons x q)
  then obtain m where n: "n = Suc m" "length q < m" by (cases n) auto
  show ?case
  proof (cases x)
    case (Deliver e)
    from Cons.IH [of "r\<lparr>es_queue := q\<rparr>" m] Cons.prems n Deliver show ?thesis
      by (simp add: try_recv_def case_prod_unfold Let_def)
  qed (use Cons.prems n in \<open>simp_all add: try_recv_def\<close>)
qed

lemma drain_stream_all:
  "drain_stream debug i (Suc (pendingCount r)) r =
     (let (out, kept) = stream_backlog debug i r in (out, if kept then Some (r\<lparr>es_queue := []\<rparr>) else None))"
proof (cases "es_ended r")
  case True
  then show ?thesis by (simp add: pendingCount_def stream_backlog_def try_recv_def)
next
  case False
  then have "pendingCount r = length (es_queue r)" by (simp add: pendingCount_def)
  with False drain_stream_backlog [OF refl False lessI, of debug i] show ?thesis by (simp only: stream_backlog_def if_False)
qed

lemma drain_all_Cons:
  "drain_all debug ((i, r) # ws) = (let (out, kept) = stream_backlog debug i r; (outs, rest) = drain_all debug ws
     in (out @ outs, if kept then (i, r\<lparr>es_queue := []\<rparr>) # rest else rest))"
  by (simp only: drain_all.simps Suc_eq_plus1 [symmetric] drain_stream_all) (simp add: case_prod_unfold Let_def)

declare drain_all.simps(2) [simp del]

fun response_id :: "('v, 'e) CoreLinkResponse \<Rightarrow> string" where
  "response_id (CallResponse r) = response_requestId r"
| "response_id (WatchResponse i _) = i"
| "response_id (PushResponse i _) = i"

text \<open>A response without the text of its error.\<close>

fun gist :: "('v, 'e) CoreLinkResponse \<Rightarrow> string \<times> 'e CoreLinkWatchResponse option" where
  "gist (WatchResponse i (Inr w)) = (i, Some w)"
| "gist r = (response_id r, None)"

lemma backlog_ids: "p \<in> set (fst (backlog debug i q b)) \<Longrightarrow> response_id p = i"
  by (induction debug i q b rule: backlog.induct) (auto split: if_splits)

lemma stream_backlog_ids: "p \<in> set (fst (stream_backlog debug i r)) \<Longrightarrow> response_id p = i"
  by (auto simp: stream_backlog_def backlog_ids split: if_splits)

lemma backlog_kept: "snd (backlog debug i q b) \<Longrightarrow> b"
  by (induction debug i q b rule: backlog.induct) (auto split: if_splits)

lemma stream_backlog_kept: "snd (stream_backlog debug i r) \<Longrightarrow> es_open r \<and> \<not> es_ended r"
  using backlog_kept by (auto simp: stream_backlog_def split: if_splits)

lemma drain_all_quiet:
  "(i, r) \<in> set (snd (drain_all debug ws :: ('v, 'e) CoreLinkResponse list \<times> (string, 'e CoreEventStream) bmap)) \<Longrightarrow> es_queue r = [] \<and> es_open r \<and> \<not> es_ended r"
proof (induction ws)
  case (Cons w ws)
  obtain j q where w: "w = (j, q)" by fastforce
  from Cons show ?case
    by (cases "snd (stream_backlog debug j q :: ('v, 'e) CoreLinkResponse list \<times> bool)")
      (auto simp: w drain_all_Cons case_prod_unfold Let_def dest: stream_backlog_kept)
qed simp

lemma filter_ids:
  "(\<And>p. p \<in> set ps \<Longrightarrow> response_id p = j) \<Longrightarrow> filter (\<lambda>p. response_id p = i) ps = (if i = j then ps else [])"
  by (cases "i = j") (auto simp: filter_empty_conv)

lemma drain_all_replies:
  "distinct (map fst ws) \<Longrightarrow> filter (\<lambda>p. response_id p = i) (fst (drain_all debug ws))
     = (case map_of ws i of None \<Rightarrow> [] | Some r \<Rightarrow> fst (stream_backlog debug i r))"
proof (induction ws)
  case (Cons w ws)
  obtain j q where w: "w = (j, q)" by fastforce
  have mine: "filter (\<lambda>p. response_id p = i) (fst (stream_backlog debug j q)) = (if i = j then fst (stream_backlog debug j q) else [])"
    by (rule filter_ids) (rule stream_backlog_ids)
  from Cons show ?case by (auto simp: w drain_all_Cons case_prod_unfold Let_def mine map_of_eq_None_iff [THEN iffD2])
qed simp

lemma answer_backlog:
  assumes "ready r"
  shows "map gist (fst (stream_backlog debug i r :: ('v, 'e) CoreLinkResponse list \<times> bool))
    = gist (report i (answer i r) :: ('v, 'e) CoreLinkResponse)
      # (if finishes (answer i r :: ('v, 'e option) reply) then [] else map gist (fst (stream_backlog debug i (answered r) :: ('v, 'e) CoreLinkResponse list \<times> bool)))"
proof (cases "es_ended r")
  case True
  then show ?thesis by (simp add: stream_backlog_def answer_def report_def finishes_def)
next
  case live: False
  show ?thesis
  proof (cases "es_queue r")
    case Nil
    with live assms show ?thesis by (simp add: ready_def stream_backlog_def answer_def report_def finishes_def)
  next
    case (Cons x q)
    with live show ?thesis
      by (cases x) (simp_all add: stream_backlog_def answer_def report_def finishes_def answered_def poll_recv_def)
  qed
qed

lemma nextWatchEvent_not_waiting:
  assumes "(nextWatchEvent s :: ('v, 'e) CoreLinkResponse awaited \<times> ('c, 'e, 'p) CoreLinkSession) = (Got resp, t)"
  obtains pre j post r where "poll_order (lastWatch s) (map fst (watches s)) = pre @ j # post"
    "\<And>k. k \<in> set pre \<Longrightarrow> \<not> ready_at (watches s) k" "map_of (watches s) j = Some r" "ready r"
proof -
  let ?order = "poll_order (lastWatch s) (map fst (watches s))"
  have "\<exists>k\<in>set ?order. ready_at (watches s) k"
  proof (rule ccontr)
    assume "\<not> ?thesis"
    then have none: "dropWhile (\<lambda>k. \<not> ready_at (watches s) k) ?order = []" by (simp add: dropWhile_eq_Nil_conv)
    show False
    proof (cases "watches s = []")
      case True
      with assms show False by (simp add: nextWatchEvent_def)
    next
      case False
      have "(poll_round ?order (watches s) :: (string \<times> ('v, 'e option) reply) option \<times> (string, 'e CoreEventStream) bmap)
        = (None, watches s)" by (simp only: poll_round_first none list.case)
      with False assms show False by (simp add: nextWatchEvent_def)
    qed
  qed
  from split_list_first_prop [OF this] obtain pre j post where order: "?order = pre @ j # post"
    and j: "ready_at (watches s) j" and pre: "\<And>k. k \<in> set pre \<Longrightarrow> \<not> ready_at (watches s) k" by blast
  from j obtain r where "map_of (watches s) j = Some r" "ready r" by (auto simp: ready_at_def split: option.splits)
  with order pre show ?thesis by (intro that)
qed

text \<open>A batch empties every watch: each one's events are reported completely and in the order of its queue,
  followed by its end or failure if it has one, and a watch that remains has nothing left to report.\<close>

theorem batch_drains_watches:
  fixes s t :: "('c, 'e, 'p) CoreLinkSession" and batch :: "('v, 'e) CoreLinkResponse list"
  assumes wf: "bm_wf (watches s)" and batch: "nextWatchBatch debug s = (Got batch, t)"
  shows "(\<forall>i r. map_of (watches s) i = Some r \<longrightarrow>
      map gist (filter (\<lambda>p. response_id p = i) batch) = map gist (fst (stream_backlog debug i r :: ('v, 'e) CoreLinkResponse list \<times> bool)))
    \<and> (\<forall>i r. map_of (watches t) i = Some r \<longrightarrow> es_queue r = [] \<and> es_open r \<and> \<not> es_ended r)"
proof -
  from batch obtain resp u where first: "(nextWatchEvent s :: ('v, 'e) CoreLinkResponse awaited \<times> ('c, 'e, 'p) CoreLinkSession) = (Got resp, u)"
    by (auto simp: nextWatchBatch_def split: prod.splits awaited.splits)
  from nextWatchEvent_not_waiting [OF first] obtain pre j post r
    where order: "poll_order (lastWatch s) (map fst (watches s)) = pre @ j # post"
      and pre: "\<And>k. k \<in> set pre \<Longrightarrow> \<not> ready_at (watches s) k" and j: "map_of (watches s) j = Some r" "ready r" by blast
  let ?a = "answer j r :: ('v, 'e option) reply"
  let ?ws = "if finishes ?a then bm_remove j (bm_set j (answered r) (watches s)) else bm_set j (answered r) (watches s)"
  from nextWatchEvent_serves [OF order pre j, where ?'v = 'v] first have u: "resp = report j ?a" "watches u = ?ws" by auto
  from wf have "bm_wf ?ws" by simp
  from bm_wf_distinct [OF this] have distinct: "distinct (map fst (watches u))" unfolding u(2) .
  let ?rest = "drain_all debug (watches u) :: ('v, 'e) CoreLinkResponse list \<times> (string, 'e CoreEventStream) bmap"
  from batch first have b: "batch = resp # fst ?rest" "watches t = snd ?rest"
    by (auto simp: nextWatchBatch_def case_prod_unfold Let_def)
  have replies: "filter (\<lambda>p. response_id p = k) (fst ?rest) = (case map_of (watches u) k of None \<Rightarrow> []
      | Some r \<Rightarrow> fst (stream_backlog debug k r))" for k
    by (rule drain_all_replies [OF distinct])
  have "es_queue q = [] \<and> es_open q \<and> \<not> es_ended q" if "map_of (watches t) i = Some q" for i q
    using that b(2) by (intro drain_all_quiet [where ?'v = 'v]) (auto dest: map_of_SomeD)
  moreover have "map gist (filter (\<lambda>p. response_id p = i) batch) = map gist (fst (stream_backlog debug i q :: ('v, 'e) CoreLinkResponse list \<times> bool))"
    if q: "map_of (watches s) i = Some q" for i q
  proof (cases "i = j")
    case True
    with q j have "q = r" by simp
    moreover have "response_id resp = j" by (simp add: u(1) report_def)
    moreover have mem: "bm_mem (watches s) j" using j(1) by (simp add: bm_mem_def)
    have here: "map_of (watches u) j = (if finishes ?a then None else Some (answered r))"
      unfolding u(2) by (cases "finishes ?a") (simp_all add: map_of_bm_set mem)
    ultimately show ?thesis using answer_backlog [OF j(2), of debug j, where ?'v = 'v] True replies [of j] here
      by (cases "finishes ?a") (simp_all add: b(1) u(1))
  next
    case False
    then have "map_of (watches u) i = Some q" using q by (simp add: u(2) bm_simps)
    moreover have "response_id resp \<noteq> i" using False by (simp add: u(1) report_def)
    ultimately show ?thesis using replies [of i] by (simp add: b(1))
  qed
  ultimately show ?thesis by blast
qed

theorem batch_drains_watches_witness:
  "\<exists>r. map_of (watches (snd (nextWatchBatch id noisy_session :: (unit, nat) CoreLinkResponse list awaited \<times> (unit, nat, unit) CoreLinkSession))) ''a'' = Some r
     \<and> es_queue r = [] \<and> es_open r \<and> \<not> es_ended r"
proof -
  let ?b = "nextWatchBatch id noisy_session :: (unit, nat) CoreLinkResponse list awaited \<times> (unit, nat, unit) CoreLinkSession"
  have wf: "bm_wf (watches noisy_session)" by (simp add: noisy_session_def bm_wf_def)
  have "fst ?b = Got (map (\<lambda>(i, e). WatchResponse i (Inr (WatchEvent e))) [(''a'', 1), (''a'', 2), (''a'', 3), (''b'', 9)])" by code_simp
  then have "?b = (Got (map (\<lambda>(i, e). WatchResponse i (Inr (WatchEvent e))) [(''a'', 1), (''a'', 2), (''a'', 3), (''b'', 9)]), snd ?b)"
    by (simp add: prod_eq_iff)
  from batch_drains_watches [OF wf this]
  have "\<And>r. map_of (watches (snd ?b)) ''a'' = Some r \<Longrightarrow> es_queue r = [] \<and> es_open r \<and> \<not> es_ended r" by blast
  moreover have "map_of (watches (snd ?b)) ''a'' = Some \<lparr>es_queue = [], es_open = True, es_ended = False\<rparr>" by code_simp
  ultimately show ?thesis by blast
qed

section \<open>Input streams\<close>

text \<open>The same client with a record of the values that each input stream was handed.\<close>

definition recorded :: "('c, 'v, 'e, 'p) link_client \<Rightarrow> ('c, 'v, 'e, 'p \<times> 'v list) link_client" where
  "recorded cl = \<lparr>cl_call = cl_call cl, cl_watchSnapshot = cl_watchSnapshot cl, cl_watch = cl_watch cl,
     cl_openPush = (\<lambda>r c. let (out, c) = cl_openPush cl r c
       in (case out of Done x \<Rightarrow> Done (map_sum id (\<lambda>p. (p, [])) x) | Panicked m \<Rightarrow> Panicked m, c)),
     cl_send = (\<lambda>v h c. let (out, p, c) = cl_send cl v (fst h) c in (out, (p, snd h @ [v]), c)),
     cl_close = (\<lambda>h c. cl_close cl (fst h) c)\<rparr>"

fun link_run :: "('c, 'v, 'e, 'p) link_client \<Rightarrow> 'v CoreLinkRequest list \<Rightarrow> ('c, 'e, 'p) CoreLinkSession
    \<Rightarrow> ('v CoreLinkRequest \<times> ('v, 'e) CoreLinkResponse) list \<times> ('c, 'e, 'p) CoreLinkSession" where
  "link_run cl [] s = ([], s)"
| "link_run cl (r # rs) s = (let (resp, t) = dispatch cl r s; (rest, u) = link_run cl rs t in ((r, resp) # rest, u))"

text \<open>The items that the caller of stream \<open>i\<close> saw accepted since it opened the stream, with their numbers.\<close>

definition note_push :: "string \<Rightarrow> 'v CoreLinkRequest \<times> ('v, 'e) CoreLinkResponse \<Rightarrow> (nat \<times> 'v) list \<Rightarrow> (nat \<times> 'v) list" where
  "note_push i exchange got =
     (case exchange of
        (PushRequest m, PushResponse _ (Inr kind)) \<Rightarrow>
          (case (m, kind) of
             (PushOpen r, PushOpened) \<Rightarrow> if push_requestId r = i then [] else got
           | (PushItem it, ItemAccepted n) \<Rightarrow> if item_pushId it = i then got @ [(n, item_args it)] else got
           | _ \<Rightarrow> got)
      | _ \<Rightarrow> got)"

definition accepted :: "string \<Rightarrow> ('v CoreLinkRequest \<times> ('v, 'e) CoreLinkResponse) list \<Rightarrow> (nat \<times> 'v) list \<Rightarrow> (nat \<times> 'v) list" where
  "accepted i exchanges got = foldl (\<lambda>got x. note_push i x got) got exchanges"

definition in_order :: "(string \<Rightarrow> (nat \<times> 'v) list) \<Rightarrow> (string, ('p \<times> 'v list) Push) bmap \<Rightarrow> bool" where
  "in_order got ps \<longleftrightarrow> bm_wf ps \<and> (\<forall>i q. map_of ps i = Some q \<longrightarrow>
     nextSequence q = length (snd (push_session q)) \<and> got i = enumerate 0 (snd (push_session q)))"

lemma in_order_remove: "in_order got ps \<Longrightarrow> in_order got (bm_remove i ps)"
  by (simp add: in_order_def)

lemma in_order_open:
  "in_order got ps \<Longrightarrow> in_order (\<lambda>j. if i = j then [] else got j) (bm_insert i \<lparr>push_session = (p, []), nextSequence = 0\<rparr> ps)"
  by (simp add: in_order_def)

lemma in_order_accept:
  assumes "in_order got ps" "map_of ps i = Some q"
  shows "in_order (\<lambda>j. if i = j then got j @ [(nextSequence q, v)] else got j)
    (bm_set i \<lparr>push_session = (p, snd (push_session q) @ [v]), nextSequence = nextSequence q + 1\<rparr> ps)"
  using assms by (auto simp: in_order_def map_of_bm_set bm_mem_def enumerate_append_eq)

lemma push_open_cases:
  obtains (refused) e c where "push_open cl r s = (Inl e, s\<lparr>client := c\<rparr>)"
  | (opened) p c where "cl_openPush cl r (client s) = (Done (Inr p), c)"
      "push_open cl r s = (Inr PushOpened,
         s\<lparr>client := c, pushes := bm_insert (push_requestId r) \<lparr>push_session = p, nextSequence = 0\<rparr> (pushes s)\<rparr>)"
proof (cases "bm_mem (pushes s) (push_requestId r)")
  case True
  then show ?thesis by (intro refused [of _ "client s"]) (simp add: push_open_def)
next
  case fresh: False
  show ?thesis
  proof (cases "maxStreams s \<le> length (watches s) + length (pushes s)")
    case True
    with fresh show ?thesis by (intro refused [of _ "client s"]) (simp add: push_open_def ensureCapacity_def)
  next
    case False
    obtain out c where o: "cl_openPush cl r (client s) = (out, c)" by fastforce
    show ?thesis
    proof (cases out)
      case (Panicked m)
      with fresh False o show ?thesis by (intro refused [of _ c]) (simp add: push_open_def ensureCapacity_def isolated_def)
    next
      case (Done x)
      show ?thesis
      proof (cases x)
        case (Inl e)
        with Done fresh False o show ?thesis by (intro refused [of _ c]) (simp add: push_open_def ensureCapacity_def isolated_def)
      next
        case (Inr p)
        with Done fresh False o show ?thesis by (intro opened [of p c]) (simp_all add: push_open_def ensureCapacity_def isolated_def)
      qed
    qed
  qed
qed

lemma note_push_simps:
  "note_push i (PushRequest (PushOpen r), PushResponse k (Inr PushOpened)) got = (if push_requestId r = i then [] else got)"
  "note_push i (PushRequest (PushItem it), PushResponse k (Inr (ItemAccepted n))) got
     = (if item_pushId it = i then got @ [(n, item_args it)] else got)"
  "note_push i (x, PushResponse k (Inl e)) got = got"
  "note_push i (PushRequest (PushClose j), x') got = got"
  "note_push i (CallRequest c, x') got = got"
  "note_push i (WatchRequest w, x') got = got"
  by (simp_all add: note_push_def split: CoreLinkRequest.split CoreLinkResponse.split sum.split)

lemma open_in_order:
  assumes "in_order got (pushes s)"
  shows "in_order (\<lambda>i. note_push i (PushRequest (PushOpen r), fst (dispatch_push (recorded cl) (PushOpen r) s)) (got i))
    (pushes (snd (dispatch_push (recorded cl) (PushOpen r) s)))"
proof (cases rule: push_open_cases [of "recorded cl" r s, case_names refused opened])
  case (refused e c)
  with assms show ?thesis by (simp add: note_push_simps)
next
  case (opened h c)
  from opened(1) obtain p where "h = (p, [])"
    by (auto simp: recorded_def Let_def split: prod.splits outcome.splits) (metis (no_types, lifting) Inr_Inl_False map_sum.simps sum.exhaust sum.inject(2))
  with opened(2) in_order_open [OF assms, of "push_requestId r" p] show ?thesis by (simp add: note_push_simps)
qed

lemma item_in_order:
  assumes ok: "in_order got (pushes s)"
  shows "in_order (\<lambda>i. note_push i (PushRequest (PushItem it), fst (dispatch_push (recorded cl) (PushItem it) s)) (got i))
    (pushes (snd (dispatch_push (recorded cl) (PushItem it) s)))"
proof (cases "map_of (pushes s) (item_pushId it)")
  case None
  with ok show ?thesis by (simp add: push_item_def note_push_simps)
next
  case (Some q)
  show ?thesis
  proof (cases "item_sequence it \<noteq> nextSequence q \<or> nextSequence q + 1 \<ge> 2 ^ 64")
    case True
    with Some ok show ?thesis by (cases "item_sequence it = nextSequence q") (simp_all add: push_item_def note_push_simps)
  next
    case False
    obtain out p c where send: "cl_send cl (item_args it) (fst (push_session q)) (client s) = (out, p, c)" by (metis prod_cases3)
    show ?thesis
    proof (cases "isolated (''Link push item '' @ item_pushId it @ '' sequence '' @ decimal (item_sequence it)) out")
      case (Inl e)
      with Some False send in_order_remove [OF ok, of "item_pushId it"] show ?thesis
        by (simp add: push_item_def note_push_simps recorded_def)
    next
      case (Inr u)
      with Some False send in_order_accept [OF ok Some, of "item_args it" p] show ?thesis
        by (simp add: push_item_def note_push_simps recorded_def)
    qed
  qed
qed

lemma dispatch_in_order:
  assumes "in_order got (pushes s)"
  shows "in_order (\<lambda>i. note_push i (r, fst (dispatch (recorded cl) r s)) (got i)) (pushes (snd (dispatch (recorded cl) r s)))"
proof (cases r)
  case (CallRequest c)
  with assms show ?thesis by (simp add: note_push_simps dispatch_call_def Let_def split: prod.split)
next
  case (WatchRequest w)
  have "pushes (snd (dispatch_watch (recorded cl) w s)) = pushes s"
    by (cases w) (simp_all add: watch_snapshot_def watch_open_def Let_def split: prod.split sum.split)
  with WatchRequest assms show ?thesis by (simp add: note_push_simps)
next
  case (PushRequest m)
  show ?thesis
  proof (cases m)
    case (PushOpen x)
    with PushRequest open_in_order [OF assms, of x cl] show ?thesis by simp
  next
    case (PushItem it)
    with PushRequest item_in_order [OF assms, of it cl] show ?thesis by simp
  next
    case (PushClose i)
    have "pushes (snd (push_close (recorded cl) i s)) \<in> {pushes s, bm_remove i (pushes s)}"
      by (simp add: push_close_def Let_def split: option.split prod.split)
    with PushRequest PushClose assms in_order_remove [OF assms, of i] show ?thesis by (auto simp: note_push_simps)
  qed
qed

lemma run_in_order:
  "in_order got (pushes s) \<Longrightarrow> link_run (recorded cl) rs s = (exchanges, t) \<Longrightarrow>
     in_order (\<lambda>i. accepted i exchanges (got i)) (pushes t)"
proof (induction rs arbitrary: got s exchanges)
  case Nil
  then show ?case by (simp add: accepted_def)
next
  case (Cons r rs)
  let ?d = "dispatch (recorded cl) r s"
  let ?run = "link_run (recorded cl) rs (snd ?d)"
  from Cons.prems(2) have r: "exchanges = (r, fst ?d) # fst ?run" "t = snd ?run" by (simp_all add: Let_def case_prod_unfold)
  have "?run = (fst ?run, t)" by (simp add: r(2))
  from Cons.IH [OF dispatch_in_order [OF Cons.prems(1), of r cl] this] r(1) show ?case by (simp add: accepted_def)
qed

text \<open>C32: Whatever is requested in whatever order, and whatever fails or panics, an input stream that is open has
  handed its service exactly the items whose acceptance the caller saw since it opened the stream: each once,
  in the order of their numbers, and the numbers are 0, 1, 2 and so on.\<close>

theorem push_items_once_in_order:
  fixes cl :: "('c, 'v, 'e, 'p) link_client"
  assumes "link_run (recorded cl) rs (link_session_new c n) = (exchanges, s)" and "map_of (pushes s) i = Some q"
  shows "accepted i exchanges [] = enumerate 0 (snd (push_session q)) \<and> nextSequence q = length (snd (push_session q))"
proof -
  have "in_order (\<lambda>_. []) (pushes (link_session_new c n :: ('c, 'e, 'p \<times> 'v list) CoreLinkSession))"
    by (simp add: in_order_def link_session_new_def)
  from run_in_order [OF this assms(1)] assms(2) show ?thesis by (simp add: in_order_def)
qed

text \<open>A client whose service accepts numbers below 100 and panics on the others.\<close>

definition echo_client :: "(nat, nat, nat, unit) link_client" where
  "echo_client = \<lparr>cl_call = (\<lambda>r c. (Done \<lparr>response_requestId = call_requestId r, response_result = Inr (call_args r)\<rparr>, c)),
     cl_watchSnapshot = (\<lambda>r c. (Done (Inr (watch_args r)), c)),
     cl_watch = (\<lambda>r c. (Done (Inr \<lparr>es_queue = [Deliver (watch_args r)], es_open = True, es_ended = False\<rparr>), c)),
     cl_openPush = (\<lambda>r c. (Done (Inr ()), c + 1)),
     cl_send = (\<lambda>v h c. (if v < 100 then Done (Inr ()) else Panicked ''too large'', h, c + v)),
     cl_close = (\<lambda>h c. (Done (Inr ()), c))\<rparr>"

definition push_script :: "nat CoreLinkRequest list" where
  "push_script = map PushRequest
     [PushOpen \<lparr>push_requestId = ''p'', push_target = ''t'', push_methodName = ''m'', push_args = 0\<rparr>,
      PushItem \<lparr>item_pushId = ''p'', item_sequence = 0, item_args = 5\<rparr>,
      PushItem \<lparr>item_pushId = ''p'', item_sequence = 0, item_args = 5\<rparr>,
      PushItem \<lparr>item_pushId = ''q'', item_sequence = 1, item_args = 9\<rparr>,
      PushItem \<lparr>item_pushId = ''p'', item_sequence = 1, item_args = 7\<rparr>]"

theorem push_items_once_in_order_witness:
  "let r = link_run (recorded echo_client) push_script (link_session_new 0 3)
   in accepted ''p'' (fst r) [] = enumerate 0 [5, 7]"
proof -
  let ?r = "link_run (recorded echo_client) push_script (link_session_new 0 3)"
  have "pushes (snd ?r) = [(''p'', \<lparr>push_session = ((), [5, 7]), nextSequence = 2\<rparr>)]"
    by (simp add: push_script_def recorded_def echo_client_def link_session_new_def push_open_def push_item_def ensureCapacity_def isolated_def bm_mem_def Let_def)
  then have "map_of (pushes (snd ?r)) ''p'' = Some \<lparr>push_session = ((), [5, 7]), nextSequence = 2\<rparr>" by simp
  from push_items_once_in_order [OF prod.collapse [symmetric] this] show ?thesis by (simp add: Let_def)
qed

section \<open>Every reachable session\<close>

inductive session_step :: "('c, 'v, 'e, 'p) link_client \<Rightarrow> ('c, 'e, 'p) CoreLinkSession \<Rightarrow> ('c, 'e, 'p) CoreLinkSession \<Rightarrow> bool" for cl where
  dispatched: "dispatch cl r s = (resp, t) \<Longrightarrow> session_step cl s t"
| delivered: "(nextWatchEvent s :: ('v, 'e) CoreLinkResponse awaited \<times> ('c, 'e, 'p) CoreLinkSession) = (out, t) \<Longrightarrow> session_step cl s t"
| batched: "(nextWatchBatch debug s :: ('v, 'e) CoreLinkResponse list awaited \<times> ('c, 'e, 'p) CoreLinkSession) = (outs, t) \<Longrightarrow> session_step cl s t"
| arrived: "session_step cl s (arrive f s)"

lemma poll_round_keys: "map fst (snd (poll_round is ws)) = map fst ws"
  by (simp add: poll_round_first split: list.split)

definition fits :: "('c, 'e, 'p) CoreLinkSession \<Rightarrow> ('c, 'e, 'p) CoreLinkSession \<Rightarrow> bool" where
  "fits s t \<longleftrightarrow> pushes t = pushes s \<and> maxStreams t = maxStreams s \<and> bm_wf (watches t) \<and> length (watches t) \<le> length (watches s)"

lemma fits_ok: "session_ok s \<Longrightarrow> fits s t \<Longrightarrow> session_ok t \<and> maxStreams t = maxStreams s"
  by (auto simp: fits_def session_ok_def)

lemma nextWatchEvent_fits:
  assumes "bm_wf (watches s)"
  shows "fits s (snd (nextWatchEvent s :: ('v, 'e) CoreLinkResponse awaited \<times> ('c, 'e, 'p) CoreLinkSession))"
proof -
  obtain ans ws where r: "(poll_round (poll_order (lastWatch s) (map fst (watches s))) (watches s)
      :: (string \<times> ('v, 'e option) reply) option \<times> (string, 'e CoreEventStream) bmap) = (ans, ws)" by fastforce
  from poll_round_keys [of "poll_order (lastWatch s) (map fst (watches s))" "watches s", where ?'b = 'v] r
  have keys: "map fst ws = map fst (watches s)" by simp
  then have ws: "bm_wf ws" "length ws = length (watches s)" using assms by (simp_all add: bm_wf_def) (metis length_map)
  then have "length (bm_remove j ws) \<le> length (watches s)" for j by (metis length_bm_remove)
  with ws assms r show ?thesis
    by (simp add: nextWatchEvent_def fits_def Let_def split: option.split prod.split sum.split)
qed

lemma drain_all_keys: "fst ` set (snd (drain_all debug ws :: ('v, 'e) CoreLinkResponse list \<times> _)) \<subseteq> fst ` set ws \<and> length (snd (drain_all debug ws :: ('v, 'e) CoreLinkResponse list \<times> _)) \<le> length ws"
proof (induction ws)
  case (Cons w ws)
  obtain j q where w: "w = (j, q)" by fastforce
  from Cons show ?case by (simp add: w drain_all_Cons case_prod_unfold Let_def) blast
qed simp

lemma drain_all_wf: "bm_wf ws \<Longrightarrow> bm_wf (snd (drain_all debug ws :: ('v, 'e) CoreLinkResponse list \<times> _))"
proof (induction ws)
  case (Cons w ws)
  obtain j q where w: "w = (j, q)" by fastforce
  have "\<forall>k\<in>fst ` set (snd (drain_all debug ws :: ('v, 'e) CoreLinkResponse list \<times> _)). j < k"
    using Cons.prems drain_all_keys [of debug ws, where ?'v = 'v] by (simp only: w bm_wf_Cons fst_conv) blast
  with Cons show ?case by (simp add: w drain_all_Cons case_prod_unfold Let_def bm_wf_Cons)
qed simp

lemma nextWatchBatch_fits:
  assumes "bm_wf (watches s)"
  shows "fits s (snd (nextWatchBatch debug s :: ('v, 'e) CoreLinkResponse list awaited \<times> ('c, 'e, 'p) CoreLinkSession))"
proof -
  obtain out u where r: "(nextWatchEvent s :: ('v, 'e) CoreLinkResponse awaited \<times> ('c, 'e, 'p) CoreLinkSession) = (out, u)" by fastforce
  from nextWatchEvent_fits [OF assms, where ?'v = 'v] r have u: "fits s u" by simp
  with drain_all_keys [of debug "watches u", where ?'v = 'v] drain_all_wf [of "watches u" debug, where ?'v = 'v] have "fits s (u\<lparr>watches := snd (drain_all debug (watches u)
      :: ('v, 'e) CoreLinkResponse list \<times> (string, 'e CoreEventStream) bmap)\<rparr>)"
    by (auto simp: fits_def)
  with u r show ?thesis by (simp add: nextWatchBatch_def case_prod_unfold Let_def split: awaited.split)
qed

lemma session_step_ok:
  fixes cl :: "('c, 'v, 'e, 'p) link_client"
  assumes "session_step cl s t" and ok: "session_ok s"
  shows "session_ok t \<and> maxStreams t = maxStreams s"
proof -
  from ok have wf: "bm_wf (watches s)" by (simp add: session_ok_def)
  from assms(1) show ?thesis
  proof cases
    case (dispatched r resp)
    with dispatch_ok [OF ok, of cl r] show ?thesis by simp
  next
    case (delivered out)
    with nextWatchEvent_fits [OF wf, where ?'v = 'v] have "fits s t" by simp
    with ok show ?thesis by (rule fits_ok)
  next
    case (batched debug outs)
    with nextWatchBatch_fits [OF wf, of debug, where ?'v = 'v] have "fits s t" by simp
    with ok show ?thesis by (rule fits_ok)
  next
    case (arrived f)
    from wf have "fits s t" by (simp add: arrived fits_def) (simp add: arrive_def)
    with ok show ?thesis by (rule fits_ok)
  qed
qed

text \<open>The watches and input streams of a session never exceed its limit, whatever its caller, its client and its
  sources do.\<close>

theorem stream_limit_holds:
  assumes "(session_step cl)\<^sup>*\<^sup>* (link_session_new c n) s"
  shows "length (watches s) + length (pushes s) \<le> n"
proof -
  from assms have "session_ok s \<and> maxStreams s = n"
    by (induction rule: rtranclp_induct) (auto simp: session_ok_def link_session_new_def dest: session_step_ok)
  then show ?thesis by (simp add: session_ok_def)
qed

end
