(* ===== verification/Link_Codec.thy ===== *)
theory Link_Codec
  imports Link_Session "HOL-Library.Word"
begin

text \<open>
  Reading Link messages without decoding them (\<open>foundation/link/src/codec.rs\<close> and \<open>operation_codec.rs\<close>): the
  scanner that skips encoded values with a counter instead of recursion, the selection of fields, the
  envelopes of operations, and the references to shared buffers.

  The markers of MessagePack come from the crate \<open>rmp\<close>: \<open>from_u8\<close> is the parameter \<open>mk\<close>.  The scanner is right for
  whatever markers the bytes stand for.  A cursor is the list of the bytes after it.
\<close>

section \<open>Markers and cursors\<close>

type_synonym byte = "8 word"
type_synonym bytes = "byte list"

datatype Marker = FixPos nat | FixNeg int | FixMap nat | FixArray nat | FixStr nat | Null | Reserved | MFalse | MTrue
  | Bin8 | Bin16 | Bin32 | Ext8 | Ext16 | Ext32 | F32 | F64 | U8 | U16 | U32 | U64 | I8 | I16 | I32 | I64
  | FixExt1 | FixExt2 | FixExt4 | FixExt8 | FixExt16 | Str8 | Str16 | Str32 | Array16 | Array32 | Map16 | Map32

definition invalid :: fault where
  "invalid = Err ''MessagePack decode error: Invalid MessagePack map field''"

definition cursor_take :: "nat \<Rightarrow> bytes \<Rightarrow> (bytes \<times> bytes) res" where
  "cursor_take n rest = (if n \<le> length rest then Inr (take n rest, drop n rest) else Inl invalid)"

definition cursor_marker :: "(byte \<Rightarrow> Marker) \<Rightarrow> bytes \<Rightarrow> (Marker \<times> bytes) res" where
  "cursor_marker mk rest = rbind (cursor_take 1 rest) (\<lambda>(b, rest). Inr (mk (hd b), rest))"

definition cursor_number :: "nat \<Rightarrow> bytes \<Rightarrow> (nat \<times> bytes) res" where
  "cursor_number width rest =
     rbind (cursor_take width rest) (\<lambda>(bs, rest).
       rbind (rfold (\<lambda>b v. ok_or invalid (Option.bind (usize_checked_mul v 256) (\<lambda>v. usize_checked_add v (unat b)))) bs 0)
         (\<lambda>n. Inr (n, rest)))"

text \<open>What follows a marker: the length of its payload and the number of values inside it.\<close>

fun marker_extent :: "Marker \<Rightarrow> bytes \<Rightarrow> (nat \<times> nat \<times> bytes) res" where
  "marker_extent (FixPos n) r = Inr (0, 0, r)"
| "marker_extent (FixNeg n) r = Inr (0, 0, r)"
| "marker_extent Null r = Inr (0, 0, r)"
| "marker_extent MFalse r = Inr (0, 0, r)"
| "marker_extent MTrue r = Inr (0, 0, r)"
| "marker_extent U8 r = Inr (1, 0, r)"
| "marker_extent I8 r = Inr (1, 0, r)"
| "marker_extent U16 r = Inr (2, 0, r)"
| "marker_extent I16 r = Inr (2, 0, r)"
| "marker_extent U32 r = Inr (4, 0, r)"
| "marker_extent I32 r = Inr (4, 0, r)"
| "marker_extent F32 r = Inr (4, 0, r)"
| "marker_extent U64 r = Inr (8, 0, r)"
| "marker_extent I64 r = Inr (8, 0, r)"
| "marker_extent F64 r = Inr (8, 0, r)"
| "marker_extent (FixStr n) r = Inr (n, 0, r)"
| "marker_extent Str8 r = rbind (cursor_number 1 r) (\<lambda>(n, r). Inr (n, 0, r))"
| "marker_extent Bin8 r = rbind (cursor_number 1 r) (\<lambda>(n, r). Inr (n, 0, r))"
| "marker_extent Str16 r = rbind (cursor_number 2 r) (\<lambda>(n, r). Inr (n, 0, r))"
| "marker_extent Bin16 r = rbind (cursor_number 2 r) (\<lambda>(n, r). Inr (n, 0, r))"
| "marker_extent Str32 r = rbind (cursor_number 4 r) (\<lambda>(n, r). Inr (n, 0, r))"
| "marker_extent Bin32 r = rbind (cursor_number 4 r) (\<lambda>(n, r). Inr (n, 0, r))"
| "marker_extent FixExt1 r = Inr (2, 0, r)"
| "marker_extent FixExt2 r = Inr (3, 0, r)"
| "marker_extent FixExt4 r = Inr (5, 0, r)"
| "marker_extent FixExt8 r = Inr (9, 0, r)"
| "marker_extent FixExt16 r = Inr (17, 0, r)"
| "marker_extent Ext8 r = rbind (cursor_number 1 r) (\<lambda>(n, r). rbind (ok_or invalid (usize_checked_add n 1)) (\<lambda>n. Inr (n, 0, r)))"
| "marker_extent Ext16 r = rbind (cursor_number 2 r) (\<lambda>(n, r). rbind (ok_or invalid (usize_checked_add n 1)) (\<lambda>n. Inr (n, 0, r)))"
| "marker_extent Ext32 r = rbind (cursor_number 4 r) (\<lambda>(n, r). rbind (ok_or invalid (usize_checked_add n 1)) (\<lambda>n. Inr (n, 0, r)))"
| "marker_extent (FixArray n) r = Inr (0, n, r)"
| "marker_extent Array16 r = rbind (cursor_number 2 r) (\<lambda>(n, r). Inr (0, n, r))"
| "marker_extent Array32 r = rbind (cursor_number 4 r) (\<lambda>(n, r). Inr (0, n, r))"
| "marker_extent (FixMap n) r = Inr (0, n * 2, r)"
| "marker_extent Map16 r = rbind (cursor_number 2 r) (\<lambda>(n, r). rbind (ok_or invalid (usize_checked_mul n 2)) (\<lambda>n. Inr (0, n, r)))"
| "marker_extent Map32 r = rbind (cursor_number 4 r) (\<lambda>(n, r). rbind (ok_or invalid (usize_checked_mul n 2)) (\<lambda>n. Inr (0, n, r)))"
| "marker_extent Reserved r = Inl invalid"

lemma cursor_take_Inr [simp]: "cursor_take n r = Inr (a, s) \<longleftrightarrow> n \<le> length r \<and> a = take n r \<and> s = drop n r"
  by (auto simp: cursor_take_def)

lemma cursor_marker_Inr [simp]: "cursor_marker mk r = Inr (m, s) \<longleftrightarrow> (\<exists>b. r = b # s \<and> m = mk b)"
  by (cases r) (auto simp: cursor_marker_def cursor_take_def)

lemma cursor_number_shrinks: "cursor_number w r = Inr (n, s) \<Longrightarrow> length s \<le> length r"
  by (auto simp: cursor_number_def cursor_take_def split: if_splits)

lemma marker_extent_shrinks: "marker_extent m r = Inr (l, c, s) \<Longrightarrow> length s \<le> length r"
  by (cases m) (auto dest: cursor_number_shrinks)

text \<open>The loop of \<open>skip\<close>: \<open>remaining\<close> values are still to be passed over.\<close>

function skip_loop :: "(byte \<Rightarrow> Marker) \<Rightarrow> nat \<Rightarrow> bytes \<Rightarrow> bytes res" where
  "skip_loop mk 0 rest = Inr rest"
| "skip_loop mk (Suc n) rest =
     rbind (cursor_marker mk rest) (\<lambda>(m, r).
       rbind (marker_extent m r) (\<lambda>(len, children, r).
         rbind (cursor_take len r) (\<lambda>(_, r).
           rbind (ok_or invalid (usize_checked_add n children)) (\<lambda>remaining.
             if length r < remaining then Inl invalid else skip_loop mk remaining r))))"
  by pat_completeness auto
termination
  by (relation "measure (\<lambda>(mk, n, r). length r)") (auto dest!: marker_extent_shrinks)

definition skip :: "(byte \<Rightarrow> Marker) \<Rightarrow> bytes \<Rightarrow> bytes res" where
  "skip mk rest = skip_loop mk 1 rest"

section \<open>Fields\<close>

text \<open>\<open>std::str::from_utf8\<close>: the well-formed sequences of UTF-8.\<close>

definition utf8_tail :: "byte \<Rightarrow> bool" where "utf8_tail b \<longleftrightarrow> 0x80 \<le> b \<and> b \<le> 0xBF"

fun valid_utf8 :: "bytes \<Rightarrow> bool" where
  "valid_utf8 [] = True"
| "valid_utf8 (a # r) =
     (if a < 0x80 then valid_utf8 r
      else if 0xC2 \<le> a \<and> a \<le> 0xDF then (case r of b # r \<Rightarrow> utf8_tail b \<and> valid_utf8 r | _ \<Rightarrow> False)
      else if 0xE0 \<le> a \<and> a \<le> 0xEF then (case r of b # c # r \<Rightarrow>
        utf8_tail b \<and> utf8_tail c \<and> (a = 0xE0 \<longrightarrow> 0xA0 \<le> b) \<and> (a = 0xED \<longrightarrow> b \<le> 0x9F) \<and> valid_utf8 r | _ \<Rightarrow> False)
      else if 0xF0 \<le> a \<and> a \<le> 0xF4 then (case r of b # c # d # r \<Rightarrow>
        utf8_tail b \<and> utf8_tail c \<and> utf8_tail d \<and> (a = 0xF0 \<longrightarrow> 0x90 \<le> b) \<and> (a = 0xF4 \<longrightarrow> b \<le> 0x8F) \<and> valid_utf8 r | _ \<Rightarrow> False)
      else False)"

definition str_bytes :: "string \<Rightarrow> bytes" where
  "str_bytes s = map of_char s"

definition map_count :: "Marker \<Rightarrow> bytes \<Rightarrow> (nat \<times> bytes) res" where
  "map_count m r = (case m of FixMap n \<Rightarrow> Inr (n, r) | Map16 \<Rightarrow> cursor_number 2 r | Map32 \<Rightarrow> cursor_number 4 r | _ \<Rightarrow> Inl invalid)"

definition string_length :: "Marker \<Rightarrow> bytes \<Rightarrow> (nat \<times> bytes) res" where
  "string_length m r = (case m of FixStr n \<Rightarrow> Inr (n, r) | Str8 \<Rightarrow> cursor_number 1 r | Str16 \<Rightarrow> cursor_number 2 r
     | Str32 \<Rightarrow> cursor_number 4 r | _ \<Rightarrow> Inl invalid)"

definition read_key :: "(byte \<Rightarrow> Marker) \<Rightarrow> bytes \<Rightarrow> (bytes \<times> bytes) res" where
  "read_key mk r =
     rbind (cursor_marker mk r) (\<lambda>(m, r). rbind (string_length m r) (\<lambda>(n, r). rbind (cursor_take n r) (\<lambda>(key, r).
       if valid_utf8 key then Inr (key, r) else Inl invalid)))"

text \<open>The bytes between two positions of the cursor.\<close>

definition passed :: "bytes \<Rightarrow> bytes \<Rightarrow> bytes" where
  "passed before after = take (length before - length after) before"

fun map_fields :: "(byte \<Rightarrow> Marker) \<Rightarrow> bytes \<Rightarrow> nat \<Rightarrow> bytes option \<Rightarrow> bytes \<Rightarrow> (bytes option \<times> bytes) res" where
  "map_fields mk field 0 selected r = Inr (selected, r)"
| "map_fields mk field (Suc n) selected r =
     rbind (read_key mk r) (\<lambda>(key, r).
       rbind (skip mk r) (\<lambda>s.
         if key = field
         then if selected \<noteq> None then Inl invalid else map_fields mk field n (Some (passed r s)) s
         else map_fields mk field n selected s))"

definition linkMapField :: "(byte \<Rightarrow> Marker) \<Rightarrow> bytes \<Rightarrow> string \<Rightarrow> bytes option res" where
  "linkMapField mk bs field =
     rbind (cursor_marker mk bs) (\<lambda>(m, r).
       rbind (map_count m r) (\<lambda>(count, r).
         rbind (map_fields mk (str_bytes field) count None r) (\<lambda>(selected, r).
           if r \<noteq> [] then Inl invalid else Inr selected)))"

text \<open>The loop over an array: \<open>k\<close> is the index of the next element.\<close>

fun array_fields :: "(byte \<Rightarrow> Marker) \<Rightarrow> nat \<Rightarrow> nat \<Rightarrow> nat \<Rightarrow> bytes option \<Rightarrow> bytes \<Rightarrow> (bytes option \<times> bytes) res" where
  "array_fields mk index k 0 selected r = Inr (selected, r)"
| "array_fields mk index k (Suc n) selected r =
     rbind (skip mk r) (\<lambda>s. array_fields mk index (k + 1) n (if k = index then Some (passed r s) else selected) s)"

definition array_count :: "Marker \<Rightarrow> bytes \<Rightarrow> (nat \<times> bytes) res" where
  "array_count m r = (case m of FixArray n \<Rightarrow> Inr (n, r) | Array16 \<Rightarrow> cursor_number 2 r | Array32 \<Rightarrow> cursor_number 4 r | _ \<Rightarrow> Inl invalid)"

definition linkStructField :: "(byte \<Rightarrow> Marker) \<Rightarrow> bytes \<Rightarrow> string \<Rightarrow> nat \<Rightarrow> bytes option res" where
  "linkStructField mk bs field index =
     rbind (cursor_marker mk bs) (\<lambda>(m, r).
       if (case m of FixMap _ \<Rightarrow> True | Map16 \<Rightarrow> True | Map32 \<Rightarrow> True | _ \<Rightarrow> False) then linkMapField mk bs field
       else rbind (array_count m r) (\<lambda>(count, r).
         rbind (array_fields mk index 0 count None r) (\<lambda>(selected, r).
           if r \<noteq> [] then Inl invalid else Inr selected)))"

section \<open>Envelopes\<close>

definition missing_field :: "string \<Rightarrow> fault" where
  "missing_field name = Err (''MessagePack decode error: Missing Link '' @ name)"

text \<open>\<open>decodeLink\<close>, the typed decoder of serde, is a parameter; here it reads the tag.\<close>

definition envelope :: "(byte \<Rightarrow> Marker) \<Rightarrow> (bytes \<Rightarrow> 't res) \<Rightarrow> bytes \<Rightarrow> ('t \<times> bytes) res" where
  "envelope mk decode_tag bs =
     (let required = (\<lambda>name index. rbind (linkStructField mk bs name index) (ok_or (missing_field name)))
      in rbind (required ''type'' 0) (\<lambda>t. rbind (decode_tag t) (\<lambda>tag.
         rbind (required ''body'' 1) (\<lambda>body.
           rbind (if bs \<noteq> [] \<and> (0x90 \<le> hd bs \<and> hd bs \<le> 0x9f \<or> hd bs = 0xdc \<or> hd bs = 0xdd)
             then linkStructField mk bs [] 2 else Inr None) (\<lambda>extra.
               if extra \<noteq> None then Inl (Err ''MessagePack decode error: Extra Link envelope field'')
               else Inr (tag, body))))))"

definition requireVariantMap :: "bytes \<Rightarrow> unit res" where
  "requireVariantMap body =
     (if body \<noteq> [] \<and> (0x80 \<le> hd body \<and> hd body \<le> 0x8f \<or> hd body = 0xde \<or> hd body = 0xdf) then Inr ()
      else Inl (Err ''MessagePack decode error: Expected Link struct variant map''))"

datatype Operation = CallOperation | WatchOperation | PushOperation
datatype WatchKind = SnapshotKind | OpenKind | CloseKind
datatype PushKind = OpenPushKind | ItemKind | ClosePushKind

text \<open>The typed decoders of serde for the tags and the bodies.\<close>

record 'v link_decoders =
  dec_operation :: "bytes \<Rightarrow> Operation res"
  dec_watch_kind :: "bytes \<Rightarrow> WatchKind res"
  dec_push_kind :: "bytes \<Rightarrow> PushKind res"
  dec_call :: "bytes \<Rightarrow> 'v CoreCallRequest res"
  dec_watch :: "bytes \<Rightarrow> 'v CoreWatchRequest res"
  dec_push :: "bytes \<Rightarrow> 'v CorePushRequest res"
  dec_item :: "bytes \<Rightarrow> 'v CorePushItem res"
  dec_close_request :: "bytes \<Rightarrow> string res"
  dec_close_push :: "bytes \<Rightarrow> string res"

definition decode_watch_request :: "(byte \<Rightarrow> Marker) \<Rightarrow> 'v link_decoders \<Rightarrow> bytes \<Rightarrow> 'v CoreLinkWatchRequest res" where
  "decode_watch_request mk d bs =
     rbind (envelope mk (dec_watch_kind d) bs) (\<lambda>(kind, body). case kind of
       SnapshotKind \<Rightarrow> rbind (dec_watch d body) (\<lambda>r. Inr (WatchSnapshot r))
     | OpenKind \<Rightarrow> rbind (dec_watch d body) (\<lambda>r. Inr (WatchOpen r))
     | CloseKind \<Rightarrow> rbind (requireVariantMap body) (\<lambda>_. rbind (dec_close_request d body) (\<lambda>i. Inr (WatchClose i))))"

definition decode_push_request :: "(byte \<Rightarrow> Marker) \<Rightarrow> 'v link_decoders \<Rightarrow> bytes \<Rightarrow> 'v CoreLinkPushRequestMessage res" where
  "decode_push_request mk d bs =
     rbind (envelope mk (dec_push_kind d) bs) (\<lambda>(kind, body). case kind of
       OpenPushKind \<Rightarrow> rbind (dec_push d body) (\<lambda>r. Inr (PushOpen r))
     | ItemKind \<Rightarrow> rbind (dec_item d body) (\<lambda>r. Inr (PushItem r))
     | ClosePushKind \<Rightarrow> rbind (requireVariantMap body) (\<lambda>_. rbind (dec_close_push d body) (\<lambda>i. Inr (PushClose i))))"

definition decodeLinkRequest :: "(byte \<Rightarrow> Marker) \<Rightarrow> 'v link_decoders \<Rightarrow> bytes \<Rightarrow> 'v CoreLinkRequest res" where
  "decodeLinkRequest mk d bs =
     rbind (envelope mk (dec_operation d) bs) (\<lambda>(operation, body). case operation of
       CallOperation \<Rightarrow> rbind (dec_call d body) (\<lambda>r. Inr (CallRequest r))
     | WatchOperation \<Rightarrow> rbind (decode_watch_request mk d body) (\<lambda>r. Inr (WatchRequest r))
     | PushOperation \<Rightarrow> rbind (decode_push_request mk d body) (\<lambda>r. Inr (PushRequest r)))"

section \<open>Shared buffers\<close>

definition SHARED_BUFFER_EXT :: int where "SHARED_BUFFER_EXT = 0x42"

text \<open>\<open>to_be_bytes\<close> of a word of \<open>k\<close> bytes; \<open>from_be_bytes\<close> is \<open>big_endian\<close>.\<close>

fun be_bytes :: "nat \<Rightarrow> nat \<Rightarrow> bytes" where
  "be_bytes 0 n = []"
| "be_bytes (Suc k) n = be_bytes k (n div 256) @ [of_nat n]"

definition big_endian :: "bytes \<Rightarrow> nat" where
  "big_endian bs = foldl (\<lambda>v b. v * 256 + unat b) 0 bs"

datatype shared_bytes = Extension int bytes | PlainBytes bytes

text \<open>The thread-local table of captured buffers is \<open>None\<close> outside a scope.\<close>

definition serialize_shared_bytes :: "bytes \<Rightarrow> bytes list option \<Rightarrow> shared_bytes \<times> bytes list option" where
  "serialize_shared_bytes bs table =
     (case table of
        None \<Rightarrow> (PlainBytes bs, None)
      | Some buffers \<Rightarrow>
          (Extension SHARED_BUFFER_EXT (be_bytes 8 (length buffers) @ replicate 8 0 @ be_bytes 8 (length bs)), Some (buffers @ [bs])))"

definition shared_range :: "string \<Rightarrow> bytes list option \<Rightarrow> nat \<Rightarrow> nat \<Rightarrow> nat \<Rightarrow> bytes res" where
  "shared_range absent table index offset n =
     rbind (ok_or (Err ''shared buffer range overflow'') (usize_checked_add offset n)) (\<lambda>stop.
       rbind (ok_or (Err absent) table) (\<lambda>buffers.
         if length buffers \<le> index then Inl (Err ''shared buffer index is invalid'')
         else if length (buffers ! index) < stop then Inl (Err ''shared buffer range is invalid'')
         else Inr (take (stop - offset) (drop offset (buffers ! index)))))"

definition resolve_shared_bytes :: "int \<Rightarrow> bytes \<Rightarrow> bytes list option \<Rightarrow> bytes res" where
  "resolve_shared_bytes tag payload table =
     (if tag \<noteq> SHARED_BUFFER_EXT \<or> length payload \<noteq> 24 then Inl (Err ''invalid shared buffer extension'')
      else shared_range ''shared buffer context is absent'' table (big_endian (take 8 payload))
        (big_endian (take 8 (drop 8 payload))) (big_endian (take 8 (drop 16 payload))))"

definition retain_encoded_buffer :: "nat \<Rightarrow> nat \<Rightarrow> nat \<Rightarrow> bytes list option \<Rightarrow> bytes res" where
  "retain_encoded_buffer index offset n table = shared_range ''shared encoding context is absent'' table index offset n"

section \<open>The grammar of encoded values\<close>

text \<open>A value is its marker, a header that holds a big-endian number, a payload and the values inside it.\<close>

fun header_width :: "Marker \<Rightarrow> nat" where
  "header_width m = (if m \<in> {Str8, Bin8, Ext8} then 1 else if m \<in> {Str16, Bin16, Ext16, Array16, Map16} then 2
     else if m \<in> {Str32, Bin32, Ext32, Array32, Map32} then 4 else 0)"

declare header_width.simps [simp del]

fun payload_length :: "Marker \<Rightarrow> nat \<Rightarrow> nat" where
  "payload_length (FixStr k) n = k"
| "payload_length m n = (if m \<in> {U8, I8} then 1 else if m \<in> {U16, I16, FixExt1} then 2 else if m = FixExt2 then 3
     else if m \<in> {U32, I32, F32} then 4 else if m = FixExt4 then 5 else if m \<in> {U64, I64, F64} then 8
     else if m = FixExt8 then 9 else if m = FixExt16 then 17
     else if m \<in> {Str8, Str16, Str32, Bin8, Bin16, Bin32} then n else if m \<in> {Ext8, Ext16, Ext32} then n + 1 else 0)"

fun inner_values :: "Marker \<Rightarrow> nat \<Rightarrow> nat" where
  "inner_values (FixArray k) n = k"
| "inner_values (FixMap k) n = 2 * k"
| "inner_values m n = (if m \<in> {Array16, Array32} then n else if m \<in> {Map16, Map32} then 2 * n else 0)"

inductive encoded :: "(byte \<Rightarrow> Marker) \<Rightarrow> nat \<Rightarrow> bytes \<Rightarrow> bool" for mk where
  encoded_none: "encoded mk 0 []"
| encoded_one: "mk b \<noteq> Reserved \<Longrightarrow> length h = header_width (mk b) \<Longrightarrow> length p = payload_length (mk b) (big_endian h) \<Longrightarrow>
    encoded mk (inner_values (mk b) (big_endian h)) inner \<Longrightarrow> encoded mk n others \<Longrightarrow>
    encoded mk (Suc n) (b # h @ p @ inner @ others)"

inductive_simps encoded_0 [simp]: "encoded mk 0 bs"
inductive_cases encoded_SucE: "encoded mk (Suc n) bs"

lemma encoded_append: "encoded mk a x \<Longrightarrow> encoded mk b y \<Longrightarrow> encoded mk (a + b) (x @ y)"
proof (induction rule: encoded.induct)
  case (encoded_one c h p inner n others)
  from encoded.encoded_one [OF encoded_one.hyps(1-4) encoded_one.IH(2) [OF encoded_one.prems]] show ?case by simp
qed simp

lemma encoded_split: "encoded mk (a + b) z \<Longrightarrow> \<exists>x y. z = x @ y \<and> encoded mk a x \<and> encoded mk b y"
proof (induction a arbitrary: z)
  case 0
  then show ?case by simp
next
  case (Suc a)
  from Suc.prems have "encoded mk (Suc (a + b)) z" by simp
  then obtain c h p inner others where z: "z = c # h @ p @ inner @ others" "mk c \<noteq> Reserved" "length h = header_width (mk c)"
    "length p = payload_length (mk c) (big_endian h)" "encoded mk (inner_values (mk c) (big_endian h)) inner" "encoded mk (a + b) others"
    by (elim encoded_SucE)
  from Suc.IH [OF z(6)] obtain x y where xy: "others = x @ y" "encoded mk a x" "encoded mk b y" by blast
  from encoded_one [OF z(2-5) xy(2)] xy z(1) show ?case
    by (intro exI [of _ "c # h @ p @ inner @ x"] exI [of _ y]) simp
qed

lemma encoded_length: "encoded mk n bs \<Longrightarrow> n \<le> length bs"
  by (induction rule: encoded.induct) simp_all

section \<open>The scanner follows the grammar\<close>

lemma byte_less: "unat (b :: byte) < 256"
  using unsigned_less [of b] by simp

lemma big_endian_bound: "foldl (\<lambda>v b. v * 256 + unat b) v (bs :: bytes) < (v + 1) * 256 ^ length bs"
proof (induction bs arbitrary: v)
  case Nil
  then show ?case by simp
next
  case (Cons b bs)
  have "unat b < 256" by (rule byte_less)
  then have "v * 256 + unat b + 1 \<le> (v + 1) * 256" by simp
  then have "(v * 256 + unat b + 1) * 256 ^ length bs \<le> (v + 1) * 256 * 256 ^ length bs" by (rule mult_le_mono1)
  also have "(v + 1) * 256 * 256 ^ length bs = (v + 1) * 256 ^ length (b # bs)" by (simp only: mult.assoc length_Cons power_Suc)
  finally show ?case using Cons.IH [of "v * 256 + unat b"] by (simp only: foldl_Cons)
qed

lemma checked_number:
  "(v + 1) * 256 ^ length bs \<le> 2 ^ 64 \<Longrightarrow>
   rfold (\<lambda>b v. ok_or invalid (Option.bind (usize_checked_mul v 256) (\<lambda>v. usize_checked_add v (unat b)))) (bs :: bytes) v
     = Inr (foldl (\<lambda>v b. v * 256 + unat b) v bs)"
proof (induction bs arbitrary: v)
  case Nil
  then show ?case by simp
next
  case (Cons b bs)
  have "unat b < 256" by (rule byte_less)
  then have step: "v * 256 + unat b + 1 \<le> (v + 1) * 256" by simp
  then have "(v * 256 + unat b + 1) * 256 ^ length bs \<le> (v + 1) * 256 * 256 ^ length bs" by (rule mult_le_mono1)
  also have "(v + 1) * 256 * 256 ^ length bs = (v + 1) * 256 ^ length (b # bs)" by (simp only: mult.assoc length_Cons power_Suc)
  also note Cons.prems
  finally have le: "(v * 256 + unat b + 1) * 256 ^ length bs \<le> 2 ^ 64" .
  have "(v * 256 + unat b + 1) * 1 \<le> (v * 256 + unat b + 1) * 256 ^ length bs" by (rule mult_le_mono2) simp
  from le_trans [OF this le] have "v * 256 + unat b + 1 \<le> 2 ^ 64" by (simp only: mult_1_right)
  then have "v * 256 + unat b \<le> usize_max" by (simp add: usize_max_def)
  then have "usize_checked_mul v 256 = Some (v * 256)" "usize_checked_add (v * 256) (unat b) = Some (v * 256 + unat b)"
    by (simp_all add: usize_checked_mul_def usize_checked_add_def)
  with Cons.IH [OF le] show ?case by simp
qed

lemma cursor_number_iff:
  assumes "w \<le> 4"
  shows "cursor_number w r = Inr (n, s) \<longleftrightarrow> (\<exists>h. r = h @ s \<and> length h = w \<and> n = big_endian h)"
proof -
  have num: "rfold (\<lambda>b v. ok_or invalid (Option.bind (usize_checked_mul v 256) (\<lambda>v. usize_checked_add v (unat b)))) h 0 = Inr (big_endian h)"
    if "length h = w" for h :: bytes
  proof -
    have "(256 :: nat) ^ length h \<le> 256 ^ 4" using assms that by (intro power_increasing) simp_all
    then show ?thesis unfolding big_endian_def by (intro checked_number) simp
  qed
  show ?thesis
  proof
    assume "cursor_number w r = Inr (n, s)"
    then have "w \<le> length r" "s = drop w r" "rfold (\<lambda>b v. ok_or invalid (Option.bind (usize_checked_mul v 256) (\<lambda>v. usize_checked_add v (unat b)))) (take w r) 0 = Inr n"
      by (auto simp: cursor_number_def)
    with num [of "take w r"] show "\<exists>h. r = h @ s \<and> length h = w \<and> n = big_endian h"
      by (intro exI [of _ "take w r"]) simp
  next
    assume "\<exists>h. r = h @ s \<and> length h = w \<and> n = big_endian h"
    then obtain h where h: "r = h @ s" "length h = w" "n = big_endian h" by blast
    with num [OF h(2)] show "cursor_number w r = Inr (n, s)" by (auto simp: cursor_number_def)
  qed
qed

lemma big_endian_small: "length h \<le> 4 \<Longrightarrow> big_endian h < 2 ^ 32"
proof -
  assume "length h \<le> 4"
  then have "(256 :: nat) ^ length h \<le> 256 ^ 4" by (intro power_increasing) simp_all
  with big_endian_bound [of 0 h] show ?thesis by (simp add: big_endian_def)
qed

lemma marker_extent_iff:
  "marker_extent m r = Inr (l, c, s) \<longleftrightarrow> m \<noteq> Reserved \<and> (\<exists>h. r = h @ s \<and> length h = header_width m
     \<and> l = payload_length m (big_endian h) \<and> c = inner_values m (big_endian h))"
proof -
  have add: "usize_checked_add (big_endian h) (Suc 0) = Some (Suc (big_endian h))" "usize_checked_mul (big_endian h) 2 = Some (2 * big_endian h)"
    if "length h = 1 \<or> length h = 2 \<or> length h = 4" for h
    using that big_endian_small [of h] by (auto simp: usize_checked_add_def usize_checked_mul_def usize_max_def)
  show ?thesis
    by (cases m) (auto simp: header_width.simps cursor_number_iff add)
qed

lemma skip_loop_sound: "skip_loop mk n r = Inr s \<Longrightarrow> \<exists>v. r = v @ s \<and> encoded mk n v"
proof (induction mk n r rule: skip_loop.induct)
  case (1 mk rest)
  then show ?case by simp
next
  case (2 mk n rest)
  from 2(2) obtain b r1 len children r2 where m: "rest = b # r1" "marker_extent (mk b) r1 = Inr (len, children, r2)"
    and len: "len \<le> length r2" and go: "usize_checked_add n children = Some (n + children)"
      "skip_loop mk (n + children) (drop len r2) = Inr s"
    by (auto simp: usize_checked_add_def split: if_splits)
  from 2(2) m go have "n + children \<le> length (drop len r2)" by (auto split: if_splits)
  with 2(1) [of "(mk b, r1)" "mk b" r1 "(len, children, r2)" len "(children, r2)" children r2 "(take len r2, drop len r2)"
      "take len r2" "drop len r2" "n + children"] m len go
  obtain v where v: "drop len r2 = v @ s" "encoded mk (n + children) v" by auto
  then obtain inner others where im: "v = inner @ others" "encoded mk children inner" "encoded mk n others"
    using encoded_split [of mk children n v] by (auto simp: add.commute)
  from m(2) obtain h where h: "mk b \<noteq> Reserved" "r1 = h @ r2" "length h = header_width (mk b)"
    "len = payload_length (mk b) (big_endian h)" "children = inner_values (mk b) (big_endian h)"
    by (auto simp: marker_extent_iff)
  have "encoded mk (Suc n) (b # h @ take len r2 @ inner @ others)"
    using h im len by (intro encoded_one) simp_all
  moreover have "rest = (b # h @ take len r2 @ inner @ others) @ s"
    using m(1) h(2) v(1) im(1) by (metis append.assoc append_Cons append_take_drop_id)
  ultimately show ?case by blast
qed

lemma skip_loop_complete:
  "encoded mk n v \<Longrightarrow> length v + length s \<le> usize_max \<Longrightarrow> skip_loop mk n (v @ s) = Inr s"
proof (induction "length v" arbitrary: n v rule: less_induct)
  case less
  show ?case
  proof (cases n)
    case 0
    with less.prems(1) show ?thesis by simp
  next
    case (Suc k)
    with less.prems(1) obtain b h p inner others where v: "v = b # h @ p @ inner @ others" "mk b \<noteq> Reserved"
      "length h = header_width (mk b)" "length p = payload_length (mk b) (big_endian h)"
      "encoded mk (inner_values (mk b) (big_endian h)) inner" "encoded mk k others"
      by (auto elim: encoded_SucE)
    let ?c = "inner_values (mk b) (big_endian h)"
    have rest: "encoded mk (k + ?c) (inner @ others)" using encoded_append [OF v(5,6)] by (simp add: add.commute)
    from encoded_length [OF this] v(1) less.prems(2) have small: "k + ?c \<le> length (inner @ others @ s)" "k + ?c \<le> usize_max" by simp_all
    have "marker_extent (mk b) (h @ p @ inner @ others @ s) = Inr (length p, ?c, p @ inner @ others @ s)"
      using v(2-4) by (auto simp: marker_extent_iff)
    moreover have "skip_loop mk (k + ?c) ((inner @ others) @ s) = Inr s"
      using v(1) less.prems(2) by (intro less.hyps [OF _ rest]) simp_all
    ultimately show ?thesis using small by (simp add: Suc v(1) cursor_marker_def cursor_take_def usize_checked_add_def)
  qed
qed

text \<open>C34: The scanner, which keeps one counter and never recurses, passes over exactly one value of the recursive
  grammar whenever there is one at the cursor, and fails otherwise, whatever is nested inside it.\<close>

theorem skip_exactly_one_value:
  assumes "length r \<le> usize_max"
  shows "skip mk r = Inr s \<longleftrightarrow> (\<exists>v. r = v @ s \<and> encoded mk 1 v)"
proof
  show "skip mk r = Inr s \<Longrightarrow> \<exists>v. r = v @ s \<and> encoded mk 1 v" unfolding skip_def by (rule skip_loop_sound)
  show "skip mk r = Inr s" if "\<exists>v. r = v @ s \<and> encoded mk 1 v"
  proof -
    from that obtain v where v: "r = v @ s" "encoded mk 1 v" by blast
    with assms have "length v + length s \<le> usize_max" by simp
    from skip_loop_complete [OF v(2) this] v(1) show ?thesis by (simp only: skip_def)
  qed
qed

text \<open>The markers of the format, as an instance of the parameter.\<close>

definition msgpack_marker :: "byte \<Rightarrow> Marker" where
  "msgpack_marker b =
     (let n = unat b
      in if n < 0x80 then FixPos n else if n < 0x90 then FixMap (n - 0x80) else if n < 0xa0 then FixArray (n - 0x90)
         else if n < 0xc0 then FixStr (n - 0xa0) else if 0xe0 \<le> n then FixNeg (int n - 256)
         else [Null, Reserved, MFalse, MTrue, Bin8, Bin16, Bin32, Ext8, Ext16, Ext32, F32, F64, U8, U16, U32, U64,
           I8, I16, I32, I64, FixExt1, FixExt2, FixExt4, FixExt8, FixExt16, Str8, Str16, Str32, Array16, Array32, Map16, Map32] ! (n - 0xc0))"

lemma skip_loop_pos:
  "0 < n \<Longrightarrow> skip_loop mk n (b # r) = rbind (marker_extent (mk b) r) (\<lambda>(len, children, r).
     rbind (cursor_take len r) (\<lambda>(_, r). rbind (ok_or invalid (usize_checked_add (n - 1) children)) (\<lambda>remaining.
       if length r < remaining then Inl invalid else skip_loop mk remaining r)))"
  by (cases n) (simp_all add: cursor_marker_def cursor_take_def)

theorem skip_exactly_one_value_witness:
  "\<exists>v. [0x92, 0xa1, 0x78, 0x81, 0xa1, 0x79, 0xc3, 0x05] = v @ [0x05] \<and> encoded msgpack_marker 1 v"
proof -
  let ?r = "[0x92, 0xa1, 0x78, 0x81, 0xa1, 0x79, 0xc3, 0x05] :: bytes"
  have "msgpack_marker 0x92 = FixArray 2" "msgpack_marker 0xa1 = FixStr 1" "msgpack_marker 0x81 = FixMap 1" "msgpack_marker 0xc3 = MTrue"
    by (simp_all add: msgpack_marker_def)
  then have "skip msgpack_marker ?r = Inr [0x05]"
    by (simp add: skip_def skip_loop_pos cursor_take_def usize_checked_add_def usize_max_def del: skip_loop.simps(2))
  then show ?thesis using skip_exactly_one_value [of ?r msgpack_marker "[0x05]"] by (simp add: usize_max_def)
qed

section \<open>Selecting a field\<close>

fun is_string_marker :: "Marker \<Rightarrow> bool" where
  "is_string_marker (FixStr n) = True"
| "is_string_marker m = (m \<in> {Str8, Str16, Str32})"

fun is_map_marker :: "Marker \<Rightarrow> bool" where
  "is_map_marker (FixMap n) = True"
| "is_map_marker m = (m \<in> {Map16, Map32})"

fun is_array_marker :: "Marker \<Rightarrow> bool" where
  "is_array_marker (FixArray n) = True"
| "is_array_marker m = (m \<in> {Array16, Array32})"

definition encoded_key :: "(byte \<Rightarrow> Marker) \<Rightarrow> bytes \<Rightarrow> bytes \<Rightarrow> bool" where
  "encoded_key mk kb key \<longleftrightarrow> (\<exists>b h. kb = b # h @ key \<and> is_string_marker (mk b) \<and> length h = header_width (mk b)
     \<and> length key = payload_length (mk b) (big_endian h) \<and> valid_utf8 key)"

inductive encoded_fields :: "(byte \<Rightarrow> Marker) \<Rightarrow> (bytes \<times> bytes) list \<Rightarrow> bytes \<Rightarrow> bool" for mk where
  no_fields: "encoded_fields mk [] []"
| one_field: "encoded_key mk kb key \<Longrightarrow> encoded mk 1 v \<Longrightarrow> encoded_fields mk es others \<Longrightarrow>
    encoded_fields mk ((key, v) # es) (kb @ v @ others)"

inductive_simps encoded_fields_Nil [simp]: "encoded_fields mk [] bs"
inductive_simps encoded_fields_Cons: "encoded_fields mk (e # es) bs"

definition encoded_map :: "(byte \<Rightarrow> Marker) \<Rightarrow> (bytes \<times> bytes) list \<Rightarrow> bytes \<Rightarrow> bool" where
  "encoded_map mk es bs \<longleftrightarrow> (\<exists>b h body. bs = b # h @ body \<and> is_map_marker (mk b) \<and> length h = header_width (mk b)
     \<and> inner_values (mk b) (big_endian h) = 2 * length es \<and> encoded_fields mk es body)"

definition encoded_array :: "(byte \<Rightarrow> Marker) \<Rightarrow> bytes list \<Rightarrow> bytes \<Rightarrow> bool" where
  "encoded_array mk vs bs \<longleftrightarrow> (\<exists>b h. bs = b # h @ concat vs \<and> is_array_marker (mk b) \<and> length h = header_width (mk b)
     \<and> inner_values (mk b) (big_endian h) = length vs \<and> (\<forall>v\<in>set vs. encoded mk 1 v))"

text \<open>The value of a field, unless it occurs twice.\<close>

fun at_most_one :: "'a option \<Rightarrow> 'a list \<Rightarrow> 'a option option" where
  "at_most_one sel [] = Some sel"
| "at_most_one None [v] = Some (Some v)"
| "at_most_one sel vs = None"

definition field_values :: "bytes \<Rightarrow> (bytes \<times> bytes) list \<Rightarrow> bytes list" where
  "field_values f es = map snd (filter (\<lambda>e. fst e = f) es)"

lemma at_most_one_Cons: "at_most_one sel (v # vs) = (if sel = None then at_most_one (Some v) vs else None)"
  by (cases sel; cases vs) simp_all

lemma read_key_iff: "read_key mk r = Inr (key, s) \<longleftrightarrow> (\<exists>kb. r = kb @ s \<and> encoded_key mk kb key)"
proof -
  have len: "string_length m r = Inr (n, t) \<longleftrightarrow> is_string_marker m \<and> (\<exists>h. r = h @ t \<and> length h = header_width m \<and> n = payload_length m (big_endian h))" for m r n t
    by (cases m) (auto simp: string_length_def cursor_number_iff header_width.simps)
  have take_iff: "cursor_take n r = Inr (k, t) \<longleftrightarrow> r = k @ t \<and> length k = n" for n r k t
    by (auto simp: cursor_take_def)
  have "read_key mk r = Inr (key, s) \<longleftrightarrow> (\<exists>b r1 n r2. r = b # r1 \<and> string_length (mk b) r1 = Inr (n, r2) \<and> cursor_take n r2 = Inr (key, s) \<and> valid_utf8 key)"
    unfolding read_key_def by (auto split: if_splits)
  then show ?thesis unfolding len take_iff encoded_key_def by auto
qed

lemma skip_iff: "length r \<le> usize_max \<Longrightarrow> skip mk r = Inr s \<longleftrightarrow> (\<exists>v. r = v @ s \<and> encoded mk 1 v)"
  unfolding skip_def using skip_loop_sound [of mk 1 r s] skip_loop_complete [of mk 1 _ s] by (metis length_append)

lemma passed_append [simp]: "passed (v @ s) s = v"
  by (simp add: passed_def)

lemma map_fields_iff:
  "length r \<le> usize_max \<Longrightarrow> map_fields mk f n sel r = Inr (out, s) \<longleftrightarrow>
     (\<exists>es bs. length es = n \<and> r = bs @ s \<and> encoded_fields mk es bs \<and> at_most_one sel (field_values f es) = Some out)"
proof (induction n arbitrary: sel r)
  case 0
  then show ?case by (auto simp: field_values_def)
next
  case (Suc n)
  have sel_Cons: "at_most_one sel (field_values f ((key, v) # es)) = (if key = f then (if sel = None then at_most_one (Some v) (field_values f es) else None)
      else at_most_one sel (field_values f es))" for key v es sel
    by (simp add: field_values_def at_most_one_Cons)
  show ?case
  proof
    assume "map_fields mk f (Suc n) sel r = Inr (out, s)"
    then obtain key r1 r2 where k: "read_key mk r = Inr (key, r1)" "skip mk r1 = Inr r2"
      and go: "key = f \<longrightarrow> sel = None" "map_fields mk f n (if key = f then Some (passed r1 r2) else sel) r2 = Inr (out, s)"
      by (auto split: if_splits)
    from k(1) obtain kb where kb: "r = kb @ r1" "encoded_key mk kb key" by (auto simp: read_key_iff)
    with Suc.prems have "length r1 \<le> usize_max" by simp
    with k(2) obtain v where v: "r1 = v @ r2" "encoded mk 1 v" by (auto simp: skip_iff)
    with kb(1) Suc.prems have "length r2 \<le> usize_max" by simp
    from Suc.IH [OF this, THEN iffD1, OF go(2)] obtain es bs where es: "length es = n" "r2 = bs @ s" "encoded_fields mk es bs"
      "at_most_one (if key = f then Some (passed r1 r2) else sel) (field_values f es) = Some out" by blast
    with go(1) v(1) have "at_most_one sel (field_values f ((key, v) # es)) = Some out" by (auto simp: sel_Cons split: if_splits)
    with es kb v show "\<exists>es bs. length es = Suc n \<and> r = bs @ s \<and> encoded_fields mk es bs \<and> at_most_one sel (field_values f es) = Some out"
      by (intro exI [of _ "(key, v) # es"] exI [of _ "kb @ v @ bs"]) (auto intro: one_field)
  next
    assume "\<exists>es bs. length es = Suc n \<and> r = bs @ s \<and> encoded_fields mk es bs \<and> at_most_one sel (field_values f es) = Some out"
    then obtain key v es kb others where e: "length es = n" "r = (kb @ v @ others) @ s" "encoded_key mk kb key" "encoded mk 1 v"
      "encoded_fields mk es others" "at_most_one sel (field_values f ((key, v) # es)) = Some out"
      by (auto simp: length_Suc_conv encoded_fields_Cons)
    from e(2,3) have key: "read_key mk r = Inr (key, v @ others @ s)" by (auto simp: read_key_iff)
    from e(2,4) Suc.prems have sk: "skip mk (v @ others @ s) = Inr (others @ s)" by (subst skip_iff) auto
    from e(2) Suc.prems have "length (others @ s) \<le> usize_max" by simp
    note IH = Suc.IH [OF this, THEN iffD2, OF exI, OF exI, OF conjI [OF e(1) conjI [OF refl conjI [OF e(5)]]]]
    show "map_fields mk f (Suc n) sel r = Inr (out, s)"
      using IH e(6) by (auto simp: key sk sel_Cons split: if_splits)
  qed
qed

lemma map_count_iff: "map_count m r = Inr (n, t) \<longleftrightarrow> is_map_marker m \<and> (\<exists>h. r = h @ t \<and> length h = header_width m \<and> inner_values m (big_endian h) = 2 * n)"
  by (cases m) (auto simp: map_count_def cursor_number_iff header_width.simps)

lemma array_count_iff: "array_count m r = Inr (n, t) \<longleftrightarrow> is_array_marker m \<and> (\<exists>h. r = h @ t \<and> length h = header_width m \<and> inner_values m (big_endian h) = n)"
  by (cases m) (auto simp: array_count_def cursor_number_iff header_width.simps)

lemma linkMapField_iff:
  assumes "length bs \<le> usize_max"
  shows "linkMapField mk bs field = Inr out \<longleftrightarrow>
    (\<exists>es. encoded_map mk es bs \<and> at_most_one None (field_values (str_bytes field) es) = Some out)"
proof
  assume "linkMapField mk bs field = Inr out"
  then obtain b r n t where r: "bs = b # r" "map_count (mk b) r = Inr (n, t)" "map_fields mk (str_bytes field) n None t = Inr (out, [])"
    by (auto simp: linkMapField_def split: if_splits)
  from r(2) obtain h where h: "is_map_marker (mk b)" "r = h @ t" "length h = header_width (mk b)" "inner_values (mk b) (big_endian h) = 2 * n"
    by (auto simp: map_count_iff)
  with r(1) assms have "length t \<le> usize_max" by simp
  from map_fields_iff [OF this, THEN iffD1, OF r(3)] h r(1)
  show "\<exists>es. encoded_map mk es bs \<and> at_most_one None (field_values (str_bytes field) es) = Some out"
    by (auto simp: encoded_map_def)
next
  assume "\<exists>es. encoded_map mk es bs \<and> at_most_one None (field_values (str_bytes field) es) = Some out"
  then obtain es b h body where e: "bs = b # h @ body" "is_map_marker (mk b)" "length h = header_width (mk b)"
    "inner_values (mk b) (big_endian h) = 2 * length es" "encoded_fields mk es body"
    "at_most_one None (field_values (str_bytes field) es) = Some out" by (auto simp: encoded_map_def)
  then have count: "map_count (mk b) (h @ body) = Inr (length es, body)" by (auto simp: map_count_iff)
  from e(1) assms have "length body \<le> usize_max" by simp
  then have "map_fields mk (str_bytes field) (length es) None body = Inr (out, [])"
    using e(5,6) by (subst map_fields_iff) auto
  with e(1) count show "linkMapField mk bs field = Inr out" by (simp add: linkMapField_def cursor_marker_def cursor_take_def)
qed

lemma array_fields_iff:
  "length r \<le> usize_max \<Longrightarrow> array_fields mk index k n sel r = Inr (out, s) \<longleftrightarrow>
     (\<exists>vs. length vs = n \<and> r = concat vs @ s \<and> (\<forall>v\<in>set vs. encoded mk 1 v)
        \<and> out = (if k \<le> index \<and> index < k + n then Some (vs ! (index - k)) else sel))"
proof (induction n arbitrary: k sel r)
  case 0
  then show ?case by auto
next
  case (Suc n)
  show ?case
  proof
    assume "array_fields mk index k (Suc n) sel r = Inr (out, s)"
    then obtain t where t: "skip mk r = Inr t"
      "array_fields mk index (Suc k) n (if k = index then Some (passed r t) else sel) t = Inr (out, s)" by auto
    with Suc.prems obtain v where v: "r = v @ t" "encoded mk 1 v" by (auto simp: skip_iff)
    with Suc.prems have "length t \<le> usize_max" by simp
    from Suc.IH [OF this, THEN iffD1, OF t(2)] obtain vs where vs: "length vs = n" "t = concat vs @ s" "\<forall>v\<in>set vs. encoded mk 1 v"
      "out = (if Suc k \<le> index \<and> index < Suc k + n then Some (vs ! (index - Suc k)) else if k = index then Some (passed r t) else sel)"
      by blast
    with v show "\<exists>vs. length vs = Suc n \<and> r = concat vs @ s \<and> (\<forall>v\<in>set vs. encoded mk 1 v)
        \<and> out = (if k \<le> index \<and> index < k + Suc n then Some (vs ! (index - k)) else sel)"
      by (intro exI [of _ "v # vs"]) (auto simp: nth_Cons' Suc_diff_le)
  next
    assume "\<exists>vs. length vs = Suc n \<and> r = concat vs @ s \<and> (\<forall>v\<in>set vs. encoded mk 1 v)
        \<and> out = (if k \<le> index \<and> index < k + Suc n then Some (vs ! (index - k)) else sel)"
    then obtain v vs where vs: "length vs = n" "r = v @ concat vs @ s" "encoded mk 1 v" "\<forall>v\<in>set vs. encoded mk 1 v"
      "out = (if k \<le> index \<and> index < k + Suc n then Some ((v # vs) ! (index - k)) else sel)" by (auto simp: length_Suc_conv)
    from Suc.prems vs(2,3) have sk: "skip mk (v @ concat vs @ s) = Inr (concat vs @ s)" by (subst skip_iff) auto
    from Suc.prems vs(2) have "length (concat vs @ s) \<le> usize_max" by simp
    from Suc.IH [OF this] vs(1,4,5) show "array_fields mk index k (Suc n) sel r = Inr (out, s)"
      by (auto simp: vs(2) sk nth_Cons' Suc_diff_le)
  qed
qed

definition element :: "'a list \<Rightarrow> nat \<Rightarrow> 'a option" where
  "element vs i = (if i < length vs then Some (vs ! i) else None)"

text \<open>A declared field is selected exactly when the bytes are one complete map or one complete array of encoded
  values with nothing after it: from a map the value under its name, from an array the value at its index, nothing
  when there is none, and an error when a name occurs twice.\<close>

theorem struct_field_selected:
  assumes len: "length bs \<le> usize_max"
  shows "linkStructField mk bs field index = Inr out \<longleftrightarrow>
    (\<exists>es. encoded_map mk es bs \<and> at_most_one None (field_values (str_bytes field) es) = Some out)
    \<or> (\<exists>vs. encoded_array mk vs bs \<and> out = element vs index)"
proof (cases bs)
  case Nil
  then show ?thesis by (simp add: linkStructField_def cursor_marker_def cursor_take_def encoded_map_def encoded_array_def)
next
  case (Cons b r)
  have kind: "(case mk b of FixMap _ \<Rightarrow> True | Map16 \<Rightarrow> True | Map32 \<Rightarrow> True | _ \<Rightarrow> False) = is_map_marker (mk b)"
    by (cases "mk b") simp_all
  have disjoint: "is_map_marker (mk b) \<Longrightarrow> \<not> is_array_marker (mk b)" by (cases "mk b") simp_all
  show ?thesis
  proof (cases "is_map_marker (mk b)")
    case True
    with disjoint have "\<not> encoded_array mk vs bs" for vs by (simp add: encoded_array_def Cons)
    with True linkMapField_iff [OF len] show ?thesis
      by (simp add: linkStructField_def cursor_marker_def cursor_take_def Cons kind)
  next
    case False
    then have no_map: "\<not> encoded_map mk es bs" for es by (simp add: encoded_map_def Cons)
    have "linkStructField mk bs field index = Inr out \<longleftrightarrow>
      (\<exists>n t. array_count (mk b) r = Inr (n, t) \<and> array_fields mk index 0 n None t = Inr (out, []))"
      using False by (auto simp: linkStructField_def cursor_marker_def cursor_take_def Cons kind split: if_splits)
    also have "\<dots> \<longleftrightarrow> (\<exists>h t n. is_array_marker (mk b) \<and> r = h @ t \<and> length h = header_width (mk b) \<and> inner_values (mk b) (big_endian h) = n
      \<and> array_fields mk index 0 n None t = Inr (out, []))"
      unfolding array_count_iff by blast
    also have "\<dots> \<longleftrightarrow> (\<exists>h t n. is_array_marker (mk b) \<and> r = h @ t \<and> length h = header_width (mk b) \<and> inner_values (mk b) (big_endian h) = n
      \<and> (\<exists>vs. length vs = n \<and> t = concat vs \<and> (\<forall>v\<in>set vs. encoded mk 1 v) \<and> out = element vs index))"
    proof (intro ex_cong1 conj_cong refl)
      fix h t n assume "r = h @ t"
      with len have "length t \<le> usize_max" by (simp add: Cons)
      from array_fields_iff [OF this, of mk index 0 n None out "[]"]
      show "array_fields mk index 0 n None t = Inr (out, []) \<longleftrightarrow> (\<exists>vs. length vs = n \<and> t = concat vs \<and> (\<forall>v\<in>set vs. encoded mk 1 v)
          \<and> out = element vs index)"
        by (auto simp: element_def)
    qed
    also have "\<dots> \<longleftrightarrow> (\<exists>vs. encoded_array mk vs bs \<and> out = element vs index)"
      (is "?inline \<longleftrightarrow> ?array")
    proof
      assume ?inline
      then obtain h vs where "is_array_marker (mk b)" "r = h @ concat vs" "length h = header_width (mk b)"
        "inner_values (mk b) (big_endian h) = length vs" "\<forall>v\<in>set vs. encoded mk 1 v" "out = element vs index" by metis
      then show ?array unfolding encoded_array_def Cons by metis
    next
      assume ?array
      then obtain vs h where "is_array_marker (mk b)" "r = h @ concat vs" "length h = header_width (mk b)"
        "inner_values (mk b) (big_endian h) = length vs" "\<forall>v\<in>set vs. encoded mk 1 v" "out = element vs index"
        unfolding encoded_array_def Cons list.inject by metis
      then show ?inline by (intro exI [of _ h] exI [of _ "concat vs"] exI [of _ "length vs"] conjI exI [of _ vs]) simp_all
    qed
    finally show ?thesis using no_map by blast
  qed
qed

theorem struct_field_selected_witness:
  "linkStructField msgpack_marker [0x82, 0xa1, 0x78, 0x05, 0xa1, 0x79, 0xc3] ''y'' 0 = Inr (Some [0xc3])
   \<and> (\<exists>es. encoded_map msgpack_marker es [0x82, 0xa1, 0x78, 0x05, 0xa1, 0x79, 0xc3]
        \<and> at_most_one None (field_values (str_bytes ''y'') es) = Some (Some [0xc3]))"
proof -
  let ?bs = "[0x82, 0xa1, 0x78, 0x05, 0xa1, 0x79, 0xc3] :: bytes"
  have mk: "msgpack_marker 0x82 = FixMap 2" "msgpack_marker 0xa1 = FixStr 1" "msgpack_marker 0x05 = FixPos 5" "msgpack_marker 0xc3 = MTrue"
    by (simp_all add: msgpack_marker_def)
  moreover have "valid_utf8 [0x78]" "valid_utf8 [0x79]" "str_bytes ''y'' = [0x79]" by (simp_all add: str_bytes_def of_char_def)
  ultimately have sel: "linkStructField msgpack_marker ?bs ''y'' 0 = Inr (Some [0xc3])"
    by (simp add: linkStructField_def linkMapField_def map_count_def read_key_def string_length_def cursor_marker_def cursor_take_def
      skip_def skip_loop_pos usize_checked_add_def usize_max_def passed_def numeral_2_eq_2 del: skip_loop.simps(2) valid_utf8.simps)
  moreover have "\<not> encoded_array msgpack_marker vs ?bs" for vs by (simp add: encoded_array_def mk)
  ultimately show ?thesis using struct_field_selected [of ?bs msgpack_marker "''y''" 0 "Some [0xc3]"] by (simp add: usize_max_def)
qed

section \<open>Envelopes\<close>

text \<open>The two layouts of an envelope: named fields in any order, beside others, or two slots.\<close>

definition has_envelope :: "(byte \<Rightarrow> Marker) \<Rightarrow> bytes \<Rightarrow> bytes \<Rightarrow> bytes \<Rightarrow> bool" where
  "has_envelope mk bs t body \<longleftrightarrow> length bs \<le> usize_max \<and>
     ((\<exists>es. encoded_map mk es bs \<and> field_values (str_bytes ''type'') es = [t] \<and> field_values (str_bytes ''body'') es = [body]
         \<and> \<not> (0x90 \<le> hd bs \<and> hd bs \<le> 0x9f \<or> hd bs = 0xdc \<or> hd bs = 0xdd))
      \<or> encoded_array mk [t, body] bs)"

lemma envelope_read:
  assumes "has_envelope mk bs t body"
  shows "envelope mk d bs = rbind (d t) (\<lambda>tag. Inr (tag, body))"
proof -
  from assms have len: "length bs \<le> usize_max" by (simp add: has_envelope_def)
  note field = struct_field_selected [OF len, THEN iffD2]
  from assms have t: "linkStructField mk bs ''type'' 0 = Inr (Some t)" and b: "linkStructField mk bs ''body'' 1 = Inr (Some body)"
    unfolding has_envelope_def by (auto intro!: field simp: element_def)
  have "(if bs \<noteq> [] \<and> (0x90 \<le> hd bs \<and> hd bs \<le> 0x9f \<or> hd bs = 0xdc \<or> hd bs = 0xdd) then linkStructField mk bs [] 2 else Inr None) = Inr None"
    using assms unfolding has_envelope_def by (auto intro!: field simp: element_def)
  then show ?thesis by (simp only: envelope_def Let_def t b rbind_Inr ok_or_simps simp_thms if_False)
qed

text \<open>Whether the envelope of a request is a map, with its fields in any order and others beside them, or an array makes
  no difference to what is decoded.\<close>

theorem request_layout_irrelevant:
  assumes "has_envelope mk x t body" "has_envelope mk y t body"
  shows "decodeLinkRequest mk d x = decodeLinkRequest mk d y"
  by (simp only: decodeLinkRequest_def envelope_read [OF assms(1)] envelope_read [OF assms(2)])

section \<open>Shared buffers\<close>

lemma length_be_bytes [simp]: "length (be_bytes k n) = k"
  by (induction k arbitrary: n) simp_all

lemma big_endian_snoc: "big_endian (bs @ [b]) = big_endian bs * 256 + unat b"
  by (simp add: big_endian_def)

lemma big_endian_be_bytes: "n < 256 ^ k \<Longrightarrow> big_endian (be_bytes k n) = n"
proof (induction k arbitrary: n)
  case 0
  then show ?case by (simp add: big_endian_def)
next
  case (Suc k)
  then have "n div 256 < 256 ^ k" by (simp add: less_mult_imp_div_less mult.commute)
  with Suc.IH show ?case by (simp add: big_endian_snoc unat_of_nat)
qed

text \<open>A buffer captured while a message is encoded is found again from its reference when the message is decoded,
  whatever was captured before and after it.\<close>

theorem shared_buffer_roundtrip:
  assumes "serialize_shared_bytes bs (Some buffers) = (Extension tag payload, Some table)"
    and "length buffers \<le> usize_max" "length bs \<le> usize_max"
  shows "resolve_shared_bytes tag payload (Some (table @ later)) = Inr bs"
proof -
  have small: "n \<le> usize_max \<Longrightarrow> n < 256 ^ 8" for n by (simp add: usize_max_def)
  have zero: "big_endian (replicate 8 0) = 0" by (simp add: big_endian_def eval_nat_numeral)
  from assms(1) have t: "tag = SHARED_BUFFER_EXT" "table = buffers @ [bs]"
    "payload = be_bytes 8 (length buffers) @ replicate 8 0 @ be_bytes 8 (length bs)"
    by (auto simp: serialize_shared_bytes_def)
  have "big_endian (take 8 payload) = length buffers" "big_endian (take 8 (drop 8 payload)) = 0"
    "big_endian (take 8 (drop 16 payload)) = length bs"
    using big_endian_be_bytes [OF small [OF assms(2)]] big_endian_be_bytes [OF small [OF assms(3)]] zero by (simp_all add: t(3))
  with assms(3) show ?thesis
    by (simp add: resolve_shared_bytes_def t shared_range_def usize_checked_add_def nth_append)
qed

theorem shared_buffer_roundtrip_witness:
  "resolve_shared_bytes SHARED_BUFFER_EXT (be_bytes 8 1 @ replicate 8 0 @ be_bytes 8 2) (Some ([[9], [7, 8]] @ [[1]])) = Inr [7, 8]"
  by (rule shared_buffer_roundtrip [where buffers = "[[9]]"]) (simp_all add: serialize_shared_bytes_def usize_max_def numeral_2_eq_2)

lemma shared_range_Inr:
  "shared_range absent (Some table) i offset n = Inr bs \<longleftrightarrow> offset + n \<le> usize_max \<and> i < length table
     \<and> offset + n \<le> length (table ! i) \<and> bs = take n (drop offset (table ! i))"
  by (auto simp: shared_range_def usize_checked_add_def)

lemma resolved_within_table:
  assumes "resolve_shared_bytes tag payload (Some table) = Inr bs"
  shows "\<exists>buffer\<in>set table. \<exists>offset. offset + length bs \<le> length buffer \<and> bs = take (length bs) (drop offset buffer)"
proof -
  from assms obtain absent i offset n where "shared_range absent (Some table) i offset n = Inr bs"
    by (auto simp: resolve_shared_bytes_def split: if_splits)
  then have "i < length table" "offset + n \<le> length (table ! i)" "bs = take n (drop offset (table ! i))"
    by (simp_all add: shared_range_Inr)
  then show ?thesis by (intro bexI [of _ "table ! i"] exI [of _ offset]) simp_all
qed

end
