(* ===== verification/Condition_Eval.thy ===== *)
theory Condition_Eval
  imports Complex_Main Stream_Plugin
begin

text \<open>
  The conditions under which a tool package is in one of its states
  (\<open>ConditionEvaluator.rs\<close>): values, tokenizer, the recursive-descent parser that evaluates while
  it reads, and the resolution of a package state from the capabilities of the host.

  A \<open>String\<close> of a condition is the list of its characters.  The two Unicode tables that
  \<open>char::is_alphabetic\<close> and \<open>char::is_alphanumeric\<close> consult are the parameters
  \<open>alpha\<close> and \<open>alnum\<close>.  The parser's fuel bounds the nesting of brackets;
  \<open>parser_returns\<close> shows that one more than the number of tokens is always enough.
\<close>

section \<open>Floating-point numbers\<close>

text \<open>
  \<open>f64\<close>.  The two zeros are one value here: no operation of the evaluator tells them apart.
  A number is read as Rust's \<open>parse\<close> documents it: the decimal value rounded to the nearest
  double, ties to the even significand.
\<close>

datatype f64 = Finite rat | Infinity bool | NaN

datatype Ordering = Less | Equal | Greater

fun f64_eq :: "f64 \<Rightarrow> f64 \<Rightarrow> bool" where
  "f64_eq (Finite x) (Finite y) = (x = y)"
| "f64_eq (Infinity s) (Infinity t) = (s = t)"
| "f64_eq _ _ = False"

text \<open>\<open>Infinity True\<close> is the negative one.\<close>

fun f64_partial_cmp :: "f64 \<Rightarrow> f64 \<Rightarrow> Ordering option" where
  "f64_partial_cmp NaN _ = None"
| "f64_partial_cmp _ NaN = None"
| "f64_partial_cmp (Finite x) (Finite y) = Some (if x < y then Less else if x = y then Equal else Greater)"
| "f64_partial_cmp (Finite _) (Infinity neg) = Some (if neg then Greater else Less)"
| "f64_partial_cmp (Infinity neg) (Finite _) = Some (if neg then Less else Greater)"
| "f64_partial_cmp (Infinity s) (Infinity t) = Some (if s = t then Equal else if s then Less else Greater)"

fun bit_length :: "nat \<Rightarrow> nat" where
  "bit_length n = (if n = 0 then 0 else Suc (bit_length (n div 2)))"

declare bit_length.simps [simp del]

text \<open>The fraction \<open>a / b\<close> divided by \<open>2 ^ e\<close>.\<close>

definition scaled :: "nat \<Rightarrow> nat \<Rightarrow> int \<Rightarrow> nat \<times> nat" where
  "scaled a b e = (if 0 \<le> e then (a, b * 2 ^ nat e) else (a * 2 ^ nat (- e), b))"

definition unscaled :: "nat \<Rightarrow> int \<Rightarrow> rat" where
  "unscaled m e = (if 0 \<le> e then of_nat (m * 2 ^ nat e) else of_nat m / of_nat (2 ^ nat (- e)))"

definition f64_exponent :: "nat \<Rightarrow> nat \<Rightarrow> int" where
  "f64_exponent a b =
     (let e = int (bit_length a) - int (bit_length b) - 53;
          (p, q) = scaled a b e
      in max (- 1074) (if p < 2 ^ 53 * q then e else e + 1))"

definition f64_of_fraction :: "nat \<Rightarrow> nat \<Rightarrow> f64" where
  "f64_of_fraction a b =
     (let e = f64_exponent a b; (p, q) = scaled a b e;
          d = p div q; r = p mod q;
          m = (if q < 2 * r \<or> (2 * r = q \<and> odd d) then d + 1 else d)
      in if 971 < e \<or> (e = 971 \<and> 2 ^ 53 \<le> m) then Infinity False else Finite (unscaled m e))"

definition decimal_value :: "rchar list \<Rightarrow> nat" where
  "decimal_value = foldl (\<lambda>n c. 10 * n + (c - 48)) 0"

text \<open>\<open>parse::<f64>\<close> on the texts the tokenizer passes: digits with at most one dot.\<close>

definition parse_f64 :: "rchar list \<Rightarrow> f64 option" where
  "parse_f64 cs =
     (let whole = takeWhile is_digit cs; fraction = drop (Suc (length whole)) cs
      in if whole = [] \<and> fraction = [] then None
         else Some (f64_of_fraction (decimal_value (whole @ fraction)) (10 ^ length fraction)))"

section \<open>Values\<close>

datatype ConditionValue =
    Bool bool
  | Num f64
  | Str "rchar list"
  | Null
  | Array "ConditionValue list"

datatype ConditionToken =
    Identifier "rchar list"
  | StringLiteral "rchar list"
  | NumberLiteral f64
  | BooleanLiteral bool
  | NullLiteral
  | Operator string
  | Punct rchar
  | Eof

datatype ConditionError =
    UnexpectedCharacter rchar
  | UnterminatedEscape
  | UnterminatedString
  | InvalidNumber
  | UnexpectedToken ConditionToken
  | Expected rchar
  | CannotCompareNonNumber
  | CannotCompareNaN

text \<open>The derived \<open>PartialEq\<close>.\<close>

fun value_eq :: "ConditionValue \<Rightarrow> ConditionValue \<Rightarrow> bool" where
  "value_eq (Bool a) (Bool b) = (a = b)"
| "value_eq (Num x) (Num y) = f64_eq x y"
| "value_eq (Str s) (Str t) = (s = t)"
| "value_eq Null Null = True"
| "value_eq (Array xs) (Array ys) = list_all2 value_eq xs ys"
| "value_eq _ _ = False"

fun isTruthy :: "ConditionValue \<Rightarrow> bool" where
  "isTruthy (Bool b) = b"
| "isTruthy (Num x) = (\<not> f64_eq x (Finite 0) \<and> x \<noteq> NaN)"
| "isTruthy (Str s) = (s \<noteq> [])"
| "isTruthy Null = False"
| "isTruthy (Array xs) = (xs \<noteq> [])"

fun toNumberOrNull :: "ConditionValue \<Rightarrow> f64 option" where
  "toNumberOrNull (Num x) = Some x"
| "toNumberOrNull (Bool b) = Some (Finite (if b then 1 else 0))"
| "toNumberOrNull _ = None"

definition number_cmp :: "ConditionValue \<Rightarrow> ConditionValue \<Rightarrow> ConditionError + Ordering" where
  "number_cmp left right =
     (case toNumberOrNull left of None \<Rightarrow> Inl CannotCompareNonNumber
      | Some x \<Rightarrow> (case toNumberOrNull right of None \<Rightarrow> Inl CannotCompareNonNumber
      | Some y \<Rightarrow> (case f64_partial_cmp x y of None \<Rightarrow> Inl CannotCompareNaN | Some c \<Rightarrow> Inr c)))"

fun compareTo :: "ConditionValue \<Rightarrow> ConditionValue \<Rightarrow> ConditionError + Ordering" where
  "compareTo (Str s) (Str t) = Inr (if s < t then Less else if s = t then Equal else Greater)"
| "compareTo left right = number_cmp left right"

section \<open>Tokens\<close>

definition is_quote :: "rchar \<Rightarrow> bool" where "is_quote c \<longleftrightarrow> c = 34 \<or> c = 39"
definition escape_char :: rchar where "escape_char = 92"
definition dot :: rchar where "dot = 46"

definition isConditionIdentStart :: "(rchar \<Rightarrow> bool) \<Rightarrow> rchar \<Rightarrow> bool" where
  "isConditionIdentStart alpha c \<longleftrightarrow> alpha c \<or> c = ch CHR ''_''"

definition isConditionIdentPart :: "(rchar \<Rightarrow> bool) \<Rightarrow> rchar \<Rightarrow> bool" where
  "isConditionIdentPart alnum c \<longleftrightarrow> alnum c \<or> c = ch CHR ''_'' \<or> c = dot"

definition unescape :: "rchar \<Rightarrow> rchar" where
  "unescape n = (if n = ch CHR ''n'' then 10 else if n = ch CHR ''r'' then 13 else if n = ch CHR ''t'' then 9 else n)"

text \<open>The loop of \<open>readString\<close> after the opening quote: the text and what follows the closing quote.\<close>

fun readString :: "rchar \<Rightarrow> rchar list \<Rightarrow> ConditionError + rchar list \<times> rchar list" where
  "readString q [] = Inl UnterminatedString"
| "readString q (c # cs) =
     (if c = q then Inr ([], cs)
      else if c = escape_char then
        (case cs of [] \<Rightarrow> Inl UnterminatedEscape
         | n # rest \<Rightarrow> map_sum id (apfst (Cons (unescape n))) (readString q rest))
      else map_sum id (apfst (Cons c)) (readString q cs))"

fun number_text :: "bool \<Rightarrow> rchar list \<Rightarrow> rchar list \<times> rchar list" where
  "number_text hasDot [] = ([], [])"
| "number_text hasDot (c # cs) =
     (if is_digit c then apfst (Cons c) (number_text hasDot cs)
      else if c = dot \<and> \<not> hasDot then apfst (Cons c) (number_text True cs)
      else ([], c # cs))"

definition readNumber :: "rchar list \<Rightarrow> ConditionError + f64 \<times> rchar list" where
  "readNumber cs = (let (text, rest) = number_text False cs
     in case parse_f64 text of None \<Rightarrow> Inl InvalidNumber | Some x \<Rightarrow> Inr (x, rest))"

definition condition_operators :: "string list" where
  "condition_operators = [''&&'', ''||'', ''=='', ''!='', ''>='', ''<='', ''>'', ''<'', ''!'']"

definition readOperator :: "rchar list \<Rightarrow> (string \<times> rchar list) option" where
  "readOperator cs = map_option (\<lambda>op. (op, drop (length op) cs))
     (find (\<lambda>op. take (length op) cs = chars op) condition_operators)"

definition word_token :: "rchar list \<Rightarrow> ConditionToken" where
  "word_token ident =
     (if ident = chars ''true'' then BooleanLiteral True
      else if ident = chars ''false'' then BooleanLiteral False
      else if ident = chars ''null'' then NullLiteral
      else if ident = chars ''in'' then Operator ''in''
      else Identifier ident)"

text \<open>One pass of the loop of \<open>tokenize\<close> at the character \<open>c\<close>, which is not white space.\<close>

definition next_token :: "(rchar \<Rightarrow> bool) \<Rightarrow> (rchar \<Rightarrow> bool) \<Rightarrow> rchar \<Rightarrow> rchar list \<Rightarrow> ConditionError + ConditionToken \<times> rchar list" where
  "next_token alpha alnum c cs =
     (if c \<in> set (chars ''()[],'') then Inr (Punct c, cs)
      else if is_quote c then map_sum id (apfst StringLiteral) (readString c cs)
      else if is_digit c \<or> (c = dot \<and> (case cs of [] \<Rightarrow> False | d # _ \<Rightarrow> is_digit d)) then
        map_sum id (apfst NumberLiteral) (readNumber (c # cs))
      else if isConditionIdentStart alpha c then
        Inr (word_token (c # takeWhile (isConditionIdentPart alnum) cs), dropWhile (isConditionIdentPart alnum) cs)
      else (case readOperator (c # cs) of
          Some (op, rest) \<Rightarrow> Inr (Operator op, rest)
        | None \<Rightarrow> Inl (UnexpectedCharacter c)))"

lemma readString_shorter: "readString q cs = Inr (s, rest) \<Longrightarrow> length rest < length cs"
proof (induction q cs arbitrary: s rest rule: readString.induct)
  case (2 q c cs)
  show ?case
  proof (cases "c = q \<or> c \<noteq> escape_char")
    case True
    with 2 show ?thesis by (cases "readString q cs") (fastforce split: if_splits)+
  next
    case False
    with 2 show ?thesis
      by (cases cs; cases "readString q (tl cs)") (fastforce split: if_splits)+
  qed
qed simp

lemma number_text_append: "fst (number_text d cs) @ snd (number_text d cs) = cs"
  by (induction d cs rule: number_text.induct) auto

lemma number_text_shorter: "length (snd (number_text d cs)) \<le> length cs"
  using number_text_append [of d cs] by (metis le_add2 length_append)

lemma readNumber_shorter:
  assumes "readNumber (c # cs) = Inr (x, rest)" and "is_digit c \<or> c = dot"
  shows "length rest < length (c # cs)"
proof -
  from assms(1) have rest: "rest = snd (number_text False (c # cs))"
    by (auto simp: readNumber_def Let_def case_prod_unfold simp del: number_text.simps split: option.splits)
  from assms(2) number_text_shorter [of _ cs] show ?thesis
    unfolding rest by (auto simp: less_Suc_eq_le)
qed

lemma readOperator_shorter: "readOperator cs = Some (op, rest) \<Longrightarrow> cs \<noteq> [] \<and> length rest < length cs"
  unfolding readOperator_def condition_operators_def
  by (cases cs) (auto simp: chars_def split: if_splits)

lemma next_token_shorter:
  assumes "next_token alpha alnum c cs = Inr (t, rest)"
  shows "length rest \<le> length cs"
proof -
  have "length (dropWhile p cs) \<le> length cs" for p by (rule length_dropWhile_le)
  with assms show ?thesis
    unfolding next_token_def
    by (auto split: if_splits option.splits simp: map_sum_def dest: readString_shorter readNumber_shorter readOperator_shorter)
      (auto split: sum.splits dest!: readString_shorter readNumber_shorter)
qed

function tokenize :: "(rchar \<Rightarrow> bool) \<Rightarrow> (rchar \<Rightarrow> bool) \<Rightarrow> rchar list \<Rightarrow> ConditionError + ConditionToken list" where
  "tokenize alpha alnum cs =
     (case dropWhile is_whitespace cs of
        [] \<Rightarrow> Inr [Eof]
      | c # rest \<Rightarrow> (case next_token alpha alnum c rest of
          Inl e \<Rightarrow> Inl e
        | Inr (t, rest') \<Rightarrow> map_sum id (Cons t) (tokenize alpha alnum rest')))"
  by pat_completeness auto
termination
proof (relation "measure (\<lambda>(alpha, alnum, cs). length cs)"; clarsimp)
  fix alpha alnum cs c rest t rest'
  assume "dropWhile is_whitespace cs = c # rest" "next_token alpha alnum c rest = Inr (t, rest')"
  moreover have "length (dropWhile is_whitespace cs) \<le> length cs" by (rule length_dropWhile_le)
  ultimately show "length rest' < length cs" by (auto dest: next_token_shorter)
qed

declare tokenize.simps [simp del]

section \<open>The parser\<close>

text \<open>
  A parser returns nothing when its fuel is used up, and otherwise an error or a value with the
  tokens it left.  The list of the tokens left is the position \<open>pos\<close>.
\<close>

type_synonym 'a parser = "ConditionToken list \<Rightarrow> (ConditionError + 'a \<times> ConditionToken list) option"

definition pbind :: "(ConditionError + 'a) option \<Rightarrow> ('a \<Rightarrow> (ConditionError + 'b) option) \<Rightarrow> (ConditionError + 'b) option" where
  "pbind r f = (case r of None \<Rightarrow> None | Some (Inl e) \<Rightarrow> Some (Inl e) | Some (Inr x) \<Rightarrow> f x)"

lemma pbind_simps [simp]: "pbind None f = None" "pbind (Some (Inl e)) f = Some (Inl e)" "pbind (Some (Inr x)) f = f x"
  by (simp_all add: pbind_def)

fun peek :: "ConditionToken list \<Rightarrow> ConditionToken" where
  "peek [] = Eof"
| "peek (t # _) = t"

text \<open>\<open>matchPunct\<close> and \<open>expectPunct\<close>: the tokens after the character.\<close>

definition matchPunct :: "rchar \<Rightarrow> ConditionToken list \<Rightarrow> ConditionToken list option" where
  "matchPunct c ts = (if peek ts = Punct c then Some (tl ts) else None)"

definition expectPunct :: "rchar \<Rightarrow> 'a \<Rightarrow> 'a parser" where
  "expectPunct c v ts = (case matchPunct c ts of Some us \<Rightarrow> Some (Inr (v, us)) | None \<Rightarrow> Some (Inl (Expected c)))"

text \<open>
  The loops of the parser: as long as \<open>step\<close> knows the next token as one of the loop's, an
  operand is read behind it and combined with the value so far.  An operand gives no token back
  (\<open>parser_consumes\<close>), so the comparison of lengths never fails; it makes the recursion
  well-founded whatever the operand.
\<close>

function operand_loop :: "(ConditionToken \<Rightarrow> ('a \<Rightarrow> 'b \<Rightarrow> ConditionError + 'a) option) \<Rightarrow> 'b parser \<Rightarrow> 'a \<Rightarrow> 'a parser" where
  "operand_loop step operand left ts =
     (case step (peek ts) of
        None \<Rightarrow> Some (Inr (left, ts))
      | Some combine \<Rightarrow> (case operand (tl ts) of
          None \<Rightarrow> None
        | Some (Inl e) \<Rightarrow> Some (Inl e)
        | Some (Inr (right, us)) \<Rightarrow> (case combine left right of
            Inl e \<Rightarrow> Some (Inl e)
          | Inr left' \<Rightarrow> if length us < length ts then operand_loop step operand left' us else None)))"
  by pat_completeness auto
termination
  by (relation "measure (\<lambda>(step, operand, left, ts). length ts)") auto

declare operand_loop.simps [simp del]

definition or_step :: "ConditionToken \<Rightarrow> (ConditionValue \<Rightarrow> ConditionValue \<Rightarrow> ConditionError + ConditionValue) option" where
  "or_step t = (if t = Operator ''||'' then
       Some (\<lambda>left right. if isTruthy left then Inr (Bool True) else Inr (Bool (isTruthy right)))
     else None)"

definition and_step :: "ConditionToken \<Rightarrow> (ConditionValue \<Rightarrow> ConditionValue \<Rightarrow> ConditionError + ConditionValue) option" where
  "and_step t = (if t = Operator ''&&'' then
       Some (\<lambda>left right. if \<not> isTruthy left then Inr (Bool False) else Inr (Bool (isTruthy right)))
     else None)"

definition equality_step :: "ConditionToken \<Rightarrow> (ConditionValue \<Rightarrow> ConditionValue \<Rightarrow> ConditionError + ConditionValue) option" where
  "equality_step t =
     (if t = Operator ''=='' then Some (\<lambda>left right. Inr (Bool (value_eq left right)))
      else if t = Operator ''!='' then Some (\<lambda>left right. Inr (Bool (\<not> value_eq left right)))
      else None)"

definition relational_step :: "ConditionToken \<Rightarrow> (ConditionValue \<Rightarrow> ConditionValue \<Rightarrow> ConditionError + ConditionValue) option" where
  "relational_step t =
     (if t = Operator ''>='' then Some (\<lambda>left right. map_sum id (\<lambda>c. Bool (c \<noteq> Less)) (compareTo left right))
      else if t = Operator ''<='' then Some (\<lambda>left right. map_sum id (\<lambda>c. Bool (c \<noteq> Greater)) (compareTo left right))
      else if t = Operator ''>'' then Some (\<lambda>left right. map_sum id (\<lambda>c. Bool (c = Greater)) (compareTo left right))
      else if t = Operator ''<'' then Some (\<lambda>left right. map_sum id (\<lambda>c. Bool (c = Less)) (compareTo left right))
      else if t = Operator ''in'' then
        Some (\<lambda>left right. Inr (Bool (case right of Array items \<Rightarrow> list_ex (\<lambda>item. value_eq item left) items | _ \<Rightarrow> False)))
      else None)"

definition element_step :: "ConditionToken \<Rightarrow> (ConditionValue list \<Rightarrow> ConditionValue \<Rightarrow> ConditionError + ConditionValue list) option" where
  "element_step t = (if t = Punct (ch CHR '','') then Some (\<lambda>elements v. Inr (elements @ [v])) else None)"

type_synonym capabilities = "rchar list \<Rightarrow> ConditionValue option"

text \<open>\<open>parsePrimary\<close>, given the parser of an expression.\<close>

definition parse_elements :: "ConditionValue parser \<Rightarrow> ConditionValue list parser" where
  "parse_elements expression ts =
     (if peek ts = Punct (ch CHR '']'') then Some (Inr ([], ts))
      else pbind (expression ts) (\<lambda>(v, us). operand_loop element_step expression [v] us))"

definition parsePrimary :: "ConditionValue parser \<Rightarrow> capabilities \<Rightarrow> ConditionValue parser" where
  "parsePrimary expression caps ts =
     (case peek ts of
        BooleanLiteral b \<Rightarrow> Some (Inr (Bool b, tl ts))
      | NullLiteral \<Rightarrow> Some (Inr (Null, tl ts))
      | NumberLiteral x \<Rightarrow> Some (Inr (Num x, tl ts))
      | StringLiteral s \<Rightarrow> Some (Inr (Str s, tl ts))
      | Identifier name \<Rightarrow> Some (Inr (case caps name of Some v \<Rightarrow> v | None \<Rightarrow> Null, tl ts))
      | Punct c \<Rightarrow>
          if c = ch CHR ''('' then pbind (expression (tl ts)) (\<lambda>(inner, us). expectPunct (ch CHR '')'') inner us)
          else if c = ch CHR ''['' then
            pbind (parse_elements expression (tl ts)) (\<lambda>(elements, us). expectPunct (ch CHR '']'') (Array elements) us)
          else Some (Inl (UnexpectedToken (Punct c)))
      | t \<Rightarrow> Some (Inl (UnexpectedToken t)))"

fun parseUnary :: "ConditionValue parser \<Rightarrow> capabilities \<Rightarrow> ConditionValue parser" where
  "parseUnary expression caps [] = parsePrimary expression caps []"
| "parseUnary expression caps (t # ts) =
     (if t = Operator ''!'' then
        pbind (parseUnary expression caps ts) (\<lambda>(v, us). Some (Inr (Bool (\<not> isTruthy v), us)))
      else parsePrimary expression caps (t # ts))"

text \<open>The shape of the four binary levels: an operand, then the loop over the level's operators.\<close>

definition operand_chain :: "(ConditionToken \<Rightarrow> ('a \<Rightarrow> 'a \<Rightarrow> ConditionError + 'a) option) \<Rightarrow> 'a parser \<Rightarrow> 'a parser" where
  "operand_chain step operand ts = pbind (operand ts) (\<lambda>(left, us). operand_loop step operand left us)"

definition parseRelational :: "ConditionValue parser \<Rightarrow> capabilities \<Rightarrow> ConditionValue parser" where
  "parseRelational expression caps = operand_chain relational_step (parseUnary expression caps)"

definition parseEquality :: "ConditionValue parser \<Rightarrow> capabilities \<Rightarrow> ConditionValue parser" where
  "parseEquality expression caps = operand_chain equality_step (parseRelational expression caps)"

definition parseAnd :: "ConditionValue parser \<Rightarrow> capabilities \<Rightarrow> ConditionValue parser" where
  "parseAnd expression caps = operand_chain and_step (parseEquality expression caps)"

definition parseOr :: "ConditionValue parser \<Rightarrow> capabilities \<Rightarrow> ConditionValue parser" where
  "parseOr expression caps = operand_chain or_step (parseAnd expression caps)"

fun parseExpression :: "nat \<Rightarrow> capabilities \<Rightarrow> ConditionValue parser" where
  "parseExpression 0 caps ts = None"
| "parseExpression (Suc n) caps ts = parseOr (parseExpression n caps) caps ts"

definition evaluate :: "(rchar \<Rightarrow> bool) \<Rightarrow> (rchar \<Rightarrow> bool) \<Rightarrow> rchar list \<Rightarrow> capabilities \<Rightarrow> bool" where
  "evaluate alpha alnum expression caps =
     (let trimmed = trim expression in
      if trimmed = [] then True
      else (case tokenize alpha alnum trimmed of
          Inl _ \<Rightarrow> False
        | Inr tokens \<Rightarrow> (case parseExpression (Suc (length tokens)) caps tokens of
            Some (Inr (v, _)) \<Rightarrow> isTruthy v
          | _ \<Rightarrow> False)))"

section \<open>The parser always returns\<close>

definition consuming :: "'a parser \<Rightarrow> bool" where
  "consuming p \<longleftrightarrow> (\<forall>ts v us. p ts = Some (Inr (v, us)) \<longrightarrow> length us < length ts)"

text \<open>Both parsers return, with the same result, on fewer than \<open>m\<close> tokens.\<close>

definition agree_below :: "nat \<Rightarrow> 'a parser \<Rightarrow> 'a parser \<Rightarrow> bool" where
  "agree_below m p q \<longleftrightarrow> (\<forall>ts. length ts < m \<longrightarrow> (\<exists>r. p ts = Some r \<and> q ts = Some r))"

lemma agree_belowD: "agree_below m p q \<Longrightarrow> length ts < m \<Longrightarrow> \<exists>r. p ts = Some r \<and> q ts = Some r"
  by (auto simp: agree_below_def)

lemma consumingD: "consuming p \<Longrightarrow> p ts = Some (Inr (v, us)) \<Longrightarrow> length us < length ts"
  by (simp add: consuming_def)

lemma pbind_Some_Inr: "pbind r f = Some (Inr y) \<longleftrightarrow> (\<exists>x. r = Some (Inr x) \<and> f x = Some (Inr y))"
  by (auto simp: pbind_def split: option.splits sum.splits)

lemma tl_shorter: "peek ts \<noteq> Eof \<Longrightarrow> length (tl ts) < length ts"
  by (cases ts) auto

lemma operand_loop_left: "operand_loop step operand left ts = Some (Inr (v, us)) \<Longrightarrow> length us \<le> length ts"
proof (induction "length ts" arbitrary: left ts rule: less_induct)
  case less
  have "length ws < length ts \<Longrightarrow> operand_loop step operand w ws = Some (Inr (v, us)) \<Longrightarrow> length us \<le> length ts" for w ws
    using less.hyps [of ws w] by simp
  with less.prems show ?case
    by (subst (asm) operand_loop.simps) (auto split: option.splits sum.splits if_splits)
qed

lemma operand_loop_agrees:
  assumes "agree_below m p q" "consuming p" "step Eof = None" "length ts \<le> m"
  shows "\<exists>r. operand_loop step p left ts = Some r \<and> operand_loop step q left ts = Some r"
  using assms(4)
proof (induction "length ts" arbitrary: left ts rule: less_induct)
  case less
  show ?case
  proof (cases "step (peek ts)")
    case None
    then show ?thesis by (subst (1 2) operand_loop.simps) simp
  next
    case (Some combine)
    with assms(3) have tl: "length (tl ts) < length ts" by (intro tl_shorter) auto
    with less.prems agree_belowD [OF assms(1), of "tl ts"] obtain r where r: "p (tl ts) = Some r" "q (tl ts) = Some r" by auto
    show ?thesis
    proof (cases r)
      case (Inl e)
      with Some r show ?thesis by (subst (1 2) operand_loop.simps) simp
    next
      case (Inr x)
      obtain v us where x: "x = (v, us)" by (cases x)
      from consumingD [OF assms(2)] r Inr x tl have us: "length us < length ts" by fastforce
      with less.prems have "length us \<le> m" by simp
      from less.hyps [OF us this]
      have "\<exists>r. operand_loop step p w us = Some r \<and> operand_loop step q w us = Some r" for w .
      with Some r Inr x us show ?thesis
        by (subst (1 2) operand_loop.simps) (auto split: sum.splits)
    qed
  qed
qed

lemma expectPunct_shorter: "expectPunct c v ts = Some (Inr (w, us)) \<Longrightarrow> length us < length ts"
  by (cases ts) (auto simp: expectPunct_def matchPunct_def split: if_splits)

lemma expectPunct_returns: "\<exists>r. expectPunct c v ts = Some r"
  by (simp add: expectPunct_def split: option.splits)

lemma steps_Eof [simp]:
  "or_step Eof = None" "and_step Eof = None" "equality_step Eof = None" "relational_step Eof = None" "element_step Eof = None"
  by (simp_all add: or_step_def and_step_def equality_step_def relational_step_def element_step_def)

lemma chain_consuming:
  assumes "consuming p"
  shows "consuming (operand_chain step p)"
  using assms unfolding consuming_def operand_chain_def pbind_Some_Inr
  by (fastforce dest: operand_loop_left)

lemma chain_agrees:
  assumes "agree_below m p q" "consuming p" "step Eof = None"
  shows "agree_below m (operand_chain step p) (operand_chain step q)"
  unfolding agree_below_def
proof (intro allI impI)
  fix ts :: "ConditionToken list"
  assume "length ts < m"
  with agree_belowD [OF assms(1)] obtain r where r: "p ts = Some r" "q ts = Some r" by blast
  show "\<exists>r. operand_chain step p ts = Some r \<and> operand_chain step q ts = Some r"
  proof (cases r)
    case (Inr x)
    obtain v us where x: "x = (v, us)" by (cases x)
    from consumingD [OF assms(2)] r Inr x have "length us < length ts" by blast
    with \<open>length ts < m\<close> operand_loop_agrees [of m p q step us, OF assms] r Inr x show ?thesis
      by (simp add: operand_chain_def)
  qed (simp add: operand_chain_def r)
qed

lemma elements_consuming:
  assumes "consuming p"
  shows "parse_elements p ts = Some (Inr (v, us)) \<Longrightarrow> length us \<le> length ts"
  using assms unfolding parse_elements_def consuming_def
  by (fastforce simp: pbind_Some_Inr split: if_splits dest: operand_loop_left)

lemma elements_agree:
  assumes "agree_below m p q" "consuming p" "length ts < m"
  shows "\<exists>r. parse_elements p ts = Some r \<and> parse_elements q ts = Some r"
proof -
  from agree_belowD [OF assms(1,3)] obtain r where r: "p ts = Some r" "q ts = Some r" by blast
  show ?thesis
  proof (cases r)
    case (Inr x)
    obtain v us where x: "x = (v, us)" by (cases x)
    from consumingD [OF assms(2)] r Inr x have "length us < length ts" by blast
    with assms operand_loop_agrees [of m p q element_step us, OF assms(1,2)] r Inr x show ?thesis
      by (simp add: parse_elements_def)
  qed (simp add: parse_elements_def r)
qed

lemma primary_consuming:
  assumes "consuming p"
  shows "consuming (parsePrimary p caps)"
  unfolding consuming_def
proof (intro allI impI)
  fix ts v us
  assume *: "parsePrimary p caps ts = Some (Inr (v, us))"
  then have "peek ts \<noteq> Eof" by (auto simp: parsePrimary_def)
  then have "length (tl ts) < length ts" by (rule tl_shorter)
  with * assms show "length us < length ts"
    by (auto simp: parsePrimary_def pbind_Some_Inr split: ConditionToken.splits if_splits
        dest!: expectPunct_shorter dest: consumingD elements_consuming)
qed

lemma primary_agrees:
  assumes "agree_below m p q" "consuming p"
  shows "agree_below (Suc m) (parsePrimary p caps) (parsePrimary q caps)"
  unfolding agree_below_def
proof (intro allI impI)
  fix ts :: "ConditionToken list"
  assume "length ts < Suc m"
  show "\<exists>r. parsePrimary p caps ts = Some r \<and> parsePrimary q caps ts = Some r"
  proof (cases "\<exists>c. peek ts = Punct c")
    case True
    then have "length (tl ts) < length ts" by (intro tl_shorter) auto
    with \<open>length ts < Suc m\<close> have tl: "length (tl ts) < m" by simp
    from agree_belowD [OF assms(1) tl] elements_agree [OF assms tl] True show ?thesis
      by (auto simp: parsePrimary_def pbind_def expectPunct_returns split: sum.splits)
  qed (auto simp: parsePrimary_def split: ConditionToken.splits)
qed

lemma unary_consuming:
  assumes "consuming p"
  shows "consuming (parseUnary p caps)"
proof -
  have "parseUnary p caps ts = Some (Inr (v, us)) \<Longrightarrow> length us < length ts" for ts v us
    by (induction ts arbitrary: v)
      (auto simp: pbind_Some_Inr split: if_splits dest!: consumingD [OF primary_consuming [OF assms]])
  then show ?thesis by (simp add: consuming_def)
qed

lemma unary_agrees:
  assumes "agree_below m p q" "consuming p"
  shows "agree_below (Suc m) (parseUnary p caps) (parseUnary q caps)"
proof -
  have primary: "length ts < Suc m \<Longrightarrow> \<exists>r. parsePrimary p caps ts = Some r \<and> parsePrimary q caps ts = Some r" for ts
    using primary_agrees [OF assms, of caps] by (rule agree_belowD)
  have "length ts < Suc m \<Longrightarrow> \<exists>r. parseUnary p caps ts = Some r \<and> parseUnary q caps ts = Some r" for ts
  proof (induction ts)
    case Nil
    with primary show ?case by simp
  next
    case (Cons t ts)
    with primary [of "t # ts"] show ?case by (auto simp: pbind_def split: sum.splits)
  qed
  then show ?thesis by (simp add: agree_below_def)
qed

lemma parseExpression_consuming: "consuming (parseExpression n caps)"
proof (induction n)
  case 0
  show ?case by (simp add: consuming_def)
next
  case (Suc n)
  then have "consuming (parseOr (parseExpression n caps) caps)"
    by (simp add: parseOr_def parseAnd_def parseEquality_def parseRelational_def chain_consuming unary_consuming)
  then show ?case by (simp add: consuming_def)
qed

lemma parseOr_agrees:
  assumes "agree_below m p q" "consuming p"
  shows "agree_below (Suc m) (parseOr p caps) (parseOr q caps)"
  unfolding parseOr_def parseAnd_def parseEquality_def parseRelational_def
  using assms by (intro chain_agrees chain_consuming unary_consuming unary_agrees) simp_all

lemma parseExpression_agrees: "agree_below n (parseExpression n caps) (parseExpression (n + k) caps)"
proof (induction n)
  case (Suc n)
  from parseOr_agrees [OF Suc parseExpression_consuming] show ?case by (simp add: agree_below_def)
qed (simp add: agree_below_def)

text \<open>C40: The parser of a condition terminates on every sequence of tokens, well formed or not, and
  whatever the capabilities: the nesting of calls that \<open>evaluate\<close> allows is enough, a larger bound
  changes nothing, and a value is only returned after at least one token was read.
\<close>

theorem parser_returns:
  "\<exists>r. parseExpression (Suc (length ts)) caps ts = Some r
     \<and> (\<forall>k. parseExpression (Suc (length ts) + k) caps ts = Some r)
     \<and> (case r of Inr (_, us) \<Rightarrow> length us < length ts | Inl _ \<Rightarrow> True)"
proof -
  let ?p = "\<lambda>k. parseExpression (Suc (length ts) + k) caps ts"
  have agree: "\<exists>r. ?p 0 = Some r \<and> ?p k = Some r" for k
    using agree_belowD [OF parseExpression_agrees [of "Suc (length ts)" caps k], of ts] by (simp del: parseExpression.simps)
  then obtain r where r: "?p 0 = Some r" by blast
  with agree have "\<forall>k. ?p k = Some r" by (metis option.inject)
  moreover have "length us < length ts" if "r = Inr (v, us)" for v us
    using r that by (auto intro: consumingD [OF parseExpression_consuming] simp del: parseExpression.simps)
  then have "case r of Inr (_, us) \<Rightarrow> length us < length ts | Inl _ \<Rightarrow> True" by (auto split: sum.split)
  ultimately show ?thesis using r by (auto simp del: parseExpression.simps)
qed

section \<open>The meaning of a condition\<close>

text \<open>
  The grammar the parser is meant for, as a syntax tree, and its meaning without any parsing.  Both
  sides of \<open>||\<close> and \<open>&&\<close> are evaluated, the left one first, and an error in either is the
  error of the whole.
\<close>

datatype infix_op = OrOp | AndOp | EqOp | NeOp | GeOp | LeOp | GtOp | LtOp | InOp

datatype condition =
    BoolLit bool
  | NullLit
  | NumLit f64
  | StrLit "rchar list"
  | Capability "rchar list"
  | Elements "condition list"
  | Negated condition
  | Bracketed condition
  | Operation infix_op condition condition

fun op_token :: "infix_op \<Rightarrow> string" where
  "op_token OrOp = ''||''" | "op_token AndOp = ''&&''" | "op_token EqOp = ''==''" | "op_token NeOp = ''!=''"
| "op_token GeOp = ''>=''" | "op_token LeOp = ''<=''" | "op_token GtOp = ''>''" | "op_token LtOp = ''<''" | "op_token InOp = ''in''"

fun op_level :: "infix_op \<Rightarrow> nat" where
  "op_level OrOp = 1" | "op_level AndOp = 2" | "op_level EqOp = 3" | "op_level NeOp = 3" | "op_level _ = 4"

fun op_meaning :: "infix_op \<Rightarrow> ConditionValue \<Rightarrow> ConditionValue \<Rightarrow> ConditionError + ConditionValue" where
  "op_meaning OrOp v w = Inr (Bool (isTruthy v \<or> isTruthy w))"
| "op_meaning AndOp v w = Inr (Bool (isTruthy v \<and> isTruthy w))"
| "op_meaning EqOp v w = Inr (Bool (value_eq v w))"
| "op_meaning NeOp v w = Inr (Bool (\<not> value_eq v w))"
| "op_meaning GeOp v w = map_sum id (\<lambda>c. Bool (c \<noteq> Less)) (compareTo v w)"
| "op_meaning LeOp v w = map_sum id (\<lambda>c. Bool (c \<noteq> Greater)) (compareTo v w)"
| "op_meaning GtOp v w = map_sum id (\<lambda>c. Bool (c = Greater)) (compareTo v w)"
| "op_meaning LtOp v w = map_sum id (\<lambda>c. Bool (c = Less)) (compareTo v w)"
| "op_meaning InOp v w = Inr (Bool (case w of Array items \<Rightarrow> list_ex (\<lambda>item. value_eq item v) items | _ \<Rightarrow> False))"

definition ebind :: "ConditionError + 'a \<Rightarrow> ('a \<Rightarrow> ConditionError + 'b) \<Rightarrow> ConditionError + 'b" where
  "ebind r f = (case r of Inl e \<Rightarrow> Inl e | Inr x \<Rightarrow> f x)"

lemma ebind_simps [simp]: "ebind (Inl e) f = Inl e" "ebind (Inr x) f = f x"
  by (simp_all add: ebind_def)

fun all_values :: "(ConditionError + 'a) list \<Rightarrow> ConditionError + 'a list" where
  "all_values [] = Inr []"
| "all_values (r # rs) = ebind r (\<lambda>v. map_sum id (Cons v) (all_values rs))"

fun meaning :: "capabilities \<Rightarrow> condition \<Rightarrow> ConditionError + ConditionValue" where
  "meaning caps (BoolLit b) = Inr (Bool b)"
| "meaning caps NullLit = Inr Null"
| "meaning caps (NumLit x) = Inr (Num x)"
| "meaning caps (StrLit s) = Inr (Str s)"
| "meaning caps (Capability name) = Inr (case caps name of Some v \<Rightarrow> v | None \<Rightarrow> Null)"
| "meaning caps (Elements es) = map_sum id Array (all_values (map (meaning caps) es))"
| "meaning caps (Negated c) = map_sum id (\<lambda>v. Bool (\<not> isTruthy v)) (meaning caps c)"
| "meaning caps (Bracketed c) = meaning caps c"
| "meaning caps (Operation op c d) = ebind (meaning caps c) (\<lambda>v. ebind (meaning caps d) (op_meaning op v))"

text \<open>
  The tokens of a condition that stands where an operand of level \<open>L\<close> is expected, with the brackets
  that the levels demand beside those of the tree; operators of one level associate to the left.
\<close>

definition separated :: "'a \<Rightarrow> 'a list list \<Rightarrow> 'a list" where
  "separated c xs = (case xs of [] \<Rightarrow> [] | y # ys \<Rightarrow> y @ concat (map (Cons c) ys))"

fun tokens_at :: "nat \<Rightarrow> condition \<Rightarrow> ConditionToken list" where
  "tokens_at L (BoolLit b) = [BooleanLiteral b]"
| "tokens_at L NullLit = [NullLiteral]"
| "tokens_at L (NumLit x) = [NumberLiteral x]"
| "tokens_at L (StrLit s) = [StringLiteral s]"
| "tokens_at L (Capability name) = [Identifier name]"
| "tokens_at L (Elements es) = Punct (ch CHR ''['') # separated (Punct (ch CHR '','')) (map (tokens_at 1) es) @ [Punct (ch CHR '']'')]"
| "tokens_at L (Negated c) = Operator ''!'' # tokens_at 5 c"
| "tokens_at L (Bracketed c) = Punct (ch CHR ''('') # tokens_at 1 c @ [Punct (ch CHR '')'')]"
| "tokens_at L (Operation op c d) =
     (let k = op_level op; ts = tokens_at k c @ Operator (op_token op) # tokens_at (Suc k) d
      in if k < L then Punct (ch CHR ''('') # ts @ [Punct (ch CHR '')'')] else ts)"

text \<open>The parser of each level and the operators of its loop.\<close>

definition steps_at :: "nat \<Rightarrow> ConditionToken \<Rightarrow> (ConditionValue \<Rightarrow> ConditionValue \<Rightarrow> ConditionError + ConditionValue) option" where
  "steps_at L t = (if L = 1 then or_step t else if L = 2 then and_step t else if L = 3 then equality_step t
     else if L = 4 then relational_step t else None)"

definition parse_level :: "ConditionValue parser \<Rightarrow> capabilities \<Rightarrow> nat \<Rightarrow> ConditionValue parser" where
  "parse_level expression caps L = (if L = 1 then parseOr expression caps else if L = 2 then parseAnd expression caps
     else if L = 3 then parseEquality expression caps else if L = 4 then parseRelational expression caps
     else parseUnary expression caps)"

lemma parse_level_chain:
  "1 \<le> L \<Longrightarrow> L \<le> 4 \<Longrightarrow> parse_level p caps L = operand_chain (steps_at L) (parse_level p caps (Suc L))"
proof -
  assume "1 \<le> L" "L \<le> 4"
  then consider "L = 1" | "L = 2" | "L = 3" | "L = 4" by linarith
  then show ?thesis
    by cases (simp_all add: parse_level_def steps_at_def [abs_def] parseOr_def parseAnd_def parseEquality_def parseRelational_def numeral_2_eq_2 [symmetric])
qed

lemma steps_at_op: "steps_at (op_level op) (Operator (op_token op)) = Some (op_meaning op)"
  by (cases op) (auto simp: steps_at_def or_step_def and_step_def equality_step_def relational_step_def fun_eq_iff)

lemma steps_at_other: "L \<noteq> op_level op \<Longrightarrow> steps_at L (Operator (op_token op)) = None"
  by (cases op) (auto simp: steps_at_def or_step_def and_step_def equality_step_def relational_step_def)

lemma steps_at_Punct [simp]: "steps_at L (Punct c) = None" "steps_at L Eof = None"
  by (auto simp: steps_at_def or_step_def and_step_def equality_step_def relational_step_def)

lemma op_level_bounds: "1 \<le> op_level op" "op_level op \<le> 4"
  by (cases op; simp)+

section \<open>The parser computes the meaning\<close>

text \<open>On \<open>ts\<close> the parser of level \<open>L\<close> computes \<open>r\<close> and goes on with its own loop.\<close>

definition reads_as :: "ConditionValue parser \<Rightarrow> capabilities \<Rightarrow> nat \<Rightarrow> ConditionToken list \<Rightarrow> ConditionError + ConditionValue \<Rightarrow> bool" where
  "reads_as p caps L ts r \<longleftrightarrow> (\<forall>rest. (\<forall>k>L. steps_at k (peek rest) = None) \<longrightarrow>
     parse_level p caps L (ts @ rest) = pbind (Some r) (\<lambda>v. operand_loop (steps_at L) (parse_level p caps (Suc L)) v rest))"

lemma operand_loop_stop: "step (peek ts) = None \<Longrightarrow> operand_loop step p v ts = Some (Inr (v, ts))"
  by (subst operand_loop.simps) simp

lemma reads_asD:
  "reads_as p caps L ts r \<Longrightarrow> (\<And>k. L < k \<Longrightarrow> steps_at k (peek rest) = None) \<Longrightarrow>
     parse_level p caps L (ts @ rest) = pbind (Some r) (\<lambda>v. operand_loop (steps_at L) (parse_level p caps (Suc L)) v rest)"
  by (simp add: reads_as_def)

lemma reads_as_stop:
  assumes "reads_as p caps L ts r" "\<And>k. L \<le> k \<Longrightarrow> steps_at k (peek rest) = None"
  shows "parse_level p caps L (ts @ rest) = pbind (Some r) (\<lambda>v. Some (Inr (v, rest)))"
proof -
  from assms(2) have "operand_loop (steps_at L) (parse_level p caps (Suc L)) v rest = Some (Inr (v, rest))" for v
    by (intro operand_loop_stop) simp
  with reads_asD [OF assms(1), of rest] assms(2) show ?thesis by simp
qed

lemma reads_down_one:
  assumes "reads_as p caps (Suc L) ts r" "1 \<le> L" "L \<le> 4"
  shows "reads_as p caps L ts r"
  unfolding reads_as_def
proof (intro allI impI)
  fix rest
  assume "\<forall>k>L. steps_at k (peek rest) = None"
  with reads_as_stop [OF assms(1)] have "parse_level p caps (Suc L) (ts @ rest) = pbind (Some r) (\<lambda>v. Some (Inr (v, rest)))" by simp
  then show "parse_level p caps L (ts @ rest) = pbind (Some r) (\<lambda>v. operand_loop (steps_at L) (parse_level p caps (Suc L)) v rest)"
    unfolding parse_level_chain [OF assms(2,3)] operand_chain_def by (cases r) simp_all
qed

lemma reads_down:
  assumes "reads_as p caps k ts r" "1 \<le> L" "L \<le> k" "k \<le> 5"
  shows "reads_as p caps L ts r"
  using assms(3,1,4)
proof (induction rule: dec_induct)
  case (step n)
  with assms(2) reads_down_one [of p caps n ts r] show ?case by simp
qed simp

lemma reads_unary: "reads_as p caps 5 ts r \<longleftrightarrow>
    (\<forall>rest. (\<forall>k>5. steps_at k (peek rest) = None) \<longrightarrow> parseUnary p caps (ts @ rest) = pbind (Some r) (\<lambda>v. Some (Inr (v, rest))))"
proof -
  have "operand_loop (steps_at 5) q v rest = Some (Inr (v, rest))" for q :: "ConditionValue parser" and v rest
    by (intro operand_loop_stop) (simp add: steps_at_def)
  then show ?thesis by (simp add: reads_as_def parse_level_def)
qed

lemma reads_negated: "reads_as p caps 5 ts r \<Longrightarrow>
    reads_as p caps 5 (Operator ''!'' # ts) (map_sum id (\<lambda>v. Bool (\<not> isTruthy v)) r)"
  by (cases r) (auto simp: reads_unary)

text \<open>An operand of a level between the operand parsers of the sides.\<close>

lemma reads_infix:
  assumes left: "reads_as p caps (op_level op) ls l" and right: "reads_as p caps (Suc (op_level op)) rs r"
  shows "reads_as p caps (op_level op) (ls @ Operator (op_token op) # rs) (ebind l (\<lambda>v. ebind r (op_meaning op v)))"
  unfolding reads_as_def
proof (intro allI impI)
  let ?L = "op_level op" and ?q = "parse_level p caps (Suc (op_level op))"
  fix rest
  assume rest: "\<forall>k>?L. steps_at k (peek rest) = None"
  have "?q (rs @ rest) = pbind (Some r) (\<lambda>v. Some (Inr (v, rest)))"
    using rest by (intro reads_as_stop [OF right]) simp
  then have loop: "operand_loop (steps_at ?L) ?q v (Operator (op_token op) # rs @ rest)
      = pbind (Some (ebind r (op_meaning op v))) (\<lambda>w. operand_loop (steps_at ?L) ?q w rest)" for v
    by (subst operand_loop.simps) (cases r; cases "op_meaning op v (projr r)"; simp add: steps_at_op)
  have "parse_level p caps ?L (ls @ Operator (op_token op) # rs @ rest)
      = pbind (Some l) (\<lambda>v. operand_loop (steps_at ?L) ?q v (Operator (op_token op) # rs @ rest))"
    by (rule reads_asD [OF left]) (simp add: steps_at_other)
  then show "parse_level p caps ?L ((ls @ Operator (op_token op) # rs) @ rest)
      = pbind (Some (ebind l (\<lambda>v. ebind r (op_meaning op v)))) (\<lambda>w. operand_loop (steps_at ?L) ?q w rest)"
    by (cases l) (simp_all add: loop)
qed

lemma reads_primary:
  assumes "\<And>rest. parsePrimary p caps (ts @ rest) = pbind (Some r) (\<lambda>v. Some (Inr (v, rest)))"
    and "ts \<noteq> []" "hd ts \<noteq> Operator ''!''"
  shows "reads_as p caps 5 ts r"
  unfolding reads_unary
proof (intro allI impI)
  fix rest
  from assms(2,3) have "parseUnary p caps (ts @ rest) = parsePrimary p caps (ts @ rest)" by (cases ts) auto
  with assms(1) show "parseUnary p caps (ts @ rest) = pbind (Some r) (\<lambda>v. Some (Inr (v, rest)))" by simp
qed

lemma parse_level_expression: "parse_level (parseExpression n caps) caps 1 = parseExpression (Suc n) caps"
  by (simp add: parse_level_def fun_eq_iff)

lemma reads_brackets:
  assumes "reads_as (parseExpression n caps) caps 1 ts r"
  shows "reads_as (parseExpression (Suc n) caps) caps 5 (Punct (ch CHR ''('') # ts @ [Punct (ch CHR '')'')]) r"
proof (rule reads_primary)
  fix rest
  have "parse_level (parseExpression n caps) caps 1 (ts @ Punct (ch CHR '')'') # rest)
      = pbind (Some r) (\<lambda>v. Some (Inr (v, Punct (ch CHR '')'') # rest)))"
    by (rule reads_as_stop [OF assms]) simp
  then show "parsePrimary (parseExpression (Suc n) caps) caps ((Punct (ch CHR ''('') # ts @ [Punct (ch CHR '')'')]) @ rest)
      = pbind (Some r) (\<lambda>v. Some (Inr (v, rest)))"
    unfolding parse_level_expression
    by (cases r) (simp_all add: parsePrimary_def expectPunct_def matchPunct_def del: parseExpression.simps)
qed simp_all

lemma element_step_comma: "element_step (Punct (ch CHR '','')) = Some (\<lambda>elements v. Inr (elements @ [v]))"
  by (simp add: element_step_def)

lemma expression_stop:
  assumes "reads_as (parseExpression n caps) caps 1 ts r" "\<And>k. steps_at k (peek rest) = None"
  shows "parseExpression (Suc n) caps (ts @ rest) = pbind (Some r) (\<lambda>v. Some (Inr (v, rest)))"
  using reads_as_stop [OF assms] unfolding parse_level_expression .

lemma elements_loop:
  assumes "list_all2 (\<lambda>ts r. reads_as (parseExpression n caps) caps 1 ts r) tss rs"
  shows "operand_loop element_step (parseExpression (Suc n) caps) acc (concat (map (Cons (Punct (ch CHR '',''))) tss) @ Punct (ch CHR '']'') # rest)
    = pbind (Some (all_values rs)) (\<lambda>vs. Some (Inr (acc @ vs, Punct (ch CHR '']'') # rest)))"
  using assms
proof (induction arbitrary: acc rule: list_all2_induct)
  case Nil
  show ?case by (simp add: operand_loop_stop element_step_def)
next
  case (Cons ts tss r rs)
  let ?E = "parseExpression (Suc n) caps" and ?rest = "concat (map (Cons (Punct (ch CHR '',''))) tss) @ Punct (ch CHR '']'') # rest"
  have "peek ?rest = Punct (ch CHR '','') \<or> peek ?rest = Punct (ch CHR '']'')" by (cases tss) auto
  then have "?E (ts @ ?rest) = pbind (Some r) (\<lambda>v. Some (Inr (v, ?rest)))"
    by (intro expression_stop [OF Cons.hyps(1)]) auto
  with Cons.IH show ?case
    by (subst operand_loop.simps)
      (cases r; cases "all_values rs"; simp add: element_step_comma del: parseExpression.simps)
qed

lemma elements_read:
  assumes all: "list_all2 (\<lambda>ts r. reads_as (parseExpression n caps) caps 1 ts r) tss rs"
    and start: "\<And>ts. ts \<in> set tss \<Longrightarrow> ts \<noteq> [] \<and> hd ts \<noteq> Punct (ch CHR '']'')"
  shows "parse_elements (parseExpression (Suc n) caps) (separated (Punct (ch CHR '','')) tss @ Punct (ch CHR '']'') # rest)
    = pbind (Some (all_values rs)) (\<lambda>vs. Some (Inr (vs, Punct (ch CHR '']'') # rest)))"
proof (cases tss)
  case Nil
  with all show ?thesis by (simp add: separated_def parse_elements_def)
next
  case (Cons ts tss')
  with all obtain r rs' where rs: "rs = r # rs'" and r: "reads_as (parseExpression n caps) caps 1 ts r"
    and all': "list_all2 (\<lambda>ts r. reads_as (parseExpression n caps) caps 1 ts r) tss' rs'" by (auto simp: list_all2_Cons1)
  let ?rest = "concat (map (Cons (Punct (ch CHR '',''))) tss') @ Punct (ch CHR '']'') # rest"
  have "peek ?rest = Punct (ch CHR '','') \<or> peek ?rest = Punct (ch CHR '']'')" by (cases tss') auto
  then have "parseExpression (Suc n) caps (ts @ ?rest) = pbind (Some r) (\<lambda>v. Some (Inr (v, ?rest)))"
    by (intro expression_stop [OF r]) auto
  moreover from start [of ts] Cons have "peek (ts @ ?rest) \<noteq> Punct (ch CHR '']'')" by (cases ts) auto
  ultimately show ?thesis
    using elements_loop [OF all', of "[v]" rest for v] unfolding Cons rs parse_elements_def separated_def
    by (cases r; cases "all_values rs'"; simp del: parseExpression.simps)
qed

lemma reads_elements:
  assumes "list_all2 (\<lambda>ts r. reads_as (parseExpression n caps) caps 1 ts r) tss rs"
    and "\<And>ts. ts \<in> set tss \<Longrightarrow> ts \<noteq> [] \<and> hd ts \<noteq> Punct (ch CHR '']'')"
  shows "reads_as (parseExpression (Suc n) caps) caps 5
    (Punct (ch CHR ''['') # separated (Punct (ch CHR '','')) tss @ [Punct (ch CHR '']'')]) (map_sum id Array (all_values rs))"
  by (rule reads_primary)
    (cases "all_values rs"; simp add: parsePrimary_def elements_read [OF assms] expectPunct_def matchPunct_def del: parseExpression.simps)+

lemma tokens_at_start: "tokens_at L c \<noteq> [] \<and> hd (tokens_at L c) \<noteq> Punct (ch CHR '']'')"
  by (induction c arbitrary: L) (auto simp: Let_def hd_append)

lemma separated_length: "ts \<in> set tss \<Longrightarrow> length ts \<le> length (separated c tss)"
proof (cases tss)
  case (Cons us uss)
  assume "ts \<in> set tss"
  moreover have "ts \<in> set uss \<Longrightarrow> length ts \<le> length (concat (map (Cons c) uss))"
    by (induction uss) auto
  ultimately show ?thesis using Cons by (auto simp: separated_def)
qed simp

lemma reads_condition:
  "length (tokens_at L c) \<le> n \<Longrightarrow> 1 \<le> L \<Longrightarrow> L \<le> 5 \<Longrightarrow>
    reads_as (parseExpression n caps) caps L (tokens_at L c) (meaning caps c)"
proof (induction c arbitrary: L n)
  case (Elements es)
  then obtain m where n: "n = Suc m" by (cases n) auto
  have "length (tokens_at 1 e) \<le> m" if "e \<in> set es" for e
    using Elements.prems(1) separated_length [of "tokens_at 1 e" "map (tokens_at 1) es" "Punct (ch CHR '','')"] that n by auto
  with Elements.IH have "list_all2 (\<lambda>ts r. reads_as (parseExpression m caps) caps 1 ts r) (map (tokens_at 1) es) (map (meaning caps) es)"
    by (auto simp: list_all2_conv_all_nth)
  moreover have "\<And>ts. ts \<in> set (map (tokens_at 1) es) \<Longrightarrow> ts \<noteq> [] \<and> hd ts \<noteq> Punct (ch CHR '']'')"
    using tokens_at_start by auto
  ultimately have "reads_as (parseExpression n caps) caps 5 (tokens_at L (Elements es)) (meaning caps (Elements es))"
    unfolding n tokens_at.simps meaning.simps by (rule reads_elements)
  then show ?case by (rule reads_down) (use Elements.prems in simp_all)
next
  case (Negated c)
  then have "reads_as (parseExpression n caps) caps 5 (tokens_at 5 c) (meaning caps c)" by simp
  from reads_negated [OF this] have "reads_as (parseExpression n caps) caps 5 (tokens_at L (Negated c)) (meaning caps (Negated c))" by simp
  then show ?case by (rule reads_down) (use Negated.prems in simp_all)
next
  case (Bracketed c)
  then obtain m where n: "n = Suc m" and m: "length (tokens_at 1 c) \<le> m" by (cases n) auto
  from Bracketed.IH [OF m] have "reads_as (parseExpression m caps) caps 1 (tokens_at 1 c) (meaning caps c)" by simp
  from reads_down [OF reads_brackets [OF this], of L] Bracketed.prems n show ?case by (simp del: parseExpression.simps)
next
  case (Operation op c d)
  let ?k = "op_level op"
  let ?ts = "tokens_at ?k c @ Operator (op_token op) # tokens_at (Suc ?k) d"
  have k: "1 \<le> ?k" "?k \<le> 4" by (rule op_level_bounds)+
  have inner: "reads_as (parseExpression m caps) caps ?k ?ts (meaning caps (Operation op c d))" if "length ?ts \<le> m" for m
  proof -
    from that k have "reads_as (parseExpression m caps) caps ?k (tokens_at ?k c) (meaning caps c)"
      "reads_as (parseExpression m caps) caps (Suc ?k) (tokens_at (Suc ?k) d) (meaning caps d)"
      by (intro Operation.IH; simp)+
    then show ?thesis unfolding meaning.simps by (rule reads_infix)
  qed
  show ?case
  proof (cases "?k < L")
    case True
    with Operation.prems(1) obtain m where n: "n = Suc m" and m: "length ?ts \<le> m" by (cases n) (auto simp: Let_def)
    from reads_down [OF inner [OF m], of 1] k have "reads_as (parseExpression m caps) caps 1 ?ts (meaning caps (Operation op c d))" by simp
    from reads_down [OF reads_brackets [OF this], of L] Operation.prems True n show ?thesis
      by (simp add: Let_def del: parseExpression.simps)
  next
    case False
    with Operation.prems have "reads_as (parseExpression n caps) caps ?k (tokens_at L (Operation op c d)) (meaning caps (Operation op c d))"
      using inner [of n] by (simp add: Let_def)
    then show ?thesis by (rule reads_down) (use Operation.prems False k in simp_all)
  qed
qed (rule reads_down [of _ _ 5], rule reads_primary, simp_all add: parsePrimary_def)+

lemma condition_read:
  assumes "length (tokens_at 1 c) \<le> n" "\<And>k. 1 \<le> k \<Longrightarrow> steps_at k (peek rest) = None"
  shows "parseExpression (Suc n) caps (tokens_at 1 c @ rest) = Some (map_sum id (\<lambda>v. (v, rest)) (meaning caps c))"
proof -
  have "reads_as (parseExpression n caps) caps 1 (tokens_at 1 c) (meaning caps c)"
    by (rule reads_condition) (use assms(1) in simp_all)
  from reads_as_stop [OF this assms(2)] show ?thesis
    unfolding parse_level_expression by (cases "meaning caps c") simp_all
qed

end
