(* ===== verification/Condition_Text.thy ===== *)
theory Condition_Text
  imports Condition_Eval
begin

text \<open>
  From the text of a condition to its value: the number reader on decimal numbers, the tokenizer on
  written tokens, and the two composed with the parser.  At the end the package states of
  \<open>RuntimePackageManager.rs\<close>, which are resolved with these conditions.
\<close>

section \<open>Numbers\<close>

lemma bit_length_bounds: "n \<noteq> 0 \<Longrightarrow> 2 ^ (bit_length n - 1) \<le> n \<and> n < 2 ^ bit_length n \<and> 0 < bit_length n"
proof (induction n rule: bit_length.induct)
  case (1 n)
  show ?case
  proof (cases "n div 2 = 0")
    case True
    with "1.prems" have "n = 1" by auto
    then show ?thesis by (simp add: bit_length.simps)
  next
    case False
    with "1.IH" "1.prems" have ih: "2 ^ (bit_length (n div 2) - 1) \<le> n div 2" "n div 2 < 2 ^ bit_length (n div 2)" "0 < bit_length (n div 2)" by auto
    then obtain k where k: "bit_length (n div 2) = Suc k" by (cases "bit_length (n div 2)") auto
    from "1.prems" have bl: "bit_length n = Suc (Suc k)" by (simp add: bit_length.simps [of n] k)
    from ih k show ?thesis unfolding bl by auto
  qed
qed

text \<open>A natural number below \<open>2 ^ 53\<close> is a double, and is read exactly.\<close>

lemma f64_of_nat:
  assumes "n < 2 ^ 53"
  shows "f64_of_fraction n 1 = Finite (of_nat n)"
proof (cases "n = 0")
  case True
  have "bit_length 0 = 0" "bit_length 1 = 1" by (simp_all add: bit_length.simps)
  with True show ?thesis by (simp add: f64_of_fraction_def f64_exponent_def scaled_def unscaled_def)
next
  case False
  let ?l = "bit_length n"
  from bit_length_bounds [OF False] have l: "2 ^ (?l - 1) \<le> n" "n < 2 ^ ?l" "0 < ?l" by auto
  have "?l \<le> 53"
  proof (rule ccontr)
    assume "\<not> ?l \<le> 53"
    then have "(2::nat) ^ 53 \<le> 2 ^ (?l - 1)" by (intro power_increasing) auto
    with l(1) assms show False by linarith
  qed
  have "bit_length 1 = 1" by (simp add: bit_length.simps)
  then have e0: "int ?l - int (bit_length 1) - 53 = int ?l - 54" by simp
  have "(2::nat) ^ 53 = 2 ^ (?l - 1) * 2 ^ (54 - ?l)"
    using l(3) \<open>?l \<le> 53\<close> by (simp flip: power_add)
  also have "\<dots> \<le> n * 2 ^ (54 - ?l)" using l(1) by simp
  finally have big: "\<not> n * 2 ^ (54 - ?l) < 2 ^ 53" by simp
  have nats: "nat (54 - int ?l) = 54 - ?l" "nat (53 - int ?l) = 53 - ?l" by auto
  have e: "f64_exponent n 1 = int ?l - 53"
    unfolding f64_exponent_def e0 using \<open>?l \<le> 53\<close> big by (simp add: scaled_def nats)
  have "\<not> 0 \<le> int ?l - 53 \<or> ?l = 53" using \<open>?l \<le> 53\<close> by linarith
  then show ?thesis
    unfolding f64_of_fraction_def e using \<open>?l \<le> 53\<close>
    by (auto simp: Let_def scaled_def unscaled_def nats)
qed

lemma decimal_value_append: "decimal_value (cs @ [c]) = 10 * decimal_value cs + (c - 48)"
  by (simp add: decimal_value_def)

lemma ch_digit: "d < 10 \<Longrightarrow> ch (char_of (48 + d)) = 48 + d"
  by (simp add: ch_def)

lemma decimal_small: "n < 10 \<Longrightarrow> decimal n = [char_of (48 + n)]"
  by (subst decimal.simps) simp

lemma decimal_large: "\<not> n < 10 \<Longrightarrow> decimal n = decimal (n div 10) @ [char_of (48 + n mod 10)]"
  by (subst decimal.simps) simp

lemma decimal_digits: "list_all is_digit (chars (decimal n)) \<and> decimal_value (chars (decimal n)) = n \<and> decimal n \<noteq> []"
proof (induction n rule: decimal.induct)
  case (1 n)
  show ?case
  proof (cases "n < 10")
    case True
    have "chars (decimal n) = [48 + n]" by (simp only: decimal_small [OF True] chars_def list.map ch_digit [OF True])
    with True show ?thesis by (simp add: is_digit_def decimal_value_def decimal_small del: decimal.simps)
  next
    case False
    with 1 have ih: "list_all is_digit (chars (decimal (n div 10)))" "decimal_value (chars (decimal (n div 10))) = n div 10" by auto
    have mod: "n mod 10 < 10" by simp
    then have digit: "is_digit (48 + n mod 10)" unfolding is_digit_def by linarith
    from mod have "chars (decimal n) = chars (decimal (n div 10)) @ [48 + n mod 10]"
      by (simp only: decimal_large [OF False] chars_def map_append list.map ch_digit)
    with ih digit show ?thesis using False
      by (simp add: decimal_value_append decimal_large del: decimal.simps)
  qed
qed

lemma number_text_digits: "list_all is_digit ds \<Longrightarrow> number_text d (ds @ rest) = apfst (append ds) (number_text d rest)"
  by (induction ds) (auto simp: apfst_def map_prod_def case_prod_unfold)

lemma number_text_stop: "rest = [] \<or> (\<not> is_digit (hd rest) \<and> hd rest \<noteq> dot) \<Longrightarrow> number_text d rest = ([], rest)"
  by (cases rest) auto

text \<open>Digits with at most one dot among, before or after them; the value is the double next to the decimal fraction.\<close>

definition number_spelling :: "f64 \<Rightarrow> rchar list \<Rightarrow> bool" where
  "number_spelling x s \<longleftrightarrow> (\<exists>whole fraction. list_all is_digit whole \<and> list_all is_digit fraction \<and> whole @ fraction \<noteq> []
     \<and> (s = whole @ dot # fraction \<or> fraction = [] \<and> s = whole)
     \<and> x = f64_of_fraction (decimal_value (whole @ fraction)) (10 ^ length fraction))"

lemma dot_not_digit [simp]: "\<not> is_digit dot"
  by (simp add: is_digit_def dot_def)

lemma takeWhile_digits: "list_all is_digit ds \<Longrightarrow> takeWhile is_digit (ds @ dot # rest) = ds" "list_all is_digit ds \<Longrightarrow> takeWhile is_digit ds = ds"
  by (induction ds) auto

lemma readNumber_spelled:
  assumes "number_spelling x s" and rest: "rest = [] \<or> (\<not> is_digit (hd rest) \<and> hd rest \<noteq> dot)"
  shows "readNumber (s @ rest) = Inr (x, rest)"
proof -
  from assms(1) obtain whole fraction where digits: "list_all is_digit whole" "list_all is_digit fraction" "whole @ fraction \<noteq> []"
    and s: "s = whole @ dot # fraction \<or> fraction = [] \<and> s = whole"
    and x: "x = f64_of_fraction (decimal_value (whole @ fraction)) (10 ^ length fraction)"
    unfolding number_spelling_def by blast
  have stop: "number_text d rest = ([], rest)" for d by (rule number_text_stop [OF rest])
  have cut: "number_text False (s @ rest) = (s, rest)"
    using s by (elim disjE conjE) (simp_all add: number_text_digits digits(1,2) stop)
  have "parse_f64 s = Some x"
    using s digits(3) by (elim disjE conjE) (auto simp: parse_f64_def Let_def takeWhile_digits digits(1) x)
  then show ?thesis by (simp add: readNumber_def cut)
qed

lemma number_spelling_start:
  assumes "number_spelling x s"
  obtains c cs where "s = c # cs" "is_digit c \<or> c = dot \<and> cs \<noteq> [] \<and> is_digit (hd cs)" "is_digit (last s) \<or> last s = dot"
proof -
  from assms obtain whole fraction where digits: "list_all is_digit whole" "list_all is_digit fraction" "whole @ fraction \<noteq> []"
    and s: "s = whole @ dot # fraction \<or> fraction = [] \<and> s = whole"
    unfolding number_spelling_def by blast
  have ne: "s \<noteq> []" using digits(3) s by auto
  have ends: "is_digit (last s) \<or> last s = dot"
    using s digits last_in_set [of whole] last_in_set [of fraction] by (auto simp: list_all_iff)
  have starts: "is_digit (hd s) \<or> hd s = dot \<and> tl s \<noteq> [] \<and> is_digit (hd (tl s))"
    using s digits by (cases whole; cases fraction) auto
  with ne ends show thesis by (cases s) (auto intro: that)
qed

text \<open>The digits of a natural number below \<open>2 ^ 53\<close> spell exactly that number.\<close>

lemma number_spelling_natural: "n < 2 ^ 53 \<Longrightarrow> number_spelling (Finite (of_nat n)) (chars (decimal n))"
  unfolding number_spelling_def using decimal_digits [of n] f64_of_nat [of n]
  by (intro exI [of _ "chars (decimal n)"] exI [of _ "[]"]) (auto simp: chars_def simp del: decimal.simps)

section \<open>Spelled tokens\<close>

text \<open>
  What is assumed of the Unicode tables: on the ASCII characters they are the letters and the
  letters and digits, a letter is alphanumeric and white space is not.
\<close>

definition unicode_tables :: "(rchar \<Rightarrow> bool) \<Rightarrow> (rchar \<Rightarrow> bool) \<Rightarrow> bool" where
  "unicode_tables alpha alnum \<longleftrightarrow>
     (\<forall>c<128. alpha c = is_ascii_alphabetic c \<and> alnum c = (is_ascii_alphabetic c \<or> is_digit c))
     \<and> (\<forall>c. (alpha c \<longrightarrow> alnum c) \<and> (alnum c \<longrightarrow> \<not> is_whitespace c))"

text \<open>A character of a string between the quotes \<open>q\<close>: itself, or a backslash and what stands for it.\<close>

definition string_part :: "rchar \<Rightarrow> rchar list \<Rightarrow> rchar \<Rightarrow> bool" where
  "string_part q part c \<longleftrightarrow> (part = [c] \<and> c \<noteq> q \<and> c \<noteq> escape_char) \<or> (\<exists>n. part = [escape_char, n] \<and> c = unescape n)"

definition capability_name :: "(rchar \<Rightarrow> bool) \<Rightarrow> (rchar \<Rightarrow> bool) \<Rightarrow> rchar list \<Rightarrow> bool" where
  "capability_name alpha alnum s \<longleftrightarrow> s \<noteq> [] \<and> isConditionIdentStart alpha (hd s) \<and> list_all (isConditionIdentPart alnum) s
     \<and> s \<notin> set (map chars [''true'', ''false'', ''null'', ''in''])"

fun spells :: "(rchar \<Rightarrow> bool) \<Rightarrow> (rchar \<Rightarrow> bool) \<Rightarrow> ConditionToken \<Rightarrow> rchar list \<Rightarrow> bool" where
  "spells alpha alnum (Identifier name) s = (s = name \<and> capability_name alpha alnum name)"
| "spells alpha alnum (StringLiteral v) s =
     (\<exists>q parts. is_quote q \<and> list_all2 (string_part q) parts v \<and> s = q # concat parts @ [q])"
| "spells alpha alnum (NumberLiteral x) s = number_spelling x s"
| "spells alpha alnum (BooleanLiteral b) s = (s = chars (if b then ''true'' else ''false''))"
| "spells alpha alnum NullLiteral s = (s = chars ''null'')"
| "spells alpha alnum (Operator op) s = (s = chars op \<and> op \<in> set (''in'' # condition_operators))"
| "spells alpha alnum (Punct c) s = (s = [c] \<and> c \<in> set (chars ''()[],''))"
| "spells alpha alnum Eof s = False"

text \<open>A character that would be read into the token it follows.\<close>

fun joins :: "(rchar \<Rightarrow> bool) \<Rightarrow> ConditionToken \<Rightarrow> rchar \<Rightarrow> bool" where
  "joins alnum (NumberLiteral _) d = (is_digit d \<or> d = dot)"
| "joins alnum (Operator op) d =
     (if op = ''in'' then isConditionIdentPart alnum d else op \<in> {''>'', ''<'', ''!''} \<and> d = ch CHR ''='')"
| "joins alnum (StringLiteral _) d = False"
| "joins alnum (Punct _) d = False"
| "joins alnum Eof d = False"
| "joins alnum _ d = isConditionIdentPart alnum d"

text \<open>
  The texts of a sequence of tokens: white space may stand before each token and at the end, and has
  to stand only where a token would otherwise go on.
\<close>

inductive written :: "(rchar \<Rightarrow> bool) \<Rightarrow> (rchar \<Rightarrow> bool) \<Rightarrow> ConditionToken list \<Rightarrow> rchar list \<Rightarrow> bool" for alpha alnum where
  at_end: "list_all is_whitespace ws \<Longrightarrow> written alpha alnum [] ws"
| token: "list_all is_whitespace ws \<Longrightarrow> spells alpha alnum t s \<Longrightarrow> rest = [] \<or> \<not> joins alnum t (hd rest) \<Longrightarrow>
    written alpha alnum ts rest \<Longrightarrow> written alpha alnum (t # ts) (ws @ s @ rest)"

lemma readString_parts:
  assumes "list_all2 (string_part q) parts v" "is_quote q"
  shows "readString q (concat parts @ q # rest) = Inr (v, rest)"
  using assms(1)
proof (induction rule: list_all2_induct)
  case (Cons part parts c v)
  have "q \<noteq> escape_char" using assms(2) by (auto simp: is_quote_def escape_char_def)
  with Cons show ?case by (auto simp: string_part_def)
qed simp

lemma punctuation: "set (chars ''()[],'') = {40, 41, 91, 93, 44}"
  by (auto simp: chars_def ch_def)

lemma start_char:
  assumes "unicode_tables alpha alnum" "isConditionIdentStart alpha c"
  shows "c \<notin> {40, 41, 91, 93, 44, 34, 39, 46} \<and> \<not> is_digit c \<and> \<not> is_whitespace c"
proof (cases "c < 128")
  case True
  with assms have "is_ascii_alphabetic c \<or> c = 95"
    by (auto simp: unicode_tables_def isConditionIdentStart_def ch_def)
  then show ?thesis by (auto simp: is_ascii_alphabetic_def is_digit_def is_whitespace_def)
next
  case False
  with assms have "\<not> is_whitespace c"
    by (auto simp: unicode_tables_def isConditionIdentStart_def ch_def)
  with False show ?thesis by (auto simp: is_digit_def)
qed

lemma part_not_whitespace: "unicode_tables alpha alnum \<Longrightarrow> is_whitespace c \<Longrightarrow> \<not> isConditionIdentPart alnum c"
  by (auto simp: unicode_tables_def isConditionIdentPart_def ch_def dot_def is_whitespace_def)

lemma next_token_word:
  assumes tables: "unicode_tables alpha alnum" and start: "isConditionIdentStart alpha c"
    and parts: "list_all (isConditionIdentPart alnum) cs" and rest: "rest = [] \<or> \<not> isConditionIdentPart alnum (hd rest)"
  shows "next_token alpha alnum c (cs @ rest) = Inr (word_token (c # cs), rest)"
proof -
  from rest have none: "takeWhile (isConditionIdentPart alnum) rest = []" "dropWhile (isConditionIdentPart alnum) rest = rest"
    by (cases rest; simp)+
  from parts have all: "\<forall>x\<in>set cs. isConditionIdentPart alnum x" by (simp add: list_all_iff)
  with none have "takeWhile (isConditionIdentPart alnum) (cs @ rest) = cs" "dropWhile (isConditionIdentPart alnum) (cs @ rest) = rest"
    by (simp_all add: takeWhile_append dropWhile_append)
  with start_char [OF tables start] start show ?thesis
    unfolding next_token_def punctuation by (simp add: is_quote_def dot_def)
qed

lemma keyword_chars:
  assumes "unicode_tables alpha alnum" "w \<in> set [''true'', ''false'', ''null'', ''in'']"
  shows "\<exists>c cs. chars w = c # cs \<and> isConditionIdentStart alpha c \<and> list_all (isConditionIdentPart alnum) cs"
proof -
  have "c < 128 \<and> is_ascii_alphabetic c \<Longrightarrow> isConditionIdentStart alpha c \<and> isConditionIdentPart alnum c" for c
    using assms(1) by (simp add: unicode_tables_def isConditionIdentStart_def isConditionIdentPart_def)
  moreover from assms(2) have "chars w \<noteq> [] \<and> list_all (\<lambda>c. c < 128 \<and> is_ascii_alphabetic c) (chars w)"
    by (auto simp: chars_def ch_def is_ascii_alphabetic_def)
  ultimately show ?thesis by (cases "chars w") (auto simp: list_all_iff)
qed

lemma operator_chars:
  "chars ''&&'' = [38, 38]" "chars ''||'' = [124, 124]" "chars ''=='' = [61, 61]" "chars ''!='' = [33, 61]"
  "chars ''>='' = [62, 61]" "chars ''<='' = [60, 61]" "chars ''>'' = [62]" "chars ''<'' = [60]" "chars ''!'' = [33]"
  by (simp_all add: chars_def ch_def)

lemma readOperator_spelled:
  assumes "op \<in> set condition_operators" "rest = [] \<or> \<not> joins alnum (Operator op) (hd rest)"
  shows "readOperator (chars op @ rest) = Some (op, rest)"
proof -
  have eq: "ch CHR ''='' = 61" by (simp add: ch_def)
  have "list_all (\<lambda>op. (rest = [] \<or> \<not> joins alnum (Operator op) (hd rest)) \<longrightarrow> readOperator (chars op @ rest) = Some (op, rest)) condition_operators"
    by (cases rest) (simp_all add: readOperator_def condition_operators_def operator_chars eq)
  with assms show ?thesis by (auto simp: list_all_iff simp del: joins.simps)
qed

lemma next_token_operator:
  assumes "unicode_tables alpha alnum" "op \<in> set condition_operators" "rest = [] \<or> \<not> joins alnum (Operator op) (hd rest)"
  shows "next_token alpha alnum (hd (chars op)) (tl (chars op) @ rest) = Inr (Operator op, rest)"
    "chars op \<noteq> [] \<and> \<not> is_whitespace (hd (chars op))"
proof -
  have heads: "hd (chars op) \<in> {38, 124, 61, 33, 62, 60}" "chars op \<noteq> []"
    using assms(2) by (auto simp: condition_operators_def chars_def ch_def)
  then have small: "hd (chars op) < 128" "\<not> is_ascii_alphabetic (hd (chars op))" "hd (chars op) \<noteq> 95"
    by (auto simp: is_ascii_alphabetic_def)
  with assms(1) have start: "\<not> isConditionIdentStart alpha (hd (chars op))"
    by (simp add: unicode_tables_def isConditionIdentStart_def ch_def)
  from heads(1) have kind: "hd (chars op) \<notin> set (chars ''()[],'')" "\<not> is_quote (hd (chars op))"
    "\<not> is_digit (hd (chars op))" "hd (chars op) \<noteq> dot"
    unfolding punctuation by (auto simp: is_quote_def is_digit_def dot_def)
  have spelled: "hd (chars op) # tl (chars op) @ rest = chars op @ rest" using heads(2) by simp
  from readOperator_spelled [OF assms(2,3)] start kind
  show "next_token alpha alnum (hd (chars op)) (tl (chars op) @ rest) = Inr (Operator op, rest)"
    unfolding next_token_def spelled by simp
  from heads show "chars op \<noteq> [] \<and> \<not> is_whitespace (hd (chars op))" by (auto simp: is_whitespace_def)
qed

lemma digit_char: "is_digit c \<or> c = dot \<Longrightarrow> c \<notin> {40, 41, 91, 93, 44, 34, 39} \<and> \<not> is_whitespace c"
  by (auto simp: is_digit_def is_whitespace_def dot_def)

lemma next_token_number:
  assumes "number_spelling x s" and rest: "rest = [] \<or> \<not> joins alnum (NumberLiteral x) (hd rest)"
  shows "\<exists>c cs. s = c # cs \<and> \<not> is_whitespace c \<and> next_token alpha alnum c (cs @ rest) = Inr (NumberLiteral x, rest)"
proof -
  from assms(1) obtain c cs where c: "s = c # cs" "is_digit c \<or> c = dot \<and> cs \<noteq> [] \<and> is_digit (hd cs)"
    by (rule number_spelling_start)
  have "readNumber (c # cs @ rest) = Inr (x, rest)" using readNumber_spelled [OF assms(1)] rest c(1) by simp
  moreover have "is_digit c \<or> c = dot \<and> (case cs @ rest of [] \<Rightarrow> False | d # _ \<Rightarrow> is_digit d)" using c(2) by (cases cs) auto
  moreover have "c \<notin> {40, 41, 91, 93, 44, 34, 39} \<and> \<not> is_whitespace c" using c(2) by (intro digit_char) blast
  ultimately have "next_token alpha alnum c (cs @ rest) = Inr (NumberLiteral x, rest)" "\<not> is_whitespace c"
    unfolding next_token_def punctuation by (simp_all add: is_quote_def)
  with c(1) show ?thesis by blast
qed

lemma next_token_keyword:
  assumes tables: "unicode_tables alpha alnum" and w: "w \<in> set [''true'', ''false'', ''null'', ''in'']"
    and rest: "rest = [] \<or> \<not> isConditionIdentPart alnum (hd rest)"
  shows "\<exists>c cs. chars w = c # cs \<and> \<not> is_whitespace c \<and> next_token alpha alnum c (cs @ rest) = Inr (word_token (chars w), rest)"
proof -
  from keyword_chars [OF tables w] obtain c cs where c: "chars w = c # cs" "isConditionIdentStart alpha c" "list_all (isConditionIdentPart alnum) cs" by blast
  from next_token_word [OF tables c(2,3) rest] start_char [OF tables c(2)] c(1) show ?thesis by auto
qed

lemma word_token_keyword:
  "word_token (chars ''true'') = BooleanLiteral True" "word_token (chars ''false'') = BooleanLiteral False"
  "word_token (chars ''null'') = NullLiteral" "word_token (chars ''in'') = Operator ''in''"
  by (simp_all add: word_token_def chars_def)

lemma next_token_spelled:
  assumes tables: "unicode_tables alpha alnum" and t: "spells alpha alnum t s" and rest: "rest = [] \<or> \<not> joins alnum t (hd rest)"
  shows "\<exists>c cs. s = c # cs \<and> \<not> is_whitespace c \<and> next_token alpha alnum c (cs @ rest) = Inr (t, rest)"
proof (cases t)
  case (Identifier name)
  with t have name: "capability_name alpha alnum name" and s: "s = name" by simp_all
  then obtain c cs where c: "name = c # cs" "isConditionIdentStart alpha c" "list_all (isConditionIdentPart alnum) cs"
    by (cases name) (auto simp: capability_name_def)
  from name have "word_token name = Identifier name" by (auto simp: capability_name_def word_token_def)
  with next_token_word [OF tables c(2,3), of rest] rest start_char [OF tables c(2)] Identifier c(1) s show ?thesis by auto
next
  case (StringLiteral v)
  with t obtain q parts where q: "is_quote q" "list_all2 (string_part q) parts v" "s = q # concat parts @ [q]" by auto
  have "q \<notin> {40, 41, 91, 93, 44} \<and> \<not> is_whitespace q" using q(1) by (auto simp: is_quote_def is_whitespace_def)
  with q(1) readString_parts [OF q(2,1), of rest] have "next_token alpha alnum q ((concat parts @ [q]) @ rest) = Inr (t, rest)"
    unfolding next_token_def punctuation by (simp add: StringLiteral)
  with q(3) \<open>q \<notin> {40, 41, 91, 93, 44} \<and> \<not> is_whitespace q\<close> show ?thesis by blast
next
  case (NumberLiteral x)
  with t rest next_token_number show ?thesis by auto
next
  case (BooleanLiteral b)
  then show ?thesis
    using t rest next_token_keyword [OF tables _, of "if b then ''true'' else ''false''" rest] by (auto simp: word_token_keyword)
next
  case NullLiteral
  then show ?thesis using t rest next_token_keyword [OF tables _, of "''null''" rest] by (auto simp: word_token_keyword)
next
  case (Operator op)
  show ?thesis
  proof (cases "op = ''in''")
    case True
    then show ?thesis using Operator t rest next_token_keyword [OF tables _, of "''in''" rest] by (auto simp: word_token_keyword)
  next
    case False
    with t Operator have op: "op \<in> set condition_operators" "s = chars op" by simp_all
    from next_token_operator [OF tables op(1)] rest Operator op(2) show ?thesis
      by (intro exI [of _ "hd (chars op)"] exI [of _ "tl (chars op)"]) simp
  qed
next
  case (Punct c)
  with t have "c \<in> set (chars ''()[],'')" "s = [c]" by simp_all
  moreover from this have "\<not> is_whitespace c" unfolding punctuation by (auto simp: is_whitespace_def)
  ultimately show ?thesis using Punct by (simp add: next_token_def)
qed (use t in simp)

lemma tokenize_written:
  assumes "unicode_tables alpha alnum" and "written alpha alnum ts cs"
  shows "tokenize alpha alnum cs = Inr (ts @ [Eof])"
  using assms(2)
proof induction
  case (at_end ws)
  then have "dropWhile is_whitespace ws = []" by (simp add: list_all_iff)
  then show ?case by (subst tokenize.simps) (simp only: list.case append_Nil)
next
  case (token ws t s rest ts)
  from next_token_spelled [OF assms(1) token.hyps(2,3)]
  obtain c cs where c: "s = c # cs" "\<not> is_whitespace c" "next_token alpha alnum c (cs @ rest) = Inr (t, rest)" by blast
  with token.hyps(1) have "dropWhile is_whitespace (ws @ s @ rest) = c # cs @ rest" by (simp add: dropWhile_append list_all_iff)
  with token.IH c(3) show ?case by (subst tokenize.simps) simp
qed

lemma tokenize_dropWhile: "tokenize alpha alnum (dropWhile is_whitespace cs) = tokenize alpha alnum cs"
  by (subst (1 2) tokenize.simps) (simp add: dropWhile_idem)

lemma spelled_last:
  assumes "unicode_tables alpha alnum" "spells alpha alnum t s"
  shows "s \<noteq> [] \<and> \<not> is_whitespace (last s)"
proof (cases t)
  case (Identifier name)
  with assms(2) have "name \<noteq> []" "isConditionIdentPart alnum (last name)" "s = name" by (auto simp: capability_name_def list_all_iff)
  with part_not_whitespace [OF assms(1)] show ?thesis by auto
next
  case (StringLiteral v)
  with assms(2) show ?thesis by (auto simp: is_quote_def is_whitespace_def)
next
  case (NumberLiteral x)
  with assms(2) have "number_spelling x s" by simp
  then obtain c cs where "s = c # cs" "is_digit (last s) \<or> last s = dot" by (rule number_spelling_start)
  with digit_char [of "last s"] show ?thesis by auto
next
  case (Operator op)
  with assms(2) have "op \<in> set (''in'' # condition_operators)" and s: "s = chars op" by simp_all
  then have "chars op \<noteq> [] \<and> last (chars op) \<in> {38, 124, 61, 33, 62, 60, 110}"
    by (auto simp: condition_operators_def chars_def ch_def)
  then show ?thesis using s by (auto simp: is_whitespace_def)
next
  case (Punct c)
  with assms(2) have "c \<in> set (chars ''()[],'')" "s = [c]" by simp_all
  then show ?thesis unfolding punctuation by (auto simp: is_whitespace_def)
qed (use assms(2) in \<open>auto simp: chars_def ch_def is_whitespace_def\<close>)

text \<open>White space at the end does not matter.\<close>

definition trim_end :: "rchar list \<Rightarrow> rchar list" where
  "trim_end cs = rev (dropWhile is_whitespace (rev cs))"

lemma trim_end_append:
  assumes "a \<noteq> []" "\<not> is_whitespace (last a)"
  shows "trim_end (a @ b) = a @ trim_end b"
proof -
  from assms have "dropWhile is_whitespace (rev a) = rev a" by (cases a rule: rev_cases) auto
  then show ?thesis by (simp add: trim_end_def dropWhile_append dropWhile_eq_Nil_conv)
qed

lemma hd_trim_end: "trim_end cs = [] \<or> hd (trim_end cs) = hd cs"
proof -
  obtain s where "cs = trim_end cs @ s" unfolding trim_end_def by (metis rev_append rev_rev_ident takeWhile_dropWhile_id)
  then show ?thesis by (metis hd_append2)
qed

lemma written_trim_end:
  assumes "unicode_tables alpha alnum" and "written alpha alnum ts cs"
  shows "written alpha alnum ts (trim_end cs)"
  using assms(2)
proof induction
  case (at_end ws)
  then have "trim_end ws = []" by (simp add: trim_end_def list_all_iff)
  then show ?case by (simp add: written.at_end)
next
  case (token ws t s rest ts)
  have "trim_end (ws @ s @ rest) = ws @ s @ trim_end rest"
    using trim_end_append [of "ws @ s" rest] spelled_last [OF assms(1) token.hyps(2)] by simp
  moreover have "trim_end rest = [] \<or> \<not> joins alnum t (hd (trim_end rest))"
    using hd_trim_end [of rest] token.hyps(3) by (auto simp: trim_end_def)
  ultimately show ?case using written.token [OF token.hyps(1,2) _ token.IH] by simp
qed

lemma trim_trim_end: "trim_end (dropWhile is_whitespace cs) = dropWhile is_whitespace (trim_end cs)"
proof (cases "list_all is_whitespace cs")
  case True
  then have "dropWhile is_whitespace cs = []" and "dropWhile is_whitespace (rev cs) = []" by (simp_all only: dropWhile_eq_Nil_conv list_all_iff set_rev)
  then show ?thesis by (simp only: trim_end_def rev.simps dropWhile.simps)
next
  case False
  define a where "a = takeWhile is_whitespace cs"
  define d where "d = dropWhile is_whitespace cs"
  have cs: "cs = a @ d" and a: "list_all is_whitespace a" by (auto simp: a_def d_def list_all_iff dest: set_takeWhileD)
  from False have d: "d \<noteq> []" "\<not> is_whitespace (hd d)" by (auto simp: d_def list_all_iff dropWhile_eq_Nil_conv hd_dropWhile)
  then have some: "\<exists>x\<in>set d. \<not> is_whitespace x" using hd_in_set by blast
  then have "trim_end cs = a @ trim_end d" unfolding cs by (auto simp: trim_end_def dropWhile_append)
  moreover have ne: "trim_end d \<noteq> []" using some by (auto simp: trim_end_def dropWhile_eq_Nil_conv)
  moreover have "\<not> is_whitespace (hd (trim_end d))" using hd_trim_end [of d] d(2) ne by simp
  ultimately have "dropWhile is_whitespace (trim_end cs) = trim_end d"
    using a by (cases "trim_end d") (auto simp: dropWhile_append list_all_iff)
  then show ?thesis by (simp add: d_def)
qed

text \<open>What follows a complete expression is not looked at.\<close>

lemma evaluate_written:
  assumes tables: "unicode_tables alpha alnum" and tokens: "written alpha alnum (tokens_at 1 c @ extra) cs"
    and extra: "\<And>k. steps_at k (peek (extra @ [Eof])) = None"
  shows "evaluate alpha alnum cs caps = (case meaning caps c of Inr v \<Rightarrow> isTruthy v | Inl _ \<Rightarrow> False)"
proof -
  let ?ts = "tokens_at 1 c @ extra @ [Eof]"
  from tokens_at_start [of 1 c] have some: "tokens_at 1 c @ extra \<noteq> []" by simp
  have trim: "trim cs = dropWhile is_whitespace (trim_end cs)"
    unfolding trim_trim_end [symmetric] by (simp only: trim_def trim_end_def)
  have tokenized: "tokenize alpha alnum (trim cs) = Inr ?ts"
    using tokenize_written [OF tables written_trim_end [OF tables tokens]] by (simp add: trim tokenize_dropWhile)
  then have "trim cs \<noteq> []" using some by (auto simp: tokenize.simps [of _ _ "[]"])
  moreover have "parseExpression (Suc (length ?ts)) caps ?ts = Some (map_sum id (\<lambda>v. (v, extra @ [Eof])) (meaning caps c))"
    by (rule condition_read) (simp_all add: extra)
  ultimately show ?thesis
    using tokenized unfolding evaluate_def by (cases "meaning caps c") (simp_all del: parseExpression.simps)
qed

text \<open>C39: The evaluator computes the meaning of the condition it is given as text, however the text is
  laid out: with brackets where the five levels demand them or anywhere else, with white space only
  where two tokens would be read as one, strings between either quotes with or without escapes, and
  numbers with a fraction.  Operators of one level associate to the left, a capability that is not
  known is \<open>null\<close>, and a condition with an error in any operand, also behind a short circuit, is
  false.  Of the Unicode tables it is assumed that they agree with ASCII and that no letter or digit is
  white space.\<close>

theorem condition_text_evaluated:
  assumes "unicode_tables alpha alnum" and "written alpha alnum (tokens_at 1 c) cs"
  shows "evaluate alpha alnum cs caps = (case meaning caps c of Inr v \<Rightarrow> isTruthy v | Inl _ \<Rightarrow> False)"
  by (rule evaluate_written [where extra = "[]"]) (use assms in simp_all)

definition ascii_alphanumeric :: "rchar \<Rightarrow> bool" where
  "ascii_alphanumeric c \<longleftrightarrow> is_ascii_alphabetic c \<or> is_digit c"

lemma ascii_tables: "unicode_tables is_ascii_alphabetic ascii_alphanumeric"
  by (auto simp: unicode_tables_def ascii_alphanumeric_def is_ascii_alphabetic_def is_digit_def is_whitespace_def)

text \<open>\<open>platform.name=='linux'&&!(1.5>2)\<close>.\<close>

definition example_text :: "rchar list" where
  "example_text = chars ''platform.name=='' @ [39] @ chars ''linux'' @ [39] @ chars ''&&!(1.5>2)''"

definition example_condition :: condition where
  "example_condition = Operation AndOp (Operation EqOp (Capability (chars ''platform.name'')) (StrLit (chars ''linux'')))
     (Negated (Operation GtOp (NumLit (Finite (3 / 2))) (NumLit (Finite 2))))"

lemma example_tokens:
  "tokens_at 1 example_condition =
     [Identifier (chars ''platform.name''), Operator ''=='', StringLiteral (chars ''linux''), Operator ''&&'', Operator ''!'',
      Punct (ch CHR ''(''), NumberLiteral (Finite (3 / 2)), Operator ''>'', NumberLiteral (Finite 2), Punct (ch CHR '')'')]"
  by (simp add: example_condition_def)

lemma three_halves: "f64_of_fraction 15 10 = Finite (3 / 2)"
  by (simp add: f64_of_fraction_def f64_exponent_def scaled_def unscaled_def bit_length.simps Let_def)

lemma example_numbers: "number_spelling (Finite (3 / 2)) (chars ''1.5'')" "number_spelling (Finite 2) (chars ''2'')"
proof -
  show "number_spelling (Finite (3 / 2)) (chars ''1.5'')"
    unfolding number_spelling_def
    by (rule exI [of _ "[49]"], rule exI [of _ "[53]"]) (simp add: chars_def ch_def dot_def is_digit_def decimal_value_def three_halves)
  show "number_spelling (Finite 2) (chars ''2'')"
    unfolding number_spelling_def using f64_of_nat [of 2]
    by (intro exI [of _ "[50]"] exI [of _ "[]"]) (simp add: chars_def ch_def is_digit_def decimal_value_def)
qed

lemma written_next:
  "spells alpha alnum t s \<Longrightarrow> rest = [] \<or> \<not> joins alnum t (hd rest) \<Longrightarrow> written alpha alnum ts rest \<Longrightarrow> written alpha alnum (t # ts) (s @ rest)"
  using written.token [of "[]" alpha alnum t s rest ts] by simp

lemma spells_linux: "spells alpha alnum (StringLiteral (chars ''linux'')) ([39] @ chars ''linux'' @ [39])"
  by (simp, rule exI [of _ 39], rule conjI, simp add: is_quote_def, rule exI [of _ "map (\<lambda>c. [c]) (chars ''linux'')"])
    (simp add: string_part_def chars_def ch_def escape_char_def)

lemma example_written: "written is_ascii_alphabetic ascii_alphanumeric (tokens_at 1 example_condition) example_text"
proof -
  let ?w = "written is_ascii_alphabetic ascii_alphanumeric"
  note simps = condition_operators_def chars_def ch_def capability_name_def isConditionIdentStart_def isConditionIdentPart_def
    ascii_alphanumeric_def is_ascii_alphabetic_def is_digit_def dot_def
  have "?w [] []" by (simp add: written.at_end)
  then have "?w [Punct (ch CHR '')'')] (chars '')'' @ [])" by (rule written_next [rotated 2]) (simp_all add: simps)
  then have "?w [NumberLiteral (Finite 2), Punct (ch CHR '')'')] (chars ''2'' @ chars '')'' @ [])"
    by (rule written_next [rotated 2]) (simp_all add: example_numbers, simp add: simps)
  then have "?w [Operator ''>'', NumberLiteral (Finite 2), Punct (ch CHR '')'')] (chars ''>'' @ chars ''2'' @ chars '')'' @ [])"
    by (rule written_next [rotated 2]) (simp_all add: simps)
  then have "?w [NumberLiteral (Finite (3 / 2)), Operator ''>'', NumberLiteral (Finite 2), Punct (ch CHR '')'')]
      (chars ''1.5'' @ chars ''>'' @ chars ''2'' @ chars '')'' @ [])"
    by (rule written_next [rotated 2]) (simp_all add: example_numbers, simp add: simps)
  then have "?w [Punct (ch CHR ''(''), NumberLiteral (Finite (3 / 2)), Operator ''>'', NumberLiteral (Finite 2), Punct (ch CHR '')'')]
      (chars ''('' @ chars ''1.5'' @ chars ''>'' @ chars ''2'' @ chars '')'' @ [])"
    by (rule written_next [rotated 2]) (simp_all add: simps)
  then have "?w [Operator ''!'', Punct (ch CHR ''(''), NumberLiteral (Finite (3 / 2)), Operator ''>'', NumberLiteral (Finite 2), Punct (ch CHR '')'')]
      (chars ''!'' @ chars ''('' @ chars ''1.5'' @ chars ''>'' @ chars ''2'' @ chars '')'' @ [])"
    by (rule written_next [rotated 2]) (simp_all add: simps)
  then have "?w [Operator ''&&'', Operator ''!'', Punct (ch CHR ''(''), NumberLiteral (Finite (3 / 2)), Operator ''>'', NumberLiteral (Finite 2), Punct (ch CHR '')'')]
      (chars ''&&'' @ chars ''!'' @ chars ''('' @ chars ''1.5'' @ chars ''>'' @ chars ''2'' @ chars '')'' @ [])"
    by (rule written_next [rotated 2]) (simp_all add: simps)
  then have "?w [StringLiteral (chars ''linux''), Operator ''&&'', Operator ''!'', Punct (ch CHR ''(''), NumberLiteral (Finite (3 / 2)), Operator ''>'', NumberLiteral (Finite 2), Punct (ch CHR '')'')]
      (([39] @ chars ''linux'' @ [39]) @ chars ''&&'' @ chars ''!'' @ chars ''('' @ chars ''1.5'' @ chars ''>'' @ chars ''2'' @ chars '')'' @ [])"
    by (rule written_next [OF spells_linux, rotated]) simp
  then have "?w [Operator ''=='', StringLiteral (chars ''linux''), Operator ''&&'', Operator ''!'', Punct (ch CHR ''(''), NumberLiteral (Finite (3 / 2)), Operator ''>'', NumberLiteral (Finite 2), Punct (ch CHR '')'')]
      (chars ''=='' @ ([39] @ chars ''linux'' @ [39]) @ chars ''&&'' @ chars ''!'' @ chars ''('' @ chars ''1.5'' @ chars ''>'' @ chars ''2'' @ chars '')'' @ [])"
    by (rule written_next [rotated 2]) (simp_all add: condition_operators_def)
  then have "?w (tokens_at 1 example_condition)
      (chars ''platform.name'' @ chars ''=='' @ ([39] @ chars ''linux'' @ [39]) @ chars ''&&'' @ chars ''!'' @ chars ''('' @ chars ''1.5'' @ chars ''>'' @ chars ''2'' @ chars '')'' @ [])"
    unfolding example_tokens by (rule written_next [rotated 2]) (simp_all add: simps)
  then show ?thesis by (simp add: example_text_def chars_def)
qed

lemma example_meaning:
  "meaning [chars ''platform.name'' \<mapsto> Str (chars ''linux'')] example_condition = Inr (Bool True)"
  by (simp add: example_condition_def number_cmp_def)

theorem condition_text_evaluated_witness:
  "evaluate is_ascii_alphabetic ascii_alphanumeric example_text [chars ''platform.name'' \<mapsto> Str (chars ''linux'')]"
  using condition_text_evaluated [OF ascii_tables example_written, of "[chars ''platform.name'' \<mapsto> Str (chars ''linux'')]"]
  unfolding example_meaning by simp

text \<open>
  Two limits of the evaluator.  What follows a complete expression is never looked at, so
  \<open>true)&&false\<close> is true; and both sides of \<open>||\<close> are evaluated, so in
  \<open>true||null>1\<close> the error on the right takes the value of the left with it.
\<close>

lemma trailing_tokens_ignored: "evaluate is_ascii_alphabetic ascii_alphanumeric (chars ''true)&&false'') caps"
proof -
  let ?w = "written is_ascii_alphabetic ascii_alphanumeric"
  let ?extra = "[Punct (ch CHR '')''), Operator ''&&'', BooleanLiteral False]"
  note simps = condition_operators_def chars_def ch_def isConditionIdentPart_def ascii_alphanumeric_def is_ascii_alphabetic_def is_digit_def dot_def
  have "?w [] []" by (simp add: written.at_end)
  then have "?w [BooleanLiteral False] (chars ''false'' @ [])" by (rule written_next [rotated 2]) simp_all
  then have "?w [Operator ''&&'', BooleanLiteral False] (chars ''&&'' @ chars ''false'' @ [])"
    by (rule written_next [rotated 2]) (simp_all add: simps)
  then have "?w ?extra (chars '')'' @ chars ''&&'' @ chars ''false'' @ [])"
    by (rule written_next [rotated 2]) (simp_all add: simps)
  then have "?w (tokens_at 1 (BoolLit True) @ ?extra) (chars ''true'' @ chars '')'' @ chars ''&&'' @ chars ''false'' @ [])"
    unfolding tokens_at.simps append.simps by (rule written_next [rotated 2]) (simp_all add: simps)
  from evaluate_written [OF ascii_tables this, of caps] show ?thesis by (simp add: chars_def)
qed

lemma error_behind_short_circuit: "\<not> evaluate is_ascii_alphabetic ascii_alphanumeric (chars ''true||null>1'') caps"
proof -
  let ?w = "written is_ascii_alphabetic ascii_alphanumeric"
  let ?c = "Operation OrOp (BoolLit True) (Operation GtOp NullLit (NumLit (Finite 1)))"
  note simps = condition_operators_def chars_def ch_def isConditionIdentPart_def ascii_alphanumeric_def is_ascii_alphabetic_def is_digit_def dot_def
  have one: "number_spelling (Finite 1) (chars ''1'')"
    unfolding number_spelling_def using f64_of_nat [of 1]
    by (intro exI [of _ "[49]"] exI [of _ "[]"]) (simp add: chars_def ch_def is_digit_def decimal_value_def)
  have "?w [] []" by (simp add: written.at_end)
  then have "?w [NumberLiteral (Finite 1)] (chars ''1'' @ [])" by (rule written_next [rotated 2]) (simp_all add: one)
  then have "?w [Operator ''>'', NumberLiteral (Finite 1)] (chars ''>'' @ chars ''1'' @ [])"
    by (rule written_next [rotated 2]) (simp_all add: simps)
  then have "?w [NullLiteral, Operator ''>'', NumberLiteral (Finite 1)] (chars ''null'' @ chars ''>'' @ chars ''1'' @ [])"
    by (rule written_next [rotated 2]) (simp_all add: simps)
  then have "?w [Operator ''||'', NullLiteral, Operator ''>'', NumberLiteral (Finite 1)] (chars ''||'' @ chars ''null'' @ chars ''>'' @ chars ''1'' @ [])"
    by (rule written_next [rotated 2]) (simp_all add: simps)
  then have "?w [BooleanLiteral True, Operator ''||'', NullLiteral, Operator ''>'', NumberLiteral (Finite 1)]
      (chars ''true'' @ chars ''||'' @ chars ''null'' @ chars ''>'' @ chars ''1'' @ [])"
    by (rule written_next [rotated 2]) (simp_all add: simps)
  then have "?w (tokens_at 1 ?c @ []) (chars ''true||null>1'')" by (simp add: chars_def)
  from evaluate_written [OF ascii_tables this, of caps] show ?thesis by (simp add: number_cmp_def)
qed

end
