(* ===== verification/Tool_Package.thy ===== *)
theory Tool_Package
  imports Ordered_Map Condition_Text
begin

text \<open>
  Tool packages (\<open>package.rs\<close>): their conditional states, the tools that a state leaves
  (\<open>PackageManager.rs\<close>), the selection of the state from the capabilities of the host
  (\<open>RuntimePackageManager.rs\<close>) and of an executable tool (\<open>javascript.rs\<close>).  The
  descriptive fields of the records, which none of these operations reads, are the type
  parameter \<open>'d\<close>.
\<close>

section \<open>Packages\<close>

record 'd PackageTool =
  pt_name :: "rchar list"
  pt_parameters :: "rchar list list"
  pt_script :: "rchar list"
  pt_advice :: bool
  pt_description :: 'd

record 'd ToolPackageState =
  ts_id :: "rchar list"
  ts_condition :: "rchar list"
  ts_inherit_tools :: bool
  ts_exclude_tools :: "rchar list list"
  ts_tools :: "'d PackageTool list"

record 'd ToolPackage =
  tp_name :: "rchar list"
  tp_tools :: "'d PackageTool list"
  tp_states :: "'d ToolPackageState list"
  tp_description :: 'd

section \<open>The state of a package\<close>

datatype HostPlatform = Android | Ohos | Windows | Linux | Macos | Ios | Web | Esp32 | OtherPlatform

fun platform_name :: "HostPlatform \<Rightarrow> string" where
  "platform_name Android = ''android''" | "platform_name Ohos = ''ohos''" | "platform_name Windows = ''windows''"
| "platform_name Linux = ''linux''" | "platform_name Macos = ''macos''" | "platform_name Ios = ''ios''"
| "platform_name Web = ''web''" | "platform_name Esp32 = ''esp32''" | "platform_name OtherPlatform = ''other''"

definition buildConditionCapabilitiesSnapshot :: "HostPlatform \<Rightarrow> capabilities" where
  "buildConditionCapabilitiesSnapshot host =
     (let name = platform_name host in map_of
       [(chars ''platform.name'', Str (chars name)),
        (chars ''platform.windows'', Bool (name = ''windows'')),
        (chars ''platform.linux'', Bool (name = ''linux'')),
        (chars ''platform.android'', Bool (name = ''android'')),
        (chars ''platform.macos'', Bool (name = ''macos'')),
        (chars ''platform.ios'', Bool (name = ''ios'')),
        (chars ''platform.web'', Bool (name = ''web'')),
        (chars ''platform.ohos'', Bool (name = ''ohos'')),
        (chars ''ui.virtual_display'', Bool False),
        (chars ''android.permission_level'', Str (chars ''STANDARD'')),
        (chars ''android.shizuku_available'', Bool False),
        (chars ''ui.shower_display'', Bool False)])"

text \<open>The resolver of the runtime: the identity of the first state whose condition holds.\<close>

definition resolvePackageStateId :: "(rchar \<Rightarrow> bool) \<Rightarrow> (rchar \<Rightarrow> bool) \<Rightarrow> HostPlatform \<Rightarrow> 'd ToolPackage \<Rightarrow> rchar list option" where
  "resolvePackageStateId alpha alnum host package =
     map_option ts_id (find (\<lambda>s. evaluate alpha alnum (ts_condition s) (buildConditionCapabilitiesSnapshot host)) (tp_states package))"

section \<open>The tools of a state\<close>

definition insert_tools :: "'d PackageTool list \<Rightarrow> (rchar list, 'd PackageTool) bmap \<Rightarrow> (rchar list, 'd PackageTool) bmap" where
  "insert_tools tools m = foldl (\<lambda>m t. bm_insert (pt_name t) t m) m tools"

definition mergeToolRefsForState :: "'d PackageTool list \<Rightarrow> 'd ToolPackageState \<Rightarrow> (rchar list, 'd PackageTool) bmap" where
  "mergeToolRefsForState base s =
     insert_tools (ts_tools s)
       (foldl (\<lambda>m n. bm_remove n m) (if ts_inherit_tools s then insert_tools base [] else []) (ts_exclude_tools s))"

definition applied_state :: "'d ToolPackage \<Rightarrow> rchar list option \<Rightarrow> 'd ToolPackageState option" where
  "applied_state package stateId = Option.bind stateId (\<lambda>i. find (\<lambda>s. ts_id s = i) (tp_states package))"

definition applyPackageState :: "'d ToolPackage \<Rightarrow> rchar list option \<Rightarrow> 'd ToolPackage" where
  "applyPackageState package stateId =
     (case applied_state package stateId of
        None \<Rightarrow> package
      | Some s \<Rightarrow> package\<lparr>tp_tools := map snd (mergeToolRefsForState (tp_tools package) s)\<rparr>)"

datatype tool_error =
    PackageNotRegistered "rchar list"
  | ToolNotRegistered "rchar list" "rchar list"
  | DuplicateTool "rchar list" "rchar list"
  | ToolIsAdvisory "rchar list" "rchar list"
  | EmptyScript "rchar list" "rchar list"
  | DuplicateParameter "rchar list" "rchar list" "rchar list"

text \<open>The first name that was seen before.\<close>

fun repeated_name :: "rchar list list \<Rightarrow> rchar list list \<Rightarrow> rchar list option" where
  "repeated_name seen [] = None"
| "repeated_name seen (p # ps) = (if p \<in> set seen then Some p else repeated_name (p # seen) ps)"

definition select_registered_package_tool_ref :: "rchar list \<Rightarrow> 'd PackageTool list \<Rightarrow> rchar list \<Rightarrow> tool_error + 'd PackageTool" where
  "select_registered_package_tool_ref package tools function =
     (case filter (\<lambda>t. pt_name t = function) tools of
        [] \<Rightarrow> Inl (ToolNotRegistered package function)
      | tool # others \<Rightarrow>
          if others \<noteq> [] then Inl (DuplicateTool package function)
          else if pt_advice tool then Inl (ToolIsAdvisory package function)
          else if trim (pt_script tool) = [] then Inl (EmptyScript package function)
          else (case repeated_name [] (pt_parameters tool) of
              Some p \<Rightarrow> Inl (DuplicateParameter package function p)
            | None \<Rightarrow> Inr tool))"

section \<open>What a state leaves\<close>

text \<open>A later tool of the same name replaces an earlier one.\<close>

definition last_named :: "rchar list \<Rightarrow> 'd PackageTool list \<Rightarrow> 'd PackageTool option" where
  "last_named n tools = find (\<lambda>t. pt_name t = n) (rev tools)"

definition left_tool :: "'d PackageTool list \<Rightarrow> 'd ToolPackageState \<Rightarrow> rchar list \<Rightarrow> 'd PackageTool option" where
  "left_tool base s n =
     (case last_named n (ts_tools s) of
        Some t \<Rightarrow> Some t
      | None \<Rightarrow> if ts_inherit_tools s \<and> n \<notin> set (ts_exclude_tools s) then last_named n base else None)"

lemma find_append: "find P (xs @ ys) = (case find P xs of Some x \<Rightarrow> Some x | None \<Rightarrow> find P ys)"
  by (induction xs) auto

lemma last_named_snoc: "last_named n (tools @ [t]) = (if pt_name t = n then Some t else last_named n tools)"
  by (simp add: last_named_def)

lemma insert_tools_snoc: "insert_tools (tools @ [t]) m = bm_insert (pt_name t) t (insert_tools tools m)"
  by (simp add: insert_tools_def)

lemma insert_tools_lookup:
  assumes "bm_wf m"
  shows "bm_wf (insert_tools tools m) \<and>
    map_of (insert_tools tools m) n = (case last_named n tools of Some t \<Rightarrow> Some t | None \<Rightarrow> map_of m n)"
proof (induction tools rule: rev_induct)
  case Nil
  with assms show ?case by (simp add: insert_tools_def last_named_def)
next
  case (snoc t tools)
  then show ?case by (auto simp: insert_tools_snoc last_named_snoc)
qed

lemma removed_names:
  "bm_wf m \<Longrightarrow> bm_wf (foldl (\<lambda>m n. bm_remove n m) m ns) \<and>
    map_of (foldl (\<lambda>m n. bm_remove n m) m ns) n = (if n \<in> set ns then None else map_of m n)"
proof (induction ns rule: rev_induct)
  case (snoc a ns)
  then show ?case by auto
qed simp

lemma merge_lookup:
  "bm_wf (mergeToolRefsForState base s)" "map_of (mergeToolRefsForState base s) n = left_tool base s n"
proof -
  let ?m = "if ts_inherit_tools s then insert_tools base [] else []"
  have m: "bm_wf ?m" "map_of ?m n = (if ts_inherit_tools s then last_named n base else None)"
    using insert_tools_lookup [of "[]" base n] by (auto split: option.splits)
  note removed = removed_names [OF m(1), of "ts_exclude_tools s"]
  show "bm_wf (mergeToolRefsForState base s)"
    unfolding mergeToolRefsForState_def by (rule conjunct1 [OF insert_tools_lookup [OF conjunct1 [OF removed]]])
  show "map_of (mergeToolRefsForState base s) n = left_tool base s n"
    unfolding mergeToolRefsForState_def left_tool_def
    using insert_tools_lookup [of "foldl (\<lambda>m n. bm_remove n m) ?m (ts_exclude_tools s)" "ts_tools s" n] removed [of n] m(2)
    by (auto split: option.splits)
qed

lemma last_named_name: "last_named n tools = Some t \<Longrightarrow> pt_name t = n"
  by (auto simp: last_named_def find_Some_iff)

lemma left_tool_name: "left_tool base s n = Some t \<Longrightarrow> pt_name t = n"
  by (auto simp: left_tool_def last_named_name split: option.splits if_splits)

text \<open>The map holds every tool under its own name, so a name selects at most one of its values.\<close>

lemma filter_merged:
  "filter (\<lambda>t. pt_name t = n) (map snd (mergeToolRefsForState base s)) = (case left_tool base s n of Some t \<Rightarrow> [t] | None \<Rightarrow> [])"
proof -
  let ?m = "mergeToolRefsForState base s"
  have named: "pt_name t = k" if "(k, t) \<in> set ?m" for k t
  proof -
    have "distinct (map fst ?m)" by (rule bm_wf_distinct [OF merge_lookup(1)])
    from map_of_is_SomeI [OF this that] have "map_of ?m k = Some t" .
    then have "left_tool base s k = Some t" by (simp only: merge_lookup)
    then show ?thesis by (rule left_tool_name)
  qed
  have "filter (\<lambda>t. pt_name t = n) (map snd ?m) = map snd (filter (\<lambda>e. fst e = n) ?m)"
    unfolding filter_map comp_def using named by (intro arg_cong [where f = "map snd"] filter_cong) auto
  moreover have "filter (\<lambda>e. fst e = n) ?m = (case map_of ?m n of Some t \<Rightarrow> [(n, t)] | None \<Rightarrow> [])"
  proof (cases "map_of ?m n")
    case None
    then have "n \<notin> fst ` set ?m" by (simp add: map_of_eq_None_iff)
    then have "filter (\<lambda>e. fst e = n) ?m = []" by (auto simp: filter_empty_conv)
    with None show ?thesis by simp
  next
    case (Some t)
    from bm_split [OF Some merge_lookup(1)] obtain a b where m: "?m = a @ (n, t) # b" "n \<notin> fst ` set a" "n \<notin> fst ` set b" .
    then have "filter (\<lambda>e. fst e = n) a = []" "filter (\<lambda>e. fst e = n) b = []" by (auto simp: filter_empty_conv)
    with m(1) Some show ?thesis by simp
  qed
  ultimately show ?thesis by (auto simp: merge_lookup split: option.splits)
qed

definition executable_tool :: "'d PackageTool \<Rightarrow> bool" where
  "executable_tool t \<longleftrightarrow> \<not> pt_advice t \<and> trim (pt_script t) \<noteq> [] \<and> distinct (pt_parameters t)"

lemma repeated_name_None: "repeated_name seen ps = None \<longleftrightarrow> distinct ps \<and> set seen \<inter> set ps = {}"
  by (induction seen ps rule: repeated_name.induct) auto

lemma repeated_name_start: "repeated_name [] ps = None \<longleftrightarrow> distinct ps"
  by (simp add: repeated_name_None)

lemma select_Inr:
  "select_registered_package_tool_ref p tools f = Inr t \<longleftrightarrow> filter (\<lambda>t. pt_name t = f) tools = [t] \<and> executable_tool t"
  unfolding select_registered_package_tool_ref_def executable_tool_def
  by (auto simp flip: repeated_name_start split: list.splits option.splits)

end
