(* ===== verification/Engine_Registry.thy ===== *)
theory Engine_Registry
  imports Tool_Package
begin

text \<open>
  The JavaScript engines of installed tool packages (\<open>ToolPkgManager.rs\<close>): the catalog of
  containers and subpackages, and the registry of cached engines with counted leases, container
  generations and revocation.

  Engines are created without the registry's lock, so an acquisition has three parts between which
  other threads act: the lookup that captures a generation, the creation from the catalog's data,
  and the publication.  A run is a sequence of such parts.  An \<open>Arc\<close> of an engine is a number
  given at its creation; \<open>destroy\<close> is recorded in the order of the calls.  Names are texts, and
  the counters are natural numbers: they count calls, and the machine types hold every count that
  can be reached.  What the factory does is a parameter of the step: it creates an engine or fails.
\<close>

type_synonym text_key = "rchar list"

section \<open>The registry\<close>

record engine_entry =
  ee_container :: text_key
  ee_engine :: nat
  ee_leases :: nat
  ee_containerOwned :: bool

record engine_registry =
  er_mainScripts :: "(text_key, text_key) bmap"
  er_entries :: "(text_key, engine_entry) bmap"
  er_packageGenerations :: "(text_key, nat) bmap"
  er_factoryGeneration :: nat
  er_closed :: bool

definition registry_default :: engine_registry where
  "registry_default = \<lparr>er_mainScripts = [], er_entries = [], er_packageGenerations = [], er_factoryGeneration = 0, er_closed = False\<rparr>"

datatype engine_error =
    ContextKeyRequired
  | ContainerRequired
  | OwnerShutDown
  | DifferentContainer
  | ContainerNotRegistered text_key
  | ContextRevoked
  | FactoryFailed
  | EnginePanic string

text \<open>An existing engine is handed out: a lease is counted and the container may become the owner.\<close>

definition share_entry :: "bool \<Rightarrow> bool \<Rightarrow> engine_entry \<Rightarrow> engine_entry" where
  "share_entry acquire owned e =
     e\<lparr>ee_leases := ee_leases e + (if acquire then 1 else 0), ee_containerOwned := ee_containerOwned e \<or> owned\<rparr>"

definition generation_of :: "text_key \<Rightarrow> engine_registry \<Rightarrow> nat" where
  "generation_of c r = (case map_of (er_packageGenerations r) c of None \<Rightarrow> 0 | Some g \<Rightarrow> g)"

text \<open>\<open>entry(c).or_insert(0)\<close>: the container has a generation from now on.\<close>

definition capture_generation :: "text_key \<Rightarrow> engine_registry \<Rightarrow> engine_registry" where
  "capture_generation c r = r\<lparr>er_packageGenerations := bm_insert c (generation_of c r) (er_packageGenerations r)\<rparr>"

definition cachedExecutionEngine :: "text_key \<Rightarrow> text_key \<Rightarrow> bool \<Rightarrow> bool \<Rightarrow> engine_registry
    \<Rightarrow> (engine_error + nat option \<times> nat \<times> nat) \<times> engine_registry" where
  "cachedExecutionEngine contextKey container acquire owned r =
     (let key = trim contextKey; c = trim container in
      if key = [] then (Inl ContextKeyRequired, r)
      else if c = [] then (Inl ContainerRequired, r)
      else if er_closed r then (Inl OwnerShutDown, r)
      else let r = capture_generation c r; generation = (er_factoryGeneration r, generation_of c r) in
        case map_of (er_entries r) key of
          Some e \<Rightarrow>
            if ee_container e \<noteq> c then (Inl DifferentContainer, r)
            else (Inr (Some (ee_engine e), generation), r\<lparr>er_entries := bm_set key (share_entry acquire owned e) (er_entries r)\<rparr>)
        | None \<Rightarrow> (Inr (None, generation), r))"

text \<open>
  The result, the registry, and the engines that are destroyed after the lock is released.  The
  \<open>expect\<close> of the generation is a panic.
\<close>

definition publishExecutionEngine :: "text_key \<Rightarrow> text_key \<Rightarrow> bool \<Rightarrow> bool \<Rightarrow> nat \<times> nat \<Rightarrow> nat \<Rightarrow> engine_registry
    \<Rightarrow> (engine_error + nat) \<times> engine_registry \<times> nat list" where
  "publishExecutionEngine contextKey container acquire owned generation created r =
     (let key = trim contextKey; c = trim container in
      case map_of (er_packageGenerations r) c of
        None \<Rightarrow> (Inl (EnginePanic ''Acquisition must capture a package generation''), r, [])
      | Some packageGeneration \<Rightarrow>
          if generation \<noteq> (er_factoryGeneration r, packageGeneration) then (Inl ContextRevoked, r, [created])
          else (case map_of (er_entries r) key of
            Some e \<Rightarrow>
              if ee_container e \<noteq> c then (Inl DifferentContainer, r, [created])
              else (Inr (ee_engine e), r\<lparr>er_entries := bm_set key (share_entry acquire owned e) (er_entries r)\<rparr>, [created])
          | None \<Rightarrow>
              (Inr created, r\<lparr>er_entries := bm_insert key \<lparr>ee_container = c, ee_engine = created,
                 ee_leases = (if acquire then 1 else 0), ee_containerOwned = owned \<or> \<not> acquire\<rparr> (er_entries r)\<rparr>, [])))"

definition findToolPkgExecutionEngine :: "text_key \<Rightarrow> text_key \<Rightarrow> engine_registry \<Rightarrow> engine_error + nat option" where
  "findToolPkgExecutionEngine contextKey container r =
     (let key = trim contextKey; c = trim container in
      if key = [] \<or> c = [] then Inr None
      else (case map_of (er_entries r) key of
          None \<Rightarrow> Inr None
        | Some e \<Rightarrow> if ee_container e \<noteq> c then Inl (EnginePanic ''ToolPkg execution context belongs to a different container'')
            else Inr (Some (ee_engine e))))"

text \<open>The two assertions are panics, and they poison the registry's mutex.\<close>

definition releaseExecutionEngineLease :: "text_key \<Rightarrow> text_key \<Rightarrow> nat option \<Rightarrow> engine_registry
    \<Rightarrow> (engine_error + unit) \<times> engine_registry \<times> nat list" where
  "releaseExecutionEngineLease contextKey container expected r =
     (let key = trim contextKey; c = trim container in
      if key = [] \<or> c = [] then (Inr (), r, [])
      else (case map_of (er_entries r) key of
          None \<Rightarrow> (Inr (), r, [])
        | Some e \<Rightarrow>
            if (case expected of None \<Rightarrow> False | Some x \<Rightarrow> x \<noteq> ee_engine e) then (Inr (), r, [])
            else if ee_container e \<noteq> c then (Inl (EnginePanic ''ToolPkg execution context belongs to a different container''), r, [])
            else if ee_leases e = 0 then (Inl (EnginePanic ''ToolPkg execution context has no active lease''), r, [])
            else if ee_leases e = 1 \<and> \<not> ee_containerOwned e then
              (Inr (), r\<lparr>er_entries := bm_remove key (er_entries r)\<rparr>, [ee_engine e])
            else (Inr (), r\<lparr>er_entries := bm_set key (e\<lparr>ee_leases := ee_leases e - 1\<rparr>) (er_entries r)\<rparr>, [])))"

definition removeExecutionEnginesMatching :: "(engine_entry \<Rightarrow> bool) \<Rightarrow> (engine_registry \<Rightarrow> engine_registry)
    \<Rightarrow> engine_registry \<Rightarrow> engine_registry \<times> nat list" where
  "removeExecutionEnginesMatching shouldRemove revoke r =
     (let r = revoke r
      in (r\<lparr>er_entries := filter (\<lambda>(_, e). \<not> shouldRemove e) (er_entries r)\<rparr>,
          map (ee_engine \<circ> snd) (filter (\<lambda>(_, e). shouldRemove e) (er_entries r))))"

definition revokeContainerExecutionContexts :: "text_key \<Rightarrow> engine_registry \<Rightarrow> engine_registry \<times> nat list" where
  "revokeContainerExecutionContexts container r =
     (let c = trim container in
      if c = [] then (r, [])
      else removeExecutionEnginesMatching (\<lambda>e. ee_container e = c)
        (\<lambda>r. r\<lparr>er_mainScripts := bm_remove c (er_mainScripts r),
           er_packageGenerations := bm_insert c (Suc (generation_of c r)) (er_packageGenerations r)\<rparr>) r)"

definition updateExecutionEngineFactory :: "engine_registry \<Rightarrow> engine_registry \<times> nat list" where
  "updateExecutionEngineFactory =
     removeExecutionEnginesMatching (\<lambda>_. True) (\<lambda>r. r\<lparr>er_factoryGeneration := Suc (er_factoryGeneration r)\<rparr>)"

definition shutdownExecutionEngines :: "engine_registry \<Rightarrow> engine_registry \<times> nat list" where
  "shutdownExecutionEngines =
     removeExecutionEnginesMatching (\<lambda>_. True)
       (\<lambda>r. r\<lparr>er_closed := True, er_mainScripts := [], er_factoryGeneration := Suc (er_factoryGeneration r)\<rparr>)"

section \<open>The catalog\<close>

datatype ToolPkgSourceType = ASSET | MARKET | EXTERNAL

record ToolPkgSubpackageRuntime =
  sp_packageName :: text_key
  sp_containerPackageName :: text_key

record ToolPkgContainerRuntime =
  ct_packageName :: text_key
  ct_apiVersion :: text_key
  ct_mainEntry :: text_key
  ct_sourceType :: ToolPkgSourceType
  ct_sourcePath :: text_key
  ct_subpackages :: "ToolPkgSubpackageRuntime list"

record 'd ToolPkgLoadResult =
  lr_containerPackage :: "'d ToolPackage"
  lr_subpackagePackages :: "'d ToolPackage list"
  lr_containerRuntime :: ToolPkgContainerRuntime

text \<open>The runtime revision of a container is a fingerprint of its data and sources, or nothing when a source cannot be read.\<close>

record ToolPkgManager =
  tm_containers :: "(text_key, ToolPkgContainerRuntime) bmap"
  tm_subpackages :: "(text_key, ToolPkgSubpackageRuntime) bmap"
  tm_revisions :: "(text_key, nat option) bmap"
  tm_engines :: engine_registry

definition toolpkg_manager_new :: ToolPkgManager where
  "toolpkg_manager_new = \<lparr>tm_containers = [], tm_subpackages = [], tm_revisions = [], tm_engines = registry_default\<rparr>"

definition canRegisterToolPkg :: "'d ToolPkgLoadResult \<Rightarrow> (text_key, 'd ToolPackage) bmap \<Rightarrow> ToolPkgManager \<Rightarrow> bool" where
  "canRegisterToolPkg load available m =
     (let container = trim (tp_name (lr_containerPackage load)) in
      container \<noteq> [] \<and> \<not> bm_mem (tm_containers m) container \<and> \<not> bm_mem available container
      \<and> list_all (\<lambda>p. let name = trim (tp_name p) in
          name \<noteq> [] \<and> \<not> bm_mem (tm_containers m) name \<and> \<not> bm_mem available name \<and> \<not> bm_mem (tm_subpackages m) name)
        (lr_subpackagePackages load))"

text \<open>
  A change of the catalog is published first and the engines of the containers it concerns are
  revoked afterwards.  \<open>publish_container\<close>, \<open>publish_removal\<close> and \<open>publish_maps\<close> are
  the first halves.  Only catalog operations, which run one after the other, read the revisions, so
  that a removal forgets the revision here before it revokes and not after it makes no difference.
\<close>

definition publish_container :: "text_key \<Rightarrow> nat option \<Rightarrow> ToolPkgContainerRuntime \<Rightarrow> ToolPkgManager \<Rightarrow> ToolPkgManager" where
  "publish_container name revision runtime m =
     m\<lparr>tm_revisions := bm_insert name revision (tm_revisions m),
       tm_containers := bm_insert name runtime (tm_containers m),
       tm_subpackages := foldl (\<lambda>subs s. bm_insert (sp_packageName s) s subs) (tm_subpackages m) (ct_subpackages runtime)\<rparr>"

definition revoke_engines :: "text_key \<Rightarrow> ToolPkgManager \<Rightarrow> ToolPkgManager \<times> nat list" where
  "revoke_engines container m =
     (let (r, gone) = revokeContainerExecutionContexts container (tm_engines m) in (m\<lparr>tm_engines := r\<rparr>, gone))"

definition registerToolPkg :: "(ToolPkgContainerRuntime \<Rightarrow> nat option) \<Rightarrow> 'd ToolPkgLoadResult \<Rightarrow> ToolPkgManager
    \<Rightarrow> 'd ToolPackage list \<times> ToolPkgManager \<times> nat list" where
  "registerToolPkg revision load m =
     (let name = tp_name (lr_containerPackage load); runtime = lr_containerRuntime load;
          (m, gone) = revoke_engines name (publish_container name (revision runtime) runtime m)
      in (lr_subpackagePackages load, m, gone))"

definition publish_removal :: "text_key \<Rightarrow> ToolPkgManager \<Rightarrow> (ToolPkgContainerRuntime \<times> ToolPkgManager) option" where
  "publish_removal container m =
     map_option (\<lambda>runtime. (runtime,
         m\<lparr>tm_containers := bm_remove (trim container) (tm_containers m),
           tm_subpackages := foldl (\<lambda>subs s. bm_remove (trim (sp_packageName s)) subs) (tm_subpackages m) (ct_subpackages runtime),
           tm_revisions := bm_remove (ct_packageName runtime) (tm_revisions m)\<rparr>))
       (map_of (tm_containers m) (trim container))"

definition removeToolPkgContainer :: "text_key \<Rightarrow> ToolPkgManager \<Rightarrow> ToolPkgContainerRuntime option \<times> ToolPkgManager \<times> nat list" where
  "removeToolPkgContainer container m =
     (case publish_removal container m of
        None \<Rightarrow> (None, m, [])
      | Some (runtime, m) \<Rightarrow> (let (m, gone) = revoke_engines (ct_packageName runtime) m in (Some runtime, m, gone)))"

text \<open>The containers whose source could not be read before, or changed, or is gone.\<close>

definition revoked_containers :: "(text_key, nat option) bmap \<Rightarrow> (text_key, nat option) bmap \<Rightarrow> text_key list" where
  "revoked_containers previous revisions =
     map fst (filter (\<lambda>(name, revision). revision = None \<or> map_of revisions name \<noteq> Some revision) previous)"

definition publish_maps :: "(ToolPkgContainerRuntime \<Rightarrow> nat option) \<Rightarrow> (text_key, ToolPkgContainerRuntime) bmap
    \<Rightarrow> (text_key, ToolPkgSubpackageRuntime) bmap \<Rightarrow> ToolPkgManager \<Rightarrow> text_key list \<times> ToolPkgManager" where
  "publish_maps revision containers subpackages m =
     (let revisions = map (apsnd revision) containers
      in (revoked_containers (tm_revisions m) revisions,
          m\<lparr>tm_revisions := revisions, tm_containers := containers, tm_subpackages := subpackages\<rparr>))"

fun revoke_all :: "text_key list \<Rightarrow> ToolPkgManager \<Rightarrow> ToolPkgManager \<times> nat list" where
  "revoke_all [] m = (m, [])"
| "revoke_all (c # cs) m = (let (m, gone) = revoke_engines c m; (m, later) = revoke_all cs m in (m, gone @ later))"

definition replaceRuntimeMaps :: "(ToolPkgContainerRuntime \<Rightarrow> nat option) \<Rightarrow> (text_key, ToolPkgContainerRuntime) bmap
    \<Rightarrow> (text_key, ToolPkgSubpackageRuntime) bmap \<Rightarrow> ToolPkgManager \<Rightarrow> ToolPkgManager \<times> nat list" where
  "replaceRuntimeMaps revision containers subpackages m =
     (let (revoked, m) = publish_maps revision containers subpackages m in revoke_all revoked m)"

text \<open>The data of the container for a new engine: key, container and version.\<close>

definition executionContext :: "text_key \<Rightarrow> text_key \<Rightarrow> ToolPkgManager \<Rightarrow> engine_error + text_key \<times> text_key \<times> text_key" where
  "executionContext contextKey container m =
     (case map_of (tm_containers m) (trim container) of
        None \<Rightarrow> Inl (ContainerNotRegistered (trim container))
      | Some runtime \<Rightarrow> Inr (trim contextKey, trim container, ct_apiVersion runtime))"

text \<open>
  The main script is read without the registry's lock: the first half finds a cached script or
  captures the generation, the second publishes what was read unless the container was revoked.
\<close>

definition main_script_begin :: "ToolPkgContainerRuntime \<Rightarrow> ToolPkgManager \<Rightarrow> (text_key + nat) option \<times> ToolPkgManager" where
  "main_script_begin runtime m =
     (let name = ct_packageName runtime; r = tm_engines m in
      case map_of (tm_containers m) name of
        None \<Rightarrow> (None, m)
      | Some registered \<Rightarrow>
          if ct_sourceType registered \<noteq> ct_sourceType runtime \<or> ct_sourcePath registered \<noteq> ct_sourcePath runtime
             \<or> ct_mainEntry registered \<noteq> ct_mainEntry runtime \<or> er_closed r then (None, m)
          else (case map_of (er_mainScripts r) name of
              Some script \<Rightarrow> (Some (Inl script), m)
            | None \<Rightarrow> (Some (Inr (generation_of name r)), m\<lparr>tm_engines := capture_generation name r\<rparr>)))"

definition main_script_end :: "ToolPkgContainerRuntime \<Rightarrow> nat \<Rightarrow> text_key \<Rightarrow> engine_registry \<Rightarrow> text_key option \<times> engine_registry" where
  "main_script_end runtime generation script r =
     (let name = ct_packageName runtime in
      if er_closed r \<or> map_of (er_packageGenerations r) name \<noteq> Some generation then (None, r)
      else (case map_of (er_mainScripts r) name of
          Some first \<Rightarrow> (Some first, r)
        | None \<Rightarrow> (Some script, r\<lparr>er_mainScripts := bm_insert name script (er_mainScripts r)\<rparr>)))"

section \<open>Runs\<close>

text \<open>
  The four ways to acquire an engine: \<open>getToolPkgExecutionEngine\<close>,
  \<open>leaseToolPkgExecutionEngine\<close>, \<open>leaseToolPkgMainExecutionEngine\<close> and
  \<open>acquireToolPkgExecutionEngine\<close> (also its asynchronous form), whose lease is counted but
  has no object and is given back by name.
\<close>

datatype acquisition = GetEngine | LeaseEngine | LeaseMain | CountedLease

definition acquires :: "acquisition \<Rightarrow> bool" where "acquires kind \<longleftrightarrow> kind \<noteq> GetEngine"
definition leases_object :: "acquisition \<Rightarrow> bool" where "leases_object kind \<longleftrightarrow> kind \<in> {LeaseEngine, LeaseMain}"

definition context_key :: "acquisition \<Rightarrow> text_key \<Rightarrow> text_key \<Rightarrow> text_key" where
  "context_key kind key container = (if kind = LeaseMain then chars ''toolpkg_main:'' @ trim container else key)"

record engine_lease =
  el_key :: text_key
  el_container :: text_key
  el_engine :: nat

text \<open>A thread inside \<open>executionEngineWithLease\<close>, before and after the engine is created.\<close>

record engine_creator =
  ec_kind :: acquisition
  ec_key :: text_key
  ec_container :: text_key
  ec_generation :: "nat \<times> nat"
  ec_engine :: "nat option"

record engine_world =
  ew_manager :: ToolPkgManager
  ew_made :: "(text_key \<times> text_key \<times> text_key) list"
  ew_creators :: "engine_creator list"
  ew_leases :: "engine_lease list"
  ew_destroyed :: "nat list"
  ew_outstanding :: "text_key list"
  ew_panicked :: bool

datatype engine_event =
    BeginAcquire acquisition text_key text_key
  | CreateEngine nat bool
  | PublishEngine nat
  | DropLease nat
  | ReleaseCounted text_key text_key
  | PublishContainer text_key "nat option" ToolPkgContainerRuntime
  | PublishRemoval text_key
  | PublishMaps "ToolPkgContainerRuntime \<Rightarrow> nat option" "(text_key, ToolPkgContainerRuntime) bmap" "(text_key, ToolPkgSubpackageRuntime) bmap"
  | Revoke text_key
  | ReplaceFactory
  | ShutDownEngines

definition engine_panic :: "engine_error + 'a \<Rightarrow> bool" where
  "engine_panic r = (case r of Inl (EnginePanic _) \<Rightarrow> True | _ \<Rightarrow> False)"

definition drop_nth :: "nat \<Rightarrow> 'a list \<Rightarrow> 'a list" where
  "drop_nth i xs = take i xs @ drop (Suc i) xs"

definition with_registry :: "engine_registry \<Rightarrow> nat list \<Rightarrow> engine_world \<Rightarrow> engine_world" where
  "with_registry r gone w = w\<lparr>ew_manager := (ew_manager w)\<lparr>tm_engines := r\<rparr>, ew_destroyed := ew_destroyed w @ gone\<rparr>"

definition new_lease :: "acquisition \<Rightarrow> text_key \<Rightarrow> text_key \<Rightarrow> nat \<Rightarrow> engine_lease list" where
  "new_lease kind key container engine =
     (if leases_object kind then [\<lparr>el_key = trim key, el_container = trim container, el_engine = engine\<rparr>] else [])"

definition begin_acquire :: "acquisition \<Rightarrow> text_key \<Rightarrow> text_key \<Rightarrow> engine_world \<Rightarrow> engine_world" where
  "begin_acquire kind key container w =
     (let k = context_key kind key container;
          (result, r) = cachedExecutionEngine k container (acquires kind) (kind = LeaseMain) (tm_engines (ew_manager w));
          w = with_registry r [] w
      in case result of
           Inl _ \<Rightarrow> w
         | Inr (Some engine, _) \<Rightarrow> w\<lparr>ew_leases := ew_leases w @ new_lease kind k container engine\<rparr>
         | Inr (None, generation) \<Rightarrow> w\<lparr>ew_creators := ew_creators w @
             [\<lparr>ec_kind = kind, ec_key = k, ec_container = container, ec_generation = generation, ec_engine = None\<rparr>]\<rparr>)"

definition create_engine :: "nat \<Rightarrow> bool \<Rightarrow> engine_world \<Rightarrow> engine_world" where
  "create_engine i made w =
     (if length (ew_creators w) \<le> i \<or> ec_engine (ew_creators w ! i) \<noteq> None then w
      else let c = ew_creators w ! i in
        case executionContext (ec_key c) (ec_container c) (ew_manager w) of
          Inl _ \<Rightarrow> w\<lparr>ew_creators := drop_nth i (ew_creators w)\<rparr>
        | Inr ctx \<Rightarrow>
            if \<not> made then w\<lparr>ew_creators := drop_nth i (ew_creators w)\<rparr>
            else w\<lparr>ew_creators := (ew_creators w)[i := c\<lparr>ec_engine := Some (length (ew_made w))\<rparr>], ew_made := ew_made w @ [ctx]\<rparr>)"

definition publish_engine :: "nat \<Rightarrow> engine_world \<Rightarrow> engine_world" where
  "publish_engine i w =
     (if length (ew_creators w) \<le> i then w
      else let c = ew_creators w ! i in
        case ec_engine c of
          None \<Rightarrow> w
        | Some created \<Rightarrow>
            (let (result, r, gone) = publishExecutionEngine (ec_key c) (ec_container c) (acquires (ec_kind c)) (ec_kind c = LeaseMain)
                   (ec_generation c) created (tm_engines (ew_manager w));
                 w = (with_registry r gone w)\<lparr>ew_creators := drop_nth i (ew_creators w), ew_panicked := ew_panicked w \<or> engine_panic result\<rparr>
             in case result of
                  Inl _ \<Rightarrow> w
                | Inr winner \<Rightarrow> w\<lparr>ew_leases := ew_leases w @ new_lease (ec_kind c) (ec_key c) (ec_container c) winner\<rparr>))"

definition release_engine :: "text_key \<Rightarrow> text_key \<Rightarrow> nat option \<Rightarrow> engine_world \<Rightarrow> engine_world" where
  "release_engine key container expected w =
     (let (result, r, gone) = releaseExecutionEngineLease key container expected (tm_engines (ew_manager w))
      in (with_registry r gone w)\<lparr>ew_panicked := ew_panicked w \<or> engine_panic result\<rparr>)"

definition catalog_published :: "ToolPkgManager \<Rightarrow> text_key list \<Rightarrow> engine_world \<Rightarrow> engine_world" where
  "catalog_published m names w = w\<lparr>ew_manager := m, ew_outstanding := ew_outstanding w @ names\<rparr>"

fun engine_step :: "engine_event \<Rightarrow> engine_world \<Rightarrow> engine_world" where
  "engine_step (BeginAcquire kind key container) w = begin_acquire kind key container w"
| "engine_step (CreateEngine i made) w = create_engine i made w"
| "engine_step (PublishEngine i) w = publish_engine i w"
| "engine_step (DropLease i) w =
     (if length (ew_leases w) \<le> i then w
      else let l = ew_leases w ! i
        in (release_engine (el_key l) (el_container l) (Some (el_engine l)) w)\<lparr>ew_leases := drop_nth i (ew_leases w)\<rparr>)"
| "engine_step (ReleaseCounted key container) w = release_engine key container None w"
| "engine_step (PublishContainer name revision runtime) w =
     catalog_published (publish_container name revision runtime (ew_manager w)) [name] w"
| "engine_step (PublishRemoval container) w =
     (case publish_removal container (ew_manager w) of
        None \<Rightarrow> w
      | Some (runtime, m) \<Rightarrow> catalog_published m [ct_packageName runtime] w)"
| "engine_step (PublishMaps revision containers subpackages) w =
     (let (revoked, m) = publish_maps revision containers subpackages (ew_manager w) in catalog_published m revoked w)"
| "engine_step (Revoke container) w =
     (let (m, gone) = revoke_engines container (ew_manager w)
      in w\<lparr>ew_manager := m, ew_destroyed := ew_destroyed w @ gone, ew_outstanding := filter (\<lambda>c. c \<noteq> container) (ew_outstanding w)\<rparr>)"
| "engine_step ReplaceFactory w =
     (let (r, gone) = updateExecutionEngineFactory (tm_engines (ew_manager w)) in with_registry r gone w)"
| "engine_step ShutDownEngines w =
     (let (r, gone) = shutdownExecutionEngines (tm_engines (ew_manager w)) in with_registry r gone w)"

fun engine_run :: "engine_event list \<Rightarrow> engine_world \<Rightarrow> engine_world" where
  "engine_run [] w = w"
| "engine_run (ev # evs) w = engine_run evs (engine_step ev w)"

definition engine_world_new :: engine_world where
  "engine_world_new = \<lparr>ew_manager = toolpkg_manager_new, ew_made = [], ew_creators = [], ew_leases = [], ew_destroyed = [],
     ew_outstanding = [], ew_panicked = False\<rparr>"

section \<open>Facts about the operations\<close>

lemma trim_trim [simp]: "trim (trim cs) = trim cs"
proof -
  define d where "d = dropWhile is_whitespace cs"
  define t where "t = rev (dropWhile is_whitespace (rev d))"
  obtain s where s: "d = t @ s" unfolding t_def by (metis rev_append rev_rev_ident takeWhile_dropWhile_id)
  have "dropWhile is_whitespace t = t"
  proof (cases t)
    case (Cons a t')
    with s have "hd (dropWhile is_whitespace cs) = a" "dropWhile is_whitespace cs \<noteq> []" by (auto simp: d_def)
    with hd_dropWhile [of is_whitespace cs] Cons show ?thesis by (auto simp: dropWhile_eq_Nil_conv)
  qed simp
  moreover have "dropWhile is_whitespace (rev t) = rev t" by (simp add: t_def dropWhile_idem)
  ultimately have "trim t = t" by (simp add: trim_def)
  then show ?thesis by (simp add: t_def d_def trim_def)
qed

definition cached_engines :: "(text_key, engine_entry) bmap \<Rightarrow> nat list" where
  "cached_engines es = map (ee_engine \<circ> snd) es"

lemma cached_set:
  assumes "map_of es k = Some e" "bm_wf es" "ee_engine e' = ee_engine e"
  shows "cached_engines (bm_set k e' es) = cached_engines es"
proof -
  from bm_split [OF assms(1,2)] obtain a b where es: "es = a @ (k, e) # b" "k \<notin> fst ` set a" .
  then show ?thesis by (simp add: bm_set_split cached_engines_def assms(3))
qed

lemma cached_remove:
  assumes "map_of es k = Some e" "bm_wf es"
  shows "mset (cached_engines es) = mset (cached_engines (bm_remove k es)) + {#ee_engine e#}"
proof -
  from bm_split [OF assms] obtain a b where es: "es = a @ (k, e) # b" "k \<notin> fst ` set a" "k \<notin> fst ` set b" .
  then show ?thesis by (simp add: bm_remove_split cached_engines_def)
qed

lemma cached_insert:
  "map_of es k = None \<Longrightarrow> mset (cached_engines (bm_insert k e es)) = mset (cached_engines es) + {#ee_engine e#}"
  using bm_insert_fresh_mset [of es k e] by (simp add: cached_engines_def)

lemma cached_partition:
  "mset (cached_engines es) = mset (cached_engines (filter (\<lambda>(_, e). \<not> P e) es)) + mset (cached_engines (filter (\<lambda>(_, e). P e) es))"
  by (induction es) (auto simp: cached_engines_def)

lemma share_simps [simp]:
  "ee_engine (share_entry a o' e) = ee_engine e" "ee_container (share_entry a o' e) = ee_container e"
  "ee_leases (share_entry a o' e) = ee_leases e + (if a then 1 else 0)" "ee_containerOwned (share_entry a o' e) = (ee_containerOwned e \<or> o')"
  by (simp_all add: share_entry_def)

lemma capture_simps [simp]:
  "er_entries (capture_generation c r) = er_entries r" "er_factoryGeneration (capture_generation c r) = er_factoryGeneration r"
  "er_closed (capture_generation c r) = er_closed r"
  by (simp_all add: capture_generation_def)

lemma capture_generation_of:
  "bm_wf (er_packageGenerations r) \<Longrightarrow> generation_of d (capture_generation c r) = generation_of d r"
  by (auto simp: capture_generation_def generation_of_def)

text \<open>The three ways a lookup ends.\<close>

lemma cached_cases:
  assumes "cachedExecutionEngine key container acquire owned r = (result, r')" "bm_wf (er_packageGenerations r)"
  obtains (failed) x where "result = Inl x" "er_entries r' = er_entries r" "\<And>d. generation_of d r' = generation_of d r"
      "er_factoryGeneration r' = er_factoryGeneration r" "bm_wf (er_packageGenerations r')"
      "\<And>d. bm_mem (er_packageGenerations r) d \<Longrightarrow> bm_mem (er_packageGenerations r') d" "\<not> engine_panic result"
  | (found) e where "result = Inr (Some (ee_engine e), er_factoryGeneration r, generation_of (trim container) r)"
      "map_of (er_entries r) (trim key) = Some e" "ee_container e = trim container" "trim key \<noteq> []" "trim container \<noteq> []"
      "er_entries r' = bm_set (trim key) (share_entry acquire owned e) (er_entries r)" "\<And>d. generation_of d r' = generation_of d r"
      "er_factoryGeneration r' = er_factoryGeneration r" "bm_wf (er_packageGenerations r')"
      "\<And>d. bm_mem (er_packageGenerations r) d \<Longrightarrow> bm_mem (er_packageGenerations r') d"
  | (missing) "result = Inr (None, er_factoryGeneration r, generation_of (trim container) r)" "map_of (er_entries r) (trim key) = None"
      "trim key \<noteq> []" "trim container \<noteq> []" "bm_mem (er_packageGenerations r') (trim container)"
      "er_entries r' = er_entries r" "\<And>d. generation_of d r' = generation_of d r"
      "er_factoryGeneration r' = er_factoryGeneration r" "bm_wf (er_packageGenerations r')"
      "\<And>d. bm_mem (er_packageGenerations r) d \<Longrightarrow> bm_mem (er_packageGenerations r') d"
proof -
  have gen: "generation_of d (capture_generation c r) = generation_of d r" for c d by (rule capture_generation_of [OF assms(2)])
  have mem: "bm_mem (er_packageGenerations (capture_generation c r)) d \<longleftrightarrow> d = c \<or> bm_mem (er_packageGenerations r) d" for c d
    using assms(2) by (simp add: capture_generation_def bm_mem_iff)
  have wf: "bm_wf (er_packageGenerations (capture_generation c r))" for c
    using assms(2) by (simp add: capture_generation_def)
  have gen': "generation_of d (capture_generation c r\<lparr>er_entries := es\<rparr>) = generation_of d r" for c d es
    using gen [of d c] by (simp add: generation_of_def)
  show ?thesis
  proof (cases "trim key = [] \<or> trim container = [] \<or> er_closed r")
    case True
    with assms(1) have "\<exists>x. result = Inl x \<and> r' = r \<and> \<not> engine_panic result"
      by (auto simp: cachedExecutionEngine_def Let_def engine_panic_def split: if_splits)
    then obtain x where "result = Inl x" "r' = r" "\<not> engine_panic result" by blast
    with assms(2) show ?thesis by (intro failed [of x]) auto
  next
    case ok: False
    show ?thesis
    proof (cases "map_of (er_entries r) (trim key)")
      case None
      with ok assms(1) show ?thesis
        by (intro missing) (auto simp: cachedExecutionEngine_def Let_def gen mem wf)
    next
      case (Some e)
      show ?thesis
      proof (cases "ee_container e = trim container")
        case True
        with Some ok assms(1) show ?thesis
          by (intro found [of e]) (auto simp: cachedExecutionEngine_def Let_def gen mem wf gen')
      next
        case False
        with Some ok assms(1) show ?thesis
          by (intro failed) (auto simp: cachedExecutionEngine_def Let_def gen mem wf engine_panic_def)
      qed
    qed
  qed
qed

text \<open>The four ways a publication ends when a generation was captured.\<close>

lemma publish_cases:
  assumes "publishExecutionEngine key container acquire owned generation created r = (result, r', gone)"
    and "bm_mem (er_packageGenerations r) (trim container)"
  obtains (refused) x where "result = Inl x" "\<not> engine_panic result" "r' = r" "gone = [created]"
  | (lost) e where "result = Inr (ee_engine e)" "gone = [created]" "map_of (er_entries r) (trim key) = Some e"
      "ee_container e = trim container" "r' = r\<lparr>er_entries := bm_set (trim key) (share_entry acquire owned e) (er_entries r)\<rparr>"
  | (won) "result = Inr created" "gone = []" "map_of (er_entries r) (trim key) = None"
      "generation = (er_factoryGeneration r, generation_of (trim container) r)"
      "r' = r\<lparr>er_entries := bm_insert (trim key) \<lparr>ee_container = trim container, ee_engine = created,
         ee_leases = (if acquire then 1 else 0), ee_containerOwned = owned \<or> \<not> acquire\<rparr> (er_entries r)\<rparr>"
proof -
  from assms(2) obtain g where g: "map_of (er_packageGenerations r) (trim container) = Some g" by (auto simp: bm_mem_def)
  then have gen: "generation_of (trim container) r = g" by (simp add: generation_of_def)
  show ?thesis
  proof (cases "generation = (er_factoryGeneration r, g)")
    case False
    with assms(1) g show ?thesis by (intro refused) (auto simp: publishExecutionEngine_def Let_def engine_panic_def)
  next
    case current: True
    show ?thesis
    proof (cases "map_of (er_entries r) (trim key)")
      case None
      with current assms(1) g gen show ?thesis by (intro won) (auto simp: publishExecutionEngine_def Let_def)
    next
      case (Some e)
      show ?thesis
      proof (cases "ee_container e = trim container")
        case True
        with Some current assms(1) g show ?thesis by (intro lost [of e]) (auto simp: publishExecutionEngine_def Let_def)
      next
        case False
        with Some current assms(1) g show ?thesis by (intro refused) (auto simp: publishExecutionEngine_def Let_def engine_panic_def)
      qed
    qed
  qed
qed

text \<open>What a release with an object does: nothing, or it takes one lease from that engine.\<close>

lemma release_cases:
  assumes "releaseExecutionEngineLease key container (Some x) r = (result, r', gone)" "trim key \<noteq> []" "trim container \<noteq> []"
  obtains (stale) "result = Inr ()" "r' = r" "gone = []" "\<And>e. map_of (er_entries r) (trim key) = Some e \<Longrightarrow> ee_engine e \<noteq> x"
  | (panic) e where "engine_panic result" "r' = r" "gone = []" "map_of (er_entries r) (trim key) = Some e" "ee_engine e = x"
      "ee_container e \<noteq> trim container \<or> ee_leases e = 0"
  | (last) e where "result = Inr ()" "map_of (er_entries r) (trim key) = Some e" "ee_engine e = x" "ee_leases e = 1" "\<not> ee_containerOwned e"
      "r' = r\<lparr>er_entries := bm_remove (trim key) (er_entries r)\<rparr>" "gone = [x]"
  | (more) e where "result = Inr ()" "map_of (er_entries r) (trim key) = Some e" "ee_engine e = x" "0 < ee_leases e"
      "1 < ee_leases e \<or> ee_containerOwned e"
      "r' = r\<lparr>er_entries := bm_set (trim key) (e\<lparr>ee_leases := ee_leases e - 1\<rparr>) (er_entries r)\<rparr>" "gone = []"
proof (cases "map_of (er_entries r) (trim key)")
  case None
  with assms show ?thesis by (intro stale) (auto simp: releaseExecutionEngineLease_def Let_def)
next
  case (Some e)
  consider "ee_engine e \<noteq> x" | "ee_engine e = x" "ee_container e \<noteq> trim container \<or> ee_leases e = 0"
    | "ee_engine e = x" "ee_container e = trim container" "ee_leases e = 1" "\<not> ee_containerOwned e"
    | "ee_engine e = x" "ee_container e = trim container" "0 < ee_leases e" "1 < ee_leases e \<or> ee_containerOwned e" by fastforce
  then show ?thesis
  proof cases
    case 1
    with Some assms show ?thesis by (intro stale) (auto simp: releaseExecutionEngineLease_def Let_def)
  next
    case 2
    with Some assms show ?thesis by (intro panic [of e]) (auto simp: releaseExecutionEngineLease_def Let_def engine_panic_def split: if_splits)
  next
    case 3
    with Some assms show ?thesis by (intro last [of e]) (auto simp: releaseExecutionEngineLease_def Let_def)
  next
    case 4
    with Some assms have "(result, r', gone) = (Inr (), r\<lparr>er_entries := bm_set (trim key) (e\<lparr>ee_leases := ee_leases e - 1\<rparr>) (er_entries r)\<rparr>, [])"
      by (auto simp: releaseExecutionEngineLease_def Let_def)
    with 4 Some show ?thesis by (intro more [of e]) auto
  qed
qed

section \<open>Every engine is accounted for\<close>

definition held_engines :: "engine_creator list \<Rightarrow> nat list" where
  "held_engines cs = concat (map (\<lambda>c. case ec_engine c of None \<Rightarrow> [] | Some x \<Rightarrow> [x]) cs)"

definition lease_count :: "text_key \<Rightarrow> nat \<Rightarrow> engine_lease list \<Rightarrow> nat" where
  "lease_count k x ls = length (filter (\<lambda>l. el_key l = k \<and> el_engine l = x) ls)"

definition entry_ok :: "engine_lease list \<Rightarrow> text_key \<Rightarrow> engine_entry \<Rightarrow> bool" where
  "entry_ok ls k e \<longleftrightarrow> ee_leases e = lease_count k (ee_engine e) ls \<and> (0 < ee_leases e \<or> ee_containerOwned e)
     \<and> (\<forall>l\<in>set ls. el_key l = k \<and> el_engine l = ee_engine e \<longrightarrow> el_container l = ee_container e)"

definition lease_ok :: "nat list \<Rightarrow> engine_lease \<Rightarrow> bool" where
  "lease_ok known l \<longleftrightarrow> trim (el_key l) = el_key l \<and> el_key l \<noteq> [] \<and> trim (el_container l) = el_container l \<and> el_container l \<noteq> []
     \<and> el_engine l \<in> set known"

definition creator_ok :: "engine_registry \<Rightarrow> engine_creator \<Rightarrow> bool" where
  "creator_ok r c \<longleftrightarrow> trim (ec_key c) \<noteq> [] \<and> trim (ec_container c) \<noteq> [] \<and> bm_mem (er_packageGenerations r) (trim (ec_container c))
     \<and> ec_kind c \<noteq> CountedLease"

definition registry_of :: "engine_world \<Rightarrow> engine_registry" where
  "registry_of w = tm_engines (ew_manager w)"

definition entries_of :: "engine_world \<Rightarrow> (text_key, engine_entry) bmap" where
  "entries_of w = er_entries (registry_of w)"

definition accounted :: "engine_world \<Rightarrow> bool" where
  "accounted w \<longleftrightarrow> bm_wf (entries_of w) \<and> bm_wf (er_packageGenerations (registry_of w))
     \<and> mset (ew_destroyed w) + mset (held_engines (ew_creators w)) + mset (cached_engines (entries_of w)) = mset [0..<length (ew_made w)]
     \<and> (\<forall>k e. map_of (entries_of w) k = Some e \<longrightarrow> entry_ok (ew_leases w) k e)
     \<and> list_all (lease_ok (ew_destroyed w @ cached_engines (entries_of w))) (ew_leases w)
     \<and> list_all (creator_ok (registry_of w)) (ew_creators w)
     \<and> \<not> ew_panicked w"

lemma accountedI:
  assumes "bm_wf (entries_of w)" "bm_wf (er_packageGenerations (registry_of w))"
    "mset (ew_destroyed w) + mset (held_engines (ew_creators w)) + mset (cached_engines (entries_of w)) = mset [0..<length (ew_made w)]"
    "\<And>k e. map_of (entries_of w) k = Some e \<Longrightarrow> entry_ok (ew_leases w) k e"
    "\<And>l. l \<in> set (ew_leases w) \<Longrightarrow> lease_ok (ew_destroyed w @ cached_engines (entries_of w)) l"
    "\<And>c. c \<in> set (ew_creators w) \<Longrightarrow> creator_ok (registry_of w) c" "\<not> ew_panicked w"
  shows "accounted w"
  using assms by (auto simp: accounted_def list_all_iff)

lemma accountedD:
  assumes "accounted w"
  shows "bm_wf (entries_of w)" "bm_wf (er_packageGenerations (registry_of w))"
    "mset (ew_destroyed w) + mset (held_engines (ew_creators w)) + mset (cached_engines (entries_of w)) = mset [0..<length (ew_made w)]"
    "\<And>k e. map_of (entries_of w) k = Some e \<Longrightarrow> entry_ok (ew_leases w) k e"
    "\<And>l. l \<in> set (ew_leases w) \<Longrightarrow> lease_ok (ew_destroyed w @ cached_engines (entries_of w)) l"
    "\<And>c. c \<in> set (ew_creators w) \<Longrightarrow> creator_ok (registry_of w) c" "\<not> ew_panicked w"
  using assms by (auto simp: accounted_def list_all_iff)

lemma with_registry_simps [simp]:
  "registry_of (with_registry r gone w) = r" "entries_of (with_registry r gone w) = er_entries r"
  "ew_destroyed (with_registry r gone w) = ew_destroyed w @ gone" "ew_made (with_registry r gone w) = ew_made w"
  "ew_creators (with_registry r gone w) = ew_creators w" "ew_leases (with_registry r gone w) = ew_leases w"
  "ew_outstanding (with_registry r gone w) = ew_outstanding w" "ew_panicked (with_registry r gone w) = ew_panicked w"
  "tm_containers (ew_manager (with_registry r gone w)) = tm_containers (ew_manager w)"
  "tm_revisions (ew_manager (with_registry r gone w)) = tm_revisions (ew_manager w)"
  by (simp_all add: with_registry_def registry_of_def entries_of_def)

lemma world_update_simps [simp]:
  "registry_of (w\<lparr>ew_leases := ls\<rparr>) = registry_of w" "registry_of (w\<lparr>ew_creators := cs\<rparr>) = registry_of w"
  "registry_of (w\<lparr>ew_made := ms\<rparr>) = registry_of w" "registry_of (w\<lparr>ew_panicked := p\<rparr>) = registry_of w"
  "entries_of (w\<lparr>ew_leases := ls\<rparr>) = entries_of w" "entries_of (w\<lparr>ew_creators := cs\<rparr>) = entries_of w"
  "entries_of (w\<lparr>ew_made := ms\<rparr>) = entries_of w" "entries_of (w\<lparr>ew_panicked := p\<rparr>) = entries_of w"
  by (simp_all add: registry_of_def entries_of_def)

lemma lease_count_append: "lease_count k x (ls @ ms) = lease_count k x ls + lease_count k x ms"
  by (simp add: lease_count_def)

lemma drop_nth_split: "i < length xs \<Longrightarrow> \<exists>a b. xs = a @ xs ! i # b \<and> drop_nth i xs = a @ b \<and> length a = i"
  by (rule exI [of _ "take i xs"], rule exI [of _ "drop (Suc i) xs"]) (simp add: drop_nth_def id_take_nth_drop [symmetric])

lemma held_append [simp]: "held_engines (a @ b) = held_engines a @ held_engines b" "held_engines [] = []"
  "held_engines (c # b) = (case ec_engine c of None \<Rightarrow> [] | Some x \<Rightarrow> [x]) @ held_engines b"
  by (simp_all add: held_engines_def)

lemma lease_count_Cons: "lease_count k x (l # ls) = (if el_key l = k \<and> el_engine l = x then 1 else 0) + lease_count k x ls"
  by (simp add: lease_count_def)

lemma lease_count_new:
  "kind \<noteq> CountedLease \<Longrightarrow> lease_count k x (new_lease kind key c y) = (if acquires kind \<and> trim key = k \<and> y = x then 1 else 0)"
  by (cases kind) (auto simp: new_lease_def leases_object_def acquires_def lease_count_def)

lemma in_new_lease: "l \<in> set (new_lease kind key c y) \<Longrightarrow> el_key l = trim key \<and> el_container l = trim c \<and> el_engine l = y"
  by (auto simp: new_lease_def split: if_splits)

lemma accounted_distinct:
  assumes "accounted w"
  shows "distinct (ew_destroyed w @ cached_engines (entries_of w) @ held_engines (ew_creators w))"
    and "set (ew_destroyed w @ cached_engines (entries_of w) @ held_engines (ew_creators w)) = {..<length (ew_made w)}"
proof -
  have eq: "mset (ew_destroyed w @ cached_engines (entries_of w) @ held_engines (ew_creators w)) = mset [0..<length (ew_made w)]"
    using accountedD(3) [OF assms] by (simp add: ac_simps)
  from mset_eq_imp_distinct_iff [OF eq] show "distinct (ew_destroyed w @ cached_engines (entries_of w) @ held_engines (ew_creators w))" by simp
  from mset_eq_setD [OF eq] show "set (ew_destroyed w @ cached_engines (entries_of w) @ held_engines (ew_creators w)) = {..<length (ew_made w)}"
    by (simp only: set_upt atLeast0LessThan)
qed

lemma lease_ok_mono: "lease_ok known l \<Longrightarrow> set known \<subseteq> set known' \<Longrightarrow> lease_ok known' l"
  by (auto simp: lease_ok_def)

lemma creator_ok_mono:
  "creator_ok r c \<Longrightarrow> (\<And>d. bm_mem (er_packageGenerations r) d \<Longrightarrow> bm_mem (er_packageGenerations r') d) \<Longrightarrow> creator_ok r' c"
  by (auto simp: creator_ok_def)

lemma entry_ok_other:
  "entry_ok ls k e \<Longrightarrow> (\<And>l. l \<in> set new \<Longrightarrow> el_key l \<noteq> k) \<Longrightarrow> entry_ok (ls @ new) k e"
proof -
  assume ok: "entry_ok ls k e" and new: "\<And>l. l \<in> set new \<Longrightarrow> el_key l \<noteq> k"
  then have "lease_count k (ee_engine e) new = 0" by (auto simp: lease_count_def filter_empty_conv)
  with ok new show ?thesis by (auto simp: entry_ok_def lease_count_append)
qed

text \<open>An existing engine is shared with a new lease object.\<close>

lemma share_entry_ok:
  assumes ok: "entry_ok ls (trim key) e" and "kind \<noteq> CountedLease" "ee_container e = trim container"
  shows "entry_ok (ls @ new_lease kind key container (ee_engine e)) (trim key) (share_entry (acquires kind) owned e)"
  using assms by (auto simp: entry_ok_def lease_count_append lease_count_new dest: in_new_lease)

lemma accounted_share:
  assumes acc: "accounted w" and e: "map_of (entries_of w) (trim key) = Some e" and kind: "kind \<noteq> CountedLease"
    and names: "ee_container e = trim container" "trim key \<noteq> []" "trim container \<noteq> []"
    and w': "entries_of w' = bm_set (trim key) (share_entry (acquires kind) owned e) (entries_of w)"
      "ew_leases w' = ew_leases w @ new_lease kind key container (ee_engine e)"
      "mset (ew_destroyed w') + mset (held_engines (ew_creators w')) = mset (ew_destroyed w) + mset (held_engines (ew_creators w))"
      "set (ew_destroyed w) \<subseteq> set (ew_destroyed w')"
      "ew_made w' = ew_made w" "\<not> ew_panicked w'" "bm_wf (er_packageGenerations (registry_of w'))"
      "\<And>c. c \<in> set (ew_creators w') \<Longrightarrow> creator_ok (registry_of w') c"
  shows "accounted w'"
proof (rule accountedI)
  note a = accountedD [OF acc]
  have cached: "cached_engines (entries_of w') = cached_engines (entries_of w)"
    unfolding w'(1) by (rule cached_set [OF e a(1)]) simp
  show "bm_wf (entries_of w')" using a(1) by (simp add: w'(1))
  show "bm_wf (er_packageGenerations (registry_of w'))" by (rule w'(7))
  show "mset (ew_destroyed w') + mset (held_engines (ew_creators w')) + mset (cached_engines (entries_of w')) = mset [0..<length (ew_made w')]"
    using a(3) unfolding cached w'(5) w'(3) .
  show "entry_ok (ew_leases w') k d" if "map_of (entries_of w') k = Some d" for k d
  proof (cases "k = trim key")
    case True
    with that e have "d = share_entry (acquires kind) owned e" by (simp add: w'(1) map_of_bm_set bm_mem_def)
    with True share_entry_ok [OF a(4) [OF e] kind names(1)] show ?thesis by (simp add: w'(2))
  next
    case False
    with that have "map_of (entries_of w) k = Some d" by (simp add: w'(1) map_of_bm_set split: if_splits)
    from entry_ok_other [OF a(4) [OF this]] False show ?thesis unfolding w'(2) by (auto dest: in_new_lease)
  qed
  show "lease_ok (ew_destroyed w' @ cached_engines (entries_of w')) l" if "l \<in> set (ew_leases w')" for l
  proof (cases "l \<in> set (ew_leases w)")
    case True
    show ?thesis unfolding cached by (rule lease_ok_mono [OF a(5) [OF True]]) (use w'(4) in auto)
  next
    case False
    with that have "l \<in> set (new_lease kind key container (ee_engine e))" by (simp add: w'(2))
    from in_new_lease [OF this] names map_of_SomeD [OF e] show ?thesis
      unfolding lease_ok_def cached by (force simp: cached_engines_def)
  qed
  show "creator_ok (registry_of w') c" if "c \<in> set (ew_creators w')" for c using w'(8) that .
  show "\<not> ew_panicked w'" by (rule w'(6))
qed

lemma begin_acquire_accounted:
  assumes acc: "accounted w" and kind: "kind \<noteq> CountedLease"
  shows "accounted (begin_acquire kind key container w)"
proof -
  let ?k = "context_key kind key container" and ?r = "registry_of w"
  note a = accountedD [OF acc]
  obtain result r where cached: "cachedExecutionEngine ?k container (acquires kind) (kind = LeaseMain) ?r = (result, r)" by fastforce
  then have step: "begin_acquire kind key container w =
      (case result of Inl _ \<Rightarrow> with_registry r [] w
       | Inr (Some engine, _) \<Rightarrow> (with_registry r [] w)\<lparr>ew_leases := ew_leases w @ new_lease kind ?k container engine\<rparr>
       | Inr (None, generation) \<Rightarrow> (with_registry r [] w)\<lparr>ew_creators := ew_creators w @
           [\<lparr>ec_kind = kind, ec_key = ?k, ec_container = container, ec_generation = generation, ec_engine = None\<rparr>]\<rparr>)"
    by (auto simp: begin_acquire_def registry_of_def Let_def split: sum.splits option.splits)
  from cached a(2) show ?thesis
  proof (cases rule: cached_cases)
    case (failed x)
    note creators = creator_ok_mono [OF a(6) failed(6)]
    show ?thesis unfolding step failed(1) sum.case
      by (rule accountedI) (use a failed creators in \<open>auto simp: entries_of_def\<close>)
  next
    case (found e)
    note creators = creator_ok_mono [OF a(6) found(10)]
    show ?thesis unfolding step found(1) sum.case prod.case option.case
      by (rule accounted_share [OF acc _ kind, where key = ?k and container = container])
        (use a found creators in \<open>auto simp: entries_of_def\<close>)
  next
    case missing
    note creators = creator_ok_mono [OF a(6) missing(10)]
    show ?thesis unfolding step missing(1) sum.case prod.case option.case
      by (rule accountedI) (use a missing creators kind in \<open>auto simp: entries_of_def creator_ok_def\<close>)
  qed
qed

lemma create_engine_accounted:
  assumes acc: "accounted w"
  shows "accounted (create_engine i made w)"
proof (cases "length (ew_creators w) \<le> i \<or> ec_engine (ew_creators w ! i) \<noteq> None")
  case True
  with acc show ?thesis by (simp add: create_engine_def)
next
  case False
  then obtain p q where cs: "ew_creators w = p @ ew_creators w ! i # q" "drop_nth i (ew_creators w) = p @ q" "length p = i"
    using drop_nth_split [of i "ew_creators w"] by auto
  define c where "c = ew_creators w ! i"
  from False have c: "ec_engine c = None" by (simp add: c_def)
  note a = accountedD [OF acc]
  have set: "set (ew_creators w) = insert c (set p \<union> set q)" unfolding c_def by (subst cs(1)) simp
  have held: "mset (held_engines (ew_creators w)) = mset (held_engines p) + mset (held_engines q)"
    by (subst cs(1)) (simp add: c [unfolded c_def])
  have dropped: "accounted (w\<lparr>ew_creators := p @ q\<rparr>)"
    by (rule accountedI) (use a set held in auto)
  have updated: "(ew_creators w)[i := d] = p @ d # q" for d
    by (subst cs(1)) (simp add: cs(3) list_update_append)
  have made_one: "accounted (w\<lparr>ew_creators := p @ c\<lparr>ec_engine := Some (length (ew_made w))\<rparr> # q, ew_made := ew_made w @ [ctx]\<rparr>)" for ctx
    by (rule accountedI) (use a set held in \<open>auto simp: creator_ok_def ac_simps\<close>)
  from False dropped made_one show ?thesis
    unfolding create_engine_def by (auto simp: Let_def cs(2) updated c_def split: sum.splits)
qed

lemma publish_engine_accounted:
  assumes acc: "accounted w"
  shows "accounted (publish_engine i w)"
proof (cases "length (ew_creators w) \<le> i \<or> ec_engine (ew_creators w ! i) = None")
  case True
  with acc show ?thesis by (auto simp: publish_engine_def)
next
  case False
  then obtain p q where cs: "ew_creators w = p @ ew_creators w ! i # q" "drop_nth i (ew_creators w) = p @ q" "length p = i"
    using drop_nth_split [of i "ew_creators w"] by auto
  define c where "c = ew_creators w ! i"
  from False obtain x where c: "ec_engine c = Some x" by (auto simp: c_def)
  note a = accountedD [OF acc]
  have set: "set (ew_creators w) = insert c (set p \<union> set q)" unfolding c_def by (subst cs(1)) simp
  have held: "mset (held_engines (ew_creators w)) = {#x#} + mset (held_engines (p @ q))"
    by (subst cs(1)) (simp add: c [unfolded c_def])
  from set a(6) have ok: "creator_ok (registry_of w) c" by simp
  then have names: "trim (ec_key c) \<noteq> []" "trim (ec_container c) \<noteq> []" "ec_kind c \<noteq> CountedLease"
    and mem: "bm_mem (er_packageGenerations (registry_of w)) (trim (ec_container c))" by (auto simp: creator_ok_def)
  obtain result r gone where publish: "publishExecutionEngine (ec_key c) (ec_container c) (acquires (ec_kind c)) (ec_kind c = LeaseMain)
      (ec_generation c) x (registry_of w) = (result, r, gone)" by (metis prod_cases3)
  let ?w = "(with_registry r gone w)\<lparr>ew_creators := p @ q, ew_panicked := ew_panicked w \<or> engine_panic result\<rparr>"
  have step: "publish_engine i w = (case result of Inl _ \<Rightarrow> ?w
      | Inr winner \<Rightarrow> ?w\<lparr>ew_leases := ew_leases w @ new_lease (ec_kind c) (ec_key c) (ec_container c) winner\<rparr>)"
    using False c publish by (cases result) (simp_all add: publish_engine_def Let_def c_def cs(2) registry_of_def)
  from publish mem show ?thesis
  proof (cases rule: publish_cases)
    case (refused y)
    have "lease_ok ((ew_destroyed w @ [x]) @ cached_engines (entries_of w)) l" if "l \<in> set (ew_leases w)" for l
      by (rule lease_ok_mono [OF a(5) [OF that]]) auto
    then show ?thesis unfolding step refused(1) sum.case
      by (intro accountedI) (use a refused set held in \<open>auto simp: entries_of_def\<close>)
  next
    case (lost e)
    show ?thesis unfolding step lost(1) sum.case
      by (rule accounted_share [OF acc _ names(3), where key = "ec_key c" and container = "ec_container c"])
        (use a lost set held names in \<open>auto simp: entries_of_def engine_panic_def creator_ok_def\<close>)
  next
    case won
    let ?k = "trim (ec_key c)" and ?kind = "ec_kind c"
    let ?new = "\<lparr>ee_container = trim (ec_container c), ee_engine = x, ee_leases = (if acquires ?kind then 1 else 0),
        ee_containerOwned = ?kind = LeaseMain \<or> \<not> acquires ?kind\<rparr>"
    let ?leases = "ew_leases w @ new_lease ?kind (ec_key c) (ec_container c) x"
    have entries: "er_entries r = bm_insert ?k ?new (entries_of w)" by (simp add: won(5) entries_of_def)
    have none: "map_of (entries_of w) ?k = None" using won(3) by (simp add: entries_of_def)
    have cached: "mset (cached_engines (er_entries r)) = mset (cached_engines (entries_of w)) + {#x#}"
      unfolding entries using cached_insert [OF none, of ?new] by simp
    from arg_cong [OF cached, of set_mset] have known: "set (cached_engines (er_entries r)) = insert x (set (cached_engines (entries_of w)))" by simp
    have "x \<in> set (held_engines (ew_creators w))" using held by (metis add.commute multi_member_last set_mset_mset union_iff)
    with accounted_distinct(1) [OF acc] have x_new: "x \<notin> set (ew_destroyed w @ cached_engines (entries_of w))" by auto
    then have no_lease: "el_engine l \<noteq> x" if "l \<in> set (ew_leases w)" for l
      using a(5) [OF that] by (auto simp: lease_ok_def)
    then have "lease_count ?k x (ew_leases w) = 0" by (auto simp: lease_count_def filter_empty_conv)
    then have new_ok: "entry_ok ?leases ?k ?new"
      using no_lease names(3) by (auto simp: entry_ok_def lease_count_append lease_count_new dest: in_new_lease)
    have "accounted (?w\<lparr>ew_leases := ?leases\<rparr>)"
    proof (rule accountedI)
      show "bm_wf (entries_of (?w\<lparr>ew_leases := ?leases\<rparr>))" using a(1) by (simp add: entries)
      show "entry_ok (ew_leases (?w\<lparr>ew_leases := ?leases\<rparr>)) k e" if "map_of (entries_of (?w\<lparr>ew_leases := ?leases\<rparr>)) k = Some e" for k e
      proof (cases "k = ?k")
        case True
        with that new_ok a(1) show ?thesis by (simp add: entries)
      next
        case False
        with that a(1) have "map_of (entries_of w) k = Some e" by (simp add: entries)
        from entry_ok_other [OF a(4) [OF this]] False show ?thesis by (auto dest: in_new_lease)
      qed
      show "lease_ok (ew_destroyed (?w\<lparr>ew_leases := ?leases\<rparr>) @ cached_engines (entries_of (?w\<lparr>ew_leases := ?leases\<rparr>))) l"
        if "l \<in> set (ew_leases (?w\<lparr>ew_leases := ?leases\<rparr>))" for l
      proof (cases "l \<in> set (ew_leases w)")
        case True
        show ?thesis by (rule lease_ok_mono [OF a(5) [OF True]]) (use known won(2) in auto)
      next
        case False
        with that have "l \<in> set (new_lease ?kind (ec_key c) (ec_container c) x)" by simp
        from in_new_lease [OF this] names have "lease_ok [x] l" by (simp add: lease_ok_def)
        then show ?thesis by (rule lease_ok_mono) (use known in auto)
      qed
    qed (use a won set held cached in \<open>auto simp: entries engine_panic_def creator_ok_def\<close>)
    then show ?thesis unfolding step won(1) sum.case by simp
  qed
qed

text \<open>A lease object is dropped: the registry's own assertions hold.\<close>

lemma drop_lease_accounted:
  assumes acc: "accounted w"
  shows "accounted (engine_step (DropLease i) w)"
proof (cases "length (ew_leases w) \<le> i")
  case True
  with acc show ?thesis by simp
next
  case False
  then obtain p q where ls: "ew_leases w = p @ ew_leases w ! i # q" "drop_nth i (ew_leases w) = p @ q"
    using drop_nth_split [of i "ew_leases w"] by auto
  define l where "l = ew_leases w ! i"
  note a = accountedD [OF acc]
  have ls': "ew_leases w = p @ l # q" using ls(1) by (simp add: l_def)
  then have l: "l \<in> set (ew_leases w)" by simp
  from a(5) [OF l] have names: "trim (el_key l) = el_key l" "el_key l \<noteq> []" "trim (el_container l) = el_container l" "el_container l \<noteq> []"
    by (auto simp: lease_ok_def)
  have count: "lease_count k x (ew_leases w) = (if el_key l = k \<and> el_engine l = x then 1 else 0) + lease_count k x (p @ q)" for k x
    by (simp add: ls' lease_count_append lease_count_Cons)
  have kept: "entry_ok (p @ q) k e" if "entry_ok (ew_leases w) k e" "\<not> (el_key l = k \<and> el_engine l = ee_engine e)" for k e
    using that count [of k "ee_engine e"] by (auto simp: entry_ok_def ls')
  obtain result r gone where release: "releaseExecutionEngineLease (el_key l) (el_container l) (Some (el_engine l)) (registry_of w) = (result, r, gone)"
    by (metis prod_cases3)
  let ?w = "(with_registry r gone w)\<lparr>ew_panicked := ew_panicked w \<or> engine_panic result, ew_leases := p @ q\<rparr>"
  have step: "engine_step (DropLease i) w = ?w"
    using False release by (simp add: release_engine_def Let_def l_def ls(2) registry_of_def)
  have trims: "trim (el_key l) \<noteq> []" "trim (el_container l) \<noteq> []" using names by simp_all
  have "accounted ?w"
    using release trims
  proof (cases rule: release_cases)
    case stale
    then have entries: "entries_of ?w = entries_of w" by (simp add: entries_of_def)
    have "\<not> engine_panic result" by (simp add: stale(1) engine_panic_def)
    moreover have "entry_ok (p @ q) k e" if "map_of (entries_of w) k = Some e" for k e
    proof (rule kept [OF a(4) [OF that]])
      show "\<not> (el_key l = k \<and> el_engine l = ee_engine e)" using stale(4) [of e] that by (auto simp: names entries_of_def)
    qed
    ultimately show ?thesis
      by (intro accountedI) (use a(1,2,3,5,6,7) stale entries in \<open>auto simp: ls' entries_of_def\<close>)
  next
    case (panic e)
    then have e: "map_of (entries_of w) (el_key l) = Some e" "ee_engine e = el_engine l" by (simp_all add: entries_of_def names)
    from a(4) [OF e(1)] l e(2) have "el_container l = ee_container e" by (auto simp: entry_ok_def)
    moreover have "0 < ee_leases e" using a(4) [OF e(1)] count [of "el_key l" "el_engine l"] e(2) by (simp add: entry_ok_def)
    ultimately show ?thesis using panic(6) [unfolded names(3)] by simp
  next
    case (last e)
    then have e: "map_of (entries_of w) (el_key l) = Some e" "ee_engine e = el_engine l" by (simp_all add: entries_of_def names)
    have entries: "er_entries r = bm_remove (el_key l) (entries_of w)" by (simp add: last(6) entries_of_def names)
    have cached: "mset (cached_engines (entries_of w)) = mset (cached_engines (er_entries r)) + {#el_engine l#}"
      unfolding entries using cached_remove [OF e(1) a(1)] e(2) by simp
    from arg_cong [OF this, of set_mset] have known: "set (cached_engines (entries_of w)) = insert (el_engine l) (set (cached_engines (er_entries r)))"
      by simp
    show ?thesis
    proof (rule accountedI)
      show "bm_wf (entries_of ?w)" using a(1) by (simp add: entries)
      show "entry_ok (ew_leases ?w) k d" if "map_of (entries_of ?w) k = Some d" for k d
      proof -
        from that have "k \<noteq> el_key l" "map_of (entries_of w) k = Some d" by (auto simp: entries split: if_splits)
        with kept [OF a(4)] show ?thesis by simp
      qed
      show "lease_ok (ew_destroyed ?w @ cached_engines (entries_of ?w)) m" if "m \<in> set (ew_leases ?w)" for m
      proof -
        from that have "m \<in> set (ew_leases w)" by (auto simp: ls')
        from a(5) [OF this] show ?thesis by (rule lease_ok_mono) (use known last(7) in auto)
      qed
    qed (use a last cached in \<open>auto simp: entries engine_panic_def creator_ok_def\<close>)
  next
    case (more e)
    then have e: "map_of (entries_of w) (el_key l) = Some e" "ee_engine e = el_engine l" by (simp_all add: entries_of_def names)
    let ?e = "e\<lparr>ee_leases := ee_leases e - 1\<rparr>"
    have entries: "er_entries r = bm_set (el_key l) ?e (entries_of w)" by (simp add: more(6) entries_of_def names)
    have cached: "cached_engines (er_entries r) = cached_engines (entries_of w)"
      unfolding entries by (rule cached_set [OF e(1) a(1)]) simp
    have e_ok: "entry_ok (p @ q) (el_key l) ?e"
      using a(4) [OF e(1)] count [of "el_key l" "el_engine l"] e(2) more(5) by (auto simp: entry_ok_def ls')
    show ?thesis
    proof (rule accountedI)
      show "bm_wf (entries_of ?w)" using a(1) by (simp add: entries)
      show "entry_ok (ew_leases ?w) k d" if "map_of (entries_of ?w) k = Some d" for k d
      proof (cases "k = el_key l")
        case True
        with that e(1) e_ok show ?thesis by (simp add: entries map_of_bm_set bm_mem_def)
      next
        case False
        with that have "map_of (entries_of w) k = Some d" by (simp add: entries map_of_bm_set)
        with kept [OF a(4)] False show ?thesis by simp
      qed
      show "lease_ok (ew_destroyed ?w @ cached_engines (entries_of ?w)) m" if "m \<in> set (ew_leases ?w)" for m
        using a(5) that cached more(7) by (simp add: ls')
    qed (use a more cached in \<open>auto simp: entries engine_panic_def creator_ok_def\<close>)
  qed
  then show ?thesis unfolding step .
qed

text \<open>Engines are removed by what they are, whatever leases they have.\<close>

lemma remove_matching_accounted:
  assumes acc: "accounted w" and remove: "removeExecutionEnginesMatching P revoke (registry_of w) = (r, gone)"
    and revoke: "\<And>r. er_entries (revoke r) = er_entries r"
      "\<And>r. bm_wf (er_packageGenerations r) \<Longrightarrow> bm_wf (er_packageGenerations (revoke r))"
      "\<And>r d. bm_mem (er_packageGenerations r) d \<Longrightarrow> bm_mem (er_packageGenerations (revoke r)) d"
  shows "accounted (with_registry r gone w)"
proof -
  note a = accountedD [OF acc]
  have r: "er_entries r = filter (\<lambda>(_, e). \<not> P e) (entries_of w)" "er_packageGenerations r = er_packageGenerations (revoke (registry_of w))"
    and gone: "gone = cached_engines (filter (\<lambda>(_, e). P e) (entries_of w))"
    using remove by (auto simp: removeExecutionEnginesMatching_def Let_def revoke(1) entries_of_def cached_engines_def)
  have part: "mset (cached_engines (entries_of w)) = mset (cached_engines (er_entries r)) + mset gone"
    unfolding r(1) gone by (rule cached_partition)
  from arg_cong [OF this, of set_mset] have known: "set (cached_engines (entries_of w)) = set (cached_engines (er_entries r)) \<union> set gone" by simp
  show ?thesis
  proof (rule accountedI)
    show "bm_wf (entries_of (with_registry r gone w))" using a(1) by (simp add: r bm_wf_filter)
    show "bm_wf (er_packageGenerations (registry_of (with_registry r gone w)))" using a(2) by (simp add: r revoke)
    show "entry_ok (ew_leases (with_registry r gone w)) k e" if "map_of (entries_of (with_registry r gone w)) k = Some e" for k e
    proof -
      from that have "(k, e) \<in> set (entries_of w)" by (auto simp: r dest: map_of_SomeD)
      from map_of_is_SomeI [OF bm_wf_distinct [OF a(1)] this] a(4) show ?thesis by simp
    qed
    show "lease_ok (ew_destroyed (with_registry r gone w) @ cached_engines (entries_of (with_registry r gone w))) l"
      if "l \<in> set (ew_leases (with_registry r gone w))" for l
    proof -
      from that have "l \<in> set (ew_leases w)" by simp
      from a(5) [OF this] show ?thesis by (rule lease_ok_mono) (use known in auto)
    qed
    show "creator_ok (registry_of (with_registry r gone w)) c" if "c \<in> set (ew_creators (with_registry r gone w))" for c
    proof -
      from that have "c \<in> set (ew_creators w)" by simp
      from creator_ok_mono [OF a(6) [OF this]] show ?thesis by (simp add: r revoke(3))
    qed
  qed (use a part in \<open>simp_all add: ac_simps\<close>)
qed

lemma generation_bumped_mem: "bm_mem m d \<Longrightarrow> bm_mem (bm_insert c g m) d"
  by (simp add: bm_mem_iff)

lemma revoke_accounted:
  assumes acc: "accounted w" and "revokeContainerExecutionContexts c (registry_of w) = (r, gone)"
  shows "accounted (with_registry r gone w)"
proof (cases "trim c = []")
  case True
  with assms have "r = registry_of w" "gone = []" by (simp_all add: revokeContainerExecutionContexts_def)
  then have "with_registry r gone w = w" by (simp add: with_registry_def registry_of_def)
  with acc show ?thesis by simp
next
  case False
  with assms(2) have "removeExecutionEnginesMatching (\<lambda>e. ee_container e = trim c)
      (\<lambda>r. r\<lparr>er_mainScripts := bm_remove (trim c) (er_mainScripts r),
         er_packageGenerations := bm_insert (trim c) (Suc (generation_of (trim c) r)) (er_packageGenerations r)\<rparr>) (registry_of w) = (r, gone)"
    by (simp add: revokeContainerExecutionContexts_def Let_def)
  then show ?thesis
    by (rule remove_matching_accounted [OF acc]) (simp_all add: generation_bumped_mem)
qed

text \<open>Events of a run in which every counted lease is an object.\<close>

fun by_object :: "engine_event \<Rightarrow> bool" where
  "by_object (BeginAcquire kind _ _) = (kind \<noteq> CountedLease)"
| "by_object (ReleaseCounted _ _) = False"
| "by_object _ = True"

lemma accounted_catalog:
  "accounted w \<Longrightarrow> tm_engines m = registry_of w \<Longrightarrow> accounted (catalog_published m names w)"
  by (simp add: accounted_def catalog_published_def entries_of_def registry_of_def)

lemma accounted_outstanding: "accounted w \<Longrightarrow> accounted (w\<lparr>ew_outstanding := names\<rparr>)"
  by (simp add: accounted_def entries_of_def registry_of_def)

lemma engine_step_accounted:
  assumes acc: "accounted w" and "by_object ev"
  shows "accounted (engine_step ev w)"
proof (cases ev)
  case (BeginAcquire kind key container)
  with assms begin_acquire_accounted show ?thesis by simp
next
  case (CreateEngine i made)
  with acc create_engine_accounted show ?thesis by simp
next
  case (PublishEngine i)
  with acc publish_engine_accounted show ?thesis by simp
next
  case (DropLease i)
  with acc drop_lease_accounted show ?thesis by simp
next
  case (ReleaseCounted key container)
  with assms(2) show ?thesis by simp
next
  case (PublishContainer name revision runtime)
  with accounted_catalog [OF acc] show ?thesis by (simp add: publish_container_def registry_of_def)
next
  case (PublishRemoval container)
  with acc accounted_catalog [OF acc] show ?thesis
    by (auto simp: publish_removal_def registry_of_def split: option.splits)
next
  case (PublishMaps revision containers subpackages)
  with accounted_catalog [OF acc] show ?thesis by (simp add: publish_maps_def Let_def registry_of_def)
next
  case (Revoke container)
  obtain r gone where revoke: "revokeContainerExecutionContexts container (registry_of w) = (r, gone)" by fastforce
  then have "engine_step ev w = (with_registry r gone w)\<lparr>ew_outstanding := filter (\<lambda>c. c \<noteq> container) (ew_outstanding w)\<rparr>"
    by (simp add: Revoke revoke_engines_def with_registry_def registry_of_def)
  with accounted_outstanding [OF revoke_accounted [OF acc revoke]] show ?thesis by simp
next
  case ReplaceFactory
  obtain r gone where remove: "updateExecutionEngineFactory (registry_of w) = (r, gone)" by fastforce
  then have "accounted (with_registry r gone w)"
    unfolding updateExecutionEngineFactory_def by (rule remove_matching_accounted [OF acc]) simp_all
  with remove show ?thesis by (simp add: ReplaceFactory registry_of_def)
next
  case ShutDownEngines
  obtain r gone where remove: "shutdownExecutionEngines (registry_of w) = (r, gone)" by fastforce
  then have "accounted (with_registry r gone w)"
    unfolding shutdownExecutionEngines_def by (rule remove_matching_accounted [OF acc]) simp_all
  with remove show ?thesis by (simp add: ShutDownEngines registry_of_def)
qed

lemma engine_run_accounted: "accounted w \<Longrightarrow> list_all by_object evs \<Longrightarrow> accounted (engine_run evs w)"
  by (induction evs arbitrary: w) (auto intro: engine_step_accounted)

lemma world_new_accounted: "accounted engine_world_new"
  by (rule accountedI) (simp_all add: engine_world_new_def toolpkg_manager_new_def registry_default_def entries_of_def registry_of_def cached_engines_def)

text \<open>
  Leases that are given back by name break the count of the leases, but no engine gets lost and
  none is destroyed twice: this part of the invariant holds in every run.
\<close>

definition captured :: "engine_registry \<Rightarrow> engine_creator \<Rightarrow> bool" where
  "captured r c \<longleftrightarrow> bm_mem (er_packageGenerations r) (trim (ec_container c))"

definition traced :: "engine_world \<Rightarrow> bool" where
  "traced w \<longleftrightarrow> bm_wf (entries_of w) \<and> bm_wf (er_packageGenerations (registry_of w))
     \<and> mset (ew_destroyed w) + mset (held_engines (ew_creators w)) + mset (cached_engines (entries_of w)) = mset [0..<length (ew_made w)]
     \<and> list_all (captured (registry_of w)) (ew_creators w)"

lemma tracedI:
  assumes "bm_wf (entries_of w)" "bm_wf (er_packageGenerations (registry_of w))"
    "mset (ew_destroyed w) + mset (held_engines (ew_creators w)) + mset (cached_engines (entries_of w)) = mset [0..<length (ew_made w)]"
    "\<And>c. c \<in> set (ew_creators w) \<Longrightarrow> captured (registry_of w) c"
  shows "traced w"
  using assms by (auto simp: traced_def list_all_iff)

lemma tracedD:
  assumes "traced w"
  shows "bm_wf (entries_of w)" "bm_wf (er_packageGenerations (registry_of w))"
    "mset (ew_destroyed w) + mset (held_engines (ew_creators w)) + mset (cached_engines (entries_of w)) = mset [0..<length (ew_made w)]"
    "\<And>c. c \<in> set (ew_creators w) \<Longrightarrow> captured (registry_of w) c"
  using assms by (auto simp: traced_def list_all_iff)

lemma captured_mono:
  "captured r c \<Longrightarrow> (\<And>d. bm_mem (er_packageGenerations r) d \<Longrightarrow> bm_mem (er_packageGenerations r') d) \<Longrightarrow> captured r' c"
  by (simp add: captured_def)

lemma mset_exchange:
  fixes M :: "'a multiset"
  assumes "D + H + C = M" "G + C' = X + C" "H = X + H'"
  shows "D + G + H' + C' = M"
proof -
  have "D + G + H' + C' = D + H' + (G + C')" by (simp add: ac_simps)
  also have "\<dots> = D + H + C" unfolding assms(2,3) by (simp add: ac_simps)
  finally show ?thesis using assms(1) by simp
qed

lemma begin_acquire_traced:
  assumes "traced w"
  shows "traced (begin_acquire kind key container w)"
proof -
  let ?k = "context_key kind key container" and ?r = "registry_of w"
  note a = tracedD [OF assms]
  obtain result r where cached: "cachedExecutionEngine ?k container (acquires kind) (kind = LeaseMain) ?r = (result, r)" by fastforce
  then have step: "begin_acquire kind key container w =
      (case result of Inl _ \<Rightarrow> with_registry r [] w
       | Inr (Some engine, _) \<Rightarrow> (with_registry r [] w)\<lparr>ew_leases := ew_leases w @ new_lease kind ?k container engine\<rparr>
       | Inr (None, generation) \<Rightarrow> (with_registry r [] w)\<lparr>ew_creators := ew_creators w @
           [\<lparr>ec_kind = kind, ec_key = ?k, ec_container = container, ec_generation = generation, ec_engine = None\<rparr>]\<rparr>)"
    by (auto simp: begin_acquire_def registry_of_def Let_def split: sum.splits option.splits)
  from cached a(2) show ?thesis
  proof (cases rule: cached_cases)
    case (failed x)
    note creators = captured_mono [OF a(4) failed(6)]
    show ?thesis unfolding step failed(1) sum.case
      by (rule tracedI) (use a failed creators in \<open>auto simp: entries_of_def\<close>)
  next
    case (found e)
    note creators = captured_mono [OF a(4) found(10)]
    have e: "map_of (entries_of w) (trim ?k) = Some e" using found by (simp add: entries_of_def)
    have "er_entries r = bm_set (trim ?k) (share_entry (acquires kind) (kind = LeaseMain) e) (entries_of w)"
      using found by (simp add: entries_of_def)
    with cached_set [OF e a(1)] a(1) have "cached_engines (er_entries r) = cached_engines (entries_of w)" "bm_wf (er_entries r)" by simp_all
    then show ?thesis unfolding step found(1) sum.case prod.case option.case
      by (intro tracedI) (use a found creators in auto)
  next
    case missing
    note creators = captured_mono [OF a(4) missing(10)]
    show ?thesis unfolding step missing(1) sum.case prod.case option.case
      by (rule tracedI) (use a missing creators in \<open>auto simp: entries_of_def captured_def\<close>)
  qed
qed

lemma create_engine_traced:
  assumes "traced w"
  shows "traced (create_engine i made w)"
proof (cases "length (ew_creators w) \<le> i \<or> ec_engine (ew_creators w ! i) \<noteq> None")
  case True
  with assms show ?thesis by (simp add: create_engine_def)
next
  case False
  note a = tracedD [OF assms]
  define c where "c = ew_creators w ! i"
  from False obtain p q where cs: "ew_creators w = p @ c # q" "drop_nth i (ew_creators w) = p @ q" "length p = i"
    using drop_nth_split [of i "ew_creators w"] by (auto simp: c_def)
  have c: "ec_engine c = None" using False by (simp add: c_def)
  have gone: "traced (w\<lparr>ew_creators := p @ q\<rparr>)"
    by (rule tracedI) (use a cs(1) c in auto)
  have made: "traced (w\<lparr>ew_creators := (ew_creators w)[i := c\<lparr>ec_engine := Some (length (ew_made w))\<rparr>], ew_made := ew_made w @ [ctx]\<rparr>)" for ctx
  proof -
    have upd: "(ew_creators w)[i := c\<lparr>ec_engine := Some (length (ew_made w))\<rparr>] = p @ c\<lparr>ec_engine := Some (length (ew_made w))\<rparr> # q"
      using cs by (simp add: list_update_append)
    show ?thesis unfolding upd
      by (rule tracedI) (use a cs(1) c in \<open>auto simp: captured_def\<close>)
  qed
  show ?thesis
    using False gone made cs(2) by (auto simp: create_engine_def Let_def c_def [symmetric] split: sum.splits)
qed

lemma publish_engine_traced:
  assumes "traced w"
  shows "traced (publish_engine i w)"
proof (cases "length (ew_creators w) \<le> i \<or> ec_engine (ew_creators w ! i) = None")
  case True
  with assms show ?thesis by (auto simp: publish_engine_def)
next
  case False
  note a = tracedD [OF assms]
  define c where "c = ew_creators w ! i"
  from False obtain p q x where cs: "ew_creators w = p @ c # q" "drop_nth i (ew_creators w) = p @ q" and c: "ec_engine c = Some x"
    using drop_nth_split [of i "ew_creators w"] by (auto simp: c_def)
  have held: "mset (held_engines (ew_creators w)) = {#x#} + mset (held_engines (p @ q))" by (simp add: cs(1) c)
  have creators: "captured (registry_of w) d" if "d \<in> set (p @ q)" for d using a(4) that cs(1) by simp
  have mem: "bm_mem (er_packageGenerations (registry_of w)) (trim (ec_container c))" using a(4) [of c] by (simp add: cs(1) captured_def)
  obtain result r gone where publish: "publishExecutionEngine (ec_key c) (ec_container c) (acquires (ec_kind c)) (ec_kind c = LeaseMain)
      (ec_generation c) x (registry_of w) = (result, r, gone)" by (metis prod_cases3)
  let ?w = "(with_registry r gone w)\<lparr>ew_creators := p @ q, ew_panicked := ew_panicked w \<or> engine_panic result\<rparr>"
  have step: "publish_engine i w = (case result of Inl _ \<Rightarrow> ?w
      | Inr winner \<Rightarrow> ?w\<lparr>ew_leases := ew_leases w @ new_lease (ec_kind c) (ec_key c) (ec_container c) winner\<rparr>)"
    using False c publish by (cases result) (simp_all add: publish_engine_def Let_def c_def cs(2) registry_of_def)
  have "bm_wf (er_entries r) \<and> er_packageGenerations r = er_packageGenerations (registry_of w)
    \<and> mset gone + mset (cached_engines (er_entries r)) = {#x#} + mset (cached_engines (entries_of w))"
    using publish mem
  proof (cases rule: publish_cases)
    case (refused y)
    with a(1) show ?thesis by (simp add: entries_of_def)
  next
    case (lost e)
    then have "map_of (entries_of w) (trim (ec_key c)) = Some e" by (simp add: entries_of_def)
    from cached_set [OF this a(1), of "share_entry (acquires (ec_kind c)) (ec_kind c = LeaseMain) e"] a(1) lost
    show ?thesis by (simp add: entries_of_def)
  next
    case won
    have none: "map_of (entries_of w) (trim (ec_key c)) = None" using won(3) by (simp add: entries_of_def)
    show ?thesis using cached_insert [OF none] a(1) won by (simp add: entries_of_def)
  qed
  then have r: "bm_wf (er_entries r)" "er_packageGenerations r = er_packageGenerations (registry_of w)"
    and sums: "mset gone + mset (cached_engines (er_entries r)) = {#x#} + mset (cached_engines (entries_of w))" by blast+
  from mset_exchange [OF a(3) sums held] have "traced ?w"
    by (intro tracedI) (use a(2) creators in \<open>simp_all add: r captured_def\<close>)
  then show ?thesis unfolding step by (auto simp: traced_def split: sum.split)
qed

lemma release_engine_traced:
  assumes "traced w"
  shows "traced (release_engine key container expected w)"
proof -
  note a = tracedD [OF assms]
  obtain result r gone where release: "releaseExecutionEngineLease key container expected (registry_of w) = (result, r, gone)"
    by (metis prod_cases3)
  have step: "release_engine key container expected w =
      (with_registry r gone w)\<lparr>ew_panicked := ew_panicked w \<or> engine_panic result\<rparr>"
    using release by (simp add: release_engine_def registry_of_def)
  have "bm_wf (er_entries r) \<and> er_packageGenerations r = er_packageGenerations (registry_of w)
    \<and> mset gone + mset (cached_engines (er_entries r)) = mset (cached_engines (entries_of w))"
  proof (cases "map_of (entries_of w) (trim key)")
    case None
    with release a(1) show ?thesis
      by (auto simp: releaseExecutionEngineLease_def Let_def entries_of_def split: if_splits)
  next
    case (Some e)
    have less: "cached_engines (bm_set (trim key) (e\<lparr>ee_leases := ee_leases e - 1\<rparr>) (entries_of w)) = cached_engines (entries_of w)"
      by (rule cached_set [OF Some a(1)]) simp
    from cached_remove [OF Some a(1)] less release a(1) Some show ?thesis
      by (auto simp: releaseExecutionEngineLease_def Let_def entries_of_def split: if_splits)
  qed
  then have r: "bm_wf (er_entries r)" "er_packageGenerations r = er_packageGenerations (registry_of w)"
    and sums: "mset gone + mset (cached_engines (er_entries r)) = {#} + mset (cached_engines (entries_of w))" by simp_all
  from mset_exchange [OF a(3) sums, of "mset (held_engines (ew_creators w))"] show ?thesis
    unfolding step by (intro tracedI) (use a(2,4) in \<open>simp_all add: r captured_def\<close>)
qed

lemma remove_matching_traced:
  assumes tr: "traced w" and remove: "removeExecutionEnginesMatching P revoke (registry_of w) = (r, gone)"
    and revoke: "\<And>r. er_entries (revoke r) = er_entries r"
      "\<And>r. bm_wf (er_packageGenerations r) \<Longrightarrow> bm_wf (er_packageGenerations (revoke r))"
      "\<And>r d. bm_mem (er_packageGenerations r) d \<Longrightarrow> bm_mem (er_packageGenerations (revoke r)) d"
  shows "traced (with_registry r gone w)"
proof -
  note a = tracedD [OF tr]
  have r: "er_entries r = filter (\<lambda>(_, e). \<not> P e) (entries_of w)" "er_packageGenerations r = er_packageGenerations (revoke (registry_of w))"
    and gone: "gone = cached_engines (filter (\<lambda>(_, e). P e) (entries_of w))"
    using remove by (auto simp: removeExecutionEnginesMatching_def Let_def revoke(1) entries_of_def cached_engines_def)
  have part: "mset (cached_engines (entries_of w)) = mset (cached_engines (er_entries r)) + mset gone"
    unfolding r(1) gone by (rule cached_partition)
  have creators: "captured r c" if "c \<in> set (ew_creators w)" for c
    using a(4) [OF that] by (simp add: captured_def r(2) revoke(3))
  show ?thesis
    by (rule tracedI) (use a part creators in \<open>auto simp: r revoke bm_wf_filter ac_simps\<close>)
qed

lemma revoke_traced:
  assumes "traced w" and "revokeContainerExecutionContexts c (registry_of w) = (r, gone)"
  shows "traced (with_registry r gone w)"
proof (cases "trim c = []")
  case True
  with assms have "with_registry r gone w = w"
    by (auto simp: revokeContainerExecutionContexts_def with_registry_def registry_of_def)
  with assms(1) show ?thesis by simp
next
  case False
  with assms(2) have "removeExecutionEnginesMatching (\<lambda>e. ee_container e = trim c)
      (\<lambda>r. r\<lparr>er_mainScripts := bm_remove (trim c) (er_mainScripts r),
         er_packageGenerations := bm_insert (trim c) (Suc (generation_of (trim c) r)) (er_packageGenerations r)\<rparr>) (registry_of w) = (r, gone)"
    by (simp add: revokeContainerExecutionContexts_def Let_def)
  then show ?thesis
    by (rule remove_matching_traced [OF assms(1)]) (simp_all add: generation_bumped_mem)
qed

lemma traced_update [simp]:
  "traced (w\<lparr>ew_leases := ls\<rparr>) = traced w" "traced (w\<lparr>ew_outstanding := names\<rparr>) = traced w"
  by (simp_all add: traced_def entries_of_def registry_of_def)

lemma traced_catalog: "traced w \<Longrightarrow> tm_engines m = registry_of w \<Longrightarrow> traced (catalog_published m names w)"
  by (simp add: traced_def catalog_published_def entries_of_def registry_of_def)

lemma engine_step_traced:
  assumes tr: "traced w"
  shows "traced (engine_step ev w)"
proof (cases ev)
  case (PublishContainer name revision runtime)
  with traced_catalog [OF tr] show ?thesis by (simp add: publish_container_def registry_of_def)
next
  case (PublishRemoval container)
  with tr traced_catalog [OF tr] show ?thesis
    by (auto simp: publish_removal_def registry_of_def split: option.splits)
next
  case (PublishMaps revision containers subpackages)
  with traced_catalog [OF tr] show ?thesis by (simp add: publish_maps_def Let_def registry_of_def)
next
  case (Revoke container)
  obtain r gone where revoke: "revokeContainerExecutionContexts container (registry_of w) = (r, gone)" by fastforce
  then have "engine_step ev w = (with_registry r gone w)\<lparr>ew_outstanding := filter (\<lambda>c. c \<noteq> container) (ew_outstanding w)\<rparr>"
    by (simp add: Revoke revoke_engines_def with_registry_def registry_of_def)
  with revoke_traced [OF tr revoke] show ?thesis by simp
next
  case ReplaceFactory
  obtain r gone where remove: "updateExecutionEngineFactory (registry_of w) = (r, gone)" by fastforce
  then have "traced (with_registry r gone w)"
    unfolding updateExecutionEngineFactory_def by (rule remove_matching_traced [OF tr]) simp_all
  with remove show ?thesis by (simp add: ReplaceFactory registry_of_def)
next
  case ShutDownEngines
  obtain r gone where remove: "shutdownExecutionEngines (registry_of w) = (r, gone)" by fastforce
  then have "traced (with_registry r gone w)"
    unfolding shutdownExecutionEngines_def by (rule remove_matching_traced [OF tr]) simp_all
  with remove show ?thesis by (simp add: ShutDownEngines registry_of_def)
qed (use tr in \<open>auto simp: Let_def begin_acquire_traced create_engine_traced publish_engine_traced release_engine_traced\<close>)

lemma engine_run_traced: "traced w \<Longrightarrow> traced (engine_run evs w)"
  by (induction evs arbitrary: w) (auto intro: engine_step_traced)

lemma world_new_traced: "traced engine_world_new"
  by (rule tracedI) (simp_all add: engine_world_new_def toolpkg_manager_new_def registry_default_def entries_of_def registry_of_def cached_engines_def)

lemma traced_distinct:
  assumes "traced w"
  shows "distinct (ew_destroyed w @ cached_engines (entries_of w) @ held_engines (ew_creators w))"
    and "set (ew_destroyed w @ cached_engines (entries_of w) @ held_engines (ew_creators w)) = {..<length (ew_made w)}"
proof -
  have eq: "mset (ew_destroyed w @ cached_engines (entries_of w) @ held_engines (ew_creators w)) = mset [0..<length (ew_made w)]"
    using tracedD(3) [OF assms] by (simp add: ac_simps)
  from mset_eq_imp_distinct_iff [OF eq] show "distinct (ew_destroyed w @ cached_engines (entries_of w) @ held_engines (ew_creators w))" by simp
  from mset_eq_setD [OF eq] show "set (ew_destroyed w @ cached_engines (entries_of w) @ held_engines (ew_creators w)) = {..<length (ew_made w)}"
    by (simp only: set_upt atLeast0LessThan)
qed

text \<open>C35: Whatever acquisitions, releases, catalog changes, revocations, factory replacements and
  shutdowns are interleaved, every engine that was created is exactly one of cached, still held by
  the thread that created it, or destroyed once.  When moreover every lease is an object, and none is
  counted and given back by name (\<open>acquireToolPkgExecutionEngine\<close>,
  \<open>releaseToolPkgExecutionEngine\<close>), a cached engine's count is the number of lease objects
  for it, an engine without leases is kept only when its container owns it, and no assertion of the
  registry fails; for counted leases this part is false, as the examples at the end show.  In the
  program a run ends with the first failed assertion, which poisons the registry's mutex.\<close>

theorem engines_accounted_for:
  defines "w evs \<equiv> engine_run evs engine_world_new"
  shows "distinct (ew_destroyed (w evs) @ cached_engines (entries_of (w evs)) @ held_engines (ew_creators (w evs)))
    \<and> set (ew_destroyed (w evs) @ cached_engines (entries_of (w evs)) @ held_engines (ew_creators (w evs))) = {..<length (ew_made (w evs))}
    \<and> (list_all by_object evs \<longrightarrow>
        list_all (\<lambda>(k, e). ee_leases e = length (filter (\<lambda>l. el_key l = k \<and> el_engine l = ee_engine e) (ew_leases (w evs)))
          \<and> (0 < ee_leases e \<or> ee_containerOwned e)) (entries_of (w evs))
        \<and> \<not> ew_panicked (w evs))"
proof (intro conjI impI)
  have tr: "traced (w evs)" unfolding w_def by (rule engine_run_traced [OF world_new_traced])
  note traced_distinct [OF tr]
  then show "distinct (ew_destroyed (w evs) @ cached_engines (entries_of (w evs)) @ held_engines (ew_creators (w evs)))"
    "set (ew_destroyed (w evs) @ cached_engines (entries_of (w evs)) @ held_engines (ew_creators (w evs))) = {..<length (ew_made (w evs))}" .
  assume "list_all by_object evs"
  then have acc: "accounted (w evs)" unfolding w_def by (rule engine_run_accounted [OF world_new_accounted])
  note a = accountedD [OF acc]
  show "\<not> ew_panicked (w evs)" by (rule a(7))
  have "entry_ok (ew_leases (w evs)) k e" if "(k, e) \<in> set (entries_of (w evs))" for k e
    by (rule a(4)) (rule map_of_is_SomeI [OF bm_wf_distinct [OF a(1)] that])
  then show "list_all (\<lambda>(k, e). ee_leases e = length (filter (\<lambda>l. el_key l = k \<and> el_engine l = ee_engine e) (ew_leases (w evs)))
        \<and> (0 < ee_leases e \<or> ee_containerOwned e)) (entries_of (w evs))"
    unfolding list_all_iff entry_ok_def lease_count_def by blast
qed

section \<open>Engines belong to the current catalog\<close>

text \<open>
  A run's catalog is well named, and a fingerprint tells the version: \<open>version_of h\<close> is the
  version of every container whose revision is \<open>h\<close>.
\<close>

definition named_runtime :: "(nat \<Rightarrow> text_key) \<Rightarrow> text_key \<Rightarrow> nat option \<Rightarrow> ToolPkgContainerRuntime \<Rightarrow> bool" where
  "named_runtime version_of name revision runtime \<longleftrightarrow> trim name = name \<and> name \<noteq> [] \<and> ct_packageName runtime = name
     \<and> (case revision of None \<Rightarrow> True | Some h \<Rightarrow> version_of h = ct_apiVersion runtime)"

fun faithful_event :: "(nat \<Rightarrow> text_key) \<Rightarrow> engine_event \<Rightarrow> bool" where
  "faithful_event version_of (PublishContainer name revision runtime) = named_runtime version_of name revision runtime"
| "faithful_event version_of (PublishMaps revision containers subpackages) =
     (bm_wf containers \<and> list_all (\<lambda>(name, runtime). named_runtime version_of name (revision runtime) runtime) containers)"
| "faithful_event version_of _ = True"

definition containers_of :: "engine_world \<Rightarrow> (text_key, ToolPkgContainerRuntime) bmap" where
  "containers_of w = tm_containers (ew_manager w)"

definition revisions_of :: "engine_world \<Rightarrow> (text_key, nat option) bmap" where
  "revisions_of w = tm_revisions (ew_manager w)"

definition catalog_ok :: "(nat \<Rightarrow> text_key) \<Rightarrow> engine_world \<Rightarrow> bool" where
  "catalog_ok version_of w \<longleftrightarrow> bm_wf (containers_of w) \<and> bm_wf (revisions_of w)
     \<and> (\<forall>c rt. map_of (containers_of w) c = Some rt \<longrightarrow>
          (\<exists>revision. map_of (revisions_of w) c = Some revision \<and> named_runtime version_of c revision rt))
     \<and> (\<forall>c rev. map_of (revisions_of w) c = Some rev \<longrightarrow> trim c = c \<and> c \<noteq> [])
     \<and> (\<forall>c\<in>set (ew_outstanding w). trim c = c \<and> c \<noteq> [])"

text \<open>The engine was created for this key and container from the container's present data, or a revocation is due.\<close>

definition bound_to :: "engine_world \<Rightarrow> text_key \<Rightarrow> text_key \<Rightarrow> nat \<Rightarrow> bool" where
  "bound_to w k c x \<longleftrightarrow> c \<in> set (ew_outstanding w)
     \<or> (\<exists>rt. map_of (containers_of w) c = Some rt \<and> x < length (ew_made w) \<and> ew_made w ! x = (k, c, ct_apiVersion rt))"

definition up_to_date :: "engine_world \<Rightarrow> engine_creator \<Rightarrow> bool" where
  "up_to_date w c \<longleftrightarrow> ec_generation c = (er_factoryGeneration (registry_of w), generation_of (trim (ec_container c)) (registry_of w))"

definition creator_bound :: "engine_world \<Rightarrow> engine_creator \<Rightarrow> bool" where
  "creator_bound w c \<longleftrightarrow> bm_mem (er_packageGenerations (registry_of w)) (trim (ec_container c))
     \<and> fst (ec_generation c) \<le> er_factoryGeneration (registry_of w)
     \<and> snd (ec_generation c) \<le> generation_of (trim (ec_container c)) (registry_of w)
     \<and> (\<forall>x. ec_engine c = Some x \<longrightarrow> up_to_date w c \<longrightarrow> bound_to w (trim (ec_key c)) (trim (ec_container c)) x)"

definition engines_bound :: "engine_world \<Rightarrow> bool" where
  "engines_bound w \<longleftrightarrow> bm_wf (entries_of w) \<and> bm_wf (er_packageGenerations (registry_of w))
     \<and> (\<forall>k e. map_of (entries_of w) k = Some e \<longrightarrow> bound_to w k (ee_container e) (ee_engine e))
     \<and> list_all (creator_bound w) (ew_creators w)"

definition keeps_engines :: "(text_key, engine_entry) bmap \<Rightarrow> (text_key, engine_entry) bmap \<Rightarrow> bool" where
  "keeps_engines es es' \<longleftrightarrow> bm_wf es' \<and> (\<forall>k e'. map_of es' k = Some e' \<longrightarrow>
     (\<exists>e. map_of es k = Some e \<and> ee_engine e = ee_engine e' \<and> ee_container e = ee_container e'))"

lemma keeps_refl: "bm_wf es \<Longrightarrow> keeps_engines es es"
  by (auto simp: keeps_engines_def)

lemma keeps_set:
  "bm_wf es \<Longrightarrow> map_of es k = Some e \<Longrightarrow> ee_engine e' = ee_engine e \<Longrightarrow> ee_container e' = ee_container e \<Longrightarrow>
    keeps_engines es (bm_set k e' es)"
  by (auto simp: keeps_engines_def map_of_bm_set bm_mem_def)

lemma keeps_remove: "bm_wf es \<Longrightarrow> keeps_engines es (bm_remove k es)"
  by (auto simp: keeps_engines_def split: if_splits)

lemma release_keeps:
  assumes "releaseExecutionEngineLease key container expected r = (result, r', gone)" "bm_wf (er_entries r)"
  shows "keeps_engines (er_entries r) (er_entries r') \<and> r' = r\<lparr>er_entries := er_entries r'\<rparr>"
proof (cases "map_of (er_entries r) (trim key)")
  case None
  with assms have "r' = r" by (simp add: releaseExecutionEngineLease_def Let_def split: if_splits)
  with keeps_refl [OF assms(2)] show ?thesis by simp
next
  case (Some e)
  with assms(1) have "r' = r \<or> r' = r\<lparr>er_entries := bm_remove (trim key) (er_entries r)\<rparr>
      \<or> r' = r\<lparr>er_entries := bm_set (trim key) (e\<lparr>ee_leases := ee_leases e - 1\<rparr>) (er_entries r)\<rparr>"
    by (auto simp: releaseExecutionEngineLease_def Let_def split: if_splits)
  with keeps_refl [OF assms(2)] keeps_remove [OF assms(2)] keeps_set [OF assms(2) Some] show ?thesis by auto
qed

text \<open>A step that neither changes the catalog nor a generation.\<close>

lemma engines_bound_step:
  assumes bound: "engines_bound w" and same: "containers_of w' = containers_of w" "ew_outstanding w' = ew_outstanding w"
      "ew_made w' = ew_made w @ more_made"
    and registry: "er_factoryGeneration (registry_of w') = er_factoryGeneration (registry_of w)"
      "\<And>d. generation_of d (registry_of w') = generation_of d (registry_of w)" "bm_wf (er_packageGenerations (registry_of w'))"
      "\<And>d. bm_mem (er_packageGenerations (registry_of w)) d \<Longrightarrow> bm_mem (er_packageGenerations (registry_of w')) d"
    and entries: "bm_wf (entries_of w')" "\<And>k e'. map_of (entries_of w') k = Some e' \<Longrightarrow>
      (\<exists>e. map_of (entries_of w) k = Some e \<and> ee_engine e = ee_engine e' \<and> ee_container e = ee_container e') \<or> bound_to w k (ee_container e') (ee_engine e')"
    and creators: "\<And>c. c \<in> set (ew_creators w') \<Longrightarrow> c \<in> set (ew_creators w) \<or> creator_bound w' c"
  shows "engines_bound w'"
proof -
  have mono: "bound_to w k c x \<Longrightarrow> bound_to w' k c x" for k c x
    by (auto simp: bound_to_def same nth_append)
  have kept: "creator_bound w' c" if "creator_bound w c" for c
    using that registry mono by (auto simp: creator_bound_def up_to_date_def)
  have "creator_bound w' c" if "c \<in> set (ew_creators w')" for c
    using creators [OF that] kept bound by (auto simp: engines_bound_def list_all_iff)
  then have "list_all (creator_bound w') (ew_creators w')" by (simp add: list_all_iff)
  moreover have "bound_to w' k (ee_container e') (ee_engine e')" if "map_of (entries_of w') k = Some e'" for k e'
  proof -
    from bound have "\<forall>k e. map_of (entries_of w) k = Some e \<longrightarrow> bound_to w k (ee_container e) (ee_engine e)" by (simp add: engines_bound_def)
    with entries(2) [OF that] mono show ?thesis by metis
  qed
  ultimately show ?thesis using entries(1) registry(3) by (simp add: engines_bound_def)
qed

lemma begin_acquire_bound:
  assumes bound: "engines_bound w"
  shows "engines_bound (begin_acquire kind key container w)"
proof -
  let ?k = "context_key kind key container" and ?r = "registry_of w"
  from bound have wf: "bm_wf (entries_of w)" "bm_wf (er_packageGenerations ?r)" by (auto simp: engines_bound_def)
  obtain result r where cached: "cachedExecutionEngine ?k container (acquires kind) (kind = LeaseMain) ?r = (result, r)" by fastforce
  let ?w = "begin_acquire kind key container w"
  have w': "registry_of ?w = r" "entries_of ?w = er_entries r" "containers_of ?w = containers_of w" "ew_outstanding ?w = ew_outstanding w"
    "ew_made ?w = ew_made w @ []" "set (ew_creators ?w) \<subseteq> set (ew_creators w) \<union>
      {c. ec_container c = container \<and> ec_engine c = None \<and> (\<exists>g. result = Inr (None, g) \<and> ec_generation c = g)}"
    using cached by (auto simp: begin_acquire_def registry_of_def entries_of_def containers_of_def with_registry_def Let_def
        split: sum.splits option.splits)
  from cached wf(2) show ?thesis
  proof (cases rule: cached_cases)
    case (failed x)
    have creators: "set (ew_creators ?w) \<subseteq> set (ew_creators w)" using w'(6) by (auto simp: failed(1))
    show ?thesis
      by (rule engines_bound_step [OF bound w'(3,4,5)]) (use failed wf creators in \<open>auto simp: w' entries_of_def\<close>)
  next
    case (found e)
    have creators: "set (ew_creators ?w) \<subseteq> set (ew_creators w)" using w'(6) by (auto simp: found(1))
    have keeps: "keeps_engines (entries_of w) (er_entries r)"
      unfolding found(6) entries_of_def by (rule keeps_set [OF wf(1) [unfolded entries_of_def] found(2)]) simp_all
    show ?thesis
      by (rule engines_bound_step [OF bound w'(3,4,5)])
        (use found wf creators keeps in \<open>auto simp: w' keeps_engines_def\<close>)
  next
    case missing
    have creators: "creator_bound ?w c" if "c \<in> set (ew_creators ?w)" "c \<notin> set (ew_creators w)" for c
      using w'(6) that missing by (auto simp: creator_bound_def w')
    show ?thesis
      by (rule engines_bound_step [OF bound w'(3,4,5)]) (use missing wf creators in \<open>auto simp: w' entries_of_def\<close>)
  qed
qed

lemma create_engine_bound:
  assumes bound: "engines_bound w"
  shows "engines_bound (create_engine i made w)"
proof (cases "length (ew_creators w) \<le> i \<or> ec_engine (ew_creators w ! i) \<noteq> None")
  case True
  with bound show ?thesis by (simp add: create_engine_def)
next
  case False
  define c where "c = ew_creators w ! i"
  from False have c: "c \<in> set (ew_creators w)" by (auto simp: c_def)
  with bound have c_ok: "creator_bound w c" by (auto simp: engines_bound_def list_all_iff)
  have wf: "bm_wf (entries_of w)" "bm_wf (er_packageGenerations (registry_of w))" using bound by (auto simp: engines_bound_def)
  have dropped: "set (drop_nth i (ew_creators w)) \<subseteq> set (ew_creators w)"
    using set_take_subset set_drop_subset by (fastforce simp: drop_nth_def)
  have drop: "engines_bound (w\<lparr>ew_creators := drop_nth i (ew_creators w)\<rparr>)"
    by (rule engines_bound_step [OF bound, where more_made = "[]"])
      (use wf dropped in \<open>auto simp: containers_of_def\<close>)
  have made_one: "engines_bound (w\<lparr>ew_creators := (ew_creators w)[i := c\<lparr>ec_engine := Some (length (ew_made w))\<rparr>], ew_made := ew_made w @ [ctx]\<rparr>)"
    if rt: "map_of (containers_of w) (trim (ec_container c)) = Some rt" and ctx: "ctx = (trim (ec_key c), trim (ec_container c), ct_apiVersion rt)" for rt ctx
  proof (rule engines_bound_step [OF bound, where more_made = "[ctx]"])
    let ?w = "w\<lparr>ew_creators := (ew_creators w)[i := c\<lparr>ec_engine := Some (length (ew_made w))\<rparr>], ew_made := ew_made w @ [ctx]\<rparr>"
    fix d
    assume "d \<in> set (ew_creators ?w)"
    then have "d = c\<lparr>ec_engine := Some (length (ew_made w))\<rparr> \<or> d \<in> set (ew_creators w)"
      using set_update_subset_insert by fastforce
    moreover have "creator_bound ?w (c\<lparr>ec_engine := Some (length (ew_made w))\<rparr>)"
      using c_ok rt ctx by (auto simp: creator_bound_def bound_to_def containers_of_def)
    ultimately show "d \<in> set (ew_creators w) \<or> creator_bound ?w d" by blast
  qed (use wf in \<open>auto simp: containers_of_def\<close>)
  from False drop made_one show ?thesis
    unfolding create_engine_def
    by (auto simp: Let_def c_def executionContext_def containers_of_def split: option.splits)
qed

lemma publish_engine_bound:
  assumes bound: "engines_bound w"
  shows "engines_bound (publish_engine i w)"
proof (cases "length (ew_creators w) \<le> i \<or> ec_engine (ew_creators w ! i) = None")
  case True
  with bound show ?thesis by (auto simp: publish_engine_def)
next
  case False
  define c where "c = ew_creators w ! i"
  from False obtain x where x: "ec_engine c = Some x" by (auto simp: c_def)
  from False have "c \<in> set (ew_creators w)" by (auto simp: c_def)
  with bound have c_ok: "creator_bound w c" by (auto simp: engines_bound_def list_all_iff)
  have wf: "bm_wf (entries_of w)" "bm_wf (er_packageGenerations (registry_of w))" using bound by (auto simp: engines_bound_def)
  have dropped: "set (drop_nth i (ew_creators w)) \<subseteq> set (ew_creators w)"
    using set_take_subset set_drop_subset by (fastforce simp: drop_nth_def)
  obtain result r gone where publish: "publishExecutionEngine (ec_key c) (ec_container c) (acquires (ec_kind c)) (ec_kind c = LeaseMain)
      (ec_generation c) x (registry_of w) = (result, r, gone)" by (metis prod_cases3)
  let ?w = "publish_engine i w"
  have w': "registry_of ?w = r" "entries_of ?w = er_entries r" "containers_of ?w = containers_of w" "ew_outstanding ?w = ew_outstanding w"
    "ew_made ?w = ew_made w @ []" "ew_creators ?w = drop_nth i (ew_creators w)"
    using False publish x by (auto simp: publish_engine_def Let_def c_def registry_of_def entries_of_def containers_of_def with_registry_def
        split: sum.splits)
  from c_ok have mem: "bm_mem (er_packageGenerations (registry_of w)) (trim (ec_container c))" by (simp add: creator_bound_def)
  from publish mem show ?thesis
  proof (cases rule: publish_cases)
    case (refused y)
    show ?thesis
      by (rule engines_bound_step [OF bound w'(3,4,5)]) (use refused wf dropped in \<open>auto simp: w' entries_of_def\<close>)
  next
    case (lost e)
    have keeps: "keeps_engines (entries_of w) (er_entries r)"
      unfolding lost(5) entries_of_def using wf(1) lost(3) by (simp add: entries_of_def keeps_set)
    show ?thesis
      by (rule engines_bound_step [OF bound w'(3,4,5)])
        (use lost wf dropped keeps in \<open>auto simp: w' keeps_engines_def generation_of_def\<close>)
  next
    case won
    from won(4) c_ok x have "bound_to w (trim (ec_key c)) (trim (ec_container c)) x" by (auto simp: creator_bound_def up_to_date_def)
    then show ?thesis
      by (intro engines_bound_step [OF bound w'(3,4,5)])
        (use won wf dropped in \<open>auto simp: w' entries_of_def generation_of_def split: if_splits\<close>)
  qed
qed

lemma release_engine_bound:
  assumes bound: "engines_bound w"
  shows "engines_bound (release_engine key container expected w)"
proof -
  obtain result r gone where release: "releaseExecutionEngineLease key container expected (registry_of w) = (result, r, gone)"
    by (metis prod_cases3)
  let ?w = "release_engine key container expected w"
  have wf: "bm_wf (entries_of w)" "bm_wf (er_packageGenerations (registry_of w))" using bound by (auto simp: engines_bound_def)
  from release_keeps [OF release] wf(1) have keeps: "keeps_engines (entries_of w) (er_entries r)" "r = (registry_of w)\<lparr>er_entries := er_entries r\<rparr>"
    by (auto simp: entries_of_def)
  from keeps(2) have gen: "er_factoryGeneration r = er_factoryGeneration (registry_of w)" "er_packageGenerations r = er_packageGenerations (registry_of w)"
    by (metis engine_registry.select_convs engine_registry.surjective engine_registry.update_convs(2))+
  have w': "?w = (with_registry r gone w)\<lparr>ew_panicked := ew_panicked w \<or> engine_panic result\<rparr>"
    using release by (simp add: release_engine_def registry_of_def)
  show ?thesis
    by (rule engines_bound_step [OF bound, where more_made = "[]"])
      (use wf keeps(1) gen in \<open>auto simp: w' containers_of_def keeps_engines_def generation_of_def\<close>)
qed

text \<open>A published change of the catalog keeps what it does not announce.\<close>

lemma catalog_published_bound:
  assumes bound: "engines_bound w" and same: "tm_engines m = registry_of w"
    and kept: "\<And>c rt. c \<notin> set names \<Longrightarrow> map_of (containers_of w) c = Some rt \<Longrightarrow>
      \<exists>rt'. map_of (tm_containers m) c = Some rt' \<and> ct_apiVersion rt' = ct_apiVersion rt"
  shows "engines_bound (catalog_published m names w)"
proof -
  let ?w = "catalog_published m names w"
  have w': "registry_of ?w = registry_of w" "entries_of ?w = entries_of w" "ew_creators ?w = ew_creators w" "ew_made ?w = ew_made w"
    "containers_of ?w = tm_containers m" "ew_outstanding ?w = ew_outstanding w @ names"
    using same by (simp_all add: catalog_published_def registry_of_def entries_of_def containers_of_def)
  have mono: "bound_to ?w k c x" if "bound_to w k c x" for k c x
  proof (cases "c \<in> set names \<or> c \<in> set (ew_outstanding w)")
    case True
    then show ?thesis by (auto simp: bound_to_def w')
  next
    case False
    with that obtain rt where rt: "map_of (containers_of w) c = Some rt" "x < length (ew_made w)" "ew_made w ! x = (k, c, ct_apiVersion rt)"
      by (auto simp: bound_to_def)
    from kept [OF _ rt(1)] False obtain rt' where "map_of (tm_containers m) c = Some rt'" "ct_apiVersion rt' = ct_apiVersion rt" by blast
    with rt(2,3) show ?thesis by (auto simp: bound_to_def w')
  qed
  have "creator_bound ?w c" if "creator_bound w c" for c
    using that mono by (auto simp: creator_bound_def up_to_date_def w')
  with bound mono show ?thesis by (auto simp: engines_bound_def w' list_all_iff)
qed

text \<open>A revocation: no engine of the container is left and no creator of the container is up to date.\<close>

lemma revoke_bound:
  assumes bound: "engines_bound w" and revoke: "revokeContainerExecutionContexts container (registry_of w) = (r, gone)"
    and names: "\<And>c. c \<in> set (ew_outstanding w) \<Longrightarrow> trim c = c \<and> c \<noteq> []"
  shows "engines_bound ((with_registry r gone w)\<lparr>ew_outstanding := filter (\<lambda>c. c \<noteq> container) (ew_outstanding w)\<rparr>)"
proof (cases "trim container = []")
  case True
  with revoke have r: "r = registry_of w" "gone = []" by (simp_all add: revokeContainerExecutionContexts_def)
  have "filter (\<lambda>c. c \<noteq> container) (ew_outstanding w) = ew_outstanding w" using names True by (auto simp: filter_id_conv)
  then show ?thesis using bound by (simp add: r with_registry_def registry_of_def)
next
  case False
  let ?c = "trim container" and ?w = "(with_registry r gone w)\<lparr>ew_outstanding := filter (\<lambda>c. c \<noteq> container) (ew_outstanding w)\<rparr>"
  have wf: "bm_wf (entries_of w)" "bm_wf (er_packageGenerations (registry_of w))" using bound by (auto simp: engines_bound_def)
  from revoke False have r: "er_entries r = filter (\<lambda>(_, e). ee_container e \<noteq> ?c) (entries_of w)"
      "er_packageGenerations r = bm_insert ?c (Suc (generation_of ?c (registry_of w))) (er_packageGenerations (registry_of w))"
      "er_factoryGeneration r = er_factoryGeneration (registry_of w)"
    by (auto simp: revokeContainerExecutionContexts_def removeExecutionEnginesMatching_def Let_def entries_of_def)
  have gen: "generation_of d r = (if d = ?c then Suc (generation_of ?c (registry_of w)) else generation_of d (registry_of w))" for d
    using wf(2) by (simp add: generation_of_def r(2))
  have w': "registry_of ?w = r" "entries_of ?w = er_entries r" "ew_creators ?w = ew_creators w" "ew_made ?w = ew_made w"
    "containers_of ?w = containers_of w" by (simp_all add: registry_of_def entries_of_def containers_of_def with_registry_def)
  have mono: "bound_to ?w k d x" if "bound_to w k d x" "d \<noteq> ?c" for k d x
    using that names by (auto simp: bound_to_def w')
  have entries: "map_of (entries_of w) k = Some e \<and> ee_container e \<noteq> ?c" if "map_of (entries_of ?w) k = Some e" for k e
  proof -
    from that have "(k, e) \<in> set (entries_of w)" "ee_container e \<noteq> ?c" by (auto simp: w' r dest: map_of_SomeD)
    with map_of_is_SomeI [OF bm_wf_distinct [OF wf(1)]] show ?thesis by blast
  qed
  have "creator_bound ?w c" if c: "creator_bound w c" for c
  proof (cases "trim (ec_container c) = ?c")
    case True
    from c True have "snd (ec_generation c) \<le> generation_of ?c (registry_of w)" by (simp add: creator_bound_def)
    then have "\<not> up_to_date ?w c" by (auto simp: up_to_date_def w' gen True)
    with c True show ?thesis using wf(2) by (auto simp: creator_bound_def w' gen r bm_mem_iff)
  next
    case False
    with c mono wf(2) show ?thesis by (auto simp: creator_bound_def up_to_date_def w' gen r bm_mem_iff)
  qed
  with bound have "list_all (creator_bound ?w) (ew_creators ?w)" by (simp add: engines_bound_def list_all_iff w'(3))
  moreover have "bound_to ?w k (ee_container e) (ee_engine e)" if "map_of (entries_of ?w) k = Some e" for k e
    using entries [OF that] bound mono by (simp add: engines_bound_def)
  moreover have "bm_wf (entries_of ?w)" "bm_wf (er_packageGenerations (registry_of ?w))"
    using wf by (simp_all add: w' r bm_wf_filter)
  ultimately show ?thesis by (simp add: engines_bound_def)
qed

text \<open>A new factory generation, without any cached engine.\<close>

lemma emptied_bound:
  assumes bound: "engines_bound w" and r: "er_entries r = []" "er_factoryGeneration r = Suc (er_factoryGeneration (registry_of w))"
      "er_packageGenerations r = er_packageGenerations (registry_of w)"
  shows "engines_bound (with_registry r gone w)"
proof -
  let ?w = "with_registry r gone w"
  have "creator_bound ?w c" if "creator_bound w c" for c
    using that r by (auto simp: creator_bound_def up_to_date_def generation_of_def)
  with bound r show ?thesis by (auto simp: engines_bound_def list_all_iff)
qed

lemma catalog_okD:
  assumes "catalog_ok version_of w"
  shows "bm_wf (containers_of w)" "bm_wf (revisions_of w)"
    "\<And>c rt. map_of (containers_of w) c = Some rt \<Longrightarrow> \<exists>revision. map_of (revisions_of w) c = Some revision \<and> named_runtime version_of c revision rt"
    "\<And>c rev. map_of (revisions_of w) c = Some rev \<Longrightarrow> trim c = c \<and> c \<noteq> []"
    "\<And>c. c \<in> set (ew_outstanding w) \<Longrightarrow> trim c = c \<and> c \<noteq> []"
  using assms by (auto simp: catalog_ok_def)

lemma catalog_ok_same:
  "catalog_ok version_of w \<Longrightarrow> containers_of w' = containers_of w \<Longrightarrow> revisions_of w' = revisions_of w \<Longrightarrow>
    set (ew_outstanding w') \<subseteq> set (ew_outstanding w) \<Longrightarrow> catalog_ok version_of w'"
  by (auto simp: catalog_ok_def)

lemma catalog_published_simps [simp]:
  "containers_of (catalog_published m names w) = tm_containers m" "revisions_of (catalog_published m names w) = tm_revisions m"
  "ew_outstanding (catalog_published m names w) = ew_outstanding w @ names"
  by (simp_all add: catalog_published_def containers_of_def revisions_of_def)

lemma map_of_apsnd: "map_of (map (apsnd f) m) k = map_option f (map_of m k)"
  by (induction m) auto

lemma bm_wf_apsnd: "bm_wf (map (apsnd f) m) = bm_wf m"
  by (simp add: bm_wf_def comp_def)

definition consistent :: "(nat \<Rightarrow> text_key) \<Rightarrow> engine_world \<Rightarrow> bool" where
  "consistent version_of w \<longleftrightarrow> catalog_ok version_of w \<and> engines_bound w"

lemma publish_container_consistent:
  assumes con: "consistent version_of w" and named: "named_runtime version_of name revision runtime"
  shows "consistent version_of (engine_step (PublishContainer name revision runtime) w)"
proof -
  let ?m = "publish_container name revision runtime (ew_manager w)"
  from con have cat: "catalog_ok version_of w" and bound: "engines_bound w" by (auto simp: consistent_def)
  note c = catalog_okD [OF cat]
  have m: "tm_containers ?m = bm_insert name runtime (containers_of w)" "tm_revisions ?m = bm_insert name revision (revisions_of w)"
    "tm_engines ?m = registry_of w"
    by (simp_all add: publish_container_def containers_of_def revisions_of_def registry_of_def)
  have "catalog_ok version_of (catalog_published ?m [name] w)"
    using c named by (auto simp: catalog_ok_def m named_runtime_def)
  moreover have "engines_bound (catalog_published ?m [name] w)"
    by (rule catalog_published_bound [OF bound m(3)]) (use c(1) in \<open>auto simp: m\<close>)
  ultimately show ?thesis by (simp add: consistent_def)
qed

lemma publish_removal_consistent:
  assumes con: "consistent version_of w"
  shows "consistent version_of (engine_step (PublishRemoval container) w)"
proof (cases "map_of (containers_of w) (trim container)")
  case None
  with con show ?thesis by (simp add: publish_removal_def containers_of_def)
next
  case (Some rt)
  from con have cat: "catalog_ok version_of w" and bound: "engines_bound w" by (auto simp: consistent_def)
  note c = catalog_okD [OF cat]
  from c(3) [OF Some] have name: "ct_packageName rt = trim container" "trim container \<noteq> []" by (auto simp: named_runtime_def)
  then obtain m where m: "publish_removal container (ew_manager w) = Some (rt, m)"
    "tm_containers m = bm_remove (trim container) (containers_of w)" "tm_revisions m = bm_remove (trim container) (revisions_of w)"
    "tm_engines m = registry_of w"
    using Some by (auto simp: publish_removal_def containers_of_def revisions_of_def registry_of_def)
  have "catalog_ok version_of (catalog_published m [trim container] w)"
    using c name(2) by (auto simp: catalog_ok_def m)
  moreover have "engines_bound (catalog_published m [trim container] w)"
    by (rule catalog_published_bound [OF bound m(4)]) (auto simp: m)
  ultimately show ?thesis by (simp add: consistent_def m(1) name(1))
qed

lemma not_revoked:
  assumes "c \<notin> set (revoked_containers previous revisions)" "map_of previous c = Some v"
  shows "v \<noteq> None \<and> map_of revisions c = Some v"
  using assms map_of_SomeD [OF assms(2)] by (force simp: revoked_containers_def)

lemma publish_maps_consistent:
  assumes con: "consistent version_of w" and wf: "bm_wf containers"
    and named: "\<And>name rt. (name, rt) \<in> set containers \<Longrightarrow> named_runtime version_of name (revision rt) rt"
  shows "consistent version_of (engine_step (PublishMaps revision containers subpackages) w)"
proof -
  from con have cat: "catalog_ok version_of w" and bound: "engines_bound w" by (auto simp: consistent_def)
  note c = catalog_okD [OF cat]
  let ?revisions = "map (apsnd revision) containers" and ?revoked = "revoked_containers (revisions_of w) (map (apsnd revision) containers)"
  obtain m where publish: "publish_maps revision containers subpackages (ew_manager w) = (?revoked, m)"
    and m: "tm_containers m = containers" "tm_revisions m = ?revisions" "tm_engines m = registry_of w"
    by (simp add: publish_maps_def Let_def revisions_of_def registry_of_def)
  have revoked: "trim c = c \<and> c \<noteq> []" if revoked_c: "c \<in> set ?revoked" for c
  proof -
    from revoked_c have "c \<in> fst ` set (revisions_of w)" by (auto simp: revoked_containers_def)
    then obtain rev where "map_of (revisions_of w) c = Some rev" by (metis map_of_eq_None_iff not_None_eq)
    from c(4) [OF this] show ?thesis .
  qed
  have named': "named_runtime version_of c (revision rt) rt" if "map_of containers c = Some rt" for c rt
    using named map_of_SomeD [OF that] by blast
  have "catalog_ok version_of (catalog_published m ?revoked w)"
    unfolding catalog_ok_def catalog_published_simps m
    using wf named' revoked c(5) by (auto simp: bm_wf_apsnd map_of_apsnd named_runtime_def)
  moreover have "engines_bound (catalog_published m ?revoked w)"
  proof (rule catalog_published_bound [OF bound m(3)])
    fix d rt
    assume d: "d \<notin> set ?revoked" "map_of (containers_of w) d = Some rt"
    from c(3) [OF d(2)] obtain rev where rev: "map_of (revisions_of w) d = Some rev" "named_runtime version_of d rev rt" by blast
    from not_revoked [OF d(1) rev(1)] obtain h rt' where "rev = Some h" "map_of containers d = Some rt'" "revision rt' = Some h"
      by (auto simp: map_of_apsnd)
    with rev(2) named' [of d rt'] show "\<exists>rt'. map_of (tm_containers m) d = Some rt' \<and> ct_apiVersion rt' = ct_apiVersion rt"
      by (auto simp: m named_runtime_def)
  qed
  ultimately show ?thesis by (simp add: consistent_def publish)
qed

lemma engines_bound_leases: "engines_bound w \<Longrightarrow> engines_bound (w\<lparr>ew_leases := ls\<rparr>)"
  by (simp add: engines_bound_def creator_bound_def [abs_def] up_to_date_def bound_to_def containers_of_def)

lemma engine_step_same_catalog:
  "containers_of (begin_acquire kind key container w) = containers_of w \<and> revisions_of (begin_acquire kind key container w) = revisions_of w
     \<and> ew_outstanding (begin_acquire kind key container w) = ew_outstanding w"
  "containers_of (create_engine i made w) = containers_of w \<and> revisions_of (create_engine i made w) = revisions_of w
     \<and> ew_outstanding (create_engine i made w) = ew_outstanding w"
  "containers_of (publish_engine i w) = containers_of w \<and> revisions_of (publish_engine i w) = revisions_of w
     \<and> ew_outstanding (publish_engine i w) = ew_outstanding w"
  "containers_of (release_engine key container expected w) = containers_of w \<and> revisions_of (release_engine key container expected w) = revisions_of w
     \<and> ew_outstanding (release_engine key container expected w) = ew_outstanding w"
  "containers_of (with_registry r gone w) = containers_of w \<and> revisions_of (with_registry r gone w) = revisions_of w"
  by (auto simp: begin_acquire_def create_engine_def publish_engine_def release_engine_def containers_of_def revisions_of_def
      with_registry_def Let_def split: prod.splits sum.splits option.splits)

lemma engine_step_consistent:
  assumes con: "consistent version_of w" and faithful: "faithful_event version_of ev"
  shows "consistent version_of (engine_step ev w)"
proof -
  from con have cat: "catalog_ok version_of w" and bound: "engines_bound w" by (auto simp: consistent_def)
  show ?thesis
  proof (cases ev)
    case (BeginAcquire kind key container)
    with begin_acquire_bound [OF bound] catalog_ok_same [OF cat] engine_step_same_catalog(1) show ?thesis by (simp add: consistent_def)
  next
    case (CreateEngine i made)
    with create_engine_bound [OF bound] catalog_ok_same [OF cat] engine_step_same_catalog(2) show ?thesis by (simp add: consistent_def)
  next
    case (PublishEngine i)
    with publish_engine_bound [OF bound] catalog_ok_same [OF cat] engine_step_same_catalog(3) show ?thesis by (simp add: consistent_def)
  next
    case (DropLease i)
    let ?l = "ew_leases w ! i" and ?w = "release_engine (el_key (ew_leases w ! i)) (el_container (ew_leases w ! i)) (Some (el_engine (ew_leases w ! i))) w"
    have "engines_bound (?w\<lparr>ew_leases := ls\<rparr>)" for ls by (intro engines_bound_leases release_engine_bound bound)
    moreover have "catalog_ok version_of (?w\<lparr>ew_leases := ls\<rparr>)" for ls
      using engine_step_same_catalog(4) [of "el_key ?l" "el_container ?l" "Some (el_engine ?l)" w]
      by (intro catalog_ok_same [OF cat]) (simp_all add: containers_of_def revisions_of_def)
    ultimately show ?thesis using DropLease con by (simp add: consistent_def Let_def)
  next
    case (ReleaseCounted key container)
    with release_engine_bound [OF bound] catalog_ok_same [OF cat] engine_step_same_catalog(4) show ?thesis by (simp add: consistent_def)
  next
    case (PublishContainer name revision runtime)
    with publish_container_consistent [OF con] faithful show ?thesis by simp
  next
    case (PublishRemoval container)
    with publish_removal_consistent [OF con] show ?thesis by simp
  next
    case (PublishMaps revision containers subpackages)
    with faithful show ?thesis by (auto intro!: publish_maps_consistent [OF con] simp: list_all_iff simp del: engine_step.simps)
  next
    case (Revoke container)
    obtain r gone where revoke: "revokeContainerExecutionContexts container (registry_of w) = (r, gone)" by fastforce
    let ?w = "(with_registry r gone w)\<lparr>ew_outstanding := filter (\<lambda>c. c \<noteq> container) (ew_outstanding w)\<rparr>"
    have step: "engine_step ev w = ?w"
      using revoke by (simp add: Revoke revoke_engines_def with_registry_def registry_of_def)
    have "engines_bound ?w" by (rule revoke_bound [OF bound revoke]) (rule catalog_okD(5) [OF cat])
    moreover have "catalog_ok version_of ?w"
      by (rule catalog_ok_same [OF cat]) (auto simp: containers_of_def revisions_of_def)
    ultimately show ?thesis by (simp add: step consistent_def)
  next
    case ReplaceFactory
    have "engines_bound (with_registry (fst (updateExecutionEngineFactory (registry_of w))) (snd (updateExecutionEngineFactory (registry_of w))) w)"
      by (rule emptied_bound [OF bound]) (simp_all add: updateExecutionEngineFactory_def removeExecutionEnginesMatching_def Let_def)
    with catalog_ok_same [OF cat] engine_step_same_catalog(5) show ?thesis
      by (simp add: ReplaceFactory consistent_def case_prod_unfold registry_of_def Let_def)
  next
    case ShutDownEngines
    have "engines_bound (with_registry (fst (shutdownExecutionEngines (registry_of w))) (snd (shutdownExecutionEngines (registry_of w))) w)"
      by (rule emptied_bound [OF bound]) (simp_all add: shutdownExecutionEngines_def removeExecutionEnginesMatching_def Let_def)
    with catalog_ok_same [OF cat] engine_step_same_catalog(5) show ?thesis
      by (simp add: ShutDownEngines consistent_def case_prod_unfold registry_of_def Let_def)
  qed
qed

lemma engine_run_consistent: "consistent version_of w \<Longrightarrow> list_all (faithful_event version_of) evs \<Longrightarrow> consistent version_of (engine_run evs w)"
  by (induction evs arbitrary: w) (auto intro: engine_step_consistent)

lemma world_new_consistent: "consistent version_of engine_world_new"
  by (simp add: consistent_def catalog_ok_def engines_bound_def engine_world_new_def toolpkg_manager_new_def registry_default_def
      containers_of_def revisions_of_def entries_of_def registry_of_def)

text \<open>C36: However acquisitions race with the catalog, once a container's revocations are through,
  every cached engine was created for its key from the data the container has now: a creator that
  read the old data never publishes, and an engine is kept across a scan only when the fingerprint
  did not change.\<close>

theorem engines_of_current_package:
  assumes "list_all (faithful_event version_of) evs"
  defines "w \<equiv> engine_run evs engine_world_new"
  assumes "(k, e) \<in> set (entries_of w)" and "ee_container e \<notin> set (ew_outstanding w)"
  shows "\<exists>runtime. map_of (tm_containers (ew_manager w)) (ee_container e) = Some runtime
    \<and> ee_engine e < length (ew_made w) \<and> ew_made w ! ee_engine e = (k, ee_container e, ct_apiVersion runtime)"
proof -
  have "engines_bound w"
    unfolding w_def using engine_run_consistent [OF world_new_consistent assms(1)] by (simp add: consistent_def)
  then have wf: "bm_wf (entries_of w)" and bound: "map_of (entries_of w) k = Some e \<Longrightarrow> bound_to w k (ee_container e) (ee_engine e)"
    by (auto simp: engines_bound_def)
  from map_of_is_SomeI [OF bm_wf_distinct [OF wf] assms(3)] bound assms(4) show ?thesis by (auto simp: bound_to_def containers_of_def)
qed

section \<open>Runs by example\<close>

text \<open>Package \<open>p\<close> is replaced while an engine for its first version is being created.\<close>

definition example_runtime :: "text_key \<Rightarrow> ToolPkgContainerRuntime" where
  "example_runtime version = \<lparr>ct_packageName = [112], ct_apiVersion = version, ct_mainEntry = [109],
     ct_sourceType = EXTERNAL, ct_sourcePath = [], ct_subpackages = []\<rparr>"

lemma example_trims: "trim [112] = [112]" "trim [107] = [107]"
  by (simp_all add: trim_def is_whitespace_def)

lemmas engine_run_simps = example_trims engine_world_new_def toolpkg_manager_new_def registry_default_def Let_def
  begin_acquire_def context_key_def cachedExecutionEngine_def capture_generation_def generation_of_def acquires_def leases_object_def
  with_registry_def create_engine_def executionContext_def drop_nth_def publish_engine_def publishExecutionEngine_def share_entry_def
  new_lease_def release_engine_def releaseExecutionEngineLease_def engine_panic_def catalog_published_def publish_container_def
  revoke_engines_def revokeContainerExecutionContexts_def removeExecutionEnginesMatching_def bm_remove_def

definition racing_events :: "engine_event list" where
  "racing_events =
     [PublishContainer ([112]) (Some 1) (example_runtime ([118])), Revoke ([112]),
      BeginAcquire LeaseEngine ([107]) ([112]), CreateEngine 0 True,
      PublishContainer ([112]) (Some 2) (example_runtime ([118, 118])), Revoke ([112]), PublishEngine 0,
      BeginAcquire LeaseEngine ([107]) ([112]), CreateEngine 0 True, PublishEngine 0]"

lemma racing_world:
  "entries_of (engine_run racing_events engine_world_new) =
     [([107], \<lparr>ee_container = [112], ee_engine = 1, ee_leases = 1, ee_containerOwned = False\<rparr>)]"
  "ew_outstanding (engine_run racing_events engine_world_new) = []"
  "ew_destroyed (engine_run racing_events engine_world_new) = [0]"
  by (simp_all add: racing_events_def example_runtime_def engine_run_simps entries_of_def registry_of_def)

theorem engines_of_current_package_witness:
  "\<exists>runtime. map_of (tm_containers (ew_manager (engine_run racing_events engine_world_new))) ([112]) = Some runtime
     \<and> 1 < length (ew_made (engine_run racing_events engine_world_new))
     \<and> ew_made (engine_run racing_events engine_world_new) ! 1 = ([107], [112], ct_apiVersion runtime)"
proof -
  have "list_all (faithful_event (\<lambda>h. if h = 1 then [118] else [118, 118])) racing_events"
    by (simp add: racing_events_def example_runtime_def named_runtime_def example_trims)
  from engines_of_current_package [OF this, of "[107]" "\<lparr>ee_container = [112], ee_engine = 1, ee_leases = 1, ee_containerOwned = False\<rparr>"]
  show ?thesis by (simp add: racing_world)
qed

theorem engines_accounted_for_witness:
  "set (ew_destroyed (engine_run racing_events engine_world_new) @ cached_engines (entries_of (engine_run racing_events engine_world_new))
      @ held_engines (ew_creators (engine_run racing_events engine_world_new))) = {..<length (ew_made (engine_run racing_events engine_world_new))}
   \<and> ew_destroyed (engine_run racing_events engine_world_new) = [0] \<and> \<not> ew_panicked (engine_run racing_events engine_world_new)"
proof -
  have "list_all by_object racing_events" by (simp add: racing_events_def)
  with engines_accounted_for [of racing_events] racing_world(3) show ?thesis by blast
qed

text \<open>
  A counted lease has no object, and it is given back by its name: \<open>releaseToolPkgExecutionEngine\<close>
  cannot tell the engine the lease was for from its replacement.  After a revocation it takes the
  lease of another holder, whose engine is destroyed under it, or fails the registry's assertion
  when the replacement has no lease, which panics with the registry's mutex held.
\<close>

definition counted_events :: "acquisition \<Rightarrow> engine_event list" where
  "counted_events kind =
     [PublishContainer ([112]) (Some 1) (example_runtime ([118])), Revoke ([112]),
      BeginAcquire CountedLease ([107]) ([112]), CreateEngine 0 True, PublishEngine 0, Revoke ([112]),
      BeginAcquire kind ([107]) ([112]), CreateEngine 0 True, PublishEngine 0, ReleaseCounted ([107]) ([112])]"

lemma counted_release_takes_foreign_lease:
  "ew_leases (engine_run (counted_events LeaseEngine) engine_world_new) = [\<lparr>el_key = [107], el_container = [112], el_engine = 1\<rparr>]"
  "ew_destroyed (engine_run (counted_events LeaseEngine) engine_world_new) = [0, 1]"
  by (simp_all add: counted_events_def example_runtime_def engine_run_simps)

lemma counted_release_panics: "ew_panicked (engine_run (counted_events GetEngine) engine_world_new)"
  by (simp add: counted_events_def example_runtime_def engine_run_simps)

end
