(* ===== verification/Package_Manager.thy ===== *)
theory Package_Manager
  imports Engine_Registry
begin

text \<open>
  The package manager of the plugin SDK (\<open>PackageManager.rs\<close>): the registered packages, what is
  enabled and active, the selected states, and the registration and removal of tool package
  containers with their subpackages.  The resolver of package states is a function in the state, as
  the trait object is; that of the runtime is \<open>resolvePackageStateId\<close>.
\<close>

record 'd PluginPackageManager =
  pm_activatedPackages :: "text_key list"
  pm_availablePackages :: "(text_key, 'd ToolPackage) bmap"
  pm_enabledPackageNames :: "text_key list"
  pm_activePackageStateIds :: "(text_key, text_key option) bmap"
  pm_toolPkgManager :: ToolPkgManager
  pm_resolver :: "'d ToolPackage \<Rightarrow> text_key option"

definition package_manager_new :: "('d ToolPackage \<Rightarrow> text_key option) \<Rightarrow> 'd PluginPackageManager" where
  "package_manager_new resolver = \<lparr>pm_activatedPackages = [], pm_availablePackages = [], pm_enabledPackageNames = [],
     pm_activePackageStateIds = [], pm_toolPkgManager = toolpkg_manager_new, pm_resolver = resolver\<rparr>"

definition updatePackageStateResolver :: "('d ToolPackage \<Rightarrow> text_key option) \<Rightarrow> 'd PluginPackageManager \<Rightarrow> 'd PluginPackageManager" where
  "updatePackageStateResolver resolver m = m\<lparr>pm_resolver := resolver, pm_activePackageStateIds := []\<rparr>"

definition registerPackage :: "'d ToolPackage \<Rightarrow> 'd PluginPackageManager \<Rightarrow> 'd PluginPackageManager" where
  "registerPackage package m = m\<lparr>pm_availablePackages := bm_insert (trim (tp_name package)) package (pm_availablePackages m)\<rparr>"

text \<open>Whether it was registered, the manager, and the engines that were revoked with the old registration.\<close>

definition register_container :: "(ToolPkgContainerRuntime \<Rightarrow> nat option) \<Rightarrow> 'd ToolPkgLoadResult \<Rightarrow> 'd PluginPackageManager
    \<Rightarrow> bool \<times> 'd PluginPackageManager \<times> nat list" where
  "register_container revision load m =
     (if \<not> canRegisterToolPkg load (pm_availablePackages m) (pm_toolPkgManager m) then (False, m, [])
      else let available = bm_insert (tp_name (lr_containerPackage load)) (lr_containerPackage load) (pm_availablePackages m);
               (subpackages, tm, gone) = registerToolPkg revision load (pm_toolPkgManager m)
        in (True, m\<lparr>pm_availablePackages := foldl (\<lambda>a p. bm_insert (tp_name p) p a) available subpackages, pm_toolPkgManager := tm\<rparr>, gone))"

definition containsPackage :: "text_key \<Rightarrow> 'd PluginPackageManager \<Rightarrow> bool" where
  "containsPackage name m = bm_mem (pm_availablePackages m) (trim name)"

definition replaceAvailablePackages :: "(text_key, 'd ToolPackage) bmap \<Rightarrow> 'd PluginPackageManager \<Rightarrow> 'd PluginPackageManager" where
  "replaceAvailablePackages packages m =
     m\<lparr>pm_availablePackages := packages,
       pm_activatedPackages := filter (\<lambda>name. bm_mem packages name) (pm_activatedPackages m),
       pm_activePackageStateIds := bm_retain (\<lambda>name _. bm_mem packages name) (pm_activePackageStateIds m)\<rparr>"

definition replaceToolPkgRuntimes :: "(ToolPkgContainerRuntime \<Rightarrow> nat option) \<Rightarrow> (text_key, ToolPkgContainerRuntime) bmap
    \<Rightarrow> (text_key, ToolPkgSubpackageRuntime) bmap \<Rightarrow> 'd PluginPackageManager \<Rightarrow> 'd PluginPackageManager \<times> nat list" where
  "replaceToolPkgRuntimes revision containers subpackages m =
     (let (tm, gone) = replaceRuntimeMaps revision containers subpackages (pm_toolPkgManager m) in (m\<lparr>pm_toolPkgManager := tm\<rparr>, gone))"

text \<open>One package leaves the four collections; the flag is whether it was registered.\<close>

definition forget_package :: "text_key \<Rightarrow> 'd PluginPackageManager \<Rightarrow> bool \<times> 'd PluginPackageManager" where
  "forget_package name m =
     (bm_mem (pm_availablePackages m) name,
      m\<lparr>pm_availablePackages := bm_remove name (pm_availablePackages m),
        pm_enabledPackageNames := bs_remove name (pm_enabledPackageNames m),
        pm_activatedPackages := bs_remove name (pm_activatedPackages m),
        pm_activePackageStateIds := bm_remove name (pm_activePackageStateIds m)\<rparr>)"

fun forget_packages :: "text_key list \<Rightarrow> bool \<Rightarrow> 'd PluginPackageManager \<Rightarrow> bool \<times> 'd PluginPackageManager" where
  "forget_packages [] removed m = (removed, m)"
| "forget_packages (name # names) removed m = (let (r, m) = forget_package name m in forget_packages names (r \<or> removed) m)"

definition removePackage :: "text_key \<Rightarrow> 'd PluginPackageManager \<Rightarrow> bool \<times> 'd PluginPackageManager \<times> nat list" where
  "removePackage packageName m =
     (let name = trim packageName in
      case removeToolPkgContainer name (pm_toolPkgManager m) of
        (Some container, tm, gone) \<Rightarrow>
          (let (removed, m) = forget_package name (m\<lparr>pm_toolPkgManager := tm\<rparr>);
               (removed, m) = forget_packages (map sp_packageName (ct_subpackages container)) removed m
           in (removed, m, gone))
      | (None, _, _) \<Rightarrow> (let (removed, m) = forget_package name m in (removed, m, [])))"

definition setEnabledPackageNames :: "text_key list \<Rightarrow> 'd PluginPackageManager \<Rightarrow> 'd PluginPackageManager" where
  "setEnabledPackageNames names m = m\<lparr>pm_enabledPackageNames := bs_of_list (filter (\<lambda>n. n \<noteq> []) (map trim names))\<rparr>"

definition isPackageEnabled :: "text_key \<Rightarrow> 'd PluginPackageManager \<Rightarrow> bool" where
  "isPackageEnabled name m \<longleftrightarrow> trim name \<in> set (pm_enabledPackageNames m)"

definition enablePackage :: "text_key \<Rightarrow> 'd PluginPackageManager \<Rightarrow> bool \<times> 'd PluginPackageManager" where
  "enablePackage name m =
     (trim name \<notin> set (pm_enabledPackageNames m), m\<lparr>pm_enabledPackageNames := bs_insert (trim name) (pm_enabledPackageNames m)\<rparr>)"

definition disablePackage :: "text_key \<Rightarrow> 'd PluginPackageManager \<Rightarrow> bool \<times> 'd PluginPackageManager" where
  "disablePackage name m =
     (trim name \<in> set (pm_enabledPackageNames m),
      m\<lparr>pm_activatedPackages := bs_remove (trim name) (pm_activatedPackages m),
        pm_enabledPackageNames := bs_remove (trim name) (pm_enabledPackageNames m)\<rparr>)"

definition activatePackage :: "text_key \<Rightarrow> 'd PluginPackageManager \<Rightarrow> bool \<times> 'd PluginPackageManager" where
  "activatePackage name m =
     (trim name \<notin> set (pm_activatedPackages m), m\<lparr>pm_activatedPackages := bs_insert (trim name) (pm_activatedPackages m)\<rparr>)"

definition deactivatePackage :: "text_key \<Rightarrow> 'd PluginPackageManager \<Rightarrow> bool \<times> 'd PluginPackageManager" where
  "deactivatePackage name m =
     (trim name \<in> set (pm_activatedPackages m), m\<lparr>pm_activatedPackages := bs_remove (trim name) (pm_activatedPackages m)\<rparr>)"

definition selectPackageState :: "text_key \<Rightarrow> 'd PluginPackageManager \<Rightarrow> 'd ToolPackage option \<times> 'd PluginPackageManager" where
  "selectPackageState packageName m =
     (let name = trim packageName in
      case map_of (pm_availablePackages m) name of
        None \<Rightarrow> (None, m)
      | Some package \<Rightarrow> (let stateId = pm_resolver m package in
          (Some (applyPackageState package stateId), m\<lparr>pm_activePackageStateIds := bm_insert name stateId (pm_activePackageStateIds m)\<rparr>)))"

definition effectivePackage :: "text_key \<Rightarrow> 'd PluginPackageManager \<Rightarrow> 'd ToolPackage option" where
  "effectivePackage packageName m =
     map_option (\<lambda>package. applyPackageState package (pm_resolver m package)) (map_of (pm_availablePackages m) (trim packageName))"

definition effectiveTool :: "text_key \<Rightarrow> text_key \<Rightarrow> 'd PluginPackageManager \<Rightarrow> tool_error + 'd PackageTool" where
  "effectiveTool packageName function m =
     (case map_of (pm_availablePackages m) (trim packageName) of
        None \<Rightarrow> Inl (PackageNotRegistered packageName)
      | Some package \<Rightarrow>
          select_registered_package_tool_ref (tp_name package)
            (case applied_state package (pm_resolver m package) of
               None \<Rightarrow> tp_tools package
             | Some s \<Rightarrow> map snd (mergeToolRefsForState (tp_tools package) s)) function)"

definition activePackageStateId :: "text_key \<Rightarrow> 'd PluginPackageManager \<Rightarrow> text_key option" where
  "activePackageStateId packageName m = Option.bind (map_of (pm_activePackageStateIds m) (trim packageName)) id"

definition clearActivePackageState :: "text_key \<Rightarrow> 'd PluginPackageManager \<Rightarrow> 'd PluginPackageManager" where
  "clearActivePackageState packageName m = m\<lparr>pm_activePackageStateIds := bm_remove (trim packageName) (pm_activePackageStateIds m)\<rparr>"

section \<open>The tool that is executed\<close>

text \<open>C37: The executable a call selects is the one the catalog shows.  A call succeeds with a tool
  exactly if the package is registered, the tool is executable, and it is, under the state that the
  resolver names, the state's own last tool of that name or else, when the state inherits and does
  not exclude the name, the package's last one; without a state it is the package's only one.\<close>

theorem effective_tool_selected:
  "(effectiveTool p f m = Inr t \<longleftrightarrow>
     (\<exists>package. map_of (pm_availablePackages m) (trim p) = Some package \<and> executable_tool t
       \<and> (case applied_state package (pm_resolver m package) of
            None \<Rightarrow> filter (\<lambda>t. pt_name t = f) (tp_tools package) = [t]
          | Some s \<Rightarrow> left_tool (tp_tools package) s f = Some t)))
   \<and> effectiveTool p f m =
     (case effectivePackage p m of
        None \<Rightarrow> Inl (PackageNotRegistered p)
      | Some shown \<Rightarrow> select_registered_package_tool_ref (tp_name shown) (tp_tools shown) f)"
proof (cases "map_of (pm_availablePackages m) (trim p)")
  case None
  then show ?thesis by (simp add: effectiveTool_def effectivePackage_def)
next
  case (Some package)
  then show ?thesis
    by (cases "applied_state package (pm_resolver m package)")
      (auto simp: effectiveTool_def effectivePackage_def applyPackageState_def select_Inr filter_merged split: option.splits)
qed

section \<open>Registration and removal of a container\<close>

text \<open>
  A loaded package as the parser builds it, in which the runtime has the names of the packages, whose
  names have no white space around them.  The parser does not see to the latter: it only refuses a
  name that is blank.
\<close>

definition load_ok :: "'d ToolPkgLoadResult \<Rightarrow> bool" where
  "load_ok load \<longleftrightarrow> (let names = tp_name (lr_containerPackage load) # map tp_name (lr_subpackagePackages load) in
     list_all (\<lambda>n. trim n = n) names \<and> ct_packageName (lr_containerRuntime load) = tp_name (lr_containerPackage load)
     \<and> map sp_packageName (ct_subpackages (lr_containerRuntime load)) = map tp_name (lr_subpackagePackages load))"

lemma inserted_elsewhere:
  assumes "bm_wf m"
  shows "bm_wf (foldl (\<lambda>m x. bm_insert (f x) x m) m xs)
    \<and> (k \<notin> f ` set xs \<longrightarrow> map_of (foldl (\<lambda>m x. bm_insert (f x) x m) m xs) k = map_of m k)"
proof (induction xs rule: rev_induct)
  case (snoc x xs)
  then show ?case by auto
qed (use assms in simp)

text \<open>New names are taken out again.\<close>

lemma insert_remove_names:
  assumes wf: "bm_wf m" and new: "\<And>k. k \<in> f ` set xs \<Longrightarrow> map_of m k = None"
  shows "foldl (\<lambda>m n. bm_remove n m) (foldl (\<lambda>m x. bm_insert (f x) x m) m xs) (map f xs) = m"
proof (rule bm_ext)
  let ?m = "foldl (\<lambda>m x. bm_insert (f x) x m) m xs"
  have m: "bm_wf ?m" using inserted_elsewhere [OF wf] by blast
  show "bm_wf (foldl (\<lambda>m n. bm_remove n m) ?m (map f xs))" using removed_names [OF m] by blast
  show "bm_wf m" by (rule wf)
  show "map_of (foldl (\<lambda>m n. bm_remove n m) ?m (map f xs)) = map_of m"
  proof
    fix k
    show "map_of (foldl (\<lambda>m n. bm_remove n m) ?m (map f xs)) k = map_of m k"
      using removed_names [OF m, of "map f xs" k] inserted_elsewhere [OF wf, of f xs k] new [of k] by auto
  qed
qed

lemma forget_packages_effect:
  "pm_availablePackages (snd (forget_packages ns r m)) = foldl (\<lambda>a n. bm_remove n a) (pm_availablePackages m) ns
   \<and> pm_enabledPackageNames (snd (forget_packages ns r m)) = foldl (\<lambda>a n. bs_remove n a) (pm_enabledPackageNames m) ns
   \<and> pm_activatedPackages (snd (forget_packages ns r m)) = foldl (\<lambda>a n. bs_remove n a) (pm_activatedPackages m) ns
   \<and> pm_toolPkgManager (snd (forget_packages ns r m)) = pm_toolPkgManager m \<and> (r \<longrightarrow> fst (forget_packages ns r m))"
  by (induction ns arbitrary: r m) (auto simp: forget_package_def)

lemma foldl_bs_remove: "set (foldl (\<lambda>a n. bs_remove n a) s ns) = set s - set ns"
  by (induction ns arbitrary: s) auto

text \<open>C38: Registering a container that conflicts with nothing and removing it again, with or without
  white space around the name that is given, leaves the packages, the containers and the subpackages
  exactly as they were, and none of its names is enabled or active any more.  This is so for a
  container whose own names have no white space around them (\<open>load_ok\<close>); one that has stays
  registered, as the example below shows.\<close>

theorem register_remove_container:
  fixes m :: "'d PluginPackageManager"
  assumes wf: "bm_wf (pm_availablePackages m)" "bm_wf (tm_containers (pm_toolPkgManager m))" "bm_wf (tm_subpackages (pm_toolPkgManager m))"
    and load: "load_ok load" and register: "register_container revision load m = (True, m1, gone)"
    and name: "trim name = tp_name (lr_containerPackage load)" and remove: "removePackage name m1 = (removed, m2, gone2)"
  shows "removed \<and> pm_availablePackages m2 = pm_availablePackages m
    \<and> tm_containers (pm_toolPkgManager m2) = tm_containers (pm_toolPkgManager m)
    \<and> tm_subpackages (pm_toolPkgManager m2) = tm_subpackages (pm_toolPkgManager m)
    \<and> (\<forall>n\<in>set (tp_name (lr_containerPackage load) # map tp_name (lr_subpackagePackages load)).
        n \<notin> set (pm_enabledPackageNames m2) \<and> n \<notin> set (pm_activatedPackages m2))"
proof -
  let ?tm = "pm_toolPkgManager m" and ?c = "tp_name (lr_containerPackage load)" and ?rt = "lr_containerRuntime load"
  let ?subs = "lr_subpackagePackages load" and ?packages = "lr_containerPackage load # lr_subpackagePackages load"
  from load have names: "trim ?c = ?c" "\<And>n. n \<in> tp_name ` set ?subs \<Longrightarrow> trim n = n" "ct_packageName ?rt = ?c"
    "map sp_packageName (ct_subpackages ?rt) = map tp_name ?subs" by (auto simp: load_ok_def list_all_iff)
  from register have can: "canRegisterToolPkg load (pm_availablePackages m) ?tm" by (simp add: register_container_def split: if_splits)
  then have new: "\<And>k. k \<in> tp_name ` set ?packages \<Longrightarrow> map_of (pm_availablePackages m) k = None"
    "map_of (tm_containers ?tm) ?c = None" "\<And>k. k \<in> tp_name ` set ?subs \<Longrightarrow> map_of (tm_subpackages ?tm) k = None"
    using names(1,2) by (auto simp: canRegisterToolPkg_def Let_def list_all_iff not_bm_mem)
  obtain tm1 where tm1: "registerToolPkg revision load ?tm = (?subs, tm1, gone)"
    "tm_containers tm1 = bm_insert ?c ?rt (tm_containers ?tm)"
    "tm_subpackages tm1 = foldl (\<lambda>s x. bm_insert (sp_packageName x) x s) (tm_subpackages ?tm) (ct_subpackages ?rt)"
    using register can
    by (auto simp: register_container_def registerToolPkg_def revoke_engines_def publish_container_def Let_def split: prod.splits)
  from register can tm1(1) have m1: "pm_toolPkgManager m1 = tm1" "pm_enabledPackageNames m1 = pm_enabledPackageNames m"
    "pm_activatedPackages m1 = pm_activatedPackages m"
    "pm_availablePackages m1 = foldl (\<lambda>a p. bm_insert (tp_name p) p a) (pm_availablePackages m) ?packages"
    by (auto simp: register_container_def Let_def)
  have lookup: "map_of (tm_containers tm1) ?c = Some ?rt" using wf(2) by (simp add: tm1(2))
  obtain tm2 gone' where tm2: "removeToolPkgContainer ?c tm1 = (Some ?rt, tm2, gone')"
    "tm_containers tm2 = bm_remove ?c (tm_containers tm1)"
    "tm_subpackages tm2 = foldl (\<lambda>s x. bm_remove (trim (sp_packageName x)) s) (tm_subpackages tm1) (ct_subpackages ?rt)"
    using lookup by (cases "revokeContainerExecutionContexts (ct_packageName ?rt) (tm_engines tm1)")
      (auto simp: removeToolPkgContainer_def publish_removal_def revoke_engines_def names(1))
  have containers: "tm_containers tm2 = tm_containers ?tm"
    using insert_remove_names [OF wf(2), of "\<lambda>_. ?c" "[?rt]"] new(2) by (simp add: tm2(2) tm1(2))
  have subs_names: "trim (sp_packageName x) = sp_packageName x" if "x \<in> set (ct_subpackages ?rt)" for x
    using names(2) [of "sp_packageName x"] arg_cong [OF names(4), of set] that by auto
  have plain: "foldl (\<lambda>s x. bm_remove (trim (sp_packageName x)) s) b xs = foldl (\<lambda>s n. bm_remove n s) b (map sp_packageName xs)"
    if "\<And>x. x \<in> set xs \<Longrightarrow> trim (sp_packageName x) = sp_packageName x" for xs and b :: "(text_key, ToolPkgSubpackageRuntime) bmap"
    using that by (induction xs arbitrary: b) auto
  have "tm_subpackages tm2 = foldl (\<lambda>s n. bm_remove n s) (tm_subpackages tm1) (map sp_packageName (ct_subpackages ?rt))"
    unfolding tm2(3) by (rule plain) (rule subs_names)
  also have "\<dots> = tm_subpackages ?tm"
    unfolding tm1(3) using new(3) arg_cong [OF names(4), of set] by (intro insert_remove_names [OF wf(3)]) auto
  finally have subpackages: "tm_subpackages tm2 = tm_subpackages ?tm" .
  let ?m = "snd (forget_package ?c (m1\<lparr>pm_toolPkgManager := tm2\<rparr>))" and ?ns = "map tp_name ?subs"
  have here: "fst (forget_package ?c (m1\<lparr>pm_toolPkgManager := tm2\<rparr>))"
  proof -
    have "?c \<in> fst ` set (foldl (\<lambda>a p. bm_insert (tp_name p) p a) a ps)" if "?c \<in> fst ` set a" for a :: "(text_key, 'd ToolPackage) bmap" and ps
      using that by (induction ps arbitrary: a) auto
    then show ?thesis by (simp add: forget_package_def bm_mem_iff m1(4))
  qed
  from remove tm2(1) have m2: "m2 = snd (forget_packages ?ns True ?m)" "removed = fst (forget_packages ?ns True ?m)"
    using here by (auto simp: removePackage_def Let_def m1(1) name names(4) split: prod.splits)
  note effect = forget_packages_effect [of ?ns True ?m]
  have "pm_availablePackages m2 = foldl (\<lambda>a n. bm_remove n a) (pm_availablePackages m1) (map tp_name ?packages)"
    using effect by (simp add: m2 forget_package_def)
  also have "\<dots> = pm_availablePackages m"
    unfolding m1(4) by (rule insert_remove_names [OF wf(1) new(1)])
  finally have available: "pm_availablePackages m2 = pm_availablePackages m" .
  have off: "set (pm_enabledPackageNames m2) \<inter> insert ?c (set ?ns) = {}" "set (pm_activatedPackages m2) \<inter> insert ?c (set ?ns) = {}"
    using effect by (auto simp: m2 forget_package_def foldl_bs_remove)
  show ?thesis
    using effect available off containers subpackages by (auto simp: m2 forget_package_def)
qed

definition example_load :: "unit ToolPkgLoadResult" where
  "example_load = \<lparr>
     lr_containerPackage = \<lparr>tp_name = [112], tp_tools = [], tp_states = [], tp_description = ()\<rparr>,
     lr_subpackagePackages = [\<lparr>tp_name = [107], tp_tools = [], tp_states = [], tp_description = ()\<rparr>],
     lr_containerRuntime = (example_runtime [118])\<lparr>ct_subpackages := [\<lparr>sp_packageName = [107], sp_containerPackageName = [112]\<rparr>]\<rparr>\<rparr>"

theorem register_remove_container_witness:
  defines "m \<equiv> package_manager_new (resolvePackageStateId is_ascii_alphabetic ascii_alphanumeric Linux)"
  shows "\<exists>m1 gone removed m2 gone2. register_container (\<lambda>_. None) example_load m = (True, m1, gone)
    \<and> containsPackage [107] m1
    \<and> removePackage [112] m1 = (removed, m2, gone2) \<and> removed \<and> pm_availablePackages m2 = []"
proof -
  let ?m1 = "fst (snd (register_container (\<lambda>_. None) example_load m))"
  have empty: "pm_availablePackages m = []" "tm_containers (pm_toolPkgManager m) = []" "tm_subpackages (pm_toolPkgManager m) = []"
    by (simp_all add: m_def package_manager_new_def toolpkg_manager_new_def)
  have ok: "load_ok example_load" by (simp add: load_ok_def example_load_def example_runtime_def example_trims)
  have can: "canRegisterToolPkg example_load (pm_availablePackages m) (pm_toolPkgManager m)"
    by (simp add: canRegisterToolPkg_def example_load_def empty bm_mem_def example_trims)
  then obtain m1 gone where register: "register_container (\<lambda>_. None) example_load m = (True, m1, gone)"
    by (cases "registerToolPkg (\<lambda>_. None) example_load (pm_toolPkgManager m)") (auto simp: register_container_def)
  then have "pm_availablePackages m1 = foldl (\<lambda>a p. bm_insert (tp_name p) p a) [] (lr_containerPackage example_load # lr_subpackagePackages example_load)"
    using can by (auto simp: register_container_def registerToolPkg_def empty Let_def split: prod.splits)
  then have "containsPackage [107] m1" by (simp add: containsPackage_def example_load_def bm_mem_def example_trims)
  moreover obtain removed m2 gone2 where remove: "removePackage [112] m1 = (removed, m2, gone2)" by (metis prod_cases3)
  moreover have "trim [112] = tp_name (lr_containerPackage example_load)" by (simp add: example_load_def example_trims)
  from register_remove_container [OF _ _ _ ok register this remove] have "removed" "pm_availablePackages m2 = []" by (simp_all add: empty)
  ultimately show ?thesis using register remove by blast
qed

text \<open>
  A container is registered under its name as it is and looked up under the trimmed name, so one with
  white space around its name cannot be removed.
\<close>

lemma untrimmed_container_stays:
  assumes wf: "bm_wf (pm_availablePackages m)" "bm_wf (tm_containers (pm_toolPkgManager m))"
    and register: "register_container revision load m = (True, m1, gone)" and c: "c = tp_name (lr_containerPackage load)" "trim c \<noteq> c"
    and remove: "removePackage c m1 = (removed, m2, gone2)"
  shows "map_of (tm_containers (pm_toolPkgManager m2)) c = Some (lr_containerRuntime load) \<and> bm_mem (pm_availablePackages m2) c"
proof -
  let ?tm = "pm_toolPkgManager m" and ?rt = "lr_containerRuntime load" and ?subs = "lr_subpackagePackages load"
  from register have can: "canRegisterToolPkg load (pm_availablePackages m) ?tm" by (simp add: register_container_def split: if_splits)
  then have none: "map_of (tm_containers ?tm) (trim c) = None" by (auto simp: canRegisterToolPkg_def Let_def c(1) not_bm_mem)
  from register can have m1: "tm_containers (pm_toolPkgManager m1) = bm_insert c ?rt (tm_containers ?tm)"
    "pm_availablePackages m1 = foldl (\<lambda>a p. bm_insert (tp_name p) p a) (pm_availablePackages m) (lr_containerPackage load # ?subs)"
    by (auto simp: register_container_def registerToolPkg_def revoke_engines_def publish_container_def Let_def c(1) split: prod.splits)
  have "map_of (tm_containers (pm_toolPkgManager m1)) (trim c) = None" using none wf(2) c(2) by (simp add: m1(1))
  then have "removeToolPkgContainer (trim c) (pm_toolPkgManager m1) = (None, pm_toolPkgManager m1, [])"
    by (simp add: removeToolPkgContainer_def publish_removal_def trim_trim)
  with remove have m2: "m2 = snd (forget_package (trim c) m1)" by (auto simp: removePackage_def Let_def split: prod.splits)
  have "bm_wf (foldl (\<lambda>a p. bm_insert (tp_name p) p a) a ps)" if "bm_wf a" for a :: "(text_key, 'a ToolPackage) bmap" and ps
    using that by (induction ps arbitrary: a) auto
  with wf(1) have wf1: "bm_wf (pm_availablePackages m1)" unfolding m1(2) by blast
  have "c \<in> fst ` set (foldl (\<lambda>a p. bm_insert (tp_name p) p a) a ps)" if "c \<in> fst ` set a" for a :: "(text_key, 'a ToolPackage) bmap" and ps
    using that by (induction ps arbitrary: a) auto
  then have "bm_mem (pm_availablePackages m1) c" unfolding m1(2) by (simp add: bm_mem_iff c(1))
  with wf(2) wf1 c(2) show ?thesis by (auto simp: m2 forget_package_def m1(1) bm_mem_def)
qed

section \<open>The state that is applied\<close>

text \<open>With different identities the state applied is the first one whose condition holds.\<close>

lemma resolved_state_applied:
  assumes "distinct (map ts_id (tp_states package))"
  shows "applied_state package (resolvePackageStateId alpha alnum host package) =
    find (\<lambda>s. evaluate alpha alnum (ts_condition s) (buildConditionCapabilitiesSnapshot host)) (tp_states package)"
proof (cases "find (\<lambda>s. evaluate alpha alnum (ts_condition s) (buildConditionCapabilitiesSnapshot host)) (tp_states package)")
  case None
  then show ?thesis by (simp add: applied_state_def resolvePackageStateId_def)
next
  case (Some s)
  then have s: "s \<in> set (tp_states package)" by (auto simp: find_Some_iff)
  have "find (\<lambda>q. ts_id q = ts_id s) ss = Some s" if "distinct (map ts_id ss)" "s \<in> set ss" for ss
    using that by (induction ss) auto
  with assms s Some show ?thesis by (simp add: applied_state_def resolvePackageStateId_def)
qed

text \<open>
  States without an identity share the empty one: whichever condition holds, the tools are those of
  the first such state, also when its own condition is false.
\<close>

lemma wrong_state_applied:
  assumes states: "tp_states package = [s, q]" "ts_id s = ts_id q"
    and conditions: "\<not> evaluate alpha alnum (ts_condition s) (buildConditionCapabilitiesSnapshot host)"
      "evaluate alpha alnum (ts_condition q) (buildConditionCapabilitiesSnapshot host)"
  shows "applied_state package (resolvePackageStateId alpha alnum host package) = Some s"
  using assms by (simp add: applied_state_def resolvePackageStateId_def)

end
