(* ===== verification/Spec2Isabelle.thy ===== *)
theory Spec2Isabelle
  imports Version_Journal Migration_Rules History_Replay Checkpoint_Merge Stream_Split Stream_Operators Kmp_Graph
    Shared_Text Markdown_Nodes Json_Xml Control_Store Chat_Lease Pairing_Throttle Link_Codec
    Package_Manager
begin

text \<open>
  Verification of the core of Operit: the replicated transactions through which the nodes of one
  user agree on their data and on who may do what, the incremental parsers through which the text of
  a model reaches the screen, the links between nodes, and the packages of tools with their engines.  Paths are relative to \<open>src/core/crates\<close>; STORE stands for
  \<open>persistence/store/src\<close> and UTIL for \<open>foundation/util/src\<close>.

  \<^bold>\<open>Replication\<close>

  A node turns each change into a transaction of edits with an author, a sequence number and a
  wall-clock time, and exchanges transactions with its peers.  Receipts and clocks say which ones a
  node has; a history keeps the originals; replay applies them in one order to a dataset; snapshots
  and checkpoints shorten the replay; migrations carry datasets and transactions to new layouts.

    \<^item> \<open>Sync_Operation\<close> (STORE \<open>/SyncOperationStore.rs\<close>, \<open>Transaction.rs\<close>): the operation envelope, the
      order \<open>Revision\<close> as a \<open>linorder\<close> instance, \<open>newer\<close>.  The locale \<open>revision_order\<close> is what replay
      needs of \<open>newer\<close>; histories in which no author's clock runs backwards provide it.
    \<^item> \<open>Sync_Receipt\<close> (\<open>SyncOperationStore.rs\<close>): \<open>SyncClock\<close>, \<open>SyncReceipt\<close> and the versions of entities.
      The trait \<open>SyncOperationKnowledge\<close> is the locale \<open>knowledge\<close>, interpreted by clocks and receipts.
      \<open>i64\<close> is \<open>int\<close> with the saturating and checked additions of the source written out.
    \<^item> \<open>Version_Journal\<close> (\<open>SyncOperationStore.rs\<close>): the journal of entity versions with its cache, down to the bytes of
      the file: UTF-8, lines, trimming.
    \<^item> \<open>Transaction_Order\<close> (\<open>ordered\<close> of \<open>Transaction.rs\<close>): the identity union, the queues per author and
      the merge of their heads; its result is independent of the arrival order, complete, causal.
    \<^item> \<open>Json_Value\<close>, \<open>Edit_Algebra\<close> (\<open>Edit::apply\<close>): JSON values with sorted objects, paths, increments in
      \<open>i64\<close>, array and record edits; errors are values of \<open>res\<close>.
    \<^item> \<open>Data_Apply\<close> (\<open>Data::apply\<close>): versions per scope, later edits shadowing earlier ones, additions that
      are applied again, deletion marks.  Replay of whole-value assignments refines a map of
      last-writer-wins registers, and replicas converge.
    \<^item> \<open>Migration_Rules\<close> (\<open>Rule\<close>, \<open>migrate_data\<close>, \<open>resolve_path\<close>): the layout routes and the rules on data,
      transactions and scopes.  The route search ends because it visits each layout at most once.
    \<^item> \<open>History_Replay\<close> (\<open>History\<close>, \<open>Snapshot\<close>, \<open>CoverageManifest\<close>): retractions and corrections select the effective
      transactions; a snapshot covers a prefix; manifests elect the authoritative snapshot.
    \<^item> \<open>Checkpoint_Merge\<close> (\<open>transaction/Checkpoint.rs\<close>): two checkpoints merge into one dataset, the same on
      either side.

  \<^bold>\<open>Text\<close>

  The answer of a model arrives in chunks.  Plugins are character machines that recognise one kind of
  block; a splitter runs all of them over the text and hands it to the first that recognises
  something; the block session of the renderer does the same between chunks, over indices.

    \<^item> \<open>Stream_Plugin\<close> (UTIL \<open>/stream/plugins\<close>): the trait \<open>StreamPlugin\<close> as the locale \<open>stream_plugin\<close>, and the JSON
      plugins, whose brace counter is an \<open>i32\<close>.  Characters are code points.
    \<^item> \<open>Markdown_Plugins\<close>, \<open>Xml_Plugin\<close>: the ten Markdown plugins and the XML plugin, each an interpretation
      of the locale.  \<open>Text_Match\<close> holds the matcher they share with the string graph.
    \<^item> \<open>Stream_Split\<close>, \<open>Stream_Operators\<close> (\<open>StreamOperators.rs\<close>): the splitter over any plugins, a sum type
      that interprets the locale in turn, and the list-like operators.
    \<^item> \<open>Kmp_Graph\<close> (\<open>StreamKmpGraph.rs\<close>): patterns, the graph built from them, matching with failure
      transitions and captured groups; nodes are indices into a list, and a search that would leave
      it is \<open>None\<close>, which is shown not to happen for a graph that was built.
    \<^item> \<open>Text_Revision\<close>, \<open>Shared_Text\<close> (\<open>TextStreamRevisionTracker.rs\<close>, \<open>RevisableTextStream.rs\<close>): byte positions of
      savepoints, rollback and replacement implement a store of snapshots; a subscriber that comes
      late rebuilds the text.
    \<^item> \<open>Native_Markdown\<close>, \<open>Markdown_Coverage\<close> (UTIL \<open>/streamnative/NativeMarkdownSplitter.rs\<close>): the block session.  The
      loop of \<open>push\<close> also reads the characters that a waiting plugin gives back; its termination measure
      counts characters held, the stage of the session, then characters to read.  The segments list the
      text in order, and cutting it into chunks does not matter.  The mask of the plugins that emit a
      character is a 32-bit word; a session has at most eleven plugins (\<open>get_block_plugins\<close>), so no shift
      leaves the word.

    \<^item> \<open>Markdown_Inline\<close>, \<open>Inline_Tokens\<close> (UTIL \<open>/streamnative/MarkdownInlineStream.rs\<close>): the inline parser, a machine
      of styles, code, mathematics and links.  A label is parsed by the same machine without links, so one level of
      labels (\<open>label_levels\<close>) is all there is; styles nest to at most twelve levels in each of them.
    \<^item> \<open>Markdown_Nodes\<close> (\<open>NativeMarkdownSplitter.rs\<close>): segments and inline tokens become a forest of nodes.
    \<^item> \<open>Json_Xml\<close> (UTIL \<open>/StreamingJsonXmlConverter.rs\<close>): the arguments of a tool call as XML while they arrive.

  \<^bold>\<open>Control of a Space\<close> (STORE \<open>/NetworkControlStore.rs\<close>, \<open>NetworkControlReadModel.rs\<close>)

  The devices of a Space change its policy by commands, which travel as the operations of the
  replication part; every device replays them in the order of revisions and rejects what the issuer was
  not entitled to at that place.

    \<^item> \<open>Control_Command\<close>, \<open>Control_Policy\<close>: commands and their JSON form, capabilities through roles and identities,
      the decision on a command and its effect.
    \<^item> \<open>Control_Replay\<close>: the replay with its audit and the read model; \<open>Control_Store\<close>: the endpoint store, the
      submission of local commands and the check of what a peer pushes.

  \<^bold>\<open>Links and leases\<close>

    \<^item> \<open>Chat_Lease\<close> (STORE \<open>/ChatExecutionLease.rs\<close>): who may change a conversation while its answer is generated.
    \<^item> \<open>Pairing_Throttle\<close> (\<open>node/runtime/src/peer/pairing_throttle.rs\<close>): token buckets for pairing attempts.
    \<^item> \<open>Link_Session\<close> (\<open>foundation/link/src/session.rs\<close>, \<open>protocol.rs\<close>, \<open>isolation.rs\<close>): one admitted connection, its calls,
      watches and input streams; a panic of the service is a value of \<open>outcome\<close>.
    \<^item> \<open>Link_Codec\<close> (\<open>foundation/link/src/codec.rs\<close>, \<open>operation_codec.rs\<close>): passing over messages without decoding them.
      The scanner counts the values that are open; its specification is the recursive grammar.

  \<^bold>\<open>Tool packages\<close>

  A package declares tools and states that change them under conditions on the host.  A container of
  packages brings its own scripts, which run in engines that are cached, leased and revoked.

    \<^item> \<open>Condition_Eval\<close>, \<open>Condition_Text\<close> (\<open>tool/services/src/tools/condition/ConditionEvaluator.rs\<close>): tokens, parser and
      values; every text of a syntax tree (the relation \<open>written\<close>) evaluates to its meaning.  The four loops of the operator levels are one
      \<open>operand_loop\<close> with the step of the level.
    \<^item> \<open>Tool_Package\<close> (\<open>plugin/sdk/src/package.rs\<close>, \<open>PackageManager.rs\<close>, \<open>javascript.rs\<close>, the resolver in
      \<open>RuntimePackageManager.rs\<close>): states, their tools, the selection of an executable.
    \<^item> \<open>Engine_Registry\<close> (\<open>plugin/sdk/src/toolpkg/ToolPkgManager.rs\<close>): the catalog and the registry of engines.  An operation
      that leaves the registry's lock is split into its locked parts, and \<open>engine_step\<close> interleaves them.
    \<^item> \<open>Package_Manager\<close> (\<open>PackageManager.rs\<close>): registration, removal, activation and selection over both.

  \<^bold>\<open>Shared theories.\<close>  \<open>Prelude\<close> holds failures, checked \<open>i64\<close> and the \<open>str\<close> operations; \<open>Ordered_Map\<close> models \<open>BTreeMap\<close> and
  \<open>BTreeSet\<close> as sorted lists, whose laws are the locale \<open>kv_map\<close>.

  \<^bold>\<open>Kinds of results.\<close>  Invariants of operations and runs (\<open>Data_apply_invariant\<close>, \<open>replay_policy_invariant\<close>,
  \<open>engines_accounted_for\<close>), refinements of an abstract store (\<open>replay_implements_registers\<close>, \<open>tracker_implements_snapshots\<close>),
  independence of the order of arrival and of chunking, protection (\<open>no_escalation\<close>, \<open>running_generation_protected\<close>),
  equivalence with a grammar or a syntax tree (\<open>skip_exactly_one_value\<close>, \<open>condition_text_evaluated\<close>), fairness and release, round
  trips, and termination of every loop that is not structural.  Almost every recursion has its measure.  Two are
  bounded by an argument: the levels of labels above, and the nesting of \<open>parseExpression\<close>, for which one more than the number
  of tokens is enough (\<open>parser_returns\<close>).

  \<^bold>\<open>Parameters.\<close>  Arguments of the definitions stand for what is not in the repository or is not looked into: the encoding of
  scopes as strings (\<open>codec_scheme\<close>, with the round trip \<open>codec_ok\<close> as its hypothesis), the JSON text of an edit and digests; the JSON writer
  and reader of the version journal and the append of the host (\<open>serde_ok\<close>, \<open>file_appends\<close>); the
  Unicode classes of letters and digits (\<open>alpha\<close>, \<open>alnum\<close>); the markers of the message format and the typed decoders of
  serde; clocks and identities; the service behind a link session; the resolver of package states, the fingerprint of a
  container's source, and whether the factory creates an engine.  Machine counters that count the characters of a text or the
  calls of a run are unbounded numbers.  Convergence of replay and of merges is proved for histories in which no author's clock
  runs backwards (\<open>clock_monotone\<close>); without that it is false (\<open>newer_cycle\<close>).

  \<^bold>\<open>Not modelled.\<close>  The render stream and the XML splitter; the file, SQL and lock handling around histories and datasets
  (\<open>Kernel.rs\<close>, \<open>Journal.rs\<close>, the stores and repositories); of the control store, the SQL journal of a full node, the borrowed
  decoding and the retirement of an old journal; the decoding of link responses; preferences and their encryption; the
  asynchronous streams, whose sequential contract is modelled instead; transport, cryptography, serialisation; of the tool
  package manager, the reading and fingerprinting of resources, hook dispatch and listeners; the provider, tool and
  application services; user interfaces, hosts and generated code.
\<close>

end
